(* ===== verification/Prelude.thy ===== *)
theory Prelude
  imports "HOL-Library.Word" "HOL-Library.Char_ord" "HOL-Library.List_Lexorder"
begin

text \<open>
  What every component shares: Rust results as sums, the checked arithmetic of the
  unsigned integer types, strings as lists of bytes, and the validators of
  \<^verbatim>\<open>crates/sync-wire/src/lib.rs\<close> and \<^verbatim>\<open>head.rs\<close> for digests and identifiers.

  A Rust \<^verbatim>\<open>String\<close> is its UTF-8 byte sequence, one \<open>char\<close> per byte, so
  \<open>length\<close> is \<^verbatim>\<open>len()\<close> and the lexicographic order of lists is the byte order
  Rust compares strings with. \<^verbatim>\<open>u8\<close>, \<^verbatim>\<open>u32\<close> and \<^verbatim>\<open>u64\<close> are words of
  their width. A \<^verbatim>\<open>usize\<close> that counts elements of a list in memory is a \<open>nat\<close>:
  such a list is shorter than the address space, so these counters cannot wrap.
  SHA-256 with its lower-case hexadecimal printing is outside the repository; it is the
  parameter \<open>H\<close> of every definition that hashes.
\<close>

named_theorems result_simps "equations that resolve Rust results"
named_theorems codec_simps "equations of byte-level writers and readers"

section \<open>Integers and strings\<close>

type_synonym u8 = "8 word"
type_synonym u32 = "32 word"
type_synonym u64 = "64 word"
type_synonym bytes = "u8 list"

definition as_bytes :: "string \<Rightarrow> bytes" where
  "as_bytes s = map of_char s"

definition checked_add :: "'l::len word \<Rightarrow> 'l word \<Rightarrow> 'l word option" where
  "checked_add a b = (if unat a + unat b < 2 ^ LENGTH('l) then Some (a + b) else None)"

definition checked_sub :: "'l::len word \<Rightarrow> 'l word \<Rightarrow> 'l word option" where
  "checked_sub a b = (if b \<le> a then Some (a - b) else None)"

definition checked_add_usize :: "nat \<Rightarrow> nat \<Rightarrow> nat option" where
  "checked_add_usize a b = (if a + b < 2 ^ 64 then Some (a + b) else None)"

text \<open>\<^verbatim>\<open>slice.get(i)\<close>\<close>

definition get_at :: "'a list \<Rightarrow> nat \<Rightarrow> 'a option" where
  "get_at xs i = (if i < length xs then Some (xs ! i) else None)"

lemma checked_add_usize_Some [simp]:
  "checked_add_usize a b = Some c \<longleftrightarrow> c = a + b \<and> a + b < 2 ^ 64"
  by (auto simp: checked_add_usize_def)

lemma checked_add_usize_None [simp]: "checked_add_usize a b = None \<longleftrightarrow> 2 ^ 64 \<le> a + b"
  by (auto simp: checked_add_usize_def)

lemma get_at_Some [simp]: "get_at xs i = Some x \<longleftrightarrow> i < length xs \<and> xs ! i = x"
  by (auto simp: get_at_def)

lemma get_at_None [simp]: "get_at xs i = None \<longleftrightarrow> length xs \<le> i"
  by (auto simp: get_at_def)

lemma length_as_bytes [simp]: "length (as_bytes s) = length s"
  by (simp add: as_bytes_def)

lemma unat_add_no_wrap:
  fixes a b :: "'l::len word"
  assumes "unat a + unat b < 2 ^ LENGTH('l)"
  shows "unat (a + b) = unat a + unat b"
  using assms by (simp add: unat_word_ariths)

lemma checked_add_Some:
  fixes a b c :: "'l::len word"
  shows "checked_add a b = Some c \<longleftrightarrow> unat c = unat a + unat b"
proof
  assume "checked_add a b = Some c"
  then show "unat c = unat a + unat b"
    by (auto simp: checked_add_def unat_add_no_wrap split: if_splits)
next
  assume *: "unat c = unat a + unat b"
  then have small: "unat a + unat b < 2 ^ LENGTH('l)"
    using unsigned_less [of c, where ?'a = nat] by simp
  then have "unat (a + b) = unat c" using * by (simp add: unat_add_no_wrap)
  then have "a + b = c" by (simp add: word_unat_eq_iff)
  with small show "checked_add a b = Some c" by (simp add: checked_add_def)
qed

lemma checked_add_None:
  fixes a b :: "'l::len word"
  shows "checked_add a b = None \<longleftrightarrow> 2 ^ LENGTH('l) \<le> unat a + unat b"
  by (auto simp: checked_add_def)

lemma checked_sub_Some [simp]: "checked_sub a b = Some c \<longleftrightarrow> b \<le> a \<and> c = a - b"
  by (auto simp: checked_sub_def)

lemma checked_sub_None [simp]: "checked_sub a b = None \<longleftrightarrow> a < b"
  by (auto simp: checked_sub_def)

lemma unat_less_64: "unat (w :: u64) < 18446744073709551616"
  using unsigned_less [of w, where ?'a = nat] by simp

lemma unat_less_32: "unat (w :: u32) < 4294967296"
  using unsigned_less [of w, where ?'a = nat] by simp

lemma unat_less_8: "unat (w :: u8) < 256"
  using unsigned_less [of w, where ?'a = nat] by simp

lemma unat_of_nat_small:
  "n < 2 ^ LENGTH('l) \<Longrightarrow> unat (of_nat n :: 'l::len word) = n"
  by (simp add: unat_of_nat)

lemmas unat_of_nat_8 = unat_of_nat_small [where ?'l = 8, simplified]
lemmas unat_of_nat_32 = unat_of_nat_small [where ?'l = 32, simplified]
lemmas unat_of_nat_64 = unat_of_nat_small [where ?'l = 64, simplified]

lemma unat_ucast_32_64 [simp]: "unat (ucast (w :: u32) :: u64) = unat w"
  using unat_less_32 [of w] by (simp add: unsigned_ucast_eq take_bit_nat_eq_self)

lemma u64_exists: "(\<exists>w :: u64. unat w = n) \<longleftrightarrow> n < 18446744073709551616"
proof
  assume "n < 18446744073709551616"
  then have "unat (of_nat n :: u64) = n" by (rule unat_of_nat_64)
  then show "\<exists>w :: u64. unat w = n" ..
qed (auto simp: unat_less_64)

section \<open>Results\<close>

text \<open>
  \<^verbatim>\<open>WireError\<close> carries the error code. \<open>Panic\<close> stands for a Rust panic (a slice out
  of range, an \<^verbatim>\<open>unwrap\<close> of nothing), so that a theorem can say that none happens.
  \<open>bindE m f\<close> is \<^verbatim>\<open>f(m?)\<close>: the error returns early.
\<close>

datatype wire_error = WireError string | Panic

type_synonym 'a result = "wire_error + 'a"

definition bindE :: "'e + 'a \<Rightarrow> ('a \<Rightarrow> 'e + 'b) \<Rightarrow> 'e + 'b" where
  "bindE m f = (case m of Inl e \<Rightarrow> Inl e | Inr x \<Rightarrow> f x)"

definition ok_or :: "'a option \<Rightarrow> 'e \<Rightarrow> 'e + 'a" where
  "ok_or m e = (case m of None \<Rightarrow> Inl e | Some x \<Rightarrow> Inr x)"

definition is_ok :: "'e + 'a \<Rightarrow> bool" where
  "is_ok m = (case m of Inl _ \<Rightarrow> False | Inr _ \<Rightarrow> True)"

text \<open>A loop that leaves early with an error: the state is threaded through the elements.\<close>

fun foldE :: "('s \<Rightarrow> 'a \<Rightarrow> 'e + 's) \<Rightarrow> 's \<Rightarrow> 'a list \<Rightarrow> 'e + 's" where
  "foldE f s [] = Inr s"
| "foldE f s (x # xs) = bindE (f s x) (\<lambda>s'. foldE f s' xs)"

fun mapE :: "('a \<Rightarrow> 'e + 'b) \<Rightarrow> 'a list \<Rightarrow> 'e + 'b list" where
  "mapE f [] = Inr []"
| "mapE f (x # xs) = bindE (f x) (\<lambda>y. bindE (mapE f xs) (\<lambda>ys. Inr (y # ys)))"

lemma bindE_simps [simp, result_simps]:
  "bindE (Inl e) f = Inl e"
  "bindE (Inr x) f = f x"
  by (simp_all add: bindE_def)

lemma bindE_cong [fundef_cong]:
  "m = m' \<Longrightarrow> (\<And>x. m' = Inr x \<Longrightarrow> f x = f' x) \<Longrightarrow> bindE m f = bindE m' f'"
  by (cases m') (simp_all add: bindE_def)

lemma bindE_Inr [result_simps]: "bindE m f = Inr y \<longleftrightarrow> (\<exists>x. m = Inr x \<and> f x = Inr y)"
  by (cases m) simp_all

lemma bindE_Inl [result_simps]:
  "bindE m f = Inl e \<longleftrightarrow> m = Inl e \<or> (\<exists>x. m = Inr x \<and> f x = Inl e)"
  by (cases m) simp_all

lemma bindE_assoc: "bindE (bindE m f) g = bindE m (\<lambda>x. bindE (f x) g)"
  by (cases m) simp_all

lemma ok_or_simps [simp, result_simps]:
  "ok_or None e = Inl e"
  "ok_or (Some x) e = Inr x"
  by (simp_all add: ok_or_def)

lemma ok_or_Inr [simp]: "ok_or m e = Inr x \<longleftrightarrow> m = Some x"
  by (cases m) simp_all

lemma ok_or_Inl [simp]: "ok_or m e = Inl e' \<longleftrightarrow> m = None \<and> e' = e"
  by (cases m) auto

lemma bind_checked_add [result_simps]:
  fixes a b :: "'l::len word"
  shows "bindE (ok_or (checked_add a b) e) f = Inr y \<longleftrightarrow>
     unat a + unat b < 2 ^ LENGTH('l) \<and> f (a + b) = Inr y"
  by (auto simp: checked_add_def)

lemma bind_checked_add_usize [result_simps]:
  "bindE (ok_or (checked_add_usize a b) e) f = Inr y \<longleftrightarrow> a + b < 2 ^ 64 \<and> f (a + b) = Inr y"
  by (auto simp: checked_add_usize_def)

lemma is_ok_simps [simp]: "is_ok (Inl e) = False" "is_ok (Inr x) = True"
  by (simp_all add: is_ok_def)

lemma is_ok_iff: "is_ok m \<longleftrightarrow> (\<exists>x. m = Inr x)"
  by (cases m) simp_all

lemma foldE_append: "foldE f s (xs @ ys) = bindE (foldE f s xs) (\<lambda>s'. foldE f s' ys)"
  by (induction xs arbitrary: s) (simp_all add: bindE_assoc)

lemma foldE_all: "foldE (\<lambda>_ x. f x) () xs = Inr u \<longleftrightarrow> list_all (\<lambda>x. f x = Inr ()) xs"
  by (induction xs) (auto simp: bindE_Inr)

lemma foldE_invariant:
  assumes "foldE f s xs = Inr s'" and "P s"
    and "\<And>s x s'. x \<in> set xs \<Longrightarrow> P s \<Longrightarrow> f s x = Inr s' \<Longrightarrow> P s'"
  shows "P s'"
  using assms by (induction xs arbitrary: s) (auto simp: bindE_Inr)

lemma mapE_Inr_iff: "mapE f xs = Inr ys \<longleftrightarrow> list_all2 (\<lambda>x y. f x = Inr y) xs ys"
  by (induction xs arbitrary: ys) (auto simp: bindE_Inr list_all2_Cons1)

lemma mapE_append:
  "mapE f (xs @ ys) = bindE (mapE f xs) (\<lambda>as. bindE (mapE f ys) (\<lambda>bs. Inr (as @ bs)))"
  by (induction xs) (auto simp: bindE_def split: sum.splits)

lemma mapE_length: "mapE f xs = Inr ys \<Longrightarrow> length ys = length xs"
  by (auto simp: mapE_Inr_iff dest: list_all2_lengthD)

section \<open>ASCII classes and the shared validators\<close>

definition is_ascii_digit :: "char \<Rightarrow> bool" where
  "is_ascii_digit c \<longleftrightarrow> CHR ''0'' \<le> c \<and> c \<le> CHR ''9''"

definition is_lower_hex :: "char \<Rightarrow> bool" where
  "is_lower_hex c \<longleftrightarrow> is_ascii_digit c \<or> (CHR ''a'' \<le> c \<and> c \<le> CHR ''f'')"

definition is_ascii_hexdigit :: "char \<Rightarrow> bool" where
  "is_ascii_hexdigit c \<longleftrightarrow> is_lower_hex c \<or> (CHR ''A'' \<le> c \<and> c \<le> CHR ''F'')"

definition is_ascii_alphanumeric :: "char \<Rightarrow> bool" where
  "is_ascii_alphanumeric c \<longleftrightarrow> is_ascii_digit c \<or> (CHR ''a'' \<le> c \<and> c \<le> CHR ''z'')
     \<or> (CHR ''A'' \<le> c \<and> c \<le> CHR ''Z'')"

definition validate_hash :: "string \<Rightarrow> unit result" where
  "validate_hash value =
     (if length value \<noteq> 64 \<or> \<not> list_all is_lower_hex value
      then Inl (WireError ''invalid-hash'') else Inr ())"

definition validate_id :: "string \<Rightarrow> unit result" where
  "validate_id value =
     (if value = [] \<or> length value > 128
         \<or> \<not> list_all (\<lambda>b. is_ascii_alphanumeric b \<or> b = CHR ''-'' \<or> b = CHR ''_'') value
      then Inl (WireError ''invalid-id'') else Inr ())"

text \<open>What the digest parameter must deliver: 64 lower-case hexadecimal digits.\<close>

definition digest_fun :: "(bytes \<Rightarrow> string) \<Rightarrow> bool" where
  "digest_fun H \<longleftrightarrow> (\<forall>bs. validate_hash (H bs) = Inr ())"

lemma validate_hash_Inr [simp]:
  "validate_hash h = Inr u \<longleftrightarrow> length h = 64 \<and> list_all is_lower_hex h"
  by (auto simp: validate_hash_def)

lemma validate_hash_Inl [simp]:
  "validate_hash h = Inl e \<longleftrightarrow>
     \<not> (length h = 64 \<and> list_all is_lower_hex h) \<and> e = WireError ''invalid-hash''"
  by (auto simp: validate_hash_def)

lemma digest_funD [simp]: "digest_fun H \<Longrightarrow> validate_hash (H bs) = Inr ()"
  by (simp add: digest_fun_def del: validate_hash_Inr)

lemma byte_inj [simp]: "(of_char a :: u8) = of_char b \<longleftrightarrow> a = b"
proof
  assume "(of_char a :: u8) = of_char b"
  then have "unat (of_nat (of_char a) :: u8) = unat (of_nat (of_char b) :: u8)"
    by (simp only: of_nat_of_char)
  then have "(of_char a :: nat) mod 256 = of_char b mod 256"
    by (simp add: unat_of_nat)
  then show "a = b" by simp
qed simp

lemma as_bytes_inj: "as_bytes s = as_bytes t \<Longrightarrow> s = t"
  using byte_inj by (auto simp: as_bytes_def inj_on_def dest!: map_injective intro: injI)

section \<open>Decimal numbers\<close>

text \<open>\<^verbatim>\<open>to_string\<close> of an unsigned integer, and the value of a digit string.\<close>

definition digit_char :: "nat \<Rightarrow> char" where
  "digit_char d = ''0123456789'' ! d"

fun show_nat :: "nat \<Rightarrow> string" where
  "show_nat n = (if n < 10 then [digit_char n] else show_nat (n div 10) @ [digit_char (n mod 10)])"

declare show_nat.simps [simp del]

definition digit_value :: "char \<Rightarrow> nat" where
  "digit_value c = of_char c - 48"

definition read_nat :: "string \<Rightarrow> nat" where
  "read_nat s = foldl (\<lambda>acc c. acc * 10 + digit_value c) 0 s"

text \<open>No sign, no padding: the spelling \<^verbatim>\<open>to_string\<close> produces.\<close>

definition plain_decimal :: "string \<Rightarrow> bool" where
  "plain_decimal s \<longleftrightarrow> s \<noteq> [] \<and> \<not> (length s > 1 \<and> hd s = CHR ''0'') \<and> list_all is_ascii_digit s"

lemma digit_char_props: "d < 10 \<Longrightarrow> is_ascii_digit (digit_char d) \<and> digit_value (digit_char d) = d
    \<and> (digit_char d = CHR ''0'' \<longleftrightarrow> d = 0)"
proof -
  have "\<forall>d \<in> set [0..<10]. is_ascii_digit (digit_char d) \<and> digit_value (digit_char d) = d
    \<and> (digit_char d = CHR ''0'' \<longleftrightarrow> d = 0)"
    by code_simp
  then show "d < 10 \<Longrightarrow> ?thesis" by simp
qed

lemma ascii_digit_char: "is_ascii_digit c \<Longrightarrow> digit_value c < 10 \<and> digit_char (digit_value c) = c"
proof -
  assume "is_ascii_digit c"
  then have "48 \<le> (of_char c :: nat) \<and> of_char c < (58 :: nat)"
    by (auto simp: is_ascii_digit_def less_eq_char_def)
  then have "of_char c \<in> set [48..<58 :: nat]"
    unfolding set_upt atLeastLessThan_iff .
  moreover have "\<forall>k \<in> set [48..<58]. digit_value (char_of k) < 10
      \<and> digit_char (digit_value (char_of k)) = char_of k"
    by code_simp
  ultimately show ?thesis by (metis char_of_char)
qed

lemma read_nat_snoc: "read_nat (s @ [c]) = read_nat s * 10 + digit_value c"
  by (simp add: read_nat_def)

lemma read_nat_single: "read_nat [c] = digit_value c"
  by (simp add: read_nat_def)

lemma show_nat_digits: "show_nat n \<noteq> [] \<and> list_all is_ascii_digit (show_nat n)"
proof (induction n rule: show_nat.induct)
  case (1 n)
  then show ?case by (subst (1 2) show_nat.simps) (auto simp: digit_char_props)
qed

lemma read_show_nat [simp]: "read_nat (show_nat n) = n"
proof (induction n rule: show_nat.induct)
  case (1 n)
  then show ?case
    by (subst show_nat.simps) (auto simp: digit_char_props read_nat_snoc read_nat_single)
qed

lemma hd_show_nat: "n \<noteq> 0 \<Longrightarrow> hd (show_nat n) \<noteq> CHR ''0''"
proof (induction n rule: show_nat.induct)
  case (1 n)
  then show ?case
    by (subst show_nat.simps) (auto simp: digit_char_props hd_append show_nat_digits)
qed

lemma show_nat_plain: "plain_decimal (show_nat n)"
proof (cases "n = 0")
  case True
  then show ?thesis by (simp add: plain_decimal_def show_nat.simps digit_char_props)
next
  case False
  then show ?thesis by (simp add: plain_decimal_def show_nat_digits hd_show_nat)
qed

lemma read_nat_pos:
  "s \<noteq> [] \<Longrightarrow> list_all is_ascii_digit s \<Longrightarrow> hd s \<noteq> CHR ''0'' \<Longrightarrow> 0 < read_nat s"
proof (induction s rule: rev_induct)
  case (snoc c s)
  show ?case
  proof (cases "s = []")
    case True
    with snoc.prems have "is_ascii_digit c" "c \<noteq> CHR ''0''" by auto
    then have "digit_value c \<noteq> 0"
      using ascii_digit_char [of c] digit_char_props [of "digit_value c"] by metis
    with True show ?thesis by (simp add: read_nat_single)
  next
    case False
    with snoc show ?thesis by (simp add: read_nat_snoc)
  qed
qed simp

lemma show_read_nat: "plain_decimal s \<Longrightarrow> show_nat (read_nat s) = s"
proof (induction s rule: rev_induct)
  case Nil
  then show ?case by (simp add: plain_decimal_def)
next
  case (snoc c s)
  have c: "digit_value c < 10" "digit_char (digit_value c) = c"
    using snoc.prems by (auto simp: plain_decimal_def dest: ascii_digit_char)
  show ?case
  proof (cases "s = []")
    case True
    with c show ?thesis by (simp add: read_nat_single show_nat.simps)
  next
    case False
    then have hd0: "hd s \<noteq> CHR ''0''" and s: "list_all is_ascii_digit s" "plain_decimal s"
      using snoc.prems by (auto simp: plain_decimal_def)
    then have "0 < read_nat s" using False by (intro read_nat_pos)
    then have "\<not> read_nat s * 10 + digit_value c < 10" by simp
    with c snoc.IH [OF s(2)] show ?thesis
      by (subst show_nat.simps) (simp add: read_nat_snoc)
  qed
qed

end
