(* ===== verification/Codec.thy ===== *)
theory Codec
  imports Prelude
begin

text \<open>
  The byte-level readers and writers shared by \<^verbatim>\<open>crates/sync-wire/src/delta.rs\<close> and
  \<^verbatim>\<open>transfer.rs\<close>: \<^verbatim>\<open>take\<close>, \<^verbatim>\<open>put_hash\<close>, \<^verbatim>\<open>get_hash\<close> and the big-endian
  integers, and the interface \<open>codec\<close> that every field of the two frames meets: the
  reader undoes the writer, and accepts nothing the writer would not have written.
\<close>

section \<open>Reading from the front of a slice\<close>

definition take_bytes :: "nat \<Rightarrow> bytes \<Rightarrow> (bytes \<times> bytes) result" where
  "take_bytes count input =
     (if count > length input then Inl (WireError ''truncated-frame'')
      else Inr (take count input, drop count input))"

lemma take_bytes_append [simp, codec_simps]:
  "n = length a \<Longrightarrow> take_bytes n (a @ rest) = Inr (a, rest)"
  by (simp add: take_bytes_def)

lemma take_bytes_Inr [codec_simps]:
  "take_bytes n bs = Inr (a, rest) \<longleftrightarrow> bs = a @ rest \<and> length a = n"
  by (auto simp: take_bytes_def)

section \<open>Big-endian integers\<close>

fun be_digits :: "nat \<Rightarrow> nat \<Rightarrow> bytes" where
  "be_digits 0 x = []"
| "be_digits (Suc n) x = be_digits n (x div 256) @ [of_nat (x mod 256)]"

definition from_be :: "bytes \<Rightarrow> nat" where
  "from_be bs = foldl (\<lambda>acc b. acc * 256 + unat b) 0 bs"

definition u32_to_be :: "u32 \<Rightarrow> bytes" where
  "u32_to_be w = be_digits 4 (unat w)"

definition u64_to_be :: "u64 \<Rightarrow> bytes" where
  "u64_to_be w = be_digits 8 (unat w)"

definition u32_from_be :: "bytes \<Rightarrow> u32" where
  "u32_from_be bs = of_nat (from_be bs)"

definition u64_from_be :: "bytes \<Rightarrow> u64" where
  "u64_from_be bs = of_nat (from_be bs)"

lemma length_be_digits [simp]: "length (be_digits n x) = n"
  by (induction n arbitrary: x) simp_all

lemma from_be_snoc: "from_be (bs @ [b]) = from_be bs * 256 + unat b"
  by (simp add: from_be_def)

lemma from_be_be_digits: "from_be (be_digits n x) = x mod 256 ^ n"
proof (induction n arbitrary: x)
  case 0
  then show ?case by (simp add: from_be_def)
next
  case (Suc n)
  have "x mod 256 ^ Suc n = (x div 256 mod 256 ^ n) * 256 + x mod 256"
    by (simp add: mod_mult2_eq mult.commute)
  then show ?case
    by (simp add: from_be_snoc Suc unat_of_nat)
qed

lemma from_be_less: "from_be bs < 256 ^ length bs"
proof (induction bs rule: rev_induct)
  case Nil
  then show ?case by (simp add: from_be_def)
next
  case (snoc b bs)
  have "unat b < 256" using unsigned_less [of b, where ?'a = nat] by simp
  with snoc show ?case by (simp add: from_be_snoc)
qed

lemma be_digits_from_be: "n = length bs \<Longrightarrow> be_digits n (from_be bs) = bs"
proof (induction bs arbitrary: n rule: rev_induct)
  case Nil
  then show ?case by simp
next
  case (snoc b bs)
  have "unat b < 256" using unsigned_less [of b, where ?'a = nat] by simp
  with snoc show ?case by (simp add: from_be_snoc)
qed

lemma length_u32_to_be [simp]: "length (u32_to_be w) = 4"
  by (simp add: u32_to_be_def)

lemma length_u64_to_be [simp]: "length (u64_to_be w) = 8"
  by (simp add: u64_to_be_def)

lemma u32_from_to_be [simp]: "u32_from_be (u32_to_be w) = w"
proof -
  have "unat w < 256 ^ 4" using unsigned_less [of w, where ?'a = nat] by simp
  then show ?thesis by (simp add: u32_from_be_def u32_to_be_def from_be_be_digits)
qed

lemma u64_from_to_be [simp]: "u64_from_be (u64_to_be w) = w"
proof -
  have "unat w < 256 ^ 8" using unsigned_less [of w, where ?'a = nat] by simp
  then show ?thesis by (simp add: u64_from_be_def u64_to_be_def from_be_be_digits)
qed

lemma u32_to_from_be: "length bs = 4 \<Longrightarrow> u32_to_be (u32_from_be bs) = bs"
  using from_be_less [of bs]
  by (simp add: u32_from_be_def u32_to_be_def unat_of_nat be_digits_from_be)

lemma u64_to_from_be: "length bs = 8 \<Longrightarrow> u64_to_be (u64_from_be bs) = bs"
  using from_be_less [of bs]
  by (simp add: u64_from_be_def u64_to_be_def unat_of_nat be_digits_from_be)

definition get_u8 :: "bytes \<Rightarrow> (u8 \<times> bytes) result" where
  "get_u8 input = bindE (take_bytes 1 input) (\<lambda>(b, rest). Inr (hd b, rest))"

definition get_u32 :: "bytes \<Rightarrow> (u32 \<times> bytes) result" where
  "get_u32 input = bindE (take_bytes 4 input) (\<lambda>(b, rest). Inr (u32_from_be b, rest))"

definition get_u64 :: "bytes \<Rightarrow> (u64 \<times> bytes) result" where
  "get_u64 input = bindE (take_bytes 8 input) (\<lambda>(b, rest). Inr (u64_from_be b, rest))"

section \<open>Hexadecimal digests\<close>

definition hex_char :: "nat \<Rightarrow> char" where
  "hex_char n = ''0123456789abcdef'' ! n"

text \<open>The \<^verbatim>\<open>{:02x}\<close> format of a byte.\<close>

definition hex_byte :: "u8 \<Rightarrow> string" where
  "hex_byte b = [hex_char (unat b div 16), hex_char (unat b mod 16)]"

definition hex_value :: "char \<Rightarrow> nat option" where
  "hex_value c =
     (if is_ascii_digit c then Some (of_char c - 48)
      else if CHR ''a'' \<le> c \<and> c \<le> CHR ''f'' then Some (of_char c - 87)
      else if CHR ''A'' \<le> c \<and> c \<le> CHR ''F'' then Some (of_char c - 55)
      else None)"

fun hex_number :: "nat \<Rightarrow> string \<Rightarrow> nat option" where
  "hex_number acc [] = Some acc"
| "hex_number acc (c # cs) =
     (case hex_value c of None \<Rightarrow> None | Some d \<Rightarrow> hex_number (acc * 16 + d) cs)"

text \<open>\<^verbatim>\<open>u8::from_str_radix(s, 16)\<close>: one leading plus is allowed before at least one digit.\<close>

definition u8_from_hex :: "string \<Rightarrow> u8 option" where
  "u8_from_hex s =
     (let digits = (if length s > 1 \<and> hd s = CHR ''+'' then tl s else s) in
      if digits = [] then None
      else case hex_number 0 digits of
             None \<Rightarrow> None
           | Some n \<Rightarrow> if n < 256 then Some (of_nat n) else None)"

definition put_hash :: "string \<Rightarrow> bytes result" where
  "put_hash digest =
     mapE (\<lambda>i. if length digest < i + 2 then Inl Panic
               else ok_or (u8_from_hex (take 2 (drop i digest))) Panic)
       (map (\<lambda>k. 2 * k) [0..<32])"

definition get_hash :: "bytes \<Rightarrow> (string \<times> bytes) result" where
  "get_hash input =
     bindE (take_bytes 32 input) (\<lambda>(b, rest). Inr (concat (map hex_byte b), rest))"

lemma hex_char_cases: "n < 16 \<Longrightarrow> is_lower_hex (hex_char n) \<and> hex_value (hex_char n) = Some n"
proof -
  have "\<forall>n \<in> set [0..<16]. is_lower_hex (hex_char n) \<and> hex_value (hex_char n) = Some n"
    by code_simp
  then show "n < 16 \<Longrightarrow> ?thesis" by simp
qed

lemma lower_hex_is_hex_char:
  assumes "is_lower_hex c"
  obtains n where "n < 16" and "c = hex_char n"
proof -
  define k where "k = (of_char c :: nat)"
  have *: "\<forall>k \<in> set ([48..<58] @ [97..<103]).
      char_of k = hex_char (if k < 58 then k - 48 else k - 87)"
    by code_simp
  have c: "c = char_of k" by (simp add: k_def)
  from assms have "48 \<le> k \<and> k < 58 \<or> 97 \<le> k \<and> k < 103"
    by (auto simp: is_lower_hex_def is_ascii_digit_def less_eq_char_def k_def)
  then have "k \<in> set ([48..<58] @ [97..<103])"
    unfolding set_append set_upt atLeastLessThan_iff Un_iff .
  with * c have "c = hex_char (if k < 58 then k - 48 else k - 87)" by auto
  moreover from \<open>k \<in> _\<close> have "(if k < 58 then k - 48 else k - 87) < 16" by auto
  ultimately show ?thesis using that by blast
qed

lemma nibbles [simp]: "unat (b :: u8) div 16 < 16" "unat (b :: u8) mod 16 < 16"
  using unat_less_8 [of b] by (simp_all add: less_mult_imp_div_less)

lemma hex_byte_props [simp]:
  "length (hex_byte b) = 2"
  "list_all is_lower_hex (hex_byte b)"
  by (simp_all add: hex_byte_def hex_char_cases)

lemma hex_char_not_plus: "n < 16 \<Longrightarrow> hex_char n \<noteq> CHR ''+''"
  using hex_char_cases [of n]
  by (auto simp: is_lower_hex_def is_ascii_digit_def)

lemma u8_from_hex_byte [simp]: "u8_from_hex (hex_byte b) = Some b"
  using unat_less_8 [of b]
  by (simp add: u8_from_hex_def hex_byte_def hex_char_cases hex_char_not_plus)

lemma hex_pair_is_hex_byte:
  assumes "is_lower_hex c" and "is_lower_hex d"
  shows "\<exists>b. [c, d] = hex_byte b"
proof -
  obtain m n where mn: "m < 16" "c = hex_char m" "n < 16" "d = hex_char n"
    using assms by (metis lower_hex_is_hex_char)
  let ?b = "of_nat (16 * m + n) :: u8"
  have "16 * m + n < 256" using mn by simp
  then have "unat ?b = 16 * m + n" by (simp only: unat_of_nat) simp
  with mn have "[c, d] = hex_byte ?b" by (simp add: hex_byte_def)
  then show ?thesis by blast
qed

lemma hex_string_is_bytes:
  assumes "length h = 2 * n" and "list_all is_lower_hex h"
  shows "\<exists>bs. length bs = n \<and> h = concat (map hex_byte bs)"
  using assms
proof (induction n arbitrary: h)
  case 0
  then show ?case by simp
next
  case (Suc n)
  from Suc.prems(1) obtain c d h' where h: "h = c # d # h'"
    by (metis Suc_length_conv mult_Suc_right add_2_eq_Suc)
  with Suc.prems obtain bs where "length bs = n" "h' = concat (map hex_byte bs)"
    using Suc.IH [of h'] by auto
  moreover obtain b where "[c, d] = hex_byte b"
    using hex_pair_is_hex_byte Suc.prems(2) h by auto
  ultimately have "length (b # bs) = Suc n \<and> h = concat (map hex_byte (b # bs))"
    using h by (metis append_Cons append_Nil concat.simps(2) length_Cons list.simps(9))
  then show ?case by blast
qed

lemma concat_hex_props:
  "length (concat (map hex_byte bs)) = 2 * length bs"
  "list_all is_lower_hex (concat (map hex_byte bs))"
  by (induction bs) simp_all

lemma nth_concat_hex:
  "i < length bs \<Longrightarrow> take 2 (drop (2 * i) (concat (map hex_byte bs))) = hex_byte (bs ! i)"
  by (induction bs arbitrary: i) (auto simp: nth_Cons split: nat.split)

lemma put_hash_concat_hex [simp]:
  assumes "length bs = 32"
  shows "put_hash (concat (map hex_byte bs)) = Inr bs"
proof -
  have "list_all2 (\<lambda>i b. (if length (concat (map hex_byte bs)) < i + 2 then Inl Panic
               else ok_or (u8_from_hex (take 2 (drop i (concat (map hex_byte bs))))) Panic) = Inr b)
       (map (\<lambda>k. 2 * k) [0..<32]) bs"
    using assms
    by (auto simp: list_all2_conv_all_nth concat_hex_props nth_concat_hex)
  then show ?thesis by (simp add: put_hash_def mapE_Inr_iff)
qed

section \<open>The interface of a wire field\<close>

text \<open>
  \<open>put\<close> writes a field (or panics), \<open>get\<close> reads one from the front of the input. The
  laws a decoder of several fields relies on: reading undoes writing whatever follows,
  and whatever is read is exactly what writing the value gives.
\<close>

fun get_many :: "(bytes \<Rightarrow> ('a \<times> bytes) result) \<Rightarrow> nat \<Rightarrow> bytes \<Rightarrow> ('a list \<times> bytes) result" where
  "get_many get 0 input = Inr ([], input)"
| "get_many get (Suc n) input =
     bindE (get input) (\<lambda>(a, rest).
     bindE (get_many get n rest) (\<lambda>(as, rest'). Inr (a # as, rest')))"

definition put_many :: "('a \<Rightarrow> bytes result) \<Rightarrow> 'a list \<Rightarrow> bytes result" where
  "put_many put xs = bindE (mapE put xs) (\<lambda>bss. Inr (concat bss))"

lemma foldE_put_many:
  "foldE (\<lambda>out x. bindE (put x) (\<lambda>bs. Inr (out @ bs))) out xs
     = bindE (put_many put xs) (\<lambda>p. Inr (out @ p))"
proof (induction xs arbitrary: out)
  case Nil
  then show ?case by (simp add: put_many_def)
next
  case (Cons x xs)
  then show ?case by (cases "put x") (auto simp: put_many_def bindE_assoc)
qed

lemma put_many_pure: "put_many (\<lambda>x. Inr (f x)) xs = Inr (concat (map f xs))"
  by (induction xs) (auto simp: put_many_def bindE_Inr)

lemma put_many_Nil [simp]: "put_many put [] = Inr []"
  by (simp add: put_many_def)

lemma put_many_Cons:
  "put_many put (x # xs) = Inr p \<longleftrightarrow>
     (\<exists>a q. put x = Inr a \<and> put_many put xs = Inr q \<and> p = a @ q)"
  by (auto simp: put_many_def bindE_Inr)

locale codec =
  fixes put :: "'a \<Rightarrow> bytes result"
    and get :: "bytes \<Rightarrow> ('a \<times> bytes) result"
    and ok :: "'a \<Rightarrow> bool"
  assumes put_ok: "ok a \<Longrightarrow> \<exists>p. put a = Inr p"
    and get_put: "ok a \<Longrightarrow> put a = Inr p \<Longrightarrow> get (p @ rest) = Inr (a, rest)"
    and put_get: "get input = Inr (a, rest) \<Longrightarrow> ok a \<and> (\<exists>p. put a = Inr p \<and> input = p @ rest)"
begin

lemma put_many_ok: "list_all ok xs \<Longrightarrow> \<exists>p. put_many put xs = Inr p"
proof (induction xs)
  case Nil
  then show ?case by (simp add: put_many_def)
next
  case (Cons x xs)
  then obtain q where "put_many put xs = Inr q" by auto
  moreover obtain p where "put x = Inr p" using Cons.prems put_ok [of x] by auto
  ultimately show ?case by (auto simp: put_many_def bindE_Inr)
qed

lemma get_many_put_many:
  assumes "list_all ok xs" and "put_many put xs = Inr p"
  shows "get_many get (length xs) (p @ rest) = Inr (xs, rest)"
  using assms
proof (induction xs arbitrary: p)
  case Nil
  then show ?case by (simp add: put_many_def)
next
  case (Cons x xs)
  then obtain a q where a: "put x = Inr a" and q: "put_many put xs = Inr q" and p: "p = a @ q"
    by (auto simp: put_many_def bindE_Inr)
  have "get (a @ q @ rest) = Inr (x, q @ rest)"
    using Cons.prems a by (auto intro: get_put)
  moreover have "get_many get (length xs) (q @ rest) = Inr (xs, rest)"
    using Cons q by auto
  ultimately show ?case using p by simp
qed

lemma put_many_get_many:
  assumes "get_many get n input = Inr (xs, rest)"
  shows "length xs = n \<and> list_all ok xs \<and> (\<exists>p. put_many put xs = Inr p \<and> input = p @ rest)"
  using assms
proof (induction n arbitrary: input xs)
  case 0
  then show ?case by (simp add: put_many_def)
next
  case (Suc n)
  then obtain a ys mid where a: "get input = Inr (a, mid)"
    and ys: "get_many get n mid = Inr (ys, rest)" and xs: "xs = a # ys"
    by (auto simp: bindE_Inr)
  from put_get [OF a] obtain p where p: "ok a" "put a = Inr p" "input = p @ mid" by blast
  from Suc.IH [OF ys] obtain q where q: "length ys = n" "list_all ok ys"
    "put_many put ys = Inr q" "mid = q @ rest" by blast
  from p q xs show ?case
    by (auto simp: put_many_def bindE_Inr)
qed

end

text \<open>A field of fixed width: what \<^verbatim>\<open>encoded_len\<close> adds up without writing anything.\<close>

locale sized_codec = codec put get ok
  for put :: "'a \<Rightarrow> bytes result" and get :: "bytes \<Rightarrow> ('a \<times> bytes) result" and ok :: "'a \<Rightarrow> bool" +
  fixes width :: nat
  assumes put_width: "ok a \<Longrightarrow> put a = Inr p \<Longrightarrow> length p = width"
begin

lemma put_many_width:
  "list_all ok xs \<Longrightarrow> put_many put xs = Inr p \<Longrightarrow> length p = width * length xs"
proof (induction xs arbitrary: p)
  case Nil
  then show ?case by (simp add: put_many_def)
next
  case (Cons x xs)
  then obtain a q where a: "put x = Inr a" and q: "put_many put xs = Inr q" and p: "p = a @ q"
    by (auto simp: put_many_def bindE_Inr)
  with Cons show ?case by (auto dest: put_width)
qed

end

interpretation u8_field: sized_codec "\<lambda>b. Inr [b]" get_u8 "\<lambda>_. True" 1
  by unfold_locales (auto simp: get_u8_def bindE_Inr take_bytes_Inr length_Suc_conv)

interpretation u32_field: sized_codec "\<lambda>w. Inr (u32_to_be w)" get_u32 "\<lambda>_. True" 4
  by unfold_locales (auto simp: get_u32_def bindE_Inr take_bytes_Inr u32_to_from_be)

interpretation u64_field: sized_codec "\<lambda>w. Inr (u64_to_be w)" get_u64 "\<lambda>_. True" 8
  by unfold_locales (auto simp: get_u64_def bindE_Inr take_bytes_Inr u64_to_from_be)

definition hash_ok :: "string \<Rightarrow> bool" where
  "hash_ok h \<longleftrightarrow> length h = 64 \<and> list_all is_lower_hex h"

lemma hash_ok_hex: "hash_ok h \<longleftrightarrow> (\<exists>bs. length bs = 32 \<and> h = concat (map hex_byte bs))"
  using hex_string_is_bytes [of h 32] by (auto simp: hash_ok_def concat_hex_props)

lemma validate_hash_ok [simp]: "validate_hash h = Inr u \<longleftrightarrow> hash_ok h"
  by (simp add: hash_ok_def)

declare validate_hash_Inr [simp del]

interpretation hash_field: sized_codec put_hash get_hash hash_ok 32
proof (unfold_locales, goal_cases)
  case (1 a)
  then show ?case by (auto simp: hash_ok_hex)
next
  case (2 a p rest)
  then show ?case by (auto simp: hash_ok_hex get_hash_def)
next
  case (3 input a rest)
  then show ?case by (auto simp: hash_ok_hex get_hash_def bindE_Inr take_bytes_Inr)
next
  case (4 a p)
  then show ?case by (auto simp: hash_ok_hex)
qed

end
