(* ===== verification/Delta.thy ===== *)
theory Delta
  imports Codec
begin

text \<open>
  The exact-byte delta recipes of \<^verbatim>\<open>crates/sync-wire/src/delta.rs\<close>: \<^verbatim>\<open>Base\<close>,
  \<^verbatim>\<open>Op\<close>, \<^verbatim>\<open>Recipe\<close>, their validation, application, length and byte format. The
  search that builds a recipe is in \<open>Delta_Create\<close>. The test-only observer calls of the
  source have no effect on results and are left out.
\<close>

section \<open>Recipes\<close>

definition MAX_BASES :: nat where "MAX_BASES = 4"
definition MAX_TARGET_BYTES :: nat where "MAX_TARGET_BYTES = 16 * 1024 * 1024"
definition MAX_BASE_BYTES :: nat where "MAX_BASE_BYTES = 32 * 1024 * 1024"
definition MAX_PATCH_BYTES :: nat where "MAX_PATCH_BYTES = 8 * 1024 * 1024"
definition MAX_OPS :: nat where "MAX_OPS = 262144"
definition BLOCK :: nat where "BLOCK = 64"
definition MAX_SEARCH_BYTES :: nat where "MAX_SEARCH_BYTES = 256 * 1024"

lemmas delta_limits = MAX_BASES_def MAX_TARGET_BYTES_def MAX_BASE_BYTES_def
  MAX_PATCH_BYTES_def MAX_OPS_def BLOCK_def MAX_SEARCH_BYTES_def

record base =
  base_hash :: string
  base_size :: u64

datatype op = Copy u8 u64 u32 | Insert bytes

record recipe =
  bases :: "base list"
  target_hash :: string
  target_size :: u64
  ops :: "op list"

section \<open>Validation\<close>

text \<open>The base loop of \<^verbatim>\<open>validate_limits\<close>: the running sum and the digests seen so far.\<close>

definition base_step :: "u64 \<times> string list \<Rightarrow> base \<Rightarrow> (u64 \<times> string list) result" where
  "base_step = (\<lambda>(sum, seen) b.
     bindE (validate_hash (base_hash b)) (\<lambda>_.
     bindE (ok_or (checked_add sum (base_size b)) (WireError ''delta-limit'')) (\<lambda>sum'.
     if base_hash b \<in> set seen then Inl (WireError ''duplicate-base'')
     else Inr (sum', base_hash b # seen))))"

text \<open>The operation loop: the output length and the literal bytes so far.\<close>

definition op_step :: "base list \<Rightarrow> u64 \<Rightarrow> u64 \<times> nat \<Rightarrow> op \<Rightarrow> (u64 \<times> nat) result" where
  "op_step bs target = (\<lambda>(output, literal) op.
     bindE
       (case op of
          Insert bytes \<Rightarrow>
            bindE (ok_or (checked_add_usize literal (length bytes)) (WireError ''delta-limit''))
              (\<lambda>literal'. Inr (of_nat (length bytes), literal'))
        | Copy b offset len \<Rightarrow>
            bindE (ok_or (get_at bs (unat b)) (WireError ''invalid-copy'')) (\<lambda>source.
              case checked_add offset (ucast len) of
                None \<Rightarrow> Inl (WireError ''invalid-copy'')
              | Some v \<Rightarrow> if v > base_size source then Inl (WireError ''invalid-copy'')
                          else Inr (ucast len, literal)))
       (\<lambda>(len, literal').
          if len = 0 then Inl (WireError ''empty-delta-op'')
          else bindE (ok_or (checked_add output len) (WireError ''delta-limit'')) (\<lambda>output'.
            if output' > target \<or> literal' > MAX_PATCH_BYTES then Inl (WireError ''delta-limit'')
            else Inr (output', literal'))))"

definition validate_limits :: "recipe \<Rightarrow> u64 \<Rightarrow> u64 \<Rightarrow> unit result" where
  "validate_limits r max_target max_bases =
     bindE (validate_hash (target_hash r)) (\<lambda>_.
     if length (bases r) > MAX_BASES \<or> target_size r > max_target \<or> length (ops r) > MAX_OPS
     then Inl (WireError ''delta-limit'')
     else bindE (foldE base_step (0, []) (bases r)) (\<lambda>(sum, _).
       if sum > max_bases then Inl (WireError ''delta-limit'')
       else bindE (foldE (op_step (bases r) (target_size r)) (0, 0) (ops r)) (\<lambda>(output, _).
         if output \<noteq> target_size r then Inl (WireError ''target-size-mismatch'') else Inr ())))"

definition validate :: "recipe \<Rightarrow> unit result" where
  "validate r = validate_limits r (of_nat MAX_TARGET_BYTES) (of_nat MAX_BASE_BYTES)"

text \<open>What a valid recipe is, without the loops.\<close>

fun op_len :: "op \<Rightarrow> nat" where
  "op_len (Insert bs) = length bs"
| "op_len (Copy b offset len) = unat len"

fun op_literal :: "op \<Rightarrow> nat" where
  "op_literal (Insert bs) = length bs"
| "op_literal (Copy b offset len) = 0"

fun op_ok :: "base list \<Rightarrow> op \<Rightarrow> bool" where
  "op_ok bs (Insert ys) \<longleftrightarrow> ys \<noteq> []"
| "op_ok bs (Copy b offset len) \<longleftrightarrow> len \<noteq> 0 \<and> unat b < length bs
     \<and> unat offset + unat len \<le> unat (base_size (bs ! unat b))"

definition valid_recipe :: "recipe \<Rightarrow> u64 \<Rightarrow> u64 \<Rightarrow> bool" where
  "valid_recipe r max_target max_bases \<longleftrightarrow>
     hash_ok (target_hash r)
     \<and> length (bases r) \<le> MAX_BASES \<and> target_size r \<le> max_target \<and> length (ops r) \<le> MAX_OPS
     \<and> list_all (\<lambda>b. hash_ok (base_hash b)) (bases r) \<and> distinct (map base_hash (bases r))
     \<and> sum_list (map (\<lambda>b. unat (base_size b)) (bases r)) \<le> unat max_bases
     \<and> list_all (op_ok (bases r)) (ops r)
     \<and> sum_list (map op_len (ops r)) = unat (target_size r)
     \<and> sum_list (map op_literal (ops r)) \<le> MAX_PATCH_BYTES"

lemma base_step_Inr:
  "base_step (s, seen) b = Inr (s', seen') \<longleftrightarrow>
     hash_ok (base_hash b) \<and> base_hash b \<notin> set seen
     \<and> unat s + unat (base_size b) < 18446744073709551616 \<and> s' = s + base_size b
     \<and> seen' = base_hash b # seen"
  by (auto simp: base_step_def bindE_Inr checked_add_def split: if_splits)

lemma base_loop:
  "foldE base_step (s, seen) bs = Inr (s', seen') \<longleftrightarrow>
     list_all (\<lambda>b. hash_ok (base_hash b)) bs \<and> distinct (map base_hash bs)
     \<and> set (map base_hash bs) \<inter> set seen = {}
     \<and> unat s' = unat s + sum_list (map (\<lambda>b. unat (base_size b)) bs)
     \<and> seen' = rev (map base_hash bs) @ seen"
proof (induction bs arbitrary: s seen)
  case Nil
  then show ?case by (auto simp: word_unat_eq_iff)
next
  case (Cons b bs)
  let ?fits = "unat s + unat (base_size b) < 18446744073709551616"
  have sum: "?fits \<Longrightarrow> unat (s + base_size b) = unat s + unat (base_size b)"
    by (simp add: unat_add_no_wrap)
  show ?case
  proof (cases ?fits)
    case True
    then show ?thesis by (auto simp: base_step_Inr bindE_Inr Cons sum)
  next
    case False
    then show ?thesis using unat_less_64 [of s'] by (auto simp: base_step_Inr bindE_Inr)
  qed
qed

lemma op_step_Copy:
  "op_step bs target (out, lit) (Copy b off len) = Inr (out', lit') \<longleftrightarrow>
     op_ok bs (Copy b off len) \<and> unat out + unat len < 18446744073709551616
     \<and> out' = out + ucast len \<and> lit' = lit \<and> out' \<le> target \<and> lit' \<le> MAX_PATCH_BYTES"
proof -
  have len0: "(ucast len :: u64) = 0 \<longleftrightarrow> len = 0"
    by (metis unat_ucast_32_64 unat_eq_zero unat_0)
  have fits: "unat off + unat len < 18446744073709551616"
    if "unat off + unat len \<le> unat (t :: u64)" for t
    using that unat_less_64 [of t] by simp
  have v: "unat (off + ucast len :: u64) = unat off + unat len"
    if "unat off + unat len < 18446744073709551616"
    using that by (simp add: unat_add_no_wrap)
  show ?thesis
    by (cases "unat off + unat len < 18446744073709551616"; cases "unat b < length bs")
      (auto simp: op_step_def bindE_Inr checked_add_def len0 v get_at_def
        word_le_nat_alt word_less_nat_alt not_less dest: fits split: if_splits)
qed

lemma op_step_Insert:
  "op_step bs target (out, lit) (Insert ys) = Inr (out', lit') \<longleftrightarrow>
     op_ok bs (Insert ys) \<and> unat out + length ys < 18446744073709551616
     \<and> out' = out + of_nat (length ys) \<and> lit' = lit + length ys
     \<and> out' \<le> target \<and> lit' \<le> MAX_PATCH_BYTES"
proof (cases "length ys < 18446744073709551616")
  case True
  then have len: "unat (of_nat (length ys) :: u64) = length ys" by (rule unat_of_nat_64)
  then have "(of_nat (length ys) :: u64) = 0 \<longleftrightarrow> ys = []"
    by (metis length_0_conv unat_0 unat_eq_zero)
  with len show ?thesis
    by (auto simp: op_step_def bindE_Inr checked_add_def MAX_PATCH_BYTES_def split: if_splits)
next
  case False
  then show ?thesis by (auto simp: op_step_def bindE_Inr MAX_PATCH_BYTES_def)
qed

lemma op_step_Inr:
  "op_step bs target (out, lit) op = Inr (out', lit') \<longleftrightarrow>
     op_ok bs op \<and> unat out + op_len op < 18446744073709551616
     \<and> out' = out + of_nat (op_len op) \<and> lit' = lit + op_literal op
     \<and> out' \<le> target \<and> lit' \<le> MAX_PATCH_BYTES"
proof (cases op)
  case (Copy b off len)
  have "(of_nat (unat len) :: u64) = ucast len" by simp
  with Copy show ?thesis by (simp add: op_step_Copy)
next
  case (Insert ys)
  then show ?thesis by (simp add: op_step_Insert)
qed

lemma op_loop:
  "foldE (op_step bs target) (out, lit) os = Inr (out', lit') \<longleftrightarrow>
     list_all (op_ok bs) os
     \<and> unat out' = unat out + sum_list (map op_len os)
     \<and> lit' = lit + sum_list (map op_literal os)
     \<and> (os \<noteq> [] \<longrightarrow> out' \<le> target \<and> lit' \<le> MAX_PATCH_BYTES)"
proof (induction os arbitrary: out lit)
  case Nil
  then show ?case by (auto simp: word_unat_eq_iff)
next
  case (Cons op os)
  let ?fits = "unat out + op_len op < 18446744073709551616"
  have sum: "unat (out + of_nat (op_len op)) = unat out + op_len op" if ?fits
    using that by (simp add: unat_add_no_wrap unat_of_nat_64)
  have step: "foldE (op_step bs target) (out, lit) (op # os) = Inr (out', lit') \<longleftrightarrow>
      op_ok bs op \<and> ?fits \<and> unat out + op_len op \<le> unat target \<and> lit + op_literal op \<le> MAX_PATCH_BYTES
      \<and> foldE (op_step bs target) (out + of_nat (op_len op), lit + op_literal op) os = Inr (out', lit')"
    by (auto simp: bindE_Inr op_step_Inr word_le_nat_alt sum)
  show ?case
  proof (cases ?fits)
    case True
    then show ?thesis unfolding step Cons.IH by (auto simp: sum word_le_nat_alt)
  next
    case False
    then show ?thesis unfolding step using unat_less_64 [of out'] by auto
  qed
qed

lemma validate_limits_iff:
  "validate_limits r mt mb = Inr () \<longleftrightarrow> valid_recipe r mt mb"
proof -
  have bases: "(\<exists>s seen. foldE base_step (0, []) (bases r) = Inr (s, seen) \<and> s \<le> mb) \<longleftrightarrow>
      list_all (\<lambda>b. hash_ok (base_hash b)) (bases r) \<and> distinct (map base_hash (bases r))
      \<and> sum_list (map (\<lambda>b. unat (base_size b)) (bases r)) \<le> unat mb"
  proof (cases "sum_list (map (\<lambda>b. unat (base_size b)) (bases r)) \<le> unat mb")
    case True
    then have "unat (of_nat (sum_list (map (\<lambda>b. unat (base_size b)) (bases r))) :: u64) =
        sum_list (map (\<lambda>b. unat (base_size b)) (bases r))"
      using unat_less_64 [of mb] by (intro unat_of_nat_64) simp
    with True show ?thesis by (auto simp: base_loop word_le_nat_alt)
  qed (auto simp: base_loop word_le_nat_alt)
  have ops: "(\<exists>l. foldE (op_step (bases r) (target_size r)) (0, 0) (ops r) = Inr (target_size r, l)) \<longleftrightarrow>
      list_all (op_ok (bases r)) (ops r) \<and> sum_list (map op_len (ops r)) = unat (target_size r)
      \<and> sum_list (map op_literal (ops r)) \<le> MAX_PATCH_BYTES"
    by (cases "ops r = []") (auto simp: op_loop unat_eq_zero)
  have "validate_limits r mt mb = Inr () \<longleftrightarrow>
      hash_ok (target_hash r) \<and> length (bases r) \<le> MAX_BASES \<and> target_size r \<le> mt
      \<and> length (ops r) \<le> MAX_OPS
      \<and> (\<exists>s seen. foldE base_step (0, []) (bases r) = Inr (s, seen) \<and> s \<le> mb)
      \<and> (\<exists>l. foldE (op_step (bases r) (target_size r)) (0, 0) (ops r) = Inr (target_size r, l))"
    by (auto simp: validate_limits_def bindE_Inr not_less split: if_splits prod.splits)
  then show ?thesis
    by (simp only: bases ops valid_recipe_def) blast
qed

lemma validate_iff:
  "validate r = Inr () \<longleftrightarrow> valid_recipe r (of_nat MAX_TARGET_BYTES) (of_nat MAX_BASE_BYTES)"
  by (simp add: validate_def validate_limits_iff)

section \<open>Application\<close>

definition check_base :: "(bytes \<Rightarrow> string) \<Rightarrow> bytes \<times> base \<Rightarrow> unit result" where
  "check_base H = (\<lambda>(bytes, b).
     if of_nat (length bytes) \<noteq> base_size b \<or> H bytes \<noteq> base_hash b
     then Inl (WireError ''base-hash-mismatch'') else Inr ())"

definition apply_op :: "bytes list \<Rightarrow> op \<Rightarrow> bytes result" where
  "apply_op sources op = (case op of
     Insert bytes \<Rightarrow> Inr bytes
   | Copy b offset len \<Rightarrow>
       (case get_at sources (unat b) of
          None \<Rightarrow> Inl Panic
        | Some source \<Rightarrow>
            if unat offset + unat len > length source then Inl Panic
            else Inr (take (unat len) (drop (unat offset) source))))"

definition recipe_apply :: "(bytes \<Rightarrow> string) \<Rightarrow> recipe \<Rightarrow> bytes list \<Rightarrow> bytes result" where
  "recipe_apply H r sources =
     bindE (validate r) (\<lambda>_.
     if length sources \<noteq> length (bases r) then Inl (WireError ''missing-base'')
     else bindE (foldE (\<lambda>_. check_base H) () (zip sources (bases r))) (\<lambda>_.
     bindE (foldE (\<lambda>output op. bindE (apply_op sources op) (\<lambda>bs. Inr (output @ bs))) [] (ops r))
       (\<lambda>output.
     if H output \<noteq> target_hash r then Inl (WireError ''target-hash-mismatch'')
     else Inr output)))"

text \<open>What an operation denotes over its sources, where its slice is in range.\<close>

fun op_bytes :: "bytes list \<Rightarrow> op \<Rightarrow> bytes" where
  "op_bytes sources (Insert bs) = bs"
| "op_bytes sources (Copy b offset len) = take (unat len) (drop (unat offset) (sources ! unat b))"

fun op_in_range :: "bytes list \<Rightarrow> op \<Rightarrow> bool" where
  "op_in_range sources (Insert bs) \<longleftrightarrow> True"
| "op_in_range sources (Copy b offset len) \<longleftrightarrow>
     unat b < length sources \<and> unat offset + unat len \<le> length (sources ! unat b)"

definition denote :: "bytes list \<Rightarrow> op list \<Rightarrow> bytes" where
  "denote sources os = concat (map (op_bytes sources) os)"

lemma denote_simps [simp]:
  "denote sources [] = []"
  "denote sources (op # os) = op_bytes sources op @ denote sources os"
  "denote sources (os @ os') = denote sources os @ denote sources os'"
  by (simp_all add: denote_def)

lemma apply_op_in_range: "op_in_range sources op \<Longrightarrow> apply_op sources op = Inr (op_bytes sources op)"
  by (cases op) (auto simp: apply_op_def get_at_def)

lemma apply_op_Inr: "apply_op sources op = Inr bs \<longleftrightarrow> op_in_range sources op \<and> bs = op_bytes sources op"
  by (cases op) (auto simp: apply_op_def get_at_def)

lemma length_op_bytes: "op_in_range sources op \<Longrightarrow> length (op_bytes sources op) = op_len op"
  by (cases op) auto

lemma length_denote:
  "list_all (op_in_range sources) os \<Longrightarrow> length (denote sources os) = sum_list (map op_len os)"
  by (induction os) (auto simp: length_op_bytes)

lemma apply_ops:
  "list_all (op_in_range sources) os \<Longrightarrow>
   foldE (\<lambda>output op. bindE (apply_op sources op) (\<lambda>bs. Inr (output @ bs))) out os
     = Inr (out @ denote sources os)"
  by (induction os arbitrary: out) (auto simp: apply_op_in_range)

lemma check_bases:
  "length sources = length bs \<Longrightarrow>
   foldE (\<lambda>_. check_base H) () (zip sources bs) = Inr () \<longleftrightarrow>
     list_all2 (\<lambda>s b. of_nat (length s) = base_size b \<and> H s = base_hash b) sources bs"
  by (induction sources bs rule: list_induct2)
    (auto simp: bindE_Inr check_base_def split: if_splits)

lemma op_ok_in_range:
  assumes "op_ok bs op"
    and "list_all2 (\<lambda>s b. of_nat (length s) = base_size b \<and> H s = base_hash b) sources bs"
  shows "op_in_range sources op"
proof (cases op)
  case (Copy b off len)
  with assms have b: "unat b < length sources" "of_nat (length (sources ! unat b)) = base_size (bs ! unat b)"
    by (auto simp: list_all2_conv_all_nth)
  then have "unat (base_size (bs ! unat b)) \<le> length (sources ! unat b)"
    by (metis unat_of_nat mod_less_eq_dividend)
  with Copy assms(1) b show ?thesis by auto
qed simp

lemma recipe_apply_Inr:
  "recipe_apply H r sources = Inr out \<longleftrightarrow>
     validate r = Inr ()
     \<and> list_all2 (\<lambda>s b. of_nat (length s) = base_size b \<and> H s = base_hash b) sources (bases r)
     \<and> out = denote sources (ops r) \<and> H out = target_hash r"
proof (cases "validate r = Inr () \<and>
    list_all2 (\<lambda>s b. of_nat (length s) = base_size b \<and> H s = base_hash b) sources (bases r)")
  case True
  then have "list_all (op_in_range sources) (ops r)"
    by (auto simp: validate_iff valid_recipe_def list_all_iff intro: op_ok_in_range)
  with True show ?thesis
    by (auto simp: recipe_apply_def bindE_Inr apply_ops check_bases list_all2_lengthD)
next
  case False
  then show ?thesis
    by (auto simp: recipe_apply_def bindE_Inr check_bases split: if_splits)
qed

lemma foldE_no_panic:
  assumes "\<And>s x. x \<in> set xs \<Longrightarrow> f s x \<noteq> Inl Panic"
  shows "foldE f s xs \<noteq> Inl Panic"
  using assms by (induction xs arbitrary: s) (auto simp: bindE_Inl)

lemma validate_limits_no_panic: "validate_limits r max_target max_bases \<noteq> Inl Panic"
proof -
  have base: "base_step s b \<noteq> Inl Panic" for s b
    by (auto simp: base_step_def bindE_Inl hash_ok_def split: prod.splits if_splits)
  have op: "op_step bs t s op \<noteq> Inl Panic" for bs t s op
    by (auto simp: op_step_def bindE_Inl split: prod.splits if_splits op.splits option.splits)
  show ?thesis
    using foldE_no_panic [of "bases r" base_step] base
      foldE_no_panic [of "ops r" "op_step (bases r) (target_size r)"] op
    by (auto simp: validate_limits_def bindE_Inl split: prod.splits if_splits)
qed

lemma validate_no_panic: "validate r \<noteq> Inl Panic"
  by (simp add: validate_def validate_limits_no_panic)

lemma recipe_apply_no_panic: "recipe_apply H r sources \<noteq> Inl Panic"
proof
  assume panic: "recipe_apply H r sources = Inl Panic"
  have bases: "foldE (\<lambda>_. check_base H) () (zip sources (bases r)) \<noteq> Inl Panic"
    by (rule foldE_no_panic) (auto simp: check_base_def split: prod.splits)
  have "list_all (op_in_range sources) (ops r)"
    if "validate r = Inr ()" "length sources = length (bases r)"
      "foldE (\<lambda>_. check_base H) () (zip sources (bases r)) = Inr ()"
    using that
    by (auto simp: validate_iff valid_recipe_def list_all_iff check_bases intro: op_ok_in_range)
  with panic validate_no_panic [of r] bases show False
    by (auto simp: recipe_apply_def bindE_Inl apply_ops split: if_splits)
qed

section \<open>The byte format\<close>

definition put_base :: "base \<Rightarrow> bytes result" where
  "put_base b = bindE (put_hash (base_hash b)) (\<lambda>h. Inr (h @ u64_to_be (base_size b)))"

definition get_base :: "bytes \<Rightarrow> (base \<times> bytes) result" where
  "get_base input =
     bindE (get_hash input) (\<lambda>(h, rest).
     bindE (get_u64 rest) (\<lambda>(n, rest'). Inr (\<lparr>base_hash = h, base_size = n\<rparr>, rest')))"

definition put_op :: "op \<Rightarrow> bytes" where
  "put_op op = (case op of
     Insert bytes \<Rightarrow> [0] @ u32_to_be (of_nat (length bytes)) @ bytes
   | Copy b offset len \<Rightarrow> [1, b] @ u64_to_be offset @ u32_to_be len)"

definition get_op :: "bytes \<Rightarrow> (op \<times> bytes) result" where
  "get_op input =
     bindE (get_u8 input) (\<lambda>(tag, rest).
     if tag = 0 then
       bindE (get_u32 rest) (\<lambda>(len, rest').
       bindE (take_bytes (unat len) rest') (\<lambda>(bytes, rest''). Inr (Insert bytes, rest'')))
     else if tag = 1 then
       bindE (get_u8 rest) (\<lambda>(b, rest1).
       bindE (get_u64 rest1) (\<lambda>(offset, rest2).
       bindE (get_u32 rest2) (\<lambda>(len, rest3). Inr (Copy b offset len, rest3))))
     else Inl (WireError ''unknown-delta-op''))"

text \<open>One turn of the operation loop of \<^verbatim>\<open>encode_profile\<close>, with its size check.\<close>

definition emit_op :: "bytes \<Rightarrow> op \<Rightarrow> bytes result" where
  "emit_op out op =
     (let out' = out @ put_op op in
      if length out' > MAX_PATCH_BYTES then Inl (WireError ''delta-limit'') else Inr out')"

definition encode_profile :: "recipe \<Rightarrow> bytes \<Rightarrow> bytes result" where
  "encode_profile r magic =
     bindE (put_hash (target_hash r)) (\<lambda>h.
     bindE (foldE (\<lambda>out b. bindE (put_base b) (\<lambda>bs. Inr (out @ bs)))
              (magic @ h @ u64_to_be (target_size r) @ [of_nat (length (bases r))]) (bases r)) (\<lambda>out.
     foldE emit_op (out @ u32_to_be (of_nat (length (ops r)))) (ops r)))"

definition encode :: "recipe \<Rightarrow> bytes result" where
  "encode r = bindE (validate r) (\<lambda>_. encode_profile r (as_bytes ''RNSD''))"

definition decode_profile :: "bytes \<Rightarrow> bytes \<Rightarrow> recipe result" where
  "decode_profile input magic =
     (if length input > MAX_PATCH_BYTES then Inl (WireError ''delta-limit'')
      else
        bindE (take_bytes 4 input) (\<lambda>(m, i1).
        if m \<noteq> magic then Inl (WireError ''invalid-magic'')
        else
          bindE (get_hash i1) (\<lambda>(th, i2).
          bindE (get_u64 i2) (\<lambda>(ts, i3).
          bindE (get_u8 i3) (\<lambda>(nb, i4).
          if unat nb > MAX_BASES then Inl (WireError ''delta-limit'')
          else
            bindE (get_many get_base (unat nb) i4) (\<lambda>(bs, i5).
            bindE (get_u32 i5) (\<lambda>(no, i6).
            if unat no > MAX_OPS then Inl (WireError ''delta-limit'')
            else
              bindE (get_many get_op (unat no) i6) (\<lambda>(os, i7).
              if i7 \<noteq> [] then Inl (WireError ''trailing-bytes'')
              else Inr \<lparr>bases = bs, target_hash = th, target_size = ts, ops = os\<rparr>))))))))"

definition decode :: "bytes \<Rightarrow> recipe result" where
  "decode input =
     bindE (decode_profile input (as_bytes ''RNSD'')) (\<lambda>r. bindE (validate r) (\<lambda>_. Inr r))"

definition op_size :: "op \<Rightarrow> nat option" where
  "op_size op = (case op of Insert bytes \<Rightarrow> checked_add_usize (length bytes) 5 | Copy _ _ _ \<Rightarrow> Some 14)"

definition len_step :: "nat \<Rightarrow> op \<Rightarrow> nat result" where
  "len_step len op =
     bindE (ok_or (op_size op) (WireError ''delta-limit'')) (\<lambda>n.
     ok_or (case checked_add_usize len n of
              None \<Rightarrow> None
            | Some n' \<Rightarrow> if n' \<le> MAX_PATCH_BYTES then Some n' else None)
       (WireError ''delta-limit''))"

definition encoded_len :: "recipe \<Rightarrow> nat result" where
  "encoded_len r =
     bindE (validate r) (\<lambda>_. foldE len_step (length (bases r) * 40 + 49) (ops r))"

definition insert_fits :: "op \<Rightarrow> bool" where
  "insert_fits op = (case op of Insert bs \<Rightarrow> length bs < 2 ^ 32 | Copy _ _ _ \<Rightarrow> True)"

interpretation base_field: sized_codec put_base get_base "\<lambda>b. hash_ok (base_hash b)" 40
proof (unfold_locales, goal_cases)
  case (1 a)
  then show ?case using hash_field.put_ok by (auto simp: put_base_def bindE_Inr)
next
  case (2 a p rest)
  then obtain h where h: "put_hash (base_hash a) = Inr h" "p = h @ u64_to_be (base_size a)"
    by (auto simp: put_base_def bindE_Inr)
  then show ?case
    using 2 hash_field.get_put [of "base_hash a" h] u64_field.get_put [of "base_size a" _ rest]
    by (simp add: get_base_def)
next
  case (3 input a rest)
  then show ?case
    by (auto simp: get_base_def put_base_def bindE_Inr dest!: hash_field.put_get u64_field.put_get)
next
  case (4 a p)
  then show ?case by (auto simp: put_base_def bindE_Inr dest: hash_field.put_width)
qed

lemma length_put_op: "op_size op = Some n \<Longrightarrow> length (put_op op) = n"
  by (auto simp: op_size_def put_op_def split: op.splits)

lemma length_put_op_le: "length (put_op op) = (case op of Insert bs \<Rightarrow> length bs + 5 | Copy _ _ _ \<Rightarrow> 14)"
  by (auto simp: put_op_def split: op.splits)

interpretation op_field: codec "\<lambda>op. Inr (put_op op)" get_op insert_fits
proof (unfold_locales, goal_cases)
  case (2 a p rest)
  then show ?case
  proof (cases a)
    case (Copy b off len)
    have "get_u8 ([1, b] @ u64_to_be off @ u32_to_be len @ rest)
        = Inr (1, [b] @ u64_to_be off @ u32_to_be len @ rest)"
      "get_u8 ([b] @ u64_to_be off @ u32_to_be len @ rest) = Inr (b, u64_to_be off @ u32_to_be len @ rest)"
      using u8_field.get_put [of 1 "[1]"] u8_field.get_put [of b "[b]"] by simp_all
    with 2 Copy u64_field.get_put [of off _ "u32_to_be len @ rest"] u32_field.get_put [of len _ rest]
    show ?thesis by (auto simp: put_op_def get_op_def)
  next
    case (Insert bs)
    have "get_u8 ([0] @ u32_to_be (of_nat (length bs)) @ bs @ rest)
        = Inr (0, u32_to_be (of_nat (length bs)) @ bs @ rest)"
      using u8_field.get_put [of 0 "[0]"] by simp
    with 2 Insert u32_field.get_put [of "of_nat (length bs)" _ "bs @ rest"]
    show ?thesis by (auto simp: put_op_def get_op_def insert_fits_def unat_of_nat_32)
  qed
next
  case (3 input a rest)
  then show ?case
    using unat_less_32
    by (auto simp: get_op_def put_op_def bindE_Inr insert_fits_def take_bytes_Inr
        split: if_splits dest!: u8_field.put_get u32_field.put_get u64_field.put_get)
qed auto

lemma emit_ops:
  "foldE emit_op out os =
     (if os = [] \<or> length (out @ concat (map put_op os)) \<le> MAX_PATCH_BYTES
      then Inr (out @ concat (map put_op os)) else Inl (WireError ''delta-limit''))"
  by (induction os arbitrary: out) (auto simp: emit_op_def Let_def)

text \<open>The shape a recipe must have for its counts and lengths to fit their fields.\<close>

definition encodable :: "recipe \<Rightarrow> bool" where
  "encodable r \<longleftrightarrow> hash_ok (target_hash r) \<and> list_all (\<lambda>b. hash_ok (base_hash b)) (bases r)
     \<and> length (bases r) \<le> MAX_BASES \<and> length (ops r) \<le> MAX_OPS \<and> list_all insert_fits (ops r)"

definition profile_bytes :: "recipe \<Rightarrow> bytes \<Rightarrow> bytes \<Rightarrow> bytes \<Rightarrow> bytes" where
  "profile_bytes r magic h pb = magic @ h @ u64_to_be (target_size r) @ [of_nat (length (bases r))]
     @ pb @ u32_to_be (of_nat (length (ops r))) @ concat (map put_op (ops r))"

lemma encode_profile_eq:
  assumes "put_hash (target_hash r) = Inr h" and "put_many put_base (bases r) = Inr pb"
  shows "encode_profile r magic =
     (if ops r = [] \<or> length (profile_bytes r magic h pb) \<le> MAX_PATCH_BYTES
      then Inr (profile_bytes r magic h pb) else Inl (WireError ''delta-limit''))"
  using assms by (simp add: encode_profile_def foldE_put_many emit_ops profile_bytes_def)

lemma encodable_parts:
  assumes "encodable r"
  obtains h pb where "put_hash (target_hash r) = Inr h" "length h = 32"
    and "put_many put_base (bases r) = Inr pb" "length pb = 40 * length (bases r)"
proof -
  have hs: "hash_ok (target_hash r)" "list_all (\<lambda>b. hash_ok (base_hash b)) (bases r)"
    using assms by (auto simp: encodable_def)
  obtain h where h: "put_hash (target_hash r) = Inr h" using hash_field.put_ok hs by blast
  obtain pb where pb: "put_many put_base (bases r) = Inr pb" using base_field.put_many_ok hs by blast
  show ?thesis
    using that h pb hash_field.put_width [OF hs(1) h] base_field.put_many_width [OF hs(2) pb] by blast
qed

lemma decode_profile_bytes:
  assumes r: "encodable r" and magic: "length magic = 4"
    and h: "put_hash (target_hash r) = Inr h" and pb: "put_many put_base (bases r) = Inr pb"
    and fits: "length (profile_bytes r magic h pb) \<le> MAX_PATCH_BYTES"
  shows "decode_profile (profile_bytes r magic h pb) magic = Inr r"
proof -
  let ?i6 = "concat (map put_op (ops r))"
  let ?i5 = "u32_to_be (of_nat (length (ops r))) @ ?i6"
  let ?i4 = "pb @ ?i5"
  let ?i3 = "[of_nat (length (bases r))] @ ?i4"
  let ?i2 = "u64_to_be (target_size r) @ ?i3"
  have nb: "unat (of_nat (length (bases r)) :: u8) = length (bases r)"
    using r by (intro unat_of_nat_8) (simp add: encodable_def MAX_BASES_def)
  have no: "unat (of_nat (length (ops r)) :: u32) = length (ops r)"
    using r by (intro unat_of_nat_32) (simp add: encodable_def MAX_OPS_def)
  have 1: "get_hash (h @ ?i2) = Inr (target_hash r, ?i2)"
    using r h by (intro hash_field.get_put) (simp_all add: encodable_def)
  have 2: "get_u64 ?i2 = Inr (target_size r, ?i3)" by (rule u64_field.get_put) simp_all
  have 3: "get_u8 ?i3 = Inr (of_nat (length (bases r)), ?i4)"
    by (rule u8_field.get_put) simp_all
  have 4: "get_many get_base (length (bases r)) ?i4 = Inr (bases r, ?i5)"
    using r pb by (intro base_field.get_many_put_many) (simp_all add: encodable_def)
  have 5: "get_u32 ?i5 = Inr (of_nat (length (ops r)), ?i6)" by (rule u32_field.get_put) simp_all
  have 6: "get_many get_op (length (ops r)) ?i6 = Inr (ops r, [])"
    using op_field.get_many_put_many [of "ops r" _ "[]"] r by (simp add: encodable_def put_many_pure)
  show ?thesis
    using r fits magic 1 2 3 4 5 6 nb no
    by (simp add: decode_profile_def profile_bytes_def encodable_def)
qed

lemma decode_profile_Inr:
  assumes "decode_profile input magic = Inr r"
  shows "encodable r \<and> length input \<le> MAX_PATCH_BYTES
    \<and> (\<exists>h pb. put_hash (target_hash r) = Inr h \<and> put_many put_base (bases r) = Inr pb
         \<and> input = profile_bytes r magic h pb)"
proof -
  from assms obtain m i1 th i2 ts i3 nb i4 bs i5 no i6 os where
    len: "length input \<le> MAX_PATCH_BYTES"
    and m: "take_bytes 4 input = Inr (m, i1)" "m = magic"
    and th: "get_hash i1 = Inr (th, i2)" and ts: "get_u64 i2 = Inr (ts, i3)"
    and nb: "get_u8 i3 = Inr (nb, i4)" "unat nb \<le> MAX_BASES"
    and bs: "get_many get_base (unat nb) i4 = Inr (bs, i5)"
    and no: "get_u32 i5 = Inr (no, i6)" "unat no \<le> MAX_OPS"
    and os: "get_many get_op (unat no) i6 = Inr (os, [])"
    and r: "r = \<lparr>bases = bs, target_hash = th, target_size = ts, ops = os\<rparr>"
    by (auto simp: decode_profile_def bindE_Inr not_less split: if_splits)
  obtain h where h: "hash_ok th" "put_hash th = Inr h" "i1 = h @ i2"
    using hash_field.put_get [OF th] by blast
  have i2: "i2 = u64_to_be ts @ i3" using u64_field.put_get [OF ts] by auto
  have i3: "i3 = nb # i4" using u8_field.put_get [OF nb(1)] by auto
  obtain pb where pb: "length bs = unat nb" "list_all (\<lambda>b. hash_ok (base_hash b)) bs"
    "put_many put_base bs = Inr pb" "i4 = pb @ i5"
    using base_field.put_many_get_many [OF bs] by blast
  have i5: "i5 = u32_to_be no @ i6" using u32_field.put_get [OF no(1)] by auto
  have i6: "length os = unat no" "list_all insert_fits os" "i6 = concat (map put_op os)"
    using op_field.put_many_get_many [OF os] by (auto simp: put_many_pure)
  have "input = profile_bytes r magic h pb"
    using m h i2 i3 pb i5 i6 r by (simp add: profile_bytes_def take_bytes_Inr)
  with h pb i6 nb no r len show ?thesis by (auto simp: encodable_def)
qed

lemma valid_encodable:
  assumes "valid_recipe r mt mb"
  shows "encodable r"
proof -
  have "length bs < 2 ^ 32" if "Insert bs \<in> set (ops r)" for bs
  proof -
    have "op_literal (Insert bs) \<le> sum_list (map op_literal (ops r))"
      using that by (intro member_le_sum_list) (auto intro: image_eqI [where x = "Insert bs"])
    also have "\<dots> \<le> MAX_PATCH_BYTES" using assms by (simp add: valid_recipe_def)
    finally show ?thesis by (simp add: MAX_PATCH_BYTES_def)
  qed
  with assms show ?thesis
    by (auto simp: encodable_def valid_recipe_def list_all_iff insert_fits_def split: op.splits)
qed

lemma profile_length:
  assumes "encodable r" "length magic = 4"
    and "put_hash (target_hash r) = Inr h" "put_many put_base (bases r) = Inr pb"
  shows "length (profile_bytes r magic h pb)
    = length (bases r) * 40 + 49 + sum_list (map (\<lambda>op. length (put_op op)) (ops r))"
proof -
  obtain h' pb' where "put_hash (target_hash r) = Inr h'" "length h' = 32"
    "put_many put_base (bases r) = Inr pb'" "length pb' = 40 * length (bases r)"
    using assms(1) by (rule encodable_parts)
  with assms show ?thesis
    by (simp add: profile_bytes_def length_concat o_def)
qed

lemma profile_roundtrip:
  assumes r: "encodable r" and magic: "length magic = 4" and enc: "encode_profile r magic = Inr bs"
  shows "decode_profile bs magic = Inr r"
proof -
  obtain h pb where h: "put_hash (target_hash r) = Inr h" and pb: "put_many put_base (bases r) = Inr pb"
    using r by (rule encodable_parts)
  have "length (profile_bytes r magic h pb) \<le> MAX_PATCH_BYTES"
  proof (cases "ops r = []")
    case True
    with r show ?thesis
      by (simp add: profile_length [OF r magic h pb] encodable_def MAX_BASES_def MAX_PATCH_BYTES_def)
  next
    case False
    with enc show ?thesis by (simp add: encode_profile_eq [OF h pb] split: if_splits)
  qed
  moreover have "bs = profile_bytes r magic h pb"
    using enc by (simp add: encode_profile_eq [OF h pb] split: if_splits)
  ultimately show ?thesis using decode_profile_bytes [OF r magic h pb] by simp
qed

lemma profile_canonical:
  assumes "decode_profile bs magic = Inr r"
  shows "encode_profile r magic = Inr bs"
  using decode_profile_Inr [OF assms] by (auto simp: encode_profile_eq)

lemma len_loop:
  "foldE len_step n os =
     (if os = [] \<or> n + sum_list (map (\<lambda>op. length (put_op op)) os) \<le> MAX_PATCH_BYTES
      then Inr (n + sum_list (map (\<lambda>op. length (put_op op)) os))
      else Inl (WireError ''delta-limit''))"
proof (induction os arbitrary: n)
  case Nil
  then show ?case by simp
next
  case (Cons op os)
  have step: "len_step n op = (if n + length (put_op op) \<le> MAX_PATCH_BYTES
      then Inr (n + length (put_op op)) else Inl (WireError ''delta-limit''))"
  proof (cases "op_size op")
    case None
    then have "MAX_PATCH_BYTES < length (put_op op)"
      by (auto simp: op_size_def length_put_op_le MAX_PATCH_BYTES_def split: op.splits)
    with None show ?thesis by (simp add: len_step_def)
  next
    case (Some k)
    then have "length (put_op op) = k" by (rule length_put_op)
    with Some show ?thesis
      by (auto simp: len_step_def checked_add_usize_def MAX_PATCH_BYTES_def)
  qed
  show ?case by (auto simp: step Cons)
qed

lemma encoded_len_eq:
  "encoded_len r = (case encode r of Inl e \<Rightarrow> Inl e | Inr bs \<Rightarrow> Inr (length bs))"
proof (cases "validate r")
  case (Inl e)
  then show ?thesis by (simp add: encoded_len_def encode_def)
next
  case (Inr u)
  then have r: "encodable r" by (auto simp: validate_iff intro: valid_encodable)
  obtain h pb where h: "put_hash (target_hash r) = Inr h" and pb: "put_many put_base (bases r) = Inr pb"
    using r by (rule encodable_parts)
  show ?thesis
    by (simp add: Inr encoded_len_def encode_def len_loop encode_profile_eq [OF h pb]
        profile_length [OF r _ h pb])
qed

lemma profile_iff:
  assumes "valid_recipe r mt mb" and "length magic = 4"
  shows "encode_profile r magic = Inr bs \<longleftrightarrow> decode_profile bs magic = Inr r"
  using profile_roundtrip [OF valid_encodable [OF assms(1)] assms(2)] profile_canonical by blast

lemma encode_profile_no_panic:
  assumes "valid_recipe r mt mb"
  shows "encode_profile r magic \<noteq> Inl Panic"
proof -
  obtain h pb where "put_hash (target_hash r) = Inr h" "put_many put_base (bases r) = Inr pb"
    using valid_encodable [OF assms] by (rule encodable_parts)
  from encode_profile_eq [OF this, of magic] show ?thesis by auto
qed

lemma encode_decode_iff: "encode r = Inr bs \<longleftrightarrow> decode bs = Inr r"
  using profile_iff [where r = r and magic = "as_bytes ''RNSD''" and bs = bs]
  by (auto simp: encode_def decode_def bindE_Inr validate_iff)

section \<open>Properties\<close>

definition sample_recipe :: recipe where
  "sample_recipe = \<lparr>bases = [\<lparr>base_hash = replicate 64 CHR ''a'', base_size = 3\<rparr>],
     target_hash = replicate 64 CHR ''b'', target_size = 4,
     ops = [Copy 0 1 2, Insert [7, 8]]\<rparr>"

definition sample_digest :: "bytes \<Rightarrow> string" where
  "sample_digest bs = replicate 64 (if length bs = 3 then CHR ''a'' else CHR ''b'')"

lemma sample_digest_ok: "digest_fun sample_digest"
  by (simp add: digest_fun_def sample_digest_def hash_ok_def list_all_length is_lower_hex_def)

text \<open>C14. Validation of a delta recipe accepts exactly the well-formed recipes: digests are
  digests, at most four distinct bases within the size limits, every copy inside its base,
  no empty operation, and the operations produce exactly the declared target size.\<close>

theorem validate_accepts_exactly:
  "validate_limits r max_target max_bases = Inr () \<longleftrightarrow> valid_recipe r max_target max_bases"
  by (rule validate_limits_iff)

text \<open>C15. Applying a recipe never panics, and when it succeeds the result is what its
  operations denote over the supplied bases, has the declared size and the declared digest.\<close>

theorem recipe_apply_sound:
  "case recipe_apply H r sources of
     Inl e \<Rightarrow> e \<noteq> Panic
   | Inr out \<Rightarrow> out = denote sources (ops r) \<and> length out = unat (target_size r)
       \<and> H out = target_hash r"
proof (cases "recipe_apply H r sources")
  case (Inl e)
  then show ?thesis using recipe_apply_no_panic [of H r sources] by auto
next
  case (Inr out)
  then have "list_all (op_in_range sources) (ops r)"
    by (auto simp: recipe_apply_Inr validate_iff valid_recipe_def list_all_iff intro: op_ok_in_range)
  moreover have "out = denote sources (ops r)" "H out = target_hash r"
    "sum_list (map op_len (ops r)) = unat (target_size r)"
    using Inr by (auto simp: recipe_apply_Inr validate_iff valid_recipe_def)
  ultimately show ?thesis by (simp add: Inr length_denote)
qed

text \<open>C16. The delta format is a round trip in both directions: what is encoded decodes to
  the same recipe, and only the encoder's own bytes decode.\<close>

theorem encode_decode: "encode r = Inr bs \<longleftrightarrow> decode bs = Inr r"
  by (rule encode_decode_iff)

text \<open>The length computed without encoding is the length of the encoding, with the
  same error where encoding fails.\<close>

theorem encoded_len_exact:
  "encoded_len r = (case encode r of Inl e \<Rightarrow> Inl e | Inr bs \<Rightarrow> Inr (length bs))"
  by (rule encoded_len_eq)

end
