(* ===== verification/Delta_Create.thy ===== *)
theory Delta_Create
  imports Delta "HOL-Library.Product_Lexorder"
begin

text \<open>
  The block-index search \<^verbatim>\<open>create\<close> of \<^verbatim>\<open>crates/sync-wire/src/delta.rs\<close>. Slices
  \<^verbatim>\<open>s[a..b]\<close> are \<open>take (b - a) (drop a s)\<close>: the anchors point inside their base
  (\<open>anchor_index_in_range\<close>) and the loop guard keeps the target window inside the target, so no
  slice of the source is out of range. The byte-by-byte extension of a match is the
  common prefix of the two remaining slices, and \<^verbatim>\<open>partition_point\<close> is the length of
  the prefix of the sorted index that satisfies the predicate.
\<close>

record anchor =
  anchor_fingerprint :: u64
  anchor_offset :: u32
  anchor_base :: u8

definition fingerprint :: "bytes \<Rightarrow> u64" where
  "fingerprint bs = foldl (\<lambda>h b. h * 257 + (ucast b + 1)) 0 bs"

definition anchors_of :: "nat \<Rightarrow> bytes \<Rightarrow> anchor list" where
  "anchors_of i b =
     map (\<lambda>k. \<lparr>anchor_fingerprint = fingerprint (take BLOCK (drop (k * BLOCK) b)),
                anchor_offset = of_nat (k * BLOCK), anchor_base = of_nat i\<rparr>)
       [0..<(length b - (BLOCK - 1) + (BLOCK - 1)) div BLOCK]"

text \<open>The \<^verbatim>\<open>retain\<close> closure: at most two anchors of one fingerprint and base.\<close>

fun retain_two :: "(u64 \<times> u8) option \<Rightarrow> nat \<Rightarrow> anchor list \<Rightarrow> anchor list" where
  "retain_two previous occurrences [] = []"
| "retain_two previous occurrences (a # as) =
     (let key = (anchor_fingerprint a, anchor_base a);
          n = (if previous = Some key then occurrences + 1 else 1) in
      if n \<le> 2 then a # retain_two (Some key) n as else retain_two (Some key) n as)"

definition anchor_index :: "bytes list \<Rightarrow> anchor list" where
  "anchor_index sources =
     retain_two None 0
       (sort_key (\<lambda>a. (anchor_fingerprint a, anchor_base a, anchor_offset a))
         (concat (map (\<lambda>(id, b). anchors_of id b) (enumerate 0 sources))))"

fun common_prefix :: "bytes \<Rightarrow> bytes \<Rightarrow> nat" where
  "common_prefix (x # xs) (y # ys) = (if x = y then Suc (common_prefix xs ys) else 0)"
| "common_prefix _ _ = 0"

definition consider_anchor :: "bytes list \<Rightarrow> bytes \<Rightarrow> nat \<Rightarrow> u8 \<times> nat \<times> nat \<Rightarrow> anchor \<Rightarrow> u8 \<times> nat \<times> nat" where
  "consider_anchor sources target position best a =
     (let offset = unat (anchor_offset a);
          source = sources ! unat (anchor_base a) in
      if take BLOCK (drop offset source) = take BLOCK (drop position target)
      then let len = BLOCK + common_prefix (drop (offset + BLOCK) source)
                                           (drop (position + BLOCK) target) in
           if len > snd (snd best) then (anchor_base a, offset, len) else best
      else best)"

definition best_match :: "anchor list \<Rightarrow> bytes list \<Rightarrow> bytes \<Rightarrow> nat \<Rightarrow> u64 \<Rightarrow> u8 \<times> nat \<times> nat" where
  "best_match index sources target position key =
     (let start = length (takeWhile (\<lambda>a. anchor_fingerprint a < key) index) in
      foldl (consider_anchor sources target position) (0, 0, 0)
        (takeWhile (\<lambda>a. anchor_fingerprint a = key) (drop start index)))"

definition roll_factor :: u64 where "roll_factor = 257 ^ (BLOCK - 1)"

definition roll :: "u64 \<Rightarrow> u8 \<Rightarrow> u8 \<Rightarrow> u64" where
  "roll key old new = (key - (ucast old + 1) * roll_factor) * 257 + (ucast new + 1)"

text \<open>
  The search loop. The result is the start of the pending literal and the operations
  found; \<^verbatim>\<open>break\<close> is the \<open>Inr\<close> of the search-limit branch.
\<close>

function search :: "anchor list \<Rightarrow> bytes list \<Rightarrow> bytes \<Rightarrow> nat \<Rightarrow> nat \<Rightarrow> op list \<Rightarrow> u64 option \<Rightarrow> nat
    \<Rightarrow> (nat \<times> op list) result" where
  "search index sources target position literal os rolling searched =
     (if index \<noteq> [] \<and> position + BLOCK \<le> length target then
        let key = (case rolling of Some k \<Rightarrow> k
                   | None \<Rightarrow> fingerprint (take BLOCK (drop position target)));
            (b, offset, len) = best_match index sources target position key in
        if len \<ge> BLOCK then
          let os1 = (if literal < position
                     then os @ [Insert (take (position - literal) (drop literal target))] else os);
              os2 = os1 @ [Copy b (of_nat offset) (of_nat len)] in
          if length os2 > MAX_OPS then Inl (WireError ''delta-limit'')
          else search index sources target (position + len) (position + len) os2 None searched
        else if searched + 1 > MAX_SEARCH_BYTES then
          if length target - literal > MAX_PATCH_BYTES then Inl (WireError ''delta-search-limit'')
          else Inr (literal, os)
        else if length os > MAX_OPS then Inl (WireError ''delta-limit'')
        else search index sources target (position + 1) literal os
               (map_option (roll key (target ! position)) (get_at target (position + BLOCK)))
               (searched + 1)
      else Inr (literal, os))"
  by pat_completeness auto
termination
  by (relation "measure (\<lambda>(index, sources, target, position, _). length target - position)")
    (auto simp: BLOCK_def)

declare search.simps [simp del]

definition create :: "(bytes \<Rightarrow> string) \<Rightarrow> bytes list \<Rightarrow> bytes \<Rightarrow> recipe result" where
  "create H sources target =
     (if length sources > MAX_BASES \<or> length target > MAX_TARGET_BYTES
         \<or> sum_list (map length sources) > MAX_BASE_BYTES
      then Inl (WireError ''delta-limit'')
      else
        bindE (search (anchor_index sources) sources target 0 0 [] None 0) (\<lambda>(literal, os).
        let r = \<lparr>bases = map (\<lambda>b. \<lparr>base_hash = H b, base_size = of_nat (length b)\<rparr>) sources,
                 target_hash = H target, target_size = of_nat (length target),
                 ops = (if literal < length target then os @ [Insert (drop literal target)] else os)\<rparr>
        in bindE (validate r) (\<lambda>_. Inr r)))"

section \<open>The index\<close>

lemma set_retain_two: "set (retain_two p n as) \<subseteq> set as"
proof (induction p n as rule: retain_two.induct)
  case (2 p n a as)
  show ?case
  proof (cases "p = Some (anchor_fingerprint a, anchor_base a)"; cases "n \<le> 1")
  qed (use 2 in \<open>auto simp: Let_def\<close>)
qed simp

lemma anchor_index_in_range:
  assumes "a \<in> set (anchor_index sources)"
    and "length sources \<le> MAX_BASES" and "sum_list (map length sources) \<le> MAX_BASE_BYTES"
  shows "unat (anchor_base a) < length sources
    \<and> unat (anchor_offset a) + BLOCK \<le> length (sources ! unat (anchor_base a))"
proof -
  from assms(1) obtain id b where idb: "(id, b) \<in> set (enumerate 0 sources)" "a \<in> set (anchors_of id b)"
    using set_retain_two [of None 0] by (fastforce simp: anchor_index_def)
  then have id: "id < length sources" "sources ! id = b"
    by (auto simp: in_set_enumerate_eq)
  then have "length b \<le> sum_list (map length sources)"
    by (auto intro: member_le_sum_list)
  then have len: "length b \<le> MAX_BASE_BYTES" using assms(3) by simp
  from idb(2) obtain k where k: "k < (length b - (BLOCK - 1) + (BLOCK - 1)) div BLOCK"
    and a': "anchor_offset a = of_nat (k * BLOCK)" and ab: "anchor_base a = of_nat id"
    unfolding anchors_of_def by auto
  have a: "anchor_offset a = of_nat (k * 64)" using a' by (simp only: BLOCK_def)
  have kb: "k * 64 + 64 \<le> length b"
  proof (cases "63 \<le> length b")
    case True
    with k have "Suc k \<le> length b div 64" by (simp add: BLOCK_def)
    then have "Suc k * 64 \<le> length b div 64 * 64" by (rule mult_le_mono1)
    also have "\<dots> \<le> length b" by simp
    finally show ?thesis by simp
  next
    case False
    with k show ?thesis by (simp add: BLOCK_def)
  qed
  then have "unat (anchor_offset a) = k * 64"
    using len kb by (simp only: a) (rule unat_of_nat_32, simp add: MAX_BASE_BYTES_def)
  moreover have "unat (anchor_base a) = id"
    using id assms(2) by (simp only: ab) (rule unat_of_nat_8, simp add: MAX_BASES_def)
  ultimately show ?thesis using id kb by (simp add: BLOCK_def)
qed

section \<open>Rolling fingerprints\<close>

lemma fingerprint_from:
  "foldl (\<lambda>h b. h * 257 + (ucast b + 1)) (h :: u64) bs = h * 257 ^ length bs + fingerprint bs"
proof (induction bs arbitrary: h)
  case Nil
  then show ?case by (simp add: fingerprint_def)
next
  case (Cons b bs)
  have "fingerprint (b # bs) = (ucast b + 1) * 257 ^ length bs + fingerprint bs"
    using Cons [of "ucast b + 1"] by (simp add: fingerprint_def)
  then show ?case using Cons [of "h * 257 + (ucast b + 1)"] by (simp add: algebra_simps)
qed

lemma fingerprint_Cons: "fingerprint (b # bs) = (ucast b + 1) * 257 ^ length bs + fingerprint bs"
  using fingerprint_from [of "ucast b + 1" bs] by (simp add: fingerprint_def)

lemma fingerprint_snoc: "fingerprint (bs @ [b]) = fingerprint bs * 257 + (ucast b + 1)"
  by (simp add: fingerprint_def)

lemma roll_window:
  assumes "length xs = BLOCK - 1"
  shows "roll (fingerprint (x # xs)) x y = fingerprint (xs @ [y])"
  using assms by (simp add: roll_def roll_factor_def fingerprint_Cons fingerprint_snoc)

lemma roll_next:
  assumes "position + BLOCK < length target"
  shows "roll (fingerprint (take BLOCK (drop position target))) (target ! position)
      (target ! (position + BLOCK)) = fingerprint (take BLOCK (drop (Suc position) target))"
proof -
  have "take BLOCK (drop position target)
      = target ! position # take (BLOCK - 1) (drop (Suc position) target)"
    using assms by (simp add: BLOCK_def Cons_nth_drop_Suc [symmetric] take_Cons')
  moreover have "take BLOCK (drop (Suc position) target)
      = take (BLOCK - 1) (drop (Suc position) target) @ [target ! (position + BLOCK)]"
    using assms take_Suc_conv_app_nth [of "BLOCK - 1" "drop (Suc position) target"]
    by (simp add: BLOCK_def add.commute)
  moreover have "length (take (BLOCK - 1) (drop (Suc position) target)) = BLOCK - 1"
    using assms by (simp add: BLOCK_def)
  ultimately show ?thesis by (simp only: roll_window)
qed

section \<open>Matches\<close>

lemma common_prefix_take:
  "take (common_prefix xs ys) xs = take (common_prefix xs ys) ys
   \<and> common_prefix xs ys \<le> length xs \<and> common_prefix xs ys \<le> length ys"
  by (induction xs ys rule: common_prefix.induct) auto

definition match_ok :: "bytes list \<Rightarrow> bytes \<Rightarrow> nat \<Rightarrow> u8 \<times> nat \<times> nat \<Rightarrow> bool" where
  "match_ok sources target position = (\<lambda>(b, offset, len).
     len = 0 \<or> (offset < 2 ^ 32 \<and> position + len \<le> length target
       \<and> take len (drop offset (sources ! unat b)) = take len (drop position target)))"

lemma take_drop_extend:
  fixes xs ys :: "'a list"
  assumes "take n (drop a xs) = take n (drop b ys)"
    and "take m (drop (a + n) xs) = take m (drop (b + n) ys)"
  shows "take (n + m) (drop a xs) = take (n + m) (drop b ys)"
proof -
  have "take (n + m) (drop c zs) = take n (drop c zs) @ take m (drop (c + n) zs)" for c and zs :: "'a list"
    using take_add [of n m "drop c zs"] by (simp add: add.commute)
  with assms show ?thesis by simp
qed

lemma consider_anchor_ok:
  assumes "match_ok sources target position best" and "position + BLOCK \<le> length target"
  shows "match_ok sources target position (consider_anchor sources target position best a)"
proof -
  let ?o = "unat (anchor_offset a)" and ?s = "sources ! unat (anchor_base a)"
  let ?p = "common_prefix (drop (?o + BLOCK) ?s) (drop (position + BLOCK) target)"
  have p: "take ?p (drop (?o + BLOCK) ?s) = take ?p (drop (position + BLOCK) target)"
    "?p \<le> length (drop (position + BLOCK) target)"
    using common_prefix_take by blast+
  have "match_ok sources target position (anchor_base a, ?o, BLOCK + ?p)"
    if "take BLOCK (drop ?o ?s) = take BLOCK (drop position target)"
  proof -
    have "position + (BLOCK + ?p) \<le> length target"
      using p(2) assms(2) by simp
    with take_drop_extend [OF that p(1)] unat_less_32 [of "anchor_offset a"] show ?thesis
      by (simp add: match_ok_def)
  qed
  with assms(1) show ?thesis by (simp add: consider_anchor_def Let_def)
qed

lemma best_match_ok:
  assumes "position + BLOCK \<le> length target"
  shows "match_ok sources target position (best_match index sources target position key)"
proof -
  have "match_ok sources target position (foldl (consider_anchor sources target position) best as)"
    if "match_ok sources target position best" for best as
    using that assms by (induction as arbitrary: best) (simp_all add: consider_anchor_ok)
  from this [of "(0, 0, 0)"] show ?thesis by (simp add: best_match_def Let_def match_ok_def)
qed

section \<open>The loop\<close>

text \<open>What the loop keeps: the operations reproduce the target up to the pending literal.\<close>

lemma search_denotes:
  assumes "search index sources target position literal os rolling searched = Inr (lit', os')"
    and "length target \<le> MAX_TARGET_BYTES"
    and "literal \<le> position" and "position \<le> length target"
    and "denote sources os = take literal target"
  shows "lit' \<le> length target \<and> denote sources os' = take lit' target"
  using assms
proof (induction index sources target position literal os rolling searched rule: search.induct)
  case (1 index sources target position literal os rolling searched)
  show ?case
  proof (cases "index \<noteq> [] \<and> position + BLOCK \<le> length target")
    case False
    with "1.prems" show ?thesis by (subst (asm) search.simps) auto
  next
    case True
    define key where "key = (case rolling of Some k \<Rightarrow> k
                   | None \<Rightarrow> fingerprint (take BLOCK (drop position target)))"
    obtain b offset len where m: "best_match index sources target position key = (b, offset, len)"
      by (metis prod_cases3)
    have ok: "match_ok sources target position (b, offset, len)"
      using best_match_ok [of position target sources index key] True m by simp
    define os1 where "os1 = (if literal < position
      then os @ [Insert (take (position - literal) (drop literal target))] else os)"
    define os2 where "os2 = os1 @ [Copy b (of_nat offset) (of_nat len)]"
    define roll' where "roll' = map_option (roll key (target ! position)) (get_at target (position + BLOCK))"
    note unfold = search.simps [of index sources target position literal os rolling searched]
    have os1: "denote sources os1 = take position target"
    proof (cases "literal < position")
      case True
      then have "take position target = take literal target @ take (position - literal) (drop literal target)"
        using take_add [of literal "position - literal" target] by simp
      with True "1.prems"(5) show ?thesis by (simp add: os1_def)
    next
      case False
      with "1.prems"(3,5) show ?thesis by (simp add: os1_def)
    qed
    show ?thesis
    proof (cases "len \<ge> BLOCK")
      case long: True
      with ok have pos: "position + len \<le> length target" "offset < 2 ^ 32"
        and eq: "take len (drop offset (sources ! unat b)) = take len (drop position target)"
        by (auto simp: match_ok_def BLOCK_def)
      have len': "unat (of_nat len :: u32) = len"
        using pos "1.prems"(2) by (intro unat_of_nat_32) (simp add: MAX_TARGET_BYTES_def)
      have offset': "unat (of_nat offset :: u64) = offset"
        using pos(2) by (intro unat_of_nat_64) simp
      have "denote sources os2 = take position target @ take len (drop position target)"
        by (simp add: os2_def os1 len' offset' eq)
      then have os2: "denote sources os2 = take (position + len) target"
        by (simp add: take_add)
      from "1.prems"(1) True long m have
        "\<not> length os2 > MAX_OPS"
        "search index sources target (position + len) (position + len) os2 None searched = Inr (lit', os')"
        by (auto simp: unfold key_def os1_def os2_def Let_def split: if_splits)
      with "1.IH"(1) [of key "(b, offset, len)" b "(offset, len)" offset len os1 os2]
        True long m os2 pos "1.prems"(2)
      show ?thesis by (auto simp: key_def os1_def os2_def)
    next
      case short: False
      show ?thesis
      proof (cases "searched + 1 > MAX_SEARCH_BYTES")
        case limit: True
        with "1.prems" True short m show ?thesis
          by (auto simp: unfold key_def Let_def split: if_splits)
      next
        case False
        with "1.prems"(1) True short m have
          "\<not> length os > MAX_OPS"
          "search index sources target (position + 1) literal os roll' (searched + 1) = Inr (lit', os')"
          by (auto simp: unfold key_def roll'_def Let_def split: if_splits)
        with "1.IH"(2) [of key "(b, offset, len)" b "(offset, len)" offset len]
          True short False m "1.prems"
        show ?thesis by (auto simp: key_def roll'_def BLOCK_def)
      qed
    qed
  qed
qed

lemma create_Inr:
  assumes "create H sources target = Inr r"
  shows "validate r = Inr () \<and> denote sources (ops r) = target
    \<and> bases r = map (\<lambda>b. \<lparr>base_hash = H b, base_size = of_nat (length b)\<rparr>) sources
    \<and> target_hash r = H target \<and> target_size r = of_nat (length target)"
proof -
  from assms obtain literal os where
    len: "length target \<le> MAX_TARGET_BYTES"
    and s: "search (anchor_index sources) sources target 0 0 [] None 0 = Inr (literal, os)"
    and r: "r = \<lparr>bases = map (\<lambda>b. \<lparr>base_hash = H b, base_size = of_nat (length b)\<rparr>) sources,
                 target_hash = H target, target_size = of_nat (length target),
                 ops = (if literal < length target then os @ [Insert (drop literal target)] else os)\<rparr>"
    and v: "validate r = Inr ()"
    by (auto simp: create_def bindE_Inr Let_def split: if_splits prod.splits)
  have "literal \<le> length target" "denote sources os = take literal target"
    using search_denotes [OF s len] by simp_all
  then have "denote sources (ops r) = target" by (simp add: r)
  with r v show ?thesis by simp
qed

lemma search_no_panic: "search index sources target position literal os rolling searched \<noteq> Inl Panic"
proof (induction index sources target position literal os rolling searched rule: search.induct)
  case (1 index sources target position literal os rolling searched)
  define key where "key = (case rolling of Some k \<Rightarrow> k
                   | None \<Rightarrow> fingerprint (take BLOCK (drop position target)))"
  obtain b offset len where m: "best_match index sources target position key = (b, offset, len)"
    by (metis prod_cases3)
  show ?case
    using "1.IH"(1) [of key "(b, offset, len)" b "(offset, len)" offset len]
      "1.IH"(2) [of key "(b, offset, len)" b "(offset, len)" offset len] m
    by (subst search.simps) (simp add: key_def [symmetric] Let_def)
qed

section \<open>The same search without the rolling update\<close>

function search_plain :: "anchor list \<Rightarrow> bytes list \<Rightarrow> bytes \<Rightarrow> nat \<Rightarrow> nat \<Rightarrow> op list \<Rightarrow> nat
    \<Rightarrow> (nat \<times> op list) result" where
  "search_plain index sources target position literal os searched =
     (if index \<noteq> [] \<and> position + BLOCK \<le> length target then
        let key = fingerprint (take BLOCK (drop position target));
            (b, offset, len) = best_match index sources target position key in
        if len \<ge> BLOCK then
          let os1 = (if literal < position
                     then os @ [Insert (take (position - literal) (drop literal target))] else os);
              os2 = os1 @ [Copy b (of_nat offset) (of_nat len)] in
          if length os2 > MAX_OPS then Inl (WireError ''delta-limit'')
          else search_plain index sources target (position + len) (position + len) os2 searched
        else if searched + 1 > MAX_SEARCH_BYTES then
          if length target - literal > MAX_PATCH_BYTES then Inl (WireError ''delta-search-limit'')
          else Inr (literal, os)
        else if length os > MAX_OPS then Inl (WireError ''delta-limit'')
        else search_plain index sources target (position + 1) literal os (searched + 1)
      else Inr (literal, os))"
  by pat_completeness auto
termination
  by (relation "measure (\<lambda>(index, sources, target, position, _). length target - position)")
    (auto simp: BLOCK_def)

declare search_plain.simps [simp del]

definition rolled :: "bytes \<Rightarrow> nat \<Rightarrow> u64 option \<Rightarrow> bool" where
  "rolled target position rolling \<longleftrightarrow>
     (case rolling of None \<Rightarrow> True | Some k \<Rightarrow> k = fingerprint (take BLOCK (drop position target)))"

lemma search_eq_plain:
  "rolled target position rolling \<Longrightarrow>
   search index sources target position literal os rolling searched
     = search_plain index sources target position literal os searched"
proof (induction index sources target position literal os rolling searched rule: search.induct)
  case (1 index sources target position literal os rolling searched)
  define key where "key = fingerprint (take BLOCK (drop position target))"
  have key: "(case rolling of Some k \<Rightarrow> k | None \<Rightarrow> fingerprint (take BLOCK (drop position target))) = key"
    using "1.prems" by (auto simp: rolled_def key_def split: option.splits)
  obtain b offset len where m: "best_match index sources target position key = (b, offset, len)"
    by (metis prod_cases3)
  have roll: "rolled target (position + 1)
      (map_option (roll key (target ! position)) (get_at target (position + BLOCK)))"
    by (auto simp: rolled_def key_def roll_next split: option.splits)
  show ?case
    using "1.IH"(1) [of key "(b, offset, len)" b "(offset, len)" offset len]
      "1.IH"(2) [of key "(b, offset, len)" b "(offset, len)" offset len] m roll
    by (subst search.simps, subst search_plain.simps)
      (simp add: key key_def [symmetric] rolled_def Let_def)
qed

section \<open>Properties\<close>

text \<open>A recipe built by the search, applied to the same bases, gives back the target.\<close>

theorem create_apply:
  "case create H sources target of
     Inl e \<Rightarrow> e \<noteq> Panic
   | Inr r \<Rightarrow> recipe_apply H r sources = Inr target"
proof (cases "create H sources target")
  case (Inl e)
  then show ?thesis using search_no_panic validate_no_panic
    by (auto simp: create_def bindE_Inl Let_def split: if_splits prod.splits)
next
  case (Inr r)
  from create_Inr [OF this] have "recipe_apply H r sources = Inr target"
    by (auto simp: recipe_apply_Inr list_all2_conv_all_nth)
  with Inr show ?thesis by simp
qed

text \<open>C19. The search with the rolling fingerprint finds what the search that hashes every
  window afresh finds.\<close>

theorem rolling_search_equivalent:
  "search index sources target 0 0 [] None 0 = search_plain index sources target 0 0 [] 0"
  by (rule search_eq_plain) (simp add: rolled_def)

end
