(* ===== verification/Batch.thy ===== *)
theory Batch
  imports Delta
begin

text \<open>
  \<^verbatim>\<open>crates/sync-wire/src/transfer.rs\<close>: batches of object frames. A frame carries a whole
  object with its digest, a delta recipe, or the notice that only the whole object will do.
  The digest is the parameter \<open>H\<close>. Lengths in memory are natural numbers below
  \<^verbatim>\<open>usize::MAX\<close>; the length fields keep their 32 and 64 bits.
\<close>

section \<open>Frames\<close>

definition MAX_BATCH_BYTES :: nat where "MAX_BATCH_BYTES = 8 * 1024 * 1024"
definition MAX_BATCH_OBJECTS :: nat where "MAX_BATCH_OBJECTS = 1024"
definition MAX_RESTORED :: nat where "MAX_RESTORED = 32 * 1024 * 1024"

datatype frame = Full bytes | DeltaFrame recipe | FullRequired string u64

definition frame_len :: "frame \<Rightarrow> nat option result" where
  "frame_len f =
     (case f of
        Full bs \<Rightarrow> Inr (checked_add_usize 41 (length bs))
      | DeltaFrame r \<Rightarrow> bindE (Delta.encoded_len r) (\<lambda>n. Inr (checked_add_usize n 1))
      | FullRequired h _ \<Rightarrow> bindE (validate_hash h) (\<lambda>_. Inr (Some 41)))"

definition batch_len_step :: "nat \<Rightarrow> frame \<Rightarrow> nat result" where
  "batch_len_step len f =
     bindE (frame_len f) (\<lambda>m.
     bindE (ok_or m (WireError ''batch-too-large'')) (\<lambda>payload.
     ok_or (case checked_add_usize len 4 of
              None \<Rightarrow> None
            | Some n \<Rightarrow> (case checked_add_usize n payload of
                None \<Rightarrow> None
              | Some n' \<Rightarrow> if n' \<le> MAX_BATCH_BYTES then Some n' else None))
       (WireError ''batch-too-large'')))"

definition batch_encoded_len :: "frame list \<Rightarrow> nat result" where
  "batch_encoded_len frames =
     (if length frames > MAX_BATCH_OBJECTS then Inl (WireError ''too-many-frames'')
      else foldE batch_len_step 8 frames)"

definition frame_payload :: "(bytes \<Rightarrow> string) \<Rightarrow> frame \<Rightarrow> bytes result" where
  "frame_payload H f =
     (case f of
        Full bs \<Rightarrow> bindE (put_hash (H bs)) (\<lambda>h. Inr ([0] @ h @ u64_to_be (of_nat (length bs)) @ bs))
      | DeltaFrame r \<Rightarrow> bindE (Delta.encode r) (\<lambda>bs. Inr ([1] @ bs))
      | FullRequired h n \<Rightarrow>
          bindE (validate_hash h) (\<lambda>_. bindE (put_hash h) (\<lambda>d. Inr ([2] @ d @ u64_to_be n))))"

definition emit_frame :: "(bytes \<Rightarrow> string) \<Rightarrow> bytes \<Rightarrow> frame \<Rightarrow> bytes result" where
  "emit_frame H out f =
     bindE (frame_payload H f) (\<lambda>payload.
     if length out + 4 + length payload > MAX_BATCH_BYTES then Inl (WireError ''batch-too-large'')
     else Inr (out @ u32_to_be (of_nat (length payload)) @ payload))"

definition batch_encode :: "(bytes \<Rightarrow> string) \<Rightarrow> frame list \<Rightarrow> bytes result" where
  "batch_encode H frames =
     (if length frames > MAX_BATCH_OBJECTS then Inl (WireError ''too-many-frames'')
      else foldE (emit_frame H) (as_bytes ''RNSB'' @ u32_to_be (of_nat (length frames))) frames)"

text \<open>The payload of one frame, with whatever it leaves unread.\<close>

definition parse_payload :: "(bytes \<Rightarrow> string) \<Rightarrow> bytes \<Rightarrow> (frame \<times> bytes) result" where
  "parse_payload H payload =
     bindE (get_u8 payload) (\<lambda>(kind, p1).
     if kind = 0 \<or> kind = 2 then
       bindE (get_hash p1) (\<lambda>(digest, p2).
       bindE (get_u64 p2) (\<lambda>(n, p3).
       if kind = 2 then Inr (FullRequired digest n, p3)
       else if unat n > MAX_BATCH_BYTES then Inl (WireError ''frame-too-large'')
       else
         bindE (take_bytes (unat n) p3) (\<lambda>(body, p4).
         if H body \<noteq> digest then Inl (WireError ''hash-mismatch'') else Inr (Full body, p4))))
     else if kind = 1 then bindE (Delta.decode p1) (\<lambda>r. Inr (DeltaFrame r, []))
     else Inl (WireError ''unsupported-codec''))"

definition get_frame :: "(bytes \<Rightarrow> string) \<Rightarrow> bytes \<Rightarrow> (frame \<times> bytes) result" where
  "get_frame H input =
     bindE (get_u32 input) (\<lambda>(n, i1).
     bindE (take_bytes (unat n) i1) (\<lambda>(payload, rest).
     bindE (parse_payload H payload) (\<lambda>(f, left).
     if left \<noteq> [] then Inl (WireError ''trailing-bytes'') else Inr (f, rest))))"

definition frame_restores :: "frame \<Rightarrow> u64" where
  "frame_restores f =
     (case f of Full bs \<Rightarrow> of_nat (length bs) | DeltaFrame r \<Rightarrow> target_size r | FullRequired _ _ \<Rightarrow> 0)"

fun decode_frames :: "(bytes \<Rightarrow> string) \<Rightarrow> nat \<Rightarrow> u64 \<Rightarrow> bytes \<Rightarrow> (frame list \<times> bytes) result" where
  "decode_frames H 0 restored input = Inr ([], input)"
| "decode_frames H (Suc n) restored input =
     bindE (get_frame H input) (\<lambda>(f, rest).
     bindE (ok_or (checked_add restored (frame_restores f)) Panic) (\<lambda>restored'.
     if unat restored' > MAX_RESTORED then Inl (WireError ''batch-materialization-limit'')
     else bindE (decode_frames H n restored' rest) (\<lambda>(fs, rest'). Inr (f # fs, rest'))))"

definition batch_decode :: "(bytes \<Rightarrow> string) \<Rightarrow> bytes \<Rightarrow> frame list result" where
  "batch_decode H input =
     (if length input > MAX_BATCH_BYTES then Inl (WireError ''batch-too-large'')
      else
        bindE (take_bytes 4 input) (\<lambda>(magic, i1).
        if magic \<noteq> as_bytes ''RNSB'' then Inl (WireError ''invalid-magic'')
        else
          bindE (get_u32 i1) (\<lambda>(count, i2).
          if unat count > MAX_BATCH_OBJECTS then Inl (WireError ''too-many-frames'')
          else
            bindE (decode_frames H (unat count) 0 i2) (\<lambda>(frames, rest).
            if rest \<noteq> [] then Inl (WireError ''trailing-bytes'') else Inr frames))))"

section \<open>Frames as a wire field\<close>

definition body_ok :: "(bytes \<Rightarrow> string) \<Rightarrow> frame \<Rightarrow> bool" where
  "body_ok H f = (case f of Full bs \<Rightarrow> hash_ok (H bs) \<and> length bs \<le> MAX_BATCH_BYTES | _ \<Rightarrow> True)"

definition frame_ok :: "(bytes \<Rightarrow> string) \<Rightarrow> frame \<Rightarrow> bool" where
  "frame_ok H f \<longleftrightarrow> body_ok H f
     \<and> (case frame_payload H f of Inl _ \<Rightarrow> False | Inr p \<Rightarrow> length p < 2 ^ 32)"

definition put_frame :: "(bytes \<Rightarrow> string) \<Rightarrow> frame \<Rightarrow> bytes result" where
  "put_frame H f = bindE (frame_payload H f) (\<lambda>p. Inr (u32_to_be (of_nat (length p)) @ p))"

lemma frame_payload_nonempty: "frame_payload H f = Inr p \<Longrightarrow> p \<noteq> []"
  by (auto simp: frame_payload_def bindE_Inr split: frame.splits)

lemma parse_frame_payload:
  assumes "body_ok H f" and "frame_payload H f = Inr p"
  shows "parse_payload H p = Inr (f, [])"
proof (cases f)
  case (Full bs)
  with assms obtain h where h: "put_hash (H bs) = Inr h" "hash_ok (H bs)" "length bs \<le> MAX_BATCH_BYTES"
    and p: "p = [0] @ h @ u64_to_be (of_nat (length bs)) @ bs"
    by (auto simp: frame_payload_def bindE_Inr body_ok_def)
  have "get_u8 p = Inr (0, h @ u64_to_be (of_nat (length bs)) @ bs)"
    using p u8_field.get_put [of 0 "[0]"] by simp
  moreover have "get_hash (h @ u64_to_be (of_nat (length bs)) @ bs)
      = Inr (H bs, u64_to_be (of_nat (length bs)) @ bs)"
    using h by (intro hash_field.get_put)
  moreover have "get_u64 (u64_to_be (of_nat (length bs)) @ bs) = Inr (of_nat (length bs), bs)"
    by (rule u64_field.get_put) simp_all
  moreover have "unat (of_nat (length bs) :: u64) = length bs"
    using h by (intro unat_of_nat_64) (simp add: MAX_BATCH_BYTES_def)
  ultimately show ?thesis using h Full by (simp add: parse_payload_def take_bytes_def)
next
  case (DeltaFrame r)
  with assms obtain bs where bs: "Delta.encode r = Inr bs" "p = [1] @ bs"
    by (auto simp: frame_payload_def bindE_Inr)
  then have "get_u8 p = Inr (1, bs)" using u8_field.get_put [of 1 "[1]"] by simp
  with bs DeltaFrame show ?thesis by (simp add: parse_payload_def encode_decode_iff)
next
  case (FullRequired d n)
  with assms obtain h where h: "put_hash d = Inr h" "hash_ok d" and p: "p = [2] @ h @ u64_to_be n"
    by (auto simp: frame_payload_def bindE_Inr)
  have "get_u8 p = Inr (2, h @ u64_to_be n)" using p u8_field.get_put [of 2 "[2]"] by simp
  moreover have "get_hash (h @ u64_to_be n) = Inr (d, u64_to_be n)"
    using h by (intro hash_field.get_put)
  moreover have "get_u64 (u64_to_be n) = Inr (n, [])"
    using u64_field.get_put [of n "u64_to_be n" "[]"] by simp
  ultimately show ?thesis using FullRequired by (simp add: parse_payload_def)
qed

lemma parse_payload_Inr:
  assumes "parse_payload H p = Inr (f, [])"
  shows "body_ok H f \<and> frame_payload H f = Inr p"
proof -
  from assms obtain kind p1 where k: "get_u8 p = Inr (kind, p1)"
    by (auto simp: parse_payload_def bindE_Inr)
  with u8_field.put_get [OF k] have kind: "get_u8 p = Inr (kind, p1)" "p = kind # p1" by auto
  consider "kind = 0" | "kind = 2" | "kind = 1"
    using assms kind by (auto simp: parse_payload_def split: if_splits)
  then show ?thesis
  proof cases
    case 1
    with assms kind obtain d p2 n body where d: "get_hash p1 = Inr (d, p2)"
      and n: "get_u64 p2 = Inr (n, body)" and b: "unat n = length body" "H body = d" "f = Full body"
        "unat n \<le> MAX_BATCH_BYTES"
      by (auto simp: parse_payload_def bindE_Inr take_bytes_Inr split: if_splits)
    from b have "of_nat (length body) = n" by (metis of_nat_unat ucast_id)
    with 1 kind b hash_field.put_get [OF d] u64_field.put_get [OF n]
    show ?thesis by (auto simp: frame_payload_def body_ok_def)
  next
    case 2
    with assms kind obtain d p2 n where d: "get_hash p1 = Inr (d, p2)"
      and n: "get_u64 p2 = Inr (n, [])" and f: "f = FullRequired d n"
      by (auto simp: parse_payload_def bindE_Inr)
    with 2 kind hash_field.put_get [OF d] u64_field.put_get [OF n]
    show ?thesis by (auto simp: frame_payload_def body_ok_def bindE_Inr)
  next
    case 3
    with assms kind show ?thesis
      by (auto simp: parse_payload_def bindE_Inr frame_payload_def body_ok_def encode_decode_iff)
  qed
qed

interpretation frame_field: codec "put_frame H" "get_frame H" "frame_ok H" for H
proof (unfold_locales, goal_cases)
  case (1 f)
  then show ?case by (auto simp: frame_ok_def put_frame_def split: sum.splits)
next
  case (2 f p rest)
  then obtain payload where p: "frame_payload H f = Inr payload" "length payload < 2 ^ 32"
    "p = u32_to_be (of_nat (length payload)) @ payload"
    by (auto simp: frame_ok_def put_frame_def bindE_Inr)
  have "get_u32 (p @ rest) = Inr (of_nat (length payload), payload @ rest)"
    using u32_field.get_put [of "of_nat (length payload)" _ "payload @ rest"] p(3) by simp
  moreover have "unat (of_nat (length payload) :: u32) = length payload"
    using p(2) by (intro unat_of_nat_32) simp
  moreover have "parse_payload H payload = Inr (f, [])"
    using 2 p(1) by (intro parse_frame_payload) (auto simp: frame_ok_def)
  ultimately show ?case by (simp add: get_frame_def)
next
  case (3 input f rest)
  then obtain n i1 payload where n: "get_u32 input = Inr (n, i1)"
    and t: "i1 = payload @ rest" "length payload = unat n" and q: "parse_payload H payload = Inr (f, [])"
    by (auto simp: get_frame_def bindE_Inr take_bytes_Inr split: if_splits)
  have "input = u32_to_be n @ payload @ rest" using u32_field.put_get [OF n] t by auto
  moreover have "of_nat (length payload) = n" using t by simp
  moreover have "length payload < 2 ^ 32" using t unat_less_32 [of n] by simp
  ultimately show ?case
    using parse_payload_Inr [OF q] by (auto simp: frame_ok_def put_frame_def)
qed

section \<open>The loops\<close>

definition restored_total :: "frame list \<Rightarrow> nat" where
  "restored_total fs = sum_list (map (\<lambda>f. unat (frame_restores f)) fs)"

lemma decode_frames_Inr:
  "decode_frames H n restored input = Inr (fs, rest) \<longleftrightarrow>
     get_many (get_frame H) n input = Inr (fs, rest)
     \<and> (fs = [] \<or> unat restored + restored_total fs \<le> MAX_RESTORED)"
proof (induction n arbitrary: restored input fs)
  case 0
  then show ?case by (auto simp: restored_total_def)
next
  case (Suc n)
  have add: "unat (r + x) = unat r + unat x" if "unat r + unat x \<le> MAX_RESTORED" for r x :: u64
    using that by (intro unat_add_no_wrap) (simp add: MAX_RESTORED_def)
  have check: "(\<exists>r'. checked_add restored (frame_restores f) = Some r' \<and> unat r' \<le> MAX_RESTORED \<and> P r')
      \<longleftrightarrow> unat restored + unat (frame_restores f) \<le> MAX_RESTORED \<and> P (restored + frame_restores f)"
    for f P
    by (auto simp: checked_add_def MAX_RESTORED_def unat_add_no_wrap)
  have "decode_frames H (Suc n) restored input = Inr (fs, rest) \<longleftrightarrow>
      (\<exists>f mid fs'. get_frame H input = Inr (f, mid) \<and> fs = f # fs'
        \<and> (\<exists>r'. checked_add restored (frame_restores f) = Some r' \<and> unat r' \<le> MAX_RESTORED
            \<and> decode_frames H n r' mid = Inr (fs', rest)))"
    by (auto simp: bindE_Inr not_less split: if_splits)
  also have "\<dots> \<longleftrightarrow> (\<exists>f mid fs'. get_frame H input = Inr (f, mid) \<and> fs = f # fs'
        \<and> unat restored + unat (frame_restores f) \<le> MAX_RESTORED
        \<and> get_many (get_frame H) n mid = Inr (fs', rest)
        \<and> (fs' = [] \<or> unat (restored + frame_restores f) + restored_total fs' \<le> MAX_RESTORED))"
    unfolding check Suc.IH ..
  also have "\<dots> \<longleftrightarrow> (\<exists>f mid fs'. get_frame H input = Inr (f, mid) \<and> fs = f # fs'
        \<and> get_many (get_frame H) n mid = Inr (fs', rest)
        \<and> unat restored + unat (frame_restores f) + restored_total fs' \<le> MAX_RESTORED)"
    using add by (intro ex_cong1) (auto simp: restored_total_def)
  also have "\<dots> \<longleftrightarrow> get_many (get_frame H) (Suc n) input = Inr (fs, rest)
      \<and> (fs = [] \<or> unat restored + restored_total fs \<le> MAX_RESTORED)"
    by (auto simp: bindE_Inr restored_total_def)
  finally show ?case .
qed

lemma emit_frames:
  "foldE (emit_frame H) out fs = Inr bs \<longleftrightarrow>
     (\<exists>p. put_many (put_frame H) fs = Inr p \<and> bs = out @ p \<and> (fs = [] \<or> length bs \<le> MAX_BATCH_BYTES))"
proof (induction fs arbitrary: out)
  case Nil
  then show ?case by (auto simp: put_many_def)
next
  case (Cons f fs)
  have step: "emit_frame H out f = Inr out' \<longleftrightarrow>
      (\<exists>q. put_frame H f = Inr q \<and> out' = out @ q \<and> length out' \<le> MAX_BATCH_BYTES)" for out'
    by (cases "frame_payload H f") (auto simp: emit_frame_def put_frame_def)
  show ?case
    by (auto simp: bindE_Inr step Cons put_many_Cons)
qed

lemma put_frame_Inr: "put_frame H f = Inr q \<longleftrightarrow>
    (\<exists>p. frame_payload H f = Inr p \<and> q = u32_to_be (of_nat (length p)) @ p)"
  by (auto simp: put_frame_def bindE_Inr)

lemma put_frame_small:
  assumes "put_many (put_frame H) fs = Inr p" and "length p \<le> MAX_BATCH_BYTES"
    and "list_all (body_ok H) fs"
  shows "list_all (frame_ok H) fs"
  using assms
proof (induction fs arbitrary: p)
  case (Cons f fs)
  then obtain q r payload where q: "frame_payload H f = Inr payload"
    "q = u32_to_be (of_nat (length payload)) @ payload"
    and r: "put_many (put_frame H) fs = Inr r" "p = q @ r"
    by (auto simp: put_many_Cons put_frame_Inr)
  then have "length payload < 2 ^ 32" "length r \<le> MAX_BATCH_BYTES"
    using Cons.prems(2) by (auto simp: MAX_BATCH_BYTES_def)
  with Cons q r show ?case by (simp add: frame_ok_def)
qed simp

lemma frame_len_payload:
  assumes "body_ok H f \<or> (\<exists>bs. f = Full bs \<and> hash_ok (H bs))"
  shows "(case frame_payload H f of
      Inl e \<Rightarrow> frame_len f = Inl e
    | Inr p \<Rightarrow> frame_len f = Inr (checked_add_usize (length p) 0) \<or>
        frame_len f = Inr None \<and> MAX_BATCH_BYTES < length p)"
proof (cases f)
  case (Full bs)
  then have ok: "hash_ok (H bs)" using assms by (auto simp: body_ok_def)
  then obtain h where h: "put_hash (H bs) = Inr h" using hash_field.put_ok by blast
  with hash_field.put_width [OF ok h] Full show ?thesis
    by (auto simp: frame_payload_def frame_len_def checked_add_usize_def MAX_BATCH_BYTES_def)
next
  case (DeltaFrame r)
  then show ?thesis
    by (auto simp: frame_payload_def frame_len_def encoded_len_eq checked_add_usize_def MAX_BATCH_BYTES_def
        split: sum.split)
next
  case (FullRequired d n)
  show ?thesis
  proof (cases "hash_ok d")
    case True
    then obtain h where h: "put_hash d = Inr h" using hash_field.put_ok by blast
    have v: "validate_hash d = Inr ()" using True by simp
    from h hash_field.put_width [OF True h] FullRequired show ?thesis
      by (simp add: v frame_payload_def frame_len_def checked_add_usize_def)
  next
    case False
    then obtain e where e: "validate_hash d = Inl e" by (cases "validate_hash d") auto
    show ?thesis by (simp add: FullRequired e frame_payload_def frame_len_def)
  qed
qed

lemma batch_len_emit:
  assumes "\<And>bs. f = Full bs \<Longrightarrow> hash_ok (H bs)"
    and "length out \<le> MAX_BATCH_BYTES"
  shows "batch_len_step (length out) f =
    (case emit_frame H out f of Inl e \<Rightarrow> Inl e | Inr out' \<Rightarrow> Inr (length out'))"
proof -
  have "body_ok H f \<or> (\<exists>bs. f = Full bs \<and> hash_ok (H bs))"
    using assms(1) by (cases f) (auto simp: body_ok_def)
  from frame_len_payload [OF this] show ?thesis
    using assms(2)
    by (cases "frame_payload H f")
      (auto simp: batch_len_step_def emit_frame_def checked_add_usize_def MAX_BATCH_BYTES_def
        split: option.splits if_splits)
qed

lemma batch_len_loop:
  assumes "\<And>f bs. f \<in> set fs \<Longrightarrow> f = Full bs \<Longrightarrow> hash_ok (H bs)" and "length out \<le> MAX_BATCH_BYTES"
  shows "foldE batch_len_step (length out) fs =
    (case foldE (emit_frame H) out fs of Inl e \<Rightarrow> Inl e | Inr out' \<Rightarrow> Inr (length out'))"
  using assms
proof (induction fs arbitrary: out)
  case (Cons f fs)
  have head: "batch_len_step (length out) f =
    (case emit_frame H out f of Inl e \<Rightarrow> Inl e | Inr out' \<Rightarrow> Inr (length out'))"
    by (rule batch_len_emit) (use Cons.prems in auto)
  show ?case
  proof (cases "emit_frame H out f")
    case (Inl e)
    with head show ?thesis by simp
  next
    case (Inr out')
    then have "length out' \<le> MAX_BATCH_BYTES"
      by (auto simp: emit_frame_def bindE_Inr split: if_splits)
    with Cons Inr head show ?thesis by simp
  qed
qed simp

lemma batch_bytes:
  "batch_encode H fs = Inr bs \<longleftrightarrow> length fs \<le> MAX_BATCH_OBJECTS
     \<and> (\<exists>p. put_many (put_frame H) fs = Inr p
          \<and> bs = as_bytes ''RNSB'' @ u32_to_be (of_nat (length fs)) @ p \<and> length bs \<le> MAX_BATCH_BYTES)"
  by (auto simp: batch_encode_def emit_frames MAX_BATCH_BYTES_def put_many_def)

section \<open>Properties\<close>

text \<open>C20. A batch decodes exactly when its bytes are the encoding of the frames it decodes to,
  each whole object has a well-formed digest, and the objects it restores fit the
  materialization limit: encoding and decoding are inverse, and no second encoding of the
  same batch is accepted.\<close>

theorem batch_decode_iff_encode:
  "batch_decode H bs = Inr fs \<longleftrightarrow>
     batch_encode H fs = Inr bs \<and> list_all (body_ok H) fs \<and> restored_total fs \<le> MAX_RESTORED"
proof
  assume "batch_decode H bs = Inr fs"
  then obtain count i1 i2 where len: "length bs \<le> MAX_BATCH_BYTES"
    and magic: "bs = as_bytes ''RNSB'' @ i1" and count: "get_u32 i1 = Inr (count, i2)"
    "unat count \<le> MAX_BATCH_OBJECTS"
    and fs: "decode_frames H (unat count) 0 i2 = Inr (fs, [])"
    by (auto simp: batch_decode_def bindE_Inr take_bytes_Inr not_less split: if_splits)
  from fs have many: "get_many (get_frame H) (unat count) i2 = Inr (fs, [])"
    and total: "restored_total fs \<le> MAX_RESTORED"
    by (auto simp: decode_frames_Inr restored_total_def)
  from frame_field.put_many_get_many [OF many] obtain p where p: "length fs = unat count"
    "list_all (frame_ok H) fs" "put_many (put_frame H) fs = Inr p" "i2 = p" by auto
  then have "bs = as_bytes ''RNSB'' @ u32_to_be (of_nat (length fs)) @ p"
    using magic u32_field.put_get [OF count(1)] by auto
  with p len count total show "batch_encode H fs = Inr bs \<and> list_all (body_ok H) fs
      \<and> restored_total fs \<le> MAX_RESTORED"
    by (auto simp: batch_bytes frame_ok_def list_all_iff)
next
  assume enc: "batch_encode H fs = Inr bs \<and> list_all (body_ok H) fs \<and> restored_total fs \<le> MAX_RESTORED"
  then obtain p where n: "length fs \<le> MAX_BATCH_OBJECTS" and p: "put_many (put_frame H) fs = Inr p"
    and bs: "bs = as_bytes ''RNSB'' @ u32_to_be (of_nat (length fs)) @ p" and len: "length bs \<le> MAX_BATCH_BYTES"
    by (auto simp: batch_bytes)
  have count: "unat (of_nat (length fs) :: u32) = length fs"
    using n by (intro unat_of_nat_32) (simp add: MAX_BATCH_OBJECTS_def)
  have "list_all (frame_ok H) fs"
    using enc p bs len by (intro put_frame_small) auto
  then have "get_many (get_frame H) (length fs) p = Inr (fs, [])"
    using frame_field.get_many_put_many [of H fs p "[]"] p by simp
  then have "decode_frames H (length fs) 0 p = Inr (fs, [])"
    using enc by (simp add: decode_frames_Inr)
  moreover have "get_u32 (u32_to_be (of_nat (length fs)) @ p) = Inr (of_nat (length fs), p)"
    by (rule u32_field.get_put) simp_all
  ultimately show "batch_decode H bs = Inr fs"
    using n len count by (simp add: batch_decode_def bs)
qed

text \<open>The planned length of a batch is the length of its encoding, and planning fails
  exactly as encoding does, without touching the bodies of whole objects.\<close>

theorem batch_len_exact:
  assumes "digest_fun H"
  shows "batch_encoded_len fs
    = (case batch_encode H fs of Inl e \<Rightarrow> Inl e | Inr bs \<Rightarrow> Inr (length bs))"
proof (cases "length fs > MAX_BATCH_OBJECTS")
  case True
  then show ?thesis by (simp add: batch_encoded_len_def batch_encode_def)
next
  case False
  have "hash_ok (H bs)" for bs using assms by (simp add: digest_fun_def)
  then show ?thesis
    using False batch_len_loop [of fs H "as_bytes ''RNSB'' @ u32_to_be (of_nat (length fs))"]
    by (simp add: batch_encoded_len_def batch_encode_def MAX_BATCH_BYTES_def)
qed

lemma batch_len_exact_witness:
  "batch_encoded_len [Full [1, 2, 3]]
    = (case batch_encode sample_digest [Full [1, 2, 3]] of Inl e \<Rightarrow> Inl e | Inr bs \<Rightarrow> Inr (length bs))"
  by (rule batch_len_exact) (rule sample_digest_ok)

end
