(* ===== verification/Stamp.thy ===== *)
theory Stamp
  imports Prelude
begin

text \<open>
  \<^verbatim>\<open>crates/sync-wire/src/stamp.rs\<close>: decimal integers on the wire, writer identities,
  hybrid logical stamps with their order and issue, and the admission of a peer's clock.
  The clock arithmetic the source does in \<^verbatim>\<open>i128\<close> is done in \<open>int\<close>: every operand
  comes from a \<^verbatim>\<open>u64\<close>, so \<^verbatim>\<open>i128\<close> cannot overflow there. \<^verbatim>\<open>Stamp\<close> is a datatype
  with one constructor, so that it can be an instance of \<open>linorder\<close>.
\<close>

section \<open>Decimal integers\<close>

definition decimal_u64 :: "string \<Rightarrow> u64 result" where
  "decimal_u64 value =
     (if value = [] \<or> (length value > 1 \<and> hd value = CHR ''0'') \<or> \<not> list_all is_ascii_digit value
      then Inl (WireError ''invalid-decimal-u64'')
      else if read_nat value < 2 ^ 64 then Inr (of_nat (read_nat value))
      else Inl (WireError ''invalid-decimal-u64''))"

definition decimal_string :: "u64 \<Rightarrow> string" where
  "decimal_string n = show_nat (unat n)"

text \<open>The \<^verbatim>\<open>logical_decimal\<close> field codec: a \<^verbatim>\<open>u32\<close> spelled like a \<^verbatim>\<open>u64\<close>.\<close>

definition serialize_logical :: "u32 \<Rightarrow> string" where
  "serialize_logical value = show_nat (unat value)"

definition deserialize_logical :: "string \<Rightarrow> u32 result" where
  "deserialize_logical s =
     bindE (decimal_u64 s) (\<lambda>value.
     if unat value < 2 ^ 32 then Inr (ucast value)
     else Inl (WireError ''invalid-logical-counter''))"

lemma decimal_u64_Inr:
  "decimal_u64 s = Inr n \<longleftrightarrow> plain_decimal s \<and> read_nat s = unat n"
proof -
  have "of_nat k = n \<longleftrightarrow> k = unat n" if "k < 18446744073709551616" for k
    using that unat_of_nat_64 [of k] by (metis of_nat_unat ucast_id)
  then show ?thesis
    using unat_less_64 [of n] by (auto simp: decimal_u64_def plain_decimal_def)
qed

section \<open>Stamps\<close>

datatype ordering = Less | Equal | Greater

definition cmp :: "'a::linorder \<Rightarrow> 'a \<Rightarrow> ordering" where
  "cmp a b = (if a < b then Less else if a = b then Equal else Greater)"

fun then_cmp :: "ordering \<Rightarrow> ordering \<Rightarrow> ordering" where
  "then_cmp Equal o2 = o2"
| "then_cmp o1 o2 = o1"

datatype stamp = Stamp (physical_ms: u64) (logical: u32) (writer_id: string)

definition stamp_cmp :: "stamp \<Rightarrow> stamp \<Rightarrow> ordering" where
  "stamp_cmp a b =
     then_cmp (then_cmp (cmp (physical_ms a) (physical_ms b)) (cmp (logical a) (logical b)))
       (cmp (writer_id a) (writer_id b))"

instantiation stamp :: linorder
begin

definition less_eq_stamp :: "stamp \<Rightarrow> stamp \<Rightarrow> bool" where
  "a \<le> b \<longleftrightarrow> stamp_cmp a b \<noteq> Greater"

definition less_stamp :: "stamp \<Rightarrow> stamp \<Rightarrow> bool" where
  "a < b \<longleftrightarrow> stamp_cmp a b = Less"

lemma stamp_cmp_Less:
  "stamp_cmp a b = Less \<longleftrightarrow> physical_ms a < physical_ms b \<or> physical_ms a = physical_ms b \<and>
     (logical a < logical b \<or> logical a = logical b \<and> writer_id a < writer_id b)"
  by (auto simp: stamp_cmp_def cmp_def)

lemma stamp_cmp_Equal: "stamp_cmp a b = Equal \<longleftrightarrow> a = b"
  by (auto simp: stamp_cmp_def cmp_def intro: stamp.expand)

lemma stamp_cmp_Greater: "stamp_cmp a b = Greater \<longleftrightarrow> stamp_cmp b a = Less"
  by (auto simp: stamp_cmp_def cmp_def)

instance
proof
  fix a b c :: stamp
  show "a < b \<longleftrightarrow> a \<le> b \<and> \<not> b \<le> a"
    by (metis less_eq_stamp_def less_stamp_def ordering.distinct(3) stamp_cmp_Greater)
  show "a \<le> a"
    by (metis less_eq_stamp_def ordering.distinct(5) stamp_cmp_Equal)
  show "a \<le> b \<Longrightarrow> b \<le> c \<Longrightarrow> a \<le> c"
    unfolding less_eq_stamp_def stamp_cmp_Greater stamp_cmp_Less by auto
  show "a \<le> b \<Longrightarrow> b \<le> a \<Longrightarrow> a = b"
    by (metis less_eq_stamp_def ordering.exhaust stamp_cmp_Equal stamp_cmp_Greater)
  show "a \<le> b \<or> b \<le> a"
    by (metis less_eq_stamp_def ordering.distinct(3) stamp_cmp_Greater)
qed

end

lemma stamp_less_iff:
  "a < b \<longleftrightarrow> physical_ms a < physical_ms b \<or> physical_ms a = physical_ms b \<and>
     (logical a < logical b \<or> logical a = logical b \<and> writer_id a < writer_id b)"
  by (simp only: less_stamp_def stamp_cmp_Less)

lemma stamp_cmp_eq_cmp: "stamp_cmp a b = cmp a b"
  by (cases "stamp_cmp a b")
    (auto simp: cmp_def less_stamp_def stamp_cmp_Equal stamp_cmp_Greater [of a b] dest: order.asym)

definition validate_writer_id :: "string \<Rightarrow> unit result" where
  "validate_writer_id value =
     (if length value \<noteq> 36 \<or> value ! 14 \<noteq> CHR ''4''
         \<or> \<not> ((CHR ''8'' \<le> value ! 19 \<and> value ! 19 \<le> CHR ''9'')
               \<or> (CHR ''a'' \<le> value ! 19 \<and> value ! 19 \<le> CHR ''b''))
         \<or> \<not> list_all (\<lambda>(i, b). if i \<in> {8, 13, 18, 23} then b = CHR ''-'' else is_lower_hex b)
              (enumerate 0 value)
      then Inl (WireError ''invalid-writer-id'') else Inr ())"

definition stamp_validate :: "stamp \<Rightarrow> unit result" where
  "stamp_validate s = validate_writer_id (writer_id s)"

lemma validate_writer_id_err: "validate_writer_id w = Inl e \<Longrightarrow> e = WireError ''invalid-writer-id''"
  by (auto simp: validate_writer_id_def split: if_splits)

definition opt_list :: "'a option \<Rightarrow> 'a list" where
  "opt_list m = (case m of None \<Rightarrow> [] | Some x \<Rightarrow> [x])"

fun max_of :: "'a::linorder list \<Rightarrow> 'a option" where
  "max_of [] = None"
| "max_of (x # xs) = Some (case max_of xs of None \<Rightarrow> x | Some y \<Rightarrow> max x y)"

definition issue_stamp :: "u64 \<Rightarrow> string \<Rightarrow> stamp option \<Rightarrow> stamp option \<Rightarrow> stamp result" where
  "issue_stamp wall_ms writer prior observed =
     bindE (validate_writer_id writer) (\<lambda>_.
     let seen = opt_list prior @ opt_list observed in
     bindE (foldE (\<lambda>physical s. bindE (stamp_validate s) (\<lambda>_. Inr (max physical (physical_ms s))))
              wall_ms seen) (\<lambda>physical.
     bindE (case max_of (map logical (filter (\<lambda>s. physical_ms s = physical) seen)) of
              None \<Rightarrow> Inr 0
            | Some l \<Rightarrow> ok_or (checked_add l 1) (WireError ''logical-counter-overflow'')) (\<lambda>lg.
     Inr (Stamp physical lg writer))))"

lemma max_of_ge: "x \<in> set xs \<Longrightarrow> \<exists>m. max_of xs = Some m \<and> x \<le> m"
  by (induction xs) (auto split: option.splits simp: le_max_iff_disj)

lemma max_of_None [simp]: "max_of xs = None \<longleftrightarrow> xs = []"
  by (cases xs) auto

lemma max_of_mem: "max_of xs = Some m \<Longrightarrow> m \<in> set xs"
  by (induction xs arbitrary: m) (auto split: option.splits simp: max_def)

lemma physical_loop:
  "foldE (\<lambda>physical s. bindE (stamp_validate s) (\<lambda>_. Inr (max physical (physical_ms s)))) w seen = Inr p
   \<longleftrightarrow> list_all (\<lambda>s. stamp_validate s = Inr ()) seen \<and> p = foldl max w (map physical_ms seen)"
  by (induction seen arbitrary: w) (auto simp: bindE_Inr)

lemma physical_loop_err:
  "foldE (\<lambda>physical s. bindE (stamp_validate s) (\<lambda>_. Inr (max physical (physical_ms s)))) w seen = Inl e
   \<Longrightarrow> e = WireError ''invalid-writer-id''"
  by (induction seen arbitrary: w)
    (auto simp: bindE_Inl stamp_validate_def dest: validate_writer_id_err)

lemma foldl_max_ge: "(w :: 'a::linorder) \<le> foldl max w xs \<and> (x \<in> set xs \<longrightarrow> x \<le> foldl max w xs)"
proof (induction xs arbitrary: w)
  case (Cons y ys)
  have "max w y \<le> foldl max (max w y) ys" using Cons by blast
  with Cons [of "max w y"] show ?case by auto
qed simp

lemma foldl_max_mem: "foldl max (w :: 'a::linorder) xs \<in> insert w (set xs)"
proof (induction xs arbitrary: w)
  case (Cons y ys)
  from Cons [of "max w y"] show ?case by (auto simp: max_def split: if_splits)
qed simp

lemma issue_stamp_Inr:
  assumes "issue_stamp w writer prior observed = Inr s"
  defines "seen \<equiv> opt_list prior @ opt_list observed"
  shows "writer_id s = writer" "validate_writer_id writer = Inr ()"
    and "physical_ms s = foldl max w (map physical_ms seen)"
    and "x \<in> set seen \<Longrightarrow> x < s"
proof -
  from assms obtain p lg where
    v: "validate_writer_id writer = Inr ()" and p: "p = foldl max w (map physical_ms seen)"
    and lg: "(case max_of (map logical (filter (\<lambda>s. physical_ms s = p) seen)) of
              None \<Rightarrow> Inr 0
            | Some l \<Rightarrow> ok_or (checked_add l 1) (WireError ''logical-counter-overflow'')) = Inr lg"
    and s: "s = Stamp p lg writer"
    by (auto simp: issue_stamp_def bindE_Inr physical_loop Let_def)
  show "writer_id s = writer" "validate_writer_id writer = Inr ()"
    "physical_ms s = foldl max w (map physical_ms seen)"
    using v p s by simp_all
  show "x < s" if x: "x \<in> set seen"
  proof (cases "physical_ms x = p")
    case False
    have "physical_ms x \<le> p" using x foldl_max_ge [of w "map physical_ms seen" "physical_ms x"] p by simp
    with False s show ?thesis by (simp add: stamp_less_iff)
  next
    case True
    with x have "logical x \<in> set (map logical (filter (\<lambda>s. physical_ms s = p) seen))" by simp
    from max_of_ge [OF this] obtain m where
      m: "max_of (map logical (filter (\<lambda>s. physical_ms s = p) seen)) = Some m" "logical x \<le> m"
      by blast
    with lg have "unat lg = unat m + 1" by (auto simp: checked_add_Some)
    with m(2) have "logical x < lg" by (simp add: word_le_nat_alt word_less_nat_alt)
    with True s show ?thesis by (simp add: stamp_less_iff)
  qed
qed

section \<open>Clock admission\<close>

definition MAX_CLOCK_SKEW_MS :: u64 where "MAX_CLOCK_SKEW_MS = 300000"
definition MAX_CLOCK_DISCONTINUITY_MS :: u64 where "MAX_CLOCK_DISCONTINUITY_MS = 5000"
definition CLOCK_SAMPLE_LIFETIME_MS :: u64 where "CLOCK_SAMPLE_LIFETIME_MS = 900000"

record clock_sample =
  sample_target_id :: string
  request_wall_ms :: u64
  response_wall_ms :: u64
  request_monotonic_ms :: u64
  response_monotonic_ms :: u64
  target_ms :: u64
  precision_ms :: u64
  successful :: bool
  cached_or_aged :: bool

record admitted_clock =
  clock_target_id :: string
  sampled_monotonic_ms :: u64
  target_upper_ms :: u64

definition admit :: "clock_sample \<Rightarrow> admitted_clock result" where
  "admit s =
     (if sample_target_id s = [] \<or> \<not> successful s \<or> cached_or_aged s
      then Inl (WireError ''clock-sample-invalid'')
      else
        bindE (ok_or (checked_sub (response_monotonic_ms s) (request_monotonic_ms s))
                 (WireError ''clock-discontinuity'')) (\<lambda>elapsed.
        let movement = uint (response_wall_ms s) - uint (request_wall_ms s) - uint elapsed in
        if \<bar>movement\<bar> > uint MAX_CLOCK_DISCONTINUITY_MS
        then Inl (WireError ''clock-discontinuity'')
        else
          let midpoint = (uint (request_wall_ms s) + uint (response_wall_ms s)) div 2;
              half = elapsed div 2 + elapsed mod 2 in
          bindE (ok_or (checked_add half (precision_ms s)) (WireError ''clock-overflow''))
            (\<lambda>uncertainty.
          let offset_bound = \<bar>midpoint - uint (target_ms s)\<bar> + uint uncertainty
                + (\<bar>movement\<bar> + 1) div 2 in
          if offset_bound > uint MAX_CLOCK_SKEW_MS then Inl (WireError ''clock-skew'')
          else
            bindE (ok_or (checked_add (target_ms s) uncertainty) (WireError ''clock-overflow''))
              (\<lambda>upper. Inr \<lparr>clock_target_id = sample_target_id s,
                 sampled_monotonic_ms = response_monotonic_ms s, target_upper_ms = upper\<rparr>))))"

definition http_date_target_ms :: "u64 \<Rightarrow> u64 result" where
  "http_date_target_ms date_ms = ok_or (checked_add date_ms 500) (WireError ''clock-overflow'')"

definition incoming_upper_ms :: "admitted_clock \<Rightarrow> string \<Rightarrow> u64 \<Rightarrow> u64 result" where
  "incoming_upper_ms c target now_monotonic =
     bindE (ok_or (checked_sub now_monotonic (sampled_monotonic_ms c))
              (WireError ''clock-sample-expired'')) (\<lambda>age.
     if target \<noteq> clock_target_id c \<or> age \<ge> CLOCK_SAMPLE_LIFETIME_MS
     then Inl (WireError ''clock-sample-expired'')
     else ok_or (case checked_add (target_upper_ms c) age of
                   None \<Rightarrow> None
                 | Some v \<Rightarrow> checked_add v MAX_CLOCK_SKEW_MS) (WireError ''clock-overflow''))"

definition admit_incoming :: "admitted_clock \<Rightarrow> string \<Rightarrow> u64 \<Rightarrow> stamp \<Rightarrow> unit result" where
  "admit_incoming c target now_monotonic s =
     bindE (stamp_validate s) (\<lambda>_.
     bindE (incoming_upper_ms c target now_monotonic) (\<lambda>upper.
     if physical_ms s > upper then Inl (WireError ''incoming-clock-skew'') else Inr ()))"

lemma checked_add_uint: "checked_add a b = Some (c :: u64) \<longleftrightarrow> uint c = uint a + uint b"
  unfolding checked_add_Some uint_nat of_nat_add [symmetric] of_nat_eq_iff ..

lemma uint_exists:
  assumes "0 \<le> k" and "k < 18446744073709551616"
  obtains w :: u64 where "uint w = k"
proof -
  have "uint (word_of_int k :: u64) = k"
    using assms by (simp add: uint_word_of_int_eq take_bit_int_eq_self)
  then show ?thesis by (rule that)
qed

lemma uint_half:
  "uint (e div 2 + e mod 2 :: u64) = (uint e + 1) div 2"
proof -
  have "unat (e div 2 + e mod 2) = unat e div 2 + unat e mod 2"
    using unat_less_64 [of e] by (subst unat_add_no_wrap) (simp_all add: unat_div unat_mod)
  also have "\<dots> = (unat e + 1) div 2" by presburger
  finally have "int (unat (e div 2 + e mod 2)) = int ((unat e + 1) div 2)" by (rule arg_cong)
  then show ?thesis by (simp only: uint_nat zdiv_int of_nat_add of_nat_numeral of_nat_1)
qed

lemma admit_Inr:
  assumes "admit s = Inr c"
  defines "elapsed \<equiv> uint (response_monotonic_ms s) - uint (request_monotonic_ms s)"
  defines "movement \<equiv> uint (response_wall_ms s) - uint (request_wall_ms s) - elapsed"
  shows "0 \<le> elapsed" and "\<bar>movement\<bar> \<le> 5000"
    and "clock_target_id c = sample_target_id s"
    and "sampled_monotonic_ms c = response_monotonic_ms s"
    and "uint (target_upper_ms c) = uint (target_ms s) + (elapsed + 1) div 2 + uint (precision_ms s)"
    and "\<bar>(uint (request_wall_ms s) + uint (response_wall_ms s)) div 2 - uint (target_ms s)\<bar>
           + ((elapsed + 1) div 2 + uint (precision_ms s)) + (\<bar>movement\<bar> + 1) div 2 \<le> 300000"
proof -
  have e: "uint (response_monotonic_ms s - request_monotonic_ms s) = elapsed"
    if "request_monotonic_ms s \<le> response_monotonic_ms s"
    using that by (simp add: elapsed_def uint_minus_simple_alt [symmetric] word_le_def uint_sub_if')
  from assms(1) obtain unc upper :: u64 where *:
    "request_monotonic_ms s \<le> response_monotonic_ms s"
    "\<not> \<bar>movement\<bar> > 5000"
    "uint unc = (elapsed + 1) div 2 + uint (precision_ms s)"
    "\<not> \<bar>(uint (request_wall_ms s) + uint (response_wall_ms s)) div 2 - uint (target_ms s)\<bar>
       + ((elapsed + 1) div 2 + uint (precision_ms s)) + (\<bar>movement\<bar> + 1) div 2 > 300000"
    "uint upper = uint (target_ms s) + ((elapsed + 1) div 2 + uint (precision_ms s))"
    "c = \<lparr>clock_target_id = sample_target_id s,
                 sampled_monotonic_ms = response_monotonic_ms s, target_upper_ms = upper\<rparr>"
    by (auto simp: admit_def bindE_Inr checked_add_uint uint_half e movement_def Let_def
        MAX_CLOCK_DISCONTINUITY_MS_def MAX_CLOCK_SKEW_MS_def split: if_splits)
  then show "0 \<le> elapsed" by (simp add: elapsed_def word_le_def)
  from * show "\<bar>movement\<bar> \<le> 5000" "clock_target_id c = sample_target_id s"
    "sampled_monotonic_ms c = response_monotonic_ms s"
    "uint (target_upper_ms c) = uint (target_ms s) + (elapsed + 1) div 2 + uint (precision_ms s)"
    "\<bar>(uint (request_wall_ms s) + uint (response_wall_ms s)) div 2 - uint (target_ms s)\<bar>
           + ((elapsed + 1) div 2 + uint (precision_ms s)) + (\<bar>movement\<bar> + 1) div 2 \<le> 300000"
    by (auto simp: add.assoc)
qed

lemma checked_add_twice:
  fixes a b d u :: u64
  shows "(case checked_add a b of None \<Rightarrow> None | Some v \<Rightarrow> checked_add v d) = Some u
    \<longleftrightarrow> uint u = uint a + uint b + uint d"
proof (cases "checked_add a b")
  case None
  then have "2 ^ 64 \<le> unat a + unat b" by (simp add: checked_add_None)
  then have "unat u \<noteq> unat a + unat b + unat d" using unat_less_64 [of u] by simp
  with None show ?thesis by (simp only: uint_nat of_nat_add [symmetric] of_nat_eq_iff) simp
next
  case (Some v)
  then have "uint v = uint a + uint b" by (simp add: checked_add_uint)
  then show ?thesis unfolding Some option.case checked_add_uint by simp
qed

lemma uint_skew: "uint MAX_CLOCK_SKEW_MS = 300000"
  by (simp add: MAX_CLOCK_SKEW_MS_def)

lemma incoming_upper_Inr:
  "incoming_upper_ms c target now = Inr u \<longleftrightarrow>
     sampled_monotonic_ms c \<le> now \<and> target = clock_target_id c
     \<and> uint now - uint (sampled_monotonic_ms c) < 900000
     \<and> uint u = uint (target_upper_ms c) + (uint now - uint (sampled_monotonic_ms c)) + 300000"
proof (cases "sampled_monotonic_ms c \<le> now")
  case True
  have age: "uint (now - sampled_monotonic_ms c) = uint now - uint (sampled_monotonic_ms c)"
    using True by (simp add: word_le_def uint_sub_if')
  let ?age = "now - sampled_monotonic_ms c"
  have lifetime: "CLOCK_SAMPLE_LIFETIME_MS \<le> ?age \<longleftrightarrow> 900000 \<le> uint ?age"
    by (simp add: CLOCK_SAMPLE_LIFETIME_MS_def word_le_def)
  have bound: "(case checked_add (target_upper_ms c) ?age of
        None \<Rightarrow> None | Some v \<Rightarrow> checked_add v MAX_CLOCK_SKEW_MS) = Some u
      \<longleftrightarrow> uint u = uint (target_upper_ms c) + uint ?age + 300000"
    using checked_add_twice [where a = "target_upper_ms c" and b = ?age and d = MAX_CLOCK_SKEW_MS and u = u]
    by (simp only: uint_skew)
  show ?thesis
    using True lifetime bound
    by (auto simp: incoming_upper_ms_def bindE_Inr age)
next
  case False
  then show ?thesis by (simp add: incoming_upper_ms_def bindE_Inr)
qed

section \<open>Properties\<close>

text \<open>The decimal spelling of a 64-bit integer is canonical: parsing accepts exactly the
  strings the printer writes, each as the number it was printed from.\<close>

theorem decimal_roundtrip: "decimal_u64 s = Inr n \<longleftrightarrow> s = decimal_string n"
  by (metis decimal_string_def decimal_u64_Inr read_show_nat show_nat_plain show_read_nat)

text \<open>C13. An issued stamp carries the issuer, is not before the wall clock, is strictly after
  both the issuer's last stamp and the observed one, and takes its physical part from one of
  the three.\<close>

theorem issue_stamp_advances:
  "case issue_stamp wall writer prior observed of
     Inl e \<Rightarrow> e = WireError ''invalid-writer-id'' \<or> e = WireError ''logical-counter-overflow''
   | Inr s \<Rightarrow> writer_id s = writer \<and> stamp_validate s = Inr () \<and> wall \<le> physical_ms s
       \<and> (case prior of None \<Rightarrow> True | Some p \<Rightarrow> p < s)
       \<and> (case observed of None \<Rightarrow> True | Some p \<Rightarrow> p < s)
       \<and> physical_ms s \<in> insert wall (physical_ms ` set (opt_list prior @ opt_list observed))"
proof (cases "issue_stamp wall writer prior observed")
  case (Inl e)
  then have "e = WireError ''invalid-writer-id'' \<or> e = WireError ''logical-counter-overflow''"
    by (auto simp: issue_stamp_def bindE_Inl Let_def dest: validate_writer_id_err physical_loop_err
        split: option.splits)
  then show ?thesis by (simp add: Inl)
next
  case (Inr s)
  note facts = issue_stamp_Inr [OF Inr]
  have "physical_ms s \<in> insert wall (physical_ms ` set (opt_list prior @ opt_list observed))"
    using foldl_max_mem [of wall] facts(3) by (metis list.set_map)
  moreover have "wall \<le> physical_ms s" using facts(3) foldl_max_ge by metis
  moreover have "case prior of None \<Rightarrow> True | Some p \<Rightarrow> p < s"
    using facts(4) by (auto simp: opt_list_def split: option.split)
  moreover have "case observed of None \<Rightarrow> True | Some p \<Rightarrow> p < s"
    using facts(4) by (auto simp: opt_list_def split: option.split)
  ultimately show ?thesis
    using facts(1,2) by (simp add: Inr stamp_validate_def)
qed

text \<open>An admitted clock does not lock its own device out: right after the response, a stamp
  whose physical time is at most the local wall clock is admitted.\<close>

theorem admitted_clock_accepts_local:
  assumes "admit s = Inr c" and "stamp_validate t = Inr ()"
    and "physical_ms t \<le> response_wall_ms s"
    and "uint (target_upper_ms c) + 300000 < 2 ^ 64"
  shows "admit_incoming c (sample_target_id s) (response_monotonic_ms s) t = Inr ()"
proof -
  note c = admit_Inr [OF assms(1)]
  obtain u :: u64 where u: "uint u = uint (target_upper_ms c) + 300000"
  proof (rule uint_exists [of "uint (target_upper_ms c) + 300000"])
    show "0 \<le> uint (target_upper_ms c) + 300000" by simp
    show "uint (target_upper_ms c) + 300000 < 18446744073709551616" using assms(4) by simp
  qed
  then have upper: "incoming_upper_ms c (sample_target_id s) (response_monotonic_ms s) = Inr u"
    by (simp add: incoming_upper_Inr c(3,4))
  have "uint (response_wall_ms s) \<le> uint u"
    using c(1,2,5,6) u uint_ge_0 [of "precision_ms s"] by linarith
  with assms(3) have "\<not> physical_ms t > u" by (simp add: word_less_def word_le_def)
  with assms(2) upper show ?thesis by (simp add: admit_incoming_def)
qed

text \<open>The bound on incoming stamps grows with the local monotonic clock and never exceeds
  the sampled target time by more than half the round trip, the precision, the age and the
  allowed skew; no stamp is admitted once the sample is fifteen minutes old.\<close>

theorem incoming_bound:
  assumes "admit s = Inr c" and "admit_incoming c target now t = Inr ()"
  shows "target = sample_target_id s
    \<and> uint now - uint (response_monotonic_ms s) < 900000
    \<and> uint (physical_ms t) \<le> uint (target_ms s)
        + (uint (response_monotonic_ms s) - uint (request_monotonic_ms s) + 1) div 2
        + uint (precision_ms s) + (uint now - uint (response_monotonic_ms s)) + 300000"
proof -
  obtain u where u: "incoming_upper_ms c target now = Inr u" "physical_ms t \<le> u"
    using assms(2) by (auto simp: admit_incoming_def bindE_Inr split: if_splits)
  with admit_Inr [OF assms(1)] show ?thesis
    by (auto simp: incoming_upper_Inr word_le_def)
qed

definition sample_writer :: string where
  "sample_writer = ''00000000-0000-4000-8000-000000000000''"

definition sample_clock :: clock_sample where
  "sample_clock = \<lparr>sample_target_id = ''t'', request_wall_ms = 1000, response_wall_ms = 1010,
     request_monotonic_ms = 100, response_monotonic_ms = 110, target_ms = 1005, precision_ms = 1,
     successful = True, cached_or_aged = False\<rparr>"

definition sample_admitted :: admitted_clock where
  "sample_admitted = \<lparr>clock_target_id = ''t'', sampled_monotonic_ms = 110, target_upper_ms = 1011\<rparr>"

lemma sample_admit: "admit sample_clock = Inr sample_admitted"
  by (simp add: admit_def sample_clock_def sample_admitted_def checked_sub_def checked_add_def
      MAX_CLOCK_DISCONTINUITY_MS_def MAX_CLOCK_SKEW_MS_def word_less_def word_le_def)

lemma sample_writer_valid: "validate_writer_id sample_writer = Inr ()"
  by (simp add: validate_writer_id_def sample_writer_def enumerate_eq_zip is_lower_hex_def is_ascii_digit_def)

lemma admitted_clock_accepts_local_witness:
  "admit_incoming sample_admitted ''t'' 110 (Stamp 1010 0 sample_writer) = Inr ()"
  using admitted_clock_accepts_local [OF sample_admit, of "Stamp 1010 0 sample_writer"]
  by (simp add: stamp_validate_def sample_writer_valid sample_clock_def sample_admitted_def)

lemma incoming_bound_witness:
  "admit_incoming sample_admitted ''t'' 120 (Stamp 1010 0 sample_writer) = Inr ()
   \<and> ''t'' = sample_target_id sample_clock
   \<and> uint (120 :: u64) - uint (response_monotonic_ms sample_clock) < 900000
   \<and> uint (1010 :: u64) \<le> uint (target_ms sample_clock)
        + (uint (response_monotonic_ms sample_clock) - uint (request_monotonic_ms sample_clock) + 1) div 2
        + uint (precision_ms sample_clock)
        + (uint (120 :: u64) - uint (response_monotonic_ms sample_clock)) + 300000"
proof -
  have "admit_incoming sample_admitted ''t'' 120 (Stamp 1010 0 sample_writer) = Inr ()"
    by (simp add: admit_incoming_def incoming_upper_ms_def sample_admitted_def checked_sub_def
        checked_add_def stamp_validate_def sample_writer_valid CLOCK_SAMPLE_LIFETIME_MS_def
        MAX_CLOCK_SKEW_MS_def)
  with incoming_bound [OF sample_admit this] show ?thesis by simp
qed

end
