(* ===== verification/Ordered_Map.thy ===== *)
theory Ordered_Map
  imports Prelude
begin

text \<open>
  \<^verbatim>\<open>std::collections::BTreeMap\<close> as the code uses it: an association list in strictly
  increasing key order, which is what iteration delivers. The interface \<open>table\<close> states the laws
  of lookup, insertion and removal; \<open>canonical_table\<close> adds that the contents determine
  the value, so that two maps with the same bindings iterate the same way.
\<close>

section \<open>The interface\<close>

locale table =
  fixes empty :: 'm
    and lookup :: "'m \<Rightarrow> 'k \<Rightarrow> 'v option"
    and insert_into :: "'k \<Rightarrow> 'v \<Rightarrow> 'm \<Rightarrow> 'm"
    and delete_from :: "'k \<Rightarrow> 'm \<Rightarrow> 'm"
    and inv :: "'m \<Rightarrow> bool"
  assumes inv_empty: "inv empty"
    and inv_insert: "inv m \<Longrightarrow> inv (insert_into k v m)"
    and inv_delete: "inv m \<Longrightarrow> inv (delete_from k m)"
    and lookup_empty: "lookup empty k = None"
    and lookup_insert: "inv m \<Longrightarrow> lookup (insert_into k v m) k' = (if k' = k then Some v else lookup m k')"
    and lookup_delete: "inv m \<Longrightarrow> lookup (delete_from k m) k' = (if k' = k then None else lookup m k')"
begin

lemma fold_insert_inv: "inv m \<Longrightarrow> inv (fold (\<lambda>(k, v). insert_into k v) kvs m)"
  by (induction kvs arbitrary: m) (auto simp: inv_insert)

lemma fold_insert_lookup:
  "inv m \<Longrightarrow> lookup (fold (\<lambda>(k, v). insert_into k v) kvs m) k
     = (case map_of (rev kvs) k of None \<Rightarrow> lookup m k | Some v \<Rightarrow> Some v)"
  by (induction kvs arbitrary: m)
    (auto simp: inv_insert lookup_insert map_add_def split: option.splits)

lemma fold_delete_inv: "inv m \<Longrightarrow> inv (fold delete_from ks m)"
  by (induction ks arbitrary: m) (auto simp: inv_delete)

lemma fold_delete_lookup:
  "inv m \<Longrightarrow> lookup (fold delete_from ks m) k = (if k \<in> set ks then None else lookup m k)"
  by (induction ks arbitrary: m) (auto simp: inv_delete lookup_delete)

end

locale canonical_table = table empty lookup insert_into delete_from inv
  for empty :: 'm
    and lookup :: "'m \<Rightarrow> 'k \<Rightarrow> 'v option"
    and insert_into :: "'k \<Rightarrow> 'v \<Rightarrow> 'm \<Rightarrow> 'm"
    and delete_from :: "'k \<Rightarrow> 'm \<Rightarrow> 'm"
    and inv :: "'m \<Rightarrow> bool" +
  assumes determined: "inv a \<Longrightarrow> inv b \<Longrightarrow> (\<And>k. lookup a k = lookup b k) \<Longrightarrow> a = b"
begin

lemma insert_commute:
  assumes "inv m" and "k \<noteq> k'"
  shows "insert_into k v (insert_into k' v' m) = insert_into k' v' (insert_into k v m)"
  by (rule determined) (use assms in \<open>auto simp: inv_insert lookup_insert\<close>)

lemma insert_same: "inv m \<Longrightarrow> lookup m k = Some v \<Longrightarrow> insert_into k v m = m"
  by (rule determined) (auto simp: inv_insert lookup_insert)

lemma delete_absent: "inv m \<Longrightarrow> lookup m k = None \<Longrightarrow> delete_from k m = m"
  by (rule determined) (auto simp: inv_delete lookup_delete)

lemma collect_eq:
  assumes "\<And>k. map_of (rev kvs) k = map_of (rev kvs') k"
  shows "fold (\<lambda>(k, v). insert_into k v) kvs empty = fold (\<lambda>(k, v). insert_into k v) kvs' empty"
  by (rule determined) (use assms in \<open>simp_all add: fold_insert_inv fold_insert_lookup inv_empty\<close>)

end

section \<open>The implementation\<close>

fun bt_insert :: "'k::linorder \<Rightarrow> 'v \<Rightarrow> ('k \<times> 'v) list \<Rightarrow> ('k \<times> 'v) list" where
  "bt_insert k v [] = [(k, v)]"
| "bt_insert k v ((a, b) # xs) =
     (if k < a then (k, v) # (a, b) # xs
      else if k = a then (k, v) # xs
      else (a, b) # bt_insert k v xs)"

definition bt_delete :: "'k \<Rightarrow> ('k \<times> 'v) list \<Rightarrow> ('k \<times> 'v) list" where
  "bt_delete k xs = filter (\<lambda>(a, _). a \<noteq> k) xs"

definition bt_collect :: "('k::linorder \<times> 'v) list \<Rightarrow> ('k \<times> 'v) list" where
  "bt_collect kvs = fold (\<lambda>(k, v). bt_insert k v) kvs []"

definition bt_inv :: "('k::linorder \<times> 'v) list \<Rightarrow> bool" where
  "bt_inv xs = sorted_wrt (<) (map fst xs)"

lemma bt_inv_simps [simp]:
  "bt_inv []"
  "bt_inv (x # xs) \<longleftrightarrow> (\<forall>y \<in> set xs. fst x < fst y) \<and> bt_inv xs"
  by (simp_all add: bt_inv_def)

lemma keys_bt_insert: "fst ` set (bt_insert k v xs) = insert k (fst ` set xs)"
  by (induction k v xs rule: bt_insert.induct) auto

lemma bt_inv_insert: "bt_inv xs \<Longrightarrow> bt_inv (bt_insert k v xs)"
proof (induction k v xs rule: bt_insert.induct)
  case (2 k v a b xs)
  show ?case
  proof (cases "k < a")
    case True
    with 2 show ?thesis by (auto intro: order.strict_trans)
  next
    case False
    have "\<forall>x \<in> fst ` set (bt_insert k v xs). a < x" if "k \<noteq> a"
      using False that 2(2) by (auto simp: keys_bt_insert)
    with False 2 show ?thesis by auto
  qed
qed simp

lemma bt_inv_distinct: "bt_inv xs \<Longrightarrow> distinct (map fst xs)"
  by (simp add: bt_inv_def strict_sorted_iff)

lemma bt_inv_filter: "bt_inv xs \<Longrightarrow> bt_inv (filter P xs)"
  by (induction xs) auto

lemma bt_inv_delete: "bt_inv xs \<Longrightarrow> bt_inv (bt_delete k xs)"
  by (simp add: bt_delete_def bt_inv_filter)

lemma map_of_bt_insert:
  "bt_inv xs \<Longrightarrow> map_of (bt_insert k v xs) k' = (if k' = k then Some v else map_of xs k')"
  by (induction k v xs rule: bt_insert.induct) auto

lemma map_of_bt_delete: "map_of (bt_delete k xs) k' = (if k' = k then None else map_of xs k')"
  by (induction xs) (auto simp: bt_delete_def)

lemma bt_sorted_unique:
  assumes "set a = set b" and "sorted (map fst a)" "sorted (map fst b)"
    and "distinct (map fst a)" "distinct (map fst b)"
  shows "a = b"
  by (rule map_sorted_distinct_set_unique [of fst])
    (use assms in \<open>auto simp: distinct_map inj_on_def\<close>)

lemma bt_inv_eqI:
  "bt_inv a \<Longrightarrow> bt_inv b \<Longrightarrow> (\<And>k. map_of a k = map_of b k) \<Longrightarrow> a = b"
proof -
  assume a: "bt_inv a" and b: "bt_inv b" and eq: "\<And>k. map_of a k = map_of b k"
  have "set a = set b"
    using map_of_inject_set [OF bt_inv_distinct [OF a] bt_inv_distinct [OF b]] eq by (simp add: fun_eq_iff)
  moreover have "sorted (map fst a)" "sorted (map fst b)"
    using a b by (simp_all add: bt_inv_def strict_sorted_iff)
  ultimately show "a = b"
    using bt_inv_distinct [OF a] bt_inv_distinct [OF b] by (intro bt_sorted_unique)
qed

interpretation bt: canonical_table "[]" map_of bt_insert bt_delete bt_inv
  by unfold_locales
    (simp_all add: bt_inv_insert map_of_bt_insert map_of_bt_delete bt_inv_delete bt_inv_eqI)

lemma bt_collect_inv [simp]: "bt_inv (bt_collect kvs)"
  by (simp add: bt_collect_def bt.fold_insert_inv)

lemma bt_collect_lookup: "map_of (bt_collect kvs) k = map_of (rev kvs) k"
  by (simp add: bt_collect_def bt.fold_insert_lookup split: option.split)

lemma set_bt_insert: "bt_inv xs \<Longrightarrow> set (bt_insert k v xs) = insert (k, v) {p \<in> set xs. fst p \<noteq> k}"
  by (induction k v xs rule: bt_insert.induct) auto

lemma bt_collect_snoc: "bt_collect (kvs @ [(k, v)]) = bt_insert k v (bt_collect kvs)"
  by (simp add: bt_collect_def)

lemma keys_bt_collect: "fst ` set (bt_collect kvs) = fst ` set kvs"
proof (induction kvs rule: rev_induct)
  case Nil
  show ?case by (simp add: bt_collect_def)
next
  case (snoc p kvs)
  then show ?case by (cases p) (simp add: bt_collect_snoc keys_bt_insert)
qed

lemma bt_collect_permuted:
  assumes "bt_inv xs" and "set ys = set xs" and "distinct (map fst ys)"
  shows "bt_collect ys = xs"
proof (rule bt_inv_eqI)
  fix k
  have "distinct (map fst (rev ys))" using assms(3) by (simp add: rev_map [symmetric])
  then have "map_of (rev ys) = map_of xs"
    using assms bt_inv_distinct [OF assms(1)] by (subst map_of_inject_set) simp_all
  then show "map_of (bt_collect ys) k = map_of xs k" by (simp add: bt_collect_lookup)
qed (use assms in simp_all)

lemma map_le_row: "m \<subseteq>\<^sub>m n \<Longrightarrow> m k = Some v \<Longrightarrow> n k = Some v"
  by (metis domI map_le_def)

end
