(* ===== verification/Json.thy ===== *)
theory Json
  imports Codec Ordered_Map
begin

text \<open>
  \<^verbatim>\<open>crates/sync-wire/src/canonical.rs\<close>: the number-free canonical JSON of the protocol.
  The text of a null, a boolean or a string and the parse of a byte string come from
  \<^verbatim>\<open>serde_json\<close>, digests from \<^verbatim>\<open>sha2\<close> and \<^verbatim>\<open>hex\<close>, the unit value spelling from
  \<^verbatim>\<open>base64\<close> and numbers from \<^verbatim>\<open>ryu_js\<close>: these are the fields of the record \<open>ext\<close>, an
  argument of every definition that uses them. \<^verbatim>\<open>serde_json::Value\<close> is \<open>json\<close>; the pairs of an
  object are a \<^verbatim>\<open>BTreeMap\<close> (a sorted association list) in a value and the pairs in document
  order, duplicates included, in a parse.
\<close>

section \<open>Values and external libraries\<close>

datatype json_number = PosInt u64 | NegInt u64 | Float u64

datatype json =
    JNull
  | JBool bool
  | JNumber json_number
  | JString string
  | JArray "json list"
  | JObject "(string \<times> json) list"

record ext =
  to_vec :: "json \<Rightarrow> bytes"
  from_slice :: "bytes \<Rightarrow> json option"
  sha256 :: "bytes \<Rightarrow> string"
  b64_encode :: "bytes \<Rightarrow> string"
  b64_decode :: "string \<Rightarrow> bytes option"
  format_f64 :: "u64 \<Rightarrow> string"

definition map_err :: "wire_error \<Rightarrow> 'a result \<Rightarrow> 'a result" where
  "map_err e m = (case m of Inl _ \<Rightarrow> Inl e | Inr x \<Rightarrow> Inr x)"

lemma map_err_Inr [simp]: "map_err e m = Inr x \<longleftrightarrow> m = Inr x"
  by (cases m) (auto simp: map_err_def)

lemma map_err_Inl [simp]: "map_err e m = Inl e' \<longleftrightarrow> e' = e \<and> (\<exists>d. m = Inl d)"
  by (cases m) (auto simp: map_err_def)

section \<open>UTF-16 key order\<close>

text \<open>
  \<^verbatim>\<open>encode_utf16\<close> on the UTF-8 bytes of a \<^verbatim>\<open>String\<close>. A \<^verbatim>\<open>String\<close> is well-formed UTF-8, so the
  lead byte says how many bytes follow; the last clause is never reached on one.
\<close>

definition code :: "char \<Rightarrow> nat" where
  "code c = of_char c"

fun code_points :: "string \<Rightarrow> nat list" where
  "code_points [] = []"
| "code_points (a # s) =
     (if code a < 128 then code a # code_points s
      else if code a < 224 then
        (case s of
           b # s' \<Rightarrow> ((code a - 192) * 64 + code b mod 64) # code_points s'
         | _ \<Rightarrow> [])
      else if code a < 240 then
        (case s of
           b # c # s' \<Rightarrow>
             ((code a - 224) * 4096 + code b mod 64 * 64 + code c mod 64) # code_points s'
         | _ \<Rightarrow> [])
      else
        (case s of
           b # c # d # s' \<Rightarrow>
             ((code a - 240) * 262144 + code b mod 64 * 4096 + code c mod 64 * 64 + code d mod 64)
               # code_points s'
         | _ \<Rightarrow> []))"

definition utf16_units :: "nat \<Rightarrow> nat list" where
  "utf16_units p =
     (if p < 65536 then [p] else [55296 + (p - 65536) div 1024, 56320 + (p - 65536) mod 1024])"

definition utf16 :: "string \<Rightarrow> nat list" where
  "utf16 s = concat (map utf16_units (code_points s))"

section \<open>Reading\<close>

text \<open>The \<^verbatim>\<open>Strict\<close> visitor: no number, no duplicate key.\<close>

lemma foldE_cong [fundef_cong]:
  "s = s' \<Longrightarrow> xs = ys \<Longrightarrow> (\<And>x t. x \<in> set ys \<Longrightarrow> f t x = g t x) \<Longrightarrow> foldE f s xs = foldE g s' ys"
  by (induction xs arbitrary: s s' ys) (auto intro!: bindE_cong)

lemma mapE_cong [fundef_cong]:
  "xs = ys \<Longrightarrow> (\<And>x. x \<in> set ys \<Longrightarrow> f x = g x) \<Longrightarrow> mapE f xs = mapE g ys"
  by (induction xs arbitrary: ys) (auto intro!: bindE_cong)

lemma json_size_array: "v \<in> set vs \<Longrightarrow> size v < Suc (size_list size vs)"
  by (induction vs) auto

lemma json_size_object: "(k, v) \<in> set ps \<Longrightarrow> size v < Suc (size_list (size_prod (\<lambda>x. 0) size) ps)"
  by (induction ps) (auto simp: size_prod_def split: prod.splits)

lemma enumerate_mem: "(i, x) \<in> set (enumerate n xs) \<Longrightarrow> x \<in> set xs"
  by (simp add: enumerate_eq_zip set_zip) auto

function strict :: "json \<Rightarrow> json result" where
  "strict JNull = Inr JNull"
| "strict (JBool b) = Inr (JBool b)"
| "strict (JNumber n) = Inl (WireError ''invalid-type'')"
| "strict (JString s) = Inr (JString s)"
| "strict (JArray vs) = bindE (mapE strict vs) (\<lambda>values. Inr (JArray values))"
| "strict (JObject ps) =
     bindE (foldE (\<lambda>values p.
         if map_of values (fst p) \<noteq> None then Inl (WireError ''duplicate-key'')
         else bindE (strict (snd p)) (\<lambda>value. Inr (bt_insert (fst p) value values))) [] ps)
       (\<lambda>values. Inr (JObject values))"
  by pat_completeness auto
termination
  by (relation "measure size") (auto intro: json_size_array json_size_object)

definition canonical_decode ::
  "ext \<Rightarrow> (json \<Rightarrow> 'a option) \<Rightarrow> bytes \<Rightarrow> nat \<Rightarrow> 'a result" where
  "canonical_decode X from_value bs limit =
     (if length bs > limit then Inl (WireError ''metadata-too-large'')
      else
        bindE (map_err (WireError ''invalid-control-json'')
                 (bindE (ok_or (from_slice X bs) (WireError ''syntax'')) strict)) (\<lambda>value.
        ok_or (from_value value) (WireError ''invalid-control-schema'')))"

section \<open>Writing\<close>

abbreviation byte :: "char \<Rightarrow> u8" where
  "byte c \<equiv> of_char c"

definition separator :: "nat \<Rightarrow> bytes" where
  "separator i = (if i \<noteq> 0 then [byte CHR '','']  else [])"

text \<open>\<^verbatim>\<open>write\<close>: appends to \<open>out\<close>; the keys of an object are sorted by their UTF-16 units.\<close>

function canonical_write :: "ext \<Rightarrow> json \<Rightarrow> bytes \<Rightarrow> bytes result" where
  "canonical_write X (JNumber n) out = Inl (WireError ''numbers-forbidden'')"
| "canonical_write X (JObject ps) out =
     bindE (foldE (\<lambda>out (i, p).
         canonical_write X (snd p)
           (out @ separator i @ to_vec X (JString (fst p)) @ [byte CHR '':'']))
       (out @ [byte CHR ''{'']) (enumerate 0 (sort_key (\<lambda>p. utf16 (fst p)) ps)))
     (\<lambda>out. Inr (out @ [byte CHR ''}'']))"
| "canonical_write X (JArray vs) out =
     bindE (foldE (\<lambda>out (i, v). canonical_write X v (out @ separator i))
       (out @ [byte CHR ''['']) (enumerate 0 vs))
     (\<lambda>out. Inr (out @ [byte CHR '']'']))"
| "canonical_write X JNull out = Inr (out @ to_vec X JNull)"
| "canonical_write X (JBool b) out = Inr (out @ to_vec X (JBool b))"
| "canonical_write X (JString s) out = Inr (out @ to_vec X (JString s))"
  by pat_completeness auto
termination
  by (relation "measure (\<lambda>(X, v, out). size v)") (auto dest!: enumerate_mem intro: json_size_array json_size_object)

text \<open>\<^verbatim>\<open>encode\<close> on the value the derived \<^verbatim>\<open>Serialize\<close> delivers.\<close>

definition canonical_encode :: "ext \<Rightarrow> json \<Rightarrow> bytes result" where
  "canonical_encode X value = canonical_write X value []"

section \<open>Specification\<close>

fun number_free :: "json \<Rightarrow> bool" where
  "number_free (JNumber n) = False"
| "number_free (JArray vs) = list_all number_free vs"
| "number_free (JObject ps) = list_all (\<lambda>p. number_free (snd p)) ps"
| "number_free _ = True"

text \<open>Every object is a \<^verbatim>\<open>BTreeMap\<close>.\<close>

fun wf_value :: "json \<Rightarrow> bool" where
  "wf_value (JArray vs) = list_all wf_value vs"
| "wf_value (JObject ps) = (bt_inv ps \<and> list_all (\<lambda>p. wf_value (snd p)) ps)"
| "wf_value _ = True"

text \<open>The tree with its objects in UTF-16 key order, and the compact text of a tree.\<close>

function canon :: "json \<Rightarrow> json" where
  "canon (JArray vs) = JArray (map canon vs)"
| "canon (JObject ps) =
     JObject (map (\<lambda>p. (fst p, canon (snd p))) (sort_key (\<lambda>p. utf16 (fst p)) ps))"
| "canon JNull = JNull"
| "canon (JBool b) = JBool b"
| "canon (JNumber n) = JNumber n"
| "canon (JString s) = JString s"
  by pat_completeness auto
termination
  by (relation "measure size") (auto intro: json_size_array json_size_object)

definition join :: "bytes list \<Rightarrow> bytes" where
  "join xs = concat (map (\<lambda>(i, x). separator i @ x) (enumerate 0 xs))"

fun json_text :: "ext \<Rightarrow> json \<Rightarrow> bytes" where
  "json_text X (JArray vs) = byte CHR ''['' # join (map (json_text X) vs) @ [byte CHR '']'']"
| "json_text X (JObject ps) =
     byte CHR ''{'' # join (map (\<lambda>p. to_vec X (JString (fst p)) @ [byte CHR '':''] @ json_text X (snd p)) ps)
       @ [byte CHR ''}'']"
| "json_text X v = to_vec X v"

section \<open>Lemmas\<close>

lemma join_snoc: "join (xs @ [x]) = join xs @ separator (length xs) @ x"
  by (simp add: join_def enumerate_append_eq)

lemma length_join: "length (join xs) \<le> sum_list (map length xs) + length xs"
proof (induction xs rule: rev_induct)
  case (snoc x xs)
  have "length (separator (length xs)) \<le> 1" by (simp add: separator_def)
  with snoc show ?case by (simp add: join_snoc)
qed (simp add: join_def)

lemma foldE_separated:
  assumes "\<And>x out. x \<in> set xs \<Longrightarrow> f x out = (if P x then Inr (out @ g x) else Inl e)"
  shows "foldE (\<lambda>out (i, x). f x (out @ separator i)) out (enumerate n xs) =
    (if list_all P xs then Inr (out @ concat (map (\<lambda>(i, x). separator i @ x) (enumerate n (map g xs))))
     else Inl e)"
  using assms by (induction xs arbitrary: out n) auto

lemma canonical_write_spec:
  "canonical_write X v out =
     (if number_free v then Inr (out @ json_text X (canon v)) else Inl (WireError ''numbers-forbidden''))"
proof (induction v arbitrary: out)
  case (JArray vs)
  have "foldE (\<lambda>out (i, v). canonical_write X v (out @ separator i)) out (enumerate n vs)
    = (if list_all number_free vs
       then Inr (out @ concat (map (\<lambda>(i, x). separator i @ x)
          (enumerate n (map (\<lambda>v. json_text X (canon v)) vs))))
       else Inl (WireError ''numbers-forbidden''))" for out n
    by (rule foldE_separated) (simp add: JArray)
  then show ?case by (simp add: join_def o_def)
next
  case (JObject ps)
  let ?ps = "sort_key (\<lambda>p. utf16 (fst p)) ps"
  have "foldE (\<lambda>out (i, p). canonical_write X (snd p)
        ((out @ separator i) @ to_vec X (JString (fst p)) @ [byte CHR '':''])) out (enumerate n ?ps)
    = (if list_all (\<lambda>p. number_free (snd p)) ?ps
       then Inr (out @ concat (map (\<lambda>(i, x). separator i @ x)
          (enumerate n (map (\<lambda>p. to_vec X (JString (fst p)) @ [byte CHR '':'']
              @ json_text X (canon (snd p))) ?ps))))
       else Inl (WireError ''numbers-forbidden''))" for out n
    by (rule foldE_separated) (auto simp: JObject snds.intros)
  then show ?case by (simp add: join_def o_def list_all_iff)
qed simp_all

text \<open>The tree whose objects are collected into \<^verbatim>\<open>BTreeMap\<close>s, and the absence of duplicates.\<close>

function key_sorted :: "json \<Rightarrow> json" where
  "key_sorted (JArray vs) = JArray (map key_sorted vs)"
| "key_sorted (JObject ps) = JObject (bt_collect (map (\<lambda>p. (fst p, key_sorted (snd p))) ps))"
| "key_sorted JNull = JNull"
| "key_sorted (JBool b) = JBool b"
| "key_sorted (JNumber n) = JNumber n"
| "key_sorted (JString s) = JString s"
  by pat_completeness auto
termination
  by (relation "measure size") (auto intro: json_size_array json_size_object)

fun no_duplicates :: "json \<Rightarrow> bool" where
  "no_duplicates (JArray vs) = list_all no_duplicates vs"
| "no_duplicates (JObject ps) =
     (distinct (map fst ps) \<and> list_all (\<lambda>p. no_duplicates (snd p)) ps)"
| "no_duplicates _ = True"

definition strict_step :: "(string \<times> json) list \<Rightarrow> string \<times> json \<Rightarrow> (string \<times> json) list result" where
  "strict_step values p =
     (if map_of values (fst p) \<noteq> None then Inl (WireError ''duplicate-key'')
      else bindE (strict (snd p)) (\<lambda>value. Inr (bt_insert (fst p) value values)))"

lemma strict_object: "strict (JObject ps) = bindE (foldE strict_step [] ps) (\<lambda>values. Inr (JObject values))"
  by (simp add: strict_step_def [abs_def])

lemma strict_array_ok: "strict (JArray vs) = Inr w \<longleftrightarrow> (\<exists>ws. mapE strict vs = Inr ws \<and> w = JArray ws)"
  by (auto simp: bindE_Inr)

lemma strict_fold:
  assumes "\<And>p w. p \<in> set ps \<Longrightarrow> strict (snd p) = Inr w \<longleftrightarrow> Q (snd p) \<and> w = g (snd p)"
  shows "foldE strict_step [] ps = Inr vals \<longleftrightarrow>
    distinct (map fst ps) \<and> list_all (\<lambda>p. Q (snd p)) ps
    \<and> vals = bt_collect (map (\<lambda>p. (fst p, g (snd p))) ps)"
  using assms
proof (induction ps arbitrary: vals rule: rev_induct)
  case Nil
  then show ?case by (auto simp: bt_collect_def)
next
  case (snoc p ps)
  have IH: "foldE strict_step [] ps = Inr vals \<longleftrightarrow>
    distinct (map fst ps) \<and> list_all (\<lambda>p. Q (snd p)) ps
    \<and> vals = bt_collect (map (\<lambda>p. (fst p, g (snd p))) ps)" for vals
    by (rule snoc.IH) (use snoc.prems in simp)
  have last: "strict (snd p) = Inr w \<longleftrightarrow> Q (snd p) \<and> w = g (snd p)" for w
    by (rule snoc.prems) simp
  have key: "map_of (bt_collect (map (\<lambda>p. (fst p, g (snd p))) ps)) (fst p) = None
      \<longleftrightarrow> fst p \<notin> fst ` set ps"
    by (simp add: map_of_eq_None_iff keys_bt_collect image_image)
  have step: "strict_step vals' p = Inr vals \<longleftrightarrow> map_of vals' (fst p) = None \<and> Q (snd p)
      \<and> vals = bt_insert (fst p) (g (snd p)) vals'" for vals'
    by (auto simp: strict_step_def bindE_Inr last)
  show ?case
    using key by (auto simp: foldE_append bindE_Inr IH step bt_collect_snoc)
qed

lemma strict_Inr: "strict v = Inr w \<longleftrightarrow> number_free v \<and> no_duplicates v \<and> w = key_sorted v"
proof (induction v arbitrary: w)
  case (JArray vs)
  then have "mapE strict vs = Inr ws \<longleftrightarrow>
      list_all number_free vs \<and> list_all no_duplicates vs \<and> ws = map key_sorted vs" for ws
    by (induction vs arbitrary: ws) (auto simp: bindE_Inr)
  then show ?case by (simp only: strict_array_ok) auto
next
  case (JObject ps)
  have "foldE strict_step [] ps = Inr vals \<longleftrightarrow>
    distinct (map fst ps) \<and> list_all (\<lambda>p. number_free (snd p) \<and> no_duplicates (snd p)) ps
    \<and> vals = bt_collect (map (\<lambda>p. (fst p, key_sorted (snd p))) ps)" for vals
    using strict_fold [of ps "\<lambda>v. number_free v \<and> no_duplicates v" key_sorted vals]
    by (simp add: JObject snds.intros prod_set_simps)
  then show ?case unfolding strict_object bindE_Inr by (auto simp: list_all_iff)
qed auto

lemma wf_key_sorted: "wf_value (key_sorted v)"
proof (induction v)
  case (JObject ps)
  have "\<forall>p \<in> set (bt_collect kvs). p \<in> set kvs" for kvs :: "(string \<times> json) list"
    by (induction kvs rule: rev_induct) (auto simp: bt_collect_snoc set_bt_insert, simp add: bt_collect_def)
  then show ?case using JObject by (fastforce simp: list_all_iff snds.intros prod_set_simps)
qed (auto simp: list_all_iff)

lemma canon_number_free [simp]: "number_free (canon v) = number_free v"
  by (induction v) (auto simp: list_all_iff snds.intros prod_set_simps)

lemma canon_no_duplicates: "wf_value v \<Longrightarrow> no_duplicates (canon v)"
proof (induction v)
  case (JObject ps)
  then have "distinct (map fst ps)" by (simp add: bt_inv_distinct)
  then have "distinct (map fst (sort_key (\<lambda>p. utf16 (fst p)) ps))" by (simp add: distinct_map)
  moreover have "\<forall>p \<in> set ps. no_duplicates (canon (snd p))"
    using JObject by (auto simp: list_all_iff snds.intros prod_set_simps)
  ultimately show ?case by (simp add: o_def list_all_iff)
qed (auto simp: list_all_iff)

lemma key_sorted_canon: "wf_value v \<Longrightarrow> key_sorted (canon v) = v"
proof (induction v)
  case (JArray vs)
  then show ?case by (simp add: list_all_iff map_idI)
next
  case (JObject ps)
  let ?ps = "sort_key (\<lambda>p. utf16 (fst p)) ps"
  have "key_sorted (canon (snd p)) = snd p" if "p \<in> set ps" for p
    using JObject that by (auto simp: list_all_iff snds.intros prod_set_simps)
  then have "map (\<lambda>p. (fst p, key_sorted (canon (snd p)))) ?ps = ?ps"
    by (intro map_idI) simp
  moreover have "bt_collect ?ps = ps"
  proof (rule bt_collect_permuted)
    show "bt_inv ps" using JObject by simp
    then show "distinct (map fst ?ps)" using bt_inv_distinct [of ps] by (simp add: distinct_map)
  qed simp
  ultimately show ?case by (simp add: o_def)
qed simp_all

lemma strict_canon: "wf_value v \<Longrightarrow> number_free v \<Longrightarrow> strict (canon v) = Inr v"
  by (simp add: strict_Inr canon_no_duplicates key_sorted_canon)

text \<open>The parser reads back a canonical text.\<close>

definition parses :: "ext \<Rightarrow> json \<Rightarrow> bool" where
  "parses X v \<longleftrightarrow> from_slice X (json_text X (canon v)) = Some (canon v)"

fun utf16_ordered :: "json \<Rightarrow> bool" where
  "utf16_ordered (JArray vs) = list_all utf16_ordered vs"
| "utf16_ordered (JObject ps) =
     (sorted (map (\<lambda>p. utf16 (fst p)) ps) \<and> list_all (\<lambda>p. utf16_ordered (snd p)) ps)"
| "utf16_ordered _ = True"

lemma canon_ordered: "utf16_ordered (canon v)"
proof (induction v)
  case (JObject ps)
  then show ?case by (auto simp: o_def list_all_iff snds.intros prod_set_simps)
qed (auto simp: list_all_iff)

section \<open>Properties\<close>

text \<open>Encoding a value for the wire succeeds exactly when the value holds no number; the bytes
  are then the compact text of the value with every object in UTF-16 key order, and the only
  error is the one for numbers.\<close>

theorem canonical_encode_spec:
  "canonical_encode X v =
     (if number_free v then Inr (json_text X (canon v)) else Inl (WireError ''numbers-forbidden''))
   \<and> utf16_ordered (canon v)"
  by (simp add: canonical_encode_def canonical_write_spec canon_ordered)

text \<open>Decoding control bytes succeeds exactly when the bytes are within the limit, parse,
  contain no number and no duplicate key at any depth, and the collected value fits the schema.\<close>

theorem canonical_decode_strict:
  "canonical_decode X from_value bs limit = Inr x \<longleftrightarrow>
     length bs \<le> limit \<and> (\<exists>v. from_slice X bs = Some v \<and> number_free v \<and> no_duplicates v
       \<and> from_value (key_sorted v) = Some x)"
  by (auto simp: canonical_decode_def bindE_Inr strict_Inr)

text \<open>A value survives the wire: whatever number-free value is encoded, decoding its bytes
  with a parser that reads that text back gives the value to the schema unchanged, although the
  text has its keys in another order than the value.\<close>

theorem control_roundtrip:
  assumes "number_free v" and "wf_value v"
    and "from_slice X (json_text X (canon v)) = Some (canon v)"
    and "length (json_text X (canon v)) \<le> limit"
  shows "bindE (canonical_encode X v) (\<lambda>bs. canonical_decode X from_value bs limit)
    = ok_or (from_value v) (WireError ''invalid-control-schema'')"
  using assms
  by (simp add: canonical_encode_def canonical_write_spec canonical_decode_def strict_canon map_err_def)

text \<open>A concrete stand-in for the libraries, for the witnesses.\<close>

definition sample_value :: json where
  "sample_value = JObject [(''b'', JArray [JString ''x'', JNull]), (''c'', JBool True)]"

definition quote :: "json \<Rightarrow> bytes" where
  "quote v = (case v of
       JNull \<Rightarrow> as_bytes ''null''
     | JBool b \<Rightarrow> as_bytes (if b then ''true'' else ''false'')
     | JString s \<Rightarrow> byte (CHR 0x22) # as_bytes s @ [byte (CHR 0x22)]
     | _ \<Rightarrow> [])"

definition sample_ext :: "json \<Rightarrow> ext" where
  "sample_ext parsed =
     \<lparr>to_vec = quote, from_slice = (\<lambda>_. Some parsed), sha256 = (\<lambda>_. replicate 64 CHR ''0''),
      b64_encode = map (\<lambda>b. char_of (unat b)), b64_decode = (\<lambda>s. Some (as_bytes s)), format_f64 = (\<lambda>_. ''0'')\<rparr>"

lemma control_roundtrip_witness:
  "bindE (canonical_encode (sample_ext sample_value) sample_value)
     (\<lambda>bs. canonical_decode (sample_ext sample_value) Some bs 100) = Inr sample_value"
proof -
  have c: "canon sample_value = sample_value"
    by (simp add: sample_value_def utf16_def utf16_units_def code_def)
  have "length (json_text (sample_ext sample_value) sample_value) \<le> 100"
    by (simp add: sample_value_def sample_ext_def quote_def join_def separator_def as_bytes_def)
  moreover have "number_free sample_value" "wf_value sample_value"
    by (simp_all add: sample_value_def)
  ultimately have "bindE (canonical_encode (sample_ext sample_value) sample_value)
     (\<lambda>bs. canonical_decode (sample_ext sample_value) Some bs 100)
      = ok_or (Some sample_value) (WireError ''invalid-control-schema'')"
    by (intro control_roundtrip) (simp_all add: c, simp add: sample_ext_def)
  then show ?thesis by simp
qed

end
