(* ===== verification/Serde.thy ===== *)
theory Serde
  imports Json
begin

text \<open>
  What \<^verbatim>\<open>#[derive(Serialize, Deserialize)]\<close> makes of the attributes the protocol structures
  carry (\<^verbatim>\<open>deny_unknown_fields\<close>, \<^verbatim>\<open>rename_all\<close>, \<^verbatim>\<open>tag\<close>): a structure is an object of its
  fields, and is read from an object with no other field, a missing optional field being
  absent, or from an array of exactly its fields.
\<close>

definition struct_value :: "(string \<times> json) list \<Rightarrow> json" where
  "struct_value fs = JObject (bt_collect fs)"

definition opt_value :: "string option \<Rightarrow> json" where
  "opt_value m = (case m of None \<Rightarrow> JNull | Some s \<Rightarrow> JString s)"

definition strings_value :: "string list \<Rightarrow> json" where
  "strings_value xs = JArray (map JString xs)"

definition struct_fields :: "string list \<Rightarrow> json \<Rightarrow> json option list option" where
  "struct_fields names v =
     (case v of
        JObject ps \<Rightarrow>
          if list_all (\<lambda>p. fst p \<in> set names) ps then Some (map (map_of ps) names) else None
      | JArray vs \<Rightarrow> if length vs = length names then Some (map Some vs) else None
      | _ \<Rightarrow> None)"

text \<open>An internally tagged enum: the variant's name and what is left for its fields.\<close>

definition tagged :: "string \<Rightarrow> json \<Rightarrow> (string \<times> json) option" where
  "tagged tag v =
     (case v of
        JObject ps \<Rightarrow>
          (case map_of ps tag of Some (JString t) \<Rightarrow> Some (t, JObject (bt_delete tag ps)) | _ \<Rightarrow> None)
      | JArray (JString t # vs) \<Rightarrow> Some (t, JArray vs)
      | _ \<Rightarrow> None)"

definition as_string :: "json option \<Rightarrow> string option" where
  "as_string m = (case m of Some (JString s) \<Rightarrow> Some s | _ \<Rightarrow> None)"

definition as_opt_string :: "json option \<Rightarrow> string option option" where
  "as_opt_string m =
     (case m of None \<Rightarrow> Some None | Some JNull \<Rightarrow> Some None | Some (JString s) \<Rightarrow> Some (Some s) | _ \<Rightarrow> None)"

definition as_list :: "(json \<Rightarrow> 'a option) \<Rightarrow> json option \<Rightarrow> 'a list option" where
  "as_list f m = (case m of Some (JArray vs) \<Rightarrow> those (map f vs) | _ \<Rightarrow> None)"

definition as_strings :: "json option \<Rightarrow> string list option" where
  "as_strings m = as_list (\<lambda>v. as_string (Some v)) m"

lemma as_simps [simp]:
  "as_string (Some (JString s)) = Some s"
  "as_opt_string (Some (opt_value m)) = Some m"
  by (auto simp: as_string_def as_opt_string_def opt_value_def split: option.split)

lemma those_map_Some [simp]: "(\<And>x. x \<in> set xs \<Longrightarrow> f (g x) = Some x) \<Longrightarrow> those (map (f \<circ> g) xs) = Some xs"
  by (induction xs) auto

lemma as_strings_value [simp]: "as_strings (Some (strings_value xs)) = Some xs"
  by (simp add: as_strings_def as_list_def strings_value_def)

lemma number_free_values [simp]:
  "number_free (opt_value m)" "number_free (strings_value xs)"
  "wf_value (opt_value m)" "wf_value (strings_value xs)"
  by (auto simp: opt_value_def strings_value_def list_all_iff split: option.split)

lemma bt_collect_mem: "p \<in> set (bt_collect kvs) \<Longrightarrow> p \<in> set kvs"
  by (induction kvs arbitrary: p rule: rev_induct)
    (auto simp: bt_collect_snoc set_bt_insert, simp add: bt_collect_def)

lemma struct_value_free:
  assumes "list_all (\<lambda>p. number_free (snd p)) fs"
  shows "number_free (struct_value fs)"
  using assms by (auto simp: struct_value_def list_all_iff dest: bt_collect_mem)

lemma struct_value_wf:
  assumes "list_all (\<lambda>p. wf_value (snd p)) fs"
  shows "wf_value (struct_value fs)"
  using assms by (auto simp: struct_value_def list_all_iff dest: bt_collect_mem)

lemma struct_fields_value:
  assumes "distinct (map fst fs)" and "names = map fst fs"
  shows "struct_fields names (struct_value fs) = Some (map (Some \<circ> snd) fs)"
proof -
  have "map_of (bt_collect fs) k = map_of fs k" for k
  proof -
    have "distinct (map fst (rev fs))" using assms(1) by (simp add: rev_map [symmetric])
    then have "map_of (rev fs) = map_of fs"
      using assms(1) by (subst map_of_inject_set) simp_all
    then show ?thesis by (simp add: bt_collect_lookup)
  qed
  then have "map (map_of (bt_collect fs)) names = map (Some \<circ> snd) fs"
    using assms by (auto intro!: map_of_is_SomeI)
  moreover have "list_all (\<lambda>p. fst p \<in> set names) (bt_collect fs)"
    using assms(2) by (auto simp: list_all_iff dest: bt_collect_mem)
  ultimately show ?thesis by (simp add: struct_fields_def struct_value_def)
qed

end
