(* ===== verification/Head.thy ===== *)
theory Head
  imports Stamp Serde
begin

text \<open>
  \<^verbatim>\<open>crates/sync-wire/src/head.rs\<close> and \<^verbatim>\<open>changes.rs\<close>: remote sequences as decimal strings of
  any size up to 64 digits, the head of a remote ledger, and record versions.
  \<^verbatim>\<open>Sequence\<close> is a datatype with one constructor, so that it can be an instance of
  \<open>linorder\<close> with the order of the source.
\<close>

section \<open>Sequences\<close>

datatype sequence = Sequence (seq_str: string)

definition sequence_try_from :: "string \<Rightarrow> sequence result" where
  "sequence_try_from value =
     (if value = [] \<or> length value > 64 \<or> \<not> list_all is_ascii_digit value
         \<or> (length value > 1 \<and> hd value = CHR ''0'')
      then Inl (WireError ''invalid-sequence'') else Inr (Sequence value))"

definition sequence_from :: "u64 \<Rightarrow> sequence" where
  "sequence_from value = Sequence (show_nat (unat value))"

text \<open>\<^verbatim>\<open>sequence.as_str().parse::<u64>()\<close>: a longer sequence does not parse.\<close>

definition seq_u64 :: "sequence \<Rightarrow> u64 option" where
  "seq_u64 s = (if read_nat (seq_str s) < 2 ^ 64 then Some (of_nat (read_nat (seq_str s))) else None)"

lemma seq_from_u64 [simp]: "seq_u64 (sequence_from n) = Some n"
  using unat_less_64 [of n] by (simp add: seq_u64_def sequence_from_def)

text \<open>The loop over the digits from the last one; the flag says that it returned.\<close>

fun carry :: "string \<Rightarrow> string \<times> bool" where
  "carry [] = ([], False)"
| "carry (d # ds) =
     (if d \<noteq> CHR ''9'' then (char_of (of_char d + 1 :: nat) # ds, True)
      else (case carry ds of (ds', done) \<Rightarrow> (CHR ''0'' # ds', done)))"

definition sequence_next :: "sequence \<Rightarrow> sequence result" where
  "sequence_next s =
     (case carry (rev (seq_str s)) of
        (ds, True) \<Rightarrow> sequence_try_from (rev ds)
      | (ds, False) \<Rightarrow> sequence_try_from (CHR ''1'' # rev ds))"

definition sequence_cmp :: "sequence \<Rightarrow> sequence \<Rightarrow> ordering" where
  "sequence_cmp a b =
     then_cmp (cmp (length (seq_str a)) (length (seq_str b))) (cmp (seq_str a) (seq_str b))"

instantiation sequence :: linorder
begin

definition less_eq_sequence :: "sequence \<Rightarrow> sequence \<Rightarrow> bool" where
  "a \<le> b \<longleftrightarrow> sequence_cmp a b \<noteq> Greater"

definition less_sequence :: "sequence \<Rightarrow> sequence \<Rightarrow> bool" where
  "a < b \<longleftrightarrow> sequence_cmp a b = Less"

lemma sequence_cmp_Less:
  "sequence_cmp a b = Less \<longleftrightarrow> length (seq_str a) < length (seq_str b)
     \<or> length (seq_str a) = length (seq_str b) \<and> seq_str a < seq_str b"
  by (auto simp: sequence_cmp_def cmp_def)

lemma sequence_cmp_Greater: "sequence_cmp a b = Greater \<longleftrightarrow> sequence_cmp b a = Less"
  by (auto simp: sequence_cmp_def cmp_def)

lemma sequence_cmp_Equal: "sequence_cmp a b = Equal \<longleftrightarrow> a = b"
  by (auto simp: sequence_cmp_def cmp_def intro: sequence.expand)

instance
proof
  fix a b c :: sequence
  show "a < b \<longleftrightarrow> a \<le> b \<and> \<not> b \<le> a"
    by (metis less_eq_sequence_def less_sequence_def ordering.distinct(3) sequence_cmp_Greater)
  show "a \<le> a"
    by (metis less_eq_sequence_def ordering.distinct(5) sequence_cmp_Equal)
  show "a \<le> b \<Longrightarrow> b \<le> c \<Longrightarrow> a \<le> c"
    unfolding less_eq_sequence_def sequence_cmp_Greater sequence_cmp_Less by auto
  show "a \<le> b \<Longrightarrow> b \<le> a \<Longrightarrow> a = b"
    by (metis less_eq_sequence_def ordering.exhaust sequence_cmp_Equal sequence_cmp_Greater)
  show "a \<le> b \<or> b \<le> a"
    by (metis less_eq_sequence_def ordering.distinct(3) sequence_cmp_Greater)
qed

end

text \<open>The number a sequence spells.\<close>

definition seq_value :: "sequence \<Rightarrow> nat" where
  "seq_value s = read_nat (seq_str s)"

lemma sequence_try_from_Inr [simp]:
  "sequence_try_from v = Inr s \<longleftrightarrow> plain_decimal v \<and> length v \<le> 64 \<and> s = Sequence v"
  by (auto simp: sequence_try_from_def plain_decimal_def)

lemma sequence_try_from_Inl [simp]:
  "sequence_try_from v = Inl e \<longleftrightarrow>
     \<not> (plain_decimal v \<and> length v \<le> 64) \<and> e = WireError ''invalid-sequence''"
  by (auto simp: sequence_try_from_def plain_decimal_def)

lemma digit_less: "is_ascii_digit c \<Longrightarrow> is_ascii_digit d \<Longrightarrow> c < d \<longleftrightarrow> digit_value c < digit_value d"
  by (auto simp: is_ascii_digit_def less_eq_char_def less_char_def digit_value_def)

lemma digit_nine: "is_ascii_digit c \<Longrightarrow> c = CHR ''9'' \<longleftrightarrow> digit_value c = 9"
proof -
  have nine: "digit_value CHR ''9'' = 9" "digit_char 9 = CHR ''9''"
    by code_simp+
  assume "is_ascii_digit c"
  then have "digit_char (digit_value c) = c" using ascii_digit_char by blast
  with nine show ?thesis by metis
qed

lemma ascii_digit_code: "is_ascii_digit c \<longleftrightarrow> 48 \<le> (of_char c :: nat) \<and> of_char c \<le> (57 :: nat)"
  by (simp add: is_ascii_digit_def less_eq_char_def)

lemma digit_step:
  assumes "is_ascii_digit d" and "d \<noteq> CHR ''9''"
  shows "is_ascii_digit (char_of (of_char d + 1 :: nat))"
    and "digit_value (char_of (of_char d + 1 :: nat)) = digit_value d + 1"
    and "char_of (of_char d + 1 :: nat) \<noteq> CHR ''0''"
proof -
  have "digit_value d \<noteq> 9" using assms digit_nine [of d] by blast
  then have d: "48 \<le> (of_char d :: nat)" "of_char d < (57 :: nat)"
    using assms(1) by (auto simp: ascii_digit_code digit_value_def)
  then have up: "of_char (char_of (of_char d + 1 :: nat)) = (of_char d + 1 :: nat)" by simp
  show "is_ascii_digit (char_of (of_char d + 1 :: nat))"
    "digit_value (char_of (of_char d + 1 :: nat)) = digit_value d + 1"
    unfolding ascii_digit_code digit_value_def up using d by simp_all
  show "char_of (of_char d + 1 :: nat) \<noteq> CHR ''0''"
  proof
    assume "char_of (of_char d + 1 :: nat) = CHR ''0''"
    then have "of_char (char_of (of_char d + 1 :: nat)) = (48 :: nat)" by simp
    with up d show False by simp
  qed
qed

lemma read_nat_Cons: "read_nat (c # s) = digit_value c * 10 ^ length s + read_nat s"
proof (induction s rule: rev_induct)
  case (snoc d s)
  have "read_nat (c # s @ [d]) = read_nat (c # s) * 10 + digit_value d"
    using read_nat_snoc [of "c # s" d] by simp
  then show ?case using snoc by (simp add: read_nat_snoc)
qed (simp add: read_nat_def)

lemma read_nat_bound: "list_all is_ascii_digit s \<Longrightarrow> read_nat s < 10 ^ length s"
proof (induction s)
  case (Cons c s)
  then have "digit_value c * 10 ^ length s \<le> 9 * 10 ^ length s" "read_nat s < 10 ^ length s"
    using ascii_digit_char [of c] by (auto intro!: mult_le_mono1)
  then have "read_nat (c # s) < 9 * 10 ^ length s + 10 ^ length s"
    unfolding read_nat_Cons by (rule add_le_less_mono)
  then show ?case by simp
qed (simp add: read_nat_def)

lemma read_nat_less:
  "length s = length t \<Longrightarrow> list_all is_ascii_digit s \<Longrightarrow> list_all is_ascii_digit t
    \<Longrightarrow> s < t \<longleftrightarrow> read_nat s < read_nat t"
proof (induction s t rule: list_induct2)
  case (Cons c s d t)
  have b: "read_nat s < 10 ^ length t" "read_nat t < 10 ^ length t"
    using read_nat_bound [of s] read_nat_bound [of t] Cons by auto
  consider "digit_value c < digit_value d" | "digit_value c = digit_value d" | "digit_value d < digit_value c"
    by linarith
  then show ?case
  proof cases
    case 1
    then have "Suc (digit_value c) * 10 ^ length t \<le> digit_value d * 10 ^ length t"
      by (intro mult_le_mono1) simp
    with 1 b Cons show ?thesis by (simp add: read_nat_Cons digit_less)
  next
    case 2
    moreover have "digit_char (digit_value c) = c" "digit_char (digit_value d) = d"
      using Cons ascii_digit_char by auto
    ultimately have "c = d" by metis
    with Cons show ?thesis by (simp add: read_nat_Cons)
  next
    case 3
    then have "Suc (digit_value d) * 10 ^ length t \<le> digit_value c * 10 ^ length t"
      by (intro mult_le_mono1) simp
    with 3 b Cons show ?thesis by (auto simp: read_nat_Cons digit_less)
  qed
qed (simp add: read_nat_def)

lemma read_nat_lower: "plain_decimal s \<Longrightarrow> 1 < length s \<Longrightarrow> 10 ^ (length s - 1) \<le> read_nat s"
proof (cases s)
  case (Cons c t)
  assume "plain_decimal s" "1 < length s"
  then have "is_ascii_digit c" "c \<noteq> CHR ''0''" using Cons by (auto simp: plain_decimal_def)
  then have "1 \<le> digit_value c"
    using digit_char_props [of "digit_value c"] ascii_digit_char [of c] by force
  then have "1 * 10 ^ length t \<le> digit_value c * 10 ^ length t" by (rule mult_le_mono1)
  then show ?thesis using Cons by (simp add: read_nat_Cons trans_le_add1)
qed simp

lemma shorter_less:
  assumes "plain_decimal s" "plain_decimal t" "length s < length t"
  shows "read_nat s < read_nat t"
proof -
  have "length s \<noteq> 0" using assms(1) by (simp add: plain_decimal_def)
  then have long: "1 < length t" using assms(3) by linarith
  have "read_nat s < 10 ^ length s" using assms(1) by (simp add: plain_decimal_def read_nat_bound)
  also have "\<dots> \<le> 10 ^ (length t - 1)" using assms(3) by (intro power_increasing) auto
  also have "\<dots> \<le> read_nat t"
    using assms(2) long by (rule read_nat_lower)
  finally show ?thesis .
qed

lemma sequence_less_value:
  assumes "plain_decimal (seq_str a)" "plain_decimal (seq_str b)"
  shows "a < b \<longleftrightarrow> seq_value a < seq_value b"
proof (cases "length (seq_str a)" "length (seq_str b)" rule: linorder_cases)
  case equal
  with assms show ?thesis
    by (simp add: less_sequence_def sequence_cmp_Less seq_value_def read_nat_less plain_decimal_def)
next
  case less
  with assms shorter_less show ?thesis
    by (simp add: less_sequence_def sequence_cmp_Less seq_value_def)
next
  case greater
  with assms shorter_less [of "seq_str b" "seq_str a"] show ?thesis
    by (auto simp: less_sequence_def sequence_cmp_Less seq_value_def)
qed

lemma carry_spec:
  assumes "list_all is_ascii_digit ds"
  shows "case carry ds of (ds', done) \<Rightarrow>
    length ds' = length ds \<and> list_all is_ascii_digit ds'
    \<and> (if done then read_nat (rev ds') = read_nat (rev ds) + 1 \<and> ds \<noteq> []
             \<and> (ds' \<noteq> [] \<and> last ds' = CHR ''0'' \<longrightarrow> last ds = CHR ''0'')
        else read_nat (rev ds') = 0 \<and> read_nat (rev ds) + 1 = 10 ^ length ds)"
  using assms
proof (induction ds)
  case Nil
  then show ?case by (simp add: read_nat_def)
next
  case (Cons d ds)
  show ?case
  proof (cases "d = CHR ''9''")
    case False
    with Cons.prems digit_step [of d] show ?thesis
      by (auto simp: read_nat_snoc)
  next
    case True
    obtain ds' flag where c: "carry ds = (ds', flag)" by force
    have d: "digit_value CHR ''9'' = 9" "digit_value CHR ''0'' = 0" "is_ascii_digit CHR ''0''"
      by code_simp+
    show ?thesis
      using Cons True c d by (cases flag) (auto simp: read_nat_snoc split: if_splits)
  qed
qed

lemma next_value:
  assumes "plain_decimal (seq_str s)"
  shows "(case carry (rev (seq_str s)) of (ds, True) \<Rightarrow> rev ds | (ds, False) \<Rightarrow> CHR ''1'' # rev ds)
    = show_nat (seq_value s + 1)"
proof -
  obtain ds flag where c: "carry (rev (seq_str s)) = (ds, flag)" by force
  have digits: "list_all is_ascii_digit (rev (seq_str s))" "seq_str s \<noteq> []"
    using assms by (simp_all add: plain_decimal_def)
  note spec = carry_spec [OF digits(1), unfolded c, simplified]
  let ?r = "if flag then rev ds else CHR ''1'' # rev ds"
  have one: "digit_value CHR ''1'' = 1" "is_ascii_digit CHR ''1''" by code_simp+
  have "read_nat ?r = seq_value s + 1"
    using spec one by (auto simp: seq_value_def read_nat_Cons)
  moreover have "plain_decimal ?r"
  proof (cases flag)
    case True
    have "ds \<noteq> []" using spec digits(2) by force
    moreover have "last ds = CHR ''0'' \<longrightarrow> hd (seq_str s) = CHR ''0''"
      using spec True digits(2) calculation by (simp add: last_rev)
    ultimately show ?thesis
      using assms spec True by (auto simp: plain_decimal_def hd_rev)
  next
    case False
    with spec one show ?thesis by (simp add: plain_decimal_def)
  qed
  ultimately show ?thesis using show_read_nat [of ?r] c by (simp split: bool.split)
qed

lemma show_nat_length: "length (show_nat n) \<le> k \<longleftrightarrow> n < 10 ^ k" if "0 < k"
proof
  assume "length (show_nat n) \<le> k"
  then have "(10 :: nat) ^ length (show_nat n) \<le> 10 ^ k" by (intro power_increasing) auto
  moreover have "n < 10 ^ length (show_nat n)"
    using read_nat_bound [of "show_nat n"] show_nat_digits [of n] by simp
  ultimately show "n < 10 ^ k" by (rule order.strict_trans2 [rotated])
next
  assume n: "n < 10 ^ k"
  show "length (show_nat n) \<le> k"
  proof (rule ccontr)
    assume long: "\<not> length (show_nat n) \<le> k"
    with that have "1 < length (show_nat n)" by simp
    from read_nat_lower [OF show_nat_plain this] have "10 ^ (length (show_nat n) - 1) \<le> n" by simp
    moreover have "(10 :: nat) ^ k \<le> 10 ^ (length (show_nat n) - 1)"
      using long by (intro power_increasing) auto
    ultimately show False using n by linarith
  qed
qed

section \<open>Heads\<close>

record remote_head =
  head_library_id :: string
  head_epoch :: string
  head_seq :: sequence
  head_id :: string
  min_retained_seq :: sequence

definition genesis :: "ext \<Rightarrow> string \<Rightarrow> string \<Rightarrow> remote_head result" where
  "genesis X library epoch =
     bindE (canonical_encode X (strings_value [''risunest-sync-genesis-v1'', library, epoch])) (\<lambda>bs.
     Inr \<lparr>head_library_id = library, head_epoch = epoch, head_seq = sequence_from 0,
           head_id = sha256 X bs, min_retained_seq = sequence_from 0\<rparr>)"

definition same_revision :: "remote_head \<Rightarrow> remote_head \<Rightarrow> bool" where
  "same_revision a b \<longleftrightarrow>
     head_library_id a = head_library_id b \<and> head_epoch a = head_epoch b
     \<and> head_seq a = head_seq b \<and> head_id a = head_id b"

definition head_validate :: "remote_head \<Rightarrow> unit result" where
  "head_validate h =
     bindE (validate_id (head_library_id h)) (\<lambda>_.
     bindE (validate_id (head_epoch h)) (\<lambda>_.
     bindE (validate_hash (head_id h)) (\<lambda>_.
     if head_seq h < min_retained_seq h then Inl (WireError ''invalid-head'') else Inr ())))"

definition etag :: "remote_head \<Rightarrow> string" where
  "etag h = CHR 0x22 # head_id h @ [CHR 0x22]"

lemma genesis_Inr:
  "genesis X library epoch = Inr h \<longleftrightarrow>
     h = \<lparr>head_library_id = library, head_epoch = epoch, head_seq = sequence_from 0,
       head_id = sha256 X (json_text X (strings_value [''risunest-sync-genesis-v1'', library, epoch])),
       min_retained_seq = sequence_from 0\<rparr>"
  by (auto simp: genesis_def canonical_encode_def canonical_write_spec strings_value_def)

section \<open>Record versions\<close>

definition MAX_KEY_BYTES :: nat where "MAX_KEY_BYTES = 65536"
definition MAX_METADATA_BYTES :: nat where "MAX_METADATA_BYTES = 1048576"

datatype record_version =
    Absent
  | Live string "string option"
  | Tombstone string

definition record_version_value :: "record_version \<Rightarrow> json" where
  "record_version_value v =
     (case v of
        Absent \<Rightarrow> struct_value [(''state'', JString ''absent'')]
      | Live object_hash descriptor_hash \<Rightarrow> struct_value
          [(''state'', JString ''live''), (''objectHash'', JString object_hash),
           (''descriptorHash'', opt_value descriptor_hash)]
      | Tombstone deletion_id \<Rightarrow> struct_value
          [(''state'', JString ''tombstone''), (''deletionId'', JString deletion_id)])"

definition record_version_from :: "json \<Rightarrow> record_version option" where
  "record_version_from value =
     (case tagged ''state'' value of
        None \<Rightarrow> None
      | Some (t, rest) \<Rightarrow>
          if t = ''absent'' then
            (case struct_fields [] rest of Some _ \<Rightarrow> Some Absent | None \<Rightarrow> None)
          else if t = ''live'' then
            (case struct_fields [''objectHash'', ''descriptorHash''] rest of
               Some [h, d] \<Rightarrow>
                 (case (as_string h, as_opt_string d) of (Some h, Some d) \<Rightarrow> Some (Live h d) | _ \<Rightarrow> None)
             | _ \<Rightarrow> None)
          else if t = ''tombstone'' then
            (case struct_fields [''deletionId''] rest of
               Some [i] \<Rightarrow> (case as_string i of Some i \<Rightarrow> Some (Tombstone i) | None \<Rightarrow> None)
             | _ \<Rightarrow> None)
          else None)"

fun record_version_validate :: "record_version \<Rightarrow> unit result" where
  "record_version_validate Absent = Inr ()"
| "record_version_validate (Tombstone deletion_id) = validate_id deletion_id"
| "record_version_validate (Live object_hash descriptor_hash) =
     bindE (validate_hash object_hash) (\<lambda>_.
     bindE (case descriptor_hash of Some h \<Rightarrow> validate_hash h | None \<Rightarrow> Inr ()) (\<lambda>_. Inr ()))"

fun object_hashes :: "record_version \<Rightarrow> string list" where
  "object_hashes (Live object_hash descriptor_hash) = object_hash # opt_list descriptor_hash"
| "object_hashes _ = []"

section \<open>Properties\<close>

text \<open>A well-formed sequence has a successor unless it is the largest 64-digit number; the
  successor is well-formed and spells the next number. Comparing two well-formed sequences
  compares the numbers they spell.\<close>

theorem sequence_arithmetic:
  "case (sequence_try_from v, sequence_try_from w) of
     (Inr s, Inr t) \<Rightarrow>
       (sequence_cmp s t = cmp (seq_value s) (seq_value t))
       \<and> sequence_next s =
           (if seq_value s + 1 < 10 ^ 64 then Inr (Sequence (show_nat (seq_value s + 1)))
            else Inl (WireError ''invalid-sequence''))
   | _ \<Rightarrow> True"
proof (cases "sequence_try_from v"; cases "sequence_try_from w")
  fix s t assume st: "sequence_try_from v = Inr s" "sequence_try_from w = Inr t"
  then have plain: "plain_decimal (seq_str s)" "plain_decimal (seq_str t)" by auto
  have cmp: "sequence_cmp s t = cmp (seq_value s) (seq_value t)"
  proof -
    have "s = t \<longleftrightarrow> seq_value s = seq_value t"
      using plain show_read_nat by (metis seq_value_def sequence.expand)
    then show ?thesis
      using sequence_less_value [OF plain] sequence_cmp_Equal [of s t] sequence_cmp_Greater [of s t]
      by (cases "sequence_cmp s t") (auto simp: cmp_def less_sequence_def sequence_less_value [OF plain(2,1)])
  qed
  have "sequence_next s = sequence_try_from (show_nat (seq_value s + 1))"
    using next_value [OF plain(1)]
    by (simp add: sequence_next_def split: prod.splits bool.splits)
  also have "\<dots> = (if seq_value s + 1 < 10 ^ 64 then Inr (Sequence (show_nat (seq_value s + 1)))
            else Inl (WireError ''invalid-sequence''))"
    using show_nat_length [of 64 "seq_value s + 1"] show_nat_plain [of "seq_value s + 1"] by simp
  finally show ?thesis using cmp unfolding st prod.case sum.case by blast
qed (simp_all only: prod.case sum.case)

text \<open>A record version read back from the value it is written as is itself.\<close>

theorem record_version_roundtrip: "record_version_from (record_version_value v) = Some v"
  by (cases v) (simp_all add: record_version_from_def record_version_value_def tagged_def
      struct_value_def struct_fields_def bt_collect_def bt_delete_def)

end
