(* ===== verification/Descriptor.thy ===== *)
theory Descriptor
  imports Head "HOL-Library.Multiset"
begin

unbundle bit_operations_syntax

text \<open>
  \<^verbatim>\<open>crates/sync-wire/src/descriptor.rs\<close>: record descriptors, the pages a large reference
  list is cut into, the builder of the page tree and the bounded walk over it. The loader of the
  walk is a function of the digest, since pages are content addressed; the visitor threads a
  state of its own, which is lost when the walk fails.
\<close>

section \<open>Pages\<close>

definition PAGE_FANOUT :: nat where "PAGE_FANOUT = 1024"
definition MAX_TREE_DEPTH :: nat where "MAX_TREE_DEPTH = 8"
definition MAX_DESCRIPTOR_REFERENCES :: nat where "MAX_DESCRIPTOR_REFERENCES = 1000000"

datatype reference_page = Objects "string list" | Relations "string list" | Branches "string list"

fun page_values :: "reference_page \<Rightarrow> string list" where
  "page_values (Objects hashes) = hashes"
| "page_values (Relations keys) = keys"
| "page_values (Branches children) = children"

definition page_value :: "reference_page \<Rightarrow> json" where
  "page_value p =
     (case p of
        Objects hashes \<Rightarrow> struct_value [(''kind'', JString ''objects''), (''hashes'', strings_value hashes)]
      | Relations keys \<Rightarrow> struct_value [(''kind'', JString ''relations''), (''keys'', strings_value keys)]
      | Branches children \<Rightarrow>
          struct_value [(''kind'', JString ''branches''), (''children'', strings_value children)])"

definition page_field :: "string \<Rightarrow> json \<Rightarrow> string list option" where
  "page_field name rest =
     (case struct_fields [name] rest of Some [m] \<Rightarrow> as_strings m | _ \<Rightarrow> None)"

definition page_from :: "json \<Rightarrow> reference_page option" where
  "page_from v =
     (case tagged ''kind'' v of
        None \<Rightarrow> None
      | Some (t, rest) \<Rightarrow>
          if t = ''objects'' then map_option Objects (page_field ''hashes'' rest)
          else if t = ''relations'' then map_option Relations (page_field ''keys'' rest)
          else if t = ''branches'' then map_option Branches (page_field ''children'' rest)
          else None)"

text \<open>\<^verbatim>\<open>values.windows(2).any(|w| w[0] >= w[1])\<close>\<close>

definition unordered :: "string list \<Rightarrow> bool" where
  "unordered xs = list_ex (\<lambda>(a, b). a \<ge> b) (zip xs (tl xs))"

definition is_branches :: "reference_page \<Rightarrow> bool" where
  "is_branches p = (case p of Branches _ \<Rightarrow> True | _ \<Rightarrow> False)"

definition is_relations :: "reference_page \<Rightarrow> bool" where
  "is_relations p = (case p of Relations _ \<Rightarrow> True | _ \<Rightarrow> False)"

definition value_validate :: "reference_page \<Rightarrow> string \<Rightarrow> unit result" where
  "value_validate p value =
     (if is_relations p then
        if value = [] \<or> length value > MAX_KEY_BYTES then Inl (WireError ''invalid-key'') else Inr ()
      else validate_hash value)"

definition page_validate :: "ext \<Rightarrow> reference_page \<Rightarrow> unit result" where
  "page_validate X p =
     (let values = page_values p in
      if values = [] \<or> length values > PAGE_FANOUT then Inl (WireError ''invalid-reference-page'')
      else if \<not> is_branches p \<and> unordered values then Inl (WireError ''unordered-references'')
      else
        bindE (foldE (\<lambda>_. value_validate p) () values) (\<lambda>_.
        bindE (canonical_encode X (page_value p)) (\<lambda>bs.
        if length bs > MAX_METADATA_BYTES then Inl (WireError ''metadata-too-large'') else Inr ())))"

definition inline_references :: "ext \<Rightarrow> string list \<Rightarrow> bool result" where
  "inline_references X values =
     (if length values \<le> 64 then
        bindE (canonical_encode X (strings_value values)) (\<lambda>bs. Inr (length bs \<le> 16 * 1024))
      else Inr False)"

section \<open>Record descriptors\<close>

record record_descriptor =
  object_hash :: string
  dependency_root :: "string option"
  relation_root :: "string option"
  dependencies :: "string list"
  relations :: "string list"
  scopes :: "string list"

definition descriptor_value :: "record_descriptor \<Rightarrow> json" where
  "descriptor_value d = struct_value
     [(''objectHash'', JString (object_hash d)), (''dependencyRoot'', opt_value (dependency_root d)),
      (''relationRoot'', opt_value (relation_root d)), (''dependencies'', strings_value (dependencies d)),
      (''relations'', strings_value (relations d)), (''scopes'', strings_value (scopes d))]"

definition descriptor_from :: "json \<Rightarrow> record_descriptor option" where
  "descriptor_from v =
     (case struct_fields [''objectHash'', ''dependencyRoot'', ''relationRoot'', ''dependencies'',
          ''relations'', ''scopes''] v of
        Some [h, dr, rr, ds, rs, ss] \<Rightarrow>
          (case (as_string h, as_opt_string dr, as_opt_string rr, as_strings ds, as_strings rs,
               as_strings ss) of
             (Some h, Some dr, Some rr, Some ds, Some rs, Some ss) \<Rightarrow>
               Some \<lparr>object_hash = h, dependency_root = dr, relation_root = rr, dependencies = ds,
                 relations = rs, scopes = ss\<rparr>
           | _ \<Rightarrow> None)
      | _ \<Rightarrow> None)"

definition descriptor_content :: "string \<Rightarrow> record_descriptor" where
  "descriptor_content h = \<lparr>object_hash = h, dependency_root = None, relation_root = None,
     dependencies = [], relations = [], scopes = []\<rparr>"

definition validate_scope :: "string \<Rightarrow> unit result" where
  "validate_scope scope =
     (if scope = [] \<or> length scope > 1024 then Inl (WireError ''invalid-scope'') else Inr ())"

text \<open>One turn of the loop over the two inline lists.\<close>

definition inline_validate :: "ext \<Rightarrow> string list \<times> string option \<times> bool \<Rightarrow> unit result" where
  "inline_validate X = (\<lambda>(values, root, rel).
     if values = [] then Inr ()
     else
       bindE (if root \<noteq> None then Inr True
              else bindE (inline_references X values) (\<lambda>fits. Inr (\<not> fits))) (\<lambda>bad.
       if bad then Inl (WireError ''invalid-inline-references'')
       else page_validate X (if rel then Relations values else Objects values)))"

definition descriptor_validate :: "ext \<Rightarrow> record_descriptor \<Rightarrow> unit result" where
  "descriptor_validate X d =
     bindE (validate_hash (object_hash d)) (\<lambda>_.
     bindE (foldE (\<lambda>_. validate_hash) () (opt_list (dependency_root d) @ opt_list (relation_root d))) (\<lambda>_.
     bindE (foldE (\<lambda>_. inline_validate X) ()
       [(dependencies d, dependency_root d, False), (relations d, relation_root d, True)]) (\<lambda>_.
     if length (scopes d) > 16 \<or> unordered (scopes d) then Inl (WireError ''invalid-scopes'')
     else foldE (\<lambda>_. validate_scope) () (scopes d))))"

definition descriptor_bytes :: "ext \<Rightarrow> record_descriptor \<Rightarrow> bytes result" where
  "descriptor_bytes X d =
     bindE (descriptor_validate X d) (\<lambda>_. canonical_encode X (descriptor_value d))"

definition descriptor_hash :: "ext \<Rightarrow> record_descriptor \<Rightarrow> string result" where
  "descriptor_hash X d = bindE (descriptor_bytes X d) (\<lambda>bs. Inr (sha256 X bs))"

section \<open>The builder\<close>

text \<open>\<^verbatim>\<open>str::get(a..b)\<close>: a substring whose ends are character boundaries.\<close>

definition char_boundary :: "string \<Rightarrow> nat \<Rightarrow> bool" where
  "char_boundary s i \<longleftrightarrow> i = 0 \<or> i = length s \<or> (i < length s \<and> \<not> (128 \<le> code (s ! i) \<and> code (s ! i) < 192))"

definition str_get :: "string \<Rightarrow> nat \<Rightarrow> nat \<Rightarrow> string option" where
  "str_get s a b =
     (if a \<le> b \<and> char_boundary s a \<and> char_boundary s b then Some (take (b - a) (drop a s)) else None)"

definition reference_boundary :: "ext \<Rightarrow> string \<Rightarrow> bool \<Rightarrow> bool" where
  "reference_boundary X value rel =
     (let digest = (if rel then sha256 X (as_bytes value) else value) in
      case Option.bind (str_get digest 62 64) u8_from_hex of
        None \<Rightarrow> False
      | Some b \<Rightarrow> b AND 127 = 0)"

type_synonym page_objects = "(string \<times> bytes) list"

definition publish_page :: "ext \<Rightarrow> reference_page \<Rightarrow> page_objects \<Rightarrow> (string \<times> page_objects) result" where
  "publish_page X page objects =
     bindE (page_validate X page) (\<lambda>_.
     bindE (canonical_encode X (page_value page)) (\<lambda>bs.
     Inr (sha256 X bs, objects @ [(sha256 X bs, bs)])))"

definition publish_leaf ::
  "ext \<Rightarrow> string list \<Rightarrow> bool \<Rightarrow> page_objects \<Rightarrow> (string \<times> page_objects) result" where
  "publish_leaf X values rel objects =
     publish_page X (if rel then Relations values else Objects values) objects"

record leaf_state =
  ls_objects :: page_objects
  ls_leaves :: "string list"
  ls_current :: "string list"
  ls_used :: nat

definition leaf_step :: "ext \<Rightarrow> bool \<Rightarrow> leaf_state \<Rightarrow> string \<Rightarrow> leaf_state result" where
  "leaf_step X rel st value =
     bindE (canonical_encode X (JString value)) (\<lambda>bs.
     let n = length bs + 1 in
     bindE (if ls_current st \<noteq> []
                \<and> (length (ls_current st) = PAGE_FANOUT
                   \<or> ls_used st + n > MAX_METADATA_BYTES - 128
                   \<or> (length (ls_current st) \<ge> 64 \<and> reference_boundary X value rel))
            then
              bindE (publish_leaf X (ls_current st) rel (ls_objects st)) (\<lambda>(leaf, objects).
              Inr \<lparr>ls_objects = objects, ls_leaves = ls_leaves st @ [leaf], ls_current = [], ls_used = 0\<rparr>)
            else Inr st) (\<lambda>st.
     Inr (st\<lparr>ls_current := ls_current st @ [value], ls_used := ls_used st + n\<rparr>)))"

definition group_step :: "ext \<Rightarrow> string list list \<times> string list \<Rightarrow> string \<Rightarrow> string list list \<times> string list" where
  "group_step X = (\<lambda>(groups, children) child.
     if children \<noteq> [] \<and> (length children = PAGE_FANOUT
          \<or> (length children \<ge> 64 \<and> reference_boundary X child False))
     then (groups @ [children], [child])
     else (groups, children @ [child]))"

definition branch_groups :: "ext \<Rightarrow> string list \<Rightarrow> string list list" where
  "branch_groups X leaves =
     (case foldl (group_step X) ([], []) leaves of
        (groups, children) \<Rightarrow> if children \<noteq> [] then groups @ [children] else groups)"

definition branch_step ::
  "ext \<Rightarrow> string list \<times> page_objects \<Rightarrow> string list \<Rightarrow> (string list \<times> page_objects) result" where
  "branch_step X = (\<lambda>(nxt, objects) children.
     bindE (publish_page X (Branches children) objects) (\<lambda>(digest, objects). Inr (nxt @ [digest], objects)))"

function level_loop ::
  "ext \<Rightarrow> string list \<Rightarrow> nat \<Rightarrow> page_objects \<Rightarrow> (string list \<times> page_objects) result" where
  "level_loop X leaves depth objects =
     (if length leaves > 1 then
        if depth \<ge> MAX_TREE_DEPTH then Inl (WireError ''reference-tree-too-deep'')
        else
          bindE (foldE (branch_step X) ([], objects) (branch_groups X leaves)) (\<lambda>(nxt, objects).
          level_loop X nxt (depth + 1) objects)
      else Inr (leaves, objects))"
  by pat_completeness auto
termination
  by (relation "measure (\<lambda>(X, leaves, depth, objects). MAX_TREE_DEPTH - depth)") auto

declare level_loop.simps [simp del]

text \<open>The page left open by the loop over the values.\<close>

definition publish_rest :: "ext \<Rightarrow> bool \<Rightarrow> leaf_state \<Rightarrow> (string list \<times> page_objects) result" where
  "publish_rest X rel st =
     (if ls_current st \<noteq> [] then
        bindE (publish_leaf X (ls_current st) rel (ls_objects st)) (\<lambda>(leaf, objects).
        Inr (ls_leaves st @ [leaf], objects))
      else Inr (ls_leaves st, ls_objects st))"

definition build_reference_tree ::
  "ext \<Rightarrow> string list \<Rightarrow> bool \<Rightarrow> (string option \<times> page_objects) result" where
  "build_reference_tree X values rel =
     (if length values > MAX_DESCRIPTOR_REFERENCES \<or> unordered values
      then Inl (WireError ''invalid-reference-list'')
      else
        bindE (foldE (leaf_step X rel)
          \<lparr>ls_objects = [], ls_leaves = [], ls_current = [], ls_used = 0\<rparr> values) (\<lambda>st.
        bindE (publish_rest X rel st) (\<lambda>(leaves, objects).
        bindE (level_loop X leaves 1 objects) (\<lambda>(leaves, objects).
        Inr (if leaves = [] then None else Some (last leaves), objects)))))"

section \<open>The walk\<close>

text \<open>One turn of the loop over the references of a leaf page.\<close>

definition visit_value ::
  "('s \<Rightarrow> string \<Rightarrow> bool \<Rightarrow> 's result) \<Rightarrow> nat \<times> string option \<times> 's \<Rightarrow> string
     \<Rightarrow> (nat \<times> string option \<times> 's) result" where
  "visit_value visit = (\<lambda>(cnt, prior, s) value.
     if (case prior of None \<Rightarrow> False | Some p \<Rightarrow> p \<ge> value) then Inl (WireError ''unordered-references'')
     else if cnt + 1 > MAX_DESCRIPTOR_REFERENCES then Inl (WireError ''too-many-references'')
     else bindE (visit s value False) (\<lambda>s. Inr (cnt + 1, Some value, s)))"

function visit_loop ::
  "ext \<Rightarrow> bool \<Rightarrow> (string \<Rightarrow> bytes result) \<Rightarrow> ('s \<Rightarrow> string \<Rightarrow> bool \<Rightarrow> 's result)
     \<Rightarrow> (string \<times> nat) list \<Rightarrow> nat \<times> string option \<times> 's \<Rightarrow> string list \<Rightarrow> 's result" where
  "visit_loop X rel load visit [] st pages = Inr (snd (snd st))"
| "visit_loop X rel load visit ((digest, depth) # pending) (cnt, prior, s) pages =
     (if depth \<ge> MAX_TREE_DEPTH \<or> digest \<in> set pages \<or> length pages + 1 > MAX_DESCRIPTOR_REFERENCES
      then Inl (WireError ''invalid-reference-tree'')
      else
        bindE (load digest) (\<lambda>bs.
        if sha256 X bs \<noteq> digest then Inl (WireError ''hash-mismatch'')
        else
          bindE (canonical_decode X page_from bs MAX_METADATA_BYTES) (\<lambda>page.
          bindE (page_validate X page) (\<lambda>_.
          bindE (visit s digest True) (\<lambda>s.
          if is_branches page then
            visit_loop X rel load visit (map (\<lambda>c. (c, depth + 1)) (page_values page) @ pending)
              (cnt, prior, s) (digest # pages)
          else if is_relations page \<noteq> rel then Inl (WireError ''reference-kind-mismatch'')
          else
            bindE (foldE (visit_value visit) (cnt, prior, s) (page_values page)) (\<lambda>st.
            visit_loop X rel load visit pending st (digest # pages)))))))"
  by pat_completeness auto
termination
  by (relation "measure (\<lambda>(X, rel, load, visit, pending, st, pages). Suc MAX_DESCRIPTOR_REFERENCES - length pages)")
    auto

declare visit_loop.simps [simp del]

definition visit_reference_tree ::
  "ext \<Rightarrow> string \<Rightarrow> bool \<Rightarrow> (string \<Rightarrow> bytes result) \<Rightarrow> ('s \<Rightarrow> string \<Rightarrow> bool \<Rightarrow> 's result)
     \<Rightarrow> 's \<Rightarrow> 's result" where
  "visit_reference_tree X root rel load visit s =
     bindE (validate_hash root) (\<lambda>_. visit_loop X rel load visit [(root, 0)] (0, None, s) [])"

section \<open>Lemmas\<close>

lemma unordered_iff: "unordered xs \<longleftrightarrow> \<not> sorted_wrt (<) xs"
proof (induction xs)
  case (Cons x xs)
  then show ?case
    by (cases xs) (auto simp: unordered_def not_le dest: order.strict_trans order.strict_trans1,
      meson order.strict_trans)
qed (simp add: unordered_def)

lemma page_from_value [simp]: "page_from (page_value p) = Some p"
  by (cases p) (simp_all add: page_from_def page_value_def tagged_def page_field_def
      struct_value_def struct_fields_def bt_collect_def bt_delete_def)

lemma descriptor_from_value [simp]: "descriptor_from (descriptor_value d) = Some d"
proof -
  have "struct_fields [''objectHash'', ''dependencyRoot'', ''relationRoot'', ''dependencies'',
          ''relations'', ''scopes''] (descriptor_value d)
    = Some [Some (JString (object_hash d)), Some (opt_value (dependency_root d)),
        Some (opt_value (relation_root d)), Some (strings_value (dependencies d)),
        Some (strings_value (relations d)), Some (strings_value (scopes d))]"
    unfolding descriptor_value_def by (subst struct_fields_value) simp_all
  then show ?thesis by (simp add: descriptor_from_def)
qed

lemma page_value_free [simp]: "number_free (page_value p)" "wf_value (page_value p)"
  by (cases p; simp add: page_value_def struct_value_free struct_value_wf)+

lemma descriptor_value_free [simp]: "number_free (descriptor_value d)" "wf_value (descriptor_value d)"
  by (simp_all add: descriptor_value_def struct_value_free struct_value_wf)

text \<open>What the walk reports, recorded.\<close>

definition record_visit :: "(string \<times> bool) list \<Rightarrow> string \<Rightarrow> bool \<Rightarrow> (string \<times> bool) list result" where
  "record_visit log v is_page = Inr (log @ [(v, is_page)])"

definition leaf_refs :: "(string \<times> bool) list \<Rightarrow> string list" where
  "leaf_refs log = map fst (filter (\<lambda>p. \<not> snd p) log)"

definition page_refs :: "(string \<times> bool) list \<Rightarrow> string list" where
  "page_refs log = map fst (filter snd log)"

lemma refs_simps [simp]:
  "leaf_refs [] = []" "page_refs [] = []"
  "leaf_refs (log @ [(v, b)]) = (if b then leaf_refs log else leaf_refs log @ [v])"
  "page_refs (log @ [(v, b)]) = (if b then page_refs log @ [v] else page_refs log)"
  by (simp_all add: leaf_refs_def page_refs_def)

definition walk_inv :: "nat \<times> string option \<times> (string \<times> bool) list \<Rightarrow> string list \<Rightarrow> bool" where
  "walk_inv st pages \<longleftrightarrow>
     (case st of (cnt, prior, log) \<Rightarrow>
        sorted_wrt (<) (leaf_refs log) \<and> cnt = length (leaf_refs log)
        \<and> cnt \<le> MAX_DESCRIPTOR_REFERENCES
        \<and> (case prior of None \<Rightarrow> leaf_refs log = [] | Some p \<Rightarrow> leaf_refs log \<noteq> [] \<and> last (leaf_refs log) = p)
        \<and> page_refs log = rev pages)"

lemma walk_inv_value:
  assumes "walk_inv st pages" and "visit_value record_visit st value = Inr st'"
  shows "walk_inv st' pages"
proof -
  obtain cnt prior log where st: "st = (cnt, prior, log)" by (cases st)
  have below: "\<forall>v \<in> set (leaf_refs log). v < value"
  proof
    fix v assume v: "v \<in> set (leaf_refs log)"
    then have ne: "leaf_refs log \<noteq> []" by auto
    then obtain p where p: "prior = Some p" "last (leaf_refs log) = p" "p < value"
      using assms by (auto simp: st walk_inv_def visit_value_def not_le split: option.splits if_splits)
    from ne have split: "leaf_refs log = butlast (leaf_refs log) @ [last (leaf_refs log)]" by simp
    have "sorted_wrt (<) (butlast (leaf_refs log) @ [last (leaf_refs log)])"
      using assms(1) split by (simp add: st walk_inv_def)
    then have "v \<le> last (leaf_refs log)"
      using v split by (metis (no_types, lifting) Un_iff in_set_conv_decomp less_imp_le order_refl
          set_ConsD set_append sorted_wrt_append empty_iff empty_set)
    with p show "v < value" by simp
  qed
  from assms have "st' = (cnt + 1, Some value, log @ [(value, False)])"
    "cnt + 1 \<le> MAX_DESCRIPTOR_REFERENCES"
    by (auto simp: st visit_value_def record_visit_def split: if_splits option.splits)
  with assms(1) below show ?thesis
    by (auto simp: st walk_inv_def sorted_wrt_append)
qed

definition verified_page :: "ext \<Rightarrow> (string \<Rightarrow> bytes result) \<Rightarrow> string \<Rightarrow> bool" where
  "verified_page X load d =
     (case load d of
        Inl _ \<Rightarrow> False
      | Inr bs \<Rightarrow> sha256 X bs = d
          \<and> (case canonical_decode X page_from bs MAX_METADATA_BYTES of
               Inl _ \<Rightarrow> False | Inr page \<Rightarrow> page_validate X page = Inr ()))"

lemma visit_loop_inv:
  assumes "visit_loop X rel load record_visit pending st pages = Inr log"
    and "walk_inv st pages" and "distinct pages" and "length pages \<le> MAX_DESCRIPTOR_REFERENCES"
    and "list_all (verified_page X load) pages"
  shows "sorted_wrt (<) (leaf_refs log) \<and> length (leaf_refs log) \<le> MAX_DESCRIPTOR_REFERENCES
    \<and> distinct (page_refs log) \<and> length (page_refs log) \<le> MAX_DESCRIPTOR_REFERENCES
    \<and> list_all (verified_page X load) (page_refs log)"
  using assms
proof (induction X rel load "record_visit" pending st pages rule: visit_loop.induct)
  case (1 X rel load st pages)
  then show ?case by (auto simp: visit_loop.simps walk_inv_def list_all_iff)
next
  case (2 X rel load digest depth pending cnt prior s pages)
  from 2(3) obtain bs page where new: "digest \<notin> set pages" "length pages + 1 \<le> MAX_DESCRIPTOR_REFERENCES"
    and bs: "load digest = Inr bs" "sha256 X bs = digest"
    and page: "canonical_decode X page_from bs MAX_METADATA_BYTES = Inr page" "page_validate X page = Inr ()"
    and deep: "\<not> (depth \<ge> MAX_TREE_DEPTH \<or> digest \<in> set pages \<or> length pages + 1 > MAX_DESCRIPTOR_REFERENCES)"
    by (auto simp: visit_loop.simps bindE_Inr not_less split: if_splits)
  let ?s = "s @ [(digest, True)]"
  have visit: "record_visit s digest True = Inr ?s" by (simp add: record_visit_def)
  have inv: "walk_inv (cnt, prior, ?s) (digest # pages)"
    using 2(4) by (auto simp: walk_inv_def split: option.splits)
  have pages: "distinct (digest # pages)" "length (digest # pages) \<le> MAX_DESCRIPTOR_REFERENCES"
    "list_all (verified_page X load) (digest # pages)"
    using new 2(5,7) bs page by (simp_all add: verified_page_def)
  note unfold = visit_loop.simps(2) [of X rel load record_visit digest depth pending cnt prior s pages]
  show ?case
  proof (cases "is_branches page")
    case True
    then have "visit_loop X rel load record_visit (map (\<lambda>c. (c, depth + 1)) (page_values page) @ pending)
        (cnt, prior, ?s) (digest # pages) = Inr log"
      using 2(3) deep bs page visit by (simp add: unfold)
    then show ?thesis
      using 2(1) [OF deep bs(1) _ page(1,2) visit True] bs inv pages by simp
  next
    case False
    then obtain st where rel: "is_relations page = rel"
      and st: "foldE (visit_value record_visit) (cnt, prior, ?s) (page_values page) = Inr st"
      and rest: "visit_loop X rel load record_visit pending st (digest # pages) = Inr log"
      using 2(3) deep bs page visit by (auto simp: unfold bindE_Inr split: if_splits)
    have "walk_inv st (digest # pages)"
      using foldE_invariant [OF st, of "\<lambda>st. walk_inv st (digest # pages)"] inv walk_inv_value by blast
    then show ?thesis
      using 2(2) [OF deep bs(1) _ page(1,2) visit False _ st] bs rel rest pages by simp
  qed
qed

section \<open>What the builder produces\<close>

definition leaf_page :: "bool \<Rightarrow> string list \<Rightarrow> reference_page" where
  "leaf_page rel values = (if rel then Relations values else Objects values)"

definition page_object :: "ext \<Rightarrow> reference_page \<Rightarrow> string \<times> bytes" where
  "page_object X page =
     (let bs = json_text X (canon (page_value page)) in (sha256 X bs, bs))"

definition page_ok :: "ext \<Rightarrow> reference_page \<Rightarrow> bool" where
  "page_ok X page \<longleftrightarrow> page_validate X page = Inr ()"

lemma publish_page_Inr: "publish_page X page objects = Inr (d, objects') \<longleftrightarrow>
    page_ok X page \<and> d = fst (page_object X page) \<and> objects' = objects @ [page_object X page]"
  by (auto simp: publish_page_def bindE_Inr page_ok_def page_object_def canonical_encode_def
      canonical_write_spec Let_def)

lemma publish_leaf_Inr: "publish_leaf X values rel objects = Inr (d, objects') \<longleftrightarrow>
    page_ok X (leaf_page rel values) \<and> d = fst (page_object X (leaf_page rel values))
    \<and> objects' = objects @ [page_object X (leaf_page rel values)]"
  by (simp add: publish_leaf_def publish_page_Inr leaf_page_def)

text \<open>The leaves published so far and the open page hold the values read so far.\<close>

definition leaves_inv :: "ext \<Rightarrow> bool \<Rightarrow> string list \<Rightarrow> leaf_state \<Rightarrow> bool" where
  "leaves_inv X rel seen st \<longleftrightarrow>
     (\<exists>gs. concat gs @ ls_current st = seen
        \<and> list_all (\<lambda>g. page_ok X (leaf_page rel g)) gs
        \<and> ls_objects st = map (\<lambda>g. page_object X (leaf_page rel g)) gs
        \<and> ls_leaves st = map (\<lambda>g. fst (page_object X (leaf_page rel g))) gs
        \<and> (seen \<noteq> [] \<longrightarrow> ls_current st \<noteq> []))"

lemma leaf_step_inv:
  assumes "leaf_step X rel st value = Inr st'" and "leaves_inv X rel seen st"
  shows "leaves_inv X rel (seen @ [value]) st'"
proof -
  from assms(2) obtain gs where gs: "concat gs @ ls_current st = seen"
    "list_all (\<lambda>g. page_ok X (leaf_page rel g)) gs"
    "ls_objects st = map (\<lambda>g. page_object X (leaf_page rel g)) gs"
    "ls_leaves st = map (\<lambda>g. fst (page_object X (leaf_page rel g))) gs"
    by (auto simp: leaves_inv_def)
  from assms(1) consider
      n where "st' = st\<lparr>ls_current := ls_current st @ [value], ls_used := n\<rparr>"
    | n where "page_ok X (leaf_page rel (ls_current st))"
        "st' = \<lparr>ls_objects = ls_objects st @ [page_object X (leaf_page rel (ls_current st))],
           ls_leaves = ls_leaves st @ [fst (page_object X (leaf_page rel (ls_current st)))],
           ls_current = [value], ls_used = n\<rparr>"
    by (auto simp: leaf_step_def bindE_Inr publish_leaf_Inr Let_def split: if_splits)
  then show ?thesis
  proof cases
    case 1
    with gs show ?thesis unfolding leaves_inv_def by (intro exI [of _ gs]) auto
  next
    case 2
    with gs show ?thesis unfolding leaves_inv_def by (intro exI [of _ "gs @ [ls_current st]"]) auto
  qed
qed

lemma leaf_loop:
  "foldE (leaf_step X rel) st refs = Inr st' \<Longrightarrow> leaves_inv X rel seen st
    \<Longrightarrow> leaves_inv X rel (seen @ refs) st'"
proof (induction refs arbitrary: st seen)
  case (Cons v refs)
  then obtain mid where mid: "leaf_step X rel st v = Inr mid" "foldE (leaf_step X rel) mid refs = Inr st'"
    by (auto simp: bindE_Inr)
  from Cons.IH [OF mid(2) leaf_step_inv [OF mid(1) Cons.prems(2)]] show ?case by simp
qed simp

lemma group_concat:
  "concat (fst (foldl (group_step X) (gs, cs) leaves)) @ snd (foldl (group_step X) (gs, cs) leaves)
     = concat gs @ cs @ leaves"
  by (induction leaves arbitrary: gs cs) (auto simp: group_step_def)

lemma branch_groups_concat: "concat (branch_groups X leaves) = leaves"
  using group_concat [of X "[]" "[]" leaves] by (auto simp: branch_groups_def split: prod.splits)

lemma branch_step_Inr: "branch_step X (nxt, objects) children = Inr (nxt', objects') \<longleftrightarrow>
    page_ok X (Branches children) \<and> nxt' = nxt @ [fst (page_object X (Branches children))]
    \<and> objects' = objects @ [page_object X (Branches children)]"
  by (auto simp: branch_step_def bindE_Inr publish_page_Inr)

lemma branch_loop: "foldE (branch_step X) (nxt, objects) groups = Inr (nxt', objects') \<longleftrightarrow>
    list_all (\<lambda>g. page_ok X (Branches g)) groups
    \<and> nxt' = nxt @ map (\<lambda>g. fst (page_object X (Branches g))) groups
    \<and> objects' = objects @ map (\<lambda>g. page_object X (Branches g)) groups"
proof (induction groups arbitrary: nxt objects)
  case (Cons g groups)
  show ?case
    by (auto simp: bindE_Inr branch_step_Inr Cons)
qed auto

text \<open>
  \<open>tree_of X rel h d values pages\<close>: the page with digest \<open>d\<close> is the root of a tree of height \<open>h\<close>
  whose leaves hold \<open>values\<close> in order; \<open>pages\<close> are its pages in the order of the walk.
\<close>

inductive tree_of :: "ext \<Rightarrow> bool \<Rightarrow> nat \<Rightarrow> reference_page \<Rightarrow> string list \<Rightarrow> reference_page list \<Rightarrow> bool"
  and forest_of :: "ext \<Rightarrow> bool \<Rightarrow> nat \<Rightarrow> string list \<Rightarrow> string list \<Rightarrow> reference_page list \<Rightarrow> bool"
  for X rel where
  leaf: "page_ok X (leaf_page rel refs) \<Longrightarrow> tree_of X rel 0 (leaf_page rel refs) refs [leaf_page rel refs]"
| branch: "page_ok X (Branches children) \<Longrightarrow> forest_of X rel h children refs pages \<Longrightarrow>
    tree_of X rel (Suc h) (Branches children) refs (Branches children # pages)"
| empty: "forest_of X rel h [] [] []"
| tree: "tree_of X rel h p refs pages \<Longrightarrow> forest_of X rel h children refs' pages' \<Longrightarrow>
    forest_of X rel h (fst (page_object X p) # children) (refs @ refs') (pages @ pages')"

abbreviation page_digest :: "ext \<Rightarrow> reference_page \<Rightarrow> string" where
  "page_digest X p \<equiv> fst (page_object X p)"

lemma forest_append:
  "forest_of X rel h (a @ b) refs pages \<Longrightarrow>
   \<exists>refs1 refs2 pages1 pages2. forest_of X rel h a refs1 pages1 \<and> forest_of X rel h b refs2 pages2
     \<and> refs = refs1 @ refs2 \<and> pages = pages1 @ pages2"
proof (induction a arbitrary: refs pages)
  case Nil
  then show ?case using tree_of_forest_of.empty by fastforce
next
  case (Cons c a)
  from Cons.prems obtain p refs1 pages1 refs2 pages2 where c: "c = page_digest X p"
    and p: "tree_of X rel h p refs1 pages1" and rest: "forest_of X rel h (a @ b) refs2 pages2"
    and eq: "refs = refs1 @ refs2" "pages = pages1 @ pages2"
    by (auto elim: forest_of.cases)
  from Cons.IH [OF rest] obtain r1 r2 q1 q2 where
    "forest_of X rel h a r1 q1" "forest_of X rel h b r2 q2" "refs2 = r1 @ r2" "pages2 = q1 @ q2"
    by blast
  with c p eq show ?case using tree_of_forest_of.tree by fastforce
qed

lemma forest_branches:
  assumes "forest_of X rel h (concat groups) refs pages"
    and "list_all (\<lambda>g. page_ok X (Branches g)) groups"
  shows "\<exists>pages'. forest_of X rel (Suc h) (map (\<lambda>g. page_digest X (Branches g)) groups) refs pages'
    \<and> mset pages' = mset pages + mset (map Branches groups)"
  using assms
proof (induction groups arbitrary: refs pages)
  case Nil
  then show ?case by (auto elim: forest_of.cases intro: tree_of_forest_of.empty)
next
  case (Cons g groups)
  from forest_append [of X rel h g "concat groups" refs pages] Cons.prems(1)
  obtain r1 r2 p1 p2 where g: "forest_of X rel h g r1 p1"
    and rest: "forest_of X rel h (concat groups) r2 p2" and eq: "refs = r1 @ r2" "pages = p1 @ p2"
    by auto
  from Cons.IH [OF rest] Cons.prems(2) obtain q where
    q: "forest_of X rel (Suc h) (map (\<lambda>g. page_digest X (Branches g)) groups) r2 q"
    "mset q = mset p2 + mset (map Branches groups)" by auto
  have "tree_of X rel (Suc h) (Branches g) r1 (Branches g # p1)"
    using Cons.prems(2) g by (intro tree_of_forest_of.branch) simp_all
  from tree_of_forest_of.tree [OF this q(1)] q(2) eq show ?case
    by (intro exI [of _ "(Branches g # p1) @ q"]) simp
qed

lemma forest_leaves:
  "list_all (\<lambda>g. page_ok X (leaf_page rel g)) gs \<Longrightarrow>
   forest_of X rel 0 (map (\<lambda>g. page_digest X (leaf_page rel g)) gs) (concat gs) (map (leaf_page rel) gs)"
proof (induction gs)
  case (Cons g gs)
  then show ?case
    using tree_of_forest_of.tree [OF tree_of_forest_of.leaf [of X rel g]] by simp
qed (simp add: tree_of_forest_of.empty)

lemma level_loop_forest:
  assumes "level_loop X leaves depth objects = Inr (leaves', objects')"
    and "forest_of X rel h leaves refs pages"
    and "mset objects = mset (map (page_object X) pages)"
    and "depth = Suc h" and "depth \<le> MAX_TREE_DEPTH"
  shows "\<exists>h' pages'. forest_of X rel h' leaves' refs pages' \<and> h' < MAX_TREE_DEPTH
    \<and> mset objects' = mset (map (page_object X) pages') \<and> length leaves' \<le> 1"
  using assms
proof (induction X leaves depth objects arbitrary: h pages rule: level_loop.induct)
  case (1 X leaves depth objects)
  show ?case
  proof (cases "length leaves > 1")
    case False
    then have "leaves' = leaves" "objects' = objects" using 1(2) by (simp_all add: level_loop.simps)
    with False 1(3-6) show ?thesis by (intro exI [of _ h] exI [of _ pages]) auto
  next
    case True
    then obtain nxt objs where deep: "\<not> depth \<ge> MAX_TREE_DEPTH"
      and step: "foldE (branch_step X) ([], objects) (branch_groups X leaves) = Inr (nxt, objs)"
      and rest: "level_loop X nxt (depth + 1) objs = Inr (leaves', objects')"
      using 1(2) by (auto simp: level_loop.simps [of X leaves] bindE_Inr split: if_splits)
    from step have groups: "list_all (\<lambda>g. page_ok X (Branches g)) (branch_groups X leaves)"
      and nxt: "nxt = map (\<lambda>g. page_digest X (Branches g)) (branch_groups X leaves)"
      and objs: "objs = objects @ map (\<lambda>g. page_object X (Branches g)) (branch_groups X leaves)"
      by (simp_all add: branch_loop)
    obtain pages' where p: "forest_of X rel (Suc h) nxt refs pages'"
      "mset pages' = mset pages + mset (map Branches (branch_groups X leaves))"
      using forest_branches [of X rel h "branch_groups X leaves" refs pages] groups 1(3)
      by (auto simp: branch_groups_concat nxt)
    from p(2) have "mset objs = mset (map (page_object X) pages')"
      using 1(4) objs by (simp add: multiset.map_comp o_def)
    then show ?thesis
      using 1(1) [OF True deep step _ rest p(1)] 1(5) deep by simp
  qed
qed

lemma build_tree:
  assumes "build_reference_tree X refs rel = Inr (root, objects)"
  shows "sorted_wrt (<) refs \<and> length refs \<le> MAX_DESCRIPTOR_REFERENCES
    \<and> (case root of
         None \<Rightarrow> refs = []
       | Some d \<Rightarrow> \<exists>h p pages. tree_of X rel h p refs pages \<and> d = page_digest X p
           \<and> h < MAX_TREE_DEPTH \<and> mset objects = mset (map (page_object X) pages))"
proof -
  from assms obtain st leaves objs leaves' where
    ok: "length refs \<le> MAX_DESCRIPTOR_REFERENCES" "sorted_wrt (<) refs"
    and st: "foldE (leaf_step X rel)
          \<lparr>ls_objects = [], ls_leaves = [], ls_current = [], ls_used = 0\<rparr> refs = Inr st"
    and fin: "publish_rest X rel st = Inr (leaves, objs)"
    and lv: "level_loop X leaves 1 objs = Inr (leaves', objects)"
    and root: "root = (if leaves' = [] then None else Some (last leaves'))"
    by (auto simp: build_reference_tree_def bindE_Inr unordered_iff not_less split: if_splits)
  have "leaves_inv X rel [] \<lparr>ls_objects = [], ls_leaves = [], ls_current = [], ls_used = 0\<rparr>"
    by (auto simp: leaves_inv_def intro: exI [of _ "[]"])
  from leaf_loop [OF st this] obtain gs where gs: "concat gs @ ls_current st = refs"
      "list_all (\<lambda>g. page_ok X (leaf_page rel g)) gs"
      "ls_objects st = map (\<lambda>g. page_object X (leaf_page rel g)) gs"
      "ls_leaves st = map (\<lambda>g. page_digest X (leaf_page rel g)) gs"
    by (auto simp: leaves_inv_def)
  define all where "all = (if ls_current st \<noteq> [] then gs @ [ls_current st] else gs)"
  have "forest_of X rel 0 leaves refs (map (leaf_page rel) all)"
    and objs: "objs = map (page_object X) (map (leaf_page rel) all)"
    using forest_leaves [of X rel all] fin gs
    by (auto simp: all_def publish_rest_def bindE_Inr publish_leaf_Inr o_def split: if_splits)
  from level_loop_forest [OF lv this(1)] obtain h pages where
    f: "forest_of X rel h leaves' refs pages" "h < MAX_TREE_DEPTH"
      "mset objects = mset (map (page_object X) pages)" "length leaves' \<le> 1"
    using objs by (auto simp: MAX_TREE_DEPTH_def)
  show ?thesis
  proof (cases leaves')
    case Nil
    with f have "refs = []" by (auto elim: forest_of.cases)
    with ok root Nil show ?thesis by simp
  next
    case (Cons c cs)
    with f(4) have c: "leaves' = [c]" by simp
    with f(1) obtain p where "tree_of X rel h p refs pages" "c = page_digest X p"
      by (force elim: forest_of.cases)
    with ok root c f show ?thesis by auto
  qed
qed

section \<open>Walking a built tree\<close>

text \<open>The parser reads back the text of a page, and the store returns the page's bytes.\<close>

definition stored :: "ext \<Rightarrow> (string \<Rightarrow> bytes result) \<Rightarrow> reference_page \<Rightarrow> bool" where
  "stored X load p \<longleftrightarrow> parses X (page_value p) \<and> load (page_digest X p) = Inr (snd (page_object X p))"

lemma decode_page:
  assumes "page_ok X p" and "parses X (page_value p)"
  shows "canonical_decode X page_from (snd (page_object X p)) MAX_METADATA_BYTES = Inr p"
proof -
  have "length (json_text X (canon (page_value p))) \<le> MAX_METADATA_BYTES"
    using assms(1) by (auto simp: page_ok_def page_validate_def canonical_encode_def
        canonical_write_spec bindE_Inr Let_def split: if_splits)
  with assms(2) show ?thesis
    by (simp add: canonical_decode_def page_object_def Let_def parses_def strict_canon map_err_def)
qed

lemma visit_value_ok:
  assumes "walk_inv (cnt, prior, log) pages" and "sorted_wrt (<) (leaf_refs log @ [v])"
    and "length (leaf_refs log) < MAX_DESCRIPTOR_REFERENCES"
  shows "visit_value record_visit (cnt, prior, log) v = Inr (cnt + 1, Some v, log @ [(v, False)])"
proof -
  have "p < v" if "prior = Some p" for p
  proof -
    have "p \<in> set (leaf_refs log)" using assms(1) that by (auto simp: walk_inv_def intro: last_in_set)
    then show ?thesis using assms(2) by (simp add: sorted_wrt_append)
  qed
  then show ?thesis
    using assms(1,3) by (auto simp: visit_value_def record_visit_def walk_inv_def not_le split: option.split)
qed

lemma visit_values_ok:
  assumes "walk_inv st pages" and "sorted_wrt (<) (leaf_refs (snd (snd st)) @ refs)"
    and "length (leaf_refs (snd (snd st)) @ refs) \<le> MAX_DESCRIPTOR_REFERENCES"
  shows "\<exists>st'. foldE (visit_value record_visit) st refs = Inr st' \<and> walk_inv st' pages
    \<and> leaf_refs (snd (snd st')) = leaf_refs (snd (snd st)) @ refs"
  using assms
proof (induction refs arbitrary: st)
  case (Cons v refs)
  obtain cnt prior log where st: "st = (cnt, prior, log)" by (cases st)
  have step: "visit_value record_visit st v = Inr (cnt + 1, Some v, log @ [(v, False)])"
    unfolding st using Cons.prems by (intro visit_value_ok) (auto simp: st sorted_wrt_append)
  have "walk_inv (cnt + 1, Some v, log @ [(v, False)]) pages"
    using walk_inv_value [OF Cons.prems(1) step] .
  from Cons.IH [OF this] Cons.prems step show ?case by (auto simp: st)
qed auto

lemma visit_page_ok:
  assumes "walk_inv (cnt, prior, log) seen" and "page_ok X p" and "stored X load p"
    and "page_digest X p \<notin> set seen" and "length seen < MAX_DESCRIPTOR_REFERENCES"
    and "depth < MAX_TREE_DEPTH"
  shows "visit_loop X rel load record_visit ((page_digest X p, depth) # pending) (cnt, prior, log) seen =
    (if is_branches p then
       visit_loop X rel load record_visit (map (\<lambda>c. (c, depth + 1)) (page_values p) @ pending)
         (cnt, prior, log @ [(page_digest X p, True)]) (page_digest X p # seen)
     else if is_relations p \<noteq> rel then Inl (WireError ''reference-kind-mismatch'')
     else
       bindE (foldE (visit_value record_visit) (cnt, prior, log @ [(page_digest X p, True)]) (page_values p))
         (\<lambda>st. visit_loop X rel load record_visit pending st (page_digest X p # seen)))"
proof -
  have "load (page_digest X p) = Inr (snd (page_object X p))"
    "sha256 X (snd (page_object X p)) = page_digest X p"
    "canonical_decode X page_from (snd (page_object X p)) MAX_METADATA_BYTES = Inr p"
    "page_validate X p = Inr ()"
    using assms(2,3) decode_page [of X p] by (auto simp: stored_def page_object_def Let_def page_ok_def)
  then show ?thesis
    using assms(4-6) by (simp add: visit_loop.simps(2) record_visit_def)
qed

lemma walk_inv_page:
  "walk_inv (cnt, prior, log) seen \<Longrightarrow> walk_inv (cnt, prior, log @ [(d, True)]) (d # seen)"
  by (auto simp: walk_inv_def split: option.splits)

lemma walk_tree:
  shows "tree_of X rel h p refs pages \<Longrightarrow>
    (\<And>depth st seen pending.
      walk_inv st seen \<Longrightarrow> sorted_wrt (<) (leaf_refs (snd (snd st)) @ refs) \<Longrightarrow>
      length (leaf_refs (snd (snd st)) @ refs) \<le> MAX_DESCRIPTOR_REFERENCES \<Longrightarrow>
      distinct (map (page_digest X) pages @ seen) \<Longrightarrow>
      length pages + length seen \<le> MAX_DESCRIPTOR_REFERENCES \<Longrightarrow>
      depth + h < MAX_TREE_DEPTH \<Longrightarrow> list_all (stored X load) pages \<Longrightarrow>
      \<exists>st'. visit_loop X rel load record_visit ((page_digest X p, depth) # pending) st seen
          = visit_loop X rel load record_visit pending st' (rev (map (page_digest X) pages) @ seen)
        \<and> walk_inv st' (rev (map (page_digest X) pages) @ seen)
        \<and> leaf_refs (snd (snd st')) = leaf_refs (snd (snd st)) @ refs)"
  and "forest_of X rel h children refs pages \<Longrightarrow>
    (\<And>depth st seen pending.
      walk_inv st seen \<Longrightarrow> sorted_wrt (<) (leaf_refs (snd (snd st)) @ refs) \<Longrightarrow>
      length (leaf_refs (snd (snd st)) @ refs) \<le> MAX_DESCRIPTOR_REFERENCES \<Longrightarrow>
      distinct (map (page_digest X) pages @ seen) \<Longrightarrow>
      length pages + length seen \<le> MAX_DESCRIPTOR_REFERENCES \<Longrightarrow>
      depth + h < MAX_TREE_DEPTH \<Longrightarrow> list_all (stored X load) pages \<Longrightarrow>
      \<exists>st'. visit_loop X rel load record_visit (map (\<lambda>c. (c, depth)) children @ pending) st seen
          = visit_loop X rel load record_visit pending st' (rev (map (page_digest X) pages) @ seen)
        \<and> walk_inv st' (rev (map (page_digest X) pages) @ seen)
        \<and> leaf_refs (snd (snd st')) = leaf_refs (snd (snd st)) @ refs)"
proof (induction rule: tree_of_forest_of.inducts)
  case (leaf refs)
  obtain cnt prior log where st: "st = (cnt, prior, log)" by (cases st)
  let ?p = "leaf_page rel refs"
  have p: "\<not> is_branches ?p" "is_relations ?p = rel" "page_values ?p = refs"
    by (simp_all add: leaf_page_def is_branches_def is_relations_def)
  have inv: "walk_inv (cnt, prior, log @ [(page_digest X ?p, True)]) (page_digest X ?p # seen)"
    using leaf(2) by (simp add: st walk_inv_page)
  obtain st1 where "foldE (visit_value record_visit) (cnt, prior, log @ [(page_digest X ?p, True)]) refs = Inr st1"
      "walk_inv st1 (page_digest X ?p # seen)" "leaf_refs (snd (snd st1)) = leaf_refs log @ refs"
    using visit_values_ok [OF inv, of refs] leaf(3,4) by (auto simp: st)
  then show ?case
    using visit_page_ok [of cnt prior log seen X ?p load depth rel pending] leaf p
    by (intro exI [of _ st1]) (simp add: st)
next
  case (branch children h refs pages)
  obtain cnt prior log where st: "st = (cnt, prior, log)" by (cases st)
  let ?p = "Branches children"
  have p: "is_branches ?p" "page_values ?p = children" by (simp_all add: is_branches_def)
  have inv: "walk_inv (cnt, prior, log @ [(page_digest X ?p, True)]) (page_digest X ?p # seen)"
    using branch(4) by (simp add: st walk_inv_page)
  from branch(3) [OF inv, where depth = "depth + 1" and pending = pending] branch(5-)
  obtain st' where "visit_loop X rel load record_visit (map (\<lambda>c. (c, depth + 1)) children @ pending)
        (cnt, prior, log @ [(page_digest X ?p, True)]) (page_digest X ?p # seen)
      = visit_loop X rel load record_visit pending st'
          (rev (map (page_digest X) pages) @ page_digest X ?p # seen)"
    "walk_inv st' (rev (map (page_digest X) pages) @ page_digest X ?p # seen)"
    "leaf_refs (snd (snd st')) = leaf_refs log @ refs"
    by (auto simp: st)
  then show ?case
    using visit_page_ok [of cnt prior log seen X ?p load depth rel pending] branch p
    by (intro exI [of _ st']) (simp add: st)
next
  case (empty h)
  then show ?case by (intro exI [of _ st]) simp
next
  case (tree h p refs pages children refs' pages')
  let ?pending = "map (\<lambda>c. (c, depth)) children @ pending"
  let ?seen = "rev (map (page_digest X) pages) @ seen"
  obtain st1 where 1: "visit_loop X rel load record_visit ((page_digest X p, depth) # ?pending) st seen
      = visit_loop X rel load record_visit ?pending st1 ?seen"
    "walk_inv st1 ?seen" "leaf_refs (snd (snd st1)) = leaf_refs (snd (snd st)) @ refs"
    using tree(2) [where st = st and seen = seen and depth = depth and pending = ?pending] tree(5-)
    by (auto simp: sorted_wrt_append Int_Un_distrib)
  obtain st2 where 2: "visit_loop X rel load record_visit ?pending st1 ?seen
      = visit_loop X rel load record_visit pending st2 (rev (map (page_digest X) pages') @ ?seen)"
    "walk_inv st2 (rev (map (page_digest X) pages') @ ?seen)"
    "leaf_refs (snd (snd st2)) = leaf_refs (snd (snd st1)) @ refs'"
    using tree(4) [OF 1(2), where depth = depth and pending = pending] 1(3) tree(5-)
    by (auto simp: Int_Un_distrib Int_commute)
  from 1 2 show ?case by (intro exI [of _ st2]) simp
qed

lemma hash_of_page: "sha256 X (snd (page_object X p)) = page_digest X p"
  by (simp add: page_object_def Let_def)

section \<open>The walk ends\<close>

text \<open>The walk with its turns counted: one turn of the \<^verbatim>\<open>while let\<close>, and at most so many turns.\<close>

definition walk_turn ::
  "ext \<Rightarrow> bool \<Rightarrow> (string \<Rightarrow> bytes result) \<Rightarrow> ('s \<Rightarrow> string \<Rightarrow> bool \<Rightarrow> 's result)
     \<Rightarrow> string \<Rightarrow> nat \<Rightarrow> (string \<times> nat) list \<Rightarrow> nat \<times> string option \<times> 's \<Rightarrow> string list
     \<Rightarrow> ((string \<times> nat) list \<times> (nat \<times> string option \<times> 's) \<times> string list) result" where
  "walk_turn X rel load visit digest depth pending st pages = (case st of (cnt, prior, s) \<Rightarrow>
     if depth \<ge> MAX_TREE_DEPTH \<or> digest \<in> set pages \<or> length pages + 1 > MAX_DESCRIPTOR_REFERENCES
     then Inl (WireError ''invalid-reference-tree'')
     else
       bindE (load digest) (\<lambda>bs.
       if sha256 X bs \<noteq> digest then Inl (WireError ''hash-mismatch'')
       else
         bindE (canonical_decode X page_from bs MAX_METADATA_BYTES) (\<lambda>page.
         bindE (page_validate X page) (\<lambda>_.
         bindE (visit s digest True) (\<lambda>s.
         if is_branches page then
           Inr (map (\<lambda>c. (c, depth + 1)) (page_values page) @ pending, (cnt, prior, s), digest # pages)
         else if is_relations page \<noteq> rel then Inl (WireError ''reference-kind-mismatch'')
         else
           bindE (foldE (visit_value visit) (cnt, prior, s) (page_values page)) (\<lambda>st.
           Inr (pending, st, digest # pages)))))))"

fun walk_turns ::
  "nat \<Rightarrow> ext \<Rightarrow> bool \<Rightarrow> (string \<Rightarrow> bytes result) \<Rightarrow> ('s \<Rightarrow> string \<Rightarrow> bool \<Rightarrow> 's result)
     \<Rightarrow> (string \<times> nat) list \<times> (nat \<times> string option \<times> 's) \<times> string list \<Rightarrow> 's result option" where
  "walk_turns 0 X rel load visit w = None"
| "walk_turns (Suc n) X rel load visit (pending, st, pages) =
     (case pending of
        [] \<Rightarrow> Some (Inr (snd (snd st)))
      | (digest, depth) # pending \<Rightarrow>
          (case walk_turn X rel load visit digest depth pending st pages of
             Inl e \<Rightarrow> Some (Inl e)
           | Inr w \<Rightarrow> walk_turns n X rel load visit w))"

lemma visit_loop_turn:
  "visit_loop X rel load visit ((digest, depth) # pending) st pages =
     bindE (walk_turn X rel load visit digest depth pending st pages)
       (\<lambda>(pending, st, pages). visit_loop X rel load visit pending st pages)"
  by (cases st) (auto simp: visit_loop.simps(2) walk_turn_def bindE_def split: sum.splits)

lemma walk_turn_pages:
  assumes "walk_turn X rel load visit digest depth pending st pages = Inr (pending', st', pages')"
  shows "length pages' = Suc (length pages)" "length pages' \<le> MAX_DESCRIPTOR_REFERENCES"
  using assms by (auto simp: walk_turn_def bindE_Inr split: prod.splits if_splits)

lemma walk_turns_visit:
  assumes "length pages < n + length pages" "MAX_DESCRIPTOR_REFERENCES < n + length pages"
  shows "walk_turns n X rel load visit (pending, st, pages) = Some (visit_loop X rel load visit pending st pages)"
  using assms
proof (induction n arbitrary: pending st pages)
  case (Suc n)
  show ?case
  proof (cases pending)
    case Nil
    then show ?thesis by (cases st) (simp add: visit_loop.simps(1))
  next
    case (Cons p rest)
    obtain digest depth where p: "p = (digest, depth)" by (cases p)
    show ?thesis
    proof (cases "walk_turn X rel load visit digest depth rest st pages")
      case (Inl e)
      then show ?thesis by (simp add: Cons p visit_loop_turn)
    next
      case (Inr w)
      obtain pending' st' pages' where w: "w = (pending', st', pages')" by (cases w)
      from walk_turn_pages [OF Inr [unfolded w]] Suc.prems(2)
      have "walk_turns n X rel load visit (pending', st', pages')
          = Some (visit_loop X rel load visit pending' st' pages')"
        by (intro Suc.IH) auto
      then show ?thesis by (simp add: Cons p visit_loop_turn Inr w)
    qed
  qed
qed simp

section \<open>Properties\<close>

text \<open>C22. Whatever the store returns, a walk that succeeds has read only pages whose bytes have
  the digest they were asked for and decode to valid pages, no page twice and at most a million;
  the references it reported are strictly increasing and at most a million.\<close>

theorem visit_bounded_ordered:
  "case visit_reference_tree X root rel load record_visit [] of
     Inl _ \<Rightarrow> True
   | Inr log \<Rightarrow>
       sorted_wrt (<) (leaf_refs log) \<and> length (leaf_refs log) \<le> MAX_DESCRIPTOR_REFERENCES
       \<and> distinct (page_refs log) \<and> length (page_refs log) \<le> MAX_DESCRIPTOR_REFERENCES
       \<and> list_all (verified_page X load) (page_refs log)"
proof (cases "visit_reference_tree X root rel load record_visit []")
  case (Inr log)
  then have "visit_loop X rel load record_visit [(root, 0)] (0, None, []) [] = Inr log"
    by (auto simp: visit_reference_tree_def bindE_Inr)
  from visit_loop_inv [OF this] show ?thesis by (simp add: Inr walk_inv_def)
qed simp

text \<open>C23. Building a page tree from a reference list and walking it from its root visits exactly
  the references of the list in order, when the built pages have distinct digests and the parser
  reads their text back; the tree has at most eight levels, so the depth bound of the walk is
  never met.\<close>

theorem build_then_visit:
  assumes "build_reference_tree X refs rel = Inr (Some root, objects)"
    and "digest_fun (sha256 X)" and "distinct (map fst objects)"
    and "length objects \<le> MAX_DESCRIPTOR_REFERENCES"
    and "\<And>p. page_object X p \<in> set objects \<Longrightarrow> parses X (page_value p)"
  shows "case visit_reference_tree X root rel (\<lambda>d. ok_or (map_of objects d) (WireError ''missing'')) record_visit [] of
     Inl _ \<Rightarrow> False | Inr log \<Rightarrow> leaf_refs log = refs"
proof -
  let ?load = "\<lambda>d. ok_or (map_of objects d) (WireError ''missing'')"
  from build_tree [OF assms(1)] obtain h p pages where
    refs: "sorted_wrt (<) refs" "length refs \<le> MAX_DESCRIPTOR_REFERENCES"
    and t: "tree_of X rel h p refs pages" and root: "root = page_digest X p" and h: "h < MAX_TREE_DEPTH"
    and objs: "mset objects = mset (map (page_object X) pages)" by auto
  have len: "length pages \<le> MAX_DESCRIPTOR_REFERENCES"
    using assms(4) arg_cong [OF objs, of size] by simp
  have "mset (map fst objects) = mset (map (page_digest X) pages)"
    using arg_cong [OF objs, of "image_mset fst"] by (simp add: multiset.map_comp o_def)
  then have dist: "distinct (map (page_digest X) pages)"
    using assms(3) mset_eq_imp_distinct_iff by blast
  have "set objects = page_object X ` set pages"
    using mset_eq_setD [OF objs] by simp
  then have "list_all (stored X ?load) pages"
    using assms(3,5) by (auto simp: list_all_iff stored_def map_of_eq_Some_iff)
  with walk_tree(1) [OF t, where st = "(0, None, [])" and seen = "[]" and depth = 0 and pending = "[]"
      and load = ?load] refs dist len h
  obtain log a b where "visit_loop X rel ?load record_visit [(page_digest X p, 0)] (0, None, []) []
      = visit_loop X rel ?load record_visit [] (a, b, log) (rev (map (page_digest X) pages) @ [])"
    "leaf_refs log = refs"
    by (auto simp: walk_inv_def)
  moreover have v: "validate_hash (page_digest X p) = Inr ()"
    using assms(2) hash_of_page [of X p] by (metis digest_fun_def)
  ultimately show ?thesis
    by (simp add: visit_reference_tree_def visit_loop.simps(1) root v)
qed

definition sample_page :: reference_page where
  "sample_page = Relations [''a'']"

lemma page_texts:
  "json_text X (canon (page_value (Relations ks))) =
     byte CHR ''{'' # to_vec X (JString ''keys'') @ byte CHR '':'' # json_text X (strings_value ks) @
     byte CHR '','' # to_vec X (JString ''kind'') @ byte CHR '':'' # to_vec X (JString ''relations'') @ [byte CHR ''}'']"
  "json_text X (canon (page_value (Objects hs))) =
     byte CHR ''{'' # to_vec X (JString ''hashes'') @ byte CHR '':'' # json_text X (strings_value hs) @
     byte CHR '','' # to_vec X (JString ''kind'') @ byte CHR '':'' # to_vec X (JString ''objects'') @ [byte CHR ''}'']"
  "json_text X (canon (page_value (Branches cs))) =
     byte CHR ''{'' # to_vec X (JString ''children'') @ byte CHR '':'' # json_text X (strings_value cs) @
     byte CHR '','' # to_vec X (JString ''kind'') @ byte CHR '':'' # to_vec X (JString ''branches'') @ [byte CHR ''}'']"
  by (simp_all add: page_value_def struct_value_def bt_collect_def strings_value_def utf16_def
      utf16_units_def code_def join_def separator_def o_def)

lemma sample_page_unique:
  assumes "page_object (sample_ext v) p = page_object (sample_ext v) sample_page"
  shows "p = sample_page"
proof -
  from assms have eq: "json_text (sample_ext v) (canon (page_value p))
      = json_text (sample_ext v) (canon (page_value sample_page))"
    by (simp add: page_object_def Let_def)
  show ?thesis
  proof (cases p)
    case (Relations ks)
    with eq have "join (map (\<lambda>s. quote (JString s)) ks) = quote (JString ''a'')"
      by (simp add: sample_page_def page_texts strings_value_def o_def sample_ext_def join_def separator_def)
    then have "ks = [''a'']"
      using byte_inj [of _ "CHR ''a''"]
      by (cases ks; cases "tl ks") (auto simp: join_def separator_def quote_def as_bytes_def map_eq_Cons_conv)
    with Relations show ?thesis by (simp add: sample_page_def)
  next
    case (Objects hs)
    with eq show ?thesis
      by (simp add: sample_page_def page_texts sample_ext_def quote_def as_bytes_def)
  next
    case (Branches cs)
    with eq show ?thesis
      by (simp add: sample_page_def page_texts sample_ext_def quote_def as_bytes_def)
  qed
qed

lemma build_then_visit_witness:
  "let X = sample_ext (canon (page_value sample_page));
       objects = [page_object X sample_page] in
     case visit_reference_tree X (fst (page_object X sample_page)) True
       (\<lambda>d. ok_or (map_of objects d) (WireError ''missing'')) record_visit [] of
     Inl _ \<Rightarrow> False | Inr log \<Rightarrow> leaf_refs log = [''a'']"
proof -
  let ?X = "sample_ext (canon (page_value sample_page))"
  have "page_ok ?X sample_page"
    by (simp add: page_ok_def page_validate_def sample_page_def value_validate_def is_branches_def
        is_relations_def unordered_def PAGE_FANOUT_def MAX_KEY_BYTES_def MAX_METADATA_BYTES_def
        canonical_encode_def canonical_write_spec page_texts strings_value_def sample_ext_def
        quote_def as_bytes_def join_def separator_def)
  then have build: "build_reference_tree ?X [''a''] True
      = Inr (Some (fst (page_object ?X sample_page)), [page_object ?X sample_page])"
    by (simp add: build_reference_tree_def unordered_def MAX_DESCRIPTOR_REFERENCES_def leaf_step_def
        canonical_encode_def canonical_write_spec publish_rest_def publish_leaf_def publish_page_def
        page_ok_def sample_page_def page_object_def level_loop.simps Let_def)
  have "digest_fun (sha256 ?X)"
    by (simp add: digest_fun_def sample_ext_def hash_ok_def is_lower_hex_def is_ascii_digit_def list_all_length)
  then show ?thesis
    unfolding Let_def
    by (rule build_then_visit [OF build])
      (auto dest!: sample_page_unique simp: parses_def MAX_DESCRIPTOR_REFERENCES_def, simp add: sample_ext_def)
qed

text \<open>C12. The walk ends whatever the store holds and whatever the visitor does: pages that refer to
  each other in a cycle, or trees of any size, are left after at most a million and one turns of
  its loop, with the result the walk has.\<close>

theorem visit_ends:
  "case validate_hash root of
     Inl e \<Rightarrow> visit_reference_tree X root rel load visit s = Inl e
   | Inr _ \<Rightarrow> walk_turns (Suc MAX_DESCRIPTOR_REFERENCES) X rel load visit ([(root, 0)], (0, None, s), [])
       = Some (visit_reference_tree X root rel load visit s)"
proof (cases "validate_hash root")
  case (Inr u)
  then show ?thesis
    by (simp only: visit_reference_tree_def bindE_simps sum.case) (rule walk_turns_visit, simp_all)
next
  case (Inl e)
  then show ?thesis by (simp only: visit_reference_tree_def bindE_simps sum.case)
qed

end
