(* ===== verification/Payload_Value.thy ===== *)
theory Payload_Value
  imports Head "HOL-Library.Sublist"
begin

text \<open>
  \<^verbatim>\<open>crates/sync-wire/src/payload_value.rs\<close>: the comparison encoding of locally authored
  JavaScript values. A 64-bit float is its bit pattern; the conversion from integers rounds to
  nearest, ties to even. The shortest spelling of a float is \<open>format_f64\<close> of the external
  libraries. The writer is a parameter, as in the source: the interface \<open>writer\<close> states what
  \<^verbatim>\<open>io::Write\<close> promises, and both writers of the source meet it.
\<close>

section \<open>64-bit floats\<close>

type_synonym f64 = u64

fun bit_log :: "nat \<Rightarrow> nat" where
  "bit_log n = (if n < 2 then 0 else Suc (bit_log (n div 2)))"

declare bit_log.simps [simp del]

text \<open>\<^verbatim>\<open>n as f64\<close>: the significand is cut to 53 bits, the half-way case goes to even; a carry
  out of the significand moves into the exponent.\<close>

definition f64_of_nat :: "nat \<Rightarrow> f64" where
  "f64_of_nat n =
     (if n = 0 then 0
      else
        let e = bit_log n in
        if e \<le> 52 then of_nat ((e + 1023) * 2 ^ 52 + (n * 2 ^ (52 - e) - 2 ^ 52))
        else
          let unit = 2 ^ (e - 52);
              q = n div unit;
              r = n mod unit;
              q' = (if 2 * r > unit \<or> (2 * r = unit \<and> odd q) then q + 1 else q)
          in of_nat ((e + 1023) * 2 ^ 52 + (q' - 2 ^ 52)))"

definition f64_neg :: "f64 \<Rightarrow> f64" where
  "f64_neg w = (if unat w < 2 ^ 63 then of_nat (unat w + 2 ^ 63) else of_nat (unat w - 2 ^ 63))"

text \<open>\<^verbatim>\<open>v as f64\<close> for an \<^verbatim>\<open>i64\<close> given by its bits.\<close>

definition f64_of_i64 :: "u64 \<Rightarrow> f64" where
  "f64_of_i64 w = (if sint w < 0 then f64_neg (f64_of_nat (nat (- sint w))) else f64_of_nat (nat (sint w)))"

definition f64_exponent :: "f64 \<Rightarrow> nat" where
  "f64_exponent w = unat w div 2 ^ 52 mod 2048"

definition f64_fraction :: "f64 \<Rightarrow> nat" where
  "f64_fraction w = unat w mod 2 ^ 52"

definition is_finite :: "f64 \<Rightarrow> bool" where
  "is_finite w \<longleftrightarrow> f64_exponent w \<noteq> 2047"

definition is_zero :: "f64 \<Rightarrow> bool" where
  "is_zero w \<longleftrightarrow> unat w mod 2 ^ 63 = 0"

section \<open>Reading\<close>

definition from_f64 :: "f64 \<Rightarrow> json result" where
  "from_f64 v = (if is_finite v then Inr (JNumber (Float v)) else Inl (WireError ''non-finite-number''))"

function js_strict :: "json \<Rightarrow> json result" where
  "js_strict JNull = Inr JNull"
| "js_strict (JBool b) = Inr (JBool b)"
| "js_strict (JNumber n) =
     from_f64 (case n of PosInt u \<Rightarrow> f64_of_nat (unat u) | NegInt i \<Rightarrow> f64_of_i64 i | Float f \<Rightarrow> f)"
| "js_strict (JString s) = Inr (JString s)"
| "js_strict (JArray vs) = bindE (mapE js_strict vs) (\<lambda>values. Inr (JArray values))"
| "js_strict (JObject ps) =
     bindE (foldE (\<lambda>values p.
         if map_of values (fst p) \<noteq> None then Inl (WireError ''duplicate-key'')
         else bindE (js_strict (snd p)) (\<lambda>value. Inr (bt_insert (fst p) value values))) [] ps)
       (\<lambda>values. Inr (JObject values))"
  by pat_completeness auto
termination
  by (relation "measure size") (auto intro: json_size_array json_size_object)

definition payload_parse :: "ext \<Rightarrow> bytes \<Rightarrow> json result" where
  "payload_parse X bs =
     map_err (WireError ''invalid-payload-json'')
       (bindE (ok_or (from_slice X bs) (WireError ''syntax'')) js_strict)"

section \<open>Key order\<close>

text \<open>\<^verbatim>\<open>str::parse::<u32>\<close>: one leading plus is allowed.\<close>

definition u32_from_str :: "string \<Rightarrow> nat option" where
  "u32_from_str s =
     (let t = (case s of CHR ''+'' # r \<Rightarrow> r | _ \<Rightarrow> s) in
      if t \<noteq> [] \<and> list_all is_ascii_digit t \<and> read_nat t < 2 ^ 32 then Some (read_nat t) else None)"

definition array_index :: "string \<Rightarrow> nat option" where
  "array_index key =
     (case u32_from_str key of
        None \<Rightarrow> None
      | Some value \<Rightarrow> if value < 2 ^ 32 - 1 \<and> show_nat value = key then Some value else None)"

definition key_order :: "string \<Rightarrow> string \<Rightarrow> ordering" where
  "key_order a b =
     (case (array_index a, array_index b) of
        (Some i, Some j) \<Rightarrow> cmp i j
      | (Some _, None) \<Rightarrow> Less
      | (None, Some _) \<Rightarrow> Greater
      | (None, None) \<Rightarrow> cmp (utf16 a) (utf16 b))"

text \<open>The key whose lexicographic order is \<open>key_order\<close>, for the stable sort.\<close>

definition order_key :: "string \<Rightarrow> nat list" where
  "order_key k = (case array_index k of Some i \<Rightarrow> [0, i] | None \<Rightarrow> 1 # utf16 k)"

lemma key_order_key: "key_order a b = cmp (order_key a) (order_key b)"
  by (auto simp: key_order_def order_key_def cmp_def split: option.splits)

section \<open>Writing\<close>

definition is_container :: "json \<Rightarrow> bool" where
  "is_container v = (case v of JObject _ \<Rightarrow> True | JArray _ \<Rightarrow> True | _ \<Rightarrow> False)"

definition as_f64 :: "json_number \<Rightarrow> f64" where
  "as_f64 n = (case n of PosInt u \<Rightarrow> f64_of_nat (unat u) | NegInt i \<Rightarrow> f64_of_i64 i | Float f \<Rightarrow> f)"

definition number_text :: "ext \<Rightarrow> json_number \<Rightarrow> bytes result" where
  "number_text X n =
     (if is_finite (as_f64 n)
      then Inr (as_bytes (format_f64 X (if is_zero (as_f64 n) then 0 else as_f64 n)))
      else Inl (WireError ''unsupported-payload-number''))"

function js_write ::
  "ext \<Rightarrow> ('s \<Rightarrow> bytes \<Rightarrow> 's result) \<Rightarrow> json \<Rightarrow> nat \<Rightarrow> 's \<Rightarrow> 's result" where
  "js_write X write_all (JObject ps) depth out =
     (if depth \<ge> 127 then Inl (WireError ''invalid-payload-json'')
      else
        bindE (write_all out [byte CHR ''{'']) (\<lambda>out.
        bindE (foldE (\<lambda>out (i, p).
            bindE (if i > 0 then write_all out [byte CHR '','' ] else Inr out) (\<lambda>out.
            bindE (write_all out (to_vec X (JString (fst p)))) (\<lambda>out.
            bindE (write_all out [byte CHR '':'']) (\<lambda>out.
            js_write X write_all (snd p) (depth + 1) out))))
          out (enumerate 0 (sort_key (\<lambda>p. order_key (fst p)) ps))) (\<lambda>out.
        write_all out [byte CHR ''}''])))"
| "js_write X write_all (JArray vs) depth out =
     (if depth \<ge> 127 then Inl (WireError ''invalid-payload-json'')
      else
        bindE (write_all out [byte CHR ''['']) (\<lambda>out.
        bindE (foldE (\<lambda>out (i, v).
            bindE (if i > 0 then write_all out [byte CHR '','' ] else Inr out) (\<lambda>out.
            js_write X write_all v (depth + 1) out))
          out (enumerate 0 vs)) (\<lambda>out.
        write_all out [byte CHR '']''])))"
| "js_write X write_all (JNumber n) depth out = bindE (number_text X n) (\<lambda>t. write_all out t)"
| "js_write X write_all JNull depth out = write_all out (to_vec X JNull)"
| "js_write X write_all (JBool b) depth out = write_all out (to_vec X (JBool b))"
| "js_write X write_all (JString s) depth out = write_all out (to_vec X (JString s))"
  by pat_completeness auto
termination
  by (relation "measure (\<lambda>(X, w, v, depth, out). size v)")
    (auto dest!: enumerate_mem intro: json_size_array json_size_object)

text \<open>The two writers: a growing vector, and \<^verbatim>\<open>Compare\<close>, which consumes what it is given.\<close>

definition vec_write :: "bytes \<Rightarrow> bytes \<Rightarrow> bytes result" where
  "vec_write out bs = Inr (out @ bs)"

definition compare_write :: "bytes \<Rightarrow> bytes \<Rightarrow> bytes result" where
  "compare_write rest bs =
     (if prefix bs rest then Inr (drop (length bs) rest) else Inl (WireError ''invalid-payload-json''))"

definition payload_encode :: "ext \<Rightarrow> json \<Rightarrow> bytes result" where
  "payload_encode X v = js_write X vec_write v 0 []"

definition canonicalize :: "ext \<Rightarrow> bytes \<Rightarrow> bytes result" where
  "canonicalize X bs = bindE (payload_parse X bs) (payload_encode X)"

definition payload_is_canonical :: "ext \<Rightarrow> bytes \<Rightarrow> bool" where
  "payload_is_canonical X bs =
     (case payload_parse X bs of
        Inl _ \<Rightarrow> False
      | Inr v \<Rightarrow> (case js_write X compare_write v 0 bs of Inl _ \<Rightarrow> False | Inr rest \<Rightarrow> rest = []))"

section \<open>The interface of a writer\<close>

text \<open>The text of a value, whoever writes it; None where writing fails on every writer.\<close>

function js_text :: "ext \<Rightarrow> json \<Rightarrow> nat \<Rightarrow> bytes option" where
  "js_text X (JObject ps) depth =
     (if depth \<ge> 127 then None
      else map_option (\<lambda>ts. byte CHR ''{'' # join ts @ [byte CHR ''}''])
        (those (map (\<lambda>p. map_option (\<lambda>t. to_vec X (JString (fst p)) @ byte CHR '':'' # t)
            (js_text X (snd p) (depth + 1))) (sort_key (\<lambda>p. order_key (fst p)) ps))))"
| "js_text X (JArray vs) depth =
     (if depth \<ge> 127 then None
      else map_option (\<lambda>ts. byte CHR ''['' # join ts @ [byte CHR '']''])
        (those (map (\<lambda>v. js_text X v (depth + 1)) vs)))"
| "js_text X (JNumber n) depth = (case number_text X n of Inl _ \<Rightarrow> None | Inr t \<Rightarrow> Some t)"
| "js_text X JNull depth = Some (to_vec X JNull)"
| "js_text X (JBool b) depth = Some (to_vec X (JBool b))"
| "js_text X (JString s) depth = Some (to_vec X (JString s))"
  by pat_completeness auto
termination
  by (relation "measure (\<lambda>(X, v, depth). size v)") (auto intro: json_size_array json_size_object)

locale writer =
  fixes write_all :: "'s \<Rightarrow> bytes \<Rightarrow> 's result"
  assumes write_nil: "write_all s [] = Inr s"
    and write_append: "write_all s (a @ b) = bindE (write_all s a) (\<lambda>s. write_all s b)"
begin

lemma write_items:
  assumes "\<And>x s s'. x \<in> set xs \<Longrightarrow> f x s = Inr s' \<longleftrightarrow> (\<exists>t. g x = Some t \<and> write_all s t = Inr s')"
  shows "foldE (\<lambda>s (i, x). bindE (if i > 0 then write_all s [byte CHR '','' ] else Inr s) (f x)) s
      (enumerate n xs) = Inr s'
    \<longleftrightarrow> (\<exists>ts. those (map g xs) = Some ts
        \<and> write_all s (concat (map (\<lambda>(i, t). separator i @ t) (enumerate n ts))) = Inr s')"
  using assms
proof (induction xs arbitrary: s n)
  case Nil
  then show ?case by (simp add: write_nil)
next
  case (Cons x xs)
  have sep: "bindE (if n > 0 then write_all s [byte CHR '','' ] else Inr s) h = Inr r
      \<longleftrightarrow> (\<exists>m. write_all s (separator n) = Inr m \<and> h m = Inr r)" for h r
    by (simp add: separator_def write_nil bindE_Inr)
  have head: "f x m = Inr r \<longleftrightarrow> (\<exists>t. g x = Some t \<and> write_all m t = Inr r)" for m r
    using Cons.prems by simp
  have rest: "foldE (\<lambda>s (i, x). bindE (if i > 0 then write_all s [byte CHR '','' ] else Inr s) (f x)) m
      (enumerate (Suc n) xs) = Inr s'
    \<longleftrightarrow> (\<exists>ts. those (map g xs) = Some ts
        \<and> write_all m (concat (map (\<lambda>(i, t). separator i @ t) (enumerate (Suc n) ts))) = Inr s')" for m
    by (rule Cons.IH) (use Cons.prems in simp)
  show ?case
    by (simp add: bindE_Inr [of "bindE _ _"] sep head rest)
      (auto simp: write_append bindE_Inr split: option.splits)
qed

lemma write_cons: "write_all s (c # t) = bindE (write_all s [c]) (\<lambda>s. write_all s t)"
  using write_append [of s "[c]" t] by simp

lemma write_member:
  "write_all s (k @ c # t) = bindE (write_all s k) (\<lambda>s. bindE (write_all s [c]) (\<lambda>s. write_all s t))"
  using write_append [of s k "c # t"] by (simp add: write_cons [of _ c t])

lemma write_bracketed:
  assumes "\<And>s s'. body s = Inr s' \<longleftrightarrow> (\<exists>ts. m = Some ts \<and> write_all s (g ts) = Inr s')"
  shows "bindE (write_all s [a]) (\<lambda>s. bindE (body s) (\<lambda>s. write_all s [b])) = Inr s'
    \<longleftrightarrow> (\<exists>t. map_option (\<lambda>ts. a # g ts @ [b]) m = Some t \<and> write_all s t = Inr s')"
  using assms by (auto simp: bindE_Inr write_cons [of _ a "g _ @ [b]"] write_append)

lemma write_js:
  "js_write X write_all v depth s = Inr s' \<longleftrightarrow>
     (\<exists>t. js_text X v depth = Some t \<and> write_all s t = Inr s')"
proof (induction v arbitrary: depth s s')
  case (JObject ps)
  let ?f = "\<lambda>p out. bindE (write_all out (to_vec X (JString (fst p)))) (\<lambda>out.
      bindE (write_all out [byte CHR '':'']) (\<lambda>out. js_write X write_all (snd p) (depth + 1) out))"
  let ?g = "\<lambda>p. map_option (\<lambda>t. to_vec X (JString (fst p)) @ byte CHR '':'' # t)
      (js_text X (snd p) (depth + 1))"
  let ?ps = "sort_key (\<lambda>p. order_key (fst p)) ps"
  have "?f p s = Inr s' \<longleftrightarrow> (\<exists>t. ?g p = Some t \<and> write_all s t = Inr s')" if "p \<in> set ?ps" for p s s'
  proof -
    have "snd p \<in> Basic_BNFs.snds p" "p \<in> set ps" using that by (auto simp: prod_set_simps snds.intros)
    from JObject(1) [OF this(2,1)] show ?thesis
      by (auto simp: bindE_Inr write_member)
  qed
  from write_bracketed [where g = join, OF write_items [where f = ?f and g = ?g and n = 0 and xs = ?ps,
      folded join_def], OF this]
  show ?case by simp
next
  case (JArray vs)
  from write_bracketed [where g = join, OF write_items [where f = "\<lambda>v out. js_write X write_all v (depth + 1) out"
      and g = "\<lambda>v. js_text X v (depth + 1)" and n = 0 and xs = vs, folded join_def], OF JArray]
  show ?case by simp
next
  case (JNumber n)
  show ?case by (auto simp: bindE_Inr split: sum.splits)
qed simp_all

end

interpretation vec: writer vec_write
  by unfold_locales (simp_all add: vec_write_def)

interpretation compare: writer compare_write
  by unfold_locales (auto simp: compare_write_def prefix_def drop_append)

lemma payload_encode_Inr: "payload_encode X v = Inr bs \<longleftrightarrow> js_text X v 0 = Some bs"
  by (auto simp: payload_encode_def vec.write_js vec_write_def)

section \<open>Properties\<close>

text \<open>C26. The comparison that never builds a second encoding agrees with encoding and comparing:
  bytes are canonical exactly when canonicalizing them succeeds and gives them back.\<close>

theorem payload_is_canonical_iff: "payload_is_canonical X bs \<longleftrightarrow> canonicalize X bs = Inr bs"
proof (cases "payload_parse X bs")
  case (Inr v)
  have compare: "js_write X compare_write v 0 bs = Inr rest \<longleftrightarrow>
      (\<exists>t. js_text X v 0 = Some t \<and> bs = t @ rest)" for rest
    by (auto simp: compare.write_js compare_write_def prefix_def)
  have "payload_is_canonical X bs \<longleftrightarrow> js_write X compare_write v 0 bs = Inr []"
    by (simp add: payload_is_canonical_def Inr split: sum.split)
  also have "\<dots> \<longleftrightarrow> js_text X v 0 = Some bs" by (auto simp: compare)
  finally show ?thesis by (simp add: canonicalize_def Inr payload_encode_Inr)
qed (simp add: payload_is_canonical_def canonicalize_def)

end
