(* ===== verification/Unit.thy ===== *)
theory Unit
  imports Descriptor Payload_Value
begin

text \<open>
  \<^verbatim>\<open>crates/sync-wire/src/unit.rs\<close>: unit keys (the JSON text of a list of components), unit
  values (an inline payload, a descriptor of content objects, or a deletion), and the
  last-writer-wins decision between two versions of a unit.
\<close>

section \<open>Unit keys\<close>

definition MAX_UNIT_KEY_BYTES :: nat where "MAX_UNIT_KEY_BYTES = 64 * 1024"
definition MAX_INLINE_UNIT_BYTES :: nat where "MAX_INLINE_UNIT_BYTES = 262144"

datatype unit_key = UnitKey (key_str: string)

text \<open>\<^verbatim>\<open>serde_json::to_string\<close> of a list of strings.\<close>

definition components_text :: "ext \<Rightarrow> string list \<Rightarrow> string" where
  "components_text X cs = map (\<lambda>b. char_of (unat b)) (json_text X (strings_value cs))"

definition parse_components :: "ext \<Rightarrow> string \<Rightarrow> string list option" where
  "parse_components X s = as_strings (from_slice X (as_bytes s))"

text \<open>\<^verbatim>\<open>&xs[a..b]\<close>\<close>

definition sub_slice :: "'a list \<Rightarrow> nat \<Rightarrow> nat \<Rightarrow> 'a list result" where
  "sub_slice xs a b = (if a \<le> b \<and> b \<le> length xs then Inr (take (b - a) (drop a xs)) else Inl Panic)"

definition index :: "'a list \<Rightarrow> nat \<Rightarrow> 'a result" where
  "index xs i = ok_or (get_at xs i) Panic"

definition order_kinds :: "string list" where
  "order_kinds = [''modules'', ''plugins'', ''loadouts'', ''customModels'']"

definition valid_arity :: "string list \<Rightarrow> bool" where
  "valid_arity cs =
     (let n = length cs; kind = hd cs in
      if kind \<in> set [''root'', ''toggle'', ''variable'', ''preset-protected'', ''archive'', ''asset'',
          ''inlay'', ''hypa''] then n = 2
      else if kind \<in> set [''character'', ''preset'', ''persona'', ''messages'', ''record'', ''plugin'']
      then n = 3
      else if kind \<in> set [''conversation'', ''plugin-local''] then n = 4
      else if kind = ''exists'' then
        (case get_at cs 1 of
           None \<Rightarrow> False
         | Some c \<Rightarrow>
             if c = ''conversation'' then n = 4
             else if c \<in> set [''character'', ''preset'', ''persona'', ''modules'', ''loadouts'',
                 ''customModels''] then n = 3
             else if c = ''plugins'' \<or> c = [] then False
             else n \<ge> 3)
      else if kind = ''order'' then
        (case get_at cs 1 of
           None \<Rightarrow> False
         | Some c \<Rightarrow>
             if c \<in> set [''conversations'', ''plugin-storage''] then n = 3
             else if c \<in> set [''characters'', ''presets'', ''personas'', ''modules'', ''plugins'',
                 ''loadouts'', ''customModels''] then n = 2
             else c \<noteq> [])
      else True)"

definition starts_with :: "string \<Rightarrow> string \<Rightarrow> bool" where
  "starts_with s p \<longleftrightarrow> take (length p) s = p"

text \<open>The two clauses after \<^verbatim>\<open>!valid ||\<close>.\<close>

definition invalid_kind :: "string list \<Rightarrow> bool result" where
  "invalid_kind cs =
     (let kind = hd cs in
      bindE (if kind = ''record'' then bindE (index cs 1) (\<lambda>c. Inr (c \<notin> set order_kinds)) else Inr False)
      (\<lambda>a. if a then Inr True
           else if kind \<in> set [''toggle'', ''variable''] then
             bindE (index cs 1) (\<lambda>c. Inr ((kind = ''toggle'') \<noteq> starts_with c ''toggle_''))
           else Inr False))"

definition structural_ids :: "string list \<Rightarrow> string list result" where
  "structural_ids cs =
     (let kind = hd cs in
      if kind \<in> set [''character'', ''preset'', ''persona'', ''archive''] then sub_slice cs 1 2
      else if kind \<in> set [''conversation'', ''messages''] then sub_slice cs 1 3
      else if kind = ''exists'' then sub_slice cs 2 (length cs)
      else if kind = ''record'' then
        bindE (index cs 1) (\<lambda>c. if c \<noteq> ''plugins'' then sub_slice cs 2 3 else sub_slice cs 0 0)
      else if kind = ''order'' then
        bindE (index cs 1) (\<lambda>c. if c = ''conversations'' then sub_slice cs 2 3 else sub_slice cs 0 0)
      else sub_slice cs 0 0)"

definition unit_key_try_from :: "ext \<Rightarrow> string \<Rightarrow> unit_key result" where
  "unit_key_try_from X value =
     (if length value > MAX_UNIT_KEY_BYTES then Inl (WireError ''unit-key-too-large'')
      else
        bindE (ok_or (parse_components X value) (WireError ''invalid-unit-key'')) (\<lambda>cs.
        if cs = [] \<or> hd cs = [] \<or> components_text X cs \<noteq> value then Inl (WireError ''invalid-unit-key'')
        else
          bindE (if \<not> valid_arity cs then Inr True else invalid_kind cs) (\<lambda>bad.
          if bad then Inl (WireError ''invalid-unit-key-shape'')
          else
            bindE (structural_ids cs) (\<lambda>ids.
            if list_ex (\<lambda>i. i = []) ids then Inl (WireError ''invalid-unit-key-shape'')
            else Inr (UnitKey value)))))"

definition unit_key_new :: "ext \<Rightarrow> string list \<Rightarrow> unit_key result" where
  "unit_key_new X cs = unit_key_try_from X (components_text X cs)"

text \<open>\<^verbatim>\<open>components\<close> unwraps the parse.\<close>

definition unit_key_components :: "ext \<Rightarrow> unit_key \<Rightarrow> string list result" where
  "unit_key_components X k = ok_or (parse_components X (key_str k)) Panic"

section \<open>Unit values\<close>

datatype unit_value = Inline string | Object string record_descriptor | Deleted

definition unit_value_value :: "unit_value \<Rightarrow> json" where
  "unit_value_value v =
     (case v of
        Inline bs \<Rightarrow> struct_value [(''kind'', JString ''inline''), (''bytes'', JString bs)]
      | Object h d \<Rightarrow> struct_value [(''kind'', JString ''object''), (''descriptorHash'', JString h),
          (''descriptor'', descriptor_value d)]
      | Deleted \<Rightarrow> struct_value [(''kind'', JString ''deleted'')])"

definition unit_value_from :: "json \<Rightarrow> unit_value option" where
  "unit_value_from value =
     (case tagged ''kind'' value of
        None \<Rightarrow> None
      | Some (t, rest) \<Rightarrow>
          if t = ''inline'' then
            (case struct_fields [''bytes''] rest of
               Some [b] \<Rightarrow> map_option Inline (as_string b) | _ \<Rightarrow> None)
          else if t = ''object'' then
            (case struct_fields [''descriptorHash'', ''descriptor''] rest of
               Some [h, Some d] \<Rightarrow>
                 (case (as_string h, descriptor_from d) of
                    (Some h, Some d) \<Rightarrow> Some (Object h d) | _ \<Rightarrow> None)
             | _ \<Rightarrow> None)
          else if t = ''deleted'' then
            (case struct_fields [] rest of Some _ \<Rightarrow> Some Deleted | None \<Rightarrow> None)
          else None)"

definition unit_value_inline :: "ext \<Rightarrow> bytes \<Rightarrow> unit_value result" where
  "unit_value_inline X bs =
     bindE (canonicalize X bs) (\<lambda>c.
     if length c > MAX_INLINE_UNIT_BYTES then Inl (WireError ''inline-unit-too-large'')
     else Inr (Inline (b64_encode X c)))"

definition unit_value_object :: "ext \<Rightarrow> record_descriptor \<Rightarrow> unit_value result" where
  "unit_value_object X d = bindE (descriptor_hash X d) (\<lambda>h. Inr (Object h d))"

definition validated_inline :: "ext \<Rightarrow> unit_value \<Rightarrow> (bytes \<times> json) option result" where
  "validated_inline X v =
     (case v of
        Inline bs \<Rightarrow>
          bindE (ok_or (b64_decode X bs) (WireError ''invalid-inline-value'')) (\<lambda>decoded.
          if length decoded > MAX_INLINE_UNIT_BYTES then Inl (WireError ''inline-unit-too-large'')
          else if b64_encode X decoded \<noteq> bs then Inl (WireError ''noncanonical-inline-value'')
          else
            bindE (payload_parse X decoded) (\<lambda>value.
            bindE (payload_encode X value) (\<lambda>e.
            if e \<noteq> decoded then Inl (WireError ''noncanonical-inline-value'')
            else Inr (Some (decoded, value)))))
      | Object h d \<Rightarrow>
          bindE (validate_hash h) (\<lambda>_.
          bindE (descriptor_validate X d) (\<lambda>_.
          bindE (descriptor_hash X d) (\<lambda>h'.
          if h' \<noteq> h then Inl (WireError ''descriptor-hash-mismatch'') else Inr None)))
      | Deleted \<Rightarrow> Inr None)"

definition unit_value_validate :: "ext \<Rightarrow> unit_value \<Rightarrow> unit result" where
  "unit_value_validate X v = bindE (validated_inline X v) (\<lambda>_. Inr ())"

definition unit_value_identity :: "ext \<Rightarrow> unit_value \<Rightarrow> string result" where
  "unit_value_identity X v =
     bindE (unit_value_validate X v) (\<lambda>_.
     bindE (canonical_encode X (unit_value_value v)) (\<lambda>bs. Inr (sha256 X bs)))"

section \<open>Last writer wins\<close>

datatype lww_decision = KeepLocal | ApplyRemote | Identical

definition compare_version ::
  "ext \<Rightarrow> stamp \<Rightarrow> unit_value \<Rightarrow> stamp \<Rightarrow> unit_value \<Rightarrow> lww_decision result" where
  "compare_version X local_stamp local_value remote_stamp remote_value =
     bindE (stamp_validate local_stamp) (\<lambda>_.
     bindE (stamp_validate remote_stamp) (\<lambda>_.
     bindE (unit_value_identity X local_value) (\<lambda>local_identity.
     bindE (unit_value_identity X remote_value) (\<lambda>remote_identity.
     case stamp_cmp remote_stamp local_stamp of
       Less \<Rightarrow> Inr KeepLocal
     | Greater \<Rightarrow> Inr ApplyRemote
     | Equal \<Rightarrow> if local_identity = remote_identity then Inr Identical
                else Inl (WireError ''equal-stamp-integrity'')))))"

section \<open>Lemmas\<close>

lemma unit_value_from_value [simp]: "unit_value_from (unit_value_value v) = Some v"
  by (cases v) (simp_all add: unit_value_from_def unit_value_value_def tagged_def struct_value_def
      struct_fields_def bt_collect_def bt_delete_def)

lemma unit_value_free [simp]: "number_free (unit_value_value v)" "wf_value (unit_value_value v)"
  by (cases v; simp add: unit_value_value_def struct_value_free struct_value_wf)+

text \<open>The number of components each structural kind has.\<close>

lemma arity_simps:
  "valid_arity (''toggle'' # cs) \<longleftrightarrow> length cs = 1"
  "valid_arity (''variable'' # cs) \<longleftrightarrow> length cs = 1"
  "valid_arity (''archive'' # cs) \<longleftrightarrow> length cs = 1"
  "valid_arity (''character'' # cs) \<longleftrightarrow> length cs = 2"
  "valid_arity (''preset'' # cs) \<longleftrightarrow> length cs = 2"
  "valid_arity (''persona'' # cs) \<longleftrightarrow> length cs = 2"
  "valid_arity (''messages'' # cs) \<longleftrightarrow> length cs = 2"
  "valid_arity (''record'' # cs) \<longleftrightarrow> length cs = 2"
  "valid_arity (''conversation'' # cs) \<longleftrightarrow> length cs = 3"
  by (simp_all add: valid_arity_def)

lemma arity_exists: "valid_arity (''exists'' # cs) \<Longrightarrow> 2 \<le> length cs"
  by (simp add: valid_arity_def split: option.splits if_splits)

lemma arity_order:
  "valid_arity (''order'' # cs) \<Longrightarrow> 1 \<le> length cs \<and> (cs ! 0 = ''conversations'' \<longrightarrow> 2 \<le> length cs)"
  by (cases cs) (simp_all add: valid_arity_def get_at_def split: if_splits)

lemma slice_tail: "1 \<le> a \<Longrightarrow> a \<le> b \<Longrightarrow> b \<le> length cs \<Longrightarrow>
    \<exists>ids. sub_slice cs a b = Inr ids \<and> set ids \<subseteq> set (tl cs)"
proof -
  assume *: "1 \<le> a" "a \<le> b" "b \<le> length cs"
  have "drop a cs = drop (a - 1) (tl cs)" using *(1) by (simp add: drop_Suc [symmetric])
  then have "set (take (b - a) (drop a cs)) \<subseteq> set (tl cs)"
    using set_take_subset set_drop_subset by (metis order.trans)
  with * show ?thesis by (simp add: sub_slice_def)
qed

lemma slice_empty: "\<exists>ids. sub_slice cs 0 0 = Inr ids \<and> set ids \<subseteq> set (tl cs)"
  by (simp add: sub_slice_def)

lemma index_one: "cs \<noteq> [] \<Longrightarrow> index (kind # cs) 1 = Inr (cs ! 0)"
  by (cases cs) (simp_all add: index_def get_at_def)

lemma invalid_kind_no_panic:
  assumes "valid_arity (kind # cs)"
  shows "\<exists>b. invalid_kind (kind # cs) = Inr b"
proof (cases "kind = ''record''")
  case True
  then have "cs \<noteq> []" using assms by (auto simp: arity_simps)
  with True show ?thesis by (auto simp: invalid_kind_def Let_def index_one [simplified])
next
  case False
  show ?thesis
  proof (cases "kind \<in> set [''toggle'', ''variable'']")
    case True
    then have "cs \<noteq> []" using assms by (auto simp: arity_simps)
    with True False index_one [of cs kind] show ?thesis
      by (simp add: invalid_kind_def Let_def)
  next
    case no: False
    with False show ?thesis
      by (auto simp: invalid_kind_def Let_def)
  qed
qed

lemma structural_no_panic:
  assumes "valid_arity (kind # cs)"
  shows "\<exists>ids. structural_ids (kind # cs) = Inr ids \<and> set ids \<subseteq> set (tl (kind # cs))"
proof (cases "kind \<in> set [''character'', ''preset'', ''persona'', ''archive'']")
  case True
  then have "2 \<le> length (kind # cs)" using assms by (auto simp: arity_simps)
  with slice_tail [of 1 2 "kind # cs"] True show ?thesis
    by (simp only: structural_ids_def Let_def list.sel if_True)
next
  case no1: False
  show ?thesis
  proof (cases "kind \<in> set [''conversation'', ''messages'']")
    case True
    then have "3 \<le> length (kind # cs)" using assms by (auto simp: arity_simps)
    with slice_tail [of 1 3 "kind # cs"] True no1 show ?thesis
      by (simp only: structural_ids_def Let_def list.sel if_True if_False)
  next
    case no2: False
    consider "kind = ''exists''" | "kind = ''record''" | "kind = ''order''"
      | "kind \<noteq> ''exists''" "kind \<noteq> ''record''" "kind \<noteq> ''order''" by argo
    then show ?thesis
    proof cases
      case 1
      then have "2 \<le> length cs" using assms arity_exists by simp
      then show ?thesis using slice_tail [of 2 "length (kind # cs)" "kind # cs"] 1
        by (simp add: structural_ids_def)
    next
      case 2
      then have len: "length cs = 2" using assms by (simp only: arity_simps)
      then have "index (kind # cs) 1 = Inr (cs ! 0)" by (intro index_one) auto
      with len slice_tail [of 2 3 "kind # cs"] slice_empty [of "kind # cs"] 2 show ?thesis
        by (cases "cs ! 0 = ''plugins''") (simp_all add: structural_ids_def Let_def)
    next
      case 3
      then have len: "1 \<le> length cs" "cs ! 0 = ''conversations'' \<longrightarrow> 2 \<le> length cs"
        using assms arity_order by auto
      then have "index (kind # cs) 1 = Inr (cs ! 0)" by (intro index_one) auto
      with len slice_tail [of 2 3 "kind # cs"] slice_empty [of "kind # cs"] 3 show ?thesis
        by (cases "cs ! 0 = ''conversations''") (simp_all add: structural_ids_def Let_def)
    next
      case 4
      with slice_empty [of "kind # cs"] no1 no2 show ?thesis
        by (simp only: structural_ids_def Let_def list.sel if_False)
    qed
  qed
qed

text \<open>What an accepted key says about its components.\<close>

definition key_shape :: "string list \<Rightarrow> bool" where
  "key_shape cs \<longleftrightarrow> cs \<noteq> [] \<and> hd cs \<noteq> [] \<and> valid_arity cs \<and> invalid_kind cs = Inr False
     \<and> (\<exists>ids. structural_ids cs = Inr ids \<and> [] \<notin> set ids)"

lemma unit_key_Inr: "unit_key_try_from X v = Inr k \<longleftrightarrow>
    length v \<le> MAX_UNIT_KEY_BYTES \<and> k = UnitKey v
    \<and> (\<exists>cs. parse_components X v = Some cs \<and> components_text X cs = v \<and> key_shape cs)"
  by (auto simp: unit_key_try_from_def key_shape_def bindE_Inr list_ex_iff not_less split: if_splits)

lemma unit_key_no_panic: "unit_key_try_from X v \<noteq> Inl Panic"
proof
  assume "unit_key_try_from X v = Inl Panic"
  then obtain cs where cs: "cs \<noteq> []" and panic:
    "(if \<not> valid_arity cs then Inr True else invalid_kind cs) = Inl Panic
     \<or> valid_arity cs \<and> structural_ids cs = Inl Panic"
    by (auto simp: unit_key_try_from_def bindE_Inl split: if_splits)
  from cs obtain kind rest where "cs = kind # rest" by (cases cs) auto
  with panic invalid_kind_no_panic [of kind rest] structural_no_panic [of kind rest] show False
    by (auto split: if_splits)
qed

lemma inline_Inr: "validated_inline X (Inline b) = Inr r \<longleftrightarrow>
    (\<exists>decoded value. b64_decode X b = Some decoded \<and> length decoded \<le> MAX_INLINE_UNIT_BYTES
      \<and> b64_encode X decoded = b \<and> payload_parse X decoded = Inr value
      \<and> payload_encode X value = Inr decoded \<and> r = Some (decoded, value))"
  by (auto simp: validated_inline_def bindE_Inr not_less split: if_splits)

section \<open>Properties\<close>

text \<open>C25. Reading a unit key never panics. An accepted key is kept byte for byte, is the only
  spelling of its components, has the shape its kind requires, and gives the same components
  whenever it is asked for them.\<close>

theorem unit_key_canonical:
  "case unit_key_try_from X v of
     Inl e \<Rightarrow> e \<noteq> Panic
   | Inr k \<Rightarrow> key_str k = v \<and> length v \<le> MAX_UNIT_KEY_BYTES
       \<and> (case unit_key_components X k of
            Inl _ \<Rightarrow> False
          | Inr cs \<Rightarrow> key_shape cs \<and> components_text X cs = v \<and> unit_key_new X cs = Inr k)"
proof (cases "unit_key_try_from X v")
  case (Inl e)
  then show ?thesis using unit_key_no_panic [of X v] by auto
next
  case (Inr k)
  then obtain cs where cs: "length v \<le> MAX_UNIT_KEY_BYTES" "k = UnitKey v"
    "parse_components X v = Some cs" "components_text X cs = v" "key_shape cs"
    by (auto simp: unit_key_Inr)
  then show ?thesis using Inr by (simp add: unit_key_components_def unit_key_new_def)
qed

text \<open>C24. The decision between two versions does not depend on which replica asks: swapping local
  and remote swaps the decision, and one side fails exactly when the other does.\<close>

theorem compare_version_symmetric:
  "compare_version X s v t w = Inr d \<longleftrightarrow>
     compare_version X t w s v =
       Inr (case d of KeepLocal \<Rightarrow> ApplyRemote | ApplyRemote \<Rightarrow> KeepLocal | Identical \<Rightarrow> Identical)"
proof -
  have "stamp_cmp s t = (case stamp_cmp t s of Less \<Rightarrow> Greater | Greater \<Rightarrow> Less | Equal \<Rightarrow> Equal)"
    by (auto simp: stamp_cmp_eq_cmp cmp_def)
  then show ?thesis
    by (cases "stamp_cmp t s"; cases d)
      (auto simp: compare_version_def bindE_Inr split: if_splits)
qed

text \<open>A decision follows the order of the stamps: the remote version is applied exactly when
  its stamp is later, and two versions with one stamp and different contents are an error.\<close>

theorem compare_version_by_stamp:
  "case compare_version X s v t w of
     Inl _ \<Rightarrow> True
   | Inr d \<Rightarrow> (d = ApplyRemote \<longleftrightarrow> s < t) \<and> (d = KeepLocal \<longleftrightarrow> t < s)
       \<and> (d = Identical \<longleftrightarrow> s = t \<and> unit_value_identity X v = unit_value_identity X w)"
proof (cases "compare_version X s v t w")
  case (Inr d)
  then obtain a b where ids: "unit_value_identity X v = Inr a" "unit_value_identity X w = Inr b"
    and d: "(case stamp_cmp t s of Less \<Rightarrow> Inr KeepLocal | Greater \<Rightarrow> Inr ApplyRemote
       | Equal \<Rightarrow> if a = b then Inr Identical else Inl (WireError ''equal-stamp-integrity'')) = Inr d"
    by (auto simp: compare_version_def bindE_Inr)
  consider "t < s" | "t = s" | "s < t" by (rule linorder_cases)
  then show ?thesis
    unfolding Inr sum.case
    by cases (use d ids in \<open>auto simp: stamp_cmp_eq_cmp cmp_def split: if_splits\<close>)
qed simp

text \<open>A valid inline value is the only spelling of its payload: two valid inline values whose
  payloads decode to the same bytes are equal, and the payload is its own canonical form.\<close>

theorem inline_spelling_unique:
  "case (validated_inline X (Inline b), validated_inline X (Inline c)) of
     (Inr (Some (p, v)), Inr (Some (q, w))) \<Rightarrow>
       (p = q \<longleftrightarrow> b = c) \<and> canonicalize X p = Inr p \<and> length p \<le> MAX_INLINE_UNIT_BYTES
   | _ \<Rightarrow> True"
proof (cases "\<exists>r r'. validated_inline X (Inline b) = Inr r \<and> validated_inline X (Inline c) = Inr r'")
  case True
  then obtain r r' where r: "validated_inline X (Inline b) = Inr r" "validated_inline X (Inline c) = Inr r'"
    by blast
  note facts = r [unfolded inline_Inr]
  show ?thesis
  proof (cases "r = None \<or> r' = None")
    case True
    then show ?thesis unfolding r prod.case sum.case by (auto split: option.split)
  next
    case False
    with facts obtain p v q w where rr: "r = Some (p, v)" "r' = Some (q, w)" by blast
    from facts(1) rr have p: "b64_encode X p = b" "payload_parse X p = Inr v"
      "payload_encode X v = Inr p" "length p \<le> MAX_INLINE_UNIT_BYTES" "b64_decode X b = Some p" by auto
    from facts(2) rr have q: "b64_encode X q = c" "b64_decode X c = Some q" by auto
    have "p = q \<longleftrightarrow> b = c" using p(1,5) q by (metis option.inject)
    then show ?thesis unfolding r rr prod.case sum.case option.case
      using p by (simp add: canonicalize_def)
  qed
next
  case False
  show ?thesis
  proof (cases "validated_inline X (Inline b)")
    case (Inl e)
    show ?thesis by (simp add: Inl)
  next
    case (Inr r)
    then obtain e where e: "validated_inline X (Inline c) = Inl e"
      using False by (cases "validated_inline X (Inline c)") blast+
    show ?thesis by (simp add: Inr e split: option.split)
  qed
qed

end
