(* ===== verification/Library_Format.thy ===== *)
theory Library_Format
  imports Unit
begin

text \<open>
  \<^verbatim>\<open>crates/sync-wire/src/library_format.rs\<close>: the unit that names a library's format level,
  how a level is written and read, and the level header of a request.
\<close>

definition KEY :: string where
  "KEY = ''['' @ [CHR 0x22] @ ''library-format'' @ [CHR 0x22] @ '']''"

definition MAX_LEVEL :: nat where "MAX_LEVEL = 2 ^ 53 - 1"

definition format_key :: "ext \<Rightarrow> unit_key result" where
  "format_key X = (case unit_key_try_from X KEY of Inl _ \<Rightarrow> Inl Panic | Inr k \<Rightarrow> Inr k)"

definition is_format_key :: "unit_key \<Rightarrow> bool" where
  "is_format_key k \<longleftrightarrow> key_str k = KEY"

text \<open>The value of a finite float that is not negative and has no fractional part.\<close>

definition f64_integer :: "f64 \<Rightarrow> nat option" where
  "f64_integer w =
     (let e = f64_exponent w; m = 2 ^ 52 + f64_fraction w in
      if is_zero w then Some 0
      else if 2 ^ 63 \<le> unat w \<or> e < 1023 \<or> e = 2047 then None
      else if e \<le> 1075 then
        if m mod 2 ^ (1075 - e) = 0 then Some (m div 2 ^ (1075 - e)) else None
      else Some (m * 2 ^ (e - 1075)))"

definition level :: "ext \<Rightarrow> unit_value \<Rightarrow> u64 option" where
  "level X value =
     (case validated_inline X value of
        Inr (Some (_, JObject ps)) \<Rightarrow>
          (case map_of ps ''level'' of
             Some (JNumber n) \<Rightarrow>
               (case f64_integer (as_f64 n) of
                  None \<Rightarrow> None
                | Some l \<Rightarrow> if 2 \<le> l \<and> l \<le> MAX_LEVEL then Some (of_nat l) else None)
           | _ \<Rightarrow> None)
      | _ \<Rightarrow> None)"

definition level_text :: "u64 \<Rightarrow> string" where
  "level_text l = ''{'' @ [CHR 0x22] @ ''level'' @ [CHR 0x22] @ '':'' @ show_nat (unat l) @ ''}''"

definition level_value :: "ext \<Rightarrow> u64 \<Rightarrow> unit_value result" where
  "level_value X l =
     (if \<not> (2 \<le> unat l \<and> unat l \<le> MAX_LEVEL) then Inl (WireError ''invalid-library-format'')
      else unit_value_inline X (as_bytes (level_text l)))"

definition is_canonical_level :: "ext \<Rightarrow> unit_value \<Rightarrow> bool" where
  "is_canonical_level X value =
     (case level X value of
        None \<Rightarrow> False
      | Some l \<Rightarrow> (case level_value X l of Inl _ \<Rightarrow> False | Inr expected \<Rightarrow> expected = value))"

definition parse_header :: "string \<Rightarrow> u64 result" where
  "parse_header value =
     (if value = [] \<or> length value > 16 \<or> \<not> list_all is_ascii_digit value \<or> hd value = CHR ''0''
      then Inl (WireError ''invalid-library-format'')
      else if read_nat value < 2 ^ 64 \<and> read_nat value \<le> MAX_LEVEL then Inr (of_nat (read_nat value))
      else Inl (WireError ''invalid-library-format''))"

section \<open>Lemmas\<close>

lemma bit_log_bounds: "0 < n \<Longrightarrow> 2 ^ bit_log n \<le> n \<and> n < 2 ^ (bit_log n + 1)"
proof (induction n rule: bit_log.induct)
  case (1 n)
  show ?case
  proof (cases "n < 2")
    case True
    with 1 show ?thesis by (simp add: bit_log.simps)
  next
    case False
    then have half: "2 ^ bit_log (n div 2) \<le> n div 2" "n div 2 < 2 ^ (bit_log (n div 2) + 1)"
      using 1(1) by auto
    have "2 * 2 ^ bit_log (n div 2) \<le> n" using half(1) by linarith
    moreover have "n < 2 * 2 ^ (bit_log (n div 2) + 1)" using half(2) by linarith
    ultimately show ?thesis using False by (simp add: bit_log.simps [of n])
  qed
qed

lemma f64_parts:
  assumes "e < 2048" and "f < 4503599627370496"
  shows "unat (of_nat (e * 4503599627370496 + f) :: u64) = e * 4503599627370496 + f"
proof -
  have "e * 4503599627370496 \<le> 2047 * 4503599627370496" using assms(1) by (intro mult_le_mono1) simp
  with assms(2) show ?thesis by (intro unat_of_nat_64) linarith
qed

lemma f64_of_nat_exact:
  assumes "0 < n" and "n < 2 ^ 53"
  shows "f64_integer (f64_of_nat n) = Some n" and "is_finite (f64_of_nat n)"
proof -
  define e where "e = bit_log n"
  have b: "2 ^ e \<le> n" "n < 2 ^ (e + 1)" using bit_log_bounds [OF assms(1)] by (auto simp: e_def)
  have e: "e \<le> 52"
  proof (rule ccontr)
    assume "\<not> e \<le> 52"
    then have "(2 :: nat) ^ 53 \<le> 2 ^ e" by (intro power_increasing) auto
    with b assms(2) show False by linarith
  qed
  have low: "2 ^ 52 \<le> n * 2 ^ (52 - e)"
  proof -
    have "(2 :: nat) ^ 52 = 2 ^ e * 2 ^ (52 - e)" using e by (simp flip: power_add)
    also have "\<dots> \<le> n * 2 ^ (52 - e)" by (rule mult_le_mono1) (rule b(1))
    finally show ?thesis .
  qed
  have high: "n * 2 ^ (52 - e) < 2 * 2 ^ 52"
  proof -
    have "n * 2 ^ (52 - e) < 2 ^ (e + 1) * 2 ^ (52 - e)" using b(2) by simp
    also have "\<dots> = 2 ^ 53" using e by (simp flip: power_add)
    finally show ?thesis by simp
  qed
  define f where "f = n * 2 ^ (52 - e) - 4503599627370496"
  have f: "f < 4503599627370496" "4503599627370496 + f = n * 2 ^ (52 - e)"
    using low high by (simp_all add: f_def)
  define w where "w = f64_of_nat n"
  have u: "unat w = (e + 1023) * 4503599627370496 + f"
    using assms(1) e f f64_parts [of "e + 1023" f] by (simp add: w_def f64_of_nat_def e_def [symmetric] f_def Let_def)
  have "unat w mod 4503599627370496 = f"
    unfolding u mod_mult_self3 using f(1) by simp
  moreover have "unat w div 4503599627370496 = e + 1023"
    unfolding u using f(1) by (subst div_mult_self3) simp_all
  ultimately have ex: "f64_exponent w = e + 1023" "f64_fraction w = f"
    using e by (simp_all add: f64_exponent_def f64_fraction_def)
  have "unat w < 9223372036854775808" using u f(1) e by simp
  moreover have "0 < unat w" using u by simp
  ultimately have nz: "\<not> is_zero w" "unat w < 9223372036854775808" by (simp_all add: is_zero_def)
  have "f64_integer w = Some n"
    using nz ex e f(2) by (simp add: f64_integer_def Let_def)
  moreover have "is_finite w" using ex e by (simp add: is_finite_def)
  ultimately show "f64_integer (f64_of_nat n) = Some n" "is_finite (f64_of_nat n)"
    by (simp_all add: w_def)
qed

lemma level_parse:
  assumes "2 \<le> unat l" "unat l \<le> MAX_LEVEL"
    and "from_slice X bs = Some (JObject [(''level'', JNumber (PosInt l))])"
  shows "payload_parse X bs = Inr (JObject [(''level'', JNumber (Float (f64_of_nat (unat l))))])"
proof -
  have "is_finite (f64_of_nat (unat l))"
    using assms(1,2) by (intro f64_of_nat_exact) (simp_all add: MAX_LEVEL_def)
  with assms(3) show ?thesis by (simp add: payload_parse_def from_f64_def map_err_def)
qed

section \<open>Properties\<close>

text \<open>A level header is accepted exactly when it is the plain decimal spelling of a level from 1
  to the largest integer a JavaScript number names exactly.\<close>

theorem parse_header_iff:
  "parse_header value = Inr l \<longleftrightarrow> value = show_nat (unat l) \<and> 1 \<le> unat l \<and> unat l \<le> MAX_LEVEL"
proof
  assume p: "parse_header value = Inr l"
  then have v: "value \<noteq> []" "list_all is_ascii_digit value" "hd value \<noteq> CHR ''0''"
    "read_nat value \<le> MAX_LEVEL" "l = of_nat (read_nat value)"
    by (auto simp: parse_header_def split: if_splits)
  then have u: "unat l = read_nat value" by (simp add: MAX_LEVEL_def unat_of_nat_64)
  have "plain_decimal value" using v by (simp add: plain_decimal_def)
  from show_read_nat [OF this] read_nat_pos [OF v(1-3)] u v(4)
  show "value = show_nat (unat l) \<and> 1 \<le> unat l \<and> unat l \<le> MAX_LEVEL" by simp
next
  assume *: "value = show_nat (unat l) \<and> 1 \<le> unat l \<and> unat l \<le> MAX_LEVEL"
  then have "unat l < 10 ^ 16" by (simp add: MAX_LEVEL_def)
  then have "length value \<le> 16" using * show_nat_length [of 16 "unat l"] by simp
  moreover have "hd value \<noteq> CHR ''0''" using * hd_show_nat [of "unat l"] by simp
  moreover have "value \<noteq> []" "list_all is_ascii_digit value" using * show_nat_digits by auto
  ultimately show "parse_header value = Inr l"
    using * by (simp add: parse_header_def MAX_LEVEL_def)
qed

text \<open>A level unit written for a level is read back as that level, although the number passes
  through a 64-bit float on the way, when the parser reads the two texts and the base64 codec
  is a round trip.\<close>

theorem level_roundtrip:
  assumes "level_value X l = Inr v"
    and "from_slice X (as_bytes (level_text l)) = Some (JObject [(''level'', JNumber (PosInt l))])"
    and "\<And>c. canonicalize X (as_bytes (level_text l)) = Inr c \<Longrightarrow>
      from_slice X c = Some (JObject [(''level'', JNumber (PosInt l))]) \<and> b64_decode X (b64_encode X c) = Some c"
  shows "level X v = Some l"
proof -
  let ?n = "JObject [(''level'', JNumber (Float (f64_of_nat (unat l))))]"
  from assms(1) obtain c where l: "2 \<le> unat l" "unat l \<le> MAX_LEVEL"
    and c: "canonicalize X (as_bytes (level_text l)) = Inr c" "length c \<le> MAX_INLINE_UNIT_BYTES"
    and v: "v = Inline (b64_encode X c)"
    by (auto simp: level_value_def unit_value_inline_def bindE_Inr not_less split: if_splits)
  note p = level_parse [OF l]
  have "payload_encode X ?n = Inr c" using c(1) p [OF assms(2)] by (simp add: canonicalize_def)
  with p [of X c] assms(3) [OF c(1)] c have "validated_inline X v = Inr (Some (c, ?n))"
    by (auto simp: v inline_Inr)
  moreover have "f64_integer (f64_of_nat (unat l)) = Some (unat l)"
    using l by (intro f64_of_nat_exact) (simp_all add: MAX_LEVEL_def)
  ultimately show ?thesis using l by (simp add: level_def as_f64_def)
qed

lemma sample_b64: "map of_char (map (\<lambda>b. char_of (unat (b :: u8))) bs) = bs"
proof -
  have "(of_char (char_of (unat b)) :: u8) = b" for b :: u8
  proof -
    have "(of_char (char_of (unat b)) :: u8) = of_nat (of_char (char_of (unat b)))"
      by (simp only: of_nat_of_char)
    also have "\<dots> = b" using unat_less_8 [of b] by simp
    finally show ?thesis .
  qed
  then show ?thesis by (induction bs) simp_all
qed

lemma level_roundtrip_witness:
  "let X = sample_ext (JObject [(''level'', JNumber (PosInt 7))]) in
   case level_value X 7 of Inl _ \<Rightarrow> False | Inr v \<Rightarrow> level X v = Some 7"
proof -
  let ?X = "sample_ext (JObject [(''level'', JNumber (PosInt 7))])"
  have parse: "from_slice ?X bs = Some (JObject [(''level'', JNumber (PosInt 7))])" for bs
    by (simp add: sample_ext_def)
  have fin: "is_finite (f64_of_nat 7)" by (intro f64_of_nat_exact) simp_all
  have written: "js_text ?X (JObject [(''level'', JNumber (Float (f64_of_nat 7)))]) 0
      = Some (as_bytes (''{'' @ [CHR 0x22] @ ''level'' @ [CHR 0x22] @ '':0}''))"
    using fin by (simp add: number_text_def as_f64_def sample_ext_def quote_def join_def separator_def as_bytes_def)
  have "payload_parse ?X (as_bytes (level_text 7))
      = Inr (JObject [(''level'', JNumber (Float (f64_of_nat 7)))])"
    using level_parse [of 7 ?X "as_bytes (level_text 7)"] parse by (simp add: MAX_LEVEL_def)
  then have "canonicalize ?X (as_bytes (level_text 7))
      = Inr (as_bytes (''{'' @ [CHR 0x22] @ ''level'' @ [CHR 0x22] @ '':0}''))"
    using iffD2 [OF payload_encode_Inr written] by (simp add: canonicalize_def)
  then obtain v where v: "level_value ?X 7 = Inr v"
    by (simp add: level_value_def MAX_LEVEL_def unit_value_inline_def MAX_INLINE_UNIT_BYTES_def)
  have "level ?X v = Some 7"
    by (rule level_roundtrip [OF v]) (use sample_b64 in \<open>simp_all add: sample_ext_def as_bytes_def\<close>)
  then show ?thesis by (simp add: v)
qed

end
