(* ===== verification/Lww_Wire.thy ===== *)
theory Lww_Wire
  imports Unit
begin

text \<open>
  \<^verbatim>\<open>crates/sync-wire/src/lww.rs\<close>: the requests and replies of the last-writer-wins protocol,
  their validation, and what the derived serialization makes of the ones that are digested or
  read from a request body. A \<^verbatim>\<open>DecimalU64\<close> is a 64-bit word, spelled in decimal.
\<close>

section \<open>Registration\<close>

record new_device_claim_request =
  ndc_writer_id :: string
  ndc_authorization_id :: string
  ndc_former_token :: "string option"

definition claim_request_value :: "new_device_claim_request \<Rightarrow> json" where
  "claim_request_value r = struct_value
     [(''writerId'', JString (ndc_writer_id r)), (''authorizationId'', JString (ndc_authorization_id r)),
      (''formerToken'', opt_value (ndc_former_token r))]"

definition claim_request_from :: "json \<Rightarrow> new_device_claim_request option" where
  "claim_request_from v =
     (case struct_fields [''writerId'', ''authorizationId'', ''formerToken''] v of
        Some [w, a, t] \<Rightarrow>
          (case (as_string w, as_string a, as_opt_string t) of
             (Some w, Some a, Some t) \<Rightarrow>
               Some \<lparr>ndc_writer_id = w, ndc_authorization_id = a, ndc_former_token = t\<rparr>
           | _ \<Rightarrow> None)
      | _ \<Rightarrow> None)"

definition claim_request_validate :: "new_device_claim_request \<Rightarrow> unit result" where
  "claim_request_validate r =
     bindE (validate_writer_id (ndc_writer_id r)) (\<lambda>_.
     bindE (validate_id (ndc_authorization_id r)) (\<lambda>_.
     if (case ndc_former_token r of
           None \<Rightarrow> False
         | Some token \<Rightarrow> length token \<noteq> 64 \<or> \<not> list_all is_ascii_hexdigit token)
     then Inl (WireError ''invalid-former-token'') else Inr ()))"

definition claim_request_digest :: "ext \<Rightarrow> new_device_claim_request \<Rightarrow> string result" where
  "claim_request_digest X r =
     bindE (canonical_encode X (claim_request_value r)) (\<lambda>bs. Inr (sha256 X bs))"

record new_device_claim_receipt =
  ncr_authorization_id :: string
  ncr_writer_id :: string
  ncr_device_id :: string
  ncr_library_id :: string
  ncr_epoch :: string
  former_credential_inactive :: bool

record new_device_claim_status =
  ncs_request_digest :: string
  ncs_receipt :: new_device_claim_receipt

record new_device_claim_state =
  ncst_claim :: "new_device_claim_status option"
  ncst_used :: bool

record writer_binding_request =
  wbr_writer_id :: string

definition writer_binding_validate :: "writer_binding_request \<Rightarrow> unit result" where
  "writer_binding_validate r = validate_writer_id (wbr_writer_id r)"

section \<open>Pushes\<close>

definition stamp_value :: "stamp \<Rightarrow> json" where
  "stamp_value s = struct_value
     [(''physicalMs'', JString (decimal_string (physical_ms s))),
      (''logical'', JString (serialize_logical (logical s))), (''writerId'', JString (writer_id s))]"

definition ok_value :: "'a result \<Rightarrow> 'a option" where
  "ok_value m = (case m of Inl _ \<Rightarrow> None | Inr x \<Rightarrow> Some x)"

definition stamp_from :: "json \<Rightarrow> stamp option" where
  "stamp_from v =
     (case struct_fields [''physicalMs'', ''logical'', ''writerId''] v of
        Some [p, l, w] \<Rightarrow>
          (case (Option.bind (as_string p) (\<lambda>s. ok_value (decimal_u64 s)),
                 Option.bind (as_string l) (\<lambda>s. ok_value (deserialize_logical s)), as_string w) of
             (Some p, Some l, Some w) \<Rightarrow>
               (case validate_writer_id w of Inl _ \<Rightarrow> None | Inr _ \<Rightarrow> Some (Stamp p l w))
           | _ \<Rightarrow> None)
      | _ \<Rightarrow> None)"

record unit_change =
  uc_key :: unit_key
  uc_stamp :: stamp
  uc_value :: unit_value

definition change_value :: "unit_change \<Rightarrow> json" where
  "change_value c = struct_value
     [(''key'', JString (key_str (uc_key c))), (''stamp'', stamp_value (uc_stamp c)),
      (''value'', unit_value_value (uc_value c))]"

definition change_from :: "ext \<Rightarrow> json \<Rightarrow> unit_change option" where
  "change_from X v =
     (case struct_fields [''key'', ''stamp'', ''value''] v of
        Some [k, Some s, Some u] \<Rightarrow>
          (case (Option.bind (as_string k) (\<lambda>k. ok_value (unit_key_try_from X k)), stamp_from s,
                 unit_value_from u) of
             (Some k, Some s, Some u) \<Rightarrow> Some \<lparr>uc_key = k, uc_stamp = s, uc_value = u\<rparr>
           | _ \<Rightarrow> None)
      | _ \<Rightarrow> None)"

definition change_validate :: "ext \<Rightarrow> unit_change \<Rightarrow> unit result" where
  "change_validate X c =
     bindE (stamp_validate (uc_stamp c)) (\<lambda>_. unit_value_validate X (uc_value c))"

record push_request =
  pr_library_id :: string
  pr_writer_id :: string
  pr_operation_id :: string
  pr_changes :: "unit_change list"

definition push_value :: "push_request \<Rightarrow> json" where
  "push_value r = struct_value
     [(''libraryId'', JString (pr_library_id r)), (''writerId'', JString (pr_writer_id r)),
      (''operationId'', JString (pr_operation_id r)),
      (''changes'', JArray (map change_value (pr_changes r)))]"

definition push_from :: "ext \<Rightarrow> json \<Rightarrow> push_request option" where
  "push_from X v =
     (case struct_fields [''libraryId'', ''writerId'', ''operationId'', ''changes''] v of
        Some [l, w, i, cs] \<Rightarrow>
          (case (as_string l, as_string w, as_string i, as_list (change_from X) cs) of
             (Some l, Some w, Some i, Some cs) \<Rightarrow>
               Some \<lparr>pr_library_id = l, pr_writer_id = w, pr_operation_id = i, pr_changes = cs\<rparr>
           | _ \<Rightarrow> None)
      | _ \<Rightarrow> None)"

definition push_step :: "ext \<Rightarrow> string list \<Rightarrow> unit_change \<Rightarrow> string list result" where
  "push_step X seen c =
     bindE (change_validate X c) (\<lambda>_.
     if key_str (uc_key c) \<in> set seen then Inl (WireError ''duplicate-unit-key'')
     else Inr (key_str (uc_key c) # seen))"

definition push_validate :: "ext \<Rightarrow> push_request \<Rightarrow> unit result" where
  "push_validate X r =
     bindE (validate_id (pr_library_id r)) (\<lambda>_.
     bindE (validate_id (pr_operation_id r)) (\<lambda>_.
     bindE (validate_writer_id (pr_writer_id r)) (\<lambda>_.
     if pr_changes r = [] then Inl (WireError ''empty-push'')
     else bindE (foldE (push_step X) [] (pr_changes r)) (\<lambda>_. Inr ()))))"

definition push_digest :: "ext \<Rightarrow> push_request \<Rightarrow> string result" where
  "push_digest X r = bindE (canonical_encode X (push_value r)) (\<lambda>bs. Inr (sha256 X bs))"

record push_receipt =
  rc_operation_id :: string
  rc_seq :: u64
  accepted_keys :: "unit_key list"
  rc_server_time_ms :: u64

datatype operation_receipt =
    Accepted string push_receipt
  | Rejected string string string u64

fun body_digest :: "operation_receipt \<Rightarrow> string" where
  "body_digest (Accepted digest _) = digest"
| "body_digest (Rejected _ digest _ _) = digest"

record cancel_operation_request =
  cor_body_digest :: string

definition cancel_validate :: "cancel_operation_request \<Rightarrow> unit result" where
  "cancel_validate r = validate_hash (cor_body_digest r)"

section \<open>Reads\<close>

record journal_item =
  ji_seq :: u64
  ji_key :: unit_key
  ji_stamp :: stamp
  ji_value :: unit_value

record changes_page =
  through_seq :: u64
  cp_journal_floor :: u64
  cp_items :: "journal_item list"
  next_after :: u64

record journal_floor_reply =
  jf_error :: string
  jf_journal_floor :: u64
  jf_latest_seq :: u64

record state_pin =
  sp_pin_id :: string
  sp_start_seq :: u64
  sp_expires_at_ms :: u64
  sp_unit_count :: u64

record state_page =
  pg_pin_id :: string
  pg_start_seq :: u64
  pg_items :: "unit_change list"
  pg_next_key :: "unit_key option"

record ack_request =
  ack_seq :: u64

record time_sample =
  ts_server_time_ms :: u64
  ts_precision_ms :: u64

datatype seq_notification = SeqNotification u64

section \<open>Lemmas\<close>

lemma free_values [simp]:
  "number_free (stamp_value s)" "wf_value (stamp_value s)"
  "number_free (change_value c)" "wf_value (change_value c)"
  "number_free (claim_request_value r)" "wf_value (claim_request_value r)"
  by (simp_all add: stamp_value_def change_value_def claim_request_value_def
      struct_value_free struct_value_wf)

lemma push_value_free [simp]: "number_free (push_value r)" "wf_value (push_value r)"
  by (simp_all add: push_value_def struct_value_free struct_value_wf list_all_iff)

lemma decimal_ok [simp]: "decimal_u64 (decimal_string n) = Inr n"
  using decimal_u64_Inr [of "decimal_string n" n] by (simp add: decimal_string_def show_nat_plain)

lemma logical_ok [simp]: "deserialize_logical (serialize_logical n) = Inr n"
proof -
  have "decimal_u64 (show_nat (unat n)) = Inr (ucast n)"
    by (simp add: decimal_u64_Inr show_nat_plain)
  moreover have "ucast (ucast n :: u64) = n" using unat_less_32 [of n]
    by (simp add: word_unat_eq_iff unsigned_ucast_eq take_bit_nat_eq_self take_bit_word_eq_self)
  ultimately show ?thesis
    using unat_less_32 [of n] by (simp add: deserialize_logical_def serialize_logical_def)
qed

lemma claim_request_from_value [simp]: "claim_request_from (claim_request_value r) = Some r"
  unfolding claim_request_from_def claim_request_value_def
  by (subst struct_fields_value) simp_all

lemma stamp_from_value:
  "stamp_from (stamp_value s) = (if stamp_validate s = Inr () then Some s else None)"
proof -
  have "struct_fields [''physicalMs'', ''logical'', ''writerId''] (stamp_value s)
      = Some [Some (JString (decimal_string (physical_ms s))),
          Some (JString (serialize_logical (logical s))), Some (JString (writer_id s))]"
    unfolding stamp_value_def by (subst struct_fields_value) simp_all
  then show ?thesis
    by (cases "validate_writer_id (writer_id s)")
      (simp_all add: stamp_from_def ok_value_def stamp_validate_def)
qed

definition change_ok :: "ext \<Rightarrow> unit_change \<Rightarrow> bool" where
  "change_ok X c \<longleftrightarrow> unit_key_try_from X (key_str (uc_key c)) = Inr (uc_key c)
     \<and> stamp_validate (uc_stamp c) = Inr ()"

lemma change_from_value: "change_from X (change_value c) = (if change_ok X c then Some c else None)"
proof -
  have f: "struct_fields [''key'', ''stamp'', ''value''] (change_value c)
      = Some [Some (JString (key_str (uc_key c))), Some (stamp_value (uc_stamp c)),
          Some (unit_value_value (uc_value c))]"
    unfolding change_value_def by (subst struct_fields_value) simp_all
  have key: "unit_key_try_from X (key_str k) = Inr k' \<Longrightarrow> k' = k" for k k'
    by (cases k) (auto simp: unit_key_Inr)
  show ?thesis
    unfolding change_from_def f change_ok_def
    by (cases "unit_key_try_from X (key_str (uc_key c))")
      (auto simp: ok_value_def stamp_from_value dest: key)
qed

lemma push_loop:
  "foldE (push_step X) seen cs = Inr seen' \<longleftrightarrow>
     list_all (\<lambda>c. change_validate X c = Inr ()) cs
     \<and> distinct (map (\<lambda>c. key_str (uc_key c)) cs) \<and> set (map (\<lambda>c. key_str (uc_key c)) cs) \<inter> set seen = {}
     \<and> seen' = rev (map (\<lambda>c. key_str (uc_key c)) cs) @ seen"
  by (induction cs arbitrary: seen) (auto simp: bindE_Inr push_step_def)

section \<open>Properties\<close>

text \<open>Validation of a push accepts exactly the pushes with well-formed identifiers and writer, at
  least one change, only valid changes, and no unit key twice.\<close>

theorem push_validate_iff:
  "push_validate X r = Inr () \<longleftrightarrow>
     validate_id (pr_library_id r) = Inr () \<and> validate_id (pr_operation_id r) = Inr ()
     \<and> validate_writer_id (pr_writer_id r) = Inr () \<and> pr_changes r \<noteq> []
     \<and> list_all (\<lambda>c. stamp_validate (uc_stamp c) = Inr () \<and> unit_value_validate X (uc_value c) = Inr ())
         (pr_changes r)
     \<and> distinct (map (\<lambda>c. key_str (uc_key c)) (pr_changes r))"
  by (auto simp: push_validate_def push_loop bindE_Inr change_validate_def list_all_iff split: if_splits)

text \<open>A push request read from the value it is written as is itself, exactly when its unit keys
  are well-formed and its stamps name well-formed writers: reading checks both.\<close>

theorem push_roundtrip:
  "push_from X (push_value r) = Some s \<longleftrightarrow> s = r \<and> list_all (change_ok X) (pr_changes r)"
proof -
  have f: "struct_fields [''libraryId'', ''writerId'', ''operationId'', ''changes''] (push_value r)
      = Some [Some (JString (pr_library_id r)), Some (JString (pr_writer_id r)),
          Some (JString (pr_operation_id r)), Some (JArray (map change_value (pr_changes r)))]"
    unfolding push_value_def by (subst struct_fields_value) simp_all
  have "those (map (change_from X) (map change_value cs)) = (if list_all (change_ok X) cs then Some cs else None)"
    for cs
    by (induction cs) (simp_all add: change_from_value)
  then show ?thesis
    unfolding push_from_def f by (auto simp: as_list_def)
qed

end
