(* ===== verification/Order.thy ===== *)
theory Order
  imports Stamp Ordered_Map "HOL-Library.Product_Lexorder" "HOL-Library.Multiset"
begin

text \<open>
  \<^verbatim>\<open>crates/sync-wire/src/order.rs\<close>: the order in which every device shows a list whose
  stored order may be stale. Listed live records come first, in the stored order; records the
  stored order does not name follow by creation stamp and then by id.
\<close>

record live_record =
  record_id :: string
  creation_stamp :: stamp

definition live_records :: "live_record list \<Rightarrow> string set \<Rightarrow> (string \<times> live_record) list" where
  "live_records live retired =
     bt_collect (map (\<lambda>r. (record_id r, r)) (filter (\<lambda>r. record_id r \<notin> retired) live))"

definition take_listed ::
  "(string \<times> live_record) list \<Rightarrow> string list \<Rightarrow> string set \<times> string list" where
  "take_listed records ordered_ids =
     foldl (\<lambda>(seen, result) i.
         if map_of records i \<noteq> None \<and> i \<notin> seen then (insert i seen, result @ [i]) else (seen, result))
       ({}, []) ordered_ids"

definition read_order :: "string list \<Rightarrow> live_record list \<Rightarrow> string set \<Rightarrow> string list" where
  "read_order ordered_ids live retired =
     (let records = live_records live retired;
          (seen, result) = take_listed records ordered_ids;
          unlisted = sort_key (\<lambda>r. (creation_stamp r, record_id r))
            (filter (\<lambda>r. record_id r \<notin> seen) (map snd records))
      in result @ map record_id unlisted)"

section \<open>Lemmas\<close>

text \<open>The first occurrence of every element, in order.\<close>

definition first_occurrences :: "'a list \<Rightarrow> 'a list" where
  "first_occurrences xs = rev (remdups (rev xs))"

lemma first_occurrences_snoc:
  "first_occurrences (xs @ [x]) = (if x \<in> set xs then first_occurrences xs else first_occurrences xs @ [x])"
  by (simp add: first_occurrences_def)

lemma set_first_occurrences [simp]: "set (first_occurrences xs) = set xs"
  by (simp add: first_occurrences_def)

lemma distinct_first_occurrences [simp]: "distinct (first_occurrences xs)"
  by (simp add: first_occurrences_def)

lemma live_records_inv [simp]: "bt_inv (live_records live retired)"
  by (simp add: live_records_def)

lemma live_record_key: "map_of (live_records live retired) i = Some r \<Longrightarrow>
    r \<in> set live \<and> record_id r = i \<and> i \<notin> retired"
  by (auto simp: live_records_def bt_collect_lookup dest!: map_of_SomeD)

lemma live_record_ids:
  "map_of (live_records live retired) i \<noteq> None \<longleftrightarrow> (\<exists>r \<in> set live. record_id r = i \<and> i \<notin> retired)"
  by (force simp: live_records_def bt_collect_lookup map_of_eq_None_iff)

lemma live_records_fst: "(i, r) \<in> set (live_records live retired) \<Longrightarrow> i = record_id r"
  using live_record_key [of live retired i r] bt_inv_distinct [OF live_records_inv]
  by (metis map_of_is_SomeI)

lemma map_fst_live_records:
  "map record_id (map snd (live_records live retired)) = map fst (live_records live retired)"
  using live_records_fst [of _ _ live retired] by (auto simp: map_eq_conv)

lemma take_listed_eq:
  "take_listed records ids = (set (filter (\<lambda>i. map_of records i \<noteq> None) ids),
     first_occurrences (filter (\<lambda>i. map_of records i \<noteq> None) ids))"
proof (induction ids rule: rev_induct)
  case (snoc i ids)
  have "take_listed records (ids @ [i]) =
      (case take_listed records ids of (seen, result) \<Rightarrow>
        if map_of records i \<noteq> None \<and> i \<notin> seen then (insert i seen, result @ [i]) else (seen, result))"
    by (simp add: take_listed_def split: prod.split)
  with snoc show ?case by (auto simp: first_occurrences_snoc)
qed (simp add: take_listed_def first_occurrences_def)

lemma read_order_parts:
  "read_order ids live retired =
     first_occurrences (filter (\<lambda>i. map_of (live_records live retired) i \<noteq> None) ids)
     @ map record_id (sort_key (\<lambda>r. (creation_stamp r, record_id r))
         (filter (\<lambda>r. record_id r \<notin> set ids) (map snd (live_records live retired))))"
proof -
  have "filter (\<lambda>r. record_id r \<notin> set (filter (\<lambda>i. map_of (live_records live retired) i \<noteq> None) ids))
      (map snd (live_records live retired))
    = filter (\<lambda>r. record_id r \<notin> set ids) (map snd (live_records live retired))"
  proof (rule filter_cong [OF refl])
    fix r assume "r \<in> set (map snd (live_records live retired))"
    then obtain i where "(i, r) \<in> set (live_records live retired)" by auto
    then have "map_of (live_records live retired) (record_id r) \<noteq> None"
      using live_records_fst [of i r live retired] by (auto simp: map_of_eq_None_iff intro: rev_image_eqI)
    then show "(record_id r \<notin> set (filter (\<lambda>i. map_of (live_records live retired) i \<noteq> None) ids))
        = (record_id r \<notin> set ids)" by simp
  qed
  then show ?thesis by (simp add: read_order_def take_listed_eq Let_def)
qed

lemma unlisted_ids:
  "set (map record_id (filter (\<lambda>r. record_id r \<notin> set ids) (map snd (live_records live retired))))
    = {i. map_of (live_records live retired) i \<noteq> None \<and> i \<notin> set ids}"
proof -
  let ?L = "live_records live retired"
  have "set (map record_id (filter (\<lambda>r. record_id r \<notin> set ids) (map snd ?L)))
      = fst ` {p \<in> set ?L. fst p \<notin> set ids}"
  proof (intro equalityI subsetI)
    fix i assume "i \<in> set (map record_id (filter (\<lambda>r. record_id r \<notin> set ids) (map snd ?L)))"
    then obtain k r where "(k, r) \<in> set ?L" "i = record_id r" "record_id r \<notin> set ids" by auto
    with live_records_fst [of k r] show "i \<in> fst ` {p \<in> set ?L. fst p \<notin> set ids}"
      by (intro image_eqI [of _ _ "(k, r)"]) auto
  next
    fix i assume "i \<in> fst ` {p \<in> set ?L. fst p \<notin> set ids}"
    then obtain r where r: "(i, r) \<in> set ?L" "i \<notin> set ids" by auto
    then have "record_id r = i" "r \<in> set (map snd ?L)" using live_records_fst [of i r] by force+
    with r(2) show "i \<in> set (map record_id (filter (\<lambda>r. record_id r \<notin> set ids) (map snd ?L)))"
      by auto
  qed
  also have "\<dots> = {i. map_of ?L i \<noteq> None \<and> i \<notin> set ids}"
    by (auto simp: map_of_eq_None_iff)
  finally show ?thesis .
qed

lemma unlisted_distinct:
  "distinct (map record_id (sort_key f (filter P (map snd (live_records live retired)))))"
proof -
  have "distinct (map record_id (map snd (live_records live retired)))"
    unfolding map_fst_live_records by (rule bt_inv_distinct) simp
  then have "distinct (map record_id (filter P (map snd (live_records live retired))))"
    by (rule distinct_map_filter)
  then show ?thesis by (simp add: distinct_map)
qed

section \<open>Properties\<close>

text \<open>The displayed order contains each live record that is not retired exactly once, and
  nothing else; the records the stored order names keep their stored order and come before all
  others; the others are sorted by creation stamp and then by id.\<close>

theorem read_order_spec:
  "let shown = read_order ids live retired;
       stamp_of = (\<lambda>i. map_option creation_stamp (map_of (live_records live retired) i)) in
     distinct shown
     \<and> set shown = {record_id r |r. r \<in> set live} - retired
     \<and> shown = filter (\<lambda>i. i \<in> set ids) shown @ filter (\<lambda>i. i \<notin> set ids) shown
     \<and> filter (\<lambda>i. i \<in> set ids) shown = first_occurrences (filter (\<lambda>i. i \<in> set shown) ids)
     \<and> sorted_wrt (\<lambda>i j. (the (stamp_of i), i) \<le> (the (stamp_of j), j))
         (filter (\<lambda>i. i \<notin> set ids) shown)"
proof -
  let ?L = "live_records live retired"
  let ?shown = "read_order ids live retired"
  let ?stamp = "\<lambda>i. map_option creation_stamp (map_of ?L i)"
  define listed where "listed = first_occurrences (filter (\<lambda>i. map_of ?L i \<noteq> None) ids)"
  define sorted_recs where "sorted_recs = sort_key (\<lambda>r. (creation_stamp r, record_id r))
         (filter (\<lambda>r. record_id r \<notin> set ids) (map snd ?L))"
  have shown: "?shown = listed @ map record_id sorted_recs"
    by (simp add: read_order_parts listed_def sorted_recs_def)
  have listed: "set listed = {i. map_of ?L i \<noteq> None \<and> i \<in> set ids}" "distinct listed"
    by (auto simp: listed_def)
  have rest: "set (map record_id sorted_recs) = {i. map_of ?L i \<noteq> None \<and> i \<notin> set ids}"
    "distinct (map record_id sorted_recs)"
    using unlisted_ids [of ids live retired] unlisted_distinct by (simp_all add: sorted_recs_def)
  have keys: "set ?shown = {i. map_of ?L i \<noteq> None}"
    unfolding shown set_append listed rest by auto
  have set: "set ?shown = {record_id r |r. r \<in> set live} - retired"
    unfolding keys live_record_ids by auto
  have dist: "distinct ?shown" unfolding shown distinct_append listed rest using listed rest by auto
  have parts: "filter (\<lambda>i. i \<in> set ids) ?shown = listed"
    "filter (\<lambda>i. i \<notin> set ids) ?shown = map record_id sorted_recs"
    unfolding shown filter_append using listed rest
    by (auto simp: filter_id_conv filter_empty_conv simp del: set_map list.set_map)
  have stamps: "?stamp (record_id r) = Some (creation_stamp r)" if "r \<in> set sorted_recs" for r
  proof -
    from that obtain i where "(i, r) \<in> set ?L" by (auto simp: sorted_recs_def)
    then show ?thesis
      using live_records_fst [of i r] bt_inv_distinct [OF live_records_inv [of live retired]] by simp
  qed
  have "sorted (map (\<lambda>r. (creation_stamp r, record_id r)) sorted_recs)"
    unfolding sorted_recs_def by (rule sorted_sort_key)
  then have "sorted_wrt (\<lambda>i j. (the (?stamp i), i) \<le> (the (?stamp j), j)) (map record_id sorted_recs)"
    unfolding sorted_wrt_map by (rule sorted_wrt_mono_rel [rotated]) (simp add: stamps)
  with dist set parts shown keys listed_def show ?thesis by (simp add: Let_def)
qed

text \<open>The displayed order does not depend on the order in which the live records were
  collected: two devices that hold the same records show the same list.\<close>

theorem read_order_order_free:
  assumes "mset live = mset live'" and "distinct (map record_id live)"
  shows "read_order ids live retired = read_order ids live' retired"
proof -
  let ?kv = "\<lambda>l. map (\<lambda>r. (record_id r, r)) (filter (\<lambda>r. record_id r \<notin> retired) l)"
  have "mset (map record_id live) = mset (map record_id live')" using assms(1) by (simp add: mset_map)
  then have "distinct (map record_id live')" using assms(2) mset_eq_imp_distinct_iff by blast
  then have ids: "distinct (map record_id l)" if "l \<in> {live, live'}" for l
    using that assms(2) by blast
  have dist: "distinct (map fst (?kv l))" if "l \<in> {live, live'}" for l
    using distinct_map_filter [OF ids [OF that]] by (simp add: o_def)
  have "set live = set live'" by (rule mset_eq_setD [OF assms(1)])
  then have "set (?kv live) = set (?kv live')" by simp
  then have eq: "set (rev (?kv live)) = set (rev (?kv live'))" by (simp only: set_rev)
  have "distinct (map fst (rev (?kv l)))" if "l \<in> {live, live'}" for l
    unfolding rev_map [symmetric] distinct_rev by (rule dist [OF that])
  with eq have "map_of (rev (?kv live)) = map_of (rev (?kv live'))"
    by (intro iffD2 [OF map_of_inject_set]) blast+
  then have "live_records live retired = live_records live' retired"
    unfolding live_records_def bt_collect_def by (intro bt.collect_eq) simp
  then show ?thesis by (simp add: read_order_parts)
qed

definition sample_live :: "live_record list" where
  "sample_live = [\<lparr>record_id = ''b'', creation_stamp = Stamp 2 0 ''w''\<rparr>,
     \<lparr>record_id = ''a'', creation_stamp = Stamp 1 0 ''w''\<rparr>,
     \<lparr>record_id = ''c'', creation_stamp = Stamp 1 0 ''w''\<rparr>]"

lemma read_order_order_free_witness:
  "read_order [''c''] sample_live {} = read_order [''c''] (rev sample_live) {}"
  by (rule read_order_order_free) (simp_all add: sample_live_def)

end
