(* ===== verification/Server_State.thy ===== *)
theory Server_State
  imports Library_Format Lww_Wire "HOL-Library.Product_Lexorder"
begin

text \<open>
  \<^verbatim>\<open>server/sync/src/lib.rs\<close> and \<^verbatim>\<open>server/sync/src/store/mod.rs\<close>: errors of the server, the
  tables of \<^verbatim>\<open>store/schema.rs\<close> that carry devices, units, the journal and operations, and the
  checks every request starts with. A table is an association list in the order of its primary
  key, or of insertion where the code asks for that; a text column that holds a decimal or a serialized structure is the value it was written
  from, so the branches for rows nobody wrote (\<^verbatim>\<open>corrupt-metadata\<close>) do not occur. Two numbers
  order as their rows do by \<^verbatim>\<open>(length(seq),seq)\<close>, which \<open>Head\<close> proves. Locks are
  taken in sequence; a store that cannot be locked is outside the model.
\<close>

section \<open>Errors\<close>

record server_error =
  err_code :: string
  err_status :: nat
  err_key :: "string option"
  err_floor :: "(u64 \<times> u64) option"

datatype failure = Failure server_error | ServerPanic

type_synonym 'a sresult = "failure + 'a"

definition error_new :: "string \<Rightarrow> nat \<Rightarrow> server_error" where
  "error_new msg status = \<lparr>err_code = msg, err_status = status, err_key = None, err_floor = None\<rparr>"

definition for_key :: "server_error \<Rightarrow> string \<Rightarrow> server_error" where
  "for_key e k = e\<lparr>err_key := Some k\<rparr>"

definition with_floor :: "server_error \<Rightarrow> u64 \<Rightarrow> u64 \<Rightarrow> server_error" where
  "with_floor e floor latest = e\<lparr>err_floor := Some (floor, latest)\<rparr>"

definition error_from_wire :: "string \<Rightarrow> server_error" where
  "error_from_wire msg =
     error_new msg (if msg \<in> {''metadata-too-large'', ''batch-too-large'', ''frame-too-large''}
                     then 413 else 400)"

definition fail :: "string \<Rightarrow> nat \<Rightarrow> 'a sresult" where
  "fail msg status = Inl (Failure (error_new msg status))"

definition fail_key :: "string \<Rightarrow> nat \<Rightarrow> unit_key \<Rightarrow> 'a sresult" where
  "fail_key msg status k = Inl (Failure (for_key (error_new msg status) (key_str k)))"

text \<open>\<^verbatim>\<open>?\<close> on a wire result.\<close>

definition lift_wire :: "'a result \<Rightarrow> 'a sresult" where
  "lift_wire m =
     (case m of
        Inr x \<Rightarrow> Inr x
      | Inl Panic \<Rightarrow> Inl ServerPanic
      | Inl (WireError msg) \<Rightarrow> Inl (Failure (error_from_wire msg)))"

lemma lift_wire_Inr [simp]: "lift_wire m = Inr x \<longleftrightarrow> m = Inr x"
  by (auto simp: lift_wire_def split: sum.splits wire_error.splits)

lemma lift_wire_ok [simp]: "lift_wire (Inr x) = Inr x"
  by (simp add: lift_wire_def)

lemma fail_not_Inr [simp]: "fail msg status \<noteq> Inr x" "fail_key msg status k \<noteq> Inr x"
  by (simp_all add: fail_def fail_key_def)

section \<open>Tables\<close>

definition LIBRARY_FORMAT_MAX_LEVEL :: u64 where "LIBRARY_FORMAT_MAX_LEVEL = 2"

record device_row =
  dr_verifier :: string
  dr_revoked :: bool
  dr_ack :: u64
  dr_name :: string
  dr_request :: "string option"
  dr_last_ack :: "int option"

record device =
  dev_id :: string
  dev_format :: "u64 option"

record operation_row =
  or_digest :: string
  or_receipt :: operation_receipt
  or_status :: "nat option"
  or_key :: "string option"
  or_created :: int

record claim_row =
  cl_authorization :: string
  cl_writer :: string
  cl_digest :: string
  cl_receipt :: new_device_claim_receipt

record pin_row =
  pin_device :: string
  pin_start :: u64
  pin_expires :: int
  pin_units :: "(string \<times> unit_change) list"

record store =
  lib_head :: remote_head
  devices :: "(string \<times> device_row) list"
  writers :: "(string \<times> string) list"
  claims :: "(string \<times> claim_row) list"
  writer_versions :: "((string \<times> string \<times> u64 \<times> u32) \<times> string \<times> int) list"
  units :: "(string \<times> unit_change) list"
  retired :: "(string \<times> unit_change) list"
  unit_parents :: "(string \<times> string) list"
  journal :: "(u64 \<times> journal_item \<times> int) list"
  operations :: "((string \<times> string) \<times> operation_row) list"
  state_pins :: "(string \<times> pin_row) list"
  format_level :: u64
  announced :: u64

definition has :: "('k \<times> 'v) list \<Rightarrow> 'k \<Rightarrow> bool" where
  "has t k \<longleftrightarrow> map_of t k \<noteq> None"

definition seq_number :: "sequence \<Rightarrow> u64 sresult" where
  "seq_number s = ok_or (seq_u64 s) (Failure (error_new ''corrupt-metadata'' 503))"

text \<open>\<^verbatim>\<open>DecimalU64::try_from(sequence)\<close>\<close>

definition seq_decimal :: "sequence \<Rightarrow> u64 sresult" where
  "seq_decimal s = lift_wire (decimal_u64 (seq_str s))"

section \<open>Requests\<close>

definition admit_format :: "u64 \<Rightarrow> u64 option \<Rightarrow> unit sresult" where
  "admit_format library_level declared =
     (if library_level \<le> 1 then Inr ()
      else case declared of
        None \<Rightarrow> fail ''server-incompatible'' 409
      | Some d \<Rightarrow> if d < library_level then fail ''app-update-required'' 409 else Inr ())"

definition device_resumed :: "string \<Rightarrow> device" where
  "device_resumed i = \<lparr>dev_id = i, dev_format = Some LIBRARY_FORMAT_MAX_LEVEL\<rparr>"

definition read_unit :: "store \<Rightarrow> string \<Rightarrow> unit_change option" where
  "read_unit s k = map_of (units s) k"

definition stored_format :: "ext \<Rightarrow> store \<Rightarrow> u64 sresult" where
  "stored_format X s =
     (case read_unit s KEY of
        None \<Rightarrow> Inr 1
      | Some u \<Rightarrow> ok_or (level X (uc_value u)) (Failure (error_new ''corrupt-metadata'' 503)))"

definition active :: "store \<Rightarrow> string \<Rightarrow> bool" where
  "active s i = (case map_of (devices s) i of None \<Rightarrow> False | Some r \<Rightarrow> \<not> dr_revoked r)"

definition require_device :: "ext \<Rightarrow> store \<Rightarrow> device \<Rightarrow> unit sresult" where
  "require_device X s d =
     (if \<not> active s (dev_id d) then fail ''unauthorized'' 401
      else bindE (stored_format X s) (\<lambda>l. admit_format l (dev_format d)))"

definition device_head :: "ext \<Rightarrow> store \<Rightarrow> device \<Rightarrow> remote_head sresult" where
  "device_head X s d = bindE (require_device X s d) (\<lambda>_. Inr (lib_head s))"

definition device_active :: "ext \<Rightarrow> store \<Rightarrow> device \<Rightarrow> string \<Rightarrow> bool sresult" where
  "device_active X s actor i =
     bindE (lift_wire (validate_id i)) (\<lambda>_.
     bindE (require_device X s actor) (\<lambda>_. Inr (active s i)))"

definition announce_head :: "store \<Rightarrow> store" where
  "announce_head s = s\<lparr>announced := announced s + 1\<rparr>"

record device_credential =
  dc_device_id :: string
  dc_library_id :: string
  dc_token :: string

text \<open>\<^verbatim>\<open>INSERT INTO devices\<close>: the primary key and the two unique columns must be free.\<close>

definition insert_device :: "store \<Rightarrow> string \<Rightarrow> device_row \<Rightarrow> store sresult" where
  "insert_device s i r =
     (if has (devices s) i \<or> list_ex (\<lambda>(_, q). dr_verifier q = dr_verifier r) (devices s)
         \<or> (dr_request r \<noteq> None \<and> list_ex (\<lambda>(_, q). dr_request q = dr_request r) (devices s))
      then fail ''metadata-storage'' 503
      else Inr (s\<lparr>devices := bt_insert i r (devices s)\<rparr>))"

text \<open>The fresh token and identifier are arguments.\<close>

definition add_named_device ::
  "ext \<Rightarrow> string \<Rightarrow> string \<Rightarrow> string \<Rightarrow> string option \<Rightarrow> store \<Rightarrow> (device_credential \<times> store) sresult" where
  "add_named_device X token device_id name request s =
     (if (case request of None \<Rightarrow> False | Some q \<Rightarrow> list_ex (\<lambda>(_, r). dr_request r = Some q) (devices s))
      then fail ''registration-already-issued'' 409
      else
        bindE (insert_device s device_id
          \<lparr>dr_verifier = sha256 X (as_bytes token), dr_revoked = False, dr_ack = 0, dr_name = name,
            dr_request = request, dr_last_ack = None\<rparr>) (\<lambda>s'.
        Inr (\<lparr>dc_device_id = device_id, dc_library_id = head_library_id (lib_head s), dc_token = token\<rparr>, s')))"

text \<open>\<^verbatim>\<open>UPDATE devices SET revoked=1 WHERE \<dots>\<close>\<close>

definition revoke_rows :: "(string \<Rightarrow> device_row \<Rightarrow> bool) \<Rightarrow> store \<Rightarrow> store" where
  "revoke_rows P s =
     s\<lparr>devices := map (\<lambda>(i, r). (i, if P i r then r\<lparr>dr_revoked := True\<rparr> else r)) (devices s)\<rparr>"

definition revoke_device :: "string \<Rightarrow> store \<Rightarrow> store sresult" where
  "revoke_device i s =
     bindE (lift_wire (validate_id i)) (\<lambda>_.
     if has (devices s) i then Inr (announce_head (revoke_rows (\<lambda>j _. j = i) s))
     else fail ''device-not-found'' 404)"

definition authenticate :: "ext \<Rightarrow> string \<Rightarrow> string \<Rightarrow> store \<Rightarrow> device sresult" where
  "authenticate X library token s =
     (if length token \<noteq> 64 \<or> \<not> list_all is_ascii_hexdigit token then fail ''unauthorized'' 401
      else if head_library_id (lib_head s) \<noteq> library then fail ''unauthorized'' 401
      else
        (case filter (\<lambda>(_, r). dr_verifier r = sha256 X (as_bytes token) \<and> \<not> dr_revoked r) (devices s) of
           [] \<Rightarrow> fail ''unauthorized'' 401
         | (i, _) # _ \<Rightarrow> Inr \<lparr>dev_id = i, dev_format = None\<rparr>))"

section \<open>Lemmas\<close>

lemma seq_number_from [simp]: "seq_number (sequence_from n) = Inr n"
  by (simp add: seq_number_def)

lemma seq_decimal_from [simp]: "seq_decimal (sequence_from n) = Inr n"
proof -
  have "decimal_u64 (show_nat (unat n)) = Inr n" by (simp add: decimal_u64_Inr show_nat_plain)
  then show ?thesis by (simp add: seq_decimal_def sequence_from_def)
qed

lemma require_device_Inr: "require_device X s d = Inr u \<longleftrightarrow>
    active s (dev_id d) \<and> (\<exists>l. stored_format X s = Inr l \<and> admit_format l (dev_format d) = Inr ())"
  by (auto simp: require_device_def bindE_Inr split: if_splits)

lemma mem_bt_insert_new: "k \<notin> fst ` set xs \<Longrightarrow> set (bt_insert k v xs) = insert (k, v) (set xs)"
  by (induction k v xs rule: bt_insert.induct) auto

lemma filter_bt_insert_only:
  "k \<notin> fst ` set xs \<Longrightarrow> \<forall>p \<in> set xs. \<not> P p \<Longrightarrow>
     filter P (bt_insert k v xs) = (if P (k, v) then [(k, v)] else [])"
  by (induction k v xs rule: bt_insert.induct) auto

lemma filter_map_none: "\<forall>p \<in> set xs. \<not> P (f p) \<Longrightarrow> filter P (map f xs) = []"
  by (induction xs) auto

lemma has_keys: "has t k \<longleftrightarrow> k \<in> fst ` set t"
  by (simp add: has_def map_of_eq_None_iff)

section \<open>Properties\<close>

text \<open>A request is admitted exactly when its device is registered and not revoked and, for a
  library above level 1, the device declared a format level at least as high.\<close>

theorem require_device_iff:
  "require_device X s d = Inr () \<longleftrightarrow>
     active s (dev_id d) \<and>
     (case stored_format X s of
        Inl _ \<Rightarrow> False
      | Inr l \<Rightarrow> l \<le> 1 \<or> (case dev_format d of None \<Rightarrow> False | Some declared \<Rightarrow> l \<le> declared))"
  by (cases "stored_format X s")
    (auto simp: require_device_def admit_format_def not_le not_less split: option.split)

text \<open>Authentication gives a device only for the token it was issued: after a device is added
  its token authenticates it, and once the device is revoked the token no longer does.\<close>

theorem token_lifecycle:
  "case add_named_device X token i name request s of
     Inl _ \<Rightarrow> True
   | Inr (c, s') \<Rightarrow>
       dc_token c = token
       \<and> authenticate X (dc_library_id c) token s' =
           (if length token = 64 \<and> list_all is_ascii_hexdigit token
            then Inr \<lparr>dev_id = i, dev_format = None\<rparr> else fail ''unauthorized'' 401)
       \<and> (case revoke_device i s' of
            Inl _ \<Rightarrow> True
          | Inr s'' \<Rightarrow> (case authenticate X (dc_library_id c) token s'' of Inl _ \<Rightarrow> True | Inr _ \<Rightarrow> False))"
proof (cases "add_named_device X token i name request s")
  case (Inr p)
  obtain c s' where p: "p = (c, s')" by (cases p)
  define r where "r = \<lparr>dr_verifier = sha256 X (as_bytes token), dr_revoked = False, dr_ack = 0,
    dr_name = name, dr_request = request, dr_last_ack = None\<rparr>"
  have new: "i \<notin> fst ` set (devices s)"
    and verifier: "\<forall>(_, q) \<in> set (devices s). dr_verifier q \<noteq> dr_verifier r"
    and s': "s' = s\<lparr>devices := bt_insert i r (devices s)\<rparr>"
    and c: "c = \<lparr>dc_device_id = i, dc_library_id = head_library_id (lib_head s), dc_token = token\<rparr>"
    using Inr p unfolding add_named_device_def r_def [symmetric]
    by (auto simp: insert_device_def has_keys list_ex_iff bindE_Inr split: if_splits)
  define P where "P = (\<lambda>(_ :: string, q :: device_row). dr_verifier q = sha256 X (as_bytes token) \<and> \<not> dr_revoked q)"
  have one: "filter P (devices s') = [(i, r)]"
    using new verifier
    by (subst s', simp, subst filter_bt_insert_only) (auto simp: P_def r_def)
  have none: "filter P (map (\<lambda>(j, q). (j, if j = i then q\<lparr>dr_revoked := True\<rparr> else q)) (devices s')) = []"
    using new verifier
    by (intro filter_map_none) (auto simp: s' P_def r_def mem_bt_insert_new split: if_splits)
  show ?thesis
    using one none
    by (auto simp: Inr p c authenticate_def revoke_device_def revoke_rows_def announce_head_def
        P_def [symmetric] fail_def bindE_def s' split: sum.splits if_splits)
qed simp

end
