(* ===== verification/Server_Push.thy ===== *)
theory Server_Push
  imports Server_State
begin

text \<open>
  \<^verbatim>\<open>server/sync/src/store/lww.rs\<close>, the publication of changes: \<open>push_at\<close> with its checks, the
  decision on every change and the transaction that applies the winners, and the receipts kept
  for a repeated operation. Time and the outcome of \<^verbatim>\<open>prepare_descriptors\<close> are
  arguments. An operation returns its result and the store it leaves; a store left
  unchanged stands for a transaction that was not committed.
\<close>

section \<open>Keys\<close>

text \<open>The keys of requests and rows were made by \<^verbatim>\<open>try_from\<close>, so their components parse and are
  not empty; \<open>None\<close> stands for the panic that therefore does not occur.\<close>

definition kind_of :: "ext \<Rightarrow> unit_key \<Rightarrow> string option" where
  "kind_of X k = (case unit_key_components X k of Inr (c # _) \<Rightarrow> Some c | _ \<Rightarrow> None)"

definition parents :: "ext \<Rightarrow> unit_key \<Rightarrow> unit_key list sresult" where
  "parents X k =
     lift_wire (bindE (unit_key_components X k) (\<lambda>c.
     bindE (index c 0) (\<lambda>kind.
     if kind \<in> {''character'', ''archive''} then
       bindE (index c 1) (\<lambda>i. mapE (unit_key_new X) [[''exists'', ''character'', i]])
     else if kind \<in> {''preset'', ''persona''} then
       bindE (index c 1) (\<lambda>i. mapE (unit_key_new X) [[''exists'', kind, i]])
     else if kind \<in> {''conversation'', ''messages''} then
       bindE (index c 1) (\<lambda>i. bindE (index c 2) (\<lambda>j.
       mapE (unit_key_new X) [[''exists'', ''character'', i], [''exists'', ''conversation'', i, j]]))
     else
       bindE (if kind \<in> {''exists'', ''record'', ''order''} then index c 1 else Inr []) (\<lambda>scope.
       if kind = ''exists'' \<and> scope = ''conversation'' then
         bindE (index c 2) (\<lambda>i. mapE (unit_key_new X) [[''exists'', ''character'', i]])
       else if kind = ''record'' \<and> scope \<noteq> ''plugins'' then
         bindE (index c 2) (\<lambda>i. mapE (unit_key_new X) [[''exists'', scope, i]])
       else if kind = ''order'' \<and> scope = ''conversations'' then
         bindE (index c 2) (\<lambda>i. mapE (unit_key_new X) [[''exists'', ''character'', i]])
       else Inr []))))"

definition is_retirement :: "ext \<Rightarrow> unit_change \<Rightarrow> bool" where
  "is_retirement X c \<longleftrightarrow> kind_of X (uc_key c) = Some ''exists'' \<and> uc_value c = Deleted"

definition is_alias :: "ext \<Rightarrow> unit_key \<Rightarrow> bool" where
  "is_alias X k \<longleftrightarrow> kind_of X k \<in> {Some ''asset'', Some ''inlay''}"

definition alias_object :: "ext \<Rightarrow> string \<Rightarrow> string option sresult" where
  "alias_object X bs =
     (let invalid = Failure (error_new ''invalid-alias'' 400) in
      bindE (ok_or (b64_decode X bs) invalid) (\<lambda>decoded.
      bindE (ok_or (from_slice X decoded) invalid) (\<lambda>v.
      case v of
        JObject ps \<Rightarrow>
          (case map_of ps ''objectHash'' of
             None \<Rightarrow> Inr None
           | Some JNull \<Rightarrow> Inr None
           | Some (JString h) \<Rightarrow> (case validate_hash h of Inl _ \<Rightarrow> Inl invalid | Inr _ \<Rightarrow> Inr (Some h))
           | Some _ \<Rightarrow> Inl invalid)
      | _ \<Rightarrow> Inl invalid)))"

definition raises_level :: "ext \<Rightarrow> u64 \<Rightarrow> unit_change \<Rightarrow> bool sresult" where
  "raises_level X library c =
     (if uc_value c = Deleted then fail_key ''library-format-downgrade'' 409 (uc_key c)
      else case level X (uc_value c) of
        None \<Rightarrow> fail_key ''invalid-library-format'' 400 (uc_key c)
      | Some l \<Rightarrow>
          if \<not> is_canonical_level X (uc_value c) then fail_key ''invalid-library-format'' 400 (uc_key c)
          else if l < library then fail_key ''library-format-downgrade'' 409 (uc_key c)
          else Inr (library < l))"

definition needs_level_two :: "ext \<Rightarrow> unit_change \<Rightarrow> bool" where
  "needs_level_two X c =
     (case uc_value c of
        Object _ d \<Rightarrow> kind_of X (uc_key c) = Some ''plugin-local''
          \<and> (dependencies d \<noteq> [] \<or> dependency_root d \<noteq> None)
      | _ \<Rightarrow> False)"

section \<open>Operations\<close>

definition operation_of :: "store \<Rightarrow> device \<Rightarrow> string \<Rightarrow> operation_receipt option" where
  "operation_of s d i = map_option or_receipt (map_of (operations s) (dev_id d, i))"

definition replay :: "store \<Rightarrow> device \<Rightarrow> string \<Rightarrow> string \<Rightarrow> push_receipt option sresult" where
  "replay s d i digest =
     (case map_of (operations s) (dev_id d, i) of
        None \<Rightarrow> Inr None
      | Some row \<Rightarrow>
          if body_digest (or_receipt row) \<noteq> digest then fail ''operation-integrity'' 409
          else case or_receipt row of
            Accepted _ receipt \<Rightarrow> Inr (Some receipt)
          | Rejected _ _ err _ \<Rightarrow>
              (case or_status row of
                 None \<Rightarrow> fail ''corrupt-metadata'' 503
               | Some status \<Rightarrow> Inl (Failure ((error_new err status)\<lparr>err_key := or_key row\<rparr>))))"

definition save_operation ::
  "device \<Rightarrow> string \<Rightarrow> int \<Rightarrow> operation_receipt \<Rightarrow> server_error option \<Rightarrow> store \<Rightarrow> store sresult" where
  "save_operation d i created receipt rejection s =
     (if has (operations s) (dev_id d, i) then fail ''metadata-storage'' 503
      else Inr (s\<lparr>operations := bt_insert (dev_id d, i)
        \<lparr>or_digest = body_digest receipt, or_receipt = receipt, or_status = map_option err_status rejection,
          or_key = Option.bind rejection err_key, or_created = created\<rparr> (operations s)\<rparr>))"

definition operation :: "ext \<Rightarrow> store \<Rightarrow> device \<Rightarrow> string \<Rightarrow> operation_receipt sresult" where
  "operation X s d i =
     bindE (lift_wire (validate_id i)) (\<lambda>_.
     bindE (require_device X s d) (\<lambda>_.
     ok_or (operation_of s d i) (Failure (error_new ''operation-not-found'' 404))))"

section \<open>The decision on a change\<close>

definition version_key :: "unit_change \<Rightarrow> string \<times> string \<times> u64 \<times> u32" where
  "version_key c = (writer_id (uc_stamp c), key_str (uc_key c), physical_ms (uc_stamp c), logical (uc_stamp c))"

definition for_key_of :: "unit_key \<Rightarrow> 'a sresult \<Rightarrow> 'a sresult" where
  "for_key_of k m = (case m of Inl (Failure e) \<Rightarrow> Inl (Failure (for_key e (key_str k))) | r \<Rightarrow> r)"

definition suppressed :: "ext \<Rightarrow> store \<Rightarrow> string list \<Rightarrow> unit_change \<Rightarrow> unit_key list \<Rightarrow> bool" where
  "suppressed X s retiring c ps \<longleftrightarrow>
     \<not> is_retirement X c
     \<and> (has (retired s) (key_str (uc_key c))
        \<or> list_ex (\<lambda>p. key_str p \<in> set retiring \<or> has (retired s) (key_str p)) ps)"

definition wins :: "ext \<Rightarrow> store \<Rightarrow> string list \<Rightarrow> unit_change \<Rightarrow> bool sresult" where
  "wins X s retiring c =
     bindE (case read_unit s (key_str (uc_key c)) of
              Some u \<Rightarrow> lift_wire (compare_version X (uc_stamp u) (uc_value u) (uc_stamp c) (uc_value c))
            | None \<Rightarrow> Inr ApplyRemote) (\<lambda>decision.
     bindE (parents X (uc_key c)) (\<lambda>ps.
     Inr (\<not> suppressed X s retiring c ps
          \<and> (decision = ApplyRemote \<or> is_retirement X c \<and> \<not> has (retired s) (key_str (uc_key c))))))"

definition check_alias :: "ext \<Rightarrow> unit_change \<Rightarrow> unit sresult" where
  "check_alias X c =
     (case uc_value c of
        Inline bs \<Rightarrow>
          if is_alias X (uc_key c) then
            bindE (for_key_of (uc_key c) (alias_object X bs)) (\<lambda>_. Inr ())
          else Inr ()
      | _ \<Rightarrow> Inr ())"

text \<open>The body of the loop over the changes: does the change win?\<close>

definition verdict ::
  "ext \<Rightarrow> store \<Rightarrow> u64 \<Rightarrow> u64 \<Rightarrow> string list \<Rightarrow> unit_change \<Rightarrow> bool sresult" where
  "verdict X s now lvl retiring c =
     bindE (ok_or (checked_add now MAX_CLOCK_SKEW_MS) (Failure (error_new ''clock-overflow'' 503))) (\<lambda>bound.
     if physical_ms (uc_stamp c) > bound then fail_key ''clock-skew'' 409 (uc_key c)
     else
       bindE (lift_wire (unit_value_identity X (uc_value c))) (\<lambda>identity.
       bindE (check_alias X c) (\<lambda>_.
       if (case map_of (writer_versions s) (version_key c) of
             None \<Rightarrow> False | Some (old, _) \<Rightarrow> old \<noteq> identity)
       then fail_key ''equal-stamp-integrity'' 409 (uc_key c)
       else if is_format_key (uc_key c) then raises_level X lvl c
       else if lvl = 1 \<and> needs_level_two X c
       then fail_key ''library-format-switch-required'' 409 (uc_key c)
       else wins X s retiring c)))"

definition judge_change ::
  "ext \<Rightarrow> store \<Rightarrow> u64 \<Rightarrow> u64 \<Rightarrow> string list \<Rightarrow> unit_change list \<Rightarrow> unit_change \<Rightarrow> unit_change list sresult" where
  "judge_change X s now lvl retiring winners c =
     bindE (verdict X s now lvl retiring c) (\<lambda>win. Inr (if win then winners @ [c] else winners))"

definition empty_library_check :: "bool \<Rightarrow> push_request \<Rightarrow> store \<Rightarrow> unit sresult" where
  "empty_library_check empty_only r s =
     (if \<not> empty_only then Inr ()
      else if length (pr_changes r) \<noteq> 1 \<or> \<not> is_format_key (uc_key (hd (pr_changes r)))
      then fail ''invalid-precondition'' 400
      else if list_ex (\<lambda>(k, _). k \<noteq> KEY) (units s) then fail ''library-not-empty'' 409
      else Inr ())"

definition writer_check :: "device \<Rightarrow> string \<Rightarrow> store \<Rightarrow> unit sresult" where
  "writer_check d w s =
     (if list_ex (\<lambda>(v, i). i = dev_id d \<and> v \<noteq> w) (writers s) then fail ''writer-collision'' 409
      else if map_of (writers s) w \<notin> {None, Some (dev_id d)} then fail ''writer-collision'' 409
      else Inr ())"

definition retiring_keys :: "ext \<Rightarrow> push_request \<Rightarrow> string list" where
  "retiring_keys X r = map (\<lambda>c. key_str (uc_key c)) (filter (is_retirement X) (pr_changes r))"

definition validation ::
  "ext \<Rightarrow> store \<Rightarrow> device \<Rightarrow> push_request \<Rightarrow> bool \<Rightarrow> u64 \<Rightarrow> u64 \<Rightarrow> unit sresult \<Rightarrow> unit_change list sresult" where
  "validation X s d r empty_only now lvl preparation =
     bindE preparation (\<lambda>_.
     bindE (empty_library_check empty_only r s) (\<lambda>_.
     bindE (writer_check d (pr_writer_id r) s) (\<lambda>_.
     foldE (judge_change X s now lvl (retiring_keys X r)) [] (pr_changes r))))"

section \<open>The transaction\<close>

definition note_version :: "ext \<Rightarrow> int \<Rightarrow> store \<Rightarrow> unit_change \<Rightarrow> store sresult" where
  "note_version X created s c =
     bindE (lift_wire (unit_value_identity X (uc_value c))) (\<lambda>identity.
     Inr (if has (writer_versions s) (version_key c) then s
          else s\<lparr>writer_versions := bt_insert (version_key c) (identity, created) (writer_versions s)\<rparr>))"

definition children :: "store \<Rightarrow> string \<Rightarrow> string list" where
  "children s p = map snd (filter (\<lambda>(q, _). q = p) (unit_parents s))"

definition retire :: "unit_change \<Rightarrow> store \<Rightarrow> store" where
  "retire c s =
     (let key = key_str (uc_key c);
          retired' = bt_insert key c (retired s);
          gone = (\<lambda>k. k \<in> set (children s key) \<and> \<not> has retired' k) in
      s\<lparr>retired := retired',
        journal := filter (\<lambda>(_, item, _). \<not> gone (key_str (ji_key item))) (journal s),
        units := filter (\<lambda>(k, _). \<not> gone k) (units s)\<rparr>)"

definition apply_winner ::
  "ext \<Rightarrow> int \<Rightarrow> store \<times> u64 \<times> unit_key list \<Rightarrow> unit_change \<Rightarrow> (store \<times> u64 \<times> unit_key list) sresult" where
  "apply_winner X created acc c =
     (case acc of (s, seq, accepted) \<Rightarrow>
        bindE (ok_or (checked_add seq 1) (Failure (error_new ''sequence-overflow'' 503))) (\<lambda>seq.
        let key = key_str (uc_key c);
            s = (if is_retirement X c then retire c s else s) in
        bindE (parents X (uc_key c)) (\<lambda>ps.
        let journal' = filter (\<lambda>(_, item, _). key_str (ji_key item) \<noteq> key) (journal s) in
        if has journal' seq then fail ''metadata-storage'' 503
        else Inr (s\<lparr>units := bt_insert key c (units s),
                    unit_parents := filter (\<lambda>(_, child). child \<noteq> key) (unit_parents s)
                      @ map (\<lambda>p. (key_str p, key)) ps,
                    journal := bt_insert seq
                      (\<lparr>ji_seq = seq, ji_key = uc_key c, ji_stamp = uc_stamp c, ji_value = uc_value c\<rparr>,
                       created) journal'\<rparr>,
                  seq, accepted @ [uc_key c]))))"

definition bind_writer :: "device \<Rightarrow> string \<Rightarrow> store \<Rightarrow> store" where
  "bind_writer d w s =
     (if has (writers s) w then s else s\<lparr>writers := bt_insert w (dev_id d) (writers s)\<rparr>)"

definition next_head_id :: "ext \<Rightarrow> string \<Rightarrow> string \<Rightarrow> u64 \<Rightarrow> string" where
  "next_head_id X prior digest seq =
     sha256 X (as_bytes (prior @ '':'' @ digest @ '':'' @ show_nat (unat seq)))"

definition raised_level :: "ext \<Rightarrow> unit_change list \<Rightarrow> u64 option" where
  "raised_level X winners =
     (case filter (\<lambda>c. is_format_key (uc_key c)) winners of [] \<Rightarrow> None | c # _ \<Rightarrow> level X (uc_value c))"

text \<open>Everything after the validation succeeded, up to the commit.\<close>

definition commit ::
  "ext \<Rightarrow> device \<Rightarrow> push_request \<Rightarrow> string \<Rightarrow> u64 \<Rightarrow> int \<Rightarrow> unit_change list \<Rightarrow> store
     \<Rightarrow> (push_receipt \<times> store) sresult" where
  "commit X d r digest now created winners s =
     bindE (foldE (note_version X created) (bind_writer d (pr_writer_id r) s) (pr_changes r)) (\<lambda>s.
     bindE (seq_number (head_seq (lib_head s))) (\<lambda>seq.
     bindE (foldE (apply_winner X created) (s, seq, []) winners) (\<lambda>(s, seq, accepted).
     let head = lib_head s;
         head = (if accepted \<noteq> [] then head\<lparr>head_id := next_head_id X (head_id head) digest seq\<rparr> else head);
         s = s\<lparr>lib_head := head\<lparr>head_seq := sequence_from seq\<rparr>\<rparr>;
         receipt = \<lparr>rc_operation_id = pr_operation_id r, rc_seq = seq, accepted_keys = accepted,
           rc_server_time_ms = now\<rparr> in
     bindE (save_operation d (pr_operation_id r) created (Accepted digest receipt) None s) (\<lambda>s.
     let s = (case raised_level X winners of None \<Rightarrow> s | Some l \<Rightarrow> s\<lparr>format_level := l\<rparr>) in
     Inr (receipt, announce_head s)))))"

definition push_admit :: "ext \<Rightarrow> store \<Rightarrow> device \<Rightarrow> push_request \<Rightarrow> string \<Rightarrow> push_receipt option sresult" where
  "push_admit X s d r digest =
     bindE (require_device X s d) (\<lambda>_.
     if pr_library_id r \<noteq> head_library_id (lib_head s) then fail ''library-mismatch'' 403
     else replay s d (pr_operation_id r) digest)"

definition unknown_level :: "ext \<Rightarrow> push_request \<Rightarrow> bool" where
  "unknown_level X r =
     list_ex (\<lambda>c. is_format_key (uc_key c)
       \<and> (case level X (uc_value c) of None \<Rightarrow> False | Some l \<Rightarrow> LIBRARY_FORMAT_MAX_LEVEL < l)) (pr_changes r)"

definition rejection :: "device \<Rightarrow> push_request \<Rightarrow> string \<Rightarrow> u64 \<Rightarrow> int \<Rightarrow> server_error \<Rightarrow> store \<Rightarrow> store sresult" where
  "rejection d r digest now created e s =
     save_operation d (pr_operation_id r) created
       (Rejected (pr_operation_id r) digest (err_code e) now) (Some e) s"

definition push_transaction ::
  "ext \<Rightarrow> device \<Rightarrow> push_request \<Rightarrow> bool \<Rightarrow> string \<Rightarrow> u64 \<Rightarrow> int \<Rightarrow> unit sresult \<Rightarrow> store
     \<Rightarrow> push_receipt sresult \<times> store" where
  "push_transaction X d r empty_only digest now created preparation s =
     (case push_admit X s d r digest of
        Inl f \<Rightarrow> (Inl f, s)
      | Inr (Some receipt) \<Rightarrow> (Inr receipt, s)
      | Inr None \<Rightarrow>
          (case stored_format X s of
             Inl f \<Rightarrow> (Inl f, s)
           | Inr lvl \<Rightarrow>
               if unknown_level X r then (fail ''sync-server-update-required'' 409, s)
               else case validation X s d r empty_only now lvl preparation of
                 Inl f \<Rightarrow>
                   (case f of
                      Failure e \<Rightarrow>
                        if err_status e < 500 then
                          (case rejection d r digest now created e s of
                             Inl f' \<Rightarrow> (Inl f', s) | Inr s' \<Rightarrow> (Inl f, s'))
                        else (Inl f, s)
                    | ServerPanic \<Rightarrow> (Inl f, s))
               | Inr winners \<Rightarrow>
                   (case commit X d r digest now created winners s of
                      Inl f \<Rightarrow> (Inl f, s)
                    | Inr (receipt, s') \<Rightarrow> (Inr receipt, s'))))"

text \<open>\<^verbatim>\<open>prepare\<close> is the outcome of \<^verbatim>\<open>prepare_descriptors\<close>.\<close>

definition push_at ::
  "ext \<Rightarrow> device \<Rightarrow> push_request \<Rightarrow> bool \<Rightarrow> u64 sresult \<Rightarrow> int \<Rightarrow> unit sresult \<Rightarrow> store
     \<Rightarrow> push_receipt sresult \<times> store" where
  "push_at X d r empty_only clock created prepare s =
     (case bindE (lift_wire (validate_id (pr_operation_id r))) (\<lambda>_.
           bindE (lift_wire (push_digest X r)) (\<lambda>digest.
           bindE clock (\<lambda>now.
           bindE (push_admit X s d r digest) (\<lambda>prior. Inr (digest, now, prior))))) of
        Inl f \<Rightarrow> (Inl f, s)
      | Inr (digest, now, Some receipt) \<Rightarrow> (Inr receipt, s)
      | Inr (digest, now, None) \<Rightarrow>
          push_transaction X d r empty_only digest now created
            (bindE (lift_wire (push_validate X r)) (\<lambda>_. prepare)) s)"

definition push :: "ext \<Rightarrow> device \<Rightarrow> push_request \<Rightarrow> u64 sresult \<Rightarrow> int \<Rightarrow> unit sresult \<Rightarrow> store
     \<Rightarrow> push_receipt sresult \<times> store" where
  "push X d r clock created prepare s = push_at X d r False clock created prepare s"

definition push_to_empty_library :: "ext \<Rightarrow> device \<Rightarrow> push_request \<Rightarrow> u64 sresult \<Rightarrow> int \<Rightarrow> unit sresult \<Rightarrow> store
     \<Rightarrow> push_receipt sresult \<times> store" where
  "push_to_empty_library X d r clock created prepare s = push_at X d r True clock created prepare s"

definition cancel_operation ::
  "ext \<Rightarrow> device \<Rightarrow> string \<Rightarrow> cancel_operation_request \<Rightarrow> u64 sresult \<Rightarrow> int \<Rightarrow> store
     \<Rightarrow> operation_receipt sresult \<times> store" where
  "cancel_operation X d i q clock created s =
     (case bindE (lift_wire (validate_id i)) (\<lambda>_.
           bindE (lift_wire (cancel_validate q)) (\<lambda>_. require_device X s d)) of
        Inl f \<Rightarrow> (Inl f, s)
      | Inr _ \<Rightarrow>
          (case operation_of s d i of
             Some prior \<Rightarrow>
               (if body_digest prior \<noteq> cor_body_digest q then fail ''operation-integrity'' 409
                else Inr prior, s)
           | None \<Rightarrow>
               (case clock of
                  Inl f \<Rightarrow> (Inl f, s)
                | Inr now \<Rightarrow>
                    let cancelled = error_new ''operation-cancelled'' 409;
                        receipt = Rejected i (cor_body_digest q) (err_code cancelled) now in
                    (case save_operation d i created receipt (Some cancelled) s of
                       Inl f \<Rightarrow> (Inl f, s) | Inr s' \<Rightarrow> (Inr receipt, s')))))"

end
