(* ===== verification/Server_Invariant.thy ===== *)
theory Server_Invariant
  imports Server_Push
begin

text \<open>
  The invariant of the server's library content: units, retired keys, the parents of units and
  the journal. The operations on the tables of \<open>Server_Push\<close> keep it; the later theories add the
  other tables.
\<close>

section \<open>Tables\<close>

lemma map_of_filter_key: "map_of (filter (\<lambda>(k, _). P k) xs) k = (if P k then map_of xs k else None)"
  by (induction xs) auto

lemma map_of_filter_row:
  "bt_inv xs \<Longrightarrow> map_of (filter P xs) k = Some v \<longleftrightarrow> map_of xs k = Some v \<and> P (k, v)"
  using bt_inv_distinct [of xs] bt_inv_distinct [OF bt_inv_filter, of xs P] by auto

lemma has_insert [simp]: "bt_inv t \<Longrightarrow> has (bt_insert k v t) j \<longleftrightarrow> j = k \<or> has t j"
  by (simp add: has_def map_of_bt_insert)

lemma has_Some: "has t k \<longleftrightarrow> (\<exists>v. map_of t k = Some v)"
  by (simp add: has_def)

lemma has_filter_key [simp]: "has (filter (\<lambda>(k, _). P k) t) k \<longleftrightarrow> P k \<and> has t k"
  by (simp add: has_def map_of_filter_key)

section \<open>Content\<close>

definition units_ok :: "ext \<Rightarrow> store \<Rightarrow> bool" where
  "units_ok X s \<longleftrightarrow> bt_inv (units s)
     \<and> (\<forall>k u. map_of (units s) k = Some u \<longrightarrow> key_str (uc_key u) = k
          \<and> (\<exists>ps. parents X (uc_key u) = Inr ps \<and> (\<forall>p \<in> set ps. (key_str p, k) \<in> set (unit_parents s))))"

definition retired_ok :: "ext \<Rightarrow> store \<Rightarrow> bool" where
  "retired_ok X s \<longleftrightarrow> bt_inv (retired s)
     \<and> (\<forall>k c. map_of (retired s) k = Some c \<longrightarrow>
          k \<noteq> KEY \<and> is_retirement X c \<and> map_of (units s) k = Some c)"

definition family_ok :: "store \<Rightarrow> bool" where
  "family_ok s \<longleftrightarrow> (\<forall>p k. (p, k) \<in> set (unit_parents s) \<longrightarrow> has (retired s) p \<longrightarrow> has (units s) k
     \<longrightarrow> k \<noteq> KEY \<longrightarrow> has (retired s) k)"

text \<open>The recorded parents of a key are parents that the key names.\<close>

definition edges_ok :: "ext \<Rightarrow> store \<Rightarrow> bool" where
  "edges_ok X s \<longleftrightarrow> (\<forall>p k. (p, k) \<in> set (unit_parents s) \<longrightarrow>
     (\<exists>ps. parents X (UnitKey k) = Inr ps \<and> p \<in> key_str ` set ps))"

definition item_unit :: "journal_item \<Rightarrow> unit_change" where
  "item_unit i = \<lparr>uc_key = ji_key i, uc_stamp = ji_stamp i, uc_value = ji_value i\<rparr>"

definition item_key :: "journal_item \<Rightarrow> string" where
  "item_key i = key_str (ji_key i)"

definition journal_ok :: "u64 \<Rightarrow> store \<Rightarrow> bool" where
  "journal_ok n s \<longleftrightarrow> bt_inv (journal s)
     \<and> (\<forall>q i t. map_of (journal s) q = Some (i, t) \<longrightarrow>
          ji_seq i = q \<and> q \<le> n \<and> map_of (units s) (item_key i) = Some (item_unit i))
     \<and> (\<forall>q q' i i' t t'. map_of (journal s) q = Some (i, t) \<longrightarrow> map_of (journal s) q' = Some (i', t')
          \<longrightarrow> item_key i = item_key i' \<longrightarrow> q = q')"

definition content_ok :: "ext \<Rightarrow> u64 \<Rightarrow> store \<Rightarrow> bool" where
  "content_ok X n s \<longleftrightarrow> units_ok X s \<and> retired_ok X s \<and> family_ok s \<and> edges_ok X s \<and> journal_ok n s"

lemma journal_row:
  "journal_ok n s \<Longrightarrow> map_of (journal s) q = Some (i, t) \<Longrightarrow>
     ji_seq i = q \<and> q \<le> n \<and> map_of (units s) (item_key i) = Some (item_unit i)"
  unfolding journal_ok_def by blast

lemma journal_one_row:
  "journal_ok n s \<Longrightarrow> map_of (journal s) q = Some (i, t) \<Longrightarrow> map_of (journal s) q' = Some (i', t') \<Longrightarrow>
     item_key i = item_key i' \<Longrightarrow> q = q'"
  unfolding journal_ok_def by blast

text \<open>A winner of the validation, relative to the keys the request retires.\<close>

definition fits :: "ext \<Rightarrow> store \<Rightarrow> string list \<Rightarrow> unit_change \<Rightarrow> bool" where
  "fits X s R c \<longleftrightarrow>
     (if is_retirement X c then key_str (uc_key c) \<in> set R \<and> key_str (uc_key c) \<noteq> KEY
      else \<not> has (retired s) (key_str (uc_key c)) \<and> key_str (uc_key c) \<notin> set R
        \<and> (key_str (uc_key c) = KEY
           \<or> (\<forall>ps. parents X (uc_key c) = Inr ps \<longrightarrow>
                (\<forall>p \<in> set ps. \<not> has (retired s) (key_str p) \<and> key_str p \<notin> set R))))"

section \<open>Applying a winner\<close>

definition after_retire :: "ext \<Rightarrow> unit_change \<Rightarrow> store \<Rightarrow> store" where
  "after_retire X c s = (if is_retirement X c then retire c s else s)"

definition other_rows :: "string \<Rightarrow> store \<Rightarrow> (u64 \<times> journal_item \<times> int) list" where
  "other_rows key s = filter (\<lambda>(_, i, _). item_key i \<noteq> key) (journal s)"

definition journaled :: "u64 \<Rightarrow> unit_change \<Rightarrow> journal_item" where
  "journaled q c = \<lparr>ji_seq = q, ji_key = uc_key c, ji_stamp = uc_stamp c, ji_value = uc_value c\<rparr>"

definition put_unit :: "unit_change \<Rightarrow> unit_key list \<Rightarrow> u64 \<Rightarrow> int \<Rightarrow> store \<Rightarrow> store" where
  "put_unit c ps q created s =
     (let key = key_str (uc_key c) in
      s\<lparr>units := bt_insert key c (units s),
        unit_parents := filter (\<lambda>(_, child). child \<noteq> key) (unit_parents s) @ map (\<lambda>p. (key_str p, key)) ps,
        journal := bt_insert q (journaled q c, created) (other_rows key s)\<rparr>)"

lemma apply_winner_Inr:
  "apply_winner X created (s, n, acc) c = Inr (s', n', acc') \<longleftrightarrow>
     checked_add n 1 = Some n' \<and> acc' = acc @ [uc_key c]
     \<and> (\<exists>ps. parents X (uc_key c) = Inr ps
          \<and> \<not> has (other_rows (key_str (uc_key c)) (after_retire X c s)) n'
          \<and> s' = put_unit c ps n' created (after_retire X c s))"
  by (auto simp: apply_winner_def bindE_Inr Let_def after_retire_def other_rows_def put_unit_def
      item_key_def journaled_def split: if_splits)

lemma journaled_simps [simp]:
  "item_key (journaled q c) = key_str (uc_key c)" "item_unit (journaled q c) = c" "ji_seq (journaled q c) = q"
  by (simp_all add: item_key_def item_unit_def journaled_def)

lemma after_retire_frame [simp]:
  "lib_head (after_retire X c s) = lib_head s" "devices (after_retire X c s) = devices s"
  "writers (after_retire X c s) = writers s" "claims (after_retire X c s) = claims s"
  "writer_versions (after_retire X c s) = writer_versions s"
  "unit_parents (after_retire X c s) = unit_parents s"
  "operations (after_retire X c s) = operations s" "state_pins (after_retire X c s) = state_pins s"
  "format_level (after_retire X c s) = format_level s" "announced (after_retire X c s) = announced s"
  by (simp_all add: after_retire_def retire_def Let_def)

lemma put_unit_frame [simp]:
  "lib_head (put_unit c ps q t s) = lib_head s" "devices (put_unit c ps q t s) = devices s"
  "writers (put_unit c ps q t s) = writers s" "claims (put_unit c ps q t s) = claims s"
  "writer_versions (put_unit c ps q t s) = writer_versions s" "retired (put_unit c ps q t s) = retired s"
  "operations (put_unit c ps q t s) = operations s" "state_pins (put_unit c ps q t s) = state_pins s"
  "format_level (put_unit c ps q t s) = format_level s" "announced (put_unit c ps q t s) = announced s"
  by (simp_all add: put_unit_def Let_def)

text \<open>What is left of the content when a key is retired.\<close>

definition gone :: "ext \<Rightarrow> unit_change \<Rightarrow> store \<Rightarrow> string \<Rightarrow> bool" where
  "gone X c s k \<longleftrightarrow> is_retirement X c \<and> (key_str (uc_key c), k) \<in> set (unit_parents s)
     \<and> \<not> has (retired s) k \<and> k \<noteq> key_str (uc_key c)"

lemma children_set: "k \<in> set (children s p) \<longleftrightarrow> (p, k) \<in> set (unit_parents s)"
  by (force simp: children_def)

lemma inv_tables:
  "content_ok X n s \<Longrightarrow> bt_inv (units s)" "content_ok X n s \<Longrightarrow> bt_inv (retired s)"
  "content_ok X n s \<Longrightarrow> bt_inv (journal s)"
  by (simp_all add: content_ok_def units_ok_def retired_ok_def journal_ok_def)

lemma retired_after: "bt_inv (retired s) \<Longrightarrow> map_of (retired (after_retire X c s)) k =
    (if is_retirement X c \<and> k = key_str (uc_key c) then Some c else map_of (retired s) k)"
  by (simp add: after_retire_def retire_def Let_def map_of_bt_insert)

lemma has_retired_after: "bt_inv (retired s) \<Longrightarrow> has (retired (after_retire X c s)) k \<longleftrightarrow>
    is_retirement X c \<and> k = key_str (uc_key c) \<or> has (retired s) k"
  by (auto simp: has_def retired_after)

lemma units_after: "bt_inv (retired s) \<Longrightarrow>
    map_of (units (after_retire X c s)) k = (if gone X c s k then None else map_of (units s) k)"
  by (simp add: after_retire_def retire_def Let_def map_of_filter_key children_set gone_def)

lemma journal_after: "content_ok X n s \<Longrightarrow> map_of (journal (after_retire X c s)) q = Some (i, t) \<longleftrightarrow>
    map_of (journal s) q = Some (i, t) \<and> \<not> gone X c s (item_key i)"
  by (auto simp: after_retire_def retire_def Let_def map_of_filter_row inv_tables children_set gone_def
      item_key_def)

lemma tables_after:
  "content_ok X n s \<Longrightarrow> bt_inv (units (after_retire X c s))"
  "content_ok X n s \<Longrightarrow> bt_inv (retired (after_retire X c s))"
  "content_ok X n s \<Longrightarrow> bt_inv (journal (after_retire X c s))"
  by (simp_all add: after_retire_def retire_def Let_def bt_inv_filter bt_inv_insert inv_tables)

text \<open>The tables after a winner is applied.\<close>

definition won :: "ext \<Rightarrow> unit_change \<Rightarrow> unit_key list \<Rightarrow> u64 \<Rightarrow> int \<Rightarrow> store \<Rightarrow> store" where
  "won X c ps q created s = put_unit c ps q created (after_retire X c s)"

lemma won_units: "content_ok X n s \<Longrightarrow> map_of (units (won X c ps q t s)) k =
    (if k = key_str (uc_key c) then Some c else if gone X c s k then None else map_of (units s) k)"
  by (simp add: won_def put_unit_def Let_def map_of_bt_insert tables_after units_after inv_tables)

lemma won_parents: "(p, k) \<in> set (unit_parents (won X c ps q t s)) \<longleftrightarrow>
    (if k = key_str (uc_key c) then p \<in> key_str ` set ps else (p, k) \<in> set (unit_parents s))"
  by (auto simp: won_def put_unit_def Let_def)

lemma won_retired: "content_ok X n s \<Longrightarrow> map_of (retired (won X c ps q t s)) k =
    (if is_retirement X c \<and> k = key_str (uc_key c) then Some c else map_of (retired s) k)"
  by (simp add: won_def retired_after inv_tables)

lemma won_has_retired: "content_ok X n s \<Longrightarrow> has (retired (won X c ps q t s)) k \<longleftrightarrow>
    is_retirement X c \<and> k = key_str (uc_key c) \<or> has (retired s) k"
  by (simp add: won_def has_retired_after inv_tables)

lemma won_journal:
  assumes "content_ok X n s"
  shows "map_of (journal (won X c ps q t s)) p = Some (i, u) \<longleftrightarrow>
    (if p = q then i = journaled q c \<and> u = t
     else map_of (journal s) p = Some (i, u) \<and> \<not> gone X c s (item_key i) \<and> item_key i \<noteq> key_str (uc_key c))"
  using tables_after(3) [OF assms, of c]
  by (auto simp: won_def put_unit_def Let_def map_of_bt_insert other_rows_def bt_inv_filter
      map_of_filter_row journal_after [OF assms])

lemma won_tables:
  "content_ok X n s \<Longrightarrow> bt_inv (units (won X c ps q t s))"
  "content_ok X n s \<Longrightarrow> bt_inv (retired (won X c ps q t s))"
  "content_ok X n s \<Longrightarrow> bt_inv (journal (won X c ps q t s))"
  by (simp_all add: won_def put_unit_def Let_def bt_inv_insert bt_inv_filter other_rows_def tables_after)

lemma won_units_ok:
  assumes "content_ok X n s" and "parents X (uc_key c) = Inr ps"
  shows "units_ok X (won X c ps q t s)"
  using assms won_tables(1) [OF assms(1), of c ps q t]
  by (auto simp: units_ok_def won_units won_parents content_ok_def split: if_splits)

lemma won_retired_ok:
  assumes "content_ok X n s" and "fits X s R c"
  shows "retired_ok X (won X c ps q t s)"
proof -
  have "\<not> gone X c s k" if "map_of (retired s) k = Some d" for k d
    using that by (simp add: gone_def has_def)
  then show ?thesis
    using assms won_tables(2) [OF assms(1), of c ps q t]
    by (auto simp: retired_ok_def won_retired won_units content_ok_def fits_def has_def split: if_splits)
qed

lemma won_family_ok:
  assumes "content_ok X n s" and "fits X s R c" and "parents X (uc_key c) = Inr ps"
  shows "family_ok (won X c ps q t s)"
  unfolding family_ok_def
proof (intro allI impI)
  fix p k
  assume edge: "(p, k) \<in> set (unit_parents (won X c ps q t s))"
    and p: "has (retired (won X c ps q t s)) p" and k: "has (units (won X c ps q t s)) k" and "k \<noteq> KEY"
  show "has (retired (won X c ps q t s)) k"
  proof (cases "k = key_str (uc_key c)")
    case True
    with edge obtain r where r: "r \<in> set ps" "p = key_str r" by (auto simp: won_parents)
    show ?thesis
    proof (cases "is_retirement X c")
      case False
      with p assms(1) have "has (retired s) p" by (simp add: won_has_retired)
      with False True r assms(2,3) \<open>k \<noteq> KEY\<close> show ?thesis by (auto simp: fits_def)
    qed (use True assms(1) in \<open>simp add: won_has_retired\<close>)
  next
    case False
    then have old: "(p, k) \<in> set (unit_parents s)" "\<not> gone X c s k" "has (units s) k"
      using edge k assms(1) by (auto simp: won_parents won_units has_def split: if_splits)
    then have "has (retired s) k"
      using p False assms(1) \<open>k \<noteq> KEY\<close>
      by (auto simp: won_has_retired gone_def content_ok_def family_ok_def)
    then show ?thesis using assms(1) by (simp add: won_has_retired)
  qed
qed

lemma won_edges_ok:
  assumes "content_ok X n s" and "parents X (uc_key c) = Inr ps"
  shows "edges_ok X (won X c ps q t s)"
proof -
  have "uc_key c = UnitKey (key_str (uc_key c))" by simp
  with assms show ?thesis by (auto simp: edges_ok_def won_parents content_ok_def split: if_splits)
qed

lemma won_journal_ok:
  assumes ok: "content_ok X n s" and q: "unat q = unat n + 1"
  shows "journal_ok q (won X c ps q t s)"
proof -
  have j: "journal_ok n s" using ok by (simp add: content_ok_def)
  have ne: "p < q" if "p \<le> n" for p using that q by (simp add: word_le_nat_alt word_less_nat_alt)
  have row: "ji_seq i = p \<and> p \<le> q \<and> map_of (units (won X c ps q t s)) (item_key i) = Some (item_unit i)
      \<and> (p = q \<or> p < q \<and> map_of (journal s) p = Some (i, u)) \<and> (p = q \<longleftrightarrow> item_key i = key_str (uc_key c))"
    if "map_of (journal (won X c ps q t s)) p = Some (i, u)" for p i u
  proof (cases "p = q")
    case True
    with that show ?thesis by (simp add: won_journal [OF ok] won_units [OF ok])
  next
    case False
    with that have old: "map_of (journal s) p = Some (i, u)" "\<not> gone X c s (item_key i)"
      "item_key i \<noteq> key_str (uc_key c)"
      by (simp_all add: won_journal [OF ok])
    with journal_row [OF j, of p i u]
    have "ji_seq i = p" "p \<le> n" "map_of (units s) (item_key i) = Some (item_unit i)" by simp_all
    with old False ne show ?thesis by (simp add: won_units [OF ok] order.strict_implies_order)
  qed
  have "p = p'" if "map_of (journal (won X c ps q t s)) p = Some (i, u)"
    "map_of (journal (won X c ps q t s)) p' = Some (i', u')" "item_key i = item_key i'" for p p' i i' u u'
    using row [OF that(1)] row [OF that(2)] that(3) journal_one_row [OF j] by metis
  with row won_tables(3) [OF ok] show ?thesis unfolding journal_ok_def by blast
qed

lemma won_content_ok:
  assumes "content_ok X n s" and "fits X s R c" and "parents X (uc_key c) = Inr ps"
    and "unat q = unat n + 1"
  shows "content_ok X q (won X c ps q t s)"
  using assms
  by (simp add: content_ok_def [of X q] won_units_ok won_retired_ok won_family_ok won_edges_ok won_journal_ok)

end
