(* ===== verification/Server_Apply.thy ===== *)
theory Server_Apply
  imports Server_Invariant
begin

text \<open>
  What the transaction of a push does to the store: the validation leaves only winners that fit,
  applying them keeps the content invariant, installs every winner and moves the sequence by
  one for each.
\<close>

section \<open>Applying all winners\<close>

lemma fits_won:
  assumes "content_ok X n s" and "fits X s R c" and "fits X s R d"
  shows "fits X (won X c ps q t s) R d"
  using assms by (auto simp: fits_def won_has_retired split: if_splits) metis

lemma apply_winner_won:
  "apply_winner X t (s, n, acc) c = Inr (s', n', acc') \<longleftrightarrow>
     checked_add n 1 = Some n' \<and> acc' = acc @ [uc_key c]
     \<and> (\<exists>ps. parents X (uc_key c) = Inr ps
          \<and> \<not> has (other_rows (key_str (uc_key c)) (after_retire X c s)) n' \<and> s' = won X c ps n' t s)"
  by (simp add: apply_winner_Inr won_def)

lemma next_seq: "checked_add (n :: u64) 1 = Some m \<Longrightarrow> unat m = unat n + 1"
  using checked_add_Some [of n 1 m] by simp

lemma won_frame [simp]:
  "lib_head (won X c ps q t s) = lib_head s" "devices (won X c ps q t s) = devices s"
  "writers (won X c ps q t s) = writers s" "claims (won X c ps q t s) = claims s"
  "writer_versions (won X c ps q t s) = writer_versions s" "operations (won X c ps q t s) = operations s"
  "state_pins (won X c ps q t s) = state_pins s" "format_level (won X c ps q t s) = format_level s"
  "announced (won X c ps q t s) = announced s"
  by (simp_all add: won_def)

text \<open>Tables no winner touches.\<close>

definition same_rest :: "store \<Rightarrow> store \<Rightarrow> bool" where
  "same_rest s s' \<longleftrightarrow> lib_head s' = lib_head s \<and> devices s' = devices s \<and> writers s' = writers s
     \<and> claims s' = claims s \<and> writer_versions s' = writer_versions s \<and> operations s' = operations s
     \<and> state_pins s' = state_pins s \<and> format_level s' = format_level s \<and> announced s' = announced s"

lemma same_rest_refl [simp]: "same_rest s s"
  by (simp add: same_rest_def)

lemma same_rest_trans: "same_rest a b \<Longrightarrow> same_rest b c \<Longrightarrow> same_rest a c"
  by (simp add: same_rest_def)

text \<open>A unit published by the request: current, journaled after \<open>n\<close>, and out of reach of its
  retirements.\<close>

definition installed :: "ext \<Rightarrow> u64 \<Rightarrow> string list \<Rightarrow> store \<Rightarrow> unit_change \<Rightarrow> bool" where
  "installed X n R s c \<longleftrightarrow>
     map_of (units s) (key_str (uc_key c)) = Some c
     \<and> (\<exists>q t. n < q \<and> map_of (journal s) q = Some (journaled q c, t))
     \<and> (has (retired s) (key_str (uc_key c))
        \<or> (\<forall>p. (p, key_str (uc_key c)) \<in> set (unit_parents s) \<longrightarrow> p \<notin> set R))"

lemma installed_new:
  assumes "content_ok X n s" and "fits X s R c" and "parents X (uc_key c) = Inr ps"
    and "m < q" and "key_str (uc_key c) = KEY \<Longrightarrow> ps = []"
  shows "installed X m R (won X c ps q t s) c"
  using assms
  by (auto simp: installed_def won_units won_journal won_has_retired won_parents fits_def split: if_splits)

lemma installed_keep:
  assumes ok: "content_ok X n s" and "fits X s R d" and "installed X m R s c" and "m \<le> n"
    and "key_str (uc_key d) \<noteq> key_str (uc_key c)" and q: "unat q = unat n + 1"
  shows "installed X m R (won X d ps q t s) c"
proof -
  have "\<not> gone X d s (key_str (uc_key c))"
    using assms(2,3) by (auto simp: gone_def installed_def fits_def split: if_splits)
  moreover have "p \<noteq> q" if "map_of (journal s) p = Some r" for p r
  proof -
    obtain i u where "r = (i, u)" by (cases r)
    with that ok have "p \<le> n" using journal_row [of n s p i u] by (simp add: content_ok_def)
    with q show ?thesis by (auto simp: word_le_nat_alt)
  qed
  ultimately show ?thesis
    using assms(3,5) unfolding installed_def
    by (fastforce simp: won_units [OF ok] won_journal [OF ok] won_has_retired [OF ok] won_parents)
qed

text \<open>A retirement of a parent of the key \<open>k\<close>.\<close>

definition retires :: "ext \<Rightarrow> string \<Rightarrow> unit_change \<Rightarrow> bool" where
  "retires X k c \<longleftrightarrow> is_retirement X c
     \<and> (case parents X (UnitKey k) of Inl _ \<Rightarrow> False | Inr ps \<Rightarrow> uc_key c \<in> set ps)"

lemma gone_retires: "content_ok X n s \<Longrightarrow> gone X c s k \<Longrightarrow> retires X k c"
proof -
  assume "content_ok X n s" "gone X c s k"
  then obtain ps where "is_retirement X c" "parents X (UnitKey k) = Inr ps" "key_str (uc_key c) \<in> key_str ` set ps"
    unfolding content_ok_def edges_ok_def gone_def by blast
  then show ?thesis by (auto simp: retires_def) (metis unit_key.expand)
qed

text \<open>How a unit can differ after some winners were applied.\<close>

definition settled :: "ext \<Rightarrow> unit_change list \<Rightarrow> store \<Rightarrow> store \<Rightarrow> bool" where
  "settled X ws s s' \<longleftrightarrow>
     (\<forall>k. map_of (units s') k = map_of (units s) k
        \<or> (\<exists>c \<in> set ws. key_str (uc_key c) = k \<and> map_of (units s') k = Some c)
        \<or> map_of (units s') k = None \<and> \<not> has (retired s) k \<and> list_ex (retires X k) ws)
     \<and> (\<forall>k. has (retired s') k \<longleftrightarrow>
          has (retired s) k \<or> (\<exists>c \<in> set ws. is_retirement X c \<and> key_str (uc_key c) = k))"

lemma settled_unit: "settled X ws s s' \<Longrightarrow> map_of (units s') k = map_of (units s) k
    \<or> (\<exists>c \<in> set ws. key_str (uc_key c) = k \<and> map_of (units s') k = Some c)
    \<or> map_of (units s') k = None \<and> \<not> has (retired s) k \<and> list_ex (retires X k) ws"
  by (simp add: settled_def)

lemma settled_step:
  assumes ok: "content_ok X n s" and rest: "settled X ws (won X c ps q t s) s'"
  shows "settled X (c # ws) s s'"
proof -
  have "map_of (units s') k = map_of (units s) k
      \<or> (\<exists>d \<in> set (c # ws). key_str (uc_key d) = k \<and> map_of (units s') k = Some d)
      \<or> map_of (units s') k = None \<and> \<not> has (retired s) k \<and> list_ex (retires X k) (c # ws)" for k
    using settled_unit [OF rest, of k]
  proof (elim disjE)
    assume "map_of (units s') k = map_of (units (won X c ps q t s)) k"
    then show ?thesis using gone_retires [OF ok, of c k] by (auto simp: won_units [OF ok] gone_def)
  next
    assume "\<exists>d \<in> set ws. key_str (uc_key d) = k \<and> map_of (units s') k = Some d"
    then show ?thesis by auto
  next
    assume "map_of (units s') k = None \<and> \<not> has (retired (won X c ps q t s)) k \<and> list_ex (retires X k) ws"
    then show ?thesis by (simp add: won_has_retired [OF ok])
  qed
  moreover have "has (retired s') k \<longleftrightarrow> has (retired s) k
      \<or> (\<exists>d \<in> set (c # ws). is_retirement X d \<and> key_str (uc_key d) = k)" for k
    using rest by (auto simp: settled_def won_has_retired [OF ok])
  ultimately show ?thesis unfolding settled_def by blast
qed

lemma apply_winners:
  assumes "foldE (apply_winner X t) (s, n, acc) ws = Inr (s', n', acc')"
    and "content_ok X n s" and "\<forall>c \<in> set ws. fits X s R c"
  shows "content_ok X n' s' \<and> unat n' = unat n + length ws \<and> acc' = acc @ map uc_key ws
     \<and> same_rest s s' \<and> settled X ws s s'"
  using assms
proof (induction ws arbitrary: s n acc)
  case Nil
  then show ?case by (simp add: settled_def)
next
  case (Cons c ws)
  obtain m ps where m: "checked_add n 1 = Some m" and ps: "parents X (uc_key c) = Inr ps"
    and rest: "foldE (apply_winner X t) (won X c ps m t s, m, acc @ [uc_key c]) ws = Inr (s', n', acc')"
    using Cons.prems(1) by (auto simp: bindE_Inr apply_winner_won)
  have fits: "fits X s R c" "\<forall>d \<in> set ws. fits X (won X c ps m t s) R d"
    using Cons.prems fits_won [OF Cons.prems(2)] by auto
  have ok: "content_ok X m (won X c ps m t s)"
    using won_content_ok [OF Cons.prems(2) fits(1) ps next_seq [OF m]] .
  from Cons.IH [OF rest ok fits(2)] next_seq [OF m] settled_step [OF Cons.prems(2)]
  show ?case by (auto intro: same_rest_trans [rotated] simp: same_rest_def)
qed

lemma apply_winners_installed:
  assumes "foldE (apply_winner X t) (s, n, acc) ws = Inr (s', n', acc')"
    and "content_ok X n s" and "\<forall>c \<in> set ws. fits X s R c"
    and "distinct (map (\<lambda>c. key_str (uc_key c)) ws)" and "m \<le> n"
    and "\<forall>c \<in> set old. installed X m R s c \<and> key_str (uc_key c) \<notin> (\<lambda>c. key_str (uc_key c)) ` set ws"
  shows "\<forall>c \<in> set old \<union> {c \<in> set ws. key_str (uc_key c) = KEY \<longrightarrow> parents X (uc_key c) = Inr []}.
    installed X m R s' c"
  using assms
proof (induction ws arbitrary: s n acc old)
  case (Cons c ws)
  obtain q ps where q: "checked_add n 1 = Some q" and ps: "parents X (uc_key c) = Inr ps"
    and rest: "foldE (apply_winner X t) (won X c ps q t s, q, acc @ [uc_key c]) ws = Inr (s', n', acc')"
    using Cons.prems(1) by (auto simp: bindE_Inr apply_winner_won)
  have fits: "fits X s R c" "\<forall>d \<in> set ws. fits X (won X c ps q t s) R d"
    using Cons.prems fits_won [OF Cons.prems(2)] by auto
  have ok: "content_ok X q (won X c ps q t s)"
    using won_content_ok [OF Cons.prems(2) fits(1) ps next_seq [OF q]] .
  have "m < q" "m \<le> q" using Cons.prems(5) next_seq [OF q] by (simp_all add: word_le_nat_alt word_less_nat_alt)
  define old' where "old' = (if key_str (uc_key c) = KEY \<longrightarrow> ps = [] then c # old else old)"
  have "\<forall>d \<in> set old'. installed X m R (won X c ps q t s) d
      \<and> key_str (uc_key d) \<notin> (\<lambda>c. key_str (uc_key c)) ` set ws"
    using Cons.prems(4,6) installed_new [OF Cons.prems(2) fits(1) ps \<open>m < q\<close>]
      installed_keep [OF Cons.prems(2) fits(1) _ Cons.prems(5) _ next_seq [OF q]]
    by (auto simp: old'_def)
  from Cons.IH [OF rest ok fits(2) _ \<open>m \<le> q\<close> this] Cons.prems(4) show ?case
    using ps by (auto simp: old'_def)
qed simp

end
