(* ===== verification/Server_Publish.thy ===== *)
theory Server_Publish
  imports Server_Apply
begin

text \<open>
  A push as a whole: the validation, the commit, and what both leave of the store.
\<close>

section \<open>Validation\<close>

lemma judged:
  "foldE (judge_change X s now lvl R) ws cs = Inr ws' \<longleftrightarrow>
     (\<forall>c \<in> set cs. \<exists>b. verdict X s now lvl R c = Inr b)
     \<and> ws' = ws @ filter (\<lambda>c. verdict X s now lvl R c = Inr True) cs"
  by (induction cs arbitrary: ws) (auto simp: judge_change_def bindE_Inr)

lemma verdict_True:
  "verdict X s now lvl R c = Inr True \<Longrightarrow>
     (if is_format_key (uc_key c) then raises_level X lvl c = Inr True else wins X s R c = Inr True)"
  by (auto simp: verdict_def bindE_Inr split: if_splits)

lemma raises_level_Inr: "raises_level X lvl c = Inr b \<longleftrightarrow>
    uc_value c \<noteq> Deleted \<and> is_canonical_level X (uc_value c)
    \<and> (\<exists>l. level X (uc_value c) = Some l \<and> lvl \<le> l \<and> (b \<longleftrightarrow> lvl < l))"
  by (auto simp: raises_level_def not_less split: option.split)

lemma wins_True: "wins X s R c = Inr True \<longleftrightarrow>
    (\<exists>ps. parents X (uc_key c) = Inr ps \<and> \<not> suppressed X s R c ps)
    \<and> (case read_unit s (key_str (uc_key c)) of
         None \<Rightarrow> True
       | Some u \<Rightarrow>
           (case lift_wire (compare_version X (uc_stamp u) (uc_value u) (uc_stamp c) (uc_value c)) of
              Inl _ \<Rightarrow> False
            | Inr decision \<Rightarrow>
                decision = ApplyRemote \<or> is_retirement X c \<and> \<not> has (retired s) (key_str (uc_key c))))"
  by (cases "parents X (uc_key c)") (auto simp: wins_def bindE_Inr split: option.splits sum.splits)

lemma retiring_iff:
  assumes "distinct (map (\<lambda>c. key_str (uc_key c)) (pr_changes r))" and "c \<in> set (pr_changes r)"
  shows "key_str (uc_key c) \<in> set (retiring_keys X r) \<longleftrightarrow> is_retirement X c"
  using assms by (auto simp: retiring_keys_def distinct_map inj_on_def)

lemma winner_fits:
  assumes ok: "retired_ok X s" and dist: "distinct (map (\<lambda>c. key_str (uc_key c)) (pr_changes r))"
    and c: "c \<in> set (pr_changes r)" and v: "verdict X s now lvl (retiring_keys X r) c = Inr True"
  shows "fits X s (retiring_keys X r) c"
proof (cases "is_format_key (uc_key c)")
  case True
  with verdict_True [OF v] have "uc_value c \<noteq> Deleted" by (simp add: raises_level_Inr)
  then have "\<not> is_retirement X c" by (simp add: is_retirement_def)
  moreover have "\<not> has (retired s) KEY" using ok by (cases "map_of (retired s) KEY") (auto simp: retired_ok_def has_def)
  ultimately show ?thesis using True retiring_iff [OF dist c, of X] by (simp add: fits_def is_format_key_def)
next
  case False
  with verdict_True [OF v] obtain ps where "parents X (uc_key c) = Inr ps"
    "\<not> suppressed X s (retiring_keys X r) c ps"
    by (auto simp: wins_True)
  then show ?thesis
    using False retiring_iff [OF dist c, of X]
    by (auto simp: fits_def suppressed_def is_format_key_def list_ex_iff)
qed

lemma validation_Inr:
  "validation X s d r e now lvl p = Inr ws \<longleftrightarrow>
     (\<exists>u. p = Inr u) \<and> empty_library_check e r s = Inr () \<and> writer_check d (pr_writer_id r) s = Inr ()
     \<and> (\<forall>c \<in> set (pr_changes r). \<exists>b. verdict X s now lvl (retiring_keys X r) c = Inr b)
     \<and> ws = filter (\<lambda>c. verdict X s now lvl (retiring_keys X r) c = Inr True) (pr_changes r)"
  by (auto simp: validation_def bindE_Inr judged)

lemma writer_check_Inr:
  "writer_check d w s = Inr () \<longleftrightarrow>
     (\<forall>(v, i) \<in> set (writers s). i = dev_id d \<longrightarrow> v = w) \<and> map_of (writers s) w \<in> {None, Some (dev_id d)}"
  by (auto simp: writer_check_def list_ex_iff)

section \<open>Commit\<close>

definition same_content :: "store \<Rightarrow> store \<Rightarrow> bool" where
  "same_content s s' \<longleftrightarrow> units s' = units s \<and> retired s' = retired s
     \<and> unit_parents s' = unit_parents s \<and> journal s' = journal s"

lemma same_content_ok: "same_content s s' \<Longrightarrow> content_ok X n s' \<longleftrightarrow> content_ok X n s"
  by (simp add: same_content_def content_ok_def units_ok_def retired_ok_def family_ok_def edges_ok_def journal_ok_def)

lemma fits_content: "same_content s s' \<Longrightarrow> fits X s' R c \<longleftrightarrow> fits X s R c"
  by (simp add: same_content_def fits_def)

definition versions_grow :: "store \<Rightarrow> store \<Rightarrow> bool" where
  "versions_grow s s' \<longleftrightarrow> s' = s\<lparr>writer_versions := writer_versions s'\<rparr>
     \<and> (bt_inv (writer_versions s) \<longrightarrow> bt_inv (writer_versions s')
          \<and> map_of (writer_versions s) \<subseteq>\<^sub>m map_of (writer_versions s'))"

lemma note_versions:
  "foldE (note_version X t) s cs = Inr s' \<Longrightarrow> versions_grow s s'"
proof (induction cs arbitrary: s)
  case Nil
  then show ?case by (simp add: versions_grow_def)
next
  case (Cons c cs)
  then obtain s1 where one: "note_version X t s c = Inr s1" and rest: "versions_grow s1 s'"
    by (auto simp: bindE_Inr)
  from one have "versions_grow s s1"
    by (auto simp: note_version_def bindE_Inr versions_grow_def bt_inv_insert map_of_bt_insert
        map_le_def has_def)
  have "s' = s\<lparr>writer_versions := writer_versions s'\<rparr>"
  proof -
    obtain a b where "s1 = s\<lparr>writer_versions := a\<rparr>" "s' = s1\<lparr>writer_versions := b\<rparr>"
      using \<open>versions_grow s s1\<close> rest unfolding versions_grow_def by metis
    then show ?thesis by simp
  qed
  with rest \<open>versions_grow s s1\<close> show ?case unfolding versions_grow_def by (auto intro: map_le_trans)
qed

text \<open>The store a commit leaves, from the one in which the winners were applied.\<close>

definition operation_entry :: "operation_receipt \<Rightarrow> server_error option \<Rightarrow> int \<Rightarrow> operation_row" where
  "operation_entry receipt rejected created =
     \<lparr>or_digest = body_digest receipt, or_receipt = receipt, or_status = map_option err_status rejected,
       or_key = Option.bind rejected err_key, or_created = created\<rparr>"

definition advanced :: "ext \<Rightarrow> string \<Rightarrow> u64 \<Rightarrow> bool \<Rightarrow> remote_head \<Rightarrow> remote_head" where
  "advanced X digest seq changed head =
     (if changed then head\<lparr>head_id := next_head_id X (head_id head) digest seq\<rparr> else head)
       \<lparr>head_seq := sequence_from seq\<rparr>"

definition concluded ::
  "ext \<Rightarrow> device \<Rightarrow> push_request \<Rightarrow> string \<Rightarrow> int \<Rightarrow> unit_change list \<Rightarrow> push_receipt \<Rightarrow> store \<Rightarrow> store" where
  "concluded X d r digest created ws receipt s =
     s\<lparr>lib_head := advanced X digest (rc_seq receipt) (accepted_keys receipt \<noteq> []) (lib_head s),
       operations := bt_insert (dev_id d, pr_operation_id r)
         (operation_entry (Accepted digest receipt) None created) (operations s),
       format_level := (case raised_level X ws of None \<Rightarrow> format_level s | Some l \<Rightarrow> l),
       announced := announced s + 1\<rparr>"

lemma save_operation_Inr:
  "save_operation d i t receipt e s = Inr s' \<longleftrightarrow>
     \<not> has (operations s) (dev_id d, i)
     \<and> s' = s\<lparr>operations := bt_insert (dev_id d, i) (operation_entry receipt e t) (operations s)\<rparr>"
  by (auto simp: save_operation_def operation_entry_def)

lemma commit_Inr:
  assumes "commit X d r digest now t ws s = Inr (receipt, s')"
  obtains s1 n s2 n' acc
  where "foldE (note_version X t) (bind_writer d (pr_writer_id r) s) (pr_changes r) = Inr s1"
    and "seq_number (head_seq (lib_head s1)) = Inr n"
    and "foldE (apply_winner X t) (s1, n, []) ws = Inr (s2, n', acc)"
    and "receipt = \<lparr>rc_operation_id = pr_operation_id r, rc_seq = n', accepted_keys = acc,
      rc_server_time_ms = now\<rparr>"
    and "\<not> has (operations s2) (dev_id d, pr_operation_id r)"
    and "s' = concluded X d r digest t ws receipt s2"
proof -
  from assms obtain s1 n s2 n' acc
    where 1: "foldE (note_version X t) (bind_writer d (pr_writer_id r) s) (pr_changes r) = Inr s1"
      "seq_number (head_seq (lib_head s1)) = Inr n"
      "foldE (apply_winner X t) (s1, n, []) ws = Inr (s2, n', acc)"
    by (auto simp: commit_def bindE_Inr)
  have 2: "receipt = \<lparr>rc_operation_id = pr_operation_id r, rc_seq = n', accepted_keys = acc,
      rc_server_time_ms = now\<rparr> \<and> \<not> has (operations s2) (dev_id d, pr_operation_id r)
      \<and> s' = concluded X d r digest t ws receipt s2"
    using assms
    by (cases "raised_level X ws")
      (auto simp: commit_def 1 bindE_def Let_def save_operation_def operation_entry_def concluded_def
        advanced_def announce_head_def fail_def split: if_splits)
  then show ?thesis using that [OF 1] by simp
qed

section \<open>Outcomes\<close>

lemma push_admit_None:
  "push_admit X s d r digest = Inr None \<longleftrightarrow>
     require_device X s d = Inr () \<and> pr_library_id r = head_library_id (lib_head s)
     \<and> \<not> has (operations s) (dev_id d, pr_operation_id r)"
  by (auto simp: push_admit_def bindE_Inr replay_def has_def
      split: option.splits operation_receipt.splits if_splits)

text \<open>A push is answered without a change, kept as rejected, or committed.\<close>

definition push_rejected ::
  "ext \<Rightarrow> device \<Rightarrow> push_request \<Rightarrow> bool \<Rightarrow> u64 sresult \<Rightarrow> int \<Rightarrow> unit sresult \<Rightarrow> store \<Rightarrow> server_error \<Rightarrow> store
     \<Rightarrow> bool" where
  "push_rejected X d r e clock t prepare s f s' \<longleftrightarrow>
     (\<exists>digest now. push_digest X r = Inr digest \<and> clock = Inr now \<and> push_admit X s d r digest = Inr None
        \<and> err_status f < 500
        \<and> s' = s\<lparr>operations := bt_insert (dev_id d, pr_operation_id r)
            (operation_entry (Rejected (pr_operation_id r) digest (err_code f) now) (Some f) t) (operations s)\<rparr>)"

definition push_accepted ::
  "ext \<Rightarrow> device \<Rightarrow> push_request \<Rightarrow> bool \<Rightarrow> u64 sresult \<Rightarrow> int \<Rightarrow> unit sresult \<Rightarrow> store \<Rightarrow> push_receipt \<Rightarrow> store
     \<Rightarrow> bool" where
  "push_accepted X d r e clock t prepare s receipt s' \<longleftrightarrow>
     (\<exists>digest now lvl ws. push_digest X r = Inr digest \<and> clock = Inr now
        \<and> push_admit X s d r digest = Inr None \<and> stored_format X s = Inr lvl \<and> \<not> unknown_level X r
        \<and> validation X s d r e now lvl (bindE (lift_wire (push_validate X r)) (\<lambda>_. prepare)) = Inr ws
        \<and> commit X d r digest now t ws s = Inr (receipt, s'))"

lemma push_cases:
  assumes "push_at X d r e clock t prepare s = (res, s')"
  shows "s' = s
    \<or> (\<exists>f. res = Inl (Failure f) \<and> push_rejected X d r e clock t prepare s f s')
    \<or> (\<exists>receipt. res = Inr receipt \<and> push_accepted X d r e clock t prepare s receipt s')"
proof (rule disjCI)
  assume none: "\<not> ((\<exists>f. res = Inl (Failure f) \<and> push_rejected X d r e clock t prepare s f s')
    \<or> (\<exists>receipt. res = Inr receipt \<and> push_accepted X d r e clock t prepare s receipt s'))"
  show "s' = s"
  proof (rule ccontr)
    assume new: "s' \<noteq> s"
    then obtain digest now where
      ready: "push_digest X r = Inr digest" "clock = Inr now" "push_admit X s d r digest = Inr None"
      and tx: "push_transaction X d r e digest now t (bindE (lift_wire (push_validate X r)) (\<lambda>_. prepare)) s
        = (res, s')"
      using assms by (auto simp: push_at_def bindE_Inr split: sum.splits option.splits)
    show False
      using none new ready tx unfolding push_transaction_def
      by (auto simp: rejection_def save_operation_Inr push_rejected_def push_accepted_def
          split: sum.splits if_splits failure.splits)
  qed
qed

end
