(* ===== verification/Server_Store.thy ===== *)
theory Server_Store
  imports Server_Publish
begin

text \<open>
  The invariant of the whole store, the order in which stores follow each other, and the proof that
  a push and a cancellation keep both.
\<close>

section \<open>Invariant\<close>

definition library_seq :: "store \<Rightarrow> u64" where
  "library_seq s = (case seq_u64 (head_seq (lib_head s)) of None \<Rightarrow> 0 | Some n \<Rightarrow> n)"

definition library_floor :: "store \<Rightarrow> u64" where
  "library_floor s = (case seq_u64 (min_retained_seq (lib_head s)) of None \<Rightarrow> 0 | Some n \<Rightarrow> n)"

definition head_ok :: "store \<Rightarrow> bool" where
  "head_ok s \<longleftrightarrow> head_seq (lib_head s) = sequence_from (library_seq s)
     \<and> min_retained_seq (lib_head s) = sequence_from (library_floor s)
     \<and> library_floor s \<le> library_seq s \<and> (\<forall>q. has (journal s) q \<longrightarrow> library_floor s < q)"

definition devices_ok :: "u64 \<Rightarrow> store \<Rightarrow> bool" where
  "devices_ok n s \<longleftrightarrow> bt_inv (devices s) \<and> (\<forall>i r. map_of (devices s) i = Some r \<longrightarrow> dr_ack r \<le> n)
     \<and> (\<forall>i j r q. map_of (devices s) i = Some r \<longrightarrow> map_of (devices s) j = Some q
          \<longrightarrow> dr_verifier r = dr_verifier q \<longrightarrow> i = j)"

definition writers_ok :: "store \<Rightarrow> bool" where
  "writers_ok s \<longleftrightarrow> bt_inv (writers s)
     \<and> (\<forall>v w d. map_of (writers s) v = Some d \<longrightarrow> map_of (writers s) w = Some d \<longrightarrow> v = w)"

definition claims_ok :: "store \<Rightarrow> bool" where
  "claims_ok s \<longleftrightarrow> bt_inv (claims s)
     \<and> (\<forall>i c. map_of (claims s) i = Some c \<longrightarrow> map_of (writers s) (cl_writer c) = Some i)"

definition operations_ok :: "store \<Rightarrow> bool" where
  "operations_ok s \<longleftrightarrow> bt_inv (operations s)
     \<and> (\<forall>k row. map_of (operations s) k = Some row \<longrightarrow>
          (case or_receipt row of Accepted _ _ \<Rightarrow> True | Rejected _ _ _ _ \<Rightarrow> or_status row \<noteq> None))"

definition pins_ok :: "u64 \<Rightarrow> store \<Rightarrow> bool" where
  "pins_ok n s \<longleftrightarrow> distinct (map fst (state_pins s))
     \<and> (\<forall>(i, p) \<in> set (state_pins s). pin_start p \<le> n \<and> bt_inv (pin_units p)
          \<and> (\<forall>(k, u) \<in> set (pin_units p). key_str (uc_key u) = k))"

definition store_ok :: "ext \<Rightarrow> store \<Rightarrow> bool" where
  "store_ok X s \<longleftrightarrow> head_ok s \<and> content_ok X (library_seq s) s \<and> devices_ok (library_seq s) s
     \<and> writers_ok s \<and> claims_ok s \<and> bt_inv (writer_versions s) \<and> operations_ok s
     \<and> pins_ok (library_seq s) s"

text \<open>How a store may differ from an earlier one.\<close>

definition advances :: "store \<Rightarrow> store \<Rightarrow> bool" where
  "advances s s' \<longleftrightarrow> library_seq s \<le> library_seq s' \<and> library_floor s \<le> library_floor s'
     \<and> (\<forall>k. has (retired s) k \<longrightarrow> has (retired s') k)
     \<and> map_of (writers s) \<subseteq>\<^sub>m map_of (writers s') \<and> map_of (claims s) \<subseteq>\<^sub>m map_of (claims s')
     \<and> head_library_id (lib_head s') = head_library_id (lib_head s)"

definition device_later :: "device_row \<Rightarrow> device_row \<Rightarrow> bool" where
  "device_later r r' \<longleftrightarrow> dr_verifier r' = dr_verifier r \<and> (dr_revoked r \<longrightarrow> dr_revoked r') \<and> dr_ack r \<le> dr_ack r'"

definition keeps :: "store \<Rightarrow> store \<Rightarrow> bool" where
  "keeps s s' \<longleftrightarrow> map_of (operations s) \<subseteq>\<^sub>m map_of (operations s')
     \<and> (\<forall>i r. map_of (devices s) i = Some r \<longrightarrow>
          (\<exists>r'. map_of (devices s') i = Some r' \<and> device_later r r'))"

lemma advances_refl [simp]: "advances s s"
  by (simp add: advances_def)

lemma keeps_refl [simp]: "keeps s s"
  by (simp add: keeps_def device_later_def)

lemma advances_trans: "advances a b \<Longrightarrow> advances b c \<Longrightarrow> advances a c"
  by (auto simp: advances_def intro: map_le_trans)

lemma device_later_trans: "device_later a b \<Longrightarrow> device_later b c \<Longrightarrow> device_later a c"
  by (auto simp: device_later_def)

lemma keeps_trans: "keeps a b \<Longrightarrow> keeps b c \<Longrightarrow> keeps a c"
  unfolding keeps_def by (meson map_le_trans device_later_trans)

definition later :: "store \<Rightarrow> store \<Rightarrow> bool" where
  "later s s' \<longleftrightarrow> advances s s' \<and> keeps s s'"

section \<open>Push\<close>

lemma head_seq_number: "head_ok s \<Longrightarrow> seq_number (head_seq (lib_head s)) = Inr (library_seq s)"
  by (simp add: head_ok_def)

lemma bind_writer_frame [simp]:
  "lib_head (bind_writer d w s) = lib_head s" "devices (bind_writer d w s) = devices s"
  "claims (bind_writer d w s) = claims s" "writer_versions (bind_writer d w s) = writer_versions s"
  "units (bind_writer d w s) = units s" "retired (bind_writer d w s) = retired s"
  "unit_parents (bind_writer d w s) = unit_parents s" "journal (bind_writer d w s) = journal s"
  "operations (bind_writer d w s) = operations s" "state_pins (bind_writer d w s) = state_pins s"
  "format_level (bind_writer d w s) = format_level s" "announced (bind_writer d w s) = announced s"
  by (simp_all add: bind_writer_def)

lemma bind_writer_ok:
  assumes "writers_ok s" and "\<forall>(v, i) \<in> set (writers s). i = dev_id d \<longrightarrow> v = w"
  shows "writers_ok (bind_writer d w s)" and "map_of (writers s) \<subseteq>\<^sub>m map_of (writers (bind_writer d w s))"
proof -
  have own: "v = w" if "map_of (writers s) v = Some (dev_id d)" for v
    using assms(2) map_of_SomeD [OF that] by auto
  show "writers_ok (bind_writer d w s)"
    using assms(1) own by (auto simp: writers_ok_def bind_writer_def bt_inv_insert map_of_bt_insert split: if_splits)
  show "map_of (writers s) \<subseteq>\<^sub>m map_of (writers (bind_writer d w s))"
    using assms(1) by (auto simp: writers_ok_def bind_writer_def map_of_bt_insert map_le_def has_def)
qed

lemma winners_journal:
  assumes "foldE (apply_winner X t) (s, n, acc) ws = Inr (s', n', acc')" and "content_ok X n s"
    and "\<forall>c \<in> set ws. fits X s R c" and "has (journal s') q"
  shows "has (journal s) q \<or> n < q"
  using assms
proof (induction ws arbitrary: s n acc)
  case (Cons c ws)
  obtain m ps where m: "checked_add n 1 = Some m" and ps: "parents X (uc_key c) = Inr ps"
    and rest: "foldE (apply_winner X t) (won X c ps m t s, m, acc @ [uc_key c]) ws = Inr (s', n', acc')"
    using Cons.prems(1) by (auto simp: bindE_Inr apply_winner_won)
  have fits: "fits X s R c" "\<forall>d \<in> set ws. fits X (won X c ps m t s) R d"
    using Cons.prems fits_won [OF Cons.prems(2)] by auto
  have ok: "content_ok X m (won X c ps m t s)"
    using won_content_ok [OF Cons.prems(2) fits(1) ps next_seq [OF m]] .
  have "n < m" using next_seq [OF m] by (simp add: word_less_nat_alt)
  with Cons.IH [OF rest ok fits(2) Cons.prems(4)] show ?case
    by (auto simp: has_Some won_journal [OF Cons.prems(2)])
qed simp

text \<open>What a commit does, in terms of the invariant.\<close>

definition request_keys :: "unit_change list \<Rightarrow> string list" where
  "request_keys cs = map (\<lambda>c. key_str (uc_key c)) cs"

lemma push_winners:
  assumes "store_ok X s" and "validation X s d r e now lvl (bindE (lift_wire (push_validate X r)) (\<lambda>_. p)) = Inr ws"
  shows "\<forall>c \<in> set ws. fits X s (retiring_keys X r) c" and "distinct (request_keys ws)"
    and "set ws \<subseteq> set (pr_changes r)"
    and "\<forall>(v, i) \<in> set (writers s). i = dev_id d \<longrightarrow> v = pr_writer_id r"
    and "map_of (writers s) (pr_writer_id r) \<in> {None, Some (dev_id d)}"
proof -
  have v: "push_validate X r = Inr ()" "writer_check d (pr_writer_id r) s = Inr ()"
    "ws = filter (\<lambda>c. verdict X s now lvl (retiring_keys X r) c = Inr True) (pr_changes r)"
    using assms(2) by (auto simp: validation_Inr bindE_Inr)
  have dist: "distinct (map (\<lambda>c. key_str (uc_key c)) (pr_changes r))"
    using v(1) by (auto simp: push_validate_def bindE_Inr push_loop split: if_splits)
  have "retired_ok X s" using assms(1) by (simp add: store_ok_def content_ok_def)
  from winner_fits [OF this dist] show "\<forall>c \<in> set ws. fits X s (retiring_keys X r) c" by (auto simp: v(3))
  show "distinct (request_keys ws)" using dist by (simp add: request_keys_def v(3) distinct_map_filter)
  show "set ws \<subseteq> set (pr_changes r)" by (auto simp: v(3))
  show "\<forall>(v, i) \<in> set (writers s). i = dev_id d \<longrightarrow> v = pr_writer_id r"
    "map_of (writers s) (pr_writer_id r) \<in> {None, Some (dev_id d)}"
    using v(2) unfolding writer_check_Inr by auto
qed

lemma concluded_simps [simp]:
  "devices (concluded X d r g t ws rc s) = devices s" "writers (concluded X d r g t ws rc s) = writers s"
  "claims (concluded X d r g t ws rc s) = claims s" "units (concluded X d r g t ws rc s) = units s"
  "writer_versions (concluded X d r g t ws rc s) = writer_versions s"
  "retired (concluded X d r g t ws rc s) = retired s" "journal (concluded X d r g t ws rc s) = journal s"
  "unit_parents (concluded X d r g t ws rc s) = unit_parents s"
  "state_pins (concluded X d r g t ws rc s) = state_pins s"
  "library_seq (concluded X d r g t ws rc s) = rc_seq rc"
  "library_floor (concluded X d r g t ws rc s) = library_floor s"
  "head_seq (lib_head (concluded X d r g t ws rc s)) = sequence_from (rc_seq rc)"
  "min_retained_seq (lib_head (concluded X d r g t ws rc s)) = min_retained_seq (lib_head s)"
  "head_library_id (lib_head (concluded X d r g t ws rc s)) = head_library_id (lib_head s)"
  "operations (concluded X d r g t ws rc s) = bt_insert (dev_id d, pr_operation_id r)
     (operation_entry (Accepted g rc) None t) (operations s)"
  by (simp_all add: concluded_def advanced_def library_seq_def library_floor_def)

lemma same_content_concluded: "same_content s (concluded X d r g t ws rc s)"
  by (simp add: same_content_def)

lemma operations_ok_insert:
  assumes "operations_ok s" and "operations s' = bt_insert k row (operations s)"
    and "\<not> has (operations s) k"
    and "case or_receipt row of Accepted _ _ \<Rightarrow> True | Rejected _ _ _ _ \<Rightarrow> or_status row \<noteq> None"
  shows "operations_ok s'" and "map_of (operations s) \<subseteq>\<^sub>m map_of (operations s')"
    and "map_of (operations s') k = Some row"
  using assms by (auto simp: operations_ok_def bt_inv_insert map_of_bt_insert map_le_def has_def)

lemma devices_ok_mono: "devices_ok n s \<Longrightarrow> n \<le> m \<Longrightarrow> devices s' = devices s \<Longrightarrow> devices_ok m s'"
  unfolding devices_ok_def by (metis order_trans)

lemma pins_ok_mono: "pins_ok n s \<Longrightarrow> n \<le> m \<Longrightarrow> state_pins s' = state_pins s \<Longrightarrow> pins_ok m s'"
  unfolding pins_ok_def by (auto intro: order_trans)

lemma same_devices_keep: "devices s' = devices s \<Longrightarrow> map_of (operations s) \<subseteq>\<^sub>m map_of (operations s') \<Longrightarrow> keeps s s'"
  by (auto simp: keeps_def device_later_def)

lemma claims_ok_mono:
  "claims_ok s \<Longrightarrow> claims s' = claims s \<Longrightarrow> map_of (writers s) \<subseteq>\<^sub>m map_of (writers s') \<Longrightarrow> claims_ok s'"
  by (auto simp: claims_ok_def map_le_def) (metis domI)

text \<open>The facts of a commit the properties use.\<close>

definition committed :: "ext \<Rightarrow> device \<Rightarrow> push_request \<Rightarrow> string \<Rightarrow> unit_change list \<Rightarrow> store \<Rightarrow> push_receipt
     \<Rightarrow> store \<Rightarrow> bool" where
  "committed X d r digest ws s receipt s' \<longleftrightarrow>
     store_ok X s' \<and> later s s' \<and> settled X ws s s'
     \<and> library_seq s' = rc_seq receipt \<and> unat (rc_seq receipt) = unat (library_seq s) + length ws
     \<and> rc_operation_id receipt = pr_operation_id r
     \<and> accepted_keys receipt = map uc_key ws
     \<and> (\<exists>row. map_of (operations s') (dev_id d, pr_operation_id r) = Some row
          \<and> or_receipt row = Accepted digest receipt)
     \<and> map_of (writers s') (pr_writer_id r) = Some (dev_id d)
     \<and> (\<forall>c \<in> set ws. (key_str (uc_key c) = KEY \<longrightarrow> parents X (uc_key c) = Inr []) \<longrightarrow> installed X (library_seq s) (retiring_keys X r) s' c)"

lemma commit_committed:
  assumes ok: "store_ok X s"
    and fits: "\<forall>c \<in> set ws. fits X s (retiring_keys X r) c" and dist: "distinct (request_keys ws)"
    and own: "\<forall>(v, i) \<in> set (writers s). i = dev_id d \<longrightarrow> v = pr_writer_id r"
    and free: "map_of (writers s) (pr_writer_id r) \<in> {None, Some (dev_id d)}"
    and commit: "commit X d r digest now t ws s = Inr (receipt, s')"
  shows "committed X d r digest ws s receipt s'"
proof -
  obtain s1 n s2 n' acc
    where v: "foldE (note_version X t) (bind_writer d (pr_writer_id r) s) (pr_changes r) = Inr s1"
    and n: "seq_number (head_seq (lib_head s1)) = Inr n"
    and w: "foldE (apply_winner X t) (s1, n, []) ws = Inr (s2, n', acc)"
    and rc: "receipt = \<lparr>rc_operation_id = pr_operation_id r, rc_seq = n', accepted_keys = acc,
      rc_server_time_ms = now\<rparr>"
    and new: "\<not> has (operations s2) (dev_id d, pr_operation_id r)"
    and s': "s' = concluded X d r digest t ws receipt s2"
    by (rule commit_Inr [OF commit])
  define b where "b = bind_writer d (pr_writer_id r) s"
  have grow: "versions_grow b s1" using note_versions v by (simp add: b_def)
  then obtain vs where s1: "s1 = b\<lparr>writer_versions := vs\<rparr>" unfolding versions_grow_def by metis
  have parts: "head_ok s" "content_ok X (library_seq s) s" "devices_ok (library_seq s) s" "writers_ok s"
    "claims_ok s" "bt_inv (writer_versions s)" "operations_ok s" "pins_ok (library_seq s) s"
    using ok by (simp_all add: store_ok_def)
  have n_eq: "n = library_seq s" using n head_seq_number [OF parts(1)] by (simp add: s1 b_def)
  have same: "same_content s s1" by (simp add: same_content_def s1 b_def)
  have c1: "content_ok X n s1" and f1: "\<forall>c \<in> set ws. fits X s1 (retiring_keys X r) c"
    using parts(2) fits same_content_ok [OF same] fits_content [OF same] by (simp_all add: n_eq)
  note applied = apply_winners [OF w c1 f1]
  have frame: "lib_head s2 = lib_head s" "devices s2 = devices s" "writers s2 = writers b" "claims s2 = claims s"
    "writer_versions s2 = vs" "operations s2 = operations s" "state_pins s2 = state_pins s"
    using applied by (simp_all add: same_rest_def s1 b_def)
  have le: "library_seq s \<le> n'" using applied by (simp add: word_le_nat_alt n_eq)
  have writers: "writers_ok s'" "map_of (writers s) \<subseteq>\<^sub>m map_of (writers s')"
    using bind_writer_ok [OF parts(4) own] by (simp_all add: s' frame b_def writers_ok_def)
  have ops: "operations_ok s'" "map_of (operations s) \<subseteq>\<^sub>m map_of (operations s')"
    "map_of (operations s') (dev_id d, pr_operation_id r) = Some (operation_entry (Accepted digest receipt) None t)"
    using operations_ok_insert [OF parts(7), of s' "(dev_id d, pr_operation_id r)"
        "operation_entry (Accepted digest receipt) None t"] new
    by (simp_all add: s' frame) (simp_all add: operation_entry_def)
  have tail: "library_floor s < q" if "has (journal s') q" for q
  proof -
    from that have "has (journal s1) q \<or> n < q" using winners_journal [OF w c1 f1] by (simp add: s')
    then show ?thesis
      using parts(1) by (auto simp: head_ok_def s1 b_def n_eq intro: order.strict_trans1)
  qed
  have floor: "library_floor s' = library_floor s" "library_floor s2 = library_floor s"
    by (simp_all add: s' library_floor_def frame)
  have "store_ok X s'"
    unfolding store_ok_def
  proof (intro conjI)
    show "head_ok s'"
      using parts(1) tail le unfolding head_ok_def floor
      by (auto simp: s' rc frame intro: order_trans)
    show "content_ok X (library_seq s') s'"
      using applied same_content_ok [OF same_content_concluded] by (simp add: s' rc)
    show "devices_ok (library_seq s') s'" using devices_ok_mono [OF parts(3) le] by (simp add: s' rc frame)
    show "pins_ok (library_seq s') s'" using pins_ok_mono [OF parts(8) le] by (simp add: s' rc frame)
    show "claims_ok s'" using claims_ok_mono [OF parts(5) _ writers(2)] by (simp add: s' frame)
    show "bt_inv (writer_versions s')"
      using grow parts(6) by (simp add: versions_grow_def s' frame b_def s1)
  qed (rule writers ops)+
  moreover have "later s s'"
    unfolding later_def
  proof
    show "advances s s'"
      using writers(2) le applied
      by (auto simp: advances_def floor s' rc frame settled_def s1 b_def)
    show "keeps s s'" using same_devices_keep [OF _ ops(2)] by (simp add: s' frame)
  qed
  moreover have "settled X ws s s'" using applied by (simp add: settled_def s' s1 b_def)
  moreover have "map_of (writers s') (pr_writer_id r) = Some (dev_id d)"
    using free parts(4)
    by (auto simp: s' frame b_def bind_writer_def has_def map_of_bt_insert writers_ok_def)
  moreover have "\<forall>c \<in> set ws. (key_str (uc_key c) = KEY \<longrightarrow> parents X (uc_key c) = Inr []) \<longrightarrow> installed X (library_seq s) (retiring_keys X r) s' c"
    using apply_winners_installed [OF w c1 f1, of n "[]"] dist by (simp add: request_keys_def installed_def s' n_eq)
  ultimately show ?thesis
    using applied ops(3) by (simp add: committed_def s' rc n_eq operation_entry_def)
qed

lemma store_ok_update:
  assumes "store_ok X s" and "same_content s s'" and "lib_head s' = lib_head s"
    and "devices_ok (library_seq s) s'" and "writers_ok s'" and "claims_ok s'"
    and "bt_inv (writer_versions s')" and "operations_ok s'" and "pins_ok (library_seq s) s'"
  shows "store_ok X s'"
proof -
  have "library_seq s' = library_seq s" "library_floor s' = library_floor s" "journal s' = journal s"
    using assms(2,3) by (simp_all add: library_seq_def library_floor_def same_content_def)
  with assms same_content_ok [OF assms(2)] show ?thesis by (simp add: store_ok_def head_ok_def)
qed

lemma insert_operation_ok:
  assumes ok: "store_ok X s" and new: "\<not> has (operations s) k"
    and row: "case or_receipt row of Accepted _ _ \<Rightarrow> True | Rejected _ _ _ _ \<Rightarrow> or_status row \<noteq> None"
  shows "store_ok X (s\<lparr>operations := bt_insert k row (operations s)\<rparr>)"
    and "later s (s\<lparr>operations := bt_insert k row (operations s)\<rparr>)"
proof -
  let ?s = "s\<lparr>operations := bt_insert k row (operations s)\<rparr>"
  have ops: "operations_ok ?s" "map_of (operations s) \<subseteq>\<^sub>m map_of (operations ?s)"
    using operations_ok_insert [of s ?s k row] new row ok by (simp_all add: store_ok_def)
  show "store_ok X ?s"
    using ok ops(1)
    by (intro store_ok_update [OF ok])
      (simp_all add: same_content_def store_ok_def devices_ok_def writers_ok_def claims_ok_def pins_ok_def)
  show "later s ?s"
    using same_devices_keep [of ?s s] ops(2)
    by (simp add: later_def advances_def library_seq_def library_floor_def)
qed

lemma push_accepted_committed:
  assumes "store_ok X s" and "push_accepted X d r e clock t prepare s receipt s'"
  obtains digest now lvl ws
  where "push_digest X r = Inr digest" and "clock = Inr now" and "push_admit X s d r digest = Inr None"
    and "stored_format X s = Inr lvl"
    and "validation X s d r e now lvl (bindE (lift_wire (push_validate X r)) (\<lambda>_. prepare)) = Inr ws"
    and "committed X d r digest ws s receipt s'"
proof -
  from assms(2) obtain digest now lvl ws
    where 1: "push_digest X r = Inr digest" "clock = Inr now" "push_admit X s d r digest = Inr None"
      "stored_format X s = Inr lvl"
      "validation X s d r e now lvl (bindE (lift_wire (push_validate X r)) (\<lambda>_. prepare)) = Inr ws"
      and 2: "commit X d r digest now t ws s = Inr (receipt, s')"
    unfolding push_accepted_def by metis
  from push_winners [OF assms(1) 1(5)] have "committed X d r digest ws s receipt s'"
    by (intro commit_committed [OF assms(1) _ _ _ _ 2])
  with 1 show ?thesis by (rule that)
qed

lemma push_kept:
  assumes "store_ok X s" and "push_at X d r e clock t prepare s = (res, s')"
  shows "store_ok X s' \<and> later s s'"
  using push_cases [OF assms(2)]
proof (elim disjE exE conjE)
  assume "s' = s"
  then show ?thesis using assms(1) by (simp add: later_def)
next
  fix f
  assume "push_rejected X d r e clock t prepare s f s'"
  then show ?thesis
    using insert_operation_ok [OF assms(1)]
    by (auto simp: push_rejected_def push_admit_None operation_entry_def)
next
  fix receipt
  assume "push_accepted X d r e clock t prepare s receipt s'"
  then show ?thesis
    by (rule push_accepted_committed [OF assms(1)]) (simp add: committed_def)
qed

lemma cancel_kept:
  assumes "store_ok X s" and "cancel_operation X d i q clock t s = (res, s')"
  shows "store_ok X s' \<and> later s s'"
  using assms insert_operation_ok [OF assms(1)]
  by (auto simp: cancel_operation_def Let_def save_operation_Inr operation_entry_def later_def
      split: sum.splits option.splits if_splits)

section \<open>Other tables\<close>

lemma map_of_rows: "map_of (map (\<lambda>(j, r). (j, g j r)) xs) i = map_option (g i) (map_of xs i)"
  by (induction xs) auto

lemma bt_inv_rows: "bt_inv (map (\<lambda>(j, r). (j, g j r)) xs) \<longleftrightarrow> bt_inv xs"
  by (simp add: bt_inv_def case_prod_beta comp_def)

text \<open>An update of device rows that only moves them forward.\<close>

lemma device_rows_kept:
  assumes ok: "store_ok X s"
    and g: "\<And>i r. map_of (devices s) i = Some r \<Longrightarrow> device_later r (g i r) \<and> dr_ack (g i r) \<le> library_seq s"
  shows "store_ok X (s\<lparr>devices := map (\<lambda>(i, r). (i, g i r)) (devices s)\<rparr>)"
    and "later s (s\<lparr>devices := map (\<lambda>(i, r). (i, g i r)) (devices s)\<rparr>)"
proof -
  let ?s = "s\<lparr>devices := map (\<lambda>(i, r). (i, g i r)) (devices s)\<rparr>"
  have parts: "devices_ok (library_seq s) s" "writers_ok s" "claims_ok s" "bt_inv (writer_versions s)"
    "operations_ok s" "pins_ok (library_seq s) s"
    using ok by (simp_all add: store_ok_def)
  have "devices_ok (library_seq s) ?s"
    unfolding devices_ok_def
  proof (intro conjI allI impI)
    show "bt_inv (devices ?s)" using parts(1) by (simp add: bt_inv_rows devices_ok_def)
    show "dr_ack r \<le> library_seq s" if "map_of (devices ?s) i = Some r" for i r
      using that g by (auto simp: map_of_rows)
    show "i = j" if i: "map_of (devices ?s) i = Some r" and j: "map_of (devices ?s) j = Some q"
      and v: "dr_verifier r = dr_verifier q" for i j r q
    proof -
      obtain r' where r': "map_of (devices s) i = Some r'" "r = g i r'"
        using i by (auto simp: map_of_rows)
      obtain q' where q': "map_of (devices s) j = Some q'" "q = g j q'"
        using j by (auto simp: map_of_rows)
      note rows = r'(1) q'(1) r'(2) q'(2)
      with v g [OF rows(1)] g [OF rows(2)] have "dr_verifier r' = dr_verifier q'"
        by (simp add: device_later_def)
      with rows(1,2) parts(1) show ?thesis unfolding devices_ok_def by blast
    qed
  qed
  then show "store_ok X ?s"
    using parts by (intro store_ok_update [OF ok])
      (simp_all add: same_content_def writers_ok_def claims_ok_def operations_ok_def pins_ok_def)
  show "later s ?s"
    using g by (auto simp: later_def advances_def keeps_def library_seq_def library_floor_def map_of_rows)
qed

lemma pins_kept:
  assumes "store_ok X s" and "pins_ok (library_seq s) (s\<lparr>state_pins := ps\<rparr>)"
  shows "store_ok X (s\<lparr>state_pins := ps\<rparr>)" and "later s (s\<lparr>state_pins := ps\<rparr>)"
proof -
  show "store_ok X (s\<lparr>state_pins := ps\<rparr>)"
    using assms by (intro store_ok_update [OF assms(1)])
      (simp_all add: store_ok_def same_content_def devices_ok_def writers_ok_def claims_ok_def
        operations_ok_def)
  show "later s (s\<lparr>state_pins := ps\<rparr>)"
    by (auto simp: later_def advances_def keeps_def library_seq_def library_floor_def device_later_def)
qed

lemma announce_kept:
  assumes "store_ok X s"
  shows "store_ok X (announce_head s)" and "later s (announce_head s)"
proof -
  show "store_ok X (announce_head s)"
    using assms by (intro store_ok_update [OF assms])
      (simp_all add: announce_head_def store_ok_def same_content_def devices_ok_def writers_ok_def
        claims_ok_def operations_ok_def pins_ok_def)
  show "later s (announce_head s)"
    by (auto simp: announce_head_def later_def advances_def keeps_def library_seq_def library_floor_def
        device_later_def)
qed

lemma later_trans: "later a b \<Longrightarrow> later b c \<Longrightarrow> later a c"
  by (auto simp: later_def intro: advances_trans keeps_trans)

lemma later_refl [simp]: "later s s"
  by (simp add: later_def)

lemma revoke_rows_kept:
  assumes "store_ok X s"
  shows "store_ok X (revoke_rows P s)" and "later s (revoke_rows P s)"
proof -
  have "dr_ack r \<le> library_seq s" if "map_of (devices s) i = Some r" for i r
    using assms that by (auto simp: store_ok_def devices_ok_def)
  then show "store_ok X (revoke_rows P s)" "later s (revoke_rows P s)"
    unfolding revoke_rows_def
    by (intro device_rows_kept [OF assms]; simp add: device_later_def)+
qed

lemma revoke_device_kept:
  assumes "store_ok X s" and "revoke_device i s = Inr s'"
  shows "store_ok X s' \<and> later s s'"
proof -
  have "s' = announce_head (revoke_rows (\<lambda>j _. j = i) s)"
    using assms(2) by (auto simp: revoke_device_def bindE_Inr split: if_splits)
  with announce_kept [OF revoke_rows_kept(1) [OF assms(1)]] revoke_rows_kept(2) [OF assms(1)]
  show ?thesis by (auto intro: later_trans)
qed

lemma add_named_device_kept:
  assumes ok: "store_ok X s" and a: "add_named_device X token i name request s = Inr (c, s')"
  shows "store_ok X s' \<and> later s s'"
proof -
  define r where "r = \<lparr>dr_verifier = sha256 X (as_bytes token), dr_revoked = False, dr_ack = 0,
    dr_name = name, dr_request = request, dr_last_ack = None\<rparr>"
  have new: "\<not> has (devices s) i" "\<forall>(_, q) \<in> set (devices s). dr_verifier q \<noteq> dr_verifier r"
    and s': "s' = s\<lparr>devices := bt_insert i r (devices s)\<rparr>"
    using a unfolding add_named_device_def r_def [symmetric]
    by (auto simp: insert_device_def list_ex_iff bindE_Inr split: if_splits)
  have d: "devices_ok (library_seq s) s" using ok by (simp add: store_ok_def)
  have fresh: "dr_verifier q \<noteq> dr_verifier r" if "map_of (devices s) j = Some q" for j q
    using new(2) map_of_SomeD [OF that] by auto
  have "devices_ok (library_seq s) s'"
    using d fresh by (fastforce simp: devices_ok_def s' bt_inv_insert map_of_bt_insert r_def split: if_splits)
  then have "store_ok X s'"
    using ok by (intro store_ok_update [OF ok])
      (simp_all add: s' store_ok_def same_content_def writers_ok_def claims_ok_def operations_ok_def pins_ok_def)
  moreover have "later s s'"
    using d new(1)
    by (auto simp: s' later_def advances_def keeps_def library_seq_def library_floor_def device_later_def
        map_of_bt_insert devices_ok_def has_def)
  ultimately show ?thesis by simp
qed

end
