(* ===== verification/Server_Retention.thy ===== *)
theory Server_Retention
  imports Server_Store
begin

text \<open>
  \<^verbatim>\<open>server/sync/src/store/retention.rs\<close>: the custody a device holds of objects. The tables of
  objects and custody stand beside the store. The check of an object's body, which reads a
  file, and the fresh retention ids are arguments.
\<close>

section \<open>Tables and requests\<close>

record object_tables =
  object_sizes :: "(string \<times> u64) list"
  custody :: "((string \<times> string) \<times> string) list"

record object_identity =
  oi_hash :: string
  oi_size :: "sequence option"

record retained_object =
  ro_hash :: string
  ro_size :: sequence
  ro_retention_id :: string

record retention_release =
  rr_device_id :: string
  rr_hash :: string
  rr_retention_id :: string

record retention_page =
  rp_objects :: "retained_object list"
  rp_next_after :: "string option"

definition PAGE_SIZE :: nat where "PAGE_SIZE = 1024"

section \<open>Operations\<close>

definition epoch_gate :: "ext \<Rightarrow> store \<Rightarrow> device \<Rightarrow> string \<Rightarrow> unit sresult" where
  "epoch_gate X s d epoch =
     bindE (require_device X s d) (\<lambda>_.
     if head_epoch (lib_head s) \<noteq> epoch then fail ''epoch-mismatch'' 409 else Inr ())"

type_synonym retain_state = "object_tables \<times> string list \<times> retained_object list"

definition retain_step ::
  "(string \<Rightarrow> u64 \<Rightarrow> unit sresult) \<Rightarrow> (nat \<Rightarrow> string sresult) \<Rightarrow> device \<Rightarrow> retain_state \<Rightarrow> object_identity
     \<Rightarrow> retain_state sresult" where
  "retain_step check_body fresh d acc q =
     (case acc of (t, seen, kept) \<Rightarrow>
        bindE (lift_wire (validate_hash (oi_hash q))) (\<lambda>_.
        if oi_hash q \<in> set seen then fail ''duplicate-object'' 400
        else
          bindE (ok_or (map_of (object_sizes t) (oi_hash q)) (Failure (error_new ''object-not-found'' 404))) (\<lambda>n.
          if oi_size q \<notin> {None, Some (sequence_from n)} then fail ''object-size-mismatch'' 409
          else
            bindE (check_body (oi_hash q) n) (\<lambda>_.
            bindE (fresh (length kept)) (\<lambda>i.
            Inr (t\<lparr>custody := bt_insert (dev_id d, oi_hash q) i (custody t)\<rparr>, oi_hash q # seen,
                 kept @ [\<lparr>ro_hash = oi_hash q, ro_size = sequence_from n, ro_retention_id = i\<rparr>]))))))"

definition retain_objects ::
  "ext \<Rightarrow> (string \<Rightarrow> u64 \<Rightarrow> unit sresult) \<Rightarrow> (nat \<Rightarrow> string sresult) \<Rightarrow> store \<Rightarrow> device \<Rightarrow> string
     \<Rightarrow> object_identity list \<Rightarrow> object_tables \<Rightarrow> retained_object list sresult \<times> object_tables" where
  "retain_objects X check_body fresh s d epoch objs t =
     (if length objs > PAGE_SIZE then (fail ''too-many-objects'' 400, t)
      else
        case bindE (epoch_gate X s d epoch) (\<lambda>_. foldE (retain_step check_body fresh d) (t, [], []) objs) of
          Inl f \<Rightarrow> (Inl f, t)
        | Inr (t', _, kept) \<Rightarrow> (Inr kept, t'))"

definition custody_rows :: "object_tables \<Rightarrow> string \<Rightarrow> retained_object list" where
  "custody_rows t i =
     List.map_filter (\<lambda>((j, h), r).
       if j = i then map_option (\<lambda>n. \<lparr>ro_hash = h, ro_size = sequence_from n, ro_retention_id = r\<rparr>)
         (map_of (object_sizes t) h) else None) (custody t)"

definition retained_objects ::
  "ext \<Rightarrow> store \<Rightarrow> object_tables \<Rightarrow> device \<Rightarrow> string \<Rightarrow> string option \<Rightarrow> retention_page sresult" where
  "retained_objects X s t d epoch after =
     bindE (case after of None \<Rightarrow> Inr () | Some h \<Rightarrow> lift_wire (validate_hash h)) (\<lambda>_.
     bindE (epoch_gate X s d epoch) (\<lambda>_.
     let start = (case after of None \<Rightarrow> [] | Some h \<Rightarrow> h);
         rows = take 1025 (filter (\<lambda>r. start < ro_hash r) (custody_rows t (dev_id d))) in
     Inr \<lparr>rp_objects = take PAGE_SIZE rows,
           rp_next_after = (if length rows > PAGE_SIZE then Some (ro_hash (rows ! (PAGE_SIZE - 1))) else None)\<rparr>))"

definition release_step :: "store \<Rightarrow> device \<Rightarrow> object_tables \<Rightarrow> retention_release \<Rightarrow> object_tables sresult" where
  "release_step s d t q =
     bindE (lift_wire (validate_hash (rr_hash q))) (\<lambda>_.
     bindE (lift_wire (validate_hash (rr_retention_id q))) (\<lambda>_.
     if rr_device_id q \<noteq> dev_id d \<and> active s (rr_device_id q) then fail ''retention-device-active'' 409
     else Inr (t\<lparr>custody := filter (\<lambda>((i, h), r).
       \<not> (i = rr_device_id q \<and> h = rr_hash q \<and> r = rr_retention_id q)) (custody t)\<rparr>)))"

definition release_retained_objects ::
  "ext \<Rightarrow> store \<Rightarrow> device \<Rightarrow> string \<Rightarrow> retention_release list \<Rightarrow> object_tables \<Rightarrow> unit sresult \<times> object_tables" where
  "release_retained_objects X s d epoch objs t =
     (if length objs > PAGE_SIZE then (fail ''too-many-objects'' 400, t)
      else
        case bindE (epoch_gate X s d epoch) (\<lambda>_. foldE (release_step s d) t objs) of
          Inl f \<Rightarrow> (Inl f, t)
        | Inr t' \<Rightarrow> (Inr (), t'))"

section \<open>Lemmas\<close>

definition released :: "retention_release \<Rightarrow> (string \<times> string) \<times> string \<Rightarrow> bool" where
  "released q row \<longleftrightarrow> row = ((rr_device_id q, rr_hash q), rr_retention_id q)"

lemma release_loop:
  "foldE (release_step s d) t objs = Inr t' \<Longrightarrow>
     t' = t\<lparr>custody := filter (\<lambda>row. \<not> list_ex (\<lambda>q. released q row) objs) (custody t)\<rparr>
     \<and> list_all (\<lambda>q. rr_device_id q = dev_id d \<or> \<not> active s (rr_device_id q)) objs"
proof (induction objs arbitrary: t)
  case (Cons q objs)
  then obtain t1 where step: "release_step s d t q = Inr t1" and rest: "foldE (release_step s d) t1 objs = Inr t'"
    by (auto simp: bindE_Inr)
  have "t1 = t\<lparr>custody := filter (\<lambda>row. \<not> released q row) (custody t)\<rparr>"
    and "rr_device_id q = dev_id d \<or> \<not> active s (rr_device_id q)"
    using step by (auto simp: release_step_def bindE_Inr released_def case_prod_unfold prod_eq_iff
        intro!: filter_cong split: if_splits)
  with Cons.IH [OF rest] show ?case by (auto simp: conj_commute intro: filter_cong)
qed simp

lemma retain_step_Inr:
  "retain_step check_body fresh d (t, seen, kept) q = Inr r \<Longrightarrow>
     oi_hash q \<notin> set seen \<and> (\<exists>n i. map_of (object_sizes t) (oi_hash q) = Some n
       \<and> check_body (oi_hash q) n = Inr ()
       \<and> r = (t\<lparr>custody := bt_insert (dev_id d, oi_hash q) i (custody t)\<rparr>, oi_hash q # seen,
           kept @ [\<lparr>ro_hash = oi_hash q, ro_size = sequence_from n, ro_retention_id = i\<rparr>]))"
  by (auto simp: retain_step_def bindE_Inr split: if_splits)

lemma retain_loop:
  assumes "foldE (retain_step check_body fresh d) (t, seen, kept) objs = Inr (t', seen', kept')"
    and "bt_inv (custody t)"
  shows "bt_inv (custody t') \<and> object_sizes t' = object_sizes t
    \<and> distinct (map oi_hash objs) \<and> set (map oi_hash objs) \<inter> set seen = {}
    \<and> (\<exists>new. kept' = kept @ new \<and> map ro_hash new = map oi_hash objs
        \<and> (\<forall>r \<in> set new. map_of (custody t') (dev_id d, ro_hash r) = Some (ro_retention_id r)
             \<and> (\<exists>n. map_of (object_sizes t) (ro_hash r) = Some n \<and> ro_size r = sequence_from n
                  \<and> check_body (ro_hash r) n = Inr ())))
    \<and> (\<forall>k. fst k \<noteq> dev_id d \<or> snd k \<notin> set (map oi_hash objs) \<longrightarrow> map_of (custody t') k = map_of (custody t) k)"
  using assms
proof (induction objs arbitrary: t seen kept)
  case (Cons q objs)
  obtain st where step: "retain_step check_body fresh d (t, seen, kept) q = Inr st"
    and loop: "foldE (retain_step check_body fresh d) st objs = Inr (t', seen', kept')"
    using Cons.prems(1) by (auto simp: bindE_Inr)
  from retain_step_Inr [OF step] obtain n i where row: "map_of (object_sizes t) (oi_hash q) = Some n"
    and fresh: "oi_hash q \<notin> set seen" and body: "check_body (oi_hash q) n = Inr ()"
    and st: "st = (t\<lparr>custody := bt_insert (dev_id d, oi_hash q) i (custody t)\<rparr>, oi_hash q # seen,
       kept @ [\<lparr>ro_hash = oi_hash q, ro_size = sequence_from n, ro_retention_id = i\<rparr>])"
    by (elim conjE exE)
  note rest = loop [unfolded st]
  have inv: "bt_inv (custody (t\<lparr>custody := bt_insert (dev_id d, oi_hash q) i (custody t)\<rparr>))"
    using Cons.prems(2) by (simp add: bt_inv_insert)
  note ih = Cons.IH [OF rest inv]
  then obtain new where new: "kept' = (kept @ [\<lparr>ro_hash = oi_hash q, ro_size = sequence_from n,
      ro_retention_id = i\<rparr>]) @ new" "map ro_hash new = map oi_hash objs"
    "\<forall>r \<in> set new. map_of (custody t') (dev_id d, ro_hash r) = Some (ro_retention_id r)
       \<and> (\<exists>n. map_of (object_sizes t) (ro_hash r) = Some n \<and> ro_size r = sequence_from n
            \<and> check_body (ro_hash r) n = Inr ())"
    by (elim conjE exE) simp
  have own: "map_of (custody t') (dev_id d, oi_hash q) = Some i"
    using ih Cons.prems(2) by (auto simp: map_of_bt_insert)
  show ?case
  proof (intro conjI)
    show "\<exists>new. kept' = kept @ new \<and> map ro_hash new = map oi_hash (q # objs)
        \<and> (\<forall>r \<in> set new. map_of (custody t') (dev_id d, ro_hash r) = Some (ro_retention_id r)
             \<and> (\<exists>n. map_of (object_sizes t) (ro_hash r) = Some n \<and> ro_size r = sequence_from n
                  \<and> check_body (ro_hash r) n = Inr ()))"
      using new own row body
      by (intro exI [of _ "\<lparr>ro_hash = oi_hash q, ro_size = sequence_from n, ro_retention_id = i\<rparr> # new"]) auto
  qed (use ih fresh Cons.prems(2) in \<open>auto simp: map_of_bt_insert\<close>)
qed (auto simp: exI [of _ "[]"])

section \<open>Properties\<close>

text \<open>Objects a device retained are all in its custody under the ids of the reply, each once, with
  the recorded size and a body that passed the check; no other custody changes, and a refused
  request changes none.\<close>

theorem retain_objects_spec:
  "case retain_objects X check_body fresh s d epoch objs t of
     (Inl _, t') \<Rightarrow> t' = t
   | (Inr kept, t') \<Rightarrow>
       if bt_inv (custody t) then
         distinct (map ro_hash kept) \<and> map ro_hash kept = map oi_hash objs
         \<and> list_all (\<lambda>r. map_of (custody t') (dev_id d, ro_hash r) = Some (ro_retention_id r)
             \<and> (case map_of (object_sizes t) (ro_hash r) of
                  None \<Rightarrow> False
                | Some n \<Rightarrow> ro_size r = sequence_from n \<and> check_body (ro_hash r) n = Inr ())) kept
         \<and> (\<forall>k. k \<in> (\<lambda>r. (dev_id d, ro_hash r)) ` set kept \<or> map_of (custody t') k = map_of (custody t) k)
       else True"
proof (cases "retain_objects X check_body fresh s d epoch objs t")
  case (Pair res t')
  show ?thesis
  proof (cases res)
    case (Inl f)
    with Pair show ?thesis by (auto simp: retain_objects_def split: sum.splits if_splits)
  next
    case (Inr kept)
    with Pair obtain seen' where loop:
      "foldE (retain_step check_body fresh d) (t, [], []) objs = Inr (t', seen', kept)"
      by (auto simp: retain_objects_def bindE_Inr split: sum.splits if_splits)
    show ?thesis
    proof (cases "bt_inv (custody t)")
      case True
      note l = retain_loop [OF loop True]
      then have hashes: "map ro_hash kept = map oi_hash objs" by auto
      have img: "set (map oi_hash objs) = ro_hash ` set kept" using hashes by (metis set_map)
      have frame: "k \<in> (\<lambda>r. (dev_id d, ro_hash r)) ` set kept \<or> map_of (custody t') k = map_of (custody t) k"
        for k
      proof (cases "fst k \<noteq> dev_id d \<or> snd k \<notin> ro_hash ` set kept")
        case True
        with l show ?thesis unfolding img by blast
      next
        case False
        then show ?thesis by (cases k) auto
      qed
      show ?thesis using l True frame unfolding Pair Inr by (auto simp: hashes list_all_iff)
    qed (simp add: Pair Inr)
  qed
qed

text \<open>A release removes exactly the custody rows it names by device, object and retention id, so a
  delayed release never removes a newer retention, and only rows of the caller or of a device that
  is not active; a refused request changes nothing.\<close>

theorem release_exact:
  "case release_retained_objects X s d epoch objs t of
     (Inl _, t') \<Rightarrow> t' = t
   | (Inr _, t') \<Rightarrow>
       t' = t\<lparr>custody := filter (\<lambda>row. row \<notin> (\<lambda>q. ((rr_device_id q, rr_hash q), rr_retention_id q)) ` set objs) (custody t)\<rparr>
       \<and> list_all (\<lambda>q. if active s (rr_device_id q) then rr_device_id q = dev_id d else True) objs"
proof (cases "release_retained_objects X s d epoch objs t")
  case (Pair res t')
  show ?thesis
  proof (cases res)
    case (Inl f)
    with Pair show ?thesis by (auto simp: release_retained_objects_def split: sum.splits if_splits)
  next
    case (Inr u)
    with Pair have "foldE (release_step s d) t objs = Inr t'"
      by (auto simp: release_retained_objects_def bindE_Inr split: sum.splits if_splits)
    from release_loop [OF this] have "t' = t\<lparr>custody := filter (\<lambda>row. \<not> list_ex (\<lambda>q. released q row) objs) (custody t)\<rparr>"
      "list_all (\<lambda>q. rr_device_id q = dev_id d \<or> \<not> active s (rr_device_id q)) objs"
      by simp_all
    then show ?thesis unfolding Pair Inr
      by (auto simp: list_ex_iff list_all_iff released_def image_iff intro!: filter_cong)
  qed
qed

end
