(* ===== verification/Server_Read.thy ===== *)
theory Server_Read
  imports Server_Store
begin

text \<open>
  \<^verbatim>\<open>server/sync/src/store/lww.rs\<close>, the reads of a device and its acknowledgement: pages of the
  journal, pins of a state and their pages. The table of pins is a list in the order of its row
  ids; a pin carries the rows of \<^verbatim>\<open>state_pin_units\<close>. A stored body is the canonical text of
  the value it was written from. \<open>now\<close> is the clock of the process, \<open>sql_now\<close> the value of
  \<^verbatim>\<open>unixepoch()\<close>.
\<close>

section \<open>Pages\<close>

definition item_value :: "journal_item \<Rightarrow> json" where
  "item_value i = struct_value
     [(''seq'', JString (decimal_string (ji_seq i))), (''key'', JString (key_str (ji_key i))),
      (''stamp'', stamp_value (ji_stamp i)), (''value'', unit_value_value (ji_value i))]"

definition item_body :: "ext \<Rightarrow> journal_item \<Rightarrow> bytes" where
  "item_body X i = json_text X (item_value i)"

definition unit_body :: "ext \<Rightarrow> unit_change \<Rightarrow> bytes" where
  "unit_body X u = json_text X (change_value u)"

text \<open>The loop over the rows of a page: it stops at the limit or before the reply grows too large.\<close>

fun take_page :: "nat \<Rightarrow> ('a \<Rightarrow> nat) \<Rightarrow> nat \<Rightarrow> 'a list \<Rightarrow> 'a list \<Rightarrow> 'a list \<times> bool" where
  "take_page limit len used items [] = (items, False)"
| "take_page limit len used items (row # rows) =
     (if length items = limit \<or> used + len row > MAX_METADATA_BYTES - 1024 then (items, True)
      else take_page limit len (used + len row) (items @ [row]) rows)"

definition read_rows :: "nat \<Rightarrow> ('a \<Rightarrow> nat) \<Rightarrow> 'a list \<Rightarrow> ('a list \<times> bool) sresult" where
  "read_rows limit len rows =
     (case take_page limit len 512 [] (take (limit + 1) rows) of
        (items, further) \<Rightarrow>
          if further \<and> items = [] then fail ''metadata-too-large'' 413 else Inr (items, further))"

definition changes :: "ext \<Rightarrow> store \<Rightarrow> device \<Rightarrow> u64 \<Rightarrow> nat \<Rightarrow> changes_page sresult" where
  "changes X s d after limit =
     (if limit = 0 \<or> limit > 1024 then fail ''invalid-limit'' 400
      else
        bindE (require_device X s d) (\<lambda>_.
        bindE (seq_decimal (head_seq (lib_head s))) (\<lambda>through.
        bindE (seq_decimal (min_retained_seq (lib_head s))) (\<lambda>floor.
        if after < floor \<or> through < after
        then Inl (Failure (with_floor (error_new ''journal-floor'' 410) floor through))
        else
          bindE (read_rows limit (\<lambda>i. length (item_body X i))
            (map (\<lambda>(_, i, _). i) (filter (\<lambda>(q, _). after < q \<and> q \<le> through) (journal s)))) (\<lambda>(items, further).
          Inr \<lparr>through_seq = through, cp_journal_floor = floor, cp_items = items,
                next_after = (if further then (if items = [] then after else ji_seq (last items))
                              else through)\<rparr>)))))"

section \<open>State pins\<close>

definition STATE_PIN_LIFETIME_SECONDS :: int where
  "STATE_PIN_LIFETIME_SECONDS = 24 * 60 * 60"

definition live_pin :: "string \<Rightarrow> int \<Rightarrow> pin_row \<Rightarrow> bool" where
  "live_pin i sql_now p \<longleftrightarrow> pin_device p = i \<and> sql_now < pin_expires p"

text \<open>\<^verbatim>\<open>ORDER BY rowid DESC LIMIT -1 OFFSET 3\<close>\<close>

definition surplus_pins :: "string \<Rightarrow> int \<Rightarrow> (string \<times> pin_row) list \<Rightarrow> string list" where
  "surplus_pins i sql_now pins = map fst (drop 3 (rev (filter (\<lambda>(_, p). live_pin i sql_now p) pins)))"

definition drop_pins :: "string list \<Rightarrow> (string \<times> pin_row) list \<Rightarrow> (string \<times> pin_row) list" where
  "drop_pins ids pins = filter (\<lambda>(i, _). i \<notin> set ids) pins"

definition create_state_pin ::
  "ext \<Rightarrow> device \<Rightarrow> string \<Rightarrow> int sresult \<Rightarrow> int \<Rightarrow> store \<Rightarrow> state_pin sresult \<times> store" where
  "create_state_pin X d fresh now sql_now s =
     (let result =
        bindE (require_device X s d) (\<lambda>_.
        bindE now (\<lambda>current.
        bindE (if current + STATE_PIN_LIFETIME_SECONDS < 2 ^ 63
               then Inr (current + STATE_PIN_LIFETIME_SECONDS) else fail ''clock-overflow'' 503) (\<lambda>expires.
        let pins = drop_pins (surplus_pins (dev_id d) sql_now (state_pins s)) (state_pins s) in
        if has pins fresh then fail ''metadata-storage'' 503
        else
          bindE (seq_decimal (head_seq (lib_head s))) (\<lambda>seq.
          Inr (\<lparr>sp_pin_id = fresh, sp_start_seq = seq, sp_expires_at_ms = of_int expires * 1000,
                 sp_unit_count = of_nat (length (units s))\<rparr>,
               s\<lparr>state_pins := pins @ [(fresh, \<lparr>pin_device = dev_id d, pin_start = seq,
                   pin_expires = expires, pin_units = units s\<rparr>)]\<rparr>))))) in
      case result of Inl f \<Rightarrow> (Inl f, s) | Inr (pin, s') \<Rightarrow> (Inr pin, s'))"

definition state_page ::
  "ext \<Rightarrow> store \<Rightarrow> device \<Rightarrow> string \<Rightarrow> unit_key option \<Rightarrow> nat \<Rightarrow> int \<Rightarrow> state_page sresult" where
  "state_page X s d pin after limit sql_now =
     bindE (lift_wire (validate_id pin)) (\<lambda>_.
     if limit = 0 \<or> limit > 1024 then fail ''invalid-limit'' 400
     else
       bindE (require_device X s d) (\<lambda>_.
       case map_of (state_pins s) pin of
         None \<Rightarrow> fail ''state-pin-expired'' 410
       | Some p \<Rightarrow>
           if \<not> live_pin (dev_id d) sql_now p then fail ''state-pin-expired'' 410
           else
             let start = (case after of None \<Rightarrow> [] | Some k \<Rightarrow> key_str k) in
             bindE (read_rows limit (\<lambda>u. length (unit_body X u))
               (map snd (filter (\<lambda>(k, _). start < k) (pin_units p)))) (\<lambda>(items, further).
             Inr \<lparr>pg_pin_id = pin, pg_start_seq = pin_start p, pg_items = items,
                   pg_next_key = (if further \<and> items \<noteq> [] then Some (uc_key (last items)) else None)\<rparr>)))"

definition release_state_pin :: "ext \<Rightarrow> device \<Rightarrow> string \<Rightarrow> store \<Rightarrow> unit sresult \<times> store" where
  "release_state_pin X d pin s =
     (case bindE (lift_wire (validate_id pin)) (\<lambda>_. require_device X s d) of
        Inl f \<Rightarrow> (Inl f, s)
      | Inr _ \<Rightarrow> (Inr (), s\<lparr>state_pins :=
          filter (\<lambda>(i, p). \<not> (i = pin \<and> pin_device p = dev_id d)) (state_pins s)\<rparr>))"

section \<open>Acknowledgement\<close>

definition update_device :: "string \<Rightarrow> (device_row \<Rightarrow> device_row) \<Rightarrow> store \<Rightarrow> store" where
  "update_device i f s = s\<lparr>devices := map (\<lambda>(j, r). (j, if j = i then f r else r)) (devices s)\<rparr>"

definition acknowledge :: "ext \<Rightarrow> device \<Rightarrow> ack_request \<Rightarrow> int \<Rightarrow> store \<Rightarrow> unit sresult \<times> store" where
  "acknowledge X d q sql_now s =
     (let result =
        bindE (require_device X s d) (\<lambda>_.
        bindE (ok_or (map_of (devices s) (dev_id d)) (Failure (error_new ''metadata-storage'' 503))) (\<lambda>row.
        bindE (seq_decimal (head_seq (lib_head s))) (\<lambda>latest.
        if ack_seq q < dr_ack row \<or> latest < ack_seq q then fail ''invalid-ack'' 409
        else Inr (update_device (dev_id d) (\<lambda>r. r\<lparr>dr_ack := ack_seq q, dr_last_ack := Some sql_now\<rparr>) s)))) in
      case result of Inl f \<Rightarrow> (Inl f, s) | Inr s' \<Rightarrow> (Inr (), s'))"

definition server_time_sample :: "u64 sresult \<Rightarrow> time_sample sresult" where
  "server_time_sample clock = bindE clock (\<lambda>now. Inr \<lparr>ts_server_time_ms = now, ts_precision_ms = 1\<rparr>)"

section \<open>Lemmas\<close>

lemma take_page_prefix:
  "take_page limit len used items rows = (items', further) \<Longrightarrow> length items \<le> limit \<Longrightarrow>
     \<exists>k \<le> length rows. items' = items @ take k rows \<and> (further \<longleftrightarrow> k < length rows) \<and> length items' \<le> limit"
proof (induction limit len used items rows rule: take_page.induct)
  case (2 limit len used items row rows)
  show ?case
  proof (cases "length items = limit \<or> used + len row > MAX_METADATA_BYTES - 1024")
    case True
    with 2(2,3) show ?thesis by (intro exI [of _ 0]) auto
  next
    case False
    then have "take_page limit len (used + len row) (items @ [row]) rows = (items', further)"
      "length (items @ [row]) \<le> limit"
      using 2(2,3) by auto
    from 2(1) [OF False this] obtain k where "k \<le> length rows" "items' = (items @ [row]) @ take k rows"
      "further \<longleftrightarrow> k < length rows" "length items' \<le> limit"
      by (elim exE conjE)
    then show ?thesis by (intro exI [of _ "Suc k"]) auto
  qed
qed simp

lemma read_rows_prefix:
  assumes "read_rows limit len rows = Inr (items, further)" and "0 < limit"
  obtains k where "k \<le> length rows" "items = take k rows" "further \<longleftrightarrow> k < length rows" "length items \<le> limit"
    "further \<Longrightarrow> 0 < k"
proof -
  have tp: "take_page limit len 512 [] (take (limit + 1) rows) = (items, further)" and ne: "further \<Longrightarrow> items \<noteq> []"
    using assms(1) by (auto simp: read_rows_def split: prod.splits if_splits)
  obtain k where k: "k \<le> length (take (limit + 1) rows)" "items = take k (take (limit + 1) rows)"
    "further \<longleftrightarrow> k < length (take (limit + 1) rows)" "length items \<le> limit"
    using take_page_prefix [OF tp, unfolded append_Nil list.size(3), OF le0] by (elim exE conjE)
  have len: "length items = k" using k(1,2) by simp
  show ?thesis
  proof (rule that [of k])
    show "items = take k rows" using k(2,4) len by (simp add: min_def)
    show "further \<longleftrightarrow> k < length rows" using k(1,3,4) len by auto
    show "0 < k" if further using ne [OF that] len by auto
  qed (use k in auto)
qed

lemma sorted_take:
  "bt_inv rows \<Longrightarrow> 0 < k \<Longrightarrow> k \<le> length rows \<Longrightarrow>
     filter (\<lambda>(q, _). q \<le> fst (rows ! (k - 1))) rows = take k rows"
proof (induction rows arbitrary: k)
  case (Cons row rows)
  obtain q v where row: "row = (q, v)" by (cases row)
  have less: "\<forall>y \<in> set rows. q < fst y" using Cons.prems(1) by (simp add: row)
  show ?case
  proof (cases "k = 1")
    case True
    have "filter (\<lambda>(p, _). p \<le> q) rows = []" using less by (auto simp: filter_empty_conv not_le)
    with True show ?thesis by (simp add: row)
  next
    case False
    then obtain j where j: "k = Suc j" "0 < j" using Cons.prems(2) by (cases k) auto
    then have "rows ! (j - 1) \<in> set rows" using Cons.prems(3) by simp
    with less have "q \<le> fst (rows ! (j - 1))" by auto
    with Cons.IH [of j] Cons.prems j show ?thesis by (simp add: row)
  qed
qed simp

text \<open>A prefix of the sorted rows is the rows up to its last key.\<close>

lemma page_rows:
  assumes "bt_inv rows" and "k < length rows" and "0 < k"
  shows "take k (map f rows) = map f (filter (\<lambda>(q, _). q \<le> fst (rows ! (k - 1))) rows)"
    and "last (take k (map f rows)) = f (rows ! (k - 1))"
proof -
  show "take k (map f rows) = map f (filter (\<lambda>(q, _). q \<le> fst (rows ! (k - 1))) rows)"
    using sorted_take [OF assms(1,3)] assms(2) by (simp add: take_map)
  have "take k (map f rows) \<noteq> []" using assms(2,3) by auto
  then show "last (take k (map f rows)) = f (rows ! (k - 1))"
    using assms(2,3) by (subst last_conv_nth) (auto simp: min_def)
qed

text \<open>Rows between two cursors.\<close>

definition rows_between :: "u64 \<Rightarrow> u64 \<Rightarrow> store \<Rightarrow> journal_item list" where
  "rows_between a b s = map (\<lambda>(_, i, _). i) (filter (\<lambda>(q, _). a < q \<and> q \<le> b) (journal s))"

definition keys_between :: "string \<Rightarrow> string option \<Rightarrow> (string \<times> unit_change) list \<Rightarrow> unit_change list" where
  "keys_between a b us =
     map snd (filter (\<lambda>(k, _). a < k \<and> (case b of None \<Rightarrow> True | Some l \<Rightarrow> k \<le> l)) us)"

lemma changes_spec:
  assumes ok: "store_ok X s" and c: "changes X s d after limit = Inr p"
  shows "cp_items p = rows_between after (next_after p) s
    \<and> through_seq p = library_seq s \<and> cp_journal_floor p = library_floor s
    \<and> library_floor s \<le> after \<and> after \<le> next_after p \<and> next_after p \<le> through_seq p
    \<and> (after < next_after p \<or> next_after p = through_seq p) \<and> length (cp_items p) \<le> limit"
proof -
  have head: "head_ok s" and j: "journal_ok (library_seq s) s"
    using ok by (simp_all add: store_ok_def content_ok_def)
  define rows where "rows = filter (\<lambda>(q, _). after < q \<and> q \<le> library_seq s) (journal s)"
  have jb: "bt_inv (journal s)" using j by (simp add: journal_ok_def)
  then have inv: "bt_inv rows" by (simp add: rows_def bt_inv_filter)
  have jd: "map_of (journal s) q = Some r \<longleftrightarrow> (q, r) \<in> set (journal s)" for q r
    using bt_inv_distinct [OF jb] by simp
  have dec: "seq_decimal (head_seq (lib_head s)) = Inr (library_seq s)"
    "seq_decimal (min_retained_seq (lib_head s)) = Inr (library_floor s)"
    using head unfolding head_ok_def by (metis seq_decimal_from)+
  have "\<not> (limit = 0 \<or> 1024 < limit)"
  proof
    assume "limit = 0 \<or> 1024 < limit"
    with c show False by (simp add: changes_def)
  qed
  then have limit: "limit \<noteq> 0" "\<not> 1024 < limit" by simp_all
  obtain u where u: "require_device X s d = Inr u"
    using c limit by (cases "require_device X s d") (simp_all add: changes_def)
  have a: "\<not> (after < library_floor s \<or> library_seq s < after)"
  proof
    assume "after < library_floor s \<or> library_seq s < after"
    with c limit u show False by (simp add: changes_def dec)
  qed
  define page where "page = (\<lambda>(items, further).
    \<lparr>through_seq = library_seq s, cp_journal_floor = library_floor s, cp_items = items,
      next_after = (if further then (if items = [] then after else ji_seq (last items))
        else library_seq s)\<rparr>)"
  have "bindE (read_rows limit (\<lambda>i. length (item_body X i)) (map (\<lambda>(_, i, _). i) rows))
      (\<lambda>(items, further). Inr (page (items, further))) = Inr p"
    using c limit u a by (simp add: changes_def dec rows_def page_def)
  then obtain items further
    where r: "read_rows limit (\<lambda>i. length (item_body X i)) (map (\<lambda>(_, i, _). i) rows) = Inr (items, further)"
    and p: "p = \<lparr>through_seq = library_seq s, cp_journal_floor = library_floor s, cp_items = items,
      next_after = (if further then (if items = [] then after else ji_seq (last items)) else library_seq s)\<rparr>"
    by (auto simp: bindE_Inr page_def)
  obtain k where k: "k \<le> length rows" "items = take k (map (\<lambda>(_, i, _). i) rows)"
    "further \<longleftrightarrow> k < length rows" "length items \<le> limit" "further \<Longrightarrow> 0 < k"
    using read_rows_prefix [OF r] limit by auto
  have a: "library_floor s \<le> after" "after \<le> library_seq s" using a by auto
  show ?thesis
  proof (cases further)
    case False
    with k have "items = map (\<lambda>(_, i, _). i) rows" by simp
    then show ?thesis using False a k(4) by (auto simp: p rows_between_def rows_def)
  next
    case True
    with k have k': "k < length rows" "0 < k" by auto
    obtain q i t where row: "rows ! (k - 1) = (q, i, t)" by (cases "rows ! (k - 1)")
    with k' have mem: "(q, i, t) \<in> set rows" using nth_mem [of "k - 1" rows] by simp
    then have q: "after < q" "q \<le> library_seq s" "ji_seq i = q"
      using journal_row [OF j, of q i t] jd by (auto simp: rows_def)
    have "items \<noteq> []" using k(1,2) k' by auto
    then have next_q: "next_after p = q"
      using True page_rows(2) [OF inv k', of "\<lambda>(_, i, _). i"] k(2) row q(3) by (simp add: p)
    have "items = map (\<lambda>(_, i, _). i) (filter (\<lambda>(p, _). p \<le> q) rows)"
      using page_rows(1) [OF inv k', of "\<lambda>(_, i, _). i"] k(2) row by simp
    also have "filter (\<lambda>(p, _). p \<le> q) rows = filter (\<lambda>(p, _). after < p \<and> p \<le> q) (journal s)"
      using q(2) unfolding rows_def filter_filter by (intro filter_cong) auto
    finally have "cp_items p = rows_between after q s" by (simp add: p rows_between_def)
    with next_q q a k(4) show ?thesis by (simp add: p)
  qed
qed

lemma state_page_spec:
  assumes ok: "store_ok X s" and c: "state_page X s d pin after limit now = Inr p"
  shows "(case map_of (state_pins s) pin of
       None \<Rightarrow> False
     | Some row \<Rightarrow>
         live_pin (dev_id d) now row \<and> pg_start_seq p = pin_start row
         \<and> pg_items p = keys_between (case after of None \<Rightarrow> [] | Some k \<Rightarrow> key_str k)
             (map_option key_str (pg_next_key p)) (pin_units row)
         \<and> (case pg_next_key p of
              None \<Rightarrow> True
            | Some k \<Rightarrow> (case after of None \<Rightarrow> [] | Some k \<Rightarrow> key_str k) < key_str k)
         \<and> length (pg_items p) \<le> limit)"
proof -
  obtain row where row: "map_of (state_pins s) pin = Some row" and live: "live_pin (dev_id d) now row"
    using c unfolding state_page_def by (auto simp: bindE_Inr split: option.splits if_splits)
  define start where "start = (case after of None \<Rightarrow> [] | Some k \<Rightarrow> key_str k)"
  define rows where "rows = filter (\<lambda>(k, _). start < k) (pin_units row)"
  have "(pin, row) \<in> set (state_pins s)" using row by (rule map_of_SomeD)
  then have pins: "bt_inv (pin_units row)" "\<forall>(k, u) \<in> set (pin_units row). key_str (uc_key u) = k"
    using ok by (auto simp: store_ok_def pins_ok_def)
  then have inv: "bt_inv rows" by (simp add: rows_def bt_inv_filter)
  obtain items further where limit: "limit \<noteq> 0"
    and r: "read_rows limit (\<lambda>u. length (unit_body X u)) (map snd rows) = Inr (items, further)"
    and p: "p = \<lparr>pg_pin_id = pin, pg_start_seq = pin_start row, pg_items = items,
      pg_next_key = (if further \<and> items \<noteq> [] then Some (uc_key (last items)) else None)\<rparr>"
    using c row live unfolding state_page_def rows_def start_def
    by (auto simp: bindE_Inr split: if_splits)
  obtain k where k: "k \<le> length rows" "items = take k (map snd rows)"
    "further \<longleftrightarrow> k < length rows" "length items \<le> limit" "further \<Longrightarrow> 0 < k"
    using read_rows_prefix [OF r] limit by auto
  have "pg_items p = keys_between start (map_option key_str (pg_next_key p)) (pin_units row)
      \<and> (case pg_next_key p of None \<Rightarrow> True | Some k \<Rightarrow> start < key_str k)"
  proof (cases further)
    case False
    with k show ?thesis by (simp add: p keys_between_def rows_def)
  next
    case True
    with k have k': "k < length rows" "0 < k" by auto
    obtain q u where at: "rows ! (k - 1) = (q, u)" by (cases "rows ! (k - 1)")
    with k' have "(q, u) \<in> set rows" using nth_mem [of "k - 1" rows] by simp
    then have q: "start < q" "key_str (uc_key u) = q" using pins(2) by (auto simp: rows_def)
    have "items \<noteq> []" using k(1,2) k' by auto
    then have nk: "pg_next_key p = Some (uc_key u)"
      using True page_rows(2) [OF inv k', of snd] k(2) at by (simp add: p)
    have "items = map snd (filter (\<lambda>(p, _). p \<le> q) rows)"
      using page_rows(1) [OF inv k', of snd] k(2) at by simp
    also have "filter (\<lambda>(p, _). p \<le> q) rows = filter (\<lambda>(p, _). start < p \<and> p \<le> q) (pin_units row)"
      unfolding rows_def filter_filter by (intro filter_cong) auto
    finally show ?thesis using nk q by (simp add: p keys_between_def)
  qed
  with row live k(4) show ?thesis unfolding start_def by (simp add: p)
qed

section \<open>The invariant\<close>

lemma pins_ok_filter: "pins_ok n s \<Longrightarrow> pins_ok n (s\<lparr>state_pins := filter P (state_pins s)\<rparr>)"
  by (auto simp: pins_ok_def distinct_map_filter)

lemma pins_ok_snoc:
  assumes "pins_ok n s" and "\<not> has (state_pins s) i" and "pin_start p \<le> n" and "bt_inv (pin_units p)"
    and "\<forall>(k, u) \<in> set (pin_units p). key_str (uc_key u) = k"
  shows "pins_ok n (s\<lparr>state_pins := state_pins s @ [(i, p)]\<rparr>)"
  using assms by (auto simp: pins_ok_def has_keys)

lemma release_kept:
  assumes "store_ok X s" and "release_state_pin X d pin s = (res, s')"
  shows "store_ok X s' \<and> later s s'"
proof -
  have "pins_ok (library_seq s) s" using assms(1) by (simp add: store_ok_def)
  from pins_kept [OF assms(1) pins_ok_filter [OF this]] show ?thesis
    using assms by (auto simp: release_state_pin_def split: sum.splits)
qed

lemma drop_pins_filter: "drop_pins ids pins = filter (\<lambda>p. fst p \<notin> set ids) pins"
  by (auto simp: drop_pins_def intro: filter_cong)

text \<open>What a created pin is.\<close>

lemma create_pin_Inr:
  assumes "create_state_pin X d fresh now sql_now s = (Inr pin, s')"
  obtains pins current where "pins = drop_pins (surplus_pins (dev_id d) sql_now (state_pins s)) (state_pins s)"
    and "now = Inr current" and "\<not> has pins fresh" and "require_device X s d = Inr ()"
    and "seq_decimal (head_seq (lib_head s)) = Inr (sp_start_seq pin)" and "sp_pin_id pin = fresh"
    and "sp_unit_count pin = of_nat (length (units s))"
    and "s' = s\<lparr>state_pins := pins @ [(fresh, \<lparr>pin_device = dev_id d, pin_start = sp_start_seq pin,
           pin_expires = current + STATE_PIN_LIFETIME_SECONDS, pin_units = units s\<rparr>)]\<rparr>"
proof -
  obtain u where u: "require_device X s d = Inr u"
    using assms by (cases "require_device X s d") (simp_all add: create_state_pin_def)
  obtain current where c: "now = Inr current"
    using assms u by (cases now) (simp_all add: create_state_pin_def)
  obtain q where q: "seq_decimal (head_seq (lib_head s)) = Inr q"
    using assms u c
    by (cases "seq_decimal (head_seq (lib_head s))")
      (simp_all add: create_state_pin_def Let_def fail_def split: if_splits)
  show ?thesis
    using assms u c q by (intro that) (auto simp: create_state_pin_def Let_def fail_def split: if_splits)
qed

lemma create_pin_error:
  "create_state_pin X d fresh now sql_now s = (Inl f, s') \<Longrightarrow> s' = s"
  by (auto simp: create_state_pin_def Let_def split: sum.splits prod.splits)

lemma create_pin_kept:
  assumes ok: "store_ok X s" and c: "create_state_pin X d fresh now sql_now s = (res, s')"
  shows "store_ok X s' \<and> later s s'"
proof (cases res)
  case (Inl f)
  with c create_pin_error show ?thesis using ok by (metis later_refl)
next
  case (Inr pin)
  from c [unfolded Inr] obtain pins current
    where pins: "pins = drop_pins (surplus_pins (dev_id d) sql_now (state_pins s)) (state_pins s)"
    and new: "\<not> has pins fresh" and seq: "seq_decimal (head_seq (lib_head s)) = Inr (sp_start_seq pin)"
    and s': "s' = s\<lparr>state_pins := pins @ [(fresh, \<lparr>pin_device = dev_id d, pin_start = sp_start_seq pin,
           pin_expires = current + STATE_PIN_LIFETIME_SECONDS, pin_units = units s\<rparr>)]\<rparr>"
    by (rule create_pin_Inr)
  have u: "units_ok X s" and h: "head_ok s" and p: "pins_ok (library_seq s) s"
    using ok by (simp_all add: store_ok_def content_ok_def)
  have start: "sp_start_seq pin = library_seq s"
    using h seq unfolding head_ok_def by (metis Inr_inject seq_decimal_from)
  have keys: "\<forall>(k, u) \<in> set (units s). key_str (uc_key u) = k"
  proof clarify
    fix k v
    assume "(k, v) \<in> set (units s)"
    then have "map_of (units s) k = Some v" using u bt_inv_distinct [of "units s"]
      by (simp add: units_ok_def map_of_is_SomeI)
    with u show "key_str (uc_key v) = k" by (simp add: units_ok_def)
  qed
  have "pins_ok (library_seq s) ((s\<lparr>state_pins := pins\<rparr>)\<lparr>state_pins :=
      state_pins (s\<lparr>state_pins := pins\<rparr>) @ [(fresh, \<lparr>pin_device = dev_id d, pin_start = sp_start_seq pin,
        pin_expires = current + STATE_PIN_LIFETIME_SECONDS, pin_units = units s\<rparr>)]\<rparr>)"
    using pins_ok_filter [OF p, of "\<lambda>p. fst p \<notin> set (surplus_pins (dev_id d) sql_now (state_pins s))"] new u keys start
    by (intro pins_ok_snoc) (simp_all add: pins drop_pins_filter units_ok_def)
  with pins_kept [OF ok, of "pins @ [(fresh, \<lparr>pin_device = dev_id d, pin_start = sp_start_seq pin,
        pin_expires = current + STATE_PIN_LIFETIME_SECONDS, pin_units = units s\<rparr>)]"]
  show ?thesis by (simp add: s')
qed

lemma acknowledge_Inr:
  assumes "acknowledge X d q sql_now s = (Inr u, s')"
  obtains row latest where "map_of (devices s) (dev_id d) = Some row"
    and "seq_decimal (head_seq (lib_head s)) = Inr latest"
    and "dr_ack row \<le> ack_seq q" and "ack_seq q \<le> latest"
    and "s' = update_device (dev_id d) (\<lambda>r. r\<lparr>dr_ack := ack_seq q, dr_last_ack := Some sql_now\<rparr>) s"
proof -
  obtain u where u: "require_device X s d = Inr u"
    using assms by (cases "require_device X s d") (simp_all add: acknowledge_def)
  obtain row where row: "map_of (devices s) (dev_id d) = Some row"
    using assms u by (cases "map_of (devices s) (dev_id d)") (simp_all add: acknowledge_def ok_or_def)
  obtain n where n: "seq_decimal (head_seq (lib_head s)) = Inr n"
    using assms u row by (cases "seq_decimal (head_seq (lib_head s))") (simp_all add: acknowledge_def ok_or_def)
  show ?thesis
    using assms u row n
    by (intro that) (auto simp: acknowledge_def ok_or_def Let_def fail_def not_less split: if_splits)
qed

lemma acknowledge_error: "acknowledge X d q sql_now s = (Inl f, s') \<Longrightarrow> s' = s"
  by (auto simp: acknowledge_def Let_def split: sum.splits)

lemma acknowledge_kept:
  assumes ok: "store_ok X s" and a: "acknowledge X d q sql_now s = (res, s')"
  shows "store_ok X s' \<and> later s s'"
proof (cases res)
  case (Inl f)
  with a acknowledge_error show ?thesis using ok by (metis later_refl)
next
  case (Inr u)
  from a [unfolded Inr] obtain row latest where row: "map_of (devices s) (dev_id d) = Some row"
    and latest: "seq_decimal (head_seq (lib_head s)) = Inr latest"
    and le: "dr_ack row \<le> ack_seq q" "ack_seq q \<le> latest"
    and s': "s' = update_device (dev_id d) (\<lambda>r. r\<lparr>dr_ack := ack_seq q, dr_last_ack := Some sql_now\<rparr>) s"
    by (rule acknowledge_Inr)
  have "latest = library_seq s"
    using ok latest unfolding store_ok_def head_ok_def by (metis Inr_inject seq_decimal_from)
  moreover have "dr_ack r \<le> library_seq s" if "map_of (devices s) i = Some r" for i r
    using ok that by (auto simp: store_ok_def devices_ok_def)
  ultimately have "store_ok X s'" "later s s'"
    unfolding s' update_device_def using row le
    by (intro device_rows_kept [OF ok]; auto simp: device_later_def)+
  then show ?thesis by simp
qed

end
