(* ===== verification/Server_Registration.thy ===== *)
theory Server_Registration
  imports Server_Store
begin

text \<open>
  \<^verbatim>\<open>server/sync/src/store/registration_claims.rs\<close>: how a device comes to its writer, by binding the
  writer of a kept installation or by claiming a new one, and what both leave of the invariant.
\<close>

definition registration_used :: "store \<Rightarrow> device \<Rightarrow> bool" where
  "registration_used s d \<longleftrightarrow>
     list_ex (\<lambda>(_, i). i = dev_id d) (writers s) \<or> list_ex (\<lambda>((i, _), _). i = dev_id d) (operations s)"

definition bind_device_writer ::
  "ext \<Rightarrow> device \<Rightarrow> writer_binding_request \<Rightarrow> store \<Rightarrow> unit sresult \<times> store" where
  "bind_device_writer X d q s =
     (case bindE (lift_wire (writer_binding_validate q)) (\<lambda>_. require_device X s d) of
        Inl f \<Rightarrow> (Inl f, s)
      | Inr _ \<Rightarrow>
          if list_ex (\<lambda>(w, i). i = dev_id d \<and> w \<noteq> wbr_writer_id q) (writers s)
          then (fail ''registration-used'' 409, s)
          else
            (case map_of (writers s) (wbr_writer_id q) of
               Some owner \<Rightarrow> (if owner = dev_id d then Inr () else fail ''writer-collision'' 409, s)
             | None \<Rightarrow>
                 if registration_used s d then (fail ''registration-used'' 409, s)
                 else (Inr (), s\<lparr>writers := bt_insert (wbr_writer_id q) (dev_id d) (writers s)\<rparr>)))"

definition new_device_writer_claim :: "ext \<Rightarrow> store \<Rightarrow> device \<Rightarrow> new_device_claim_state sresult" where
  "new_device_writer_claim X s d =
     bindE (require_device X s d) (\<lambda>_.
     Inr \<lparr>ncst_claim = map_option (\<lambda>c. \<lparr>ncs_request_digest = cl_digest c, ncs_receipt = cl_receipt c\<rparr>)
             (map_of (claims s) (dev_id d)),
           ncst_used = registration_used s d\<rparr>)"

definition claim_checks ::
  "ext \<Rightarrow> device \<Rightarrow> new_device_claim_request \<Rightarrow> store \<Rightarrow> unit sresult" where
  "claim_checks X d q s =
     (if registration_used s d then fail ''registration-used'' 409
      else if list_ex (\<lambda>(_, c). cl_authorization c = ndc_authorization_id q) (claims s)
      then fail ''registration-integrity'' 409
      else if has (writers s) (ndc_writer_id q)
          \<or> list_ex (\<lambda>((w, _), _). w = ndc_writer_id q) (writer_versions s)
      then fail ''writer-collision'' 409
      else if (case ndc_former_token q of
          None \<Rightarrow> False
        | Some token \<Rightarrow>
            (case filter (\<lambda>(_, r). dr_verifier r = sha256 X (as_bytes token)) (devices s) of
               [] \<Rightarrow> False | (i, _) # _ \<Rightarrow> i = dev_id d))
      then fail ''registration-not-new'' 409
      else if list_ex (\<lambda>(_, c). cl_writer c = ndc_writer_id q) (claims s)
      then fail ''metadata-storage'' 503
      else Inr ())"

definition claim_receipt :: "device \<Rightarrow> new_device_claim_request \<Rightarrow> store \<Rightarrow> new_device_claim_receipt" where
  "claim_receipt d q s =
     \<lparr>ncr_authorization_id = ndc_authorization_id q, ncr_writer_id = ndc_writer_id q,
      ncr_device_id = dev_id d, ncr_library_id = head_library_id (lib_head s),
      ncr_epoch = head_epoch (lib_head s), former_credential_inactive = (ndc_former_token q \<noteq> None)\<rparr>"

definition claimed :: "ext \<Rightarrow> device \<Rightarrow> new_device_claim_request \<Rightarrow> string \<Rightarrow> store \<Rightarrow> store" where
  "claimed X d q digest s =
     (let s1 = s\<lparr>writers := bt_insert (ndc_writer_id q) (dev_id d) (writers s),
                 claims := bt_insert (dev_id d)
                   \<lparr>cl_authorization = ndc_authorization_id q, cl_writer = ndc_writer_id q, cl_digest = digest,
                     cl_receipt = claim_receipt d q s\<rparr> (claims s)\<rparr>;
          s2 = (case ndc_former_token q of
                  None \<Rightarrow> s1
                | Some token \<Rightarrow> revoke_rows (\<lambda>_ r. dr_verifier r = sha256 X (as_bytes token)) s1) in
      announce_head s2)"

definition claim_new_device_writer ::
  "ext \<Rightarrow> device \<Rightarrow> new_device_claim_request \<Rightarrow> store \<Rightarrow> new_device_claim_receipt sresult \<times> store" where
  "claim_new_device_writer X d q s =
     (case bindE (lift_wire (claim_request_validate q)) (\<lambda>_.
           bindE (lift_wire (claim_request_digest X q)) (\<lambda>digest.
           bindE (require_device X s d) (\<lambda>_. Inr digest))) of
        Inl f \<Rightarrow> (Inl f, s)
      | Inr digest \<Rightarrow>
          (case map_of (claims s) (dev_id d) of
             Some c \<Rightarrow>
               (if cl_digest c \<noteq> digest then fail ''registration-integrity'' 409 else Inr (cl_receipt c), s)
           | None \<Rightarrow>
               (case claim_checks X d q s of
                  Inl f \<Rightarrow> (Inl f, s)
                | Inr _ \<Rightarrow> (Inr (claim_receipt d q s), claimed X d q digest s))))"

section \<open>The invariant\<close>

lemma new_writer_kept:
  assumes ok: "store_ok X s" and new: "\<not> has (writers s) w" and free: "\<not> registration_used s d"
  shows "writers_ok (s\<lparr>writers := bt_insert w (dev_id d) (writers s)\<rparr>)"
    and "map_of (writers s) \<subseteq>\<^sub>m map_of (bt_insert w (dev_id d) (writers s))"
proof -
  have w: "writers_ok s" using ok by (simp add: store_ok_def)
  have "i \<noteq> dev_id d" if "map_of (writers s) v = Some i" for v i
    using free map_of_SomeD [OF that] by (auto simp: registration_used_def list_ex_iff)
  with w show "writers_ok (s\<lparr>writers := bt_insert w (dev_id d) (writers s)\<rparr>)"
    by (auto simp: writers_ok_def bt_inv_insert map_of_bt_insert split: if_splits)
  show "map_of (writers s) \<subseteq>\<^sub>m map_of (bt_insert w (dev_id d) (writers s))"
    using w new by (auto simp: writers_ok_def map_of_bt_insert map_le_def has_def)
qed

lemma bind_device_writer_kept:
  assumes ok: "store_ok X s" and b: "bind_device_writer X d q s = (res, s')"
  shows "store_ok X s' \<and> later s s'"
proof (cases "s' = s")
  case True
  with ok show ?thesis by simp
next
  case False
  then have new: "\<not> has (writers s) (wbr_writer_id q)" "\<not> registration_used s d"
    and s': "s' = s\<lparr>writers := bt_insert (wbr_writer_id q) (dev_id d) (writers s)\<rparr>"
    using b by (auto simp: bind_device_writer_def has_def split: sum.splits option.splits if_splits)
  note w = new_writer_kept [OF ok new]
  have "claims_ok s'"
    using claims_ok_mono [of s s'] w(2) ok by (simp add: s' store_ok_def)
  then have "store_ok X s'"
    using ok w(1) by (intro store_ok_update [OF ok])
      (simp_all add: s' store_ok_def same_content_def devices_ok_def operations_ok_def pins_ok_def)
  moreover have "later s s'"
    using w(2) by (auto simp: s' later_def advances_def keeps_def library_seq_def library_floor_def device_later_def)
  ultimately show ?thesis by simp
qed

lemma claimed_kept:
  assumes ok: "store_ok X s" and none: "map_of (claims s) (dev_id d) = None"
    and checks: "claim_checks X d q s = Inr ()"
  shows "store_ok X (claimed X d q digest s) \<and> later s (claimed X d q digest s)"
proof -
  have new: "\<not> has (writers s) (ndc_writer_id q)" "\<not> registration_used s d"
    using checks by (auto simp: claim_checks_def split: if_splits)
  note w = new_writer_kept [OF ok new]
  define c where "c = \<lparr>cl_authorization = ndc_authorization_id q, cl_writer = ndc_writer_id q,
    cl_digest = digest, cl_receipt = claim_receipt d q s\<rparr>"
  define s1 where "s1 = s\<lparr>writers := bt_insert (ndc_writer_id q) (dev_id d) (writers s),
    claims := bt_insert (dev_id d) c (claims s)\<rparr>"
  have inv: "claims_ok s" "bt_inv (claims s)" "bt_inv (writers s)"
    using ok by (simp_all add: store_ok_def claims_ok_def writers_ok_def)
  have "map_of (writers s1) (cl_writer k) = Some i" if "map_of (claims s) i = Some k" for i k
    using inv(1) that w(2) unfolding claims_ok_def by (auto simp: s1_def map_le_def dom_def)
  then have "claims_ok s1"
    using inv by (auto simp: claims_ok_def s1_def bt_inv_insert map_of_bt_insert c_def split: if_splits)
  then have 1: "store_ok X s1"
    using ok w(1) by (intro store_ok_update [OF ok])
      (simp_all add: s1_def store_ok_def same_content_def devices_ok_def operations_ok_def pins_ok_def
        writers_ok_def)
  have 2: "later s s1"
    using w(2) none inv(2)
    by (auto simp: s1_def later_def advances_def keeps_def library_seq_def library_floor_def device_later_def
        map_of_bt_insert map_le_def)
  define s2 where "s2 = (case ndc_former_token q of None \<Rightarrow> s1
    | Some token \<Rightarrow> revoke_rows (\<lambda>_ r. dr_verifier r = sha256 X (as_bytes token)) s1)"
  have 3: "store_ok X s2" "later s1 s2"
    using 1 revoke_rows_kept [OF 1] by (auto simp: s2_def split: option.split)
  have "claimed X d q digest s = announce_head s2"
    unfolding claimed_def Let_def s2_def s1_def c_def ..
  with announce_kept [OF 3(1)] later_trans [OF later_trans [OF 2 3(2)]] show ?thesis by simp
qed

lemma claim_kept:
  assumes "store_ok X s" and "claim_new_device_writer X d q s = (res, s')"
  shows "store_ok X s' \<and> later s s'"
  using assms claimed_kept [OF assms(1)]
  by (auto simp: claim_new_device_writer_def split: sum.splits option.splits if_splits)

end
