(* ===== verification/Server_Maintenance.thy ===== *)
theory Server_Maintenance
  imports Server_Read
begin

text \<open>
  \<^verbatim>\<open>server/sync/src/store/maintenance.rs\<close>: what maintenance does to the tables of the store, the floor
  of the journal above all, and the new epoch of a restored store. The tables of uploads, leases
  and objects are not part of the store; whether one of them still names a revoked device is
  the argument \<open>named\<close>.
\<close>

definition RETENTION_SECONDS :: int where "RETENTION_SECONDS = 7 * 24 * 60 * 60"

definition revoked_ids :: "store \<Rightarrow> string list" where
  "revoked_ids s = map fst (filter (\<lambda>(_, r). dr_revoked r) (devices s))"

definition drop_dead_pins :: "int \<Rightarrow> store \<Rightarrow> store" where
  "drop_dead_pins current s =
     s\<lparr>state_pins := filter (\<lambda>(_, p). \<not> (pin_expires p \<le> current \<or> pin_device p \<in> set (revoked_ids s)))
        (state_pins s)\<rparr>"

definition purge_revoked_devices :: "(string \<Rightarrow> bool) \<Rightarrow> store \<Rightarrow> store" where
  "purge_revoked_devices named s =
     s\<lparr>operations := filter (\<lambda>((i, _), _). i \<notin> set (revoked_ids s)) (operations s),
       devices := filter (\<lambda>(i, r). \<not> (dr_revoked r \<and> \<not> named i
         \<and> list_all (\<lambda>(_, p). pin_device p \<noteq> i) (state_pins s))) (devices s)\<rparr>"

text \<open>The cursors the floor may not pass: acknowledgements of devices seen in the last week, pins,
  and the row before the oldest journal row of that time.\<close>

definition live_acks :: "int \<Rightarrow> store \<Rightarrow> u64 list" where
  "live_acks expired s =
     map (\<lambda>(_, r). dr_ack r)
       (filter (\<lambda>(_, r). \<not> dr_revoked r \<and> (case dr_last_ack r of None \<Rightarrow> False | Some t \<Rightarrow> expired < t)) (devices s))
     @ map (\<lambda>(_, p). pin_start p) (state_pins s)"

definition saturating_pred :: "u64 \<Rightarrow> u64" where
  "saturating_pred n = (if n = 0 then 0 else n - 1)"

definition journal_tail :: "int \<Rightarrow> store \<Rightarrow> u64 list" where
  "journal_tail expired s =
     (case filter (\<lambda>(_, _, created). expired < created) (journal s) of
        [] \<Rightarrow> [] | (q, _) # _ \<Rightarrow> [saturating_pred q])"

definition new_floor :: "int \<Rightarrow> u64 \<Rightarrow> u64 \<Rightarrow> store \<Rightarrow> u64" where
  "new_floor expired latest old s = max (fold min (live_acks expired s @ journal_tail expired s) latest) old"

definition current_version :: "store \<Rightarrow> string \<times> string \<times> u64 \<times> u32 \<Rightarrow> bool" where
  "current_version s k = (case map_of (units s) (fst (snd k)) of None \<Rightarrow> False | Some u \<Rightarrow> version_key u = k)"

text \<open>The deletions that follow the choice of the floor.\<close>

definition swept :: "int \<Rightarrow> u64 \<Rightarrow> store \<Rightarrow> store" where
  "swept expired floor s =
     s\<lparr>journal := filter (\<lambda>(q, _). \<not> q \<le> floor) (journal s),
       operations := filter (\<lambda>(_, row). \<not> or_created row \<le> expired) (operations s),
       writer_versions := filter (\<lambda>(k, _, created). \<not> (created \<le> expired \<and> \<not> current_version s k))
         (writer_versions s),
       lib_head := (lib_head s)\<lparr>min_retained_seq := sequence_from floor\<rparr>\<rparr>"

definition maintain_at :: "(string \<Rightarrow> bool) \<Rightarrow> int \<Rightarrow> store \<Rightarrow> unit sresult \<times> store" where
  "maintain_at named current s =
     (let s1 = purge_revoked_devices named (drop_dead_pins current s);
          expired = current - RETENTION_SECONDS in
      case bindE (seq_number (head_seq (lib_head s1))) (\<lambda>latest.
           bindE (seq_number (min_retained_seq (lib_head s1))) (\<lambda>old. Inr (new_floor expired latest old s1))) of
        Inl f \<Rightarrow> (Inl f, s)
      | Inr floor \<Rightarrow> (Inr (), announce_head (swept expired floor s1)))"

definition rotate_restored_epoch :: "ext \<Rightarrow> string \<Rightarrow> store \<Rightarrow> unit sresult \<times> store" where
  "rotate_restored_epoch X fresh s =
     (case lift_wire (genesis X (head_library_id (lib_head s)) fresh) of
        Inl f \<Rightarrow> (Inl f, s)
      | Inr head \<Rightarrow>
          (Inr (), announce_head (s\<lparr>journal := [], state_pins := [],
             devices := map (\<lambda>(i, r). (i, r\<lparr>dr_ack := 0, dr_last_ack := None, dr_revoked := True\<rparr>)) (devices s),
             lib_head := head\<lparr>head_seq := head_seq (lib_head s), min_retained_seq := head_seq (lib_head s)\<rparr>\<rparr>)))"

section \<open>Lemmas\<close>

lemma fold_min_start: "fold min xs (a :: 'a :: linorder) \<le> a"
proof (induction xs arbitrary: a)
  case (Cons y ys)
  from order_trans [OF Cons.IH min.cobounded2] show ?case by simp
qed simp

lemma fold_min_mem: "x \<in> set xs \<Longrightarrow> fold min xs (a :: 'a :: linorder) \<le> x"
proof (induction xs arbitrary: a)
  case (Cons y ys)
  from order_trans [OF fold_min_start min.cobounded1] Cons show ?case by auto
qed simp

lemma pred_less: "q \<noteq> 0 \<Longrightarrow> p \<le> saturating_pred q \<Longrightarrow> p < q"
proof -
  assume "q \<noteq> 0" "p \<le> saturating_pred q"
  then have "q - 1 < q" "p \<le> q - 1"
    using measure_unat [of q] by (simp_all add: saturating_pred_def word_less_nat_alt)
  then show "p < q" by simp
qed

lemma min_over_cursors:
  "new_floor expired latest old s \<le> max latest old"
  "old \<le> new_floor expired latest old s"
  "q \<in> set (live_acks expired s @ journal_tail expired s) \<Longrightarrow>
     new_floor expired latest old s = old \<or> new_floor expired latest old s \<le> q"
proof -
  show "new_floor expired latest old s \<le> max latest old"
    unfolding new_floor_def by (meson fold_min_start max.mono order_refl)
  show "old \<le> new_floor expired latest old s" by (simp add: new_floor_def)
  assume "q \<in> set (live_acks expired s @ journal_tail expired s)"
  then have "fold min (live_acks expired s @ journal_tail expired s) latest \<le> q" by (rule fold_min_mem)
  then show "new_floor expired latest old s = old \<or> new_floor expired latest old s \<le> q"
    unfolding new_floor_def by (simp add: max_def)
qed

text \<open>The oldest young row is the least one.\<close>

lemma young_rows:
  assumes "bt_inv (journal s)" and "(q, i, t) \<in> set (journal s)" and "expired < t"
  shows "\<exists>p. journal_tail expired s = [saturating_pred p] \<and> p \<le> q \<and> has (journal s) p"
proof -
  define young where "young = filter (\<lambda>(_, _, created). expired < created) (journal s)"
  have mem: "(q, i, t) \<in> set young" using assms(2,3) by (simp add: young_def)
  then obtain p v rest where y: "young = (p, v) # rest" by (cases young) auto
  have "bt_inv young" using assms(1) by (simp add: young_def bt_inv_filter)
  with mem y have "p \<le> q" by (auto simp: order.strict_implies_order)
  moreover have "has (journal s) p"
  proof -
    have "(p, v) \<in> set young" by (simp add: y)
    then show ?thesis by (force simp: young_def has_keys)
  qed
  ultimately show ?thesis using y by (intro exI [of _ p]) (simp add: journal_tail_def young_def)
qed

section \<open>The invariant\<close>

lemma devices_ok_filter: "devices_ok n s \<Longrightarrow> devices_ok n (s\<lparr>devices := filter P (devices s)\<rparr>)"
proof -
  assume d: "devices_ok n s"
  then have b: "bt_inv (devices s)" by (simp add: devices_ok_def)
  have row: "map_of (filter P (devices s)) i = Some r \<Longrightarrow> map_of (devices s) i = Some r" for i r
    by (simp add: map_of_filter_row b)
  from d show ?thesis
    unfolding devices_ok_def by (auto simp: bt_inv_filter dest!: row)
qed

lemma operations_ok_filter: "operations_ok s \<Longrightarrow> operations s' = filter P (operations s) \<Longrightarrow> operations_ok s'"
  by (auto simp: operations_ok_def bt_inv_filter map_of_filter_row)

lemma journal_ok_filter:
  assumes "journal_ok n s" and "journal s' = filter P (journal s)" and "units s' = units s"
  shows "journal_ok n s'"
proof -
  have b: "bt_inv (journal s)" using assms(1) by (simp add: journal_ok_def)
  have row: "map_of (journal s') q = Some r \<Longrightarrow> map_of (journal s) q = Some r" for q r
    by (simp add: assms(2) map_of_filter_row b)
  show ?thesis
    unfolding journal_ok_def
  proof (intro conjI allI impI)
    show "bt_inv (journal s')" using b by (simp add: assms(2) bt_inv_filter)
  next
    fix q i t
    assume "map_of (journal s') q = Some (i, t)"
    from journal_row [OF assms(1) row [OF this]]
    show "ji_seq i = q" "q \<le> n" "map_of (units s') (item_key i) = Some (item_unit i)"
      by (simp_all add: assms(3))
  next
    fix q q' i i' t t'
    assume "map_of (journal s') q = Some (i, t)" "map_of (journal s') q' = Some (i', t')" "item_key i = item_key i'"
    with journal_one_row [OF assms(1) row row] show "q = q'" by blast
  qed
qed

lemma drop_dead_pins_kept:
  assumes "store_ok X s"
  shows "store_ok X (drop_dead_pins current s)" and "later s (drop_dead_pins current s)"
proof -
  have "pins_ok (library_seq s) s" using assms by (simp add: store_ok_def)
  from pins_kept [OF assms pins_ok_filter [OF this]]
  show "store_ok X (drop_dead_pins current s)" "later s (drop_dead_pins current s)"
    by (simp_all add: drop_dead_pins_def)
qed

lemma purge_kept:
  assumes "store_ok X s"
  shows "store_ok X (purge_revoked_devices named s)" and "advances s (purge_revoked_devices named s)"
proof -
  have parts: "devices_ok (library_seq s) s" "operations_ok s" using assms by (simp_all add: store_ok_def)
  have "devices_ok (library_seq s) (purge_revoked_devices named s)"
    using devices_ok_filter [OF parts(1)] by (simp add: purge_revoked_devices_def devices_ok_def)
  moreover have "operations_ok (purge_revoked_devices named s)"
    by (rule operations_ok_filter [OF parts(2)]) (simp add: purge_revoked_devices_def)
  ultimately show "store_ok X (purge_revoked_devices named s)"
    using assms by (intro store_ok_update [OF assms])
      (simp_all add: purge_revoked_devices_def store_ok_def same_content_def writers_ok_def claims_ok_def pins_ok_def)
  show "advances s (purge_revoked_devices named s)"
    by (simp add: purge_revoked_devices_def advances_def library_seq_def library_floor_def)
qed

lemma swept_simps [simp]:
  "library_seq (swept e f s) = library_seq s" "library_floor (swept e f s) = f"
  "devices (swept e f s) = devices s" "writers (swept e f s) = writers s" "claims (swept e f s) = claims s"
  "units (swept e f s) = units s" "retired (swept e f s) = retired s"
  "unit_parents (swept e f s) = unit_parents s" "state_pins (swept e f s) = state_pins s"
  "journal (swept e f s) = filter (\<lambda>(q, _). f < q) (journal s)"
  by (simp_all add: swept_def library_seq_def library_floor_def not_le)

lemma swept_kept:
  assumes ok: "store_ok X s" and f: "f \<le> library_seq s" "library_floor s \<le> f"
  shows "store_ok X (swept e f s)" and "advances s (swept e f s)"
proof -
  have parts: "head_ok s" "content_ok X (library_seq s) s" "devices_ok (library_seq s) s" "writers_ok s"
    "claims_ok s" "bt_inv (writer_versions s)" "operations_ok s" "pins_ok (library_seq s) s"
    using ok by (simp_all add: store_ok_def)
  have "head_ok (swept e f s)"
    using parts(1) f by (auto simp: head_ok_def) (simp_all add: swept_def)
  moreover have "content_ok X (library_seq s) (swept e f s)"
    using parts(2) journal_ok_filter [of "library_seq s" s "swept e f s" "\<lambda>(q, _). f < q"]
    by (simp add: content_ok_def units_ok_def retired_ok_def family_ok_def edges_ok_def)
  moreover have "operations_ok (swept e f s)"
    by (rule operations_ok_filter [OF parts(7)]) (simp add: swept_def)
  moreover have "bt_inv (writer_versions (swept e f s))" using parts(6) by (simp add: swept_def bt_inv_filter)
  ultimately show "store_ok X (swept e f s)"
    using parts by (simp add: store_ok_def devices_ok_def writers_ok_def claims_ok_def pins_ok_def)
  show "advances s (swept e f s)" using f(2) by (simp add: advances_def) (simp add: swept_def)
qed

lemma announced_simps [simp]:
  "library_seq (announce_head s) = library_seq s" "library_floor (announce_head s) = library_floor s"
  "devices (announce_head s) = devices s" "state_pins (announce_head s) = state_pins s"
  "units (announce_head s) = units s" "retired (announce_head s) = retired s" "journal (announce_head s) = journal s"
  by (simp_all add: announce_head_def library_seq_def library_floor_def)

lemma announced_ok: "store_ok X s \<Longrightarrow> store_ok X (announce_head s) \<and> advances s (announce_head s)"
  by (simp add: announce_head_def store_ok_def head_ok_def library_seq_def library_floor_def content_ok_def units_ok_def
      retired_ok_def family_ok_def edges_ok_def journal_ok_def devices_ok_def writers_ok_def claims_ok_def
      operations_ok_def pins_ok_def advances_def)

definition cleared :: "(string \<Rightarrow> bool) \<Rightarrow> int \<Rightarrow> store \<Rightarrow> store" where
  "cleared named current s = purge_revoked_devices named (drop_dead_pins current s)"

definition floor_of :: "(string \<Rightarrow> bool) \<Rightarrow> int \<Rightarrow> store \<Rightarrow> u64" where
  "floor_of named current s =
     new_floor (current - RETENTION_SECONDS) (library_seq s) (library_floor s) (cleared named current s)"

lemma cleared_head [simp]:
  "lib_head (cleared named current s) = lib_head s" "journal (cleared named current s) = journal s"
  "library_seq (cleared named current s) = library_seq s"
  "library_floor (cleared named current s) = library_floor s"
  by (simp_all add: cleared_def purge_revoked_devices_def drop_dead_pins_def library_seq_def library_floor_def)

lemma maintain_swept:
  assumes "store_ok X s"
  shows "maintain_at named current s =
    (Inr (), announce_head (swept (current - RETENTION_SECONDS) (floor_of named current s) (cleared named current s)))"
proof -
  have "seq_number (head_seq (lib_head s)) = Inr (library_seq s)"
    "seq_number (min_retained_seq (lib_head s)) = Inr (library_floor s)"
    using assms unfolding store_ok_def head_ok_def by (metis seq_number_from)+
  then show ?thesis
    by (simp add: maintain_at_def Let_def cleared_def [symmetric] floor_of_def)
qed

lemma floor_bounds:
  assumes "store_ok X s"
  shows "floor_of named current s \<le> library_seq s" and "library_floor s \<le> floor_of named current s"
proof -
  have "library_floor s \<le> library_seq s" using assms by (simp add: store_ok_def head_ok_def)
  then show "floor_of named current s \<le> library_seq s" "library_floor s \<le> floor_of named current s"
    using min_over_cursors(1) [of "current - RETENTION_SECONDS" "library_seq s" "library_floor s" "cleared named current s"]
      min_over_cursors(2) [of "library_floor s" "current - RETENTION_SECONDS" "library_seq s" "cleared named current s"]
    by (auto simp: floor_of_def max_def split: if_splits)
qed

lemma maintain_kept:
  assumes ok: "store_ok X s" and m: "maintain_at named current s = (res, s')"
  shows "store_ok X s' \<and> advances s s'"
proof -
  have 1: "store_ok X (cleared named current s)" "advances s (cleared named current s)"
    unfolding cleared_def
    using purge_kept [OF drop_dead_pins_kept(1) [OF ok]]
      advances_trans [OF drop_dead_pins_kept(2) [OF ok, unfolded later_def, THEN conjunct1]
        purge_kept(2) [OF drop_dead_pins_kept(1) [OF ok]]]
    by simp_all
  have "floor_of named current s \<le> library_seq (cleared named current s)"
    "library_floor (cleared named current s) \<le> floor_of named current s"
    using floor_bounds [OF ok] by simp_all
  note swept_kept [OF 1(1) this]
  with announced_ok [OF this(1)] 1(2) m show ?thesis
    unfolding maintain_swept [OF ok] by (auto intro: advances_trans [OF advances_trans])
qed

lemma rotate_kept:
  assumes ok: "store_ok X s" and r: "rotate_restored_epoch X fresh s = (res, s')"
  shows "store_ok X s' \<and> advances s s'"
proof -
  obtain head where g: "genesis X (head_library_id (lib_head s)) fresh = Inr head"
    and id: "head_library_id head = head_library_id (lib_head s)"
    using genesis_Inr [of X "head_library_id (lib_head s)" fresh] by auto
  define s1 where "s1 = announce_head (s\<lparr>journal := [], state_pins := [],
    devices := map (\<lambda>(i, r). (i, r\<lparr>dr_ack := 0, dr_last_ack := None, dr_revoked := True\<rparr>)) (devices s),
    lib_head := head\<lparr>head_seq := head_seq (lib_head s), min_retained_seq := head_seq (lib_head s)\<rparr>\<rparr>)"
  have s': "s' = s1" using r g by (simp add: rotate_restored_epoch_def s1_def)
  have frame: "library_seq s1 = library_seq s" "library_floor s1 = library_seq s" "journal s1 = []"
    "state_pins s1 = []" "units s1 = units s" "retired s1 = retired s" "unit_parents s1 = unit_parents s"
    "writers s1 = writers s" "claims s1 = claims s" "operations s1 = operations s"
    "writer_versions s1 = writer_versions s" "head_library_id (lib_head s1) = head_library_id (lib_head s)"
    "head_seq (lib_head s1) = head_seq (lib_head s)" "min_retained_seq (lib_head s1) = head_seq (lib_head s)"
    using id by (simp_all add: s1_def announce_head_def library_seq_def library_floor_def)
  have dev: "devices s1 = map (\<lambda>(i, r). (i, r\<lparr>dr_ack := 0, dr_last_ack := None, dr_revoked := True\<rparr>)) (devices s)"
    by (simp add: s1_def announce_head_def)
  have "devices_ok (library_seq s) s1"
    using ok unfolding store_ok_def devices_ok_def
    by (auto simp: dev bt_inv_rows map_of_rows [of "\<lambda>_ r. r\<lparr>dr_ack := 0, dr_last_ack := None, dr_revoked := True\<rparr>"])
  moreover have "library_floor s \<le> library_seq s" using ok by (simp add: store_ok_def head_ok_def)
  ultimately have "store_ok X s1 \<and> advances s s1"
    using ok by (simp add: store_ok_def head_ok_def frame content_ok_def units_ok_def retired_ok_def family_ok_def edges_ok_def
        journal_ok_def writers_ok_def claims_ok_def operations_ok_def pins_ok_def advances_def has_def)
  then show ?thesis by (simp add: s')
qed

end
