(* ===== verification/Server_Run.thy ===== *)
theory Server_Run
  imports Server_Read Server_Registration Server_Maintenance
begin

text \<open>
  The server over time: the requests of devices and of the administration, maintenance and the new
  epoch of a restore as steps of the store, the interface every step keeps, and the properties of
  the stores that can be reached from a new library.
\<close>

section \<open>Steps\<close>

datatype request =
    Push device push_request bool "u64 sresult" int "unit sresult"
  | Cancel device string cancel_operation_request "u64 sresult" int
  | Pin device string "int sresult" int
  | Unpin device string
  | Acknowledge device ack_request int
  | Bind_Writer device writer_binding_request
  | Claim_Writer device new_device_claim_request
  | Add_Device string string string "string option"
  | Revoke_Device string

datatype event = Request request | Maintain "string \<Rightarrow> bool" int | Rotate_Epoch string

definition left :: "store \<Rightarrow> store sresult \<Rightarrow> store" where
  "left s m = (case m of Inl _ \<Rightarrow> s | Inr s' \<Rightarrow> s')"

fun serve :: "ext \<Rightarrow> request \<Rightarrow> store \<Rightarrow> store" where
  "serve X (Push d r e clock t prepare) s = snd (push_at X d r e clock t prepare s)"
| "serve X (Cancel d i q clock t) s = snd (cancel_operation X d i q clock t s)"
| "serve X (Pin d fresh now sql_now) s = snd (create_state_pin X d fresh now sql_now s)"
| "serve X (Unpin d pin) s = snd (release_state_pin X d pin s)"
| "serve X (Acknowledge d q sql_now) s = snd (acknowledge X d q sql_now s)"
| "serve X (Bind_Writer d q) s = snd (bind_device_writer X d q s)"
| "serve X (Claim_Writer d q) s = snd (claim_new_device_writer X d q s)"
| "serve X (Add_Device token i name request) s =
     left s (bindE (add_named_device X token i name request s) (\<lambda>(_, s'). Inr s'))"
| "serve X (Revoke_Device i) s = left s (revoke_device i s)"

fun handle :: "ext \<Rightarrow> event \<Rightarrow> store \<Rightarrow> store" where
  "handle X (Request q) s = serve X q s"
| "handle X (Maintain named current) s = snd (maintain_at named current s)"
| "handle X (Rotate_Epoch fresh) s = snd (rotate_restored_epoch X fresh s)"

text \<open>\<^verbatim>\<open>open_inner\<close> with \<^verbatim>\<open>create\<close>: the tables of a new library.\<close>

definition initial_store :: "ext \<Rightarrow> string \<Rightarrow> string \<Rightarrow> store sresult" where
  "initial_store X library epoch =
     bindE (lift_wire (genesis X library epoch)) (\<lambda>head.
     Inr \<lparr>lib_head = head, devices = [], writers = [], claims = [], writer_versions = [], units = [],
           retired = [], unit_parents = [], journal = [], operations = [], state_pins = [],
           format_level = 1, announced = 0\<rparr>)"

definition library_after :: "ext \<Rightarrow> string \<Rightarrow> string \<Rightarrow> event list \<Rightarrow> store sresult" where
  "library_after X library epoch events =
     bindE (initial_store X library epoch) (\<lambda>s. Inr (fold (handle X) events s))"

section \<open>The interface of the steps\<close>

text \<open>Steps that keep an invariant and move forward in a preorder, and what follows for runs.\<close>

locale forward_steps =
  fixes step :: "'a \<Rightarrow> 's \<Rightarrow> 's" and inv :: "'s \<Rightarrow> bool" and le :: "'s \<Rightarrow> 's \<Rightarrow> bool"
  assumes step_inv: "inv s \<Longrightarrow> inv (step a s)"
    and step_le: "inv s \<Longrightarrow> le s (step a s)"
    and le_refl: "le s s"
    and le_trans: "le s t \<Longrightarrow> le t u \<Longrightarrow> le s u"
begin

lemma run_inv: "inv s \<Longrightarrow> inv (fold step as s)"
  by (induction as arbitrary: s) (simp_all add: step_inv)

lemma run_le: "inv s \<Longrightarrow> le s (fold step as s)"
proof (induction as arbitrary: s)
  case (Cons a as)
  from le_trans [OF step_le [OF Cons.prems] Cons.IH [OF step_inv [OF Cons.prems]]] show ?case by simp
qed (simp add: le_refl)

end

lemma serve_kept: "store_ok X s \<Longrightarrow> store_ok X (serve X q s) \<and> later s (serve X q s)"
proof (cases q)
  case (Push d r e clock t prepare)
  assume "store_ok X s"
  with Push show ?thesis
    by (cases "push_at X d r e clock t prepare s") (auto dest: push_kept)
next
  case (Cancel d i r clock t)
  assume "store_ok X s"
  with Cancel show ?thesis
    by (cases "cancel_operation X d i r clock t s") (auto dest: cancel_kept)
next
  case (Pin d fresh now sql_now)
  assume "store_ok X s"
  with Pin show ?thesis
    by (cases "create_state_pin X d fresh now sql_now s") (auto dest: create_pin_kept)
next
  case (Unpin d pin)
  assume "store_ok X s"
  with Unpin show ?thesis
    by (cases "release_state_pin X d pin s") (auto dest: release_kept)
next
  case (Acknowledge d r sql_now)
  assume "store_ok X s"
  with Acknowledge show ?thesis
    by (cases "acknowledge X d r sql_now s") (auto dest: acknowledge_kept)
next
  case (Bind_Writer d r)
  assume "store_ok X s"
  with Bind_Writer show ?thesis
    by (cases "bind_device_writer X d r s") (auto dest: bind_device_writer_kept)
next
  case (Claim_Writer d r)
  assume "store_ok X s"
  with Claim_Writer show ?thesis
    by (cases "claim_new_device_writer X d r s") (auto dest: claim_kept)
next
  case (Add_Device token i name request)
  assume "store_ok X s"
  with Add_Device show ?thesis
    by (auto simp: left_def bindE_def dest: add_named_device_kept split: sum.split)
next
  case (Revoke_Device i)
  assume "store_ok X s"
  with Revoke_Device show ?thesis
    by (auto simp: left_def dest: revoke_device_kept split: sum.split)
qed

lemma handle_kept: "store_ok X s \<Longrightarrow> store_ok X (handle X a s) \<and> advances s (handle X a s)"
proof (cases a)
  case (Request q)
  assume "store_ok X s"
  with Request serve_kept [OF this, of q] show ?thesis by (simp add: later_def)
next
  case (Maintain named current)
  assume "store_ok X s"
  with Maintain show ?thesis
    by (cases "maintain_at named current s") (auto dest: maintain_kept)
next
  case (Rotate_Epoch fresh)
  assume "store_ok X s"
  with Rotate_Epoch show ?thesis
    by (cases "rotate_restored_epoch X fresh s") (auto dest: rotate_kept)
qed

interpretation served: forward_steps "serve X" "store_ok X" later for X
  by unfold_locales (auto simp: serve_kept intro: later_trans)

interpretation handled: forward_steps "handle X" "store_ok X" advances for X
  by unfold_locales (auto simp: handle_kept intro: advances_trans)

lemma initial_ok: "initial_store X library epoch = Inr s \<Longrightarrow> store_ok X s"
proof -
  assume "initial_store X library epoch = Inr s"
  then obtain head where "genesis X library epoch = Inr head"
    and s: "s = \<lparr>lib_head = head, devices = [], writers = [], claims = [], writer_versions = [], units = [],
      retired = [], unit_parents = [], journal = [], operations = [], state_pins = [], format_level = 1,
      announced = 0\<rparr>"
    by (auto simp: initial_store_def bindE_Inr)
  then show ?thesis
    by (simp add: genesis_Inr store_ok_def head_ok_def library_seq_def library_floor_def has_def content_ok_def
        units_ok_def retired_ok_def family_ok_def edges_ok_def journal_ok_def devices_ok_def writers_ok_def claims_ok_def
        operations_ok_def pins_ok_def)
qed

lemma library_ok: "library_after X library epoch events = Inr s \<Longrightarrow> store_ok X s"
  by (auto simp: library_after_def bindE_Inr intro: handled.run_inv initial_ok)

lemma library_total: "\<exists>s. library_after X library epoch events = Inr s"
proof -
  obtain head where "genesis X library epoch = Inr head" using genesis_Inr [of X library epoch] by auto
  then show ?thesis by (simp add: library_after_def initial_store_def)
qed

end
