(* ===== verification/Server_Theorems.thy ===== *)
theory Server_Theorems
  imports Server_Run
begin

text \<open>
  What the store of the server guarantees in every state it can reach: \<open>library_after X library epoch
  events\<close> is the store of a new library after any requests, maintenance and restores.
\<close>

section \<open>Push\<close>

lemma compare_greater:
  "compare_version X ls lv rs rv = Inr ApplyRemote \<Longrightarrow> stamp_cmp rs ls = Greater"
  by (cases "stamp_cmp rs ls") (auto simp: compare_version_def bindE_Inr split: if_splits)

lemma winner_reason:
  assumes v: "verdict X s now lvl R c = Inr True" and u: "map_of (units s) (key_str (uc_key c)) = Some u"
    and other: "key_str (uc_key c) \<noteq> KEY"
  shows "(stamp_cmp (uc_stamp c) (uc_stamp u) = Greater
      \<or> is_retirement X c \<and> \<not> has (retired s) (key_str (uc_key c)))
    \<and> (is_retirement X c \<or> \<not> has (retired s) (key_str (uc_key c)))"
proof -
  have "wins X s R c = Inr True" using verdict_True [OF v] other by (simp add: is_format_key_def)
  then show ?thesis
    using u compare_greater by (auto simp: wins_True read_unit_def suppressed_def split: sum.splits)
qed

lemma level_reason:
  assumes v: "verdict X s now lvl R c = Inr True" and "key_str (uc_key c) = KEY"
  shows "\<exists>l. level X (uc_value c) = Some l \<and> lvl < l"
  using verdict_True [OF v] assms(2) by (auto simp: is_format_key_def raises_level_Inr)

text \<open>How the unit of the key \<open>k\<close> may differ after an accepted push. The level of the library follows its
  own order, and a first retirement wins whatever its stamp is.\<close>

definition level_raised :: "ext \<Rightarrow> store \<Rightarrow> unit_change \<Rightarrow> bool" where
  "level_raised X s c \<longleftrightarrow>
     (case (stored_format X s, level X (uc_value c)) of (Inr lvl, Some l) \<Rightarrow> lvl < l | _ \<Rightarrow> False)"

definition unit_kept_or_won :: "ext \<Rightarrow> store \<Rightarrow> store \<Rightarrow> push_request \<Rightarrow> push_receipt \<Rightarrow> string \<Rightarrow> bool" where
  "unit_kept_or_won X s s' r receipt k \<longleftrightarrow>
     (let published = (\<lambda>c. list_ex ((=) c) (pr_changes r) \<and> list_ex ((=) (uc_key c)) (accepted_keys receipt)) in
      case (map_of (units s) k, map_of (units s') k) of
        (None, None) \<Rightarrow> True
      | (Some u, None) \<Rightarrow>
          \<not> has (retired s) k \<and> list_ex (\<lambda>c. published c \<and> retires X k c) (pr_changes r)
      | (None, Some c) \<Rightarrow> published c \<and> (if k = KEY then level_raised X s c else True)
      | (Some u, Some c) \<Rightarrow>
          c = u
          \<or> published c
            \<and> (if k = KEY then level_raised X s c
               else if has (retired s) k
               then is_retirement X c \<and> stamp_cmp (uc_stamp c) (uc_stamp u) = Greater
               else is_retirement X c \<or> stamp_cmp (uc_stamp c) (uc_stamp u) = Greater))"

definition unit_published :: "store \<Rightarrow> store \<Rightarrow> push_receipt \<Rightarrow> unit_change \<Rightarrow> bool" where
  "unit_published s s' receipt c \<longleftrightarrow>
     (if uc_key c \<in> set (accepted_keys receipt) then
        map_of (units s') (key_str (uc_key c)) = Some c
        \<and> list_ex (\<lambda>(q, i, _). library_seq s < q \<and> q \<le> library_seq s' \<and> i = journaled q c) (journal s')
      else True)"

text \<open>The parser reads the key of the level as the list of its one component.\<close>

definition reads_level_key :: "ext \<Rightarrow> bool" where
  "reads_level_key X \<longleftrightarrow> from_slice X (as_bytes KEY) = Some (JArray [JString ''library-format''])"

lemma level_key_parents:
  assumes "reads_level_key X" and "key_str k = KEY"
  shows "parents X k = Inr []"
  using assms
  by (simp add: parents_def reads_level_key_def unit_key_components_def parse_components_def as_strings_def as_list_def
      as_string_def index_def get_at_def)

lemma accepted_published:
  assumes ok: "store_ok X s" and acc: "push_accepted X d r e clock t prepare s receipt s'"
    and c: "c \<in> set (pr_changes r)" and X: "reads_level_key X"
  shows "unit_published s s' receipt c"
proof -
  from push_accepted_committed [OF ok acc] obtain digest now lvl ws
    where v: "validation X s d r e now lvl (bindE (lift_wire (push_validate X r)) (\<lambda>_. prepare)) = Inr ws"
    and com: "committed X d r digest ws s receipt s'" by metis
  note w = push_winners [OF ok v]
  have dist: "distinct (map (\<lambda>c. key_str (uc_key c)) (pr_changes r))"
    using v by (auto simp: validation_Inr bindE_Inr push_validate_def push_loop split: if_splits)
  show ?thesis
  proof (cases "uc_key c \<in> set (accepted_keys receipt)")
    case True
    with com obtain b where b: "b \<in> set ws" "uc_key b = uc_key c" by (auto simp: committed_def)
    then have "b = c" using w(3) c dist by (auto simp: distinct_map inj_on_def)
    with b level_key_parents [OF X] com have inst: "installed X (library_seq s) (retiring_keys X r) s' c"
      by (simp add: committed_def)
    then obtain q u where q: "library_seq s < q" "map_of (journal s') q = Some (journaled q c, u)"
      and unit: "map_of (units s') (key_str (uc_key c)) = Some c" unfolding installed_def by blast
    have "journal_ok (library_seq s') s'"
      using com unfolding committed_def store_ok_def content_ok_def by blast
    from journal_row [OF this q(2)] have "q \<le> library_seq s'" by simp
    with q unit True show ?thesis
      by (auto simp: unit_published_def list_ex_iff intro!: bexI [OF _ map_of_SomeD [OF q(2)]])
  qed (auto simp: unit_published_def)
qed

lemma accepted_settled:
  assumes ok: "store_ok X s" and acc: "push_accepted X d r e clock t prepare s receipt s'"
  shows "unit_kept_or_won X s s' r receipt k"
proof -
  from push_accepted_committed [OF ok acc] obtain digest now lvl ws
    where fmt: "stored_format X s = Inr lvl"
    and v: "validation X s d r e now lvl (bindE (lift_wire (push_validate X r)) (\<lambda>_. prepare)) = Inr ws"
    and com: "committed X d r digest ws s receipt s'" by metis
  have ws: "ws = filter (\<lambda>c. verdict X s now lvl (retiring_keys X r) c = Inr True) (pr_changes r)"
    using v by (simp add: validation_Inr)
  have keys: "accepted_keys receipt = map uc_key ws" and st: "settled X ws s s'"
    using com by (simp_all add: committed_def)
  have published: "list_ex ((=) c) (pr_changes r)" "list_ex ((=) (uc_key c)) (accepted_keys receipt)"
    if "c \<in> set ws" for c using that by (auto simp: ws keys list_ex_iff)
  from settled_unit [OF st, of k] show ?thesis
  proof (elim disjE)
    assume "map_of (units s') k = map_of (units s) k"
    then show ?thesis by (auto simp: unit_kept_or_won_def split: option.split)
  next
    assume "\<exists>c \<in> set ws. key_str (uc_key c) = k \<and> map_of (units s') k = Some c"
    then obtain c where c: "c \<in> set ws" "key_str (uc_key c) = k" "map_of (units s') k = Some c" by blast
    then have v: "verdict X s now lvl (retiring_keys X r) c = Inr True" by (simp add: ws)
    have raised: "level_raised X s c" if "k = KEY"
      using level_reason [OF v] that c(2) fmt by (auto simp: level_raised_def)
    show ?thesis
    proof (cases "map_of (units s) k")
      case None
      with c published [OF c(1)] raised show ?thesis by (simp add: unit_kept_or_won_def)
    next
      case (Some u)
      with c published [OF c(1)] raised winner_reason [OF v] show ?thesis
        by (auto simp: unit_kept_or_won_def Let_def)
    qed
  next
    assume gone: "map_of (units s') k = None \<and> \<not> has (retired s) k \<and> list_ex (retires X k) ws"
    then obtain c where "c \<in> set ws" "retires X k c" by (auto simp: list_ex_iff)
    with published [of c] have "list_ex (\<lambda>c. (list_ex ((=) c) (pr_changes r) \<and> list_ex ((=) (uc_key c)) (accepted_keys receipt))
        \<and> retires X k c) (pr_changes r)"
      by (auto simp: ws list_ex_iff)
    with gone show ?thesis by (simp add: unit_kept_or_won_def Let_def split: option.split)
  qed
qed

text \<open>A change of the store by a push is a commit or a kept rejection.\<close>

lemma push_changed:
  assumes "push_at X d r e clock t prepare s = (res, s')" and "s' \<noteq> s"
  shows "case res of
      Inl f \<Rightarrow> (\<exists>g. f = Failure g \<and> push_rejected X d r e clock t prepare s g s')
    | Inr receipt \<Rightarrow> push_accepted X d r e clock t prepare s receipt s'"
  using push_cases [OF assms(1)] assms(2) by (auto split: sum.split)

text \<open>C1. A push that changes a reachable store and is accepted moves the library's sequence by one for
  each accepted key and ends at the receipt's number; every accepted unit, the level of the library included, is
  the request's change and is journaled after the sequence the library had before. A push that changes the store and is
  refused changes only the record of operations. Assumed of the JSON parser is that it reads the key of the level, a
  constant, as the list of its one component.\<close>

theorem push_effect:
  assumes "reads_level_key X"
  shows
  "case library_after X library epoch events of
     Inl _ \<Rightarrow> False
   | Inr s \<Rightarrow>
       (case push_at X d r e clock t prepare s of
          (Inl f, s') \<Rightarrow> s' = s\<lparr>operations := operations s'\<rparr>
        | (Inr receipt, s') \<Rightarrow>
            if s' = s then True
            else library_seq s' = rc_seq receipt
              \<and> unat (library_seq s') = unat (library_seq s) + length (accepted_keys receipt)
              \<and> rc_operation_id receipt = pr_operation_id r
              \<and> map_of (writers s') (pr_writer_id r) = Some (dev_id d)
              \<and> list_all (unit_published s s' receipt) (pr_changes r))"
proof -
  obtain s where s: "library_after X library epoch events = Inr s" using library_total by blast
  note ok = library_ok [OF s]
  obtain res s' where p: "push_at X d r e clock t prepare s = (res, s')" by fastforce
  show ?thesis
  proof (cases "s' = s")
    case True
    then show ?thesis by (simp add: s p split: sum.split)
  next
    case False
    note ch = push_changed [OF p False]
    show ?thesis
    proof (cases res)
      case (Inl f)
      with ch show ?thesis by (auto simp: s p push_rejected_def)
    next
      case (Inr receipt)
      with ch have acc: "push_accepted X d r e clock t prepare s receipt s'" by simp
      from push_accepted_committed [OF ok acc] obtain digest ws
        where "committed X d r digest ws s receipt s'" by metis
      then show ?thesis
        using accepted_published [OF ok acc _ assms] by (simp add: s p Inr committed_def list_all_iff)
    qed
  qed
qed

text \<open>A device that joined pushes the level of a new library.\<close>

definition sample_level_ext :: ext where
  "sample_level_ext = sample_ext (JArray [JString ''library-format''])"

definition sample_level_push :: push_request where
  "sample_level_push = \<lparr>pr_library_id = ''library'', pr_writer_id = ''writer'', pr_operation_id = ''operation'',
     pr_changes = [\<lparr>uc_key = UnitKey KEY, uc_stamp = Stamp 1 0 ''writer'',
       uc_value = Inline (level_text 2)\<rparr>]\<rparr>"

lemma push_effect_witness:
  "case library_after sample_level_ext ''library'' ''epoch'' [Request (Add_Device ''token'' ''device'' ''name'' None)] of
     Inl _ \<Rightarrow> False
   | Inr s \<Rightarrow>
       (case push_at sample_level_ext \<lparr>dev_id = ''device'', dev_format = Some 2\<rparr> sample_level_push False (Inr 1) 0 (Inr ()) s of
          (Inl f, s') \<Rightarrow> s' = s\<lparr>operations := operations s'\<rparr>
        | (Inr receipt, s') \<Rightarrow>
            if s' = s then True
            else library_seq s' = rc_seq receipt
              \<and> unat (library_seq s') = unat (library_seq s) + length (accepted_keys receipt)
              \<and> rc_operation_id receipt = ''operation'' \<and> map_of (writers s') ''writer'' = Some ''device''
              \<and> list_all (unit_published s s' receipt) (pr_changes sample_level_push))"
  using push_effect [where X = sample_level_ext and library = "''library''" and epoch = "''epoch''"
      and events = "[Request (Add_Device ''token'' ''device'' ''name'' None)]"
      and d = "\<lparr>dev_id = ''device'', dev_format = Some 2\<rparr>" and r = sample_level_push and e = False
      and clock = "Inr 1" and t = 0 and prepare = "Inr ()"]
  by (simp only: reads_level_key_def sample_level_ext_def sample_ext_def ext.simps device.simps sample_level_push_def
      push_request.simps simp_thms True_implies_equals)

text \<open>C2. What a push can do to a unit of a reachable store. A refused push leaves all units alone. After an accepted
  one a unit is as it was, or it is an accepted change of the request, and then: the level of
  the library has been raised; a retired key got a later retirement; any other unit got a later stamp, or was
  retired for the first time, which needs no later stamp. A unit disappears only if it was not retired itself and the request
  retired, and had accepted, one of the parents its key names.\<close>

theorem unit_after_push:
  "case library_after X library epoch events of
     Inl _ \<Rightarrow> False
   | Inr s \<Rightarrow>
       (case push_at X d r e clock t prepare s of
          (Inl _, s') \<Rightarrow> units s' = units s \<and> retired s' = retired s \<and> journal s' = journal s
        | (Inr receipt, s') \<Rightarrow>
            (\<forall>k. unit_kept_or_won X s s' r receipt k))"
proof -
  obtain s where s: "library_after X library epoch events = Inr s" using library_total by blast
  note ok = library_ok [OF s]
  obtain res s' where p: "push_at X d r e clock t prepare s = (res, s')" by fastforce
  show ?thesis
  proof (cases "s' = s")
    case True
    then show ?thesis by (auto simp: s p unit_kept_or_won_def split: sum.split option.split)
  next
    case False
    note ch = push_changed [OF p False]
    show ?thesis
    proof (cases res)
      case (Inl f)
      with ch show ?thesis by (auto simp: s p push_rejected_def)
    next
      case (Inr receipt)
      with ch have acc: "push_accepted X d r e clock t prepare s receipt s'" by simp
      from accepted_settled [OF ok acc] show ?thesis by (auto simp: s p Inr)
    qed
  qed
qed

section \<open>Repeated requests\<close>

lemma operation_persists:
  assumes "store_ok X s" and "map_of (operations s) k = Some row"
  shows "map_of (operations (fold (serve X) qs s)) k = Some row"
proof -
  have "map_of (operations s) \<subseteq>\<^sub>m map_of (operations (fold (serve X) qs s))"
    using served.run_le [OF assms(1), of qs] by (simp add: later_def keeps_def)
  from map_le_row [OF this assms(2)] show ?thesis .
qed

definition plain_answer :: "'a sresult \<Rightarrow> 'a sresult" where
  "plain_answer res = (case res of Inl (Failure e) \<Rightarrow> Inl (Failure (e\<lparr>err_floor := None\<rparr>)) | r \<Rightarrow> r)"

lemma changed_recorded:
  assumes ok: "store_ok X s" and p: "push_at X d r e clock t prepare s = (res, s')" and "s' \<noteq> s"
  obtains digest where "push_digest X r = Inr digest" and "validate_id (pr_operation_id r) = Inr ()"
    and "pr_library_id r = head_library_id (lib_head s)"
    and "\<And>u. map_of (operations u) (dev_id d, pr_operation_id r) = map_of (operations s') (dev_id d, pr_operation_id r)
      \<Longrightarrow> replay u d (pr_operation_id r) digest
          = (case plain_answer res of Inl f \<Rightarrow> Inl f | Inr receipt \<Rightarrow> Inr (Some receipt))"
proof -
  have vid: "validate_id (pr_operation_id r) = Inr ()"
  proof (cases "validate_id (pr_operation_id r)")
    case (Inl er)
    with p assms(3) show ?thesis by (auto simp: push_at_def lift_wire_def split: wire_error.splits)
  qed simp
  note ch = push_changed [OF p assms(3)]
  show ?thesis
  proof (cases res)
    case (Inl f)
    with ch obtain g digest now where f: "f = Failure g" and dg: "push_digest X r = Inr digest"
      and adm: "push_admit X s d r digest = Inr None"
      and s': "s' = s\<lparr>operations := bt_insert (dev_id d, pr_operation_id r)
        (operation_entry (Rejected (pr_operation_id r) digest (err_code g) now) (Some g) t) (operations s)\<rparr>"
      unfolding push_rejected_def by auto
    have "bt_inv (operations s)" using ok by (simp add: store_ok_def operations_ok_def)
    then have row: "map_of (operations s') (dev_id d, pr_operation_id r)
        = Some (operation_entry (Rejected (pr_operation_id r) digest (err_code g) now) (Some g) t)"
      by (simp add: s' map_of_bt_insert)
    show ?thesis
      by (rule that [OF dg vid])
        (use adm in \<open>simp_all add: push_admit_None replay_def row operation_entry_def Inl f plain_answer_def
          error_new_def\<close>)
  next
    case (Inr receipt)
    with ch have "push_accepted X d r e clock t prepare s receipt s'" by simp
    from push_accepted_committed [OF ok this] obtain digest ws
      where dg: "push_digest X r = Inr digest" and adm: "push_admit X s d r digest = Inr None"
      and com: "committed X d r digest ws s receipt s'" by metis
    obtain row where row: "map_of (operations s') (dev_id d, pr_operation_id r) = Some row"
      "or_receipt row = Accepted digest receipt"
      using com by (auto simp: committed_def)
    show ?thesis
      by (rule that [OF dg vid])
        (use adm in \<open>simp_all add: push_admit_None replay_def row Inr plain_answer_def\<close>)
  qed
qed

text \<open>C3. A repeated push answers as it first did. When a push changed a reachable store, then after any
  further requests of any devices the same push of the same device gives the same answer,
  rejections included, and changes nothing, whatever the clock and the descriptors say then; unless
  the device is no longer admitted or the clock cannot be read.\<close>

theorem push_repeats:
  "case library_after X library epoch events of
     Inl _ \<Rightarrow> False
   | Inr s \<Rightarrow>
       (case push_at X d r e clock t prepare s of
          (res, s') \<Rightarrow>
            if s' = s then True
            else
              (let s'' = fold (serve X) requests s' in
               push_at X d r e' clock' t' prepare' s'' =
                 ((case clock' of
                     Inl f \<Rightarrow> Inl f
                   | Inr _ \<Rightarrow> (case require_device X s'' d of Inl f \<Rightarrow> Inl f | Inr _ \<Rightarrow> plain_answer res)), s'')))"
proof -
  obtain s where s: "library_after X library epoch events = Inr s" using library_total by blast
  note ok = library_ok [OF s]
  obtain res s' where p: "push_at X d r e clock t prepare s = (res, s')" by fastforce
  show ?thesis
  proof (cases "s' = s")
    case False
    obtain digest where dg: "push_digest X r = Inr digest" and vid: "validate_id (pr_operation_id r) = Inr ()"
      and lib: "pr_library_id r = head_library_id (lib_head s)"
      and rep: "\<And>u. map_of (operations u) (dev_id d, pr_operation_id r)
          = map_of (operations s') (dev_id d, pr_operation_id r) \<Longrightarrow> replay u d (pr_operation_id r) digest
          = (case plain_answer res of Inl f \<Rightarrow> Inl f | Inr receipt \<Rightarrow> Inr (Some receipt))"
      using changed_recorded [OF ok p False] by metis
    define s'' where "s'' = fold (serve X) requests s'"
    have k: "store_ok X s'" "later s s'" using push_kept [OF ok p] by simp_all
    have run: "later s' s''" unfolding s''_def by (rule served.run_le [OF k(1)])
    have "has (operations s') (dev_id d, pr_operation_id r)"
    proof (rule ccontr)
      assume "\<not> has (operations s') (dev_id d, pr_operation_id r)"
      then have "replay s' d (pr_operation_id r) digest = Inr None" by (simp add: replay_def has_def)
      with rep [of s'] show False by (auto split: sum.splits)
    qed
    then obtain row where "map_of (operations s') (dev_id d, pr_operation_id r) = Some row"
      by (auto simp: has_def)
    moreover from operation_persists [OF k(1) this, of requests]
    have "map_of (operations s'') (dev_id d, pr_operation_id r) = Some row" by (simp add: s''_def)
    ultimately have "replay s'' d (pr_operation_id r) digest
        = (case plain_answer res of Inl f \<Rightarrow> Inl f | Inr receipt \<Rightarrow> Inr (Some receipt))"
      using rep [of s''] by simp
    moreover have "pr_library_id r = head_library_id (lib_head s'')"
      using lib k(2) run by (simp add: later_def advances_def)
    ultimately have "push_at X d r e' clock' t' prepare' s'' =
        ((case clock' of
            Inl f \<Rightarrow> Inl f
          | Inr _ \<Rightarrow> (case require_device X s'' d of Inl f \<Rightarrow> Inl f | Inr _ \<Rightarrow> plain_answer res)), s'')"
      by (cases clock'; cases "require_device X s'' d"; cases "plain_answer res")
        (simp_all add: push_at_def vid dg push_admit_def)
    then show ?thesis by (simp add: s p s''_def [symmetric])
  qed (simp add: s p)
qed

text \<open>C10. A claimed writer stays claimed. When a device's claim of a new writer changed a reachable store,
  the same claim made after any further requests gives the same receipt and changes nothing, unless
  the device is no longer admitted.\<close>

theorem claim_repeats:
  "case library_after X library epoch events of
     Inl _ \<Rightarrow> False
   | Inr s \<Rightarrow>
       (case claim_new_device_writer X d q s of
          (Inl _, s') \<Rightarrow> s' = s
        | (Inr receipt, s') \<Rightarrow>
            if s' = s then True
            else
              (let s'' = fold (serve X) requests s' in
               map_of (writers s'') (ndc_writer_id q) = Some (dev_id d)
               \<and> claim_new_device_writer X d q s'' =
                   ((case require_device X s'' d of Inl f \<Rightarrow> Inl f | Inr _ \<Rightarrow> Inr receipt), s'')))"
proof -
  obtain s where s: "library_after X library epoch events = Inr s" using library_total by blast
  note ok = library_ok [OF s]
  obtain res s' where p: "claim_new_device_writer X d q s = (res, s')" by fastforce
  show ?thesis
  proof (cases res)
    case (Inl f)
    with p have "s' = s"
      by (auto simp: claim_new_device_writer_def split: sum.splits option.splits if_splits)
    then show ?thesis by (simp add: s p Inl)
  next
    case (Inr receipt)
    show ?thesis
    proof (cases "s' = s")
      case False
      obtain digest where v: "claim_request_validate q = Inr ()" "claim_request_digest X q = Inr digest"
        and none: "map_of (claims s) (dev_id d) = None" and checks: "claim_checks X d q s = Inr ()"
        and rc: "receipt = claim_receipt d q s" and s': "s' = claimed X d q digest s"
        using p Inr False
        by (auto simp: claim_new_device_writer_def bindE_Inr split: sum.splits option.splits if_splits)
      have k: "store_ok X s'" using claim_kept [OF ok p] by simp
      have b: "bt_inv (claims s)" "bt_inv (writers s)"
        using ok by (simp_all add: store_ok_def claims_ok_def writers_ok_def)
      have row: "map_of (claims s') (dev_id d) = Some \<lparr>cl_authorization = ndc_authorization_id q,
          cl_writer = ndc_writer_id q, cl_digest = digest, cl_receipt = receipt\<rparr>"
        "map_of (writers s') (ndc_writer_id q) = Some (dev_id d)"
        by (simp_all add: s' claimed_def Let_def announce_head_def revoke_rows_def map_of_bt_insert b rc
            split: option.split)
      define s'' where "s'' = fold (serve X) requests s'"
      have "advances s' s''" using served.run_le [OF k, of requests] by (simp add: s''_def later_def)
      with row have "map_of (claims s'') (dev_id d) = map_of (claims s') (dev_id d)"
        "map_of (writers s'') (ndc_writer_id q) = Some (dev_id d)"
        by (auto simp: advances_def dest: map_le_row)
      moreover from this row(1) have "claim_new_device_writer X d q s'' =
          ((case require_device X s'' d of Inl f \<Rightarrow> Inl f | Inr _ \<Rightarrow> Inr receipt), s'')"
        by (cases "require_device X s'' d") (simp_all add: claim_new_device_writer_def v)
      ultimately show ?thesis by (simp add: s p Inr s''_def [symmetric])
    qed (simp add: s p Inr)
  qed
qed

section \<open>Reachable stores\<close>

text \<open>What the invariant says of units, retired keys and the journal, spelled out.\<close>

definition well_kept :: "ext \<Rightarrow> store \<Rightarrow> bool" where
  "well_kept X s \<longleftrightarrow>
     list_all (\<lambda>(k, c). is_retirement X c \<and> map_of (units s) k = Some c) (retired s)
     \<and> list_all (\<lambda>(k, u). key_str (uc_key u) = k
          \<and> (case parents X (uc_key u) of
               Inl _ \<Rightarrow> False
             | Inr ps \<Rightarrow> k = KEY \<or> has (retired s) k
                 \<or> list_all (\<lambda>p. map_of (retired s) (key_str p) = None) ps)) (units s)
     \<and> list_all (\<lambda>(q, i, _). ji_seq i = q \<and> library_floor s < q \<and> q \<le> library_seq s
          \<and> map_of (units s) (item_key i) = Some (item_unit i)) (journal s)
     \<and> distinct (map (\<lambda>(_, i, _). item_key i) (journal s))"

lemma journal_keys_distinct: "journal_ok n s \<Longrightarrow> distinct (map (\<lambda>(_, i, _). item_key i) (journal s))"
proof -
  assume j: "journal_ok n s"
  then have d: "distinct (map fst (journal s))" by (simp add: journal_ok_def bt_inv_distinct)
  have "inj_on (\<lambda>(_, i, _). item_key i) (set (journal s))"
  proof (rule inj_onI)
    fix a b
    assume ab: "a \<in> set (journal s)" "b \<in> set (journal s)"
      and eq: "(\<lambda>(_, i, _). item_key i) a = (\<lambda>(_, i, _). item_key i) b"
    obtain p i t where a: "a = (p, i, t)" by (cases a)
    obtain q k u where b: "b = (q, k, u)" by (cases b)
    have m: "map_of (journal s) p = Some (i, t)" "map_of (journal s) q = Some (k, u)"
      using ab d by (simp_all add: a b)
    from journal_one_row [OF j m] eq have "p = q" by (simp add: a b)
    with m show "a = b" by (simp add: a b)
  qed
  moreover have "distinct (journal s)" using d by (simp add: distinct_map)
  ultimately show ?thesis by (simp add: distinct_map)
qed

lemma store_well_kept: "store_ok X s \<Longrightarrow> well_kept X s"
proof -
  assume ok: "store_ok X s"
  then have parts: "units_ok X s" "retired_ok X s" "family_ok s" "journal_ok (library_seq s) s" "head_ok s"
    by (simp_all add: store_ok_def content_ok_def)
  have bt: "bt_inv (units s)" "bt_inv (retired s)" "bt_inv (journal s)"
    using parts by (simp_all add: units_ok_def retired_ok_def journal_ok_def)
  have 1: "is_retirement X c \<and> map_of (units s) k = Some c" if "(k, c) \<in> set (retired s)" for k c
  proof -
    have "map_of (retired s) k = Some c" using that bt_inv_distinct [OF bt(2)] by simp
    with parts(2) show ?thesis by (simp add: retired_ok_def)
  qed
  have 2: "key_str (uc_key u) = k \<and> (case parents X (uc_key u) of
      Inl _ \<Rightarrow> False
    | Inr ps \<Rightarrow> k = KEY \<or> has (retired s) k \<or> list_all (\<lambda>p. map_of (retired s) (key_str p) = None) ps)"
    if "(k, u) \<in> set (units s)" for k u
  proof -
    have u: "map_of (units s) k = Some u" using that bt_inv_distinct [OF bt(1)] by simp
    with parts(1) obtain ps where ps: "key_str (uc_key u) = k" "parents X (uc_key u) = Inr ps"
      "\<forall>p \<in> set ps. (key_str p, k) \<in> set (unit_parents s)"
      unfolding units_ok_def by blast
    have "has (retired s) k" if "k \<noteq> KEY" "p \<in> set ps" "has (retired s) (key_str p)" for p
      using parts(3) ps(3) that u unfolding family_ok_def has_def by blast
    then have "k = KEY \<or> has (retired s) k \<or> (\<forall>p \<in> set ps. \<not> has (retired s) (key_str p))" by blast
    with ps show ?thesis by (simp add: list_all_iff has_def)
  qed
  have 3: "ji_seq i = q \<and> library_floor s < q \<and> q \<le> library_seq s
      \<and> map_of (units s) (item_key i) = Some (item_unit i)" if "(q, i, t) \<in> set (journal s)" for q i t
  proof -
    have m: "map_of (journal s) q = Some (i, t)" using that bt_inv_distinct [OF bt(3)] by simp
    with parts(5) have "library_floor s < q" by (simp add: head_ok_def has_def)
    with journal_row [OF parts(4) m] show ?thesis by simp
  qed
  from 1 2 3 journal_keys_distinct [OF parts(4)] show ?thesis
    by (auto simp: well_kept_def list_all_iff)
qed

text \<open>C4. In every reachable store a retired key holds its retirement and nothing else, no unit has a
  retired parent unless it is retired itself, and the journal holds at most one row for a key, with
  the unit's current version, between the floor and the library's sequence.\<close>

theorem library_well_kept:
  "case library_after X library epoch events of Inl _ \<Rightarrow> False | Inr s \<Rightarrow> well_kept X s"
proof -
  obtain s where s: "library_after X library epoch events = Inr s" using library_total by blast
  from store_well_kept [OF library_ok [OF s]] show ?thesis by (simp add: s)
qed

text \<open>C5. Nothing a library has settled is taken back by anything that happens later: its sequence and
  floor never go back, a retired key stays deleted, a writer keeps its device and is the only one
  of it.\<close>

theorem library_moves_forward:
  "case library_after X library epoch events of
     Inl _ \<Rightarrow> False
   | Inr s \<Rightarrow>
       (let s' = fold (handle X) followup s in
        library_seq s \<le> library_seq s' \<and> library_floor s \<le> library_floor s'
        \<and> library_floor s' \<le> library_seq s'
        \<and> head_library_id (lib_head s') = head_library_id (lib_head s)
        \<and> list_all (\<lambda>(k, _). case map_of (units s') k of None \<Rightarrow> False | Some u \<Rightarrow> uc_value u = Deleted) (retired s)
        \<and> list_all (\<lambda>(w, i). map_of (writers s') w = Some i) (writers s)
        \<and> distinct (map snd (writers s')))"
proof -
  obtain s where s: "library_after X library epoch events = Inr s" using library_total by blast
  note ok = library_ok [OF s]
  define s' where "s' = fold (handle X) followup s"
  have ok': "store_ok X s'" unfolding s'_def by (rule handled.run_inv [OF ok])
  have adv: "advances s s'" unfolding s'_def by (rule handled.run_le [OF ok])
  have gone: "case map_of (units s') k of None \<Rightarrow> False | Some u \<Rightarrow> uc_value u = Deleted"
    if "(k, c) \<in> set (retired s)" for k c
  proof -
    have "has (retired s) k" using that by (force simp: has_keys)
    then have "has (retired s') k" using adv by (simp add: advances_def)
    then obtain d where d: "map_of (retired s') k = Some d" by (auto simp: has_def)
    have "retired_ok X s'" using ok' by (simp add: store_ok_def content_ok_def)
    with d have "is_retirement X d" "map_of (units s') k = Some d" unfolding retired_ok_def by blast+
    then show ?thesis by (simp add: is_retirement_def)
  qed
  have bt: "bt_inv (writers s)" "bt_inv (writers s')" using ok ok' by (simp_all add: store_ok_def writers_ok_def)
  have keep: "map_of (writers s') w = Some i" if "(w, i) \<in> set (writers s)" for w i
    using adv that bt_inv_distinct [OF bt(1)] by (auto simp: advances_def dest: map_le_row)
  have "inj_on snd (set (writers s'))"
  proof (rule inj_onI)
    fix a b
    assume ab: "a \<in> set (writers s')" "b \<in> set (writers s')" "snd a = snd b"
    obtain v i where a: "a = (v, i)" by (cases a)
    obtain w where b: "b = (w, i)" using ab(3) a by (cases b) simp
    have "map_of (writers s') v = Some i" "map_of (writers s') w = Some i"
      using ab a b bt_inv_distinct [OF bt(2)] by simp_all
    moreover have "writers_ok s'" using ok' by (simp add: store_ok_def)
    ultimately have "v = w" unfolding writers_ok_def by blast
    with a b show "a = b" by simp
  qed
  then have "distinct (map snd (writers s'))"
    using bt_inv_distinct [OF bt(2)] by (simp add: distinct_map)
  moreover have "library_floor s' \<le> library_seq s'" using ok' by (simp add: store_ok_def head_ok_def)
  ultimately show ?thesis
    using adv gone keep by (auto simp: s s'_def [symmetric] advances_def list_all_iff)
qed

text \<open>C6. As long as only requests are served, a device's acknowledgement never goes back and never
  passes the library's sequence, a revoked device stays revoked, and recorded operations stay.\<close>

theorem devices_move_forward:
  "case library_after X library epoch events of
     Inl _ \<Rightarrow> False
   | Inr s \<Rightarrow>
       (let s' = fold (serve X) requests s in
        list_all (\<lambda>(i, r).
          case map_of (devices s') i of
            None \<Rightarrow> False
          | Some r' \<Rightarrow> dr_ack r \<le> dr_ack r' \<and> dr_ack r' \<le> library_seq s' \<and> dr_verifier r' = dr_verifier r
              \<and> (if dr_revoked r then \<not> active s' i else True)) (devices s)
        \<and> list_all (\<lambda>(k, row). map_of (operations s') k = Some row) (operations s))"
proof -
  obtain s where s: "library_after X library epoch events = Inr s" using library_total by blast
  note ok = library_ok [OF s]
  define s' where "s' = fold (serve X) requests s"
  have ok': "store_ok X s'" unfolding s'_def by (rule served.run_inv [OF ok])
  have keep: "keeps s s'" using served.run_le [OF ok, of requests] by (simp add: s'_def later_def)
  have bt: "bt_inv (devices s)" "bt_inv (operations s)"
    using ok by (simp_all add: store_ok_def devices_ok_def operations_ok_def)
  define D where "D = (\<lambda>i (r :: device_row). case map_of (devices s') i of
      None \<Rightarrow> False
    | Some r' \<Rightarrow> dr_ack r \<le> dr_ack r' \<and> dr_ack r' \<le> library_seq s' \<and> dr_verifier r' = dr_verifier r
        \<and> (if dr_revoked r then \<not> active s' i else True))"
  have dev: "D i r" if "(i, r) \<in> set (devices s)" for i r
  proof -
    have "map_of (devices s) i = Some r" using that bt_inv_distinct [OF bt(1)] by simp
    with keep obtain r' where r': "map_of (devices s') i = Some r'" "device_later r r'"
      unfolding keeps_def by blast
    have "dr_ack r' \<le> library_seq s'" using ok' r'(1) by (auto simp: store_ok_def devices_ok_def)
    with r' show ?thesis by (simp add: D_def device_later_def active_def)
  qed
  have "map_of (operations s') k = Some row" if "(k, row) \<in> set (operations s)" for k row
    using keep that bt_inv_distinct [OF bt(2)] by (auto simp: keeps_def dest: map_le_row)
  with dev have "list_all (\<lambda>(i, r). D i r) (devices s)
      \<and> list_all (\<lambda>(k, row). map_of (operations s') k = Some row) (operations s)"
    by (auto simp: list_all_iff)
  then show ?thesis unfolding D_def s sum.case Let_def s'_def [symmetric] .
qed

section \<open>Reads\<close>

text \<open>C7. A page of changes of a reachable store leaves nothing out: it is exactly the journal between the
  cursor and the next cursor, in the order of the sequence; the next cursor moves forward unless
  the page reached the library's sequence, and the cursor is never before the floor.\<close>

theorem changes_complete:
  "case library_after X library epoch events of
     Inl _ \<Rightarrow> False
   | Inr s \<Rightarrow>
       (case changes X s d after limit of
          Inl _ \<Rightarrow> True
        | Inr p \<Rightarrow>
            cp_items p = rows_between after (next_after p) s \<and> length (cp_items p) \<le> limit
            \<and> through_seq p = library_seq s \<and> library_floor s \<le> after
            \<and> after \<le> next_after p \<and> next_after p \<le> library_seq s
            \<and> (after < next_after p \<or> next_after p = library_seq s))"
proof -
  obtain s where s: "library_after X library epoch events = Inr s" using library_total by blast
  show ?thesis
  proof (cases "changes X s d after limit")
    case (Inr p)
    from changes_spec [OF library_ok [OF s] Inr] show ?thesis unfolding s Inr sum.case by metis
  qed (simp add: s)
qed

text \<open>A page of a pinned state leaves nothing out: it is exactly the pinned units after the cursor, up
  to the next cursor or to the end, and the next cursor moves forward.\<close>

theorem state_page_complete:
  "case library_after X library epoch events of
     Inl _ \<Rightarrow> False
   | Inr s \<Rightarrow>
       (case state_page X s d pin after limit now of
          Inl _ \<Rightarrow> True
        | Inr p \<Rightarrow>
            (case map_of (state_pins s) pin of
               None \<Rightarrow> False
             | Some row \<Rightarrow>
                 live_pin (dev_id d) now row \<and> pg_start_seq p = pin_start row
                 \<and> pg_items p = keys_between (case after of None \<Rightarrow> [] | Some k \<Rightarrow> key_str k)
                     (map_option key_str (pg_next_key p)) (pin_units row)
                 \<and> (case pg_next_key p of
                      None \<Rightarrow> True
                    | Some k \<Rightarrow> (case after of None \<Rightarrow> [] | Some k \<Rightarrow> key_str k) < key_str k)
                 \<and> length (pg_items p) \<le> limit))"
proof -
  obtain s where s: "library_after X library epoch events = Inr s" using library_total by blast
  show ?thesis
  proof (cases "state_page X s d pin after limit now")
    case (Inr p)
    from state_page_spec [OF library_ok [OF s] Inr] show ?thesis unfolding s Inr sum.case .
  qed (simp add: s)
qed

lemma drop_rev_filter:
  "distinct (map fst pins) \<Longrightarrow>
     filter P (filter (\<lambda>p. fst p \<notin> set (map fst (drop n (rev (filter P pins))))) pins)
       = rev (take n (rev (filter P pins)))"
proof -
  assume d: "distinct (map fst pins)"
  define live where "live = filter P pins"
  have "filter P (filter (\<lambda>p. fst p \<notin> set (map fst (drop n (rev live)))) pins)
      = filter (\<lambda>p. fst p \<notin> set (map fst (drop n (rev live)))) live"
    unfolding live_def filter_filter by (intro filter_cong) auto
  also have "\<dots> = rev (filter (\<lambda>p. fst p \<notin> set (map fst (drop n (rev live)))) (take n (rev live) @ drop n (rev live)))"
    by (simp add: rev_filter [symmetric])
  also have "\<dots> = rev (take n (rev live))"
  proof -
    have "distinct (map fst (rev live))"
      using d unfolding live_def by (simp add: rev_map [symmetric] distinct_map_filter)
    then have "distinct (map fst (take n (rev live)) @ map fst (drop n (rev live)))"
      by (simp flip: map_append)
    then have "fst p \<notin> set (map fst (drop n (rev live)))" if "p \<in> set (take n (rev live))" for p
      using that by auto
    then have "filter (\<lambda>p. fst p \<notin> set (map fst (drop n (rev live)))) (take n (rev live)) = take n (rev live)"
      by (intro filter_True) simp
    moreover have "filter (\<lambda>p. fst p \<notin> set (map fst (drop n (rev live)))) (drop n (rev live)) = []"
      by (simp add: filter_empty_conv)
    ultimately show ?thesis unfolding filter_append by simp
  qed
  finally show ?thesis by (simp add: live_def)
qed

text \<open>C8. A new pin holds every unit the library has and its sequence, and a device never has more than
  four pins that are alive: the new one and the newest three before it.\<close>

theorem pins_bounded:
  "case library_after X library epoch events of
     Inl _ \<Rightarrow> False
   | Inr s \<Rightarrow>
       (case create_state_pin X d fresh now sql_now s of
          (Inl _, s') \<Rightarrow> s' = s
        | (Inr pin, s') \<Rightarrow>
            sp_pin_id pin = fresh \<and> sp_start_seq pin = library_seq s
            \<and> (case map_of (state_pins s') fresh of
                 None \<Rightarrow> False
               | Some row \<Rightarrow> pin_units row = units s \<and> pin_device row = dev_id d)
            \<and> length (filter (\<lambda>(_, p). live_pin (dev_id d) sql_now p) (state_pins s')) \<le> 4
            \<and> s' = s\<lparr>state_pins := state_pins s'\<rparr>)"
proof -
  obtain s where s: "library_after X library epoch events = Inr s" using library_total by blast
  note ok = library_ok [OF s]
  obtain res s' where p: "create_state_pin X d fresh now sql_now s = (res, s')" by fastforce
  show ?thesis
  proof (cases res)
    case (Inl f)
    with p create_pin_error show ?thesis by (auto simp: s)
  next
    case (Inr pin)
    from p [unfolded Inr] obtain pins current
      where pins: "pins = drop_pins (surplus_pins (dev_id d) sql_now (state_pins s)) (state_pins s)"
      and new: "\<not> has pins fresh" and seq: "seq_decimal (head_seq (lib_head s)) = Inr (sp_start_seq pin)"
      and i: "sp_pin_id pin = fresh"
      and s': "s' = s\<lparr>state_pins := pins @ [(fresh, \<lparr>pin_device = dev_id d, pin_start = sp_start_seq pin,
           pin_expires = current + STATE_PIN_LIFETIME_SECONDS, pin_units = units s\<rparr>)]\<rparr>"
      by (rule create_pin_Inr)
    have start: "sp_start_seq pin = library_seq s"
      using ok seq unfolding store_ok_def head_ok_def by (metis Inr_inject seq_decimal_from)
    define P where "P = (\<lambda>(_ :: string, p). live_pin (dev_id d) sql_now p)"
    have "distinct (map fst (state_pins s))" using ok by (simp add: store_ok_def pins_ok_def)
    from drop_rev_filter [OF this, of P 3] have "filter P pins = rev (take 3 (rev (filter P (state_pins s))))"
      by (simp add: pins drop_pins_filter surplus_pins_def P_def)
    then have "length (filter P pins) \<le> 3" by simp
    then have "length (filter P (state_pins s')) \<le> 4" by (simp add: s')
    moreover have "map_of (state_pins s') fresh = Some \<lparr>pin_device = dev_id d, pin_start = sp_start_seq pin,
           pin_expires = current + STATE_PIN_LIFETIME_SECONDS, pin_units = units s\<rparr>"
      using new by (simp add: s' has_def map_add_def split: option.split)
    ultimately show ?thesis
      using i start by (simp add: s p Inr P_def) (simp add: s')
  qed
qed

section \<open>Maintenance\<close>

text \<open>A device that has not acknowledged anything since \<open>old\<close>.\<close>

definition silent :: "int \<Rightarrow> device_row \<Rightarrow> bool" where
  "silent old r \<longleftrightarrow> (case dr_last_ack r of None \<Rightarrow> True | Some t \<Rightarrow> t \<le> old)"

text \<open>C9. Maintenance of a reachable store never fails. The journal loses exactly the rows up to the new floor, and
  units and retirements stay. The floor does not go back and does not pass the sequence, and where it moved
  it is at most the acknowledgement of every device that is not revoked and acknowledged within the last week, at most the start of every
  pin that is left, and before every row younger than a week. Other devices hold nothing back: when no device
  acknowledged in the last week, no pin is left and no row is younger, the whole journal goes.\<close>

theorem maintenance_floor:
  "case library_after X library epoch events of
     Inl _ \<Rightarrow> False
   | Inr s \<Rightarrow>
       (case maintain_at named current s of
          (Inl _, _) \<Rightarrow> False
        | (Inr _, s') \<Rightarrow>
            library_floor s \<le> library_floor s' \<and> library_floor s' \<le> library_seq s
            \<and> library_seq s' = library_seq s \<and> units s' = units s \<and> retired s' = retired s
            \<and> journal s' = filter (\<lambda>(q, _). library_floor s' < q) (journal s)
            \<and> (library_floor s' = library_floor s
               \<or> list_all (\<lambda>(_, r). library_floor s' \<le> dr_ack r \<or> dr_revoked r
                     \<or> silent (current - RETENTION_SECONDS) r) (devices s')
                 \<and> list_all (\<lambda>(_, p). library_floor s' \<le> pin_start p) (state_pins s')
                 \<and> list_all (\<lambda>(q, _, created). library_floor s' < q \<or> created \<le> current - RETENTION_SECONDS)
                     (journal s))
            \<and> (if list_all (\<lambda>(_, r). silent (current - RETENTION_SECONDS) r) (devices s') \<and> state_pins s' = []
                  \<and> list_all (\<lambda>(_, _, created). created \<le> current - RETENTION_SECONDS) (journal s)
                then library_floor s' = library_seq s \<and> journal s' = [] else True))"
proof -
  obtain s where s: "library_after X library epoch events = Inr s" using library_total by blast
  note ok = library_ok [OF s]
  define c where "c = cleared named current s"
  define f where "f = floor_of named current s"
  define old where "old = current - RETENTION_SECONDS"
  note m = maintain_swept [OF ok, of named current, folded c_def f_def old_def]
  have units: "units c = units s" "retired c = retired s"
    by (simp_all add: c_def cleared_def purge_revoked_devices_def drop_dead_pins_def)
  have cursor: "f = library_floor s \<or> f \<le> q" if "q \<in> set (live_acks old c @ journal_tail old c)" for q
    using min_over_cursors(3) [OF that] by (simp add: f_def floor_of_def c_def old_def)
  have j: "journal_ok (library_seq s) s" and h: "head_ok s" using ok by (simp_all add: store_ok_def content_ok_def)
  have young: "f = library_floor s \<or> f < q" if row: "(q, i, t) \<in> set (journal s)" "old < t" for q i t
  proof -
    have "bt_inv (journal c)" "(q, i, t) \<in> set (journal c)" using j row by (simp_all add: c_def journal_ok_def)
    from young_rows [OF this row(2)] obtain p where p: "journal_tail old c = [saturating_pred p]" "p \<le> q"
      "has (journal c) p" by blast
    have "p \<noteq> 0" using h p(3) by (auto simp: head_ok_def c_def)
    with cursor [of "saturating_pred p"] p(1,2) pred_less [of p f] show ?thesis by auto
  qed
  have moved: "list_all (\<lambda>(_, r). f \<le> dr_ack r \<or> dr_revoked r
        \<or> silent old r) (devices c)
      \<and> list_all (\<lambda>(_, p). f \<le> pin_start p) (state_pins c)
      \<and> list_all (\<lambda>(q, _, created). f < q \<or> created \<le> old) (journal s)"
    if ne: "f \<noteq> library_floor s"
  proof (intro conjI)
    show "list_all (\<lambda>(_, p). f \<le> pin_start p) (state_pins c)"
      using cursor ne by (fastforce simp: list_all_iff live_acks_def)
    show "list_all (\<lambda>(q, _, created). f < q \<or> created \<le> old) (journal s)"
      using young ne by (auto simp: list_all_iff not_le)
    have "f \<le> dr_ack r \<or> dr_revoked r \<or> silent old r"
      if "(i, r) \<in> set (devices c)" for i r
    proof (cases "\<not> dr_revoked r \<and> \<not> silent old r")
      case True
      then have "case dr_last_ack r of None \<Rightarrow> False | Some t \<Rightarrow> old < t"
        by (auto simp: silent_def split: option.splits)
      with True that have "dr_ack r \<in> set (live_acks old c)" by (force simp: live_acks_def)
      with cursor ne show ?thesis by auto
    next
      case False
      then show ?thesis by auto
    qed
    then show "list_all (\<lambda>(_, r). f \<le> dr_ack r \<or> dr_revoked r
        \<or> silent old r) (devices c)"
      by (auto simp: list_all_iff)
  qed
  have all: "f = library_seq s" if "list_all (\<lambda>(_, r). silent old r) (devices c)" "state_pins c = []"
    "list_all (\<lambda>(_, _, created). created \<le> old) (journal s)"
  proof -
    have "\<not> (case dr_last_ack r of None \<Rightarrow> False | Some t \<Rightarrow> old < t)" if "(i, r) \<in> set (devices c)" for i r
      using \<open>list_all (\<lambda>(_, r). silent old r) (devices c)\<close> that
      by (auto simp: list_all_iff silent_def split: option.splits)
    then have "live_acks old c = []" using that(2) by (auto simp: live_acks_def filter_empty_conv)
    moreover have "filter (\<lambda>(_, _, created). old < created) (journal c) = []"
      using that(3) by (auto simp: c_def list_all_iff filter_empty_conv)
    then have "journal_tail old c = []" by (simp add: journal_tail_def)
    moreover have "library_floor s \<le> library_seq s" using h by (simp add: head_ok_def)
    ultimately show ?thesis by (simp add: f_def floor_of_def c_def old_def new_floor_def max_def)
  qed
  have rows: "filter (\<lambda>(q, _). library_seq s < q) (journal s) = []"
  proof -
    have "q \<le> library_seq s" if "(q, i, u) \<in> set (journal s)" for q i u
    proof -
      have "map_of (journal s) q = Some (i, u)" using that j by (simp add: journal_ok_def bt_inv_distinct)
      with journal_row [OF j] show ?thesis by blast
    qed
    then show ?thesis by (fastforce simp: filter_empty_conv)
  qed
  have "library_seq (swept old f c) = library_seq s" by (simp add: c_def)
  moreover have "library_floor s \<le> f" "f \<le> library_seq s" using floor_bounds [OF ok] by (simp_all add: f_def)
  ultimately show ?thesis
    using moved all rows unfolding s sum.case old_def [symmetric] m prod.case by (auto simp: units) (simp_all add: c_def)
qed

end
