(* ===== verification/Io.thy ===== *)
theory Io
  imports Prelude
begin

text \<open>
  The \<^verbatim>\<open>Read\<close>, \<^verbatim>\<open>Seek\<close> and \<^verbatim>\<open>Write\<close> traits of the standard library, as far as the streaming
  routines use them. What the operating system and the caller do is an environment \<open>env\<close> that is
  asked at every step, with the number of the step: whether an operation on a file succeeds, how
  many bytes a \<^verbatim>\<open>read\<close> may return (never none before the end of the file), and what the
  caller's \<^verbatim>\<open>check\<close> closure answers. A routine is given the number of its first step and
  returns that of its next one, so every interleaving of faults, short reads and cancellations is
  some environment. The error code is the one the routine maps an \<^verbatim>\<open>io::Error\<close> to.
\<close>

record env =
  env_check :: "nat \<Rightarrow> string option"
  env_io :: "nat \<Rightarrow> bool"
  env_grain :: "nat \<Rightarrow> nat"

record opened =
  file_bytes :: bytes
  file_pos :: nat

definition check :: "env \<Rightarrow> nat \<Rightarrow> nat result" where
  "check E n = (case env_check E n of None \<Rightarrow> Inr (Suc n) | Some code \<Rightarrow> Inl (WireError code))"

definition io :: "env \<Rightarrow> string \<Rightarrow> nat \<Rightarrow> nat result" where
  "io E code n = (if env_io E n then Inr (Suc n) else Inl (WireError code))"

definition file_rest :: "opened \<Rightarrow> bytes" where
  "file_rest f = drop (file_pos f) (file_bytes f)"

text \<open>\<^verbatim>\<open>read(&mut buffer)\<close>: some bytes, unless the buffer is empty or the file is at its end.\<close>

definition read_some :: "env \<Rightarrow> string \<Rightarrow> opened \<Rightarrow> nat \<Rightarrow> nat \<Rightarrow> (bytes \<times> opened \<times> nat) result" where
  "read_some E code f len n =
     bindE (io E code n) (\<lambda>n'.
     let k = min (max 1 (env_grain E n)) (min len (length (file_rest f))) in
     Inr (take k (file_rest f), f\<lparr>file_pos := file_pos f + k\<rparr>, n'))"

definition read_exact :: "env \<Rightarrow> string \<Rightarrow> opened \<Rightarrow> nat \<Rightarrow> nat \<Rightarrow> (bytes \<times> opened \<times> nat) result" where
  "read_exact E code f len n =
     bindE (io E code n) (\<lambda>n'.
     if len > length (file_rest f) then Inl (WireError code)
     else Inr (take len (file_rest f), f\<lparr>file_pos := file_pos f + len\<rparr>, n'))"

definition seek_start :: "env \<Rightarrow> string \<Rightarrow> opened \<Rightarrow> nat \<Rightarrow> nat \<Rightarrow> (opened \<times> nat) result" where
  "seek_start E code f offset n = bindE (io E code n) (\<lambda>n'. Inr (f\<lparr>file_pos := offset\<rparr>, n'))"

definition write_all :: "env \<Rightarrow> string \<Rightarrow> bytes \<Rightarrow> bytes \<Rightarrow> nat \<Rightarrow> (bytes \<times> nat) result" where
  "write_all E code out bytes n = bindE (io E code n) (\<lambda>n'. Inr (out @ bytes, n'))"

text \<open>An environment in which nothing fails; reads may still be short.\<close>

definition quiet :: "(nat \<Rightarrow> nat) \<Rightarrow> env" where
  "quiet grain = \<lparr>env_check = (\<lambda>_. None), env_io = (\<lambda>_. True), env_grain = grain\<rparr>"

definition quietly :: "env \<Rightarrow> bool" where
  "quietly E \<longleftrightarrow> env_check E = (\<lambda>_. None) \<and> env_io E = (\<lambda>_. True)"

lemma quietly_quiet [simp]: "quietly (quiet grain)"
  by (simp add: quietly_def quiet_def)

lemma quietly_steps [simp]: "quietly E \<Longrightarrow> check E n = Inr (Suc n)" "quietly E \<Longrightarrow> io E code n = Inr (Suc n)"
  by (simp_all add: quietly_def check_def io_def)

lemma check_no_panic [simp]: "check E n \<noteq> Inl Panic"
  by (simp add: check_def split: option.split)

lemma io_no_panic [simp]: "io E code n \<noteq> Inl Panic"
  by (simp add: io_def)

lemma file_no_panic [simp]:
  "read_some E code f len n \<noteq> Inl Panic"
  "read_exact E code f len n \<noteq> Inl Panic"
  "seek_start E code f offset n \<noteq> Inl Panic"
  "write_all E code out bytes n \<noteq> Inl Panic"
  by (auto simp: read_some_def read_exact_def seek_start_def write_all_def bindE_Inl Let_def split: if_splits)

lemma read_some_Inr:
  assumes "read_some E code f len n = Inr (bs, f', n')"
  shows "file_bytes f' = file_bytes f" "file_rest f = bs @ file_rest f'" "length bs \<le> len"
    "bs = [] \<longleftrightarrow> len = 0 \<or> file_rest f = []"
proof -
  from assms obtain k where k: "k = min (max 1 (env_grain E n)) (min len (length (file_rest f)))"
    "bs = take k (file_rest f)" "f' = f\<lparr>file_pos := file_pos f + k\<rparr>"
    by (auto simp: read_some_def bindE_Inr Let_def)
  then show "file_bytes f' = file_bytes f" by simp
  have "file_rest f' = drop k (file_rest f)" by (simp add: k file_rest_def add.commute)
  then show "file_rest f = bs @ file_rest f'" by (simp add: k(2))
  show "length bs \<le> len" by (simp add: k)
  show "bs = [] \<longleftrightarrow> len = 0 \<or> file_rest f = []" by (auto simp: k min_def max_def split: if_splits)
qed

lemma read_exact_Inr:
  "read_exact E code f len n = Inr (bs, f', n') \<longleftrightarrow>
     io E code n = Inr n' \<and> len \<le> length (file_rest f) \<and> bs = take len (file_rest f)
     \<and> f' = f\<lparr>file_pos := file_pos f + len\<rparr>"
  by (auto simp: read_exact_def bindE_Inr)

lemma seek_start_Inr:
  "seek_start E code f offset n = Inr (f', n') \<longleftrightarrow> io E code n = Inr n' \<and> f' = f\<lparr>file_pos := offset\<rparr>"
  by (auto simp: seek_start_def bindE_Inr)

lemma write_all_Inr:
  "write_all E code out bytes n = Inr (out', n') \<longleftrightarrow> io E code n = Inr n' \<and> out' = out @ bytes"
  by (auto simp: write_all_def bindE_Inr)

lemma read_some_quiet:
  assumes "quietly E"
  obtains bs f' where "read_some E code f len n = Inr (bs, f', Suc n)"
  using assms that by (simp add: read_some_def Let_def)

end
