(* ===== verification/Stream_Delta.thy ===== *)
theory Stream_Delta
  imports Delta_Create Io
begin

text \<open>
  Deltas of files, \<^verbatim>\<open>crates/sync-wire/src/stream_delta.rs\<close>: the same recipes with larger limits
  and the magic \<^verbatim>\<open>RNSL\<close>, applied to and searched in files that are read through bounded
  buffers. Offsets into a file are natural numbers: the limit of one tebibyte is checked before any
  of them is computed, so none of the 64-bit sums of the source wraps. A subtraction or an index
  the source leaves unchecked is a \<open>Panic\<close> of the model where it would be out of range.
\<close>

definition MAX_FILE_BYTES :: nat where "MAX_FILE_BYTES = 1024 * 1024 * 1024 * 1024"
definition BUFFER :: nat where "BUFFER = 64 * 1024"
definition ANCHOR :: nat where "ANCHOR = 64"
definition MAX_ANCHORS :: nat where "MAX_ANCHORS = 262144"
definition U64_MAX :: nat where "U64_MAX = 18446744073709551615"
definition U32_MAX :: nat where "U32_MAX = 4294967295"

definition stream_validate :: "recipe \<Rightarrow> unit result" where
  "stream_validate r = validate_limits r (of_nat MAX_FILE_BYTES) (of_nat MAX_FILE_BYTES)"

definition stream_encode :: "recipe \<Rightarrow> bytes result" where
  "stream_encode r = bindE (stream_validate r) (\<lambda>_. encode_profile r (as_bytes ''RNSL''))"

definition stream_decode :: "bytes \<Rightarrow> recipe result" where
  "stream_decode bytes =
     bindE (decode_profile bytes (as_bytes ''RNSL'')) (\<lambda>r. bindE (stream_validate r) (\<lambda>_. Inr r))"

definition stream_fingerprint :: "bytes \<Rightarrow> u64" where
  "stream_fingerprint bs = foldl (\<lambda>h b. h * 257 + (ucast b + 1)) 0 bs"

section \<open>Verifying a whole file\<close>

text \<open>The reading loop: the size so far and what the digest was fed.\<close>

function verify_loop :: "env \<Rightarrow> base \<Rightarrow> opened \<Rightarrow> u64 \<Rightarrow> bytes \<Rightarrow> nat \<Rightarrow> (u64 \<times> bytes \<times> opened \<times> nat) result" where
  "verify_loop E expected f sz fed n =
     bindE (check E n) (\<lambda>n1.
     bindE (read_some E ''delta-io'' f BUFFER n1) (\<lambda>(bs, f', n2).
     if bs = [] then Inr (sz, fed, f', n2)
     else
       let sz' = sz + of_nat (length bs) in
       if sz' > base_size expected then Inl (WireError ''base-size-mismatch'')
       else verify_loop E expected f' sz' (fed @ bs) n2))"
  by pat_completeness auto
termination
  by (relation "measure (\<lambda>(_, _, f, _). length (file_rest f))") (auto dest!: read_some_Inr(2))

declare verify_loop.simps [simp del]

definition verify :: "env \<Rightarrow> (bytes \<Rightarrow> string) \<Rightarrow> opened \<Rightarrow> base \<Rightarrow> nat \<Rightarrow> (opened \<times> nat) result" where
  "verify E H source expected n =
     bindE (seek_start E ''delta-io'' source 0 n) (\<lambda>(f, n1).
     bindE (verify_loop E expected f 0 [] n1) (\<lambda>(sz, fed, f', n2).
     if sz \<noteq> base_size expected \<or> H fed \<noteq> base_hash expected
     then Inl (WireError ''base-hash-mismatch'')
     else Inr (f', n2)))"

section \<open>Application\<close>

text \<open>The copy loop: the source, what was written and what the digest was fed.\<close>

function copy_loop :: "env \<Rightarrow> opened \<Rightarrow> bytes \<Rightarrow> bytes \<Rightarrow> nat \<Rightarrow> nat \<Rightarrow> (opened \<times> bytes \<times> bytes \<times> nat) result" where
  "copy_loop E source out fed left n =
     (if left \<noteq> 0 then
        bindE (check E n) (\<lambda>n1.
        let k = min left BUFFER in
        bindE (read_exact E ''delta-io'' source k n1) (\<lambda>(bs, source', n2).
        bindE (write_all E ''delta-io'' out bs n2) (\<lambda>(out', n3).
        copy_loop E source' out' (fed @ bs) (left - k) n3)))
      else Inr (source, out, fed, n))"
  by pat_completeness auto
termination
  by (relation "measure (\<lambda>(_, _, _, _, left, _). left)") (auto simp: BUFFER_def)

declare copy_loop.simps [simp del]

definition stream_op :: "env \<Rightarrow> opened list \<times> bytes \<times> bytes \<times> nat \<Rightarrow> op \<Rightarrow> (opened list \<times> bytes \<times> bytes \<times> nat) result" where
  "stream_op E = (\<lambda>(sources, out, fed, n) op.
     bindE (check E n) (\<lambda>n1.
     case op of
       Insert bytes \<Rightarrow>
         bindE (write_all E ''delta-io'' out bytes n1) (\<lambda>(out', n2). Inr (sources, out', fed @ bytes, n2))
     | Copy b offset len \<Rightarrow>
         (case get_at sources (unat b) of
            None \<Rightarrow> Inl Panic
          | Some source \<Rightarrow>
              bindE (seek_start E ''delta-io'' source (unat offset) n1) (\<lambda>(f, n2).
              bindE (copy_loop E f out fed (unat len) n2) (\<lambda>(f', out', fed', n3).
              Inr (sources[unat b := f'], out', fed', n3))))))"

definition verify_step ::
  "env \<Rightarrow> (bytes \<Rightarrow> string) \<Rightarrow> opened list \<times> nat \<Rightarrow> opened \<times> base \<Rightarrow> (opened list \<times> nat) result" where
  "verify_step E H = (\<lambda>(verified, n) (f, b).
     bindE (verify E H f b n) (\<lambda>(f', n'). Inr (verified @ [f'], n')))"

definition stream_apply ::
  "env \<Rightarrow> (bytes \<Rightarrow> string) \<Rightarrow> recipe \<Rightarrow> opened list \<Rightarrow> bytes \<Rightarrow> nat \<Rightarrow> (bytes \<times> nat) result" where
  "stream_apply E H r sources out n =
     bindE (stream_validate r) (\<lambda>_.
     if length sources \<noteq> length (bases r) then Inl (WireError ''missing-base'')
     else
       bindE (foldE (verify_step E H) ([], n) (zip sources (bases r))) (\<lambda>(sources', n1).
       bindE (foldE (stream_op E) (sources', out, [], n1) (ops r)) (\<lambda>(_, out', fed, n2).
       if H fed \<noteq> target_hash r then Inl (WireError ''target-hash-mismatch'') else Inr (out', n2))))"

section \<open>What verifying and copying do\<close>

lemma verify_loop_Inr:
  assumes "verify_loop E b f sz fed n = Inr (sz', fed', f', n')"
    and "unat sz = length fed" and "length fed \<le> unat (base_size b)"
    and "unat (base_size b) \<le> MAX_FILE_BYTES"
  shows "file_bytes f' = file_bytes f \<and> fed' = fed @ file_rest f \<and> unat sz' = length fed'"
  using assms
proof (induction E b f sz fed n rule: verify_loop.induct)
  case (1 E b f sz fed n)
  from "1.prems"(1) obtain n1 bs f1 n2 where c: "check E n = Inr n1"
    and r: "read_some E ''delta-io'' f BUFFER n1 = Inr (bs, f1, n2)"
    by (subst (asm) verify_loop.simps) (auto simp: bindE_Inr)
  note rd = read_some_Inr [OF r]
  show ?case
  proof (cases "bs = []")
    case True
    with "1.prems" c r rd show ?thesis
      by (subst (asm) verify_loop.simps) (auto simp: BUFFER_def)
  next
    case False
    have "length bs < 18446744073709551616" using rd(3) by (simp add: BUFFER_def)
    then have "unat (of_nat (length bs) :: u64) = length bs" by (rule unat_of_nat_64)
    then have len: "unat (sz + of_nat (length bs)) = length (fed @ bs)"
      using "1.prems"(2-4) rd(3) by (simp add: unat_add_no_wrap BUFFER_def MAX_FILE_BYTES_def)
    from "1.prems"(1) c r False have "\<not> sz + of_nat (length bs) > base_size b
        \<and> verify_loop E b f1 (sz + of_nat (length bs)) (fed @ bs) n2 = Inr (sz', fed', f', n')"
      by (subst (asm) verify_loop.simps) (auto simp: Let_def split: if_splits)
    then have small: "\<not> sz + of_nat (length bs) > base_size b"
      and rec: "verify_loop E b f1 (sz + of_nat (length bs)) (fed @ bs) n2 = Inr (sz', fed', f', n')"
      by simp_all
    from small len have "length (fed @ bs) \<le> unat (base_size b)"
      by (simp add: word_less_nat_alt not_less)
    from "1.IH" [OF c r refl refl False refl small rec len this "1.prems"(4)] rd(1,2)
    show ?thesis by simp
  qed
qed

lemma verify_loop_quiet:
  assumes "quietly E" and "unat sz = length fed" and "length (fed @ file_rest f) \<le> unat (base_size b)"
  shows "\<exists>y. verify_loop E b f sz fed n = Inr y"
  using assms
proof (induction E b f sz fed n rule: verify_loop.induct)
  case (1 E b f sz fed n)
  obtain bs f1 where r: "read_some E ''delta-io'' f BUFFER (Suc n) = Inr (bs, f1, Suc (Suc n))"
    using read_some_quiet [OF "1.prems"(1)] by metis
  note rd = read_some_Inr [OF r] and c = quietly_steps(1) [OF "1.prems"(1), of n]
  show ?case
  proof (cases "bs = []")
    case True
    then show ?thesis by (subst verify_loop.simps) (simp add: c r)
  next
    case False
    have "length bs < 18446744073709551616" using rd(3) by (simp add: BUFFER_def)
    then have "unat (of_nat (length bs) :: u64) = length bs" by (rule unat_of_nat_64)
    moreover have "length fed + length bs \<le> unat (base_size b)" using "1.prems"(3) rd(2) by simp
    ultimately have len: "unat (sz + of_nat (length bs)) = length (fed @ bs)"
      using "1.prems"(2) unat_less_64 [of "base_size b"] by (simp add: unat_add_no_wrap)
    then have small: "\<not> sz + of_nat (length bs) > base_size b"
      using "1.prems"(3) rd(2) by (simp add: word_less_nat_alt not_less)
    have "length ((fed @ bs) @ file_rest f1) \<le> unat (base_size b)" using "1.prems"(3) rd(2) by simp
    from "1.IH" [OF c r refl refl False refl small "1.prems"(1) len this] False small
    show ?thesis by (subst verify_loop.simps) (simp add: c r)
  qed
qed

lemma verify_loop_no_panic: "verify_loop E b f sz fed n \<noteq> Inl Panic"
proof (induction E b f sz fed n rule: verify_loop.induct)
  case (1 E b f sz fed n)
  show ?case
    by (subst verify_loop.simps) (use "1.IH" in \<open>auto simp: bindE_Inl Let_def split: if_splits\<close>)
qed

lemma verify_no_panic [simp]: "verify E H f b n \<noteq> Inl Panic"
  using verify_loop_no_panic by (auto simp: verify_def bindE_Inl split: if_splits)

definition identifies :: "(bytes \<Rightarrow> string) \<Rightarrow> base \<Rightarrow> bytes \<Rightarrow> bool" where
  "identifies H b bytes \<longleftrightarrow> unat (base_size b) = length bytes \<and> H bytes = base_hash b"

lemma verify_Inr:
  assumes "verify E H f b n = Inr (f', n')" and "unat (base_size b) \<le> MAX_FILE_BYTES"
  shows "file_bytes f' = file_bytes f \<and> identifies H b (file_bytes f)"
proof -
  from assms(1) obtain sz fed n1 where
    l: "verify_loop E b (f\<lparr>file_pos := 0\<rparr>) 0 [] n1 = Inr (sz, fed, f', n')"
    and sz: "sz = base_size b" "H fed = base_hash b"
    by (auto simp: verify_def bindE_Inr seek_start_Inr split: if_splits)
  from verify_loop_Inr [OF l] assms(2) sz show ?thesis
    by (auto simp: identifies_def file_rest_def)
qed

lemma verify_quiet:
  assumes "quietly E" and "identifies H b (file_bytes f)" and "unat (base_size b) \<le> MAX_FILE_BYTES"
  shows "\<exists>f' n'. verify E H f b n = Inr (f', n')"
proof -
  let ?f = "f\<lparr>file_pos := 0\<rparr>"
  obtain sz fed f' n' where l: "verify_loop E b ?f 0 [] (Suc n) = Inr (sz, fed, f', n')"
    using verify_loop_quiet [OF assms(1), of 0 "[]" ?f b] assms(2)
    by (fastforce simp: identifies_def file_rest_def)
  from verify_loop_Inr [OF l] assms(2,3) have "fed = file_bytes f" "unat sz = length fed"
    by (simp_all add: file_rest_def)
  then have "sz = base_size b" using assms(2) by (simp add: identifies_def word_unat_eq_iff)
  with l \<open>fed = file_bytes f\<close> assms(1,2) show ?thesis
    by (simp add: verify_def seek_start_def identifies_def)
qed

lemma copy_loop_Inr:
  assumes "copy_loop E f out fed left n = Inr (f', out', fed', n')"
  shows "file_bytes f' = file_bytes f \<and> left \<le> length (file_rest f)
    \<and> out' = out @ take left (file_rest f) \<and> fed' = fed @ take left (file_rest f)"
  using assms
proof (induction E f out fed left n rule: copy_loop.induct)
  case (1 E f out fed left n)
  show ?case
  proof (cases "left = 0")
    case True
    with "1.prems" show ?thesis by (subst (asm) copy_loop.simps) simp
  next
    case False
    define k where "k = min left BUFFER"
    from "1.prems" False obtain n1 n2 n3 where c: "check E n = Inr n1"
      and le: "k \<le> length (file_rest f)"
      and r: "read_exact E ''delta-io'' f k n1 = Inr (take k (file_rest f), f\<lparr>file_pos := file_pos f + k\<rparr>, n2)"
      and w: "write_all E ''delta-io'' out (take k (file_rest f)) n2 = Inr (out @ take k (file_rest f), n3)"
      and rec: "copy_loop E (f\<lparr>file_pos := file_pos f + k\<rparr>) (out @ take k (file_rest f)) (fed @ take k (file_rest f))
          (left - k) n3 = Inr (f', out', fed', n')"
      unfolding k_def
      by (subst (asm) copy_loop.simps) (auto simp: bindE_Inr Let_def read_exact_Inr write_all_Inr)
    have rest: "file_rest (f\<lparr>file_pos := file_pos f + k\<rparr>) = drop k (file_rest f)"
      by (simp add: file_rest_def add.commute)
    have split: "take left (file_rest f) = take k (file_rest f) @ take (left - k) (drop k (file_rest f))"
      using take_add [of k "left - k" "file_rest f"] by (simp add: k_def)
    from "1.IH" [OF False c k_def r refl refl w refl rec] le show ?thesis
      by (auto simp: rest split)
  qed
qed

lemma copy_loop_quiet:
  "quietly E \<Longrightarrow> left \<le> length (file_rest f) \<Longrightarrow> \<exists>y. copy_loop E f out fed left n = Inr y"
proof (induction E f out fed left n rule: copy_loop.induct)
  case (1 E f out fed left n)
  show ?case
  proof (cases "left = 0")
    case False
    define k where "k = min left BUFFER"
    have le: "k \<le> length (file_rest f)" using "1.prems" by (simp add: k_def)
    have r: "read_exact E ''delta-io'' f k (Suc n)
        = Inr (take k (file_rest f), f\<lparr>file_pos := file_pos f + k\<rparr>, Suc (Suc n))"
      using "1.prems"(1) le by (simp add: read_exact_def)
    have w: "write_all E ''delta-io'' out (take k (file_rest f)) (Suc (Suc n))
        = Inr (out @ take k (file_rest f), Suc (Suc (Suc n)))"
      using "1.prems"(1) by (simp add: write_all_def)
    have "left - k \<le> length (file_rest (f\<lparr>file_pos := file_pos f + k\<rparr>))"
      using "1.prems"(2) by (simp add: file_rest_def)
    from "1.IH" [OF False quietly_steps(1) [OF "1.prems"(1)] k_def r refl refl w refl "1.prems"(1) this]
    show ?thesis using False r w "1.prems"(1)
      by (subst copy_loop.simps) (simp add: k_def [symmetric])
  qed (subst copy_loop.simps, simp)
qed

lemma copy_loop_no_panic: "copy_loop E f out fed left n \<noteq> Inl Panic"
proof (induction E f out fed left n rule: copy_loop.induct)
  case (1 E f out fed left n)
  show ?case
    by (subst copy_loop.simps) (use "1.IH" in \<open>auto simp: bindE_Inl Let_def\<close>)
qed

section \<open>Whole recipes\<close>

lemma stream_op_Inr:
  assumes "stream_op E (fs, out, fed, n) op = Inr (fs', out', fed', n')"
  shows "map file_bytes fs' = map file_bytes fs
    \<and> out' = out @ op_bytes (map file_bytes fs) op \<and> fed' = fed @ op_bytes (map file_bytes fs) op"
proof (cases op)
  case (Insert bytes)
  with assms show ?thesis by (auto simp: stream_op_def bindE_Inr write_all_Inr)
next
  case (Copy b offset len)
  with assms obtain f n1 n2 where b: "unat b < length fs"
    and c: "copy_loop E ((fs ! unat b)\<lparr>file_pos := unat offset\<rparr>) out fed (unat len) n1 = Inr (f, out', fed', n2)"
    and fs': "fs' = fs[unat b := f]"
    by (auto simp: stream_op_def bindE_Inr seek_start_Inr split: option.splits)
  from copy_loop_Inr [OF c] Copy b show ?thesis
    by (auto simp: fs' file_rest_def map_update list_update_same_conv)
qed

lemma stream_op_quiet:
  assumes "quietly E" and "op_in_range (map file_bytes fs) op"
  shows "\<exists>y. stream_op E (fs, out, fed, n) op = Inr y"
proof (cases op)
  case (Insert bytes)
  with assms show ?thesis by (simp add: stream_op_def write_all_def)
next
  case (Copy b offset len)
  let ?f = "(fs ! unat b)\<lparr>file_pos := unat offset\<rparr>"
  have b: "unat b < length fs" using Copy assms(2) by simp
  then have "unat len \<le> length (file_rest ?f)" using Copy assms(2) by (simp add: file_rest_def)
  from copy_loop_quiet [OF assms(1) this]
  obtain f' out' fed' n' where "copy_loop E ?f out fed (unat len) (Suc (Suc n)) = Inr (f', out', fed', n')"
    by fastforce
  then show ?thesis using Copy assms(1) b by (simp add: stream_op_def seek_start_def get_at_def)
qed

lemma stream_op_no_panic:
  "op_in_range (map file_bytes fs) op \<Longrightarrow> stream_op E (fs, out, fed, n) op \<noteq> Inl Panic"
  using copy_loop_no_panic
  by (cases op) (auto simp: stream_op_def bindE_Inl split: option.splits)

lemma stream_ops_Inr:
  "foldE (stream_op E) (fs, out, fed, n) os = Inr (fs', out', fed', n') \<Longrightarrow>
     out' = out @ denote (map file_bytes fs) os \<and> fed' = fed @ denote (map file_bytes fs) os"
proof (induction os arbitrary: fs out fed n)
  case (Cons op os)
  then obtain fs1 out1 fed1 n1 where s: "stream_op E (fs, out, fed, n) op = Inr (fs1, out1, fed1, n1)"
    and rest: "foldE (stream_op E) (fs1, out1, fed1, n1) os = Inr (fs', out', fed', n')"
    by (auto simp: bindE_Inr)
  from stream_op_Inr [OF s] Cons.IH [OF rest] show ?case by simp
qed simp

lemma stream_ops_quiet:
  "quietly E \<Longrightarrow> list_all (op_in_range (map file_bytes fs)) os \<Longrightarrow>
     \<exists>y. foldE (stream_op E) (fs, out, fed, n) os = Inr y"
proof (induction os arbitrary: fs out fed n)
  case (Cons op os)
  then obtain fs1 out1 fed1 n1 where s: "stream_op E (fs, out, fed, n) op = Inr (fs1, out1, fed1, n1)"
    using stream_op_quiet [of E fs op out fed n] by auto
  with stream_op_Inr [OF s] Cons.prems Cons.IH [of fs1 out1 fed1 n1] show ?case by simp
qed simp

lemma stream_ops_no_panic:
  "list_all (op_in_range (map file_bytes fs)) os \<Longrightarrow> foldE (stream_op E) (fs, out, fed, n) os \<noteq> Inl Panic"
proof (induction os arbitrary: fs out fed n)
  case (Cons op os)
  show ?case
  proof (cases "stream_op E (fs, out, fed, n) op")
    case (Inl e)
    with stream_op_no_panic [of fs op E out fed n] Cons.prems show ?thesis by auto
  next
    case (Inr y)
    then obtain fs1 out1 fed1 n1 where s: "stream_op E (fs, out, fed, n) op = Inr (fs1, out1, fed1, n1)"
      by (metis prod_cases4)
    with stream_op_Inr [OF s] Cons.prems Cons.IH [of fs1 out1 fed1 n1] show ?thesis by simp
  qed
qed simp

definition all_identified :: "(bytes \<Rightarrow> string) \<Rightarrow> opened list \<Rightarrow> base list \<Rightarrow> bool" where
  "all_identified H sources bs \<longleftrightarrow> list_all2 (\<lambda>f b. identifies H b (file_bytes f)) sources bs"

lemma verify_all_Inr:
  "length fs = length bs \<Longrightarrow> list_all (\<lambda>b. unat (base_size b) \<le> MAX_FILE_BYTES) bs \<Longrightarrow>
   foldE (verify_step E H) (vs, n) (zip fs bs) = Inr (fs', n') \<Longrightarrow>
     map file_bytes fs' = map file_bytes (vs @ fs) \<and> all_identified H fs bs"
proof (induction fs bs arbitrary: vs n rule: list_induct2)
  case (Cons f fs b bs)
  then obtain f1 n1 where v: "verify E H f b n = Inr (f1, n1)"
    and rest: "foldE (verify_step E H) (vs @ [f1], n1) (zip fs bs) = Inr (fs', n')"
    by (auto simp: bindE_Inr verify_step_def)
  from verify_Inr [OF v] Cons.prems(1) Cons.IH [OF _ rest] show ?case
    by (auto simp: all_identified_def)
qed (simp add: all_identified_def)

lemma verify_all_quiet:
  "length fs = length bs \<Longrightarrow> list_all (\<lambda>b. unat (base_size b) \<le> MAX_FILE_BYTES) bs \<Longrightarrow>
   quietly E \<Longrightarrow> all_identified H fs bs \<Longrightarrow> \<exists>y. foldE (verify_step E H) (vs, n) (zip fs bs) = Inr y"
proof (induction fs bs arbitrary: vs n rule: list_induct2)
  case (Cons f fs b bs)
  then obtain f1 n1 where "verify E H f b n = Inr (f1, n1)"
    using verify_quiet [of E H b f n] by (auto simp: all_identified_def)
  with Cons show ?case by (simp add: verify_step_def all_identified_def)
qed simp

lemma sum_member_le: "x \<in> set xs \<Longrightarrow> f x \<le> sum_list (map f xs)" for f :: "'a \<Rightarrow> nat"
  by (auto intro: member_le_sum_list)

lemma stream_valid:
  "stream_validate r = Inr () \<longleftrightarrow> valid_recipe r (of_nat MAX_FILE_BYTES) (of_nat MAX_FILE_BYTES)"
  by (simp add: stream_validate_def validate_limits_iff)

lemma stream_valid_sizes:
  "stream_validate r = Inr () \<Longrightarrow> list_all (\<lambda>b. unat (base_size b) \<le> MAX_FILE_BYTES) (bases r)"
  using sum_member_le [of _ "bases r" "\<lambda>b. unat (base_size b)"]
  by (fastforce simp: stream_valid valid_recipe_def list_all_iff MAX_FILE_BYTES_def)

lemma ops_in_range:
  assumes "stream_validate r = Inr ()" and "all_identified H sources (bases r)"
  shows "list_all (op_in_range (map file_bytes sources)) (ops r)"
proof -
  have "op_in_range (map file_bytes sources) op" if "op_ok (bases r) op" for op
    using that assms(2)
    by (cases op) (auto simp: all_identified_def list_all2_conv_all_nth identifies_def)
  then show ?thesis using assms(1) by (auto simp: stream_valid valid_recipe_def list_all_iff)
qed

lemma stream_apply_Inr:
  assumes "stream_apply E H r sources out n = Inr (out', n')"
  shows "stream_validate r = Inr () \<and> all_identified H sources (bases r)
    \<and> out' = out @ denote (map file_bytes sources) (ops r)
    \<and> H (denote (map file_bytes sources) (ops r)) = target_hash r"
proof -
  from assms obtain fs n1 gs fed where v: "stream_validate r = Inr ()"
    and len: "length sources = length (bases r)"
    and all: "foldE (verify_step E H) ([], n) (zip sources (bases r)) = Inr (fs, n1)"
    and os: "foldE (stream_op E) (fs, out, [], n1) (ops r) = Inr (gs, out', fed, n')"
    and h: "H fed = target_hash r"
    by (auto simp: stream_apply_def bindE_Inr split: if_splits)
  from verify_all_Inr [OF len stream_valid_sizes [OF v] all]
  have "map file_bytes fs = map file_bytes sources" "all_identified H sources (bases r)" by simp_all
  with stream_ops_Inr [OF os] v h show ?thesis by simp
qed

lemma stream_apply_quiet:
  assumes "quietly E" and "stream_validate r = Inr ()" and "all_identified H sources (bases r)"
    and "H (denote (map file_bytes sources) (ops r)) = target_hash r"
  shows "\<exists>n'. stream_apply E H r sources out n = Inr (out @ denote (map file_bytes sources) (ops r), n')"
proof -
  have len: "length sources = length (bases r)"
    using assms(3) by (auto simp: all_identified_def dest: list_all2_lengthD)
  note sizes = stream_valid_sizes [OF assms(2)]
  obtain fs n1 where all: "foldE (verify_step E H) ([], n) (zip sources (bases r)) = Inr (fs, n1)"
    using verify_all_quiet [OF len sizes assms(1,3), of "[]" n] by fastforce
  have same: "map file_bytes fs = map file_bytes sources"
    using verify_all_Inr [OF len sizes all] by simp
  have "list_all (op_in_range (map file_bytes fs)) (ops r)"
    unfolding same by (rule ops_in_range [OF assms(2,3)])
  from stream_ops_quiet [OF assms(1) this, of out "[]" n1] obtain gs out' fed n2
    where os: "foldE (stream_op E) (fs, out, [], n1) (ops r) = Inr (gs, out', fed, n2)" by fastforce
  from stream_ops_Inr [OF os] show ?thesis
    using assms(2,4) len all os by (simp add: stream_apply_def same)
qed

lemma stream_apply_no_panic: "stream_apply E H r sources out n \<noteq> Inl Panic"
proof -
  have v: "foldE (verify_step E H) (vs, k) zs \<noteq> Inl Panic" for vs k zs
    by (rule foldE_no_panic) (auto simp: verify_step_def bindE_Inl)
  have o: "foldE (stream_op E) (fs, out, [], n1) (ops r) \<noteq> Inl Panic"
    if "stream_validate r = Inr ()" "length sources = length (bases r)"
      "foldE (verify_step E H) ([], n) (zip sources (bases r)) = Inr (fs, n1)" for fs n1
  proof (rule stream_ops_no_panic)
    from verify_all_Inr [OF that(2) stream_valid_sizes [OF that(1)] that(3)]
    have "map file_bytes fs = map file_bytes sources" and "all_identified H sources (bases r)" by simp_all
    then show "list_all (op_in_range (map file_bytes fs)) (ops r)"
      using ops_in_range [OF that(1)] by simp
  qed
  show ?thesis
    using v validate_limits_no_panic o by (auto simp: stream_apply_def stream_validate_def bindE_Inl split: if_splits)
qed

section \<open>Properties\<close>

text \<open>Whatever the files, short reads, faults and cancellations do, applying a recipe to files never
  panics, and when it returns it has written exactly what the instructions denote over the contents
  of verified bases, with the promised size and digest.\<close>

theorem stream_apply_sound:
  "case stream_apply E H r sources [] n of
     Inl e \<Rightarrow> e \<noteq> Panic
   | Inr (out, _) \<Rightarrow>
       out = denote (map file_bytes sources) (ops r) \<and> H out = target_hash r
       \<and> length out = unat (target_size r)
       \<and> list_all2 (\<lambda>f b. identifies H b (file_bytes f)) sources (bases r)"
proof (cases "stream_apply E H r sources [] n")
  case (Inl e)
  then show ?thesis using stream_apply_no_panic by auto
next
  case (Inr y)
  obtain out n' where y: "y = (out, n')" by fastforce
  note a = stream_apply_Inr [OF Inr [unfolded y]]
  then have "length (denote (map file_bytes sources) (ops r)) = sum_list (map op_len (ops r))"
    by (intro length_denote ops_in_range [where H = H]) simp_all
  with a Inr y show ?thesis by (simp add: stream_valid valid_recipe_def all_identified_def)
qed

text \<open>Where nothing fails, files and memory agree: for every recipe within the limits of the
  in-memory profile, applying it to files, however short their reads are, gives the bytes
  that \<^verbatim>\<open>Recipe::apply\<close> gives on their contents, and fails exactly when it fails.\<close>

theorem stream_apply_agrees:
  "if validate r = Inr () \<and> list_all (\<lambda>f. length (file_bytes f) < 2 ^ 64) sources then
     (case stream_apply (quiet grain) H r sources [] n of Inl _ \<Rightarrow> None | Inr (out, _) \<Rightarrow> Some out)
       = (case recipe_apply H r (map file_bytes sources) of Inl _ \<Rightarrow> None | Inr out \<Rightarrow> Some out)
   else True"
proof (cases "validate r = Inr () \<and> list_all (\<lambda>f. length (file_bytes f) < 2 ^ 64) sources")
  case True
  then have v: "stream_validate r = Inr ()"
    by (auto simp: validate_iff stream_valid valid_recipe_def MAX_TARGET_BYTES_def MAX_BASE_BYTES_def
        MAX_FILE_BYTES_def word_le_nat_alt)
  have same: "all_identified H sources (bases r) \<longleftrightarrow>
      list_all2 (\<lambda>s b. of_nat (length s) = base_size b \<and> H s = base_hash b) (map file_bytes sources) (bases r)"
    using True by (auto simp: all_identified_def identifies_def list_all2_map1 list_all2_conv_all_nth list_all_length
        unat_of_nat_64 word_unat_eq_iff)
  show ?thesis
  proof (cases "recipe_apply H r (map file_bytes sources)")
    case (Inr out)
    with v same obtain n' where "stream_apply (quiet grain) H r sources [] n = Inr (out, n')"
      using stream_apply_quiet [OF quietly_quiet v, where H = H and sources = sources and out = "[]" and n = n]
      by (auto simp: recipe_apply_Inr)
    with Inr show ?thesis by simp
  next
    case (Inl e)
    have "False" if r: "stream_apply (quiet grain) H r sources [] n = Inr y" for y
    proof -
      obtain out n' where y: "y = (out, n')" by fastforce
      have "recipe_apply H r (map file_bytes sources) = Inr (denote (map file_bytes sources) (ops r))"
        using stream_apply_Inr [OF r [unfolded y]] same True by (simp add: recipe_apply_Inr)
      with Inl show False by simp
    qed
    with Inl show ?thesis by (auto split: sum.split)
  qed
next
  case False
  show ?thesis unfolding if_not_P [OF False] by simp
qed

end
