(* ===== verification/Stream_Search.thy ===== *)
theory Stream_Search
  imports Stream_Delta
begin

text \<open>
  The search \<^verbatim>\<open>create\<close> of \<^verbatim>\<open>crates/sync-wire/src/stream_delta.rs\<close>: sparse anchors of the bases,
  a rolling fingerprint over the target, and windows of 64 KiB into every file.
\<close>

section \<open>Windows\<close>

record window =
  win_file :: opened
  win_size :: nat
  win_start :: nat
  win_bytes :: bytes

definition window_new :: "opened \<Rightarrow> nat \<Rightarrow> window" where
  "window_new f sz = \<lparr>win_file = f, win_size = sz, win_start = U64_MAX, win_bytes = []\<rparr>"

definition window_at :: "env \<Rightarrow> window \<Rightarrow> nat \<Rightarrow> nat \<Rightarrow> nat \<Rightarrow> (bytes \<times> window \<times> nat) result" where
  "window_at E w offset minimum n =
     (if offset > win_size w \<or> minimum > win_size w - offset then Inl (WireError ''delta-io'')
      else if offset < win_start w
            \<or> offset + minimum > min U64_MAX (win_start w + length (win_bytes w))
      then
        bindE (seek_start E ''delta-io'' (win_file w) offset n) (\<lambda>(f, n1).
        bindE (read_exact E ''delta-io'' f (min (win_size w - offset) BUFFER) n1) (\<lambda>(bs, f', n2).
        Inr (bs, w\<lparr>win_file := f', win_start := offset, win_bytes := bs\<rparr>, n2)))
      else Inr (drop (offset - win_start w) (win_bytes w), w, n))"

lemma window_at_nonempty: "window_at E w offset (Suc 0) n = Inr (bs, w', n') \<Longrightarrow> bs \<noteq> []"
  by (auto simp: window_at_def bindE_Inr seek_start_Inr read_exact_Inr BUFFER_def split: if_splits)

section \<open>The index\<close>

type_synonym entry = "u64 \<times> u8 \<times> nat"

definition div_ceil :: "nat \<Rightarrow> nat \<Rightarrow> nat" where
  "div_ceil a b = (a + b - 1) div b"

definition anchor_stride :: "nat \<Rightarrow> nat" where
  "anchor_stride volume = div_ceil (max (div_ceil volume MAX_ANCHORS) 4096) 4096 * 4096"

lemma anchor_stride_pos [simp]: "0 < anchor_stride volume" "anchor_stride volume mod 4096 = 0"
  by (auto simp: anchor_stride_def div_ceil_def div_greater_zero_iff max_def)

text \<open>The anchors of one block that was read at \<open>position\<close>.\<close>

function anchor_loop :: "nat \<Rightarrow> nat \<Rightarrow> nat \<Rightarrow> bytes \<Rightarrow> nat \<Rightarrow> entry list \<Rightarrow> (nat \<times> entry list) result" where
  "anchor_loop volume base_id position block next_anchor index =
     (if next_anchor + ANCHOR \<le> position + length block then
        if next_anchor < position then Inl Panic
        else anchor_loop volume base_id position block (next_anchor + anchor_stride volume)
               (index @ [(stream_fingerprint (take ANCHOR (drop (next_anchor - position) block)), of_nat base_id, next_anchor)])
      else Inr (next_anchor, index))"
  by pat_completeness auto
termination
  by (relation "measure (\<lambda>(volume, base_id, position, block, nxt, index). Suc (position + length block) - nxt)")
    (auto simp: ANCHOR_def intro: diff_less_mono2)

declare anchor_loop.simps [simp del]

text \<open>The blocks of one base: the anchors, what the digest was fed and the file.\<close>

function block_loop ::
  "env \<Rightarrow> nat \<Rightarrow> nat \<Rightarrow> nat \<Rightarrow> opened \<Rightarrow> nat \<Rightarrow> nat \<Rightarrow> entry list \<Rightarrow> bytes \<Rightarrow> nat
    \<Rightarrow> (entry list \<times> bytes \<times> opened \<times> nat) result" where
  "block_loop E volume base_id sz f position next_anchor index fed n =
     (if position < sz then
        bindE (check E n) (\<lambda>n1.
        let k = min (sz - position) BUFFER in
        bindE (read_exact E ''delta-io'' f k n1) (\<lambda>(block, f', n2).
        bindE (anchor_loop volume base_id position block next_anchor index) (\<lambda>(next_anchor', index').
        block_loop E volume base_id sz f' (position + k) next_anchor' index' (fed @ block) n2)))
      else Inr (index, fed, f, n))"
  by pat_completeness auto
termination
  by (relation "measure (\<lambda>(_, _, _, sz, _, position, _). sz - position)") (auto simp: BUFFER_def)

declare block_loop.simps [simp del]

definition index_base ::
  "env \<Rightarrow> (bytes \<Rightarrow> string) \<Rightarrow> nat \<Rightarrow> entry list \<times> opened list \<times> nat \<Rightarrow> nat \<times> opened \<times> base
    \<Rightarrow> (entry list \<times> opened list \<times> nat) result" where
  "index_base E H volume = (\<lambda>(index, done_files, n) (base_id, source, b).
     bindE (validate_hash (base_hash b)) (\<lambda>_.
     bindE (seek_start E ''delta-io'' source 0 n) (\<lambda>(f, n1).
     bindE (block_loop E volume base_id (unat (base_size b)) f 0 0 index [] n1) (\<lambda>(index', fed, f1, n2).
     bindE (read_some E ''delta-io'' f1 1 n2) (\<lambda>(extra, f2, n3).
     if extra \<noteq> [] \<or> H fed \<noteq> base_hash b then Inl (WireError ''base-hash-mismatch'')
     else Inr (index', done_files @ [f2], n3))))))"

text \<open>The \<^verbatim>\<open>retain\<close> closure: at most two anchors of one fingerprint and base.\<close>

fun retain_pairs :: "(u64 \<times> u8) option \<Rightarrow> nat \<Rightarrow> entry list \<Rightarrow> entry list" where
  "retain_pairs previous occurrences [] = []"
| "retain_pairs previous occurrences (entry # entries) =
     (let key = (fst entry, fst (snd entry));
          n = (if previous = Some key then occurrences else 0) + 1 in
      if n \<le> 2 then entry # retain_pairs (Some key) n entries else retain_pairs (Some key) n entries)"

section \<open>Matches\<close>

text \<open>The comparison of a candidate: how many bytes agree, window by window.\<close>

function extend_match ::
  "env \<Rightarrow> window \<Rightarrow> window \<Rightarrow> nat \<Rightarrow> nat \<Rightarrow> nat \<Rightarrow> nat \<Rightarrow> nat \<Rightarrow> (nat \<times> window \<times> window \<times> nat) result" where
  "extend_match E source target offset position limit len n =
     (if len < limit then
        bindE (check E n) (\<lambda>n1.
        bindE (window_at E source (offset + len) 1 n1) (\<lambda>(a, source', n2).
        bindE (window_at E target (position + len) 1 n2) (\<lambda>(b, target', n3).
        let k = min (min (length a) (length b)) (limit - len);
            equal = common_prefix (take k a) (take k b) in
        if equal \<noteq> k then Inr (len + equal, source', target', n3)
        else extend_match E source' target' offset position limit (len + equal) n3)))
      else Inr (len, source, target, n))"
  by pat_completeness auto
termination
  by (relation "measure (\<lambda>(_, _, _, _, _, limit, len, _). limit - len)")
    (auto dest!: window_at_nonempty intro!: diff_less_mono2)

declare extend_match.simps [simp del]

type_synonym found = "u8 \<times> nat \<times> nat"

text \<open>The candidates of one fingerprint: the times each base was tried, the longest match, the windows.\<close>

definition try_entry ::
  "env \<Rightarrow> nat \<Rightarrow> nat \<Rightarrow> nat list \<times> found \<times> window list \<times> window \<times> nat \<Rightarrow> entry
    \<Rightarrow> (nat list \<times> found \<times> window list \<times> window \<times> nat) result" where
  "try_entry E extent position = (\<lambda>(candidates, best, sources, target, n) (_, b, offset).
     case get_at candidates (unat b) of
       None \<Rightarrow> Inl Panic
     | Some tried \<Rightarrow>
         if tried \<ge> 2 then Inr (candidates, best, sources, target, n)
         else
           (case get_at sources (unat b) of
              None \<Rightarrow> Inl Panic
            | Some source \<Rightarrow>
                if win_size source < offset \<or> extent < position then Inl Panic
                else
                  bindE (extend_match E source target offset position
                           (min (win_size source - offset) (extent - position)) 0 n)
                    (\<lambda>(len, source', target', n').
                  Inr (candidates[unat b := tried + 1], if len > snd (snd best) then (b, offset, len) else best,
                       sources[unat b := source'], target', n'))))"

definition best_entry ::
  "env \<Rightarrow> entry list \<Rightarrow> nat \<Rightarrow> nat \<Rightarrow> u64 \<Rightarrow> window list \<Rightarrow> window \<Rightarrow> nat
    \<Rightarrow> (found \<times> window list \<times> window \<times> nat) result" where
  "best_entry E index extent position key sources target n =
     (let first = length (takeWhile (\<lambda>e. fst e < key) index) in
      bindE (foldE (try_entry E extent position) (replicate MAX_BASES 0, (0, 0, 0), sources, target, n)
               (takeWhile (\<lambda>e. fst e = key) (drop first index)))
        (\<lambda>(_, found). Inr found))"

text \<open>A match longer than a 32-bit length becomes several copies.\<close>

function copy_ops :: "u8 \<Rightarrow> nat \<Rightarrow> nat \<Rightarrow> nat \<Rightarrow> op list" where
  "copy_ops b offset len copied =
     (if copied < len then
        let k = min (len - copied) U32_MAX in
        Copy b (of_nat (offset + copied)) (of_nat k) # copy_ops b offset len (copied + k)
      else [])"
  by pat_completeness auto
termination
  by (relation "measure (\<lambda>(_, _, len, copied). len - copied)") (auto simp: U32_MAX_def)

declare copy_ops.simps [simp del]

section \<open>The search\<close>

text \<open>
  The state of the main loop: the windows, the operations, the pending literal with the number of
  literal bytes so far, and the fingerprint of the current window of the target where it is known.
\<close>

record search_state =
  ss_sources :: "window list"
  ss_target :: window
  ss_ops :: "op list"
  ss_literal :: bytes
  ss_literal_total :: nat
  ss_rolling :: "u64 option"

definition current_key :: "env \<Rightarrow> search_state \<Rightarrow> nat \<Rightarrow> nat \<Rightarrow> (u64 \<times> window \<times> nat) result" where
  "current_key E st position n =
     (case ss_rolling st of
        Some key \<Rightarrow> Inr (key, ss_target st, n)
      | None \<Rightarrow>
          bindE (window_at E (ss_target st) position ANCHOR n) (\<lambda>(bs, target, n').
          Inr (stream_fingerprint (take ANCHOR bs), target, n')))"

definition literal_step ::
  "env \<Rightarrow> nat \<Rightarrow> nat \<Rightarrow> u64 \<Rightarrow> window \<Rightarrow> nat \<Rightarrow> (u8 \<times> u64 option \<times> window \<times> nat) result" where
  "literal_step E extent position key target n =
     bindE (window_at E target position 1 n) (\<lambda>(bs, target1, n1).
     if position + ANCHOR < extent then
       bindE (window_at E target1 (position + ANCHOR) 1 n1) (\<lambda>(bs', target2, n2).
       Inr (hd bs, Some (roll key (hd bs) (hd bs')), target2, n2))
     else Inr (hd bs, None, target1, n1))"

definition flush_literal :: "bytes \<Rightarrow> op list \<Rightarrow> op list" where
  "flush_literal literal os = (if literal \<noteq> [] then os @ [Insert literal] else os)"

definition search_step ::
  "env \<Rightarrow> entry list \<Rightarrow> nat \<Rightarrow> nat \<Rightarrow> search_state \<Rightarrow> nat \<Rightarrow> (nat \<times> search_state \<times> nat) result" where
  "search_step E index extent position st n =
     bindE (if position mod BUFFER = 0 then check E n else Inr n) (\<lambda>n1.
     bindE (current_key E st position n1) (\<lambda>(key, target1, n2).
     bindE (best_entry E index extent position key (ss_sources st) target1 n2)
       (\<lambda>((b, offset, len), sources', target2, n3).
     bindE
       (if len \<ge> ANCHOR then
          Inr (position + len,
               st\<lparr>ss_sources := sources', ss_target := target2, ss_literal := [], ss_rolling := None,
                  ss_ops := flush_literal (ss_literal st) (ss_ops st) @ copy_ops b offset len 0\<rparr>, n3)
        else
          bindE (literal_step E extent position key target2 n3) (\<lambda>(first, rolling, target3, n4).
          Inr (position + 1,
               st\<lparr>ss_sources := sources', ss_target := target3, ss_literal := ss_literal st @ [first],
                  ss_literal_total := ss_literal_total st + 1, ss_rolling := rolling\<rparr>, n4)))
       (\<lambda>(position', st', n5).
     if ss_literal_total st' > MAX_PATCH_BYTES \<or> length (ss_ops st') > MAX_OPS
     then Inl (WireError ''delta-limit'')
     else Inr (position', st', n5)))))"

lemma search_step_advances:
  "search_step E index extent position st n = Inr (position', st', n') \<Longrightarrow> position < position'"
  by (auto simp: search_step_def bindE_Inr ANCHOR_def split: if_splits prod.splits)

function search_loop ::
  "env \<Rightarrow> entry list \<Rightarrow> nat \<Rightarrow> nat \<Rightarrow> search_state \<Rightarrow> nat \<Rightarrow> (nat \<times> search_state \<times> nat) result" where
  "search_loop E index extent position st n =
     (if position + ANCHOR \<le> extent then
        bindE (search_step E index extent position st n) (\<lambda>(position', st', n').
        search_loop E index extent position' st' n')
      else Inr (position, st, n))"
  by pat_completeness auto
termination
  by (relation "measure (\<lambda>(E, index, extent, position, _). extent - position)")
    (auto simp: ANCHOR_def dest!: search_step_advances)

declare search_loop.simps [simp del]

definition add_size :: "u64 \<Rightarrow> base \<Rightarrow> u64 result" where
  "add_size acc b = ok_or (checked_add acc (base_size b)) (WireError ''delta-limit'')"

definition started :: "opened list \<Rightarrow> base list \<Rightarrow> opened \<Rightarrow> nat \<Rightarrow> search_state" where
  "started fs bs t extent =
     \<lparr>ss_sources = map (\<lambda>(f, b). window_new f (unat (base_size b))) (zip fs bs),
      ss_target = window_new t extent, ss_ops = [], ss_literal = [], ss_literal_total = 0, ss_rolling = None\<rparr>"

text \<open>The bytes after the last window become literals.\<close>

definition last_literal :: "env \<Rightarrow> nat \<Rightarrow> nat \<Rightarrow> search_state \<Rightarrow> nat \<Rightarrow> (bytes \<times> nat) result" where
  "last_literal E extent position st n =
     (if position < extent then
        bindE (window_at E (ss_target st) position (extent - position) n) (\<lambda>(bs, _, n').
        Inr (ss_literal st @ bs, n'))
      else Inr (ss_literal st, n))"

definition search_files ::
  "env \<Rightarrow> (bytes \<Rightarrow> string) \<Rightarrow> base list \<Rightarrow> opened \<Rightarrow> base \<Rightarrow> entry list \<times> opened list \<times> nat \<Rightarrow> (recipe \<times> nat) result" where
  "search_files E H identities target identity = (\<lambda>(entries, files, n1).
     bindE (verify E H target identity n1) (\<lambda>(target1, n2).
     let index = retain_pairs None 0 (sort entries); extent = unat (base_size identity) in
     bindE (search_loop E index extent 0 (started files identities target1 extent) n2) (\<lambda>(position, st, n3).
     bindE (last_literal E extent position st n3) (\<lambda>(literal, n4).
     let r = \<lparr>bases = identities, target_hash = base_hash identity, target_size = base_size identity,
              ops = flush_literal literal (ss_ops st)\<rparr> in
     bindE (stream_encode r) (\<lambda>_. Inr (r, n4))))))"

definition stream_create ::
  "env \<Rightarrow> (bytes \<Rightarrow> string) \<Rightarrow> opened list \<Rightarrow> base list \<Rightarrow> opened \<Rightarrow> base \<Rightarrow> nat \<Rightarrow> (recipe \<times> nat) result" where
  "stream_create E H sources identities target identity n =
     bindE (foldE add_size 0 identities) (\<lambda>sum.
     if length sources \<noteq> length identities \<or> length identities > MAX_BASES
         \<or> unat sum > MAX_FILE_BYTES \<or> unat (base_size identity) > MAX_FILE_BYTES
     then Inl (WireError ''delta-limit'')
     else
       bindE (foldE (index_base E H (unat sum)) ([], [], n) (enumerate 0 (zip sources identities)))
         (search_files E H identities target identity))"

section \<open>Windows show the file\<close>

definition window_of :: "bytes \<Rightarrow> window \<Rightarrow> bool" where
  "window_of c w \<longleftrightarrow> file_bytes (win_file w) = c \<and> win_size w = length c
     \<and> win_bytes w = take (length (win_bytes w)) (drop (win_start w) c)"

lemma window_of_new [simp]: "window_of c (window_new f n) \<longleftrightarrow> file_bytes f = c \<and> n = length c"
  by (auto simp: window_of_def window_new_def)

lemma window_at_Inr:
  assumes "window_of c w" and "window_at E w offset minimum n = Inr (bs, w', n')"
    and "minimum \<le> BUFFER"
  shows "window_of c w' \<and> bs = take (length bs) (drop offset c) \<and> minimum \<le> length bs
    \<and> offset + length bs \<le> length c"
proof -
  have guard: "offset \<le> length c" "minimum \<le> length c - offset"
    using assms by (auto simp: window_at_def window_of_def split: if_splits)
  show ?thesis
  proof (cases "offset < win_start w \<or> offset + minimum > min U64_MAX (win_start w + length (win_bytes w))")
    case True
    with assms guard show ?thesis
      by (auto simp: window_at_def window_of_def bindE_Inr seek_start_Inr read_exact_Inr file_rest_def BUFFER_def)
  next
    case False
    define L where "L = length (win_bytes w)"
    from False assms guard have bs: "bs = drop (offset - win_start w) (win_bytes w)" "w' = w"
      by (auto simp: window_at_def window_of_def split: if_splits)
    have W: "win_bytes w = take L (drop (win_start w) c)" using assms(1) by (simp add: window_of_def L_def)
    have "bs = take (L - (offset - win_start w)) (drop offset c)"
      using False by (simp add: bs W drop_take)
    moreover have "length bs = L - (offset - win_start w)" by (simp add: bs L_def)
    ultimately show ?thesis using False assms(1) bs guard
      by (auto simp: L_def [symmetric])
  qed
qed


lemmas window_at_one = window_at_Inr [where minimum = 1, simplified BUFFER_def, simplified]

lemma window_at_no_panic [simp]: "window_at E w offset minimum n \<noteq> Inl Panic"
  by (auto simp: window_at_def bindE_Inl)

section \<open>Matches are matches\<close>

definition slices_agree :: "bytes \<Rightarrow> nat \<Rightarrow> bytes \<Rightarrow> nat \<Rightarrow> nat \<Rightarrow> bool" where
  "slices_agree c offset t position len \<longleftrightarrow> offset + len \<le> length c \<and> position + len \<le> length t
     \<and> take len (drop offset c) = take len (drop position t)"

lemma slices_agree_extend:
  "slices_agree c o1 t p1 n \<Longrightarrow> slices_agree c (o1 + n) t (p1 + n) m \<Longrightarrow> slices_agree c o1 t p1 (n + m)"
  using take_drop_extend [of n o1 c p1 t m] by (auto simp: slices_agree_def)

lemma extend_match_Inr:
  assumes "extend_match E w v offset position limit len n = Inr (len', w', v', n')"
    and "window_of c w" and "window_of t v"
    and "slices_agree c offset t position len"
  shows "window_of c w' \<and> window_of t v' \<and> slices_agree c offset t position len'"
  using assms
proof (induction E w v offset position limit len n rule: extend_match.induct)
  case (1 E w v offset position limit len n)
  show ?case
  proof (cases "len < limit")
    case False
    with "1.prems" show ?thesis by (subst (asm) extend_match.simps) simp
  next
    case True
    from "1.prems"(1) True obtain n1 a w1 n2 b v1 n3 where c: "check E n = Inr n1"
      and wa: "window_at E w (offset + len) 1 n1 = Inr (a, w1, n2)"
      and va: "window_at E v (position + len) 1 n2 = Inr (b, v1, n3)"
      by (subst (asm) extend_match.simps) (auto simp: bindE_Inr)
    define k where "k = min (min (length a) (length b)) (limit - len)"
    define q where "q = common_prefix (take k a) (take k b)"
    note W = window_at_one [OF "1.prems"(2) wa [simplified]] and V = window_at_one [OF "1.prems"(3) va [simplified]]
    have q: "take q (take k a) = take q (take k b)" "q \<le> k" "q \<le> length a" "q \<le> length b"
      using common_prefix_take [of "take k a" "take k b"] by (auto simp: q_def)
    have "take q a = take q (drop (offset + len) c)"
      using W q(3) by (metis min.absorb1 take_take)
    moreover have "take q b = take q (drop (position + len) t)"
      using V q(4) by (metis min.absorb1 take_take)
    ultimately have "slices_agree c (offset + len) t (position + len) q"
      using W V q by (auto simp: slices_agree_def min_absorb1)
    from slices_agree_extend [OF "1.prems"(4) this]
    have ext: "slices_agree c offset t position (len + q)" .
    from "1.prems"(1) True c wa va
    have res: "(if q \<noteq> k then Inr (len + q, w1, v1, n3)
        else extend_match E w1 v1 offset position limit (len + q) n3) = Inr (len', w', v', n')"
      unfolding k_def q_def by (subst (asm) extend_match.simps) (auto simp: Let_def split: if_splits)
    show ?thesis
    proof (cases "q = k")
      case False
      with res ext W V show ?thesis by simp
    next
      case eq: True
      then have nn: "\<not> q \<noteq> k" by simp
      from res eq have "extend_match E w1 v1 offset position limit (len + q) n3 = Inr (len', w', v', n')" by simp
      from "1.IH" [OF True c wa refl refl va refl refl k_def q_def nn this] W V ext show ?thesis by simp
    qed
  qed
qed

lemma extend_match_no_panic: "extend_match E w v offset position limit len n \<noteq> Inl Panic"
proof (induction E w v offset position limit len n rule: extend_match.induct)
  case (1 E w v offset position limit len n)
  show ?case
    by (subst extend_match.simps) (use "1.IH" in \<open>auto simp: bindE_Inl Let_def\<close>)
qed

definition found_ok :: "bytes list \<Rightarrow> bytes \<Rightarrow> nat \<Rightarrow> found \<Rightarrow> bool" where
  "found_ok cs t position = (\<lambda>(b, offset, len).
     len = 0 \<or> unat b < length cs \<and> slices_agree (cs ! unat b) offset t position len)"

definition windows_of :: "bytes list \<Rightarrow> window list \<Rightarrow> bool" where
  "windows_of cs ws \<longleftrightarrow> list_all2 window_of cs ws"

definition entry_ok :: "bytes list \<Rightarrow> entry \<Rightarrow> bool" where
  "entry_ok cs = (\<lambda>(_, b, offset). unat b < length cs \<and> offset \<le> length (cs ! unat b))"

definition tries_ok :: "bytes list \<Rightarrow> bytes \<Rightarrow> nat \<Rightarrow> nat list \<times> found \<times> window list \<times> window \<times> nat \<Rightarrow> bool" where
  "tries_ok cs t position = (\<lambda>(tried, best, ws, v, _).
     length tried = MAX_BASES \<and> found_ok cs t position best \<and> windows_of cs ws \<and> window_of t v)"

lemma try_entry_ok:
  assumes "tries_ok cs t position st" and "entry_ok cs e"
    and "length cs \<le> MAX_BASES" and "position \<le> length t"
  shows "try_entry E (length t) position st e \<noteq> Inl Panic"
    and "try_entry E (length t) position st e = Inr st' \<Longrightarrow> tries_ok cs t position st'"
proof -
  obtain tried best ws v n where st: "st = (tried, best, ws, v, n)" by (metis prod_cases5)
  obtain key b offset where e: "e = (key, b, offset)" by (metis prod_cases3)
  let ?w = "ws ! unat b"
  have b: "unat b < length cs" "offset \<le> length (cs ! unat b)" using assms(2) by (auto simp: e entry_ok_def)
  have ok: "length tried = MAX_BASES" "found_ok cs t position best" "windows_of cs ws" "window_of t v"
    using assms(1) by (auto simp: st tries_ok_def)
  have len: "length ws = length cs" using ok(3) by (simp add: windows_of_def list_all2_lengthD)
  have w: "window_of (cs ! unat b) ?w"
    using ok(3) b(1) by (auto simp: windows_of_def list_all2_conv_all_nth)
  then have sz: "win_size ?w = length (cs ! unat b)" by (simp add: window_of_def)
  have at: "get_at tried (unat b) = Some (tried ! unat b)" "get_at ws (unat b) = Some ?w"
    using b(1) ok(1) assms(3) len by (simp_all add: get_at_def)
  show "try_entry E (length t) position st e \<noteq> Inl Panic"
    using extend_match_no_panic b(2) assms(4) at
    by (auto simp: try_entry_def st e sz bindE_Inl simp del: get_at_Some)
  show "tries_ok cs t position st'" if r: "try_entry E (length t) position st e = Inr st'"
  proof (cases "tried ! unat b \<ge> 2")
    case True
    with r at assms(1) show ?thesis by (simp add: try_entry_def st e del: get_at_Some)
  next
    case False
    with r at b(2) assms(4) obtain len w' v' n' where
      x: "extend_match E ?w v offset position (min (length (cs ! unat b) - offset) (length t - position)) 0 n
          = Inr (len, w', v', n')"
      and st': "st' = (tried[unat b := tried ! unat b + 1],
          if len > snd (snd best) then (b, offset, len) else best, ws[unat b := w'], v', n')"
      by (auto simp: try_entry_def st e sz bindE_Inr simp del: get_at_Some)
    have "slices_agree (cs ! unat b) offset t position 0" using b assms(4) by (simp add: slices_agree_def)
    from extend_match_Inr [OF x w ok(4) this] ok b len show ?thesis
      by (auto simp: st' tries_ok_def found_ok_def windows_of_def list_all2_conv_all_nth nth_list_update)
  qed
qed

lemma try_entries_ok:
  assumes "tries_ok cs t position st" and "list_all (entry_ok cs) es"
    and "length cs \<le> MAX_BASES" and "position \<le> length t"
  shows "foldE (try_entry E (length t) position) st es \<noteq> Inl Panic"
    and "foldE (try_entry E (length t) position) st es = Inr st' \<Longrightarrow> tries_ok cs t position st'"
proof -
  have "foldE (try_entry E (length t) position) st es \<noteq> Inl Panic
    \<and> (foldE (try_entry E (length t) position) st es = Inr st' \<longrightarrow> tries_ok cs t position st')"
    using assms(1,2)
  proof (induction es arbitrary: st)
    case (Cons e es)
    then have e: "entry_ok cs e" and es: "list_all (entry_ok cs) es" by simp_all
    show ?case
    proof (cases "try_entry E (length t) position st e")
      case (Inl er)
      with try_entry_ok(1) [OF Cons.prems(1) e assms(3,4), of E] show ?thesis by auto
    next
      case (Inr st1)
      from try_entry_ok(2) [OF Cons.prems(1) e assms(3,4) Inr] Cons.IH [OF _ es] Inr show ?thesis by simp
    qed
  qed auto
  then show "foldE (try_entry E (length t) position) st es \<noteq> Inl Panic"
    and "foldE (try_entry E (length t) position) st es = Inr st' \<Longrightarrow> tries_ok cs t position st'" by blast+
qed

lemma best_entry_ok:
  assumes "windows_of cs ws" and "window_of t v" and "list_all (entry_ok cs) index"
    and "length cs \<le> MAX_BASES" and "position \<le> length t"
  shows "best_entry E index (length t) position key ws v n \<noteq> Inl Panic"
    and "best_entry E index (length t) position key ws v n = Inr (best, ws', v', n') \<Longrightarrow>
      found_ok cs t position best \<and> windows_of cs ws' \<and> window_of t v'"
proof -
  let ?st = "(replicate MAX_BASES 0, (0, 0, 0), ws, v, n)"
  let ?es = "takeWhile (\<lambda>e. fst e = key) (drop (length (takeWhile (\<lambda>e. fst e < key) index)) index)"
  have st: "tries_ok cs t position ?st" using assms by (simp add: tries_ok_def found_ok_def)
  have es: "list_all (entry_ok cs) ?es"
    using assms(3) by (auto simp: list_all_iff dest!: set_takeWhileD in_set_dropD)
  note ok = try_entries_ok [OF st es assms(4,5), of E]
  show "best_entry E index (length t) position key ws v n \<noteq> Inl Panic"
    using ok(1) by (auto simp: best_entry_def Let_def bindE_Inl)
  show "best_entry E index (length t) position key ws v n = Inr (best, ws', v', n') \<Longrightarrow>
      found_ok cs t position best \<and> windows_of cs ws' \<and> window_of t v'"
    using ok(2) by (auto simp: best_entry_def Let_def bindE_Inr tries_ok_def)
qed

section \<open>The operations denote the target\<close>

lemma take_drop_split:
  "k \<le> n \<Longrightarrow> take k (drop a c) @ take (n - k) (drop (a + k) c) = take n (drop a c)"
  using take_add [of k "n - k" "drop a c"] by (simp add: add.commute)

lemma copy_ops_denote:
  assumes "unat b < length cs" and "offset + len \<le> length (cs ! unat b)" and "length (cs ! unat b) \<le> MAX_FILE_BYTES"
  shows "denote cs (copy_ops b offset len copied) = take (len - copied) (drop (offset + copied) (cs ! unat b))"
  using assms
proof (induction b offset len copied rule: copy_ops.induct)
  case (1 b offset len copied)
  show ?case
  proof (cases "copied < len")
    case False
    then show ?thesis by (subst copy_ops.simps) simp
  next
    case True
    define k where "k = min (len - copied) U32_MAX"
    have k: "unat (of_nat k :: u32) = k" by (rule unat_of_nat_32) (simp add: k_def U32_MAX_def)
    have o: "unat (of_nat (offset + copied) :: u64) = offset + copied"
      using "1.prems" True by (intro unat_of_nat_64) (simp add: MAX_FILE_BYTES_def)
    have "denote cs (copy_ops b offset len copied)
        = take k (drop (offset + copied) (cs ! unat b))
          @ take (len - copied - k) (drop (offset + copied + k) (cs ! unat b))"
      using "1.IH" [OF True k_def "1.prems"] True
      by (subst copy_ops.simps) (simp add: k_def [symmetric] k o [simplified] add.assoc)
    also have "\<dots> = take (len - copied) (drop (offset + copied) (cs ! unat b))"
      by (rule take_drop_split) (simp add: k_def)
    finally show ?thesis .
  qed
qed

lemma denote_flush [simp]: "denote cs (flush_literal literal os) = denote cs os @ literal"
  by (simp add: flush_literal_def)

definition search_ok :: "bytes list \<Rightarrow> bytes \<Rightarrow> nat \<Rightarrow> search_state \<Rightarrow> bool" where
  "search_ok cs t position st \<longleftrightarrow> windows_of cs (ss_sources st) \<and> window_of t (ss_target st)
     \<and> position \<le> length t \<and> denote cs (ss_ops st) @ ss_literal st = take position t"

lemma current_key_ok:
  "window_of t (ss_target st) \<Longrightarrow> current_key E st position n = Inr (key, v, n') \<Longrightarrow> window_of t v"
  using window_at_Inr [of t "ss_target st" E position ANCHOR n]
  by (auto simp: current_key_def bindE_Inr ANCHOR_def BUFFER_def split: option.splits)

lemma literal_step_ok:
  assumes "window_of t v" and "literal_step E extent position key v n = Inr (first, rolling, v', n')"
  shows "window_of t v' \<and> position < length t \<and> first = t ! position"
proof -
  from assms(2) obtain bs v1 n1 where a: "window_at E v position (Suc 0) n = Inr (bs, v1, n1)"
    and first: "first = hd bs"
    and rest: "v' = v1 \<or> (\<exists>bs2 n2. window_at E v1 (position + ANCHOR) (Suc 0) n1 = Inr (bs2, v', n2))"
    by (auto simp: literal_step_def bindE_Inr split: if_splits)
  note W = window_at_one [OF assms(1) a]
  then have bs: "bs = take (length bs) (drop position t)" "bs \<noteq> []" by auto
  have pos: "position < length t" using W by auto
  have "hd bs = hd (drop position t)" using bs by (metis hd_take length_greater_0_conv)
  then have "first = t ! position" using first pos by (simp add: hd_drop_conv_nth)
  moreover have "window_of t v'" using rest W window_at_one [of t v1] by blast
  ultimately show ?thesis using pos by simp
qed

lemma search_step_ok:
  assumes "search_ok cs t position st" and "list_all (entry_ok cs) index"
    and "length cs \<le> MAX_BASES" and "list_all (\<lambda>c. length c \<le> MAX_FILE_BYTES) cs"
  shows "search_step E index (length t) position st n \<noteq> Inl Panic"
    and "search_step E index (length t) position st n = Inr (position', st', n') \<Longrightarrow> search_ok cs t position' st'"
proof -
  have st: "windows_of cs (ss_sources st)" "window_of t (ss_target st)" "position \<le> length t"
    "denote cs (ss_ops st) @ ss_literal st = take position t"
    using assms(1) by (simp_all add: search_ok_def)
  have key: "current_key E st position n1 \<noteq> Inl Panic" for n1
    by (auto simp: current_key_def bindE_Inl split: option.splits)
  have lit: "literal_step E e p k v n1 \<noteq> Inl Panic" for e p k v n1
    by (auto simp: literal_step_def bindE_Inl split: if_splits)
  have best: "best_entry E index (length t) position k (ss_sources st) v n2 \<noteq> Inl Panic"
    if "current_key E st position n1 = Inr (k, v, n2)" for k v n1 n2
    using best_entry_ok(1) [OF st(1) current_key_ok [OF st(2) that] assms(2,3) st(3)] .
  show "search_step E index (length t) position st n \<noteq> Inl Panic"
    using key lit best
    by (auto simp: search_step_def bindE_Inl split: if_splits prod.splits)
  show "search_ok cs t position' st'" if r: "search_step E index (length t) position st n = Inr (position', st', n')"
  proof -
    from r obtain n1 k v n2 b offset len ws v2 n3 where
      key: "current_key E st position n1 = Inr (k, v, n2)"
      and best: "best_entry E index (length t) position k (ss_sources st) v n2 = Inr ((b, offset, len), ws, v2, n3)"
      and res: "if len \<ge> ANCHOR then position' = position + len
           \<and> st' = st\<lparr>ss_sources := ws, ss_target := v2, ss_literal := [], ss_rolling := None,
               ss_ops := flush_literal (ss_literal st) (ss_ops st) @ copy_ops b offset len 0\<rparr>
         else \<exists>first rolling v3. literal_step E (length t) position k v2 n3 = Inr (first, rolling, v3, n')
           \<and> position' = position + 1
           \<and> st' = st\<lparr>ss_sources := ws, ss_target := v3, ss_literal := ss_literal st @ [first],
               ss_literal_total := ss_literal_total st + 1, ss_rolling := rolling\<rparr>"
      by (auto simp: search_step_def bindE_Inr split: if_splits)
    note B = best_entry_ok(2) [OF st(1) current_key_ok [OF st(2) key] assms(2,3) st(3) best]
    show ?thesis
    proof (cases "len \<ge> ANCHOR")
      case True
      with B have b: "unat b < length cs" "slices_agree (cs ! unat b) offset t position len"
        by (auto simp: found_ok_def ANCHOR_def)
      then have "denote cs (copy_ops b offset len 0) = take len (drop position t)"
        using copy_ops_denote [of b cs offset len 0] assms(4) by (auto simp: slices_agree_def list_all_length)
      then have "denote cs (ss_ops st') @ ss_literal st' = take (position + len) t"
        using res True st(4) by (simp add: take_add flip: append_assoc)
      with b B res True show ?thesis by (simp add: search_ok_def slices_agree_def)
    next
      case False
      with res obtain first rolling v3 where
        l: "literal_step E (length t) position k v2 n3 = Inr (first, rolling, v3, n')"
        and st': "position' = position + 1" "st' = st\<lparr>ss_sources := ws, ss_target := v3,
            ss_literal := ss_literal st @ [first], ss_literal_total := ss_literal_total st + 1, ss_rolling := rolling\<rparr>"
        by auto
      from literal_step_ok [OF _ l] B have "window_of t v3" "position < length t" "first = t ! position" by auto
      with st(4) B show ?thesis
        by (simp add: search_ok_def st' take_Suc_conv_app_nth flip: append_assoc)
    qed
  qed
qed

lemma search_loop_ok:
  assumes "search_ok cs t position st" and "list_all (entry_ok cs) index"
    and "length cs \<le> MAX_BASES" and "list_all (\<lambda>c. length c \<le> MAX_FILE_BYTES) cs"
  shows "search_loop E index (length t) position st n \<noteq> Inl Panic
    \<and> (\<forall>position' st' n'. search_loop E index (length t) position st n = Inr (position', st', n')
        \<longrightarrow> search_ok cs t position' st' \<and> length t < position' + ANCHOR)"
  using assms(1,2)
proof (induction E index "length t" position st n rule: search_loop.induct)
  case (1 E index position st n)
  show ?case
  proof (cases "position + ANCHOR \<le> length t")
    case False
    with "1.prems"(1) show ?thesis by (subst (1 2) search_loop.simps) auto
  next
    case True
    note step = search_step_ok [OF "1.prems"(1,2) assms(3,4)]
    show ?thesis
    proof (cases "search_step E index (length t) position st n")
      case (Inl e)
      with step(1) [of E n] True show ?thesis by (subst (1 2) search_loop.simps) auto
    next
      case (Inr y)
      obtain p1 st1 n1 where y: "y = (p1, st1, n1)" by (metis prod_cases3)
      from "1.hyps" [OF True Inr [unfolded y] refl refl step(2) [OF Inr [unfolded y]] "1.prems"(2)] True Inr y show ?thesis
        by (subst (1 2) search_loop.simps) simp
    qed
  qed
qed

section \<open>The index points into the bases\<close>

lemma anchor_loop_ok:
  assumes "position \<le> next_anchor" and "next_anchor mod 4096 = 0"
  shows "\<exists>next' added. anchor_loop volume base_id position block next_anchor index = Inr (next', index @ added)
    \<and> next_anchor \<le> next' \<and> next' mod 4096 = 0 \<and> position + length block < next' + ANCHOR
    \<and> list_all (\<lambda>(_, b, offset). b = of_nat base_id \<and> offset \<le> position + length block) added"
  using assms
proof (induction volume base_id position block next_anchor index rule: anchor_loop.induct)
  case (1 volume base_id position block next_anchor index)
  show ?case
  proof (cases "next_anchor + ANCHOR \<le> position + length block")
    case False
    with "1.prems" show ?thesis by (subst anchor_loop.simps) auto
  next
    case True
    have "\<not> next_anchor < position" using "1.prems" by simp
    moreover have "(next_anchor + anchor_stride volume) mod 4096 = 0"
      using "1.prems"(2) anchor_stride_pos(2) [of volume] by (metis dvd_add mod_0_imp_dvd mod_eq_0_iff_dvd)
    ultimately show ?thesis using "1.IH" [OF True] "1.prems"(1) True
      by (subst anchor_loop.simps) (fastforce simp: ANCHOR_def)
  qed
qed

lemma block_loop_ok:
  assumes "position \<le> next_anchor \<or> sz \<le> position" and "next_anchor mod 4096 = 0"
    and "position mod BUFFER = 0 \<or> sz \<le> position" and "position \<le> sz"
  shows "block_loop E volume base_id sz f position next_anchor index fed n \<noteq> Inl Panic
    \<and> (\<forall>index' fed' f' n'. block_loop E volume base_id sz f position next_anchor index fed n = Inr (index', fed', f', n')
        \<longrightarrow> file_bytes f' = file_bytes f \<and> file_pos f' = file_pos f + (sz - position)
          \<and> fed' = fed @ take (sz - position) (file_rest f) \<and> sz - position \<le> length (file_rest f)
          \<and> (\<exists>added. index' = index @ added \<and> list_all (\<lambda>(_, b, offset). b = of_nat base_id \<and> offset \<le> sz) added))"
  using assms
proof (induction E volume base_id sz f position next_anchor index fed n rule: block_loop.induct)
  case (1 E volume base_id sz f position next_anchor index fed n)
  show ?case
  proof (cases "position < sz")
    case False
    with "1.prems" show ?thesis by (subst (1 2) block_loop.simps) simp
  next
    case True
    define k where "k = min (sz - position) BUFFER"
    show ?thesis
    proof (cases "\<exists>n1 block f1 n2. check E n = Inr n1 \<and> read_exact E ''delta-io'' f k n1 = Inr (block, f1, n2)")
      case False
      then have "\<exists>e. block_loop E volume base_id sz f position next_anchor index fed n = Inl e \<and> e \<noteq> Panic"
        using True by (subst block_loop.simps)
          (cases "check E n"; cases "read_exact E ''delta-io'' f k (projr (check E n))";
            auto simp: k_def [symmetric] dest: sym)
      then show ?thesis by auto
    next
      case read: True
      then obtain n1 block f1 n2 where c: "check E n = Inr n1"
        and r: "read_exact E ''delta-io'' f k n1 = Inr (block, f1, n2)" by blast
      from r have rd: "k \<le> length (file_rest f)" "block = take k (file_rest f)"
        "f1 = f\<lparr>file_pos := file_pos f + k\<rparr>" by (auto simp: read_exact_Inr)
      from anchor_loop_ok [OF _ "1.prems"(2), of position volume base_id block index] obtain next' added where
        a: "anchor_loop volume base_id position block next_anchor index = Inr (next', index @ added)"
        and nxt: "next' mod 4096 = 0" "position + k < next' + ANCHOR" "next_anchor \<le> next'"
        and added: "list_all (\<lambda>(_, b, offset). b = of_nat base_id \<and> offset \<le> position + k) added"
        using rd "1.prems"(1) True by auto
      have unf: "block_loop E volume base_id sz f position next_anchor index fed n
          = block_loop E volume base_id sz f1 (position + k) next' (index @ added) (fed @ block) n2"
        using True by (subst block_loop.simps) (simp add: c k_def [symmetric] r a)
      have le: "position + k \<le> next' \<or> sz \<le> position + k"
      proof (cases "sz - position \<le> BUFFER")
        case False
        with "1.prems"(3) True have "(position + k) mod 4096 = 0"
          by (auto simp: k_def BUFFER_def)
        with nxt(1) obtain a b where ab: "next' = 4096 * a" "position + k = 4096 * b" by (auto elim!: dvdE)
        with nxt(2) have "b \<le> a" by (simp add: ANCHOR_def)
        then show ?thesis by (simp add: ab)
      qed (use True in \<open>simp add: k_def\<close>)
      have m: "(position + k) mod BUFFER = 0 \<or> sz \<le> position + k"
        using "1.prems"(3) True by (auto simp: k_def)
      have "position + k \<le> sz" using True by (simp add: k_def)
      note IH = "1.IH" [OF True c k_def r refl refl a refl le nxt(1) m this]
      have rest: "file_rest f1 = drop k (file_rest f)" by (simp add: rd file_rest_def add.commute)
      have sum: "take k (file_rest f) @ take (sz - (position + k)) (file_rest f1) = take (sz - position) (file_rest f)"
        using take_drop_split [of k "sz - position" 0 "file_rest f"] by (simp add: rest k_def)
      have k: "k \<le> sz - position" by (simp add: k_def)
      show ?thesis unfolding unf
      proof (rule conjI [OF conjunct1 [OF IH]]; intro allI impI)
        fix index' fed' f' n'
        assume "block_loop E volume base_id sz f1 (position + k) next' (index @ added) (fed @ block) n2
          = Inr (index', fed', f', n')"
        from conjunct2 [OF IH, rule_format, OF this] obtain ad where
          I: "file_bytes f' = file_bytes f1" "file_pos f' = file_pos f1 + (sz - (position + k))"
            "fed' = (fed @ block) @ take (sz - (position + k)) (file_rest f1)"
            "sz - (position + k) \<le> length (file_rest f1)"
          and ad: "index' = (index @ added) @ ad" "list_all (\<lambda>(_, b, offset). b = of_nat base_id \<and> offset \<le> sz) ad"
          by blast
        have "list_all (\<lambda>(_, b, offset). b = of_nat base_id \<and> offset \<le> sz) (added @ ad)"
          using added ad(2) k True by (fastforce simp: list_all_iff)
        moreover have "fed' = fed @ take (sz - position) (file_rest f)"
          using I(3) sum by (simp add: rd)
        moreover have "sz - position \<le> length (file_rest f)" using I(4) rest rd(1) k by simp
        moreover have "file_pos f' = file_pos f + (sz - position)" using I(2) rd(3) k by simp
        ultimately show "file_bytes f' = file_bytes f \<and> file_pos f' = file_pos f + (sz - position)
          \<and> fed' = fed @ take (sz - position) (file_rest f) \<and> sz - position \<le> length (file_rest f)
          \<and> (\<exists>added. index' = index @ added \<and> list_all (\<lambda>(_, b, offset). b = of_nat base_id \<and> offset \<le> sz) added)"
          using I(1) ad(1) by (simp add: rd(3))
      qed
    qed
  qed
qed

definition indexed :: "(bytes \<Rightarrow> string) \<Rightarrow> nat \<Rightarrow> opened list \<Rightarrow> base list \<Rightarrow> entry list \<Rightarrow> opened list \<Rightarrow> bool" where
  "indexed H k fs bs added fs' \<longleftrightarrow> all_identified H fs bs \<and> map file_bytes fs' = map file_bytes fs
     \<and> list_all (\<lambda>(_, b, offset). \<exists>i < length fs. b = of_nat (k + i) \<and> offset \<le> length (file_bytes (fs ! i))) added"

lemma index_base_ok:
  "index_base E H volume (index, files, n) (base_id, f, b) \<noteq> Inl Panic"
  "index_base E H volume (index, files, n) (base_id, f, b) = Inr (index', files', n') \<Longrightarrow>
     \<exists>added f'. index' = index @ added \<and> files' = files @ [f'] \<and> file_bytes f' = file_bytes f
       \<and> identifies H b (file_bytes f)
       \<and> list_all (\<lambda>(_, c, offset). c = of_nat base_id \<and> offset \<le> length (file_bytes f)) added"
proof -
  let ?f = "f\<lparr>file_pos := 0\<rparr>" and ?sz = "unat (base_size b)"
  have bl: "block_loop E volume base_id ?sz ?f 0 0 index [] m \<noteq> Inl Panic
    \<and> (\<forall>index' fed' f' n'. block_loop E volume base_id ?sz ?f 0 0 index [] m = Inr (index', fed', f', n')
        \<longrightarrow> file_bytes f' = file_bytes ?f \<and> file_pos f' = file_pos ?f + (?sz - 0)
          \<and> fed' = [] @ take (?sz - 0) (file_rest ?f) \<and> ?sz - 0 \<le> length (file_rest ?f)
          \<and> (\<exists>added. index' = index @ added \<and> list_all (\<lambda>(_, b, offset). b = of_nat base_id \<and> offset \<le> ?sz) added))"
    for m by (rule block_loop_ok) simp_all
  have h: "validate_hash (base_hash b) \<noteq> Inl Panic" by (simp add: validate_hash_def)
  show "index_base E H volume (index, files, n) (base_id, f, b) \<noteq> Inl Panic"
    using bl h by (auto simp: index_base_def bindE_Inl seek_start_Inr split: if_splits)
  assume "index_base E H volume (index, files, n) (base_id, f, b) = Inr (index', files', n')"
  then obtain n1 fed f1 n2 f2 where
    l: "block_loop E volume base_id ?sz ?f 0 0 index [] n1 = Inr (index', fed, f1, n2)"
    and r: "read_some E ''delta-io'' f1 1 n2 = Inr ([], f2, n')"
    and res: "H fed = base_hash b" "files' = files @ [f2]"
    by (auto simp: index_base_def bindE_Inr seek_start_Inr split: if_splits)
  from conjunct2 [OF bl, rule_format, OF l] obtain added where
    L: "file_bytes f1 = file_bytes f" "file_pos f1 = ?sz" "fed = take ?sz (file_bytes f)" "?sz \<le> length (file_bytes f)"
    and added: "index' = index @ added" "list_all (\<lambda>(_, b, offset). b = of_nat base_id \<and> offset \<le> ?sz) added"
    by (auto simp: file_rest_def)
  have "file_rest f1 = []" using read_some_Inr(4) [OF r] by simp
  then have "?sz = length (file_bytes f)" using L by (simp add: file_rest_def)
  with L res have "identifies H b (file_bytes f)" "?sz = length (file_bytes f)" by (simp_all add: identifies_def)
  moreover have "file_bytes f2 = file_bytes f" using read_some_Inr(1) [OF r] L by simp
  ultimately show "\<exists>added f'. index' = index @ added \<and> files' = files @ [f'] \<and> file_bytes f' = file_bytes f
       \<and> identifies H b (file_bytes f)
       \<and> list_all (\<lambda>(_, c, offset). c = of_nat base_id \<and> offset \<le> length (file_bytes f)) added"
    using added res(2) by auto
qed

lemma index_bases_ok:
  "length fs = length bs \<Longrightarrow>
     foldE (index_base E H volume) (index, files, n) (enumerate k (zip fs bs)) \<noteq> Inl Panic
     \<and> (\<forall>index' files' n'. foldE (index_base E H volume) (index, files, n) (enumerate k (zip fs bs)) = Inr (index', files', n')
        \<longrightarrow> (\<exists>added fs'. index' = index @ added \<and> files' = files @ fs' \<and> indexed H k fs bs added fs'))"
proof (induction fs bs arbitrary: index files n k rule: list_induct2)
  case Nil
  then show ?case by (simp add: indexed_def all_identified_def)
next
  case (Cons f fs b bs)
  show ?case
  proof (cases "index_base E H volume (index, files, n) (k, f, b)")
    case (Inl e)
    with index_base_ok(1) [of E H volume index files n k f b] show ?thesis by auto
  next
    case (Inr y)
    obtain index1 files1 n1 where y: "y = (index1, files1, n1)" by (metis prod_cases3)
    from index_base_ok(2) [OF Inr [unfolded y]] obtain ad f1 where
      1: "index1 = index @ ad" "files1 = files @ [f1]" "file_bytes f1 = file_bytes f" "identifies H b (file_bytes f)"
        "list_all (\<lambda>(_, c, offset). c = of_nat k \<and> offset \<le> length (file_bytes f)) ad" by blast
    have first: "list_all (\<lambda>(_, b, offset). \<exists>i < length (f # fs). b = of_nat (k + i)
        \<and> offset \<le> length (file_bytes ((f # fs) ! i))) ad"
      using 1(5) by (auto simp: list_all_iff intro!: exI [of _ 0])
    have more: "indexed H k (f # fs) (b # bs) (ad @ ad2) (f1 # fs2)" if "indexed H (Suc k) fs bs ad2 fs2" for ad2 fs2
    proof -
      have "list_all (\<lambda>(_, b, offset). \<exists>i < length (f # fs). b = of_nat (k + i)
          \<and> offset \<le> length (file_bytes ((f # fs) ! i))) ad2"
        unfolding list_all_iff
      proof clarify
        fix key c offset
        assume "(key, c, offset) \<in> set ad2"
        with that obtain i where "i < length fs" "c = of_nat (Suc k + i)" "offset \<le> length (file_bytes (fs ! i))"
          unfolding indexed_def list_all_iff by blast
        then show "\<exists>i < length (f # fs). c = of_nat (k + i) \<and> offset \<le> length (file_bytes ((f # fs) ! i))"
          by (intro exI [of _ "Suc i"]) simp
      qed
      with first that 1 show ?thesis by (simp add: indexed_def all_identified_def)
    qed
    from Cons.IH [of index1 files1 n1 "Suc k"] show ?thesis
      using more by (auto simp: Inr y 1(1,2))
  qed
qed

section \<open>The whole search\<close>

lemma add_sizes:
  "foldE add_size s bs = Inr s' \<Longrightarrow> unat s' = unat s + sum_list (map (\<lambda>b. unat (base_size b)) bs)"
  by (induction bs arbitrary: s) (auto simp: bindE_Inr add_size_def checked_add_Some)

lemma set_retain_pairs: "set (retain_pairs p k es) \<subseteq> set es"
proof (induction es arbitrary: p k)
  case (Cons e es)
  then have "set (retain_pairs q j es) \<subseteq> insert e (set es)" for q j by blast
  then show ?case by (simp add: Let_def)
qed simp

lemma stream_encode_decode: "stream_encode r = Inr bs \<longleftrightarrow> stream_decode bs = Inr r"
  using profile_iff [where r = r and magic = "as_bytes ''RNSL''" and bs = bs]
  by (auto simp: stream_encode_def stream_decode_def bindE_Inr stream_valid)

lemma stream_encode_no_panic: "stream_encode r \<noteq> Inl Panic"
  using validate_limits_no_panic encode_profile_no_panic
  by (fastforce simp: stream_encode_def stream_validate_def bindE_Inl stream_valid [unfolded stream_validate_def])

lemma started_ok:
  assumes "all_identified H fs0 bs" and "map file_bytes fs = map file_bytes fs0"
    and "file_bytes t = c" and "extent = length c"
  shows "search_ok (map file_bytes fs0) c 0 (started fs bs t extent)"
proof -
  have len: "length fs = length fs0" "length fs0 = length bs"
    using assms(1,2) by (auto simp: all_identified_def dest: map_eq_imp_length_eq list_all2_lengthD)
  have "file_bytes (fs ! i) = file_bytes (fs0 ! i)" if "i < length fs0" for i
    using assms(2) that len by (metis nth_map)
  with assms(1,3,4) len show ?thesis
    by (auto simp: search_ok_def started_def windows_of_def all_identified_def list_all2_conv_all_nth identifies_def)
qed

lemma last_literal_ok:
  assumes "search_ok cs t position st" and "length t < position + ANCHOR"
  shows "last_literal E (length t) position st n \<noteq> Inl Panic"
    and "last_literal E (length t) position st n = Inr (literal, n') \<Longrightarrow> denote cs (ss_ops st) @ literal = t"
proof -
  show "last_literal E (length t) position st n \<noteq> Inl Panic"
    by (auto simp: last_literal_def bindE_Inl)
  assume l: "last_literal E (length t) position st n = Inr (literal, n')"
  have st: "window_of t (ss_target st)" "position \<le> length t" "denote cs (ss_ops st) @ ss_literal st = take position t"
    using assms(1) by (simp_all add: search_ok_def)
  show "denote cs (ss_ops st) @ literal = t"
  proof (cases "position < length t")
    case True
    with l obtain bs w n1 where w: "window_at E (ss_target st) position (length t - position) n = Inr (bs, w, n1)"
      and literal: "literal = ss_literal st @ bs" by (auto simp: last_literal_def bindE_Inr)
    have small: "length t - position \<le> BUFFER" using assms(2) by (simp add: ANCHOR_def BUFFER_def)
    have bs: "bs = take (length bs) (drop position t)" "length t - position \<le> length bs"
      using window_at_Inr [OF st(1) w small] by blast+
    from bs(2) have "take (length bs) (drop position t) = drop position t" by (intro take_all) simp
    with bs(1) have "bs = drop position t" by simp
    then show ?thesis using st(3) by (simp add: literal flip: append_assoc)
  next
    case False
    then show ?thesis using l st by (simp add: last_literal_def)
  qed
qed

definition denotes_target :: "base list \<Rightarrow> base \<Rightarrow> bytes list \<Rightarrow> bytes \<Rightarrow> recipe \<Rightarrow> bool" where
  "denotes_target ids identity cs t r \<longleftrightarrow> bases r = ids \<and> target_hash r = base_hash identity
     \<and> target_size r = base_size identity \<and> denote cs (ops r) = t \<and> (\<exists>bs. stream_encode r = Inr bs)"

lemma search_files_ok:
  assumes "indexed H 0 sources ids entries files"
    and "length sources \<le> MAX_BASES" and "list_all (\<lambda>c. length c \<le> MAX_FILE_BYTES) (map file_bytes sources)"
    and "unat (base_size identity) \<le> MAX_FILE_BYTES"
  shows "search_files E H ids target identity (entries, files, n) \<noteq> Inl Panic"
    and "search_files E H ids target identity (entries, files, n) = Inr (r, n') \<Longrightarrow>
      identifies H identity (file_bytes target)
      \<and> denotes_target ids identity (map file_bytes sources) (file_bytes target) r"
proof -
  let ?cs = "map file_bytes sources" and ?t = "file_bytes target"
  let ?index = "retain_pairs None 0 (sort entries)"
  have sizes: "length ?cs \<le> MAX_BASES" using assms(2) by simp
  have eok: "list_all (entry_ok ?cs) ?index"
  proof -
    have "entry_ok ?cs (key, b, offset)" if "(key, b, offset) \<in> set entries" for key b offset
    proof -
      from assms(1) that obtain i where i: "i < length sources" "b = of_nat i" "offset \<le> length (file_bytes (sources ! i))"
        unfolding indexed_def list_all_iff by fastforce
      moreover have "unat (of_nat i :: u8) = i"
        using i(1) assms(2) by (intro unat_of_nat_8) (simp add: MAX_BASES_def)
      ultimately show ?thesis by (simp add: entry_ok_def)
    qed
    then show ?thesis using set_retain_pairs [of None 0 "sort entries"] by (auto simp: list_all_iff)
  qed
  have run: "search_loop E ?index (unat (base_size identity)) 0 (started files ids t1 (unat (base_size identity))) n2
        \<noteq> Inl Panic
      \<and> (\<forall>position st n3. search_loop E ?index (unat (base_size identity)) 0
            (started files ids t1 (unat (base_size identity))) n2 = Inr (position, st, n3)
          \<longrightarrow> search_ok ?cs ?t position st \<and> length ?t < position + ANCHOR)
      \<and> identifies H identity ?t \<and> unat (base_size identity) = length ?t"
    if v: "verify E H target identity n = Inr (t1, n2)" for t1 n2
  proof -
    from verify_Inr [OF v assms(4)] have t: "file_bytes t1 = ?t" "identifies H identity ?t" by simp_all
    then have len: "unat (base_size identity) = length ?t" by (simp add: identifies_def)
    from assms(1) have "all_identified H sources ids" "map file_bytes files = map file_bytes sources"
      by (simp_all add: indexed_def)
    from started_ok [OF this t(1) refl]
    have "search_ok ?cs ?t 0 (started files ids t1 (length ?t))" .
    from search_loop_ok [OF this eok sizes assms(3), of E n2] t(2) len show ?thesis by simp
  qed
  have ll: "last_literal E (unat (base_size identity)) position st n3 \<noteq> Inl Panic" for position st n3
    by (auto simp: last_literal_def bindE_Inl)
  show "search_files E H ids target identity (entries, files, n) \<noteq> Inl Panic"
    using run ll stream_encode_no_panic by (auto simp: search_files_def bindE_Inl Let_def)
  assume "search_files E H ids target identity (entries, files, n) = Inr (r, n')"
  then obtain t1 n2 position st n3 literal where
    v: "verify E H target identity n = Inr (t1, n2)"
    and loop: "search_loop E ?index (unat (base_size identity)) 0
      (started files ids t1 (unat (base_size identity))) n2 = Inr (position, st, n3)"
    and lit: "last_literal E (unat (base_size identity)) position st n3 = Inr (literal, n')"
    and r: "r = \<lparr>bases = ids, target_hash = base_hash identity, target_size = base_size identity,
              ops = flush_literal literal (ss_ops st)\<rparr>"
    and enc: "\<exists>bs. stream_encode r = Inr bs"
    by (auto simp: search_files_def bindE_Inr Let_def)
  from run [OF v] loop have ok: "search_ok ?cs ?t position st" "length ?t < position + ANCHOR"
    and id: "identifies H identity ?t" "unat (base_size identity) = length ?t" by blast+
  from last_literal_ok(2) [OF ok lit [unfolded id(2)]] id(1) enc
  show "identifies H identity ?t \<and> denotes_target ids identity ?cs ?t r"
    by (simp add: denotes_target_def r)
qed

lemma stream_create_cases:
  "case stream_create E H sources ids target identity n of
      Inl e \<Rightarrow> e \<noteq> Panic
    | Inr (r, n') \<Rightarrow> all_identified H sources ids \<and> identifies H identity (file_bytes target)
        \<and> denotes_target ids identity (map file_bytes sources) (file_bytes target) r"
proof (cases "\<exists>s. foldE add_size 0 ids = Inr s \<and> length sources = length ids \<and> length ids \<le> MAX_BASES
      \<and> unat s \<le> MAX_FILE_BYTES \<and> unat (base_size identity) \<le> MAX_FILE_BYTES")
  case False
  have "foldE add_size 0 ids \<noteq> Inl Panic"
    by (rule foldE_no_panic) (simp add: add_size_def)
  with False show ?thesis
    by (cases "foldE add_size 0 ids") (auto simp: stream_create_def not_le not_less)
next
  case True
  then obtain s where s: "foldE add_size 0 ids = Inr s" and len: "length sources = length ids"
    and lim: "length ids \<le> MAX_BASES" "unat s \<le> MAX_FILE_BYTES" "unat (base_size identity) \<le> MAX_FILE_BYTES"
    by blast
  let ?ix = "foldE (index_base E H (unat s)) ([], [], n) (enumerate 0 (zip sources ids))"
  have create: "stream_create E H sources ids target identity n = bindE ?ix (search_files E H ids target identity)"
    using s len lim by (simp add: stream_create_def not_less)
  note ix = index_bases_ok [OF len, of E H "unat s" "[]" "[]" n 0]
  show ?thesis
  proof (cases ?ix)
    case (Inl e)
    with ix show ?thesis by (auto simp: create)
  next
    case (Inr y)
    obtain entries files n1 where y: "y = (entries, files, n1)" by (metis prod_cases3)
    with ix Inr have ixd: "indexed H 0 sources ids entries files" by auto
    have "length (file_bytes f) \<le> MAX_FILE_BYTES" if "f \<in> set sources" for f
    proof -
      from that obtain i where i: "i < length sources" "f = sources ! i" by (auto simp: in_set_conv_nth)
      then have "length (file_bytes f) = unat (base_size (ids ! i))"
        using ixd by (auto simp: indexed_def all_identified_def list_all2_conv_all_nth identifies_def)
      also have "\<dots> \<le> sum_list (map (\<lambda>b. unat (base_size b)) ids)"
        using i len by (intro sum_member_le) simp
      also have "\<dots> \<le> MAX_FILE_BYTES" using add_sizes [OF s] lim by simp
      finally show ?thesis .
    qed
    then have sizes: "list_all (\<lambda>c. length c \<le> MAX_FILE_BYTES) (map file_bytes sources)"
      by (simp add: list_all_iff)
    note sf = search_files_ok [OF ixd _ sizes lim(3), of E target n1]
    have few: "length sources \<le> MAX_BASES" using len lim by simp
    show ?thesis
    proof (cases "search_files E H ids target identity (entries, files, n1)")
      case (Inl e)
      with sf(1) [OF few] Inr y show ?thesis by (auto simp: create)
    next
      case res: (Inr z)
      obtain r n' where z: "z = (r, n')" by fastforce
      from sf(2) [OF few res [unfolded z]] ixd Inr y res z show ?thesis
        by (simp add: create indexed_def)
    qed
  qed
qed

section \<open>Properties\<close>

text \<open>C30. A recipe the search finds, under any faults, short reads and cancellations, names the given
  bases and target, survives its byte format, and applied to the same files gives back the
  target; a search that fails does not panic.\<close>

theorem stream_create_apply:
  "case stream_create E H sources ids target identity n of
     Inl e \<Rightarrow> e \<noteq> Panic
   | Inr (r, _) \<Rightarrow>
       bases r = ids \<and> target_hash r = base_hash identity \<and> H (file_bytes target) = target_hash r
       \<and> (case stream_encode r of Inl _ \<Rightarrow> False | Inr bs \<Rightarrow> stream_decode bs = Inr r)
       \<and> (case stream_apply (quiet grain) H r sources [] m of
            Inl _ \<Rightarrow> False
          | Inr (out, _) \<Rightarrow> out = file_bytes target)"
proof (cases "stream_create E H sources ids target identity n")
  case (Inl e)
  then show ?thesis using stream_create_cases [where E = E and H = H and sources = sources and ids = ids and target = target and identity = identity and n = n] by simp
next
  case (Inr y)
  obtain r n' where y: "y = (r, n')" by fastforce
  from stream_create_cases [where E = E and H = H and sources = sources and ids = ids and target = target and identity = identity and n = n] obtain bs where
    r: "all_identified H sources (bases r)" "identifies H identity (file_bytes target)"
      "bases r = ids" "target_hash r = base_hash identity"
      "denote (map file_bytes sources) (ops r) = file_bytes target" "stream_encode r = Inr bs"
    by (auto simp: Inr y denotes_target_def)
  have "stream_validate r = Inr ()" using r(6) by (auto simp: stream_encode_def bindE_Inr)
  from stream_apply_quiet [OF quietly_quiet [of grain] this r(1), where out = "[]" and n = m] r
     stream_encode_decode [of r bs]
  show ?thesis by (auto simp: Inr y identifies_def)
qed

text \<open>The file format of a recipe decodes to the recipe it was made from, and every accepted byte
  string is the encoding of the recipe read from it.\<close>

theorem stream_roundtrip: "stream_encode r = Inr bs \<longleftrightarrow> stream_decode bs = Inr r"
  by (rule stream_encode_decode)

end
