(* ===== verification/Payload.thy ===== *)
theory Payload
  imports Head Codec Io
begin

text \<open>
  Content-defined segmentation, \<^verbatim>\<open>crates/sync-wire/src/payload.rs\<close>: a byte stream is cut into
  chunks where a rolling hash of the last 64 bytes says so, the chunks are listed in index objects
  and these in further ones until one root is left, and the stream is restored from the root.
  The caller's \<^verbatim>\<open>save\<close> closure keeps the objects it accepts, in order; it refuses where the
  environment's \<open>env_check\<close> does. The caller's \<^verbatim>\<open>load\<close> is an argument.
\<close>

definition MIN_CHUNK :: nat where "MIN_CHUNK = 256 * 1024"
definition MAX_CHUNK :: nat where "MAX_CHUNK = 4 * 1024 * 1024"
definition MAX_PARTS :: nat where "MAX_PARTS = 1000000"
definition MAX_DEPTH :: nat where "MAX_DEPTH = 8"

record part =
  part_hash :: string
  part_size :: sequence

datatype index = Chunks "part list" | Branches "part list"

record payload =
  content_hash :: string
  byte_length :: sequence
  payload_root :: string

section \<open>Serialization\<close>

definition part_value :: "part \<Rightarrow> json" where
  "part_value p = struct_value [(''hash'', JString (part_hash p)), (''size'', JString (seq_str (part_size p)))]"

definition part_from :: "json \<Rightarrow> part option" where
  "part_from v =
     (case struct_fields [''hash'', ''size''] v of
        Some [h, n] \<Rightarrow>
          (case (as_string h, as_string n) of
             (Some h, Some n) \<Rightarrow>
               (case sequence_try_from n of
                  Inl _ \<Rightarrow> None
                | Inr n \<Rightarrow> Some \<lparr>part_hash = h, part_size = n\<rparr>)
           | _ \<Rightarrow> None)
      | _ \<Rightarrow> None)"

definition index_value :: "index \<Rightarrow> json" where
  "index_value i =
     (case i of
        Chunks ps \<Rightarrow> struct_value [(''kind'', JString ''chunks''), (''parts'', JArray (map part_value ps))]
      | Branches ps \<Rightarrow> struct_value [(''kind'', JString ''branches''), (''parts'', JArray (map part_value ps))])"

definition index_from :: "json \<Rightarrow> index option" where
  "index_from v =
     (case tagged ''kind'' v of
        None \<Rightarrow> None
      | Some (t, rest) \<Rightarrow>
          (case struct_fields [''parts''] rest of
             Some [m] \<Rightarrow>
               if t = ''chunks'' then map_option Chunks (as_list part_from m)
               else if t = ''branches'' then map_option Branches (as_list part_from m)
               else None
           | _ \<Rightarrow> None))"

section \<open>Cutting\<close>

definition checked_size :: "part \<Rightarrow> u64 result" where
  "checked_size p =
     bindE (validate_hash (part_hash p)) (\<lambda>_. ok_or (seq_u64 (part_size p)) (WireError ''payload-too-large''))"

definition save :: "env \<Rightarrow> bytes \<Rightarrow> bytes list \<times> nat \<Rightarrow> (bytes list \<times> nat) result" where
  "save E bytes = (\<lambda>(saved, n). bindE (check E n) (\<lambda>n'. Inr (saved @ [bytes], n')))"

definition part_of :: "ext \<Rightarrow> bytes \<Rightarrow> part" where
  "part_of X bytes = \<lparr>part_hash = sha256 X bytes, part_size = sequence_from (of_nat (length bytes))\<rparr>"

text \<open>The state of the byte loop of \<^verbatim>\<open>build\<close>.\<close>

record cutter =
  cut_chunks :: "part list"
  cut_bytes :: bytes
  cut_rolling :: u64
  cut_window :: bytes
  cut_offset :: nat
  cut_saved :: "bytes list \<times> nat"

definition cut_factor :: u64 where "cut_factor = 257 ^ 63"

definition is_cut :: "nat \<Rightarrow> u64 \<Rightarrow> bool" where
  "is_cut len rolling \<longleftrightarrow> len = MAX_CHUNK \<or> len \<ge> MIN_CHUNK \<and> and rolling 0x1fffff = 0x123456"

definition byte_step :: "ext \<Rightarrow> env \<Rightarrow> cutter \<Rightarrow> u8 \<Rightarrow> cutter result" where
  "byte_step X E st b =
     (let old = cut_window st ! cut_offset st;
          rolling = (cut_rolling st - ucast old * cut_factor) * 257 + ucast b;
          bytes = cut_bytes st @ [b];
          st' = st\<lparr>cut_window := (cut_window st)[cut_offset st := b], cut_offset := (cut_offset st + 1) mod 64,
                  cut_rolling := rolling\<rparr> in
      if is_cut (length bytes) rolling then
        bindE (save E bytes (cut_saved st)) (\<lambda>saved.
        let chunks = cut_chunks st @ [part_of X bytes] in
        if length chunks > MAX_PARTS then Inl (WireError ''payload-too-large'')
        else Inr (st'\<lparr>cut_chunks := chunks, cut_bytes := [], cut_saved := saved\<rparr>))
      else Inr (st'\<lparr>cut_bytes := bytes\<rparr>))"

text \<open>The reading loop: what the digest was fed, the number of bytes and the cutter; the counter of
  the environment is the one the cutter keeps.\<close>

function read_loop :: "ext \<Rightarrow> env \<Rightarrow> opened \<Rightarrow> bytes \<Rightarrow> u64 \<Rightarrow> cutter \<Rightarrow> (bytes \<times> u64 \<times> cutter) result" where
  "read_loop X E f fed total_bytes st =
     bindE (read_some E ''payload-read-failed'' f (64 * 1024) (snd (cut_saved st))) (\<lambda>(bs, f', n).
     if bs = [] then Inr (fed, total_bytes, st\<lparr>cut_saved := (fst (cut_saved st), n)\<rparr>)
     else
       bindE (ok_or (checked_add total_bytes (of_nat (length bs))) (WireError ''payload-too-large'')) (\<lambda>total_bytes'.
       bindE (foldE (byte_step X E) (st\<lparr>cut_saved := (fst (cut_saved st), n)\<rparr>) bs) (\<lambda>st'.
       read_loop X E f' (fed @ bs) total_bytes' st')))"
  by pat_completeness auto
termination
  by (relation "measure (\<lambda>(_, _, f, _). length (file_rest f))") (auto dest!: read_some_Inr(2))

declare read_loop.simps [simp del]

section \<open>The tree of indexes\<close>

definition index_of :: "bool \<Rightarrow> part list \<Rightarrow> index" where
  "index_of branches ps = (if branches then Branches ps else Chunks ps)"

definition size_step :: "u64 \<Rightarrow> part \<Rightarrow> u64 result" where
  "size_step total_bytes p = bindE (checked_size p) (\<lambda>n. ok_or (checked_add total_bytes n) (WireError ''payload-too-large''))"

definition save_index ::
  "ext \<Rightarrow> env \<Rightarrow> part list \<Rightarrow> bool \<Rightarrow> bytes list \<times> nat \<Rightarrow> (part \<times> bytes list \<times> nat) result" where
  "save_index X E ps branches saved =
     bindE (foldE size_step 0 ps) (\<lambda>sz.
     bindE (canonical_encode X (index_value (index_of branches ps))) (\<lambda>bytes.
     bindE (save E bytes saved) (\<lambda>saved'.
     Inr (\<lparr>part_hash = sha256 X bytes, part_size = sequence_from sz\<rparr>, saved'))))"

definition index_boundary :: "string \<Rightarrow> bool" where
  "index_boundary h = (case u8_from_hex (take 2 h) of None \<Rightarrow> False | Some b \<Rightarrow> and b 31 = 0)"

definition group_full :: "part list \<Rightarrow> part \<Rightarrow> bool" where
  "group_full current p \<longleftrightarrow> length current = 64 \<or> length current \<ge> 16 \<and> index_boundary (part_hash p)"

definition level_step ::
  "ext \<Rightarrow> env \<Rightarrow> bool \<Rightarrow> part list \<times> part list \<times> bytes list \<times> nat \<Rightarrow> part
    \<Rightarrow> (part list \<times> part list \<times> bytes list \<times> nat) result" where
  "level_step X E branches = (\<lambda>(next_level, current, saved) p.
     let current' = current @ [p] in
     if group_full current' p then
       bindE (save_index X E current' branches saved) (\<lambda>(q, saved'). Inr (next_level @ [q], [], saved'))
     else Inr (next_level, current', saved))"

definition next_parts ::
  "ext \<Rightarrow> env \<Rightarrow> bool \<Rightarrow> part list \<Rightarrow> bytes list \<times> nat \<Rightarrow> (part list \<times> bytes list \<times> nat) result" where
  "next_parts X E branches parts saved =
     bindE (foldE (level_step X E branches) ([], [], saved) parts) (\<lambda>(next_level, current, saved').
     if current \<noteq> [] then
       bindE (save_index X E current branches saved') (\<lambda>(q, saved''). Inr (next_level @ [q], saved''))
     else Inr (next_level, saved'))"

function tree_loop ::
  "ext \<Rightarrow> env \<Rightarrow> nat \<Rightarrow> bool \<Rightarrow> part list \<Rightarrow> bytes list \<times> nat \<Rightarrow> (part \<times> bytes list \<times> nat) result" where
  "tree_loop X E depth branches parts saved =
     (if depth + 1 > MAX_DEPTH then Inl (WireError ''payload-tree-too-deep'')
      else
        bindE (next_parts X E branches parts saved) (\<lambda>(next_level, saved').
        if length next_level = 1 then Inr (hd next_level, saved')
        else tree_loop X E (depth + 1) True next_level saved'))"
  by pat_completeness auto
termination
  by (relation "measure (\<lambda>(_, _, depth, _). MAX_DEPTH - depth)") auto

declare tree_loop.simps [simp del]

definition last_chunk :: "ext \<Rightarrow> env \<Rightarrow> cutter \<Rightarrow> (part list \<times> bytes list \<times> nat) result" where
  "last_chunk X E st =
     (if cut_bytes st \<noteq> [] \<or> cut_chunks st = [] then
        bindE (save E (cut_bytes st) (cut_saved st)) (\<lambda>saved.
        Inr (cut_chunks st @ [part_of X (cut_bytes st)], saved))
      else Inr (cut_chunks st, cut_saved st))"

definition fresh_cutter :: "nat \<Rightarrow> cutter" where
  "fresh_cutter n = \<lparr>cut_chunks = [], cut_bytes = [], cut_rolling = 0, cut_window = replicate 64 0,
     cut_offset = 0, cut_saved = ([], n)\<rparr>"

definition payload_build :: "ext \<Rightarrow> env \<Rightarrow> opened \<Rightarrow> nat \<Rightarrow> (payload \<times> bytes list \<times> nat) result" where
  "payload_build X E reader n =
     bindE (read_loop X E reader [] 0 (fresh_cutter n)) (\<lambda>(fed, total_bytes, st).
     bindE (last_chunk X E st) (\<lambda>(chunks, saved).
     bindE (tree_loop X E 0 False chunks saved) (\<lambda>(root, saved').
     Inr (\<lparr>content_hash = sha256 X fed, byte_length = sequence_from total_bytes, payload_root = part_hash root\<rparr>, saved'))))"

section \<open>Restoring\<close>

type_synonym pending = "string \<times> u64 \<times> nat \<times> bool"

definition read_index :: "ext \<Rightarrow> bytes \<Rightarrow> u64 \<Rightarrow> nat \<Rightarrow> pending list result" where
  "read_index X bytes sz depth =
     bindE (canonical_decode X index_from bytes (64 * 1024)) (\<lambda>index.
     let (parts, raw) = (case index of Chunks parts \<Rightarrow> (parts, True) | Branches parts \<Rightarrow> (parts, False)) in
     if parts = [] \<or> length parts > 64 then Inl (WireError ''invalid-payload-index'')
     else
       bindE (foldE size_step 0 parts) (\<lambda>total_bytes.
       if total_bytes \<noteq> sz then Inl (WireError ''target-size-mismatch'')
       else mapE (\<lambda>p. bindE (checked_size p) (\<lambda>n. Inr (part_hash p, n, depth + 1, raw))) parts))"

definition add_written :: "u64 \<Rightarrow> u64 \<Rightarrow> u64 \<Rightarrow> u64 result" where
  "add_written expected written sz =
     ok_or (case checked_add written sz of None \<Rightarrow> None | Some v \<Rightarrow> if v \<le> expected then Some v else None)
       (WireError ''target-size-mismatch'')"

function restore_loop ::
  "ext \<Rightarrow> env \<Rightarrow> (string \<Rightarrow> bytes result) \<Rightarrow> u64 \<Rightarrow> pending list \<Rightarrow> nat \<Rightarrow> u64 \<Rightarrow> bytes \<Rightarrow> bytes \<Rightarrow> nat
    \<Rightarrow> (u64 \<times> bytes \<times> bytes \<times> nat) result" where
  "restore_loop X E load expected [] seen written out fed n = Inr (written, out, fed, n)"
| "restore_loop X E load expected ((digest, sz, depth, raw) # pending) seen written out fed n =
     (if seen + 1 > MAX_PARTS + MAX_PARTS div 15 \<or> depth > MAX_DEPTH
      then Inl (WireError ''payload-tree-too-deep'')
      else
        bindE (load digest) (\<lambda>bytes.
        if sha256 X bytes \<noteq> digest then Inl (WireError ''hash-mismatch'')
        else if raw then
          if length bytes > MAX_CHUNK \<or> of_nat (length bytes) \<noteq> sz
          then Inl (WireError ''target-size-mismatch'')
          else
            bindE (add_written expected written sz) (\<lambda>written'.
            bindE (write_all E ''payload-write-failed'' out bytes n) (\<lambda>(out', n').
            restore_loop X E load expected pending (seen + 1) written' out' (fed @ bytes) n'))
        else
          bindE (read_index X bytes sz depth) (\<lambda>parts.
          restore_loop X E load expected (parts @ pending) (seen + 1) written out fed n)))"
  by pat_completeness auto
termination
  by (relation "measure (\<lambda>(X, E, load, expected, pending, seen, _). Suc (MAX_PARTS + MAX_PARTS div 15) - seen)")
    auto

declare restore_loop.simps(2) [simp del]

definition payload_restore ::
  "ext \<Rightarrow> env \<Rightarrow> payload \<Rightarrow> (string \<Rightarrow> bytes result) \<Rightarrow> bytes \<Rightarrow> nat \<Rightarrow> (bytes \<times> nat) result" where
  "payload_restore X E p load out n =
     bindE (validate_hash (payload_root p)) (\<lambda>_.
     bindE (validate_hash (content_hash p)) (\<lambda>_.
     bindE (ok_or (seq_u64 (byte_length p)) (WireError ''payload-too-large'')) (\<lambda>expected.
     bindE (restore_loop X E load expected [(payload_root p, expected, 0, False)] 0 0 out [] n)
       (\<lambda>(written, out', fed, n').
     if written \<noteq> expected \<or> sha256 X fed \<noteq> content_hash p then Inl (WireError ''target-hash-mismatch'')
     else Inr (out', n')))))"

section \<open>Where the stream is cut\<close>

text \<open>The reference definition: a cut depends on the length of the chunk and on the last 64 bytes.\<close>

definition window_hash :: "bytes \<Rightarrow> u64" where
  "window_hash bs = foldl (\<lambda>h b. h * 257 + ucast b) 0 bs"

definition last64 :: "bytes \<Rightarrow> bytes" where
  "last64 past = drop (length past) (replicate 64 0 @ past)"

fun plain_cuts :: "bytes \<Rightarrow> bytes \<Rightarrow> bytes \<Rightarrow> bytes list \<times> bytes" where
  "plain_cuts past chunk [] = ([], chunk)"
| "plain_cuts past chunk (b # bs) =
     (let past' = past @ [b]; chunk' = chunk @ [b] in
      if is_cut (length chunk') (window_hash (last64 past')) then
        (case plain_cuts past' [] bs of (cs, rest) \<Rightarrow> (chunk' # cs, rest))
      else plain_cuts past' chunk' bs)"

definition chunk_list :: "bytes \<Rightarrow> bytes list" where
  "chunk_list content =
     (case plain_cuts [] [] content of (cs, rest) \<Rightarrow> if rest \<noteq> [] \<or> cs = [] then cs @ [rest] else cs)"

lemma window_hash_from:
  "foldl (\<lambda>h b. h * 257 + ucast b) (h :: u64) bs = h * 257 ^ length bs + window_hash bs"
proof (induction bs arbitrary: h)
  case Nil
  then show ?case by (simp add: window_hash_def)
next
  case (Cons b bs)
  have "window_hash (b # bs) = ucast b * 257 ^ length bs + window_hash bs"
    using Cons [of "ucast b"] by (simp add: window_hash_def)
  then show ?case using Cons [of "h * 257 + ucast b"] by (simp add: algebra_simps)
qed

lemma window_hash_Cons: "window_hash (b # bs) = ucast b * 257 ^ length bs + window_hash bs"
  using window_hash_from [of "ucast b" bs] by (simp add: window_hash_def)

lemma window_hash_roll:
  "length bs = 63 \<Longrightarrow> window_hash (bs @ [b]) = (window_hash (old # bs) - ucast old * cut_factor) * 257 + ucast b"
  by (simp add: window_hash_Cons cut_factor_def) (simp add: window_hash_def)

lemma length_last64 [simp]: "length (last64 past) = 64"
  by (simp add: last64_def)

lemma last64_snoc: "last64 (past @ [b]) = tl (last64 past) @ [b]"
proof -
  have "tl (drop (length past) (replicate 64 0 @ past)) = drop (Suc (length past)) (replicate 64 0 @ past)"
    by (simp only: tl_drop [symmetric] drop_Suc)
  moreover have "drop (Suc (length past)) ((replicate 64 0 @ past) @ [b])
      = drop (Suc (length past)) (replicate 64 0 @ past) @ [b]"
    by (subst drop_append) simp
  ultimately show ?thesis by (simp add: last64_def del: drop_append)
qed

text \<open>The ring of the source holds the last 64 bytes, the oldest one at the offset.\<close>

definition cutter_ok :: "bytes \<Rightarrow> cutter \<Rightarrow> bool" where
  "cutter_ok past st \<longleftrightarrow> length (cut_window st) = 64 \<and> cut_offset st < 64
     \<and> drop (cut_offset st) (cut_window st) @ take (cut_offset st) (cut_window st) = last64 past
     \<and> cut_rolling st = window_hash (last64 past)"

lemma cutter_fresh: "cutter_ok [] (fresh_cutter n)"
proof -
  have "window_hash (replicate k 0) = 0" for k
    by (induction k) (simp add: window_hash_def, simp add: window_hash_Cons)
  then show ?thesis by (simp add: cutter_ok_def fresh_cutter_def last64_def)
qed

lemma ring_step:
  assumes "length w = 64" and "k < 64"
  shows "let w' = w[k := b]; k' = (k + 1) mod 64 in
    drop k' w' @ take k' w' = tl (drop k w @ take k w) @ [b]"
proof -
  have w: "w = take k w @ w ! k # drop (Suc k) w" using assms by (simp add: id_take_nth_drop)
  have t: "tl (drop k w @ take k w) = drop (Suc k) w @ take k w"
    using assms by (simp add: Cons_nth_drop_Suc [symmetric])
  show ?thesis
  proof (cases "k = 63")
    case True
    with assms have "w[k := b] = take 63 w @ [b]" by (simp add: list_update_append upd_conv_take_nth_drop)
    moreover have "drop (Suc 63) w = []" using assms(1) by simp
    ultimately show ?thesis using True assms(1) unfolding t by simp
  next
    case False
    with assms(2) have k: "Suc k mod 64 = Suc k" by simp
    have u: "w[k := b] = take k w @ b # drop (Suc k) w" using assms by (simp add: upd_conv_take_nth_drop)
    show ?thesis using assms by (simp add: Let_def k t u)
  qed
qed

lemma byte_step_Inr:
  assumes "byte_step X E st b = Inr st'" and "cutter_ok past st"
  shows "cutter_ok (past @ [b]) st'
    \<and> (case plain_cuts past (cut_bytes st) [b] of (cs, rest) \<Rightarrow>
         cut_bytes st' = rest \<and> cut_chunks st' = cut_chunks st @ map (part_of X) cs
         \<and> fst (cut_saved st') = fst (cut_saved st) @ cs)"
proof -
  let ?k = "cut_offset st" and ?w = "cut_window st"
  have ok: "length ?w = 64" "?k < 64" "drop ?k ?w @ take ?k ?w = last64 past"
    "cut_rolling st = window_hash (last64 past)"
    using assms(2) by (simp_all add: cutter_ok_def)
  define old where "old = ?w ! ?k"
  have last: "last64 past = old # tl (last64 past)"
    unfolding old_def ok(3) [symmetric] using ok(1,2) by (simp add: Cons_nth_drop_Suc [symmetric])
  have roll: "(cut_rolling st - ucast old * cut_factor) * 257 + ucast b = window_hash (last64 (past @ [b]))"
    unfolding last64_snoc ok(4)
    using window_hash_roll [of "tl (last64 past)" b old] last by simp
  have ring: "drop ((?k + 1) mod 64) (?w[?k := b]) @ take ((?k + 1) mod 64) (?w[?k := b]) = last64 (past @ [b])"
    using ring_step [OF ok(1,2), of b] by (simp add: Let_def ok(3) last64_snoc)
  show ?thesis
  proof (cases "is_cut (Suc (length (cut_bytes st))) (window_hash (last64 (past @ [b])))")
    case True
    with assms(1) ok ring roll show ?thesis
      by (auto simp: byte_step_def Let_def old_def cutter_ok_def save_def bindE_Inr split: if_splits prod.splits)
  next
    case False
    with assms(1) ok ring roll show ?thesis
      by (auto simp: byte_step_def Let_def old_def cutter_ok_def split: if_splits)
  qed
qed

lemma plain_cuts_append:
  "plain_cuts past chunk (xs @ ys) =
     (case plain_cuts past chunk xs of (cs, rest) \<Rightarrow>
        (case plain_cuts (past @ xs) rest ys of (ds, rest') \<Rightarrow> (cs @ ds, rest')))"
  by (induction past chunk xs rule: plain_cuts.induct) (auto simp: Let_def split: prod.split)

lemma bytes_Inr:
  assumes "foldE (byte_step X E) st bs = Inr st'" and "cutter_ok past st"
  shows "cutter_ok (past @ bs) st'
    \<and> (case plain_cuts past (cut_bytes st) bs of (cs, rest) \<Rightarrow>
         cut_bytes st' = rest \<and> cut_chunks st' = cut_chunks st @ map (part_of X) cs
         \<and> fst (cut_saved st') = fst (cut_saved st) @ cs)"
  using assms
proof (induction bs arbitrary: st past)
  case (Cons b bs)
  then obtain st1 where s: "byte_step X E st b = Inr st1" and rest: "foldE (byte_step X E) st1 bs = Inr st'"
    by (auto simp: bindE_Inr)
  note B = byte_step_Inr [OF s Cons.prems(2)]
  from Cons.IH [OF rest conjunct1 [OF B]] B show ?case
    using plain_cuts_append [of past "cut_bytes st" "[b]" bs] by (auto split: prod.splits)
qed simp

lemma read_loop_Inr:
  assumes "read_loop X E f fed total_bytes st = Inr (fed', total', st')" and "cutter_ok past st"
  shows "fed' = fed @ file_rest f \<and> unat total' = unat total_bytes + length (file_rest f)
    \<and> (case plain_cuts past (cut_bytes st) (file_rest f) of (cs, rest) \<Rightarrow>
         cut_bytes st' = rest \<and> cut_chunks st' = cut_chunks st @ map (part_of X) cs
         \<and> fst (cut_saved st') = fst (cut_saved st) @ cs)"
  using assms
proof (induction X E f fed total_bytes st arbitrary: past rule: read_loop.induct)
  case (1 X E f fed total_bytes st)
  from "1.prems"(1) obtain bs f1 n where
    r: "read_some E ''payload-read-failed'' f (64 * 1024) (snd (cut_saved st)) = Inr (bs, f1, n)"
    by (subst (asm) read_loop.simps) (auto simp: bindE_Inr)
  note rd = read_some_Inr [OF r]
  show ?case
  proof (cases "bs = []")
    case True
    with "1.prems" r rd show ?thesis by (subst (asm) read_loop.simps) auto
  next
    case False
    have "length bs < 18446744073709551616" using rd(3) by simp
    then have len: "unat (of_nat (length bs) :: u64) = length bs" by (rule unat_of_nat_64)
    from "1.prems"(1) r False obtain total1 st1 where
      a: "ok_or (checked_add total_bytes (of_nat (length bs))) (WireError ''payload-too-large'') = Inr total1"
      and b: "foldE (byte_step X E) (st\<lparr>cut_saved := (fst (cut_saved st), n)\<rparr>) bs = Inr st1"
      and rec: "read_loop X E f1 (fed @ bs) total1 st1 = Inr (fed', total', st')"
      by (subst (asm) read_loop.simps) (auto simp: bindE_Inr)
    have "cutter_ok past (st\<lparr>cut_saved := (fst (cut_saved st), n)\<rparr>)"
      using "1.prems"(2) by (simp add: cutter_ok_def)
    note B = bytes_Inr [OF b this]
    from a len have t: "unat total1 = unat total_bytes + length bs" by (simp add: checked_add_Some)
    from "1.IH" [OF r refl refl False a b rec conjunct1 [OF B]] B t
    show ?thesis using plain_cuts_append [of past "cut_bytes st" bs "file_rest f1"]
      by (auto simp: rd(2) split: prod.splits)
  qed
qed

lemma plain_cuts_props:
  "plain_cuts past chunk bs = (cs, rest) \<Longrightarrow> length chunk < MAX_CHUNK \<Longrightarrow>
     concat cs @ rest = chunk @ bs \<and> length rest < MAX_CHUNK
     \<and> list_all (\<lambda>c. MIN_CHUNK \<le> length c \<and> length c \<le> MAX_CHUNK) cs"
proof (induction past chunk bs arbitrary: cs rest rule: plain_cuts.induct)
  case (2 past chunk b bs)
  show ?case
  proof (cases "is_cut (length (chunk @ [b])) (window_hash (last64 (past @ [b])))")
    case True
    with "2.prems"(1) obtain ds where d: "plain_cuts (past @ [b]) [] bs = (ds, rest)" "cs = (chunk @ [b]) # ds"
      by (auto split: prod.splits)
    have "MIN_CHUNK \<le> length (chunk @ [b])" using True by (auto simp: is_cut_def MIN_CHUNK_def MAX_CHUNK_def)
    moreover have "length (chunk @ [b]) \<le> MAX_CHUNK" using "2.prems"(2) by simp
    moreover have "concat ds @ rest = [] @ bs \<and> length rest < MAX_CHUNK
        \<and> list_all (\<lambda>c. MIN_CHUNK \<le> length c \<and> length c \<le> MAX_CHUNK) ds"
      by (rule "2.IH"(1) [OF refl refl True d(1)]) (simp add: MAX_CHUNK_def)
    ultimately show ?thesis using d(2) by simp
  next
    case False
    then have "length (chunk @ [b]) \<noteq> MAX_CHUNK" by (auto simp: is_cut_def)
    with "2.prems"(2) have "length (chunk @ [b]) < MAX_CHUNK" by simp
    from "2.IH"(2) [OF refl refl False _ this] "2.prems"(1) False show ?thesis by simp
  qed
qed simp

lemma chunk_list_props:
  shows "concat (chunk_list content) = content" and "chunk_list content \<noteq> []"
    and "list_all (\<lambda>c. length c \<le> MAX_CHUNK) (chunk_list content)"
    and "list_all (\<lambda>c. MIN_CHUNK \<le> length c) (butlast (chunk_list content))"
proof -
  obtain cs rest where c: "plain_cuts [] [] content = (cs, rest)" by fastforce
  from plain_cuts_props [OF c] have p: "concat cs @ rest = content" "length rest < MAX_CHUNK"
    "list_all (\<lambda>c. MIN_CHUNK \<le> length c \<and> length c \<le> MAX_CHUNK) cs"
    by (simp_all add: MAX_CHUNK_def)
  then show "concat (chunk_list content) = content" "chunk_list content \<noteq> []"
    "list_all (\<lambda>c. length c \<le> MAX_CHUNK) (chunk_list content)"
    "list_all (\<lambda>c. MIN_CHUNK \<le> length c) (butlast (chunk_list content))"
    by (auto simp: chunk_list_def c list_all_iff butlast_append dest: in_set_butlastD)
qed

lemma chunk_count: "(length (chunk_list content) - 1) * MIN_CHUNK \<le> length content"
proof -
  have "length (butlast cs) * MIN_CHUNK \<le> length (concat cs)"
    if "list_all (\<lambda>c. MIN_CHUNK \<le> length c) (butlast cs)" for cs :: "bytes list"
    using that
  proof (induction cs)
    case (Cons a cs)
    then show ?case by (cases cs) auto
  qed simp
  from this [OF chunk_list_props(4)] show ?thesis by (simp add: chunk_list_props(1))
qed

lemma built_chunks:
  assumes "read_loop X E f [] 0 (fresh_cutter n) = Inr (fed, total_bytes, st)"
    and "last_chunk X E st = Inr (parts, saved, n')"
  shows "fed = file_rest f \<and> unat total_bytes = length (file_rest f)
    \<and> saved = chunk_list (file_rest f) \<and> parts = map (part_of X) (chunk_list (file_rest f))"
proof -
  have fresh: "cut_bytes (fresh_cutter n) = []" "cut_chunks (fresh_cutter n) = []" "fst (cut_saved (fresh_cutter n)) = []"
    by (simp_all add: fresh_cutter_def)
  from read_loop_Inr [OF assms(1) cutter_fresh] assms(2) show ?thesis
    by (auto simp: last_chunk_def chunk_list_def fresh save_def bindE_Inr split: prod.splits if_splits)
qed

section \<open>The tree, without its loops\<close>

definition index_text :: "ext \<Rightarrow> index \<Rightarrow> bytes" where
  "index_text X i = json_text X (canon (index_value i))"

definition parts_size :: "part list \<Rightarrow> nat" where
  "parts_size ps = sum_list (map (\<lambda>p. read_nat (seq_str (part_size p))) ps)"

definition index_part :: "ext \<Rightarrow> bool \<Rightarrow> part list \<Rightarrow> part" where
  "index_part X branches ps = \<lparr>part_hash = sha256 X (index_text X (index_of branches ps)),
     part_size = sequence_from (of_nat (parts_size ps))\<rparr>"

fun groups :: "part list \<Rightarrow> part list \<Rightarrow> part list list" where
  "groups current [] = (if current \<noteq> [] then [current] else [])"
| "groups current (p # ps) =
     (if group_full (current @ [p]) p then (current @ [p]) # groups [] ps else groups (current @ [p]) ps)"

text \<open>All indexes above a list of parts.\<close>

function tree_indexes :: "ext \<Rightarrow> nat \<Rightarrow> bool \<Rightarrow> part list \<Rightarrow> index list" where
  "tree_indexes X depth branches parts =
     (if depth + 1 > MAX_DEPTH then []
      else map (index_of branches) (groups [] parts)
        @ (if length (groups [] parts) = 1 then []
           else tree_indexes X (depth + 1) True (map (index_part X branches) (groups [] parts))))"
  by pat_completeness auto
termination
  by (relation "measure (\<lambda>(_, depth, _, _). MAX_DEPTH - depth)") auto

declare tree_indexes.simps [simp del]

lemma index_value_free: "number_free (index_value i)" "wf_value (index_value i)"
proof -
  have p: "number_free (part_value p)" "wf_value (part_value p)" for p
    by (simp_all add: part_value_def struct_value_free struct_value_wf)
  show "number_free (index_value i)" "wf_value (index_value i)"
    by (auto simp: index_value_def p list_all_iff intro!: struct_value_free struct_value_wf split: index.split)
qed

lemma encode_index: "canonical_encode X (index_value i) = Inr (index_text X i)"
  by (simp add: canonical_encode_def canonical_write_spec index_value_free index_text_def)

lemma seq_u64_Some: "seq_u64 s = Some n \<longleftrightarrow> unat n = read_nat (seq_str s)"
proof
  assume "seq_u64 s = Some n"
  then show "unat n = read_nat (seq_str s)"
    by (auto simp: seq_u64_def unat_of_nat_64 split: if_splits)
next
  assume *: "unat n = read_nat (seq_str s)"
  then have "read_nat (seq_str s) < 2 ^ 64" using unat_less_64 [of n] by simp
  then show "seq_u64 s = Some n" by (simp add: seq_u64_def * [symmetric])
qed

lemma size_steps:
  "foldE size_step n ps = Inr n' \<longleftrightarrow>
     list_all (\<lambda>p. hash_ok (part_hash p)) ps \<and> unat n' = unat n + parts_size ps"
proof (induction ps arbitrary: n)
  case Nil
  then show ?case by (auto simp: parts_size_def word_unat_eq_iff)
next
  case (Cons p ps)
  have step: "size_step n p = Inr m \<longleftrightarrow> hash_ok (part_hash p) \<and> unat m = unat n + read_nat (seq_str (part_size p))" for m
  proof -
    have "size_step n p = Inr m \<longleftrightarrow> hash_ok (part_hash p)
        \<and> (\<exists>k. seq_u64 (part_size p) = Some k \<and> unat m = unat n + unat k)"
      by (auto simp: size_step_def checked_size_def bindE_Inr checked_add_Some simp del: validate_hash_Inr)
    moreover have "(\<exists>k :: u64. unat k = q \<and> unat m = unat n + unat k) \<longleftrightarrow> unat m = unat n + q" for q
      using u64_exists [of q] unat_less_64 [of m] by auto
    ultimately show ?thesis by (simp add: seq_u64_Some)
  qed
  show ?case
  proof (cases "unat n + read_nat (seq_str (part_size p)) < 18446744073709551616")
    case True
    then obtain m :: u64 where m: "unat m = unat n + read_nat (seq_str (part_size p))" using u64_exists by blast
    then have "size_step n p = Inr k \<longleftrightarrow> hash_ok (part_hash p) \<and> k = m" for k
      by (auto simp: step word_unat_eq_iff)
    then show ?thesis using m by (auto simp: bindE_Inr Cons parts_size_def)
  next
    case False
    then show ?thesis using unat_less_64 [of n'] by (auto simp: bindE_Inr step parts_size_def)
       (metis unat_less_64)
  qed
qed

lemma save_index_Inr:
  assumes "save_index X E ps branches (saved, n) = Inr (q, saved', n')"
  shows "q = index_part X branches ps \<and> saved' = saved @ [index_text X (index_of branches ps)]
    \<and> list_all (\<lambda>p. hash_ok (part_hash p)) ps \<and> parts_size ps < 2 ^ 64"
proof -
  from assms obtain m where m: "foldE size_step 0 ps = Inr m"
    and q: "q = \<lparr>part_hash = sha256 X (index_text X (index_of branches ps)), part_size = sequence_from m\<rparr>"
    and sv: "saved' = saved @ [index_text X (index_of branches ps)]"
    by (auto simp: save_index_def bindE_Inr encode_index save_def)
  from m have sz: "list_all (\<lambda>p. hash_ok (part_hash p)) ps" "unat m = parts_size ps"
    by (auto simp: size_steps)
  then have "m = of_nat (parts_size ps)" by (simp add: sz(2) [symmetric])
  with q sv sz unat_less_64 [of m] show ?thesis by (simp add: index_part_def)
qed

lemma level_steps:
  "foldE (level_step X E branches) (next_level, current, saved, n) ps = Inr (next', current', saved', n') \<Longrightarrow>
     \<exists>gs. groups current ps = gs @ (if current' \<noteq> [] then [current'] else [])
       \<and> next' = next_level @ map (index_part X branches) gs
       \<and> saved' = saved @ map (index_text X \<circ> index_of branches) gs
       \<and> list_all (\<lambda>g. list_all (\<lambda>p. hash_ok (part_hash p)) g \<and> parts_size g < 2 ^ 64) gs"
proof (induction ps arbitrary: next_level current saved n)
  case (Cons p ps)
  show ?case
  proof (cases "group_full (current @ [p]) p")
    case True
    with Cons.prems obtain q saved1 n1 where
      s: "save_index X E (current @ [p]) branches (saved, n) = Inr (q, saved1, n1)"
      and rest: "foldE (level_step X E branches) (next_level @ [q], [], saved1, n1) ps = Inr (next', current', saved', n')"
      by (auto simp: level_step_def bindE_Inr)
    from Cons.IH [OF rest] save_index_Inr [OF s] True show ?thesis
      by (auto intro!: exI [of _ "(current @ [p]) # _"])
  next
    case False
    with Cons.prems have "foldE (level_step X E branches) (next_level, current @ [p], saved, n) ps
        = Inr (next', current', saved', n')"
      by (simp add: level_step_def)
    from Cons.IH [OF this] False show ?thesis by simp
  qed
qed auto

lemma next_parts_Inr:
  assumes "next_parts X E branches ps (saved, n) = Inr (next', saved', n')"
  shows "next' = map (index_part X branches) (groups [] ps)
    \<and> saved' = saved @ map (index_text X \<circ> index_of branches) (groups [] ps)
    \<and> list_all (\<lambda>g. list_all (\<lambda>p. hash_ok (part_hash p)) g \<and> parts_size g < 2 ^ 64) (groups [] ps)"
proof -
  from assms obtain nl cur sv m where
    l: "foldE (level_step X E branches) ([], [], saved, n) ps = Inr (nl, cur, sv, m)"
    and r: "if cur \<noteq> [] then \<exists>q. save_index X E cur branches (sv, m) = Inr (q, saved', n') \<and> next' = nl @ [q]
      else next' = nl \<and> saved' = sv"
    by (auto simp: next_parts_def bindE_Inr split: if_splits)
  from level_steps [OF l] r show ?thesis
    by (auto split: if_splits dest!: save_index_Inr)
qed

lemma groups_props:
  assumes "length current < 64"
  shows "concat (groups current ps) = current @ ps"
    and "list_all (\<lambda>g. g \<noteq> [] \<and> length g \<le> 64) (groups current ps)"
    and "list_all (\<lambda>g. 16 \<le> length g) (butlast (groups current ps))"
proof -
  have "concat (groups current ps) = current @ ps
    \<and> list_all (\<lambda>g. g \<noteq> [] \<and> length g \<le> 64) (groups current ps)
    \<and> list_all (\<lambda>g. 16 \<le> length g) (butlast (groups current ps))"
    using assms
  proof (induction current ps rule: groups.induct)
    case (2 current p ps)
    show ?case
    proof (cases "group_full (current @ [p]) p")
      case True
      then have "16 \<le> length (current @ [p])" by (auto simp: group_full_def)
      moreover have "length (current @ [p]) \<le> 64" using "2.prems" by simp
      ultimately show ?thesis using "2.IH"(1) [OF True] True by simp
    next
      case False
      then have "length (current @ [p]) \<noteq> 64" by (auto simp: group_full_def)
      with "2.prems" have "length (current @ [p]) < 64" by simp
      with "2.IH"(2) [OF False] False show ?thesis by simp
    qed
  qed simp
  then show "concat (groups current ps) = current @ ps"
    and "list_all (\<lambda>g. g \<noteq> [] \<and> length g \<le> 64) (groups current ps)"
    and "list_all (\<lambda>g. 16 \<le> length g) (butlast (groups current ps))" by blast+
qed

lemma group_count: "(length (groups [] ps) - 1) * 16 \<le> length ps"
proof -
  have "length (butlast gs) * 16 \<le> length (concat gs)"
    if "list_all (\<lambda>g. 16 \<le> length g) (butlast gs)" for gs :: "part list list"
    using that
  proof (induction gs)
    case (Cons a gs)
    then show ?case by (cases gs) auto
  qed simp
  from this [OF groups_props(3) [of "[]" ps]] show ?thesis by (simp add: groups_props(1))
qed

section \<open>What a part stands for\<close>

definition readable :: "ext \<Rightarrow> index \<Rightarrow> bool" where
  "readable X i \<longleftrightarrow> canonical_decode X index_from (index_text X i) (64 * 1024) = Inr i"

type_synonym loader = "string \<Rightarrow> bytes result"

definition loads :: "ext \<Rightarrow> loader \<Rightarrow> bytes \<Rightarrow> bool" where
  "loads X load bytes \<longleftrightarrow> load (sha256 X bytes) = Inr bytes"

text \<open>\<open>denotes X load h p k bytes\<close>: the part \<open>p\<close> is a tree of height \<open>h\<close> with \<open>k\<close> nodes over \<open>bytes\<close>.\<close>

inductive denotes :: "ext \<Rightarrow> loader \<Rightarrow> nat \<Rightarrow> part \<Rightarrow> nat \<Rightarrow> bytes \<Rightarrow> bool"
  and denote_all :: "ext \<Rightarrow> loader \<Rightarrow> nat \<Rightarrow> part list \<Rightarrow> nat \<Rightarrow> bytes \<Rightarrow> bool"
  for X :: ext and load :: loader where
  chunk: "loads X load bytes \<Longrightarrow> length bytes \<le> MAX_CHUNK \<Longrightarrow> hash_ok (sha256 X bytes) \<Longrightarrow>
    denotes X load 0 (part_of X bytes) 1 bytes"
| index: "denote_all X load h ps k bytes \<Longrightarrow> ps \<noteq> [] \<Longrightarrow> length ps \<le> 64 \<Longrightarrow> length bytes < 2 ^ 64 \<Longrightarrow>
    loads X load (index_text X (index_of (h \<noteq> 0) ps)) \<Longrightarrow> readable X (index_of (h \<noteq> 0) ps) \<Longrightarrow>
    hash_ok (part_hash (index_part X (h \<noteq> 0) ps)) \<Longrightarrow>
    denotes X load (Suc h) (index_part X (h \<noteq> 0) ps) (Suc k) bytes"
| none: "denote_all X load h [] 0 []"
| some: "denotes X load h p k bytes \<Longrightarrow> denote_all X load h ps k' bytes' \<Longrightarrow>
    denote_all X load h (p # ps) (k + k') (bytes @ bytes')"

lemma seq_from_nat: "n < 2 ^ 64 \<Longrightarrow> seq_u64 (sequence_from (of_nat n)) = Some (of_nat n)
    \<and> read_nat (seq_str (sequence_from (of_nat n))) = n"
  by (intro conjI) (simp, simp add: sequence_from_def unat_of_nat_64)

lemma denotes_size:
  "denotes X load h p k bytes \<Longrightarrow> hash_ok (part_hash p) \<and> read_nat (seq_str (part_size p)) = length bytes
    \<and> seq_u64 (part_size p) = Some (of_nat (length bytes))"
  "denote_all X load h ps k bytes \<Longrightarrow> parts_size ps = length bytes \<and> list_all (\<lambda>p. hash_ok (part_hash p)) ps"
proof (induction rule: denotes_denote_all.inducts)
  case (chunk bytes)
  then have "length bytes < 2 ^ 64" by (simp add: MAX_CHUNK_def)
  with chunk show ?case by (simp add: part_of_def seq_from_nat)
next
  case (index h ps k bytes)
  then show ?case by (simp add: index_part_def seq_from_nat)
qed (simp_all add: parts_size_def)

lemma denote_all_append:
  "denote_all X load h ps k bytes \<Longrightarrow> denote_all X load h qs j bytes' \<Longrightarrow>
     denote_all X load h (ps @ qs) (k + j) (bytes @ bytes')"
proof (induction ps arbitrary: k bytes)
  case Nil
  then show ?case by (auto elim: denote_all.cases)
next
  case (Cons p ps)
  from Cons.prems(1) obtain k1 b1 k2 b2 where p: "denotes X load h p k1 b1" "denote_all X load h ps k2 b2"
    "k = k1 + k2" "bytes = b1 @ b2" by (auto elim: denote_all.cases)
  from denotes_denote_all.some [OF p(1) Cons.IH [OF p(2) Cons.prems(2)]] p(3,4) show ?case
    by (simp add: add.assoc)
qed

lemma denote_all_split:
  "denote_all X load h (ps @ qs) k bytes \<Longrightarrow>
     \<exists>k1 b1 k2 b2. denote_all X load h ps k1 b1 \<and> denote_all X load h qs k2 b2 \<and> k = k1 + k2 \<and> bytes = b1 @ b2"
proof (induction ps arbitrary: k bytes)
  case Nil
  then show ?case using denotes_denote_all.none by fastforce
next
  case (Cons p ps)
  from Cons.prems obtain k1 b1 k2 b2 where p: "denotes X load h p k1 b1" "denote_all X load h (ps @ qs) k2 b2"
    "k = k1 + k2" "bytes = b1 @ b2" by (auto elim: denote_all.cases)
  from Cons.IH [OF p(2)] obtain k3 b3 k4 b4 where q: "denote_all X load h ps k3 b3" "denote_all X load h qs k4 b4"
    "k2 = k3 + k4" "b2 = b3 @ b4" by blast
  from denotes_denote_all.some [OF p(1) q(1)] q(2-4) p(3,4) show ?case
    by (intro exI [of _ "k1 + k3"] exI [of _ "b1 @ b3"] exI [of _ k4] exI [of _ b4]) simp
qed

definition good_index :: "ext \<Rightarrow> loader \<Rightarrow> index \<Rightarrow> bool" where
  "good_index X load i \<longleftrightarrow> loads X load (index_text X i) \<and> readable X i \<and> hash_ok (sha256 X (index_text X i))"

lemma denote_groups:
  assumes "denote_all X load h (concat gs) k bytes" and "length bytes < 2 ^ 64"
    and "list_all (\<lambda>g. g \<noteq> [] \<and> length g \<le> 64) gs"
    and "list_all (\<lambda>g. good_index X load (index_of (h \<noteq> 0) g)) gs"
  shows "denote_all X load (Suc h) (map (index_part X (h \<noteq> 0)) gs) (k + length gs) bytes"
  using assms
proof (induction gs arbitrary: k bytes)
  case Nil
  then show ?case using denotes_denote_all.none by (auto elim: denote_all.cases)
next
  case (Cons g gs)
  from Cons.prems(1) denote_all_split obtain k1 b1 k2 b2 where
    g: "denote_all X load h g k1 b1" "denote_all X load h (concat gs) k2 b2" "k = k1 + k2" "bytes = b1 @ b2"
    by (metis concat.simps(2))
  have "denotes X load (Suc h) (index_part X (h \<noteq> 0) g) (Suc k1) b1"
    using g Cons.prems(2-4) by (intro denotes_denote_all.index) (auto simp: good_index_def index_part_def)
  from denotes_denote_all.some [OF this Cons.IH [OF g(2)]] g(3,4) Cons.prems show ?case
    by (auto simp: algebra_simps)
qed

section \<open>Restoring what a part stands for\<close>

lemma read_index_ok:
  assumes "denote_all X load h ps k bytes" and "ps \<noteq> []" and "length ps \<le> 64" and "length bytes < 2 ^ 64"
    and "readable X (index_of (h \<noteq> 0) ps)"
  shows "read_index X (index_text X (index_of (h \<noteq> 0) ps)) (of_nat (length bytes)) depth
    = Inr (map (\<lambda>p. (part_hash p, of_nat (read_nat (seq_str (part_size p))), depth + 1, h = 0)) ps)"
proof -
  note sz = denotes_size(2) [OF assms(1)]
  have sum: "foldE size_step 0 ps = Inr (of_nat (length bytes))"
    using sz assms(4) by (simp add: size_steps unat_of_nat_64)
  have small: "read_nat (seq_str (part_size p)) < 2 ^ 64" if "p \<in> set ps" for p
    using member_le_sum_list [of "read_nat (seq_str (part_size p))" "map (\<lambda>p. read_nat (seq_str (part_size p))) ps"]
      that sz assms(4) by (auto simp: parts_size_def)
  have "mapE (\<lambda>p. bindE (checked_size p) (\<lambda>n. Inr (part_hash p, n, depth + 1, raw))) ps
      = Inr (map (\<lambda>p. (part_hash p, of_nat (read_nat (seq_str (part_size p))), depth + 1, raw)) ps)" for raw :: bool
  proof -
    have "checked_size p = Inr (of_nat (read_nat (seq_str (part_size p))))" if "p \<in> set ps" for p
    proof -
      have "hash_ok (part_hash p)" using sz that by (simp add: list_all_iff)
      with small [OF that] show ?thesis by (simp add: checked_size_def seq_u64_def validate_hash_def hash_ok_def)
    qed
    then show ?thesis by (simp add: mapE_Inr_iff list_all2_map2 list_all2_same)
  qed
  then show ?thesis
    using assms(2,3,5) sum
    by (simp add: read_index_def readable_def index_of_def)
qed

definition restores ::
  "ext \<Rightarrow> loader \<Rightarrow> env \<Rightarrow> u64 \<Rightarrow> pending list \<Rightarrow> nat \<Rightarrow> nat \<Rightarrow> bytes \<Rightarrow> bool" where
  "restores X load E expected todo seen k bytes \<longleftrightarrow>
     (\<forall>pending written out fed n. unat written + length bytes \<le> unat expected \<longrightarrow>
        (\<exists>n'. restore_loop X E load expected (todo @ pending) seen written out fed n
          = restore_loop X E load expected pending (seen + k) (written + of_nat (length bytes)) (out @ bytes) (fed @ bytes) n'))"

lemma restores_append:
  assumes "restores X load E expected todo seen k bytes"
    and "restores X load E expected todo' (seen + k) k' bytes'"
  shows "restores X load E expected (todo @ todo') seen (k + k') (bytes @ bytes')"
  unfolding restores_def
proof (intro allI impI)
  fix pending out fed n and written :: u64
  assume le: "unat written + length (bytes @ bytes') \<le> unat expected"
  then obtain n1 where 1: "restore_loop X E load expected (todo @ (todo' @ pending)) seen written out fed n
      = restore_loop X E load expected (todo' @ pending) (seen + k) (written + of_nat (length bytes)) (out @ bytes) (fed @ bytes) n1"
    using assms(1) unfolding restores_def by fastforce
  have "unat (written + of_nat (length bytes)) = unat written + length bytes"
    using le unat_less_64 [of expected] by (simp add: unat_add_no_wrap unat_of_nat_64)
  with le have "unat (written + of_nat (length bytes)) + length bytes' \<le> unat expected" by simp
  with assms(2) obtain n2 where "restore_loop X E load expected (todo' @ pending) (seen + k)
        (written + of_nat (length bytes)) (out @ bytes) (fed @ bytes) n1
      = restore_loop X E load expected pending (seen + k + k')
        (written + of_nat (length bytes) + of_nat (length bytes')) ((out @ bytes) @ bytes') ((fed @ bytes) @ bytes') n2"
    unfolding restores_def by blast
  with 1 show "\<exists>n'. restore_loop X E load expected ((todo @ todo') @ pending) seen written out fed n
      = restore_loop X E load expected pending (seen + (k + k')) (written + of_nat (length (bytes @ bytes')))
          (out @ bytes @ bytes') (fed @ bytes @ bytes') n'"
    by (auto simp: add.assoc)
qed

lemma denotes_restores:
  "denotes X load h p k bytes \<Longrightarrow> quietly E \<Longrightarrow> depth + h \<le> MAX_DEPTH \<Longrightarrow>
     seen + k \<le> MAX_PARTS + MAX_PARTS div 15 \<Longrightarrow>
     restores X load E expected [(part_hash p, of_nat (length bytes), depth, h = 0)] seen k bytes"
  "denote_all X load h ps k bytes \<Longrightarrow> quietly E \<Longrightarrow> depth + h \<le> MAX_DEPTH \<Longrightarrow>
     seen + k \<le> MAX_PARTS + MAX_PARTS div 15 \<Longrightarrow>
     restores X load E expected
       (map (\<lambda>p. (part_hash p, of_nat (read_nat (seq_str (part_size p))), depth, h = 0)) ps) seen k bytes"
proof (induction arbitrary: depth seen and depth seen rule: denotes_denote_all.inducts)
  case (chunk bytes)
  have add: "add_written expected written (of_nat (length bytes)) = Inr (written + of_nat (length bytes))"
    if "unat written + length bytes \<le> unat expected" for written
  proof -
    have l: "length bytes < 2 ^ 64" using chunk by (simp add: MAX_CHUNK_def)
    have w: "unat (written + of_nat (length bytes)) = unat written + length bytes"
      using that l unat_less_64 [of expected] by (simp add: unat_add_no_wrap unat_of_nat_64)
    then show ?thesis using that l
      by (simp add: add_written_def checked_add_def unat_of_nat_64 word_le_nat_alt w
          order.strict_trans1 [OF that unat_less_64 [of expected]])
  qed
  show ?case
    unfolding restores_def
    using chunk add
    by (auto simp: restore_loop.simps(2) part_of_def loads_def write_all_def)
next
  case (index h ps k bytes)
  let ?i = "index_of (h \<noteq> 0) ps"
  have ri: "read_index X (index_text X ?i) (of_nat (length bytes)) depth
    = Inr (map (\<lambda>p. (part_hash p, of_nat (read_nat (seq_str (part_size p))), depth + 1, h = 0)) ps)"
    using index by (intro read_index_ok)
  have "restores X load E expected
      (map (\<lambda>p. (part_hash p, of_nat (read_nat (seq_str (part_size p))), depth + 1, h = 0)) ps) (seen + 1) k bytes"
    using index by (intro index.IH) simp_all
  then show ?case
    unfolding restores_def using index ri
    by (simp add: restore_loop.simps(2) index_part_def loads_def)
next
  case (none h)
  then show ?case by (auto simp: restores_def)
next
  case (some h p k bytes ps k' bytes')
  have eq: "of_nat (read_nat (seq_str (part_size p))) = (of_nat (length bytes) :: u64)"
    using denotes_size(1) [OF some(1)] by simp
  have "restores X load E expected [(part_hash p, of_nat (length bytes), depth, h = 0)] seen k bytes"
    by (rule some(2)) (use some(5-) in simp_all)
  moreover have "restores X load E expected
      (map (\<lambda>p. (part_hash p, of_nat (read_nat (seq_str (part_size p))), depth, h = 0)) ps) (seen + k) k' bytes'"
    by (rule some(4)) (use some(5-) in simp_all)
  ultimately show ?case using restores_append by (fastforce simp: eq)
qed

section \<open>A built payload\<close>

lemma tree_loop_Inr:
  assumes "tree_loop X E depth branches parts (saved, n) = Inr (root, saved', n')"
  shows "saved' = saved @ map (index_text X) (tree_indexes X depth branches parts)"
  using assms
proof (induction X E depth branches parts "(saved, n)" arbitrary: saved n rule: tree_loop.induct)
  case (1 X E depth branches parts)
  show ?case
  proof (cases "depth + 1 > MAX_DEPTH")
    case True
    with "1.prems" show ?thesis by (subst (asm) tree_loop.simps) simp
  next
    case False
    from "1.prems" False obtain nl sv m where np: "next_parts X E branches parts (saved, n) = Inr (nl, sv, m)"
      and rest: "if length nl = 1 then root = hd nl \<and> saved' = sv
        else tree_loop X E (depth + 1) True nl (sv, m) = Inr (root, saved', n')"
      by (subst (asm) tree_loop.simps) (auto simp: bindE_Inr split: if_splits)
    note NP = next_parts_Inr [OF np]
    show ?thesis
    proof (cases "length nl = 1")
      case True
      with rest NP False show ?thesis by (subst tree_indexes.simps) simp
    next
      case ne: False
      with rest have r: "tree_loop X E (depth + 1) True nl (sv, m) = Inr (root, saved', n')" by simp
      from "1.hyps" [OF False np refl ne r] NP False ne show ?thesis
        by (subst tree_indexes.simps) simp
    qed
  qed
qed

lemma tree_loop_denotes:
  assumes "tree_loop X E depth branches parts (saved, n) = Inr (root, saved', n')"
    and "denote_all X load h parts k bytes" and "branches = (h \<noteq> 0)" and "length bytes < 2 ^ 64"
    and "list_all (good_index X load) (tree_indexes X depth branches parts)"
  shows "\<exists>h' k'. denotes X load h' root k' bytes \<and> depth + h' \<le> h + MAX_DEPTH \<and> 0 < h'
    \<and> 15 * k' \<le> 15 * k + length parts + 16 * (MAX_DEPTH - depth)"
  using assms
proof (induction X E depth branches parts "(saved, n)" arbitrary: saved n h k rule: tree_loop.induct)
  case (1 X E depth branches parts)
  show ?case
  proof (cases "depth + 1 > MAX_DEPTH")
    case True
    with "1.prems"(1) show ?thesis by (subst (asm) tree_loop.simps) simp
  next
    case False
    from "1.prems"(1) False obtain nl sv m where np: "next_parts X E branches parts (saved, n) = Inr (nl, sv, m)"
      and rest: "if length nl = 1 then root = hd nl
        else tree_loop X E (depth + 1) True nl (sv, m) = Inr (root, saved', n')"
      by (subst (asm) tree_loop.simps) (auto simp: bindE_Inr split: if_splits)
    let ?gs = "groups [] parts"
    have nl: "nl = map (index_part X (h \<noteq> 0)) ?gs" using next_parts_Inr [OF np] "1.prems"(3) by simp
    have good: "list_all (\<lambda>g. good_index X load (index_of (h \<noteq> 0) g)) ?gs"
      using "1.prems"(3,5) False by (subst (asm) tree_indexes.simps) (simp add: list_all_iff)
    have den: "denote_all X load (Suc h) nl (k + length nl) bytes"
      using denote_groups [of X load h ?gs k bytes] groups_props [of "[]" parts] "1.prems"(2,4) good
      by (simp add: nl)
    have count: "16 * length nl \<le> length parts + 16" using group_count [of parts] by (simp add: nl)
    show ?thesis
    proof (cases "length nl = 1")
      case True
      then obtain q where q: "nl = [q]" by (auto simp: length_Suc_conv)
      with den have "denotes X load (Suc h) q (k + 1) bytes"
        by (auto elim!: denote_all.cases)
      with rest q False "1.prems"(2) show ?thesis
        by (intro exI [of _ "Suc h"] exI [of _ "k + 1"]) (auto simp: MAX_DEPTH_def)
    next
      case ne: False
      with rest have r: "tree_loop X E (depth + 1) True nl (sv, m) = Inr (root, saved', n')" by simp
      have "list_all (good_index X load) (tree_indexes X (depth + 1) True nl)"
        using "1.prems"(3,5) False ne by (subst (asm) tree_indexes.simps) (simp add: nl)
      from "1.hyps" [OF False np refl ne r den _ "1.prems"(4) this] obtain h' k' where
        "denotes X load h' root k' bytes" "depth + 1 + h' \<le> Suc h + MAX_DEPTH" "0 < h'"
        "15 * k' \<le> 15 * (k + length nl) + length nl + 16 * (MAX_DEPTH - (depth + 1))" by auto
      with count False show ?thesis by (intro exI [of _ h'] exI [of _ k']) (auto simp: MAX_DEPTH_def)
    qed
  qed
qed

lemma denote_chunks:
  assumes "list_all (\<lambda>c. loads X load c \<and> length c \<le> MAX_CHUNK \<and> hash_ok (sha256 X c)) cs"
  shows "denote_all X load 0 (map (part_of X) cs) (length cs) (concat cs)"
  using assms
proof (induction cs)
  case (Cons c cs)
  then have "denotes X load 0 (part_of X c) 1 c" by (intro denotes_denote_all.chunk) simp_all
  from denotes_denote_all.some [OF this Cons.IH] Cons.prems show ?case by simp
qed (simp add: denotes_denote_all.none)

section \<open>Properties\<close>

text \<open>However the stream is read, building saves first the chunks that the last 64 bytes determine,
  in order, and they are the stream: every chunk but the last has at least 256 KiB and none more
  than 4 MiB; the payload names the digest and the length of the stream.\<close>

theorem payload_build_chunks:
  "case payload_build X E reader n of
     Inl _ \<Rightarrow> True
   | Inr (p, saved, _) \<Rightarrow>
       (let content = file_rest reader; chunks = chunk_list content in
        take (length chunks) saved = chunks \<and> concat chunks = content
        \<and> list_all (\<lambda>c. length c \<le> MAX_CHUNK) chunks
        \<and> list_all (\<lambda>c. MIN_CHUNK \<le> length c) (butlast chunks)
        \<and> content_hash p = sha256 X content
        \<and> map_option unat (seq_u64 (byte_length p)) = Some (length content))"
proof (cases "payload_build X E reader n")
  case (Inr y)
  obtain p saved n' where y: "y = (p, saved, n')" by (metis prod_cases3)
  from Inr obtain fed total_bytes st parts sv m root where
    r: "read_loop X E reader [] 0 (fresh_cutter n) = Inr (fed, total_bytes, st)"
    and l: "last_chunk X E st = Inr (parts, sv, m)"
    and t: "tree_loop X E 0 False parts (sv, m) = Inr (root, saved, n')"
    and p: "p = \<lparr>content_hash = sha256 X fed, byte_length = sequence_from total_bytes, payload_root = part_hash root\<rparr>"
    by (auto simp: payload_build_def bindE_Inr y)
  from built_chunks [OF r l] tree_loop_Inr [OF t] chunk_list_props [of "file_rest reader"]
  show ?thesis by (simp add: Inr y p Let_def)
qed simp

lemma restore_loop_Inr:
  "restore_loop X E load expected pending seen written out fed n = Inr (written', out', fed', n') \<Longrightarrow>
     \<exists>bytes. out' = out @ bytes \<and> fed' = fed @ bytes \<and> unat written' = unat written + length bytes"
proof (induction X E load expected pending seen written out fed n rule: restore_loop.induct)
  case (2 X E load expected digest sz depth raw pending seen written out fed n)
  from "2.prems" have ok: "\<not> (seen + 1 > MAX_PARTS + MAX_PARTS div 15 \<or> depth > MAX_DEPTH)"
    by (auto simp: restore_loop.simps(2) split: if_splits)
  from "2.prems" ok obtain bs where l: "load digest = Inr bs" and h: "\<not> sha256 X bs \<noteq> digest"
    by (auto simp: restore_loop.simps(2) bindE_Inr split: if_splits)
  show ?case
  proof (cases raw)
    case True
    from "2.prems" ok l h True obtain w1 out1 n1 where
      len: "\<not> (length bs > MAX_CHUNK \<or> of_nat (length bs) \<noteq> sz)"
      and a: "add_written expected written sz = Inr w1"
      and w: "write_all E ''payload-write-failed'' out bs n = Inr (out1, n1)"
      and rec: "restore_loop X E load expected pending (seen + 1) w1 out1 (fed @ bs) n1 = Inr (written', out', fed', n')"
      by (auto simp: restore_loop.simps(2) bindE_Inr split: if_splits)
    have "length bs < 2 ^ 64" using len by (simp add: MAX_CHUNK_def)
    then have "unat sz = length bs" using len by (auto simp: unat_of_nat_64)
    then have "unat w1 = unat written + length bs"
      using a by (auto simp: add_written_def checked_add_Some split: option.splits if_splits)
    with "2.IH"(1) [OF ok l h True len a w refl rec] w show ?thesis
      by (auto simp: write_all_Inr)
  next
    case False
    from "2.prems" ok l h False obtain ps where ri: "read_index X bs sz depth = Inr ps"
      and rec: "restore_loop X E load expected (ps @ pending) (seen + 1) written out fed n = Inr (written', out', fed', n')"
      by (auto simp: restore_loop.simps(2) bindE_Inr)
    from "2.IH"(2) [OF ok l h False ri rec] show ?thesis .
  qed
qed auto

text \<open>Whatever the store answers, a restore that succeeds wrote, after what the output held, bytes
  with the digest and the length the payload names.\<close>

theorem payload_restore_sound:
  "case payload_restore X E p load out n of
     Inl _ \<Rightarrow> True
   | Inr (out', _) \<Rightarrow>
       take (length out) out' = out \<and> sha256 X (drop (length out) out') = content_hash p
       \<and> map_option unat (seq_u64 (byte_length p)) = Some (length (drop (length out) out'))"
proof (cases "payload_restore X E p load out n")
  case (Inr y)
  obtain out' n' where y: "y = (out', n')" by fastforce
  from Inr y obtain expected fed where e: "seq_u64 (byte_length p) = Some expected"
    and l: "restore_loop X E load expected [(payload_root p, expected, 0, False)] 0 0 out [] n
      = Inr (expected, out', fed, n')"
    and h: "sha256 X fed = content_hash p"
    by (auto simp: payload_restore_def bindE_Inr split: if_splits)
  from restore_loop_Inr [OF l] obtain bs where "out' = out @ bs" "fed = bs" "unat expected = length bs" by auto
  with e h show ?thesis by (simp add: Inr y)
qed simp

section \<open>Reading back the saved indexes\<close>

definition index_parts :: "index \<Rightarrow> part list" where
  "index_parts i = (case i of Chunks ps \<Rightarrow> ps | Branches ps \<Rightarrow> ps)"

lemma index_from_value:
  assumes "list_all (\<lambda>q. sequence_try_from (seq_str (part_size q)) = Inr (part_size q)) (index_parts i)"
  shows "index_from (index_value i) = Some i"
proof -
  have part: "part_from (part_value q) = Some q"
    if "sequence_try_from (seq_str (part_size q)) = Inr (part_size q)" for q
  proof -
    have "struct_fields [''hash'', ''size''] (part_value q)
        = Some [Some (JString (part_hash q)), Some (JString (seq_str (part_size q)))]"
      unfolding part_value_def by (subst struct_fields_value) simp_all
    then show ?thesis unfolding part_from_def using that by (simp del: sequence_try_from_Inr)
  qed
  have "those (map (part_from \<circ> part_value) (index_parts i)) = Some (index_parts i)"
    by (rule those_map_Some) (use assms part in \<open>auto simp: list_all_iff\<close>)
  then show ?thesis
    by (cases i) (simp_all add: index_parts_def index_from_def index_value_def tagged_def struct_value_def
        struct_fields_def bt_collect_def bt_delete_def as_list_def comp_def)
qed

text \<open>The texts of strings without escapes are the strings in quotes.\<close>

definition plain_strings :: "ext \<Rightarrow> bool" where
  "plain_strings X \<longleftrightarrow> (\<forall>s. list_all is_ascii_alphanumeric s \<longrightarrow> to_vec X (JString s) = quote (JString s))"

definition part_wf :: "part \<Rightarrow> bool" where
  "part_wf p \<longleftrightarrow> hash_ok (part_hash p) \<and> (\<exists>n :: u64. part_size p = sequence_from n)"

lemma part_wf_size: "part_wf p \<Longrightarrow> plain_decimal (seq_str (part_size p)) \<and> length (seq_str (part_size p)) \<le> 20"
proof -
  assume "part_wf p"
  then obtain n :: u64 where n: "part_size p = sequence_from n" by (auto simp: part_wf_def)
  have "length (show_nat (unat n)) \<le> 20" using unat_less_64 [of n] by (subst show_nat_length) simp_all
  then show ?thesis using show_nat_plain [of "unat n"] by (simp add: n sequence_from_def)
qed

lemma tree_indexes_wf:
  "digest_fun (sha256 X) \<Longrightarrow> list_all part_wf ps \<Longrightarrow> i \<in> set (tree_indexes X depth branches ps) \<Longrightarrow>
    list_all part_wf (index_parts i) \<and> length (index_parts i) \<le> 64"
proof (induction X depth branches ps rule: tree_indexes.induct)
  case (1 X depth branches ps)
  have g: "list_all part_wf g \<and> length g \<le> 64" if "g \<in> set (groups [] ps)" for g
  proof -
    have "set g \<subseteq> set ps" using that groups_props(1) [of "[]" ps] by (metis UN_upper append_Nil length_0_conv list.size(3) set_concat zero_less_numeral)
    then show ?thesis using that groups_props(2) [of "[]" ps] 1(3) by (auto simp: list_all_iff)
  qed
  have wf: "list_all part_wf (map (index_part X branches) gs)" for gs
  proof -
    have "hash_ok (sha256 X bs)" for bs using 1(2) unfolding digest_fun_def validate_hash_ok by blast
    then show ?thesis by (auto simp: list_all_iff part_wf_def index_part_def)
  qed
  show ?case
  proof (cases "i \<in> index_of branches ` set (groups [] ps)")
    case True
    with g show ?thesis by (auto simp: index_of_def index_parts_def)
  next
    case False
    with 1(4) have *: "\<not> depth + 1 > MAX_DEPTH" "length (groups [] ps) \<noteq> 1"
      "i \<in> set (tree_indexes X (depth + 1) True (map (index_part X branches) (groups [] ps)))"
      by (subst (asm) tree_indexes.simps, auto split: if_splits)+
    from 1(1) [OF *(1,2) 1(2) wf *(3)] show ?thesis .
  qed
qed

lemma alphanumeric: "is_lower_hex c \<Longrightarrow> is_ascii_alphanumeric c" "is_ascii_digit c \<Longrightarrow> is_ascii_alphanumeric c"
  by (auto simp: is_lower_hex_def is_ascii_alphanumeric_def is_ascii_digit_def less_eq_char_def)

lemma canon_index:
  "canon (index_value i) =
     JObject [(''kind'', JString (case i of Chunks _ \<Rightarrow> ''chunks'' | Branches _ \<Rightarrow> ''branches'')),
              (''parts'', JArray (map (\<lambda>p. JObject [(''hash'', JString (part_hash p)), (''size'', JString (seq_str (part_size p)))])
                 (index_parts i)))]"
  by (cases i) (simp_all add: index_value_def part_value_def struct_value_def bt_collect_def utf16_def utf16_units_def code_def
      index_parts_def)

lemma index_text_length:
  assumes "plain_strings X" and "list_all part_wf (index_parts i)" and "length (index_parts i) \<le> 64"
  shows "length (index_text X i) \<le> 64 * 1024"
proof -
  have q: "length (to_vec X (JString s)) = length s + 2" if "list_all is_ascii_alphanumeric s" for s
    using assms(1) that by (simp add: plain_strings_def quote_def as_bytes_def)
  have k: "length (to_vec X (JString ''kind'')) = 6" "length (to_vec X (JString ''parts'')) = 7"
    "length (to_vec X (JString ''hash'')) = 6" "length (to_vec X (JString ''size'')) = 6"
    "length (to_vec X (JString ''chunks'')) = 8" "length (to_vec X (JString ''branches'')) = 10"
    by (subst q; simp add: is_ascii_alphanumeric_def is_ascii_digit_def)+
  let ?part = "\<lambda>p. json_text X (JObject [(''hash'', JString (part_hash p)), (''size'', JString (seq_str (part_size p)))])"
  have part: "length (?part p) \<le> 120" if "p \<in> set (index_parts i)" for p
  proof -
    have wf: "part_wf p" using assms(2) that by (simp add: list_all_iff)
    then have h: "list_all is_ascii_alphanumeric (part_hash p)" "length (part_hash p) = 64"
      using alphanumeric by (auto simp: part_wf_def hash_ok_def list_all_iff)
    have s: "list_all is_ascii_alphanumeric (seq_str (part_size p))" "length (seq_str (part_size p)) \<le> 20"
      using part_wf_size [OF wf] alphanumeric by (auto simp: plain_decimal_def list_all_iff)
    show ?thesis using s(2) by (simp add: k q [OF h(1)] q [OF s(1)] h(2) join_def separator_def)
  qed
  have sum: "sum_list (map (\<lambda>p. length (t p)) ps) \<le> 120 * length ps" if "\<And>p. p \<in> set ps \<Longrightarrow> length (t p) \<le> 120"
    for t :: "part \<Rightarrow> bytes" and ps
    using that by (induction ps) (simp_all, fastforce)
  have "sum_list (map (\<lambda>p. length (?part p)) (index_parts i)) \<le> 120 * length (index_parts i)"
    by (rule sum, rule part)
  then have "length (join (map ?part (index_parts i))) \<le> 121 * 64"
    using length_join [of "map ?part (index_parts i)"] assms(3)
    by (simp only: length_map map_map comp_def)
  have object: "length (json_text X (JObject [(''kind'', JString (case i of Chunks _ \<Rightarrow> ''chunks'' | Branches _ \<Rightarrow> ''branches'')),
      (''parts'', JArray vs)])) \<le> length (join (map (json_text X) vs)) + 40" for vs
    by (cases i) (simp_all add: k join_def separator_def)
  have "length (index_text X i) \<le> length (join (map ?part (index_parts i))) + 40"
    unfolding index_text_def canon_index by (rule object [THEN order_trans]) (simp only: map_map comp_def order_refl)
  with \<open>length (join (map ?part (index_parts i))) \<le> 121 * 64\<close> show ?thesis by simp
qed

lemma index_readable:
  assumes "parses X (index_value i)" and "plain_strings X" and "list_all part_wf (index_parts i)" and "length (index_parts i) \<le> 64"
  shows "readable X i"
proof -
  have "list_all (\<lambda>q. sequence_try_from (seq_str (part_size q)) = Inr (part_size q)) (index_parts i)"
    using assms(3) part_wf_size by (fastforce simp: list_all_iff)
  then have "index_from (index_value i) = Some i" by (rule index_from_value)
  with assms(1) index_text_length [OF assms(2-4)] show ?thesis
    by (simp add: readable_def canonical_decode_def parses_def index_text_def strict_canon index_value_free map_err_def)
qed

text \<open>C33. Restoring a built payload gives back the stream, for a stream of at most 128 GiB; within that bound
  the chunks and indexes of the tree stay below the number of parts restoring accepts, beyond it they may not. Assumed is
  that the store returns the saved objects, that digests are digests, that the serializer puts plain strings in quotes, and
  that the parser reads the texts of the index objects as the JSON values they were made from. The walk from the root
  then decodes every index, visits every part within the limits on parts and depth and writes the stream.\<close>

theorem payload_roundtrip:
  assumes "payload_build X E reader n = Inr (p, saved, n')" and "digest_fun (sha256 X)"
    and "list_all (loads X load) saved"
    and "plain_strings X"
    and "list_all (\<lambda>i. parses X (index_value i))
      (tree_indexes X 0 False (map (part_of X) (chunk_list (file_rest reader))))"
    and "length (file_rest reader) \<le> 2 ^ 37"
  shows "\<exists>m'. payload_restore X (quiet grain) p load [] m = Inr (file_rest reader, m')"
proof -
  let ?content = "file_rest reader"
  let ?cs = "chunk_list ?content"
  from assms(1) obtain fed total_bytes st parts sv n1 root where
    r: "read_loop X E reader [] 0 (fresh_cutter n) = Inr (fed, total_bytes, st)"
    and l: "last_chunk X E st = Inr (parts, sv, n1)"
    and t: "tree_loop X E 0 False parts (sv, n1) = Inr (root, saved, n')"
    and p: "p = \<lparr>content_hash = sha256 X fed, byte_length = sequence_from total_bytes, payload_root = part_hash root\<rparr>"
    by (auto simp: payload_build_def bindE_Inr)
  note B = built_chunks [OF r l]
  have len: "length ?content < 2 ^ 64" using assms(6) by simp
  have hash: "hash_ok (sha256 X bs)" for bs using assms(2) by (simp add: digest_fun_def hash_ok_def)
  have parts: "parts = map (part_of X) ?cs" and sv: "sv = ?cs" using B by simp_all
  have saved: "saved = ?cs @ map (index_text X) (tree_indexes X 0 False parts)"
    using tree_loop_Inr [OF t] sv by simp
  have "denote_all X load 0 parts (length ?cs) (concat ?cs)"
    unfolding parts using assms(3) chunk_list_props(3) [of ?content]
    by (intro denote_chunks) (auto simp: list_all_iff saved hash)
  moreover have "list_all (good_index X load) (tree_indexes X 0 False parts)"
  proof -
    have wf: "list_all part_wf parts" by (auto simp: parts list_all_iff part_wf_def part_of_def hash)
    have "good_index X load i" if i: "i \<in> set (tree_indexes X 0 False parts)" for i
    proof -
      have "parses X (index_value i)" using assms(5) i by (simp add: list_all_iff parts)
      with index_readable [OF _ assms(4)] tree_indexes_wf [OF assms(2) wf i] have "readable X i" by blast
      moreover have "loads X load (index_text X i)" using assms(3) i by (simp add: list_all_iff saved)
      ultimately show ?thesis by (simp add: good_index_def hash)
    qed
    then show ?thesis by (simp add: list_all_iff)
  qed
  ultimately obtain h k where d: "denotes X load h root k ?content" and hk: "h \<le> MAX_DEPTH" "0 < h"
    "15 * k \<le> 15 * length ?cs + length parts + 16 * MAX_DEPTH"
    using tree_loop_denotes [OF t, of load 0 "length ?cs" "concat ?cs"] len
    by (auto simp: chunk_list_props(1))
  have "length ?cs \<le> 2 ^ 19 + 1" using chunk_count [of ?content] assms(6) by (simp add: MIN_CHUNK_def)
  with hk have k: "k \<le> MAX_PARTS + MAX_PARTS div 15" by (simp add: parts MAX_DEPTH_def MAX_PARTS_def)
  have total: "total_bytes = of_nat (length ?content)" using B len by (simp add: word_unat_eq_iff unat_of_nat_64)
  have "restores X load (quiet grain) total_bytes [(part_hash root, total_bytes, 0, False)] 0 k ?content"
    using denotes_restores(1) [OF d, where E = "quiet grain" and depth = 0 and seen = 0 and expected = total_bytes] hk k
    by (simp add: total)
  then obtain m' where "restore_loop X (quiet grain) load total_bytes ([(part_hash root, total_bytes, 0, False)] @ []) 0 0 [] [] m
      = restore_loop X (quiet grain) load total_bytes [] (0 + k) (0 + of_nat (length ?content)) ([] @ ?content) ([] @ ?content) m'"
    unfolding restores_def using B by (metis le_refl unat_0 add_0)
  then show ?thesis
    using denotes_size(1) [OF d] hash [of fed] B
    by (intro exI [of _ m']) (simp add: payload_restore_def p validate_hash_def hash_ok_def total)
qed

text \<open>A small stream, and libraries that are right about it.\<close>

definition sample_stream :: opened where
  "sample_stream = \<lparr>file_bytes = [1, 2, 3], file_pos = 0\<rparr>"

definition sample_index :: index where
  "sample_index = Chunks [\<lparr>part_hash = replicate 64 CHR ''a'', part_size = Sequence ''3''\<rparr>]"

definition sample_store :: ext where
  "sample_store = (sample_ext (canon (index_value sample_index)))
     \<lparr>sha256 := \<lambda>bs. if bs = [1, 2, 3] then replicate 64 CHR ''a'' else replicate 64 CHR ''b''\<rparr>"

definition sample_load :: loader where
  "sample_load h = Inr (if h = replicate 64 CHR ''a'' then [1, 2, 3] else index_text sample_store sample_index)"

lemma sample_chunks: "chunk_list (file_rest sample_stream) = [[1, 2, 3]]"
  by (simp add: chunk_list_def is_cut_def MAX_CHUNK_def MIN_CHUNK_def file_rest_def sample_stream_def)

lemma sample_part: "part_of sample_store [1, 2, 3] = \<lparr>part_hash = replicate 64 CHR ''a'', part_size = Sequence ''3''\<rparr>"
  by (simp add: part_of_def sample_store_def sequence_from_def show_nat.simps digit_char_def)

lemma sample_text: "index_text sample_store sample_index =
    as_bytes ''{'' @ quote (JString ''kind'') @ as_bytes '':'' @ quote (JString ''chunks'') @ as_bytes '',''
      @ quote (JString ''parts'') @ as_bytes '':[{'' @ quote (JString ''hash'') @ as_bytes '':''
      @ quote (JString (replicate 64 CHR ''a'')) @ as_bytes '','' @ quote (JString ''size'') @ as_bytes '':''
      @ quote (JString ''3'') @ as_bytes ''}]}''"
  by (simp add: index_text_def sample_store_def sample_index_def index_value_def part_value_def struct_value_def
      bt_collect_def utf16_def utf16_units_def code_def sample_ext_def join_def separator_def as_bytes_def)

lemma sample_indexes: "tree_indexes sample_store 0 False [part_of sample_store [1, 2, 3]] = [sample_index]"
  by (subst tree_indexes.simps)
    (simp add: MAX_DEPTH_def group_full_def index_of_def sample_part sample_index_def)

lemma sample_hashes: "sha256 sample_store [1, 2, 3] = replicate 64 CHR ''a''"
    "sha256 sample_store (index_text sample_store sample_index) = replicate 64 CHR ''b''"
  by (simp add: sample_store_def) (subst sample_text, simp add: sample_store_def as_bytes_def)

lemma sample_parses: "parses sample_store (index_value sample_index)"
  by (simp add: parses_def sample_store_def sample_ext_def)

lemma sample_plain: "plain_strings sample_store"
  by (simp add: plain_strings_def sample_store_def sample_ext_def)

lemma sample_tree: "tree_loop sample_store (quiet grain) 0 False [part_of sample_store [1, 2, 3]] ([[1, 2, 3]], n)
    = Inr (index_part sample_store False [part_of sample_store [1, 2, 3]], [[1, 2, 3], index_text sample_store sample_index], Suc n)"
proof -
  have "foldE size_step 0 [part_of sample_store [1, 2, 3]] = Inr 3"
    by (subst size_steps) (simp add: sample_part hash_ok_def is_lower_hex_def list_all_length parts_size_def read_nat_def digit_value_def)
  moreover have "index_of False [part_of sample_store [1, 2, 3]] = sample_index"
    by (simp add: index_of_def sample_part sample_index_def)
  moreover have "parts_size [part_of sample_store [1, 2, 3]] = 3"
    by (simp add: parts_size_def sample_part read_nat_def digit_value_def)
  ultimately have "next_parts sample_store (quiet grain) False [part_of sample_store [1, 2, 3]] ([[1, 2, 3]], n)
    = Inr ([index_part sample_store False [part_of sample_store [1, 2, 3]]], [[1, 2, 3], index_text sample_store sample_index], Suc n)"
    by (simp add: next_parts_def level_step_def group_full_def save_index_def encode_index save_def index_part_def)
  then show ?thesis by (subst tree_loop.simps) (simp add: MAX_DEPTH_def)
qed

lemma sample_build: "payload_build sample_store (quiet (\<lambda>_. 9)) sample_stream 0
    = Inr (\<lparr>content_hash = replicate 64 CHR ''a'', byte_length = Sequence ''3'', payload_root = replicate 64 CHR ''b''\<rparr>,
        [[1, 2, 3], index_text sample_store sample_index], 4)"
proof -
  obtain st where r: "read_loop sample_store (quiet (\<lambda>_. 9)) sample_stream [] 0 (fresh_cutter 0) = Inr ([1, 2, 3], 3, st)"
    and st: "cut_bytes st = [1, 2, 3]" "cut_chunks st = []" "cut_saved st = ([], 2)"
    by (simp add: read_loop.simps read_some_def sample_stream_def file_rest_def io_def quiet_def fresh_cutter_def
        Let_def byte_step_def is_cut_def MAX_CHUNK_def MIN_CHUNK_def checked_add_def)
  have "part_hash (index_part sample_store False [part_of sample_store [1, 2, 3]]) = replicate 64 CHR ''b''"
    using sample_hashes(2) by (simp add: index_part_def index_of_def sample_part sample_index_def)
  with r st show ?thesis
    by (simp add: payload_build_def last_chunk_def save_def sample_tree sample_hashes sequence_from_def
        show_nat.simps digit_char_def)
qed

text \<open>The theorem on the small stream.\<close>

lemma payload_roundtrip_witness:
  "case payload_build sample_store (quiet (\<lambda>_. 9)) sample_stream 0 of
     Inl _ \<Rightarrow> False
   | Inr (p, _) \<Rightarrow> (\<exists>m'. payload_restore sample_store (quiet (\<lambda>_. 1)) p sample_load [] 0 = Inr ([1, 2, 3], m'))"
proof -
  have "digest_fun (sha256 sample_store)"
    by (simp add: digest_fun_def sample_store_def hash_ok_def is_lower_hex_def is_ascii_digit_def list_all_length)
  moreover have "replicate 64 CHR ''b'' \<noteq> replicate 64 CHR ''a''" by (simp add: replicate_eq_replicate)
  then have "list_all (loads sample_store sample_load) [[1, 2, 3], index_text sample_store sample_index]"
    by (simp add: loads_def sample_hashes sample_load_def)
  ultimately show ?thesis
    using payload_roundtrip [OF sample_build, of sample_load "\<lambda>_. 1" 0]
    by (simp add: sample_build sample_chunks sample_indexes sample_parses sample_plain) (simp add: sample_stream_def file_rest_def)
qed

end
