(* ===== verification/Small_Objects.thy ===== *)
theory Small_Objects
  imports Codec Ordered_Map
begin

text \<open>
  The store of small immutable objects inside a SQLite database,
  \<^verbatim>\<open>crates/small-object-store/src/lib.rs\<close>. The table \<^verbatim>\<open>small_objects\<close> is the list of its rows in the
  order of its primary key; SHA-256 with its hexadecimal printing is the argument \<open>H\<close>. The
  operations work inside a transaction of the caller, who drops it on an error. The counts a
  checkpoint of SQLite reports are arguments. Statements on a table that exists do not fail.
\<close>

datatype store_error = Corrupt | InvalidIdentity | TooLarge | Database

type_synonym 'a stored = "store_error + 'a"
type_synonym objects = "(string \<times> bytes) list"

definition check_identity :: "string \<Rightarrow> unit stored" where
  "check_identity h = (if length h = 64 \<and> list_all is_lower_hex h then Inr () else Inl InvalidIdentity)"

definition initialize :: "objects option \<Rightarrow> objects" where
  "initialize tab = (case tab of None \<Rightarrow> [] | Some rows \<Rightarrow> rows)"

text \<open>One turn of the loop of \<^verbatim>\<open>insert_batch\<close>.\<close>

definition insert_object :: "(bytes \<Rightarrow> string) \<Rightarrow> objects \<Rightarrow> string \<times> bytes \<Rightarrow> objects stored" where
  "insert_object H rows = (\<lambda>(h, bytes).
     bindE (check_identity h) (\<lambda>_.
     if H bytes \<noteq> h then Inl Corrupt
     else
       (case map_of rows h of
          Some present \<Rightarrow> if present = bytes then Inr rows else Inl Corrupt
        | None \<Rightarrow> Inr (bt_insert h bytes rows))))"

definition insert_batch :: "(bytes \<Rightarrow> string) \<Rightarrow> objects \<Rightarrow> (string \<times> bytes) list \<Rightarrow> objects stored" where
  "insert_batch H rows objs = foldE (insert_object H) rows objs"

definition object_size :: "objects \<Rightarrow> string \<Rightarrow> nat option stored" where
  "object_size rows h = bindE (check_identity h) (\<lambda>_. Inr (map_option length (map_of rows h)))"

definition object_read :: "(bytes \<Rightarrow> string) \<Rightarrow> objects \<Rightarrow> string \<Rightarrow> nat \<Rightarrow> bytes option stored" where
  "object_read H rows h limit =
     bindE (check_identity h) (\<lambda>_.
     bindE (object_size rows h) (\<lambda>found.
     case found of
       None \<Rightarrow> Inr None
     | Some n \<Rightarrow>
         if n > limit then Inl TooLarge
         else
           (case map_of rows h of
              None \<Rightarrow> Inl Database
            | Some bytes \<Rightarrow> if H bytes \<noteq> h then Inl Corrupt else Inr (Some bytes))))"

definition object_page :: "objects \<Rightarrow> string \<Rightarrow> nat \<Rightarrow> (string \<times> nat) list" where
  "object_page rows after limit =
     map (\<lambda>(h, bytes). (h, length bytes)) (take limit (filter (\<lambda>(h, _). h > after) rows))"

definition delete_object :: "objects \<times> nat \<Rightarrow> string \<Rightarrow> (objects \<times> nat) stored" where
  "delete_object = (\<lambda>(rows, removed) h.
     bindE (check_identity h) (\<lambda>_.
     Inr (bt_delete h rows, removed + (if map_of rows h = None then 0 else 1))))"

definition delete_batch :: "objects \<Rightarrow> string list \<Rightarrow> (objects \<times> nat) stored" where
  "delete_batch rows hashes = foldE delete_object (rows, 0) hashes"

section \<open>Admission\<close>

text \<open>\<^verbatim>\<open>saturating_mul\<close>, \<^verbatim>\<open>saturating_add\<close> and \<^verbatim>\<open>saturating_sub\<close> of \<^verbatim>\<open>u64\<close>.\<close>

definition saturating_mul :: "u64 \<Rightarrow> u64 \<Rightarrow> u64" where
  "saturating_mul a b = (if unat a * unat b < 2 ^ 64 then a * b else - 1)"

definition saturating_add :: "u64 \<Rightarrow> u64 \<Rightarrow> u64" where
  "saturating_add a b = (if unat a + unat b < 2 ^ 64 then a + b else - 1)"

definition saturating_sub :: "u64 \<Rightarrow> u64 \<Rightarrow> u64" where
  "saturating_sub a b = (if b \<le> a then a - b else 0)"

definition WAL_HIGH_WATER_BYTES :: u64 where "WAL_HIGH_WATER_BYTES = 64 * 1024 * 1024"

record checkpoint_state =
  busy :: bool
  pending_bytes :: u64

definition UNKNOWN :: checkpoint_state where
  "UNKNOWN = \<lparr>busy = True, pending_bytes = - 1\<rparr>"

text \<open>\<open>log\<close>, \<open>copied\<close> and \<open>page\<close> are what \<^verbatim>\<open>wal_checkpoint\<close> and \<^verbatim>\<open>page_size\<close> report, signed
  64-bit numbers; the difference of two frame counts does not overflow.\<close>

definition checkpoint :: "int \<Rightarrow> int \<Rightarrow> int \<Rightarrow> checkpoint_state" where
  "checkpoint log copied page =
     (let frames = of_int (max (log - copied) 0) :: u64 in
      \<lparr>busy = frames > 0, pending_bytes = saturating_mul frames (of_int (max page 0) + 24)\<rparr>)"

datatype pressure = Log | Space

definition admit_group ::
  "checkpoint_state \<Rightarrow> checkpoint_state \<Rightarrow> u64 \<Rightarrow> u64 \<Rightarrow> u64 \<Rightarrow> pressure option \<times> checkpoint_state" where
  "admit_group measured last_one high_water group_bytes available =
     (let now = (if pending_bytes last_one > high_water then measured else last_one) in
      if pending_bytes now > high_water then (Some Log, now)
      else
        let needed = saturating_add (saturating_mul group_bytes 2) (saturating_sub high_water (pending_bytes now)) in
        (if available < needed then Some Space else None, now))"

section \<open>Lemmas\<close>

lemma check_identity_Inr [simp]: "check_identity h = Inr u \<longleftrightarrow> hash_ok h"
  by (simp add: check_identity_def hash_ok_def)

lemma check_identity_Inl [simp]: "check_identity h = Inl e \<longleftrightarrow> \<not> hash_ok h \<and> e = InvalidIdentity"
  by (auto simp: check_identity_def hash_ok_def)

definition rows_ok :: "(bytes \<Rightarrow> string) \<Rightarrow> objects \<Rightarrow> bool" where
  "rows_ok H rows \<longleftrightarrow> bt_inv rows \<and> (\<forall>h bytes. map_of rows h = Some bytes \<longrightarrow> hash_ok h \<and> H bytes = h)"

lemma insert_object_Inr:
  assumes "rows_ok H rows" and "insert_object H rows (h, bytes) = Inr rows'"
  shows "rows_ok H rows' \<and> hash_ok h \<and> H bytes = h \<and> map_of rows' = (map_of rows)(h \<mapsto> bytes)
    \<and> (map_of rows h = None \<or> map_of rows h = Some bytes)"
proof -
  from assms have *: "hash_ok h" "H bytes = h"
    "map_of rows h = Some bytes \<and> rows' = rows \<or> map_of rows h = None \<and> rows' = bt_insert h bytes rows"
    by (auto simp: insert_object_def bindE_Inr split: if_splits option.splits)
  have inv: "bt_inv rows" using assms(1) by (simp add: rows_ok_def)
  from *(3) have "map_of rows' = (map_of rows)(h \<mapsto> bytes)"
    using inv by (auto simp: fun_eq_iff map_of_bt_insert)
  moreover from *(3) have "bt_inv rows'" using inv by (auto intro: bt_inv_insert)
  ultimately show ?thesis using * assms(1) by (auto simp: rows_ok_def)
qed

lemma insert_batch_Inr:
  assumes "rows_ok H rows" and "insert_batch H rows objs = Inr rows'"
  shows "rows_ok H rows' \<and> map_of rows \<subseteq>\<^sub>m map_of rows'
    \<and> (\<forall>(h, bytes) \<in> set objs. map_of rows' h = Some bytes)
    \<and> (\<forall>h. h \<notin> fst ` set objs \<longrightarrow> map_of rows' h = map_of rows h)"
  using assms unfolding insert_batch_def
proof (induction objs arbitrary: rows)
  case (Cons x objs)
  obtain h bytes where x: "x = (h, bytes)" by fastforce
  from Cons.prems(2) obtain rows1 where s: "insert_object H rows (h, bytes) = Inr rows1"
    and rest: "foldE (insert_object H) rows1 objs = Inr rows'" by (auto simp: bindE_Inr x)
  note I = insert_object_Inr [OF Cons.prems(1) s]
  note R = Cons.IH [OF conjunct1 [OF I] rest]
  have "map_of rows \<subseteq>\<^sub>m map_of rows1" using I by (auto simp: map_le_def)
  then have "map_of rows \<subseteq>\<^sub>m map_of rows'" using R by (blast intro: map_le_trans)
  moreover have "map_of rows' h = Some bytes" using R I by (auto intro: map_le_row)
  moreover have "map_of rows' k = map_of rows k" if "k \<notin> fst ` set (x # objs)" for k
    using that R I by (simp add: x)
  ultimately show ?case using R by (auto simp: x)
qed auto

text \<open>What a caller does: groups of insertions and deletions, each in a transaction that an error drops.\<close>

datatype group = Insert_Group "(string \<times> bytes) list" | Delete_Group "string list"

definition run_group :: "(bytes \<Rightarrow> string) \<Rightarrow> group \<Rightarrow> objects \<Rightarrow> objects" where
  "run_group H g rows =
     (case g of
        Insert_Group objs \<Rightarrow> (case insert_batch H rows objs of Inl _ \<Rightarrow> rows | Inr rows' \<Rightarrow> rows')
      | Delete_Group hashes \<Rightarrow> (case delete_batch rows hashes of Inl _ \<Rightarrow> rows | Inr (rows', _) \<Rightarrow> rows'))"

definition objects_after :: "(bytes \<Rightarrow> string) \<Rightarrow> group list \<Rightarrow> objects" where
  "objects_after H gs = fold (run_group H) gs (initialize None)"

lemma length_bt_delete:
  "bt_inv rows \<Longrightarrow> length (bt_delete h rows) + (if map_of rows h = None then 0 else 1) = length rows"
proof (induction rows)
  case (Cons x rows)
  show ?case
  proof (cases "fst x = h")
    case True
    with Cons.prems have "filter (\<lambda>(a, _). a \<noteq> h) rows = rows" by (intro filter_True) auto
    with True show ?thesis by (cases x) (simp add: bt_delete_def)
  next
    case False
    with Cons show ?thesis by (cases x) (auto simp: bt_delete_def)
  qed
qed (simp add: bt_delete_def)

lemma insert_batch_accepts:
  assumes "rows_ok H rows" and "map_of rows \<subseteq>\<^sub>m M"
    and "\<forall>(h, bytes) \<in> set objs. hash_ok h \<and> H bytes = h \<and> M h = Some bytes"
  shows "\<exists>rows'. foldE (insert_object H) rows objs = Inr rows'"
  using assms
proof (induction objs arbitrary: rows)
  case (Cons x objs)
  obtain h bytes where x: "x = (h, bytes)" by fastforce
  have ok: "hash_ok h" "H bytes = h" "M h = Some bytes" using Cons.prems(3) by (auto simp: x)
  have "map_of rows h = None \<or> map_of rows h = Some bytes"
    using Cons.prems(2) ok(3) by (cases "map_of rows h") (auto simp: map_le_def dest: bspec [of _ _ h])
  then obtain rows1 where s: "insert_object H rows (h, bytes) = Inr rows1"
    using ok by (auto simp: insert_object_def check_identity_def hash_ok_def)
  note I = insert_object_Inr [OF Cons.prems(1) s]
  then have "map_of rows1 \<subseteq>\<^sub>m M" using Cons.prems(2) ok(3) by (auto simp: map_le_def)
  from Cons.IH [OF conjunct1 [OF I] this] Cons.prems(3) s show ?case by (simp add: x)
qed simp

lemma delete_batch_Inr:
  "foldE delete_object (rows, k) hashes = Inr (rows', k') \<Longrightarrow> bt_inv rows \<Longrightarrow>
     rows' = filter (\<lambda>(h, _). h \<notin> set hashes) rows \<and> k' + length rows' = k + length rows
     \<and> list_all hash_ok hashes"
proof (induction hashes arbitrary: rows k)
  case (Cons h hashes)
  then have h: "hash_ok h" and rest: "foldE delete_object (bt_delete h rows, k + (if map_of rows h = None then 0 else 1)) hashes
      = Inr (rows', k')" by (auto simp: bindE_Inr delete_object_def)
  with length_bt_delete [OF Cons.prems(2), of h] Cons.IH [OF rest bt_inv_delete [OF Cons.prems(2)]] h show ?case
    by (auto simp: bt_delete_def intro!: filter_cong)
qed simp

lemma run_group_ok: "rows_ok H rows \<Longrightarrow> rows_ok H (run_group H g rows)"
proof (cases g)
  case (Insert_Group objs)
  assume "rows_ok H rows"
  with Insert_Group insert_batch_Inr [of H rows objs] show ?thesis
    by (auto simp: run_group_def split: sum.split)
next
  case (Delete_Group hashes)
  assume ok: "rows_ok H rows"
  have sub: "map_of (filter (\<lambda>(h, _). h \<notin> set hashes) rows) h = Some b \<Longrightarrow> map_of rows h = Some b" for h b
    using bt_inv_distinct [of rows] ok
    by (auto simp: rows_ok_def dest!: map_of_SomeD intro!: map_of_is_SomeI)
  show ?thesis
  proof (cases "delete_batch rows hashes")
    case (Inr y)
    obtain rows' k where y: "y = (rows', k)" by fastforce
    from delete_batch_Inr [OF Inr [unfolded delete_batch_def y]] ok
    have "rows' = filter (\<lambda>(h, _). h \<notin> set hashes) rows" by (simp add: rows_ok_def)
    with ok sub Inr y Delete_Group show ?thesis
      by (auto simp: run_group_def rows_ok_def bt_inv_filter)
  qed (use ok Delete_Group in \<open>simp add: run_group_def\<close>)
qed

lemma objects_after_ok: "rows_ok H (objects_after H gs)"
proof -
  have "rows_ok H rows \<Longrightarrow> rows_ok H (fold (run_group H) gs rows)" for rows
    by (induction gs arbitrary: rows) (simp_all add: run_group_ok)
  moreover have "rows_ok H (initialize None)" by (simp add: rows_ok_def initialize_def)
  ultimately show ?thesis by (simp add: objects_after_def)
qed

lemma object_read_ok:
  assumes "rows_ok H rows"
  shows "object_read H rows h limit =
    (if \<not> hash_ok h then Inl InvalidIdentity
     else case map_of rows h of
       None \<Rightarrow> Inr None
     | Some bytes \<Rightarrow> if length bytes > limit then Inl TooLarge else Inr (Some bytes))"
  using assms
  by (auto simp: object_read_def object_size_def rows_ok_def check_identity_def hash_ok_def split: option.split)

section \<open>Properties\<close>

text \<open>C34. In every store that groups of insertions and deletions can produce, an accepted group can be
  read back object by object and changes nothing else, a refused one is refused for a bad
  identity or for bytes that are not those of the identity, and no read finds a corrupt body.\<close>

theorem objects_read_back:
  "case insert_batch H (objects_after H gs) objs of
     Inl e \<Rightarrow> \<not> list_all (\<lambda>(h, bytes). hash_ok h \<and> H bytes = h
                  \<and> map_of (objects_after H gs @ objs) h = Some bytes) objs
   | Inr rows \<Rightarrow>
       list_all (\<lambda>(h, bytes). object_read H rows h (length bytes) = Inr (Some bytes)) objs
       \<and> (\<forall>h limit. if h \<in> fst ` set objs then True
            else object_read H rows h limit = object_read H (objects_after H gs) h limit)
       \<and> (\<forall>h limit. object_read H rows h limit \<noteq> Inl Corrupt)"
proof (cases "insert_batch H (objects_after H gs) objs")
  case (Inr rows)
  note ok = objects_after_ok [of H gs]
  note I = insert_batch_Inr [OF ok Inr]
  have hash: "hash_ok h" if "(h, bytes) \<in> set objs" for h bytes
    using I that unfolding rows_ok_def by blast
  show ?thesis
    using I hash
    by (auto simp: Inr object_read_ok [OF conjunct1 [OF I]] object_read_ok [OF ok] list_all_iff split: option.split)
next
  case (Inl e)
  let ?rows = "objects_after H gs"
  have "map_of ?rows \<subseteq>\<^sub>m map_of (?rows @ objs)" by (simp add: map_le_map_add)
  note accepts = insert_batch_accepts [OF objects_after_ok this]
  show ?thesis unfolding Inl sum.case list_all_iff
  proof
    assume "\<forall>(h, bytes) \<in> set objs. hash_ok h \<and> H bytes = h \<and> map_of (?rows @ objs) h = Some bytes"
    from accepts [OF this] Inl show False by (simp add: insert_batch_def)
  qed
qed

text \<open>Enumerating the store page by page leaves nothing out and repeats nothing: a page and the page
  after its last identity are one page of both lengths, in the order of the identities, with the
  lengths of the stored bodies.\<close>

theorem object_pages:
  "(let rows = objects_after H gs; page = object_page rows after m in
    length page \<le> m \<and> sorted_wrt (<) (map fst page)
    \<and> list_all (\<lambda>(h, n). object_size rows h = Inr (Some n) \<and> after < h) page
    \<and> object_page rows after (m + k)
        = page @ (if length page < m then [] else object_page rows (if page = [] then after else fst (last page)) k))"
proof -
  define rows where "rows = objects_after H gs"
  define rest where "rest = filter (\<lambda>(h, _). h > after) rows"
  have ok: "rows_ok H rows" unfolding rows_def by (rule objects_after_ok)
  then have inv: "bt_inv rows" by (simp add: rows_ok_def)
  then have ri: "bt_inv rest" by (simp add: rest_def bt_inv_filter)
  have page: "object_page rows after n = map (\<lambda>(h, bytes). (h, length bytes)) (take n rest)" for n
    by (simp add: object_page_def rest_def)
  have keys: "map fst (object_page rows after n) = map fst (take n rest)" for n
    by (simp add: page case_prod_beta comp_def)
  have "sorted_wrt (<) (map fst (object_page rows after m))"
    using ri unfolding keys by (simp add: bt_inv_def take_map [symmetric] sorted_wrt_take)
  moreover have "object_size rows h = Inr (Some n) \<and> after < h" if p: "(h, n) \<in> set (object_page rows after m)" for h n
  proof -
    from p obtain bytes where "(h, bytes) \<in> set rest" and n: "n = length bytes"
      by (auto simp: page dest: in_set_takeD)
    then have r: "(h, bytes) \<in> set rows" "after < h" by (auto simp: rest_def)
    then have "map_of rows h = Some bytes" using bt_inv_distinct [OF inv] by simp
    then show ?thesis using ok r n by (auto simp: object_size_def rows_ok_def check_identity_def hash_ok_def)
  qed
  moreover have "object_page rows after (m + k) = object_page rows after m
      @ (if length (object_page rows after m) < m then []
         else object_page rows (if object_page rows after m = [] then after else fst (last (object_page rows after m))) k)"
  proof (cases "length rest < m \<or> m = 0")
    case True
    then show ?thesis by (auto simp: page)
  next
    case False
    then have len: "m \<le> length rest" "m \<noteq> 0" by simp_all
    let ?l = "last (take m rest)"
    have last: "take m rest \<noteq> []" using len by auto
    have "rest = take m rest @ drop m rest" by simp
    with ri have parts: "bt_inv (take m rest @ drop m rest)" by simp
    have "filter (\<lambda>(h, _). h > fst ?l) rows = filter (\<lambda>(h, _). h > fst ?l) rest"
    proof -
      have "?l \<in> set rest" using last by (meson in_set_takeD last_in_set)
      then have "after < fst ?l" by (auto simp: rest_def)
      then show ?thesis unfolding rest_def filter_filter by (intro filter_cong) auto
    qed
    also have "\<dots> = filter (\<lambda>(h, _). h > fst ?l) (take m rest) @ filter (\<lambda>(h, _). h > fst ?l) (drop m rest)"
      by (simp flip: filter_append)
    also have "filter (\<lambda>(h, _). h > fst ?l) (take m rest) = []"
    proof -
      have "fst q \<le> fst ?l" if "q \<in> set (take m rest)" for q
      proof -
        have "take m rest = butlast (take m rest) @ [?l]" using last by simp
        moreover have "sorted_wrt (<) (map fst (take m rest))"
          using ri by (simp add: bt_inv_def take_map [symmetric] sorted_wrt_take)
        ultimately have "sorted_wrt (<) (map fst (butlast (take m rest) @ [?l]))"
          and "q \<in> set (butlast (take m rest) @ [?l])" using that by simp_all
        then show ?thesis by (auto simp: sorted_wrt_append)
      qed
      then show ?thesis by (fastforce simp: filter_empty_conv dest: leD)
    qed
    also have "filter (\<lambda>(h, _). h > fst ?l) (drop m rest) = drop m rest"
    proof -
      have "fst ?l < fst q" if "q \<in> set (drop m rest)" for q
      proof -
        have "sorted_wrt (<) (map fst (take m rest) @ map fst (drop m rest))"
          using parts by (simp add: bt_inv_def flip: map_append)
        then have "\<forall>x \<in> fst ` set (take m rest). \<forall>y \<in> fst ` set (drop m rest). x < y"
          by (simp add: sorted_wrt_append)
        then show ?thesis using last_in_set [OF last] that by blast
      qed
      then show ?thesis by (intro filter_True) auto
    qed
    finally have "object_page rows (fst ?l) k = map (\<lambda>(h, bytes). (h, length bytes)) (take k (drop m rest))"
      by (simp add: object_page_def)
    moreover have "fst (last (object_page rows after m)) = fst ?l"
      using last by (simp add: page last_map case_prod_beta)
    ultimately show ?thesis using len by (simp add: page take_add last)
  qed
  moreover have "length (object_page rows after m) \<le> m" by (simp add: page)
  ultimately show ?thesis
    unfolding Let_def rows_def [symmetric] list_all_iff by blast
qed

text \<open>Deleting a group removes exactly its identities and reports how many rows it removed.\<close>

theorem delete_exact:
  "case delete_batch (objects_after H gs) hashes of
     Inl e \<Rightarrow> e = InvalidIdentity \<and> list_ex (\<lambda>h. \<not> hash_ok h) hashes
   | Inr (rows, removed) \<Rightarrow>
       rows = filter (\<lambda>(h, _). h \<notin> set hashes) (objects_after H gs)
       \<and> removed = length (filter (\<lambda>(h, _). h \<in> set hashes) (objects_after H gs))"
proof (cases "delete_batch (objects_after H gs) hashes")
  case (Inl e)
  have "foldE delete_object st hashes = Inl e \<Longrightarrow> e = InvalidIdentity \<and> list_ex (\<lambda>h. \<not> hash_ok h) hashes" for st
    by (induction hashes arbitrary: st) (auto simp: bindE_Inl delete_object_def split: prod.splits)
  with Inl show ?thesis by (simp add: delete_batch_def)
next
  case (Inr y)
  obtain rows k where y: "y = (rows, k)" by fastforce
  have "bt_inv (objects_after H gs)" using objects_after_ok by (simp add: rows_ok_def)
  note del = delete_batch_Inr [OF Inr [unfolded delete_batch_def y] this]
  then have r: "rows = filter (\<lambda>(h, _). h \<notin> set hashes) (objects_after H gs)" by blast
  from del have n: "k + length rows = length (objects_after H gs)" by (elim conjE) (simp only: add_0)
  have "length (filter (\<lambda>(h, _). h \<in> set hashes) (objects_after H gs)) + length rows = length (objects_after H gs)"
    using sum_length_filter_compl [of "\<lambda>(h, _). h \<in> set hashes" "objects_after H gs"]
    by (simp add: r case_prod_unfold)
  with n r show ?thesis by (simp add: Inr y)
qed

text \<open>A group is admitted exactly when the log left to copy is within the mark and the volume holds
  the group twice and the log up to the mark, counted without wrap-around and cut off at the
  largest number; a log above the mark is measured once more first.\<close>

theorem admit_exact:
  "case admit_group measured last_one high_water group_bytes available of
     (answer, now) \<Rightarrow>
       now = (if pending_bytes last_one > high_water then measured else last_one)
       \<and> (answer = None \<longleftrightarrow> pending_bytes now \<le> high_water
            \<and> min (2 ^ 64 - 1) (2 * unat group_bytes + (unat high_water - unat (pending_bytes now))) \<le> unat available)
       \<and> (answer = Some Log \<longleftrightarrow> pending_bytes now > high_water)"
proof -
  have top: "unat (- 1 :: u64) = 2 ^ 64 - 1" by (simp add: unsigned_minus_1_eq_mask mask_eq_exp_minus_1)
  have mul: "unat (saturating_mul a 2) = min (2 ^ 64 - 1) (2 * unat a)" for a
  proof (cases "unat a * 2 < 2 ^ 64")
    case True
    then have "unat (a * 2) = unat a * 2" by (simp add: unat_word_ariths)
    with True show ?thesis by (simp add: saturating_mul_def)
  next
    case False
    then show ?thesis by (simp add: saturating_mul_def top)
  qed
  have add: "unat (saturating_add a b) = min (2 ^ 64 - 1) (unat a + unat b)" for a b
    by (simp add: saturating_add_def top unat_add_no_wrap)
  have sub: "unat (saturating_sub a b) = unat a - unat b" for a b
    by (auto simp: saturating_sub_def word_le_nat_alt unat_sub)
  show ?thesis
    by (auto simp: admit_group_def Let_def word_less_nat_alt word_le_nat_alt mul add sub not_less)
qed

end
