(* ===== verification/Body.thy ===== *)
theory Body
  imports Io
begin

text \<open>
  Compressed request and reply bodies, \<^verbatim>\<open>crates/sync-wire/src/body.rs\<close>. The compressor is the
  zstd library: \<open>zstd_compress\<close> is its bulk compression at the level and window the code sets,
  \<open>zstd_open\<close> creates a decoder of one frame, \<open>zstd_read\<close> is what reading at most that many bytes of
  the frame's content gives, and \<open>zstd_left\<close> what is left of the input after that reading.
\<close>

record zstd =
  zstd_compress :: "bytes \<Rightarrow> bytes option"
  zstd_open :: "bytes \<Rightarrow> bool"
  zstd_read :: "bytes \<Rightarrow> nat \<Rightarrow> bytes option"
  zstd_left :: "bytes \<Rightarrow> nat \<Rightarrow> bytes"

definition ZSTD :: string where "ZSTD = ''zstd''"
definition MIN_ENCODED_BYTES :: nat where "MIN_ENCODED_BYTES = 1024"
definition HEADER_MARGIN :: nat where "HEADER_MARGIN = 64"
definition MAGIC :: bytes where "MAGIC = [0x28, 0xb5, 0x2f, 0xfd]"

text \<open>The first two values of the iterator decide.\<close>

definition marked :: "bytes list \<Rightarrow> bool result" where
  "marked values =
     (case (get_at values 0, get_at values 1) of
        (None, _) \<Rightarrow> Inr False
      | (Some v, None) \<Rightarrow> if v = as_bytes ZSTD then Inr True else Inl (WireError ''invalid-body-encoding'')
      | _ \<Rightarrow> Inl (WireError ''invalid-body-encoding''))"

definition accepted :: "bytes list \<Rightarrow> bool" where
  "accepted values =
     (case (get_at values 0, get_at values 1) of (Some v, None) \<Rightarrow> v = as_bytes ZSTD | _ \<Rightarrow> False)"

definition body_encode :: "zstd \<Rightarrow> bytes \<Rightarrow> bytes option result" where
  "body_encode Z raw =
     (if length raw < MIN_ENCODED_BYTES then Inr None
      else
        bindE (ok_or (zstd_compress Z raw) (WireError ''body-encoding-failed'')) (\<lambda>encoded.
        if length encoded + HEADER_MARGIN \<ge> length raw then Inr None else Inr (Some encoded)))"

definition body_decode :: "zstd \<Rightarrow> bytes \<Rightarrow> nat \<Rightarrow> bytes result" where
  "body_decode Z encoded limit =
     (if length encoded > limit then Inl (WireError ''body-too-large'')
      else if take 4 encoded \<noteq> MAGIC then Inl (WireError ''invalid-body-encoding'')
      else if \<not> zstd_open Z encoded then Inl (WireError ''invalid-body-encoding'')
      else
        bindE (ok_or (zstd_read Z encoded (limit + 1)) (WireError ''invalid-body-encoding'')) (\<lambda>raw.
        if length raw > limit then Inl (WireError ''body-too-large'')
        else if zstd_left Z encoded (limit + 1) \<noteq> [] then Inl (WireError ''invalid-body-encoding'')
        else Inr raw))"

text \<open>What the library promises of a frame it made: it starts with the magic number, opens, and reading
  more than its content gives the content and consumes the frame.\<close>

definition frame_of :: "zstd \<Rightarrow> bytes \<Rightarrow> bytes \<Rightarrow> bool" where
  "frame_of Z raw encoded \<longleftrightarrow> zstd_compress Z raw = Some encoded \<and> take 4 encoded = MAGIC \<and> zstd_open Z encoded
     \<and> (\<forall>n > length raw. zstd_read Z encoded n = Some raw \<and> zstd_left Z encoded n = [])"

section \<open>Properties\<close>

text \<open>A body travels intact: one the sender encodes is smaller than the raw body by more than the
  margin and decodes, under any limit the raw body fits in, to that body.\<close>

theorem body_roundtrip:
  assumes "body_encode Z raw = Inr (Some encoded)" and "frame_of Z raw encoded" and "length raw \<le> limit"
  shows "body_decode Z encoded limit = Inr raw \<and> length encoded + HEADER_MARGIN < length raw"
  using assms by (auto simp: body_encode_def body_decode_def frame_of_def bindE_Inr split: if_splits)

text \<open>A stand-in that drops a run of zeros.\<close>

definition sample_zstd :: zstd where
  "sample_zstd = \<lparr>zstd_compress = (\<lambda>_. Some MAGIC), zstd_open = (\<lambda>_. True),
     zstd_read = (\<lambda>_ n. Some (take n (replicate 2000 0))), zstd_left = (\<lambda>_ n. if 2000 < n then [] else [0])\<rparr>"

lemma body_roundtrip_witness:
  "body_decode sample_zstd MAGIC 2000 = Inr (replicate 2000 0) \<and> length MAGIC + HEADER_MARGIN < 2000"
proof -
  have "body_encode sample_zstd (replicate 2000 0) = Inr (Some MAGIC)"
    by (simp add: body_encode_def sample_zstd_def MAGIC_def HEADER_MARGIN_def MIN_ENCODED_BYTES_def)
  moreover have "frame_of sample_zstd (replicate 2000 0) MAGIC"
    by (simp add: frame_of_def sample_zstd_def MAGIC_def)
  ultimately show ?thesis
    using body_roundtrip [of sample_zstd "replicate 2000 0" MAGIC 2000] by simp
qed

text \<open>No body can make its reader hold more than the limit: what is decoded is at most as long as
  the limit, came from an input within the limit that starts with the magic number, and was
  the whole input.\<close>

theorem body_decode_bounded:
  "case body_decode Z encoded limit of
     Inl e \<Rightarrow> e \<noteq> Panic
   | Inr raw \<Rightarrow> length raw \<le> limit \<and> length encoded \<le> limit \<and> take 4 encoded = MAGIC
       \<and> zstd_read Z encoded (limit + 1) = Some raw \<and> zstd_left Z encoded (limit + 1) = []"
  by (auto simp: body_decode_def ok_or_def bindE_Inr bindE_Inl split: sum.split option.split if_splits)

end
