(* ===== verification/Records_Base.thy ===== *)
theory Records_Base
  imports Payload_Value Stamp Serde
begin

text \<open>
  What the codecs of \<^verbatim>\<open>crates/external-storage-format/src/logical_records.rs\<close> share: their error,
  the checks of integers, digests and object descriptors, and encoded objects. The SHA-256 of a
  byte string in hexadecimal is the parameter \<open>H\<close>.
\<close>

datatype record_error = RecordError string | Record_Panic

type_synonym 'a recorded = "record_error + 'a"

definition invalid :: "string \<Rightarrow> 'a recorded" where
  "invalid message = Inl (RecordError message)"

definition JAVASCRIPT_MAX_SAFE_INTEGER :: u64 where "JAVASCRIPT_MAX_SAFE_INTEGER = 9007199254740991"

definition EMPTY_SHA256 :: string where
  "EMPTY_SHA256 = ''e3b0c44298fc1c149afbf4c8996fb92427ae41e4649b934ca495991b7852b855''"

definition LOGICAL_MESSAGE_PAGE_SIZE :: nat where "LOGICAL_MESSAGE_PAGE_SIZE = 128"

definition validate_safe_integer :: "u64 \<Rightarrow> string \<Rightarrow> unit recorded" where
  "validate_safe_integer value description =
     (if value > JAVASCRIPT_MAX_SAFE_INTEGER
      then invalid (description @ '' exceeds the JavaScript safe integer limit'') else Inr ())"

definition validate_record_hash :: "string \<Rightarrow> string \<Rightarrow> unit recorded" where
  "validate_record_hash value description =
     (if \<not> (length value = 64 \<and> list_all is_lower_hex value)
      then invalid (description @ '' must be a lowercase SHA-256'') else Inr ())"

definition validate_object_descriptor :: "string \<Rightarrow> u64 \<Rightarrow> unit recorded" where
  "validate_object_descriptor hash sz =
     bindE (validate_record_hash hash ''object hash'') (\<lambda>_.
     bindE (validate_safe_integer sz ''object size'') (\<lambda>_.
     if (sz = 0) \<noteq> (hash = EMPTY_SHA256) then invalid ''empty object must use the SHA-256 of empty bytes''
     else Inr ()))"

record encoded =
  eo_hash :: string
  eo_size :: u64
  eo_bytes :: bytes

definition encoded_object :: "(bytes \<Rightarrow> string) \<Rightarrow> bytes \<Rightarrow> encoded recorded" where
  "encoded_object H bs =
     (if length bs \<ge> 2 ^ 64 then invalid ''logical object is too large''
      else
        let n = of_nat (length bs) in
        bindE (validate_safe_integer n ''logical object size'') (\<lambda>_.
        Inr \<lparr>eo_hash = H bs, eo_size = n, eo_bytes = bs\<rparr>))"

text \<open>\<^verbatim>\<open>map_err(|error| invalid(error.to_string()))\<close> on an error of the wire crate.\<close>

definition record_of_wire :: "'a result \<Rightarrow> 'a recorded" where
  "record_of_wire m =
     (case m of Inr x \<Rightarrow> Inr x | Inl (WireError c) \<Rightarrow> invalid c | Inl Panic \<Rightarrow> Inl Record_Panic)"

lemma invalid_not [simp]: "invalid m \<noteq> Inr x" "invalid m \<noteq> Inl Record_Panic"
  by (simp_all add: invalid_def)

lemma record_of_wire_Inr [simp]: "record_of_wire m = Inr x \<longleftrightarrow> m = Inr x"
  by (auto simp: record_of_wire_def split: sum.splits wire_error.splits)

lemma validate_safe_integer_Inr [simp]: "validate_safe_integer v d = Inr u \<longleftrightarrow> v \<le> JAVASCRIPT_MAX_SAFE_INTEGER"
  by (auto simp: validate_safe_integer_def)

lemma validate_record_hash_Inr [simp]: "validate_record_hash v d = Inr u \<longleftrightarrow> hash_ok v"
  by (auto simp: validate_record_hash_def hash_ok_def)

lemma record_no_panic [simp]:
  "validate_safe_integer v d \<noteq> Inl Record_Panic" "validate_record_hash h d \<noteq> Inl Record_Panic"
  "encoded_object H bs \<noteq> Inl Record_Panic"
  by (auto simp: validate_safe_integer_def validate_record_hash_def encoded_object_def bindE_Inl Let_def)

lemma unat_safe: "unat JAVASCRIPT_MAX_SAFE_INTEGER = 2 ^ 53 - 1"
  by (simp add: JAVASCRIPT_MAX_SAFE_INTEGER_def)

lemma encoded_object_Inr:
  "encoded_object H bs = Inr obj \<longleftrightarrow>
     length bs < 2 ^ 53 \<and> obj = \<lparr>eo_hash = H bs, eo_size = of_nat (length bs), eo_bytes = bs\<rparr>"
proof -
  have "of_nat (length bs) \<le> JAVASCRIPT_MAX_SAFE_INTEGER \<longleftrightarrow> length bs < 2 ^ 53" if "length bs < 2 ^ 64"
    using that unat_of_nat_64 [of "length bs"] by (auto simp: word_le_nat_alt unat_safe)
  then show ?thesis by (auto simp: encoded_object_def Let_def bindE_Inr)
qed

end
