(* ===== verification/Message_Pages.thy ===== *)
theory Message_Pages
  imports Records_Base
begin

text \<open>
  Content-defined message pages, \<^verbatim>\<open>crates/external-storage-format/src/message_pages.rs\<close>: a long
  list of messages is stored as pages cut by the digests and sizes of the messages, an ordered
  manifest names the pages, and \<open>repage\<close> rebuilds only the pages an edit affects. The caller's
  \<^verbatim>\<open>read\<close> closure, with an error type of its own, is an argument.
\<close>

definition MAX_PAGE_BYTES :: nat where "MAX_PAGE_BYTES = 256 * 1024"
definition MIN_PAGE_MESSAGES :: nat where "MIN_PAGE_MESSAGES = 16"
definition MANIFEST_SCHEMA :: string where "MANIFEST_SCHEMA = ''risunest.message-manifest/v1''"

definition PAGE_PREFIX :: bytes where
  "PAGE_PREFIX = as_bytes ([CHR ''{'', CHR 0x22] @ ''schema'' @ [CHR 0x22, CHR '':'', CHR 0x22]
     @ ''risunest.logical-message-page/v1'' @ [CHR 0x22, CHR '','', CHR 0x22] @ ''messages''
     @ [CHR 0x22, CHR '':'', CHR ''[''])"

definition PAGE_SUFFIX :: bytes where "PAGE_SUFFIX = as_bytes '']}''"

record message_hash =
  mh_hash :: string
  mh_length :: u64

record manifest_page =
  mp_hash :: string
  mp_count :: u32
  mp_length :: u64

record manifest =
  mm_schema :: string
  mm_count :: u64
  mm_pages :: "manifest_page list"

record page_boundary =
  pb_start :: nat
  pb_page :: manifest_page

record page_index =
  pi_messages :: "message_hash list"
  pi_pages :: "page_boundary list"

definition message_hash_from :: "(bytes \<Rightarrow> string) \<Rightarrow> bytes \<Rightarrow> message_hash" where
  "message_hash_from H bs = \<lparr>mh_hash = H bs, mh_length = of_nat (length bs)\<rparr>"

definition mh_boundary :: "message_hash \<Rightarrow> bool recorded" where
  "mh_boundary m =
     bindE (validate_record_hash (mh_hash m) ''message hash'') (\<lambda>_.
     case hex_number 0 (take 4 (mh_hash m)) of
       None \<Rightarrow> invalid ''invalid message hash''
     | Some first \<Rightarrow> Inr (and (of_nat first :: 16 word) 31 = 0))"

section \<open>The manifest\<close>

definition manifest_step :: "u64 \<Rightarrow> manifest_page \<Rightarrow> u64 recorded" where
  "manifest_step cnt p =
     bindE (validate_record_hash (mp_hash p) ''message page hash'') (\<lambda>_.
     if mp_count p = 0 \<or> unat (mp_count p) > LOGICAL_MESSAGE_PAGE_SIZE
        \<or> unat (mp_length p) < length PAGE_PREFIX + length PAGE_SUFFIX
        \<or> (unat (mp_length p) > MAX_PAGE_BYTES \<and> mp_count p \<noteq> 1)
     then invalid ''invalid message manifest page''
     else ok_or (checked_add cnt (ucast (mp_count p))) (RecordError ''message count overflow''))"

definition manifest_validate :: "manifest \<Rightarrow> unit recorded" where
  "manifest_validate m =
     (if mm_schema m \<noteq> MANIFEST_SCHEMA then invalid ''unsupported message manifest schema''
      else
        bindE (foldE manifest_step 0 (mm_pages m)) (\<lambda>cnt.
        if cnt \<noteq> mm_count m then invalid ''message manifest count mismatch'' else Inr ()))"

definition manifest_page_value :: "manifest_page \<Rightarrow> json" where
  "manifest_page_value p = struct_value
     [(''hash'', JString (mp_hash p)), (''messageCount'', JString (decimal_string (ucast (mp_count p)))),
      (''byteLength'', JString (decimal_string (mp_length p)))]"

definition manifest_value :: "manifest \<Rightarrow> json" where
  "manifest_value m = struct_value
     [(''schema'', JString (mm_schema m)), (''messageCount'', JString (decimal_string (mm_count m))),
      (''pages'', JArray (map manifest_page_value (mm_pages m)))]"

definition decimal_field :: "json option \<Rightarrow> u64 option" where
  "decimal_field m =
     (case as_string m of None \<Rightarrow> None | Some s \<Rightarrow> (case decimal_u64 s of Inl _ \<Rightarrow> None | Inr n \<Rightarrow> Some n))"

definition manifest_page_from :: "json \<Rightarrow> manifest_page option" where
  "manifest_page_from v =
     (case struct_fields [''hash'', ''messageCount'', ''byteLength''] v of
        Some [h, c, l] \<Rightarrow>
          (case (as_string h, decimal_field c, decimal_field l) of
             (Some h, Some c, Some l) \<Rightarrow>
               if unat c < 2 ^ 32 then Some \<lparr>mp_hash = h, mp_count = ucast c, mp_length = l\<rparr> else None
           | _ \<Rightarrow> None)
      | _ \<Rightarrow> None)"

definition manifest_from :: "json \<Rightarrow> manifest option" where
  "manifest_from v =
     (case struct_fields [''schema'', ''messageCount'', ''pages''] v of
        Some [s, c, ps] \<Rightarrow>
          (case (as_string s, decimal_field c, as_list manifest_page_from ps) of
             (Some s, Some c, Some ps) \<Rightarrow> Some \<lparr>mm_schema = s, mm_count = c, mm_pages = ps\<rparr>
           | _ \<Rightarrow> None)
      | _ \<Rightarrow> None)"

definition manifest_encode :: "ext \<Rightarrow> manifest \<Rightarrow> encoded recorded" where
  "manifest_encode X m =
     bindE (manifest_validate m) (\<lambda>_.
     bindE (record_of_wire (payload_encode X (manifest_value m))) (encoded_object (sha256 X)))"

definition manifest_decode :: "ext \<Rightarrow> bytes \<Rightarrow> manifest recorded" where
  "manifest_decode X bs =
     bindE (ok_or (Option.bind (from_slice X bs) manifest_from) (RecordError ''invalid message manifest'')) (\<lambda>m.
     bindE (manifest_encode X m) (\<lambda>obj.
     if eo_bytes obj \<noteq> bs then invalid ''noncanonical message manifest'' else Inr m))"

section \<open>The index\<close>

definition index_manifest :: "page_index \<Rightarrow> manifest" where
  "index_manifest ix =
     \<lparr>mm_schema = MANIFEST_SCHEMA, mm_count = of_nat (length (pi_messages ix)), mm_pages = map pb_page (pi_pages ix)\<rparr>"

definition start_step :: "nat \<Rightarrow> page_boundary \<Rightarrow> nat recorded" where
  "start_step start b =
     (if pb_start b \<noteq> start then invalid ''noncontiguous message page index''
      else Inr (start + unat (mp_count (pb_page b))))"

definition page_index_validate :: "page_index \<Rightarrow> unit recorded" where
  "page_index_validate ix =
     bindE (manifest_validate (index_manifest ix)) (\<lambda>_.
     bindE (foldE start_step 0 (pi_pages ix)) (\<lambda>_.
     foldE (\<lambda>_ m. bindE (mh_boundary m) (\<lambda>_. Inr ())) () (pi_messages ix)))"

section \<open>Paging\<close>

text \<open>\<^verbatim>\<open>E: From<LogicalRecordError>\<close>: an error of the codec or of the caller's \<^verbatim>\<open>read\<close>.\<close>

datatype 'e page_error = Logical record_error | Caller 'e

definition lift_record :: "'a recorded \<Rightarrow> 'e page_error + 'a" where
  "lift_record m = (case m of Inl e \<Rightarrow> Inl (Logical e) | Inr x \<Rightarrow> Inr x)"

definition caller :: "'e + 'a \<Rightarrow> 'e page_error + 'a" where
  "caller m = (case m of Inl e \<Rightarrow> Inl (Caller e) | Inr x \<Rightarrow> Inr x)"

text \<open>The condition \<^verbatim>\<open>cut\<close> after a message was appended, its operands in their order.\<close>

definition cut_here :: "message_hash list \<Rightarrow> nat \<Rightarrow> nat \<Rightarrow> nat \<Rightarrow> bool recorded" where
  "cut_here messages start position len =
     (let cnt = position - start in
      if cnt = LOGICAL_MESSAGE_PAGE_SIZE then Inr True
      else
        bindE (if cnt \<ge> MIN_PAGE_MESSAGES then mh_boundary (messages ! (position - 1)) else Inr False) (\<lambda>at_boundary.
        Inr (at_boundary \<or> len + length PAGE_SUFFIX > MAX_PAGE_BYTES \<or> position = length messages
             \<or> len + 1 + unat (mh_length (messages ! position)) + length PAGE_SUFFIX > MAX_PAGE_BYTES)))"

function page_loop ::
  "(bytes \<Rightarrow> string) \<Rightarrow> (nat \<Rightarrow> 'e + bytes) \<Rightarrow> message_hash list \<Rightarrow> nat \<Rightarrow> nat \<Rightarrow> bytes
    \<Rightarrow> 'e page_error + (nat \<times> bytes)" where
  "page_loop H read messages start position bs =
     bindE (caller (read position)) (\<lambda>body.
     bindE (ok_or (get_at messages position) (Logical Record_Panic)) (\<lambda>expected.
     if message_hash_from H body \<noteq> expected then lift_record (invalid ''message body hash mismatch'')
     else
       let bs' = bs @ (if position > start then [byte CHR '','']  else []) @ body in
       bindE (lift_record (cut_here messages start (position + 1) (length bs'))) (\<lambda>cut.
       if cut then Inr (position + 1, bs')
       else page_loop H read messages start (position + 1) bs')))"
  by pat_completeness auto
termination
  by (relation "measure (\<lambda>(H, read, messages, start, position, bs). length messages - position)")
    (auto simp: get_at_def split: if_splits)

declare page_loop.simps [simp del]

lemma page_loop_advances: "page_loop H read messages start position bs = Inr (stop, bs') \<Longrightarrow> position < stop"
proof (induction H read messages start position bs rule: page_loop.induct)
  case (1 H read messages start position bs)
  from "1.prems" obtain body where body: "caller (read position) = Inr body"
    and expected: "get_at messages position = Some (message_hash_from H body)"
    by (subst (asm) page_loop.simps) (auto simp: bindE_Inr lift_record_def split: if_splits sum.splits)
  let ?bs = "bs @ (if position > start then [byte CHR '','']  else []) @ body"
  from "1.prems" body expected obtain cut where
    cut: "lift_record (cut_here messages start (position + 1) (length ?bs)) = (Inr cut :: 'a page_error + bool)"
    and rest: "(if cut then Inr (position + 1, ?bs) else page_loop H read messages start (position + 1) ?bs)
      = Inr (stop, bs')"
    by (subst (asm) page_loop.simps) (simp add: bindE_Inr Let_def del: get_at_Some, blast)
  show ?case
  proof (cases cut)
    case False
    with "1.IH" [OF body _ _ refl cut False] rest expected show ?thesis by (simp add: ok_or_def)
  qed (use rest in simp)
qed

text \<open>The pages of the old index from a boundary on, moved to their new positions.\<close>

definition shift_boundary :: "nat \<Rightarrow> nat \<Rightarrow> page_boundary \<Rightarrow> 'e page_error + page_boundary" where
  "shift_boundary replaced_end replacement_end b =
     (if pb_start b < replaced_end then Inl (Logical Record_Panic)
      else Inr (b\<lparr>pb_start := replacement_end + (pb_start b - replaced_end)\<rparr>))"

text \<open>\<^verbatim>\<open>binary_search_by_key\<close> on the starts, which ascend.\<close>

definition page_at :: "page_boundary list \<Rightarrow> nat \<Rightarrow> nat option" where
  "page_at ps start =
     (let before = length (takeWhile (\<lambda>p. pb_start p < start) ps) in
      if before < length ps \<and> pb_start (ps ! before) = start then Some before else None)"

definition new_boundary :: "nat \<Rightarrow> nat \<Rightarrow> encoded \<Rightarrow> page_boundary" where
  "new_boundary start stop obj =
     \<lparr>pb_start = start, pb_page = \<lparr>mp_hash = eo_hash obj, mp_count = of_nat (stop - start), mp_length = eo_size obj\<rparr>\<rparr>"

function repage_loop ::
  "(bytes \<Rightarrow> string) \<Rightarrow> (nat \<Rightarrow> 'e + bytes) \<Rightarrow> page_boundary list \<Rightarrow> message_hash list \<Rightarrow> nat \<Rightarrow> nat \<Rightarrow> nat
    \<Rightarrow> page_boundary list \<Rightarrow> encoded list \<Rightarrow> 'e page_error + (page_boundary list \<times> encoded list)" where
  "repage_loop H read old messages replaced_end replacement_end position ps objs =
     (if position < length messages then
        case (if position \<ge> replacement_end then page_at old (replaced_end + (position - replacement_end)) else None) of
          Some k \<Rightarrow>
            bindE (mapE (shift_boundary replaced_end replacement_end) (drop k old)) (\<lambda>moved. Inr (ps @ moved, objs))
        | None \<Rightarrow>
            bindE (page_loop H read messages position position PAGE_PREFIX) (\<lambda>(stop, bs).
            bindE (lift_record (encoded_object H (bs @ PAGE_SUFFIX))) (\<lambda>obj.
            repage_loop H read old messages replaced_end replacement_end stop
              (ps @ [new_boundary position stop obj]) (objs @ [obj])))
      else Inr (ps, objs))"
  by pat_completeness auto
termination
  by (relation "measure (\<lambda>(H, read, old, messages, e, r, position, ps, objs). length messages - position)")
    (auto dest!: page_loop_advances)

declare repage_loop.simps [simp del]

definition repage ::
  "(bytes \<Rightarrow> string) \<Rightarrow> page_index \<Rightarrow> message_hash list \<Rightarrow> nat \<times> nat \<Rightarrow> nat \<Rightarrow> (nat \<Rightarrow> 'e + bytes)
    \<Rightarrow> 'e page_error + (page_index \<times> encoded list)" where
  "repage H previous messages replaced replacement_end read =
     bindE (lift_record (page_index_validate previous)) (\<lambda>_.
     let s = fst replaced; e = snd replaced; old = pi_messages previous in
     if s > e \<or> e > length old \<or> replacement_end < s \<or> replacement_end > length messages
        \<or> take s old \<noteq> take s messages \<or> drop e old \<noteq> drop replacement_end messages
     then lift_record (invalid ''message page affected range does not match unchanged regions'')
     else
       let before = length (takeWhile (\<lambda>p. pb_start p < s) (pi_pages previous)) - 1;
           position = (case get_at (pi_pages previous) before of None \<Rightarrow> 0 | Some p \<Rightarrow> pb_start p) in
       bindE (repage_loop H read (pi_pages previous) messages e replacement_end position
                (take before (pi_pages previous)) []) (\<lambda>(ps, objs).
       let ix = \<lparr>pi_messages = messages, pi_pages = ps\<rparr> in
       bindE (lift_record (page_index_validate ix)) (\<lambda>_. Inr (ix, objs))))"

section \<open>What the pages are\<close>

text \<open>The bytes of a page of these bodies, and how many messages the first page of the rest of a list holds.\<close>

definition page_bytes :: "bytes list \<Rightarrow> bytes" where
  "page_bytes bodies = PAGE_PREFIX @ join bodies @ PAGE_SUFFIX"

definition page_full :: "(bytes \<Rightarrow> string) \<Rightarrow> bytes list \<Rightarrow> nat \<Rightarrow> bool" where
  "page_full H rest n \<longleftrightarrow>
     n = LOGICAL_MESSAGE_PAGE_SIZE
     \<or> n \<ge> MIN_PAGE_MESSAGES \<and> mh_boundary (message_hash_from H (rest ! (n - 1))) = Inr True
     \<or> length (page_bytes (take n rest)) > MAX_PAGE_BYTES
     \<or> n = length rest
     \<or> length (page_bytes (take n rest)) + 1 + length (rest ! n) > MAX_PAGE_BYTES"

function page_count :: "(bytes \<Rightarrow> string) \<Rightarrow> bytes list \<Rightarrow> nat \<Rightarrow> nat" where
  "page_count H rest n = (if n \<ge> length rest \<or> page_full H rest n then n else page_count H rest (Suc n))"
  by pat_completeness auto
termination by (relation "measure (\<lambda>(H, rest, n). length rest - n)") auto

declare page_count.simps [simp del]

definition page_of :: "(bytes \<Rightarrow> string) \<Rightarrow> nat \<Rightarrow> bytes list \<Rightarrow> page_boundary" where
  "page_of H start bodies =
     \<lparr>pb_start = start,
      pb_page = \<lparr>mp_hash = H (page_bytes bodies), mp_count = of_nat (length bodies),
                 mp_length = of_nat (length (page_bytes bodies))\<rparr>\<rparr>"

lemma page_count_ge: "n \<le> page_count H rest n"
  by (induction H rest n rule: page_count.induct) (subst page_count.simps, auto)

function paging :: "(bytes \<Rightarrow> string) \<Rightarrow> nat \<Rightarrow> bytes list \<Rightarrow> page_boundary list" where
  "paging H start rest =
     (if rest = [] then []
      else let n = page_count H rest 1 in page_of H start (take n rest) # paging H (start + n) (drop n rest))"
  by pat_completeness auto
termination
  by (relation "measure (\<lambda>(H, start, rest). length rest)")
    (use page_count_ge [of 1] in \<open>auto simp: Suc_le_eq intro!: diff_less\<close>)

declare paging.simps [simp del]

definition index_of_bodies :: "(bytes \<Rightarrow> string) \<Rightarrow> bytes list \<Rightarrow> page_index" where
  "index_of_bodies H bodies =
     \<lparr>pi_messages = map (message_hash_from H) bodies, pi_pages = paging H 0 bodies\<rparr>"

section \<open>Lemmas\<close>

subsection \<open>Cuts\<close>

lemma hex_number_total: "list_all is_lower_hex s \<Longrightarrow> \<exists>n. hex_number acc s = Some n"
  by (induction s arbitrary: acc) (auto simp: hex_value_def is_lower_hex_def)

lemma boundary_ok: "digest_fun H \<Longrightarrow> \<exists>c. mh_boundary (message_hash_from H b) = Inr c"
  using hex_number_total [of "take 4 (H b)" 0]
  by (auto simp: mh_boundary_def message_hash_from_def digest_fun_def hash_ok_def list_all_iff bindE_Inr
      dest!: in_set_takeD split: option.split)

lemma join_take_Suc: "n < length xs \<Longrightarrow> join (take (Suc n) xs) = join (take n xs) @ separator n @ xs ! n"
  by (simp add: take_Suc_conv_app_nth join_snoc min_def)

lemma length_page_bytes: "length (page_bytes bodies) = length (PAGE_PREFIX @ join bodies) + length PAGE_SUFFIX"
  by (simp add: page_bytes_def)

lemma cut_here_full:
  assumes "digest_fun H" and "list_all (\<lambda>b. length b < 2 ^ 64) bodies" and "bodies = pre @ rest"
    and "0 < n" and "n \<le> length rest" and "len = length (PAGE_PREFIX @ join (take n rest))"
  shows "cut_here (map (message_hash_from H) bodies) (length pre) (length pre + n) len = Inr (page_full H rest n)"
proof -
  have body: "map (message_hash_from H) bodies ! (length pre + k) = message_hash_from H (rest ! k)" if "k < length rest" for k
    using that assms(3) by (simp add: nth_append)
  have prev: "map (message_hash_from H) bodies ! (length pre + n - 1) = message_hash_from H (rest ! (n - 1))"
    using body [of "n - 1"] assms(4,5) by simp
  have next_len: "unat (mh_length (map (message_hash_from H) bodies ! (length pre + n))) = length (rest ! n)" if "n < length rest"
  proof -
    have "rest ! n \<in> set bodies" using that assms(3) by simp
    then have "length (rest ! n) < 2 ^ 64" using assms(2) by (auto simp: list_all_iff)
    then show ?thesis unfolding body [OF that] message_hash_from_def by (simp add: unat_of_nat_64)
  qed
  have full: "page_full H rest n \<longleftrightarrow> n = LOGICAL_MESSAGE_PAGE_SIZE
     \<or> (n \<ge> MIN_PAGE_MESSAGES \<and> mh_boundary (message_hash_from H (rest ! (n - 1))) = Inr True
     \<or> len + length PAGE_SUFFIX > MAX_PAGE_BYTES \<or> n = length rest
     \<or> len + length PAGE_SUFFIX + 1 + length (rest ! n) > MAX_PAGE_BYTES)"
    by (simp add: page_full_def length_page_bytes assms(6))
  have len: "length (map (message_hash_from H) bodies) = length pre + length rest" using assms(3) by simp
  obtain c where c: "mh_boundary (message_hash_from H (rest ! (n - 1))) = Inr c" using boundary_ok [OF assms(1)] by blast
  show ?thesis
  proof (cases "n = length rest")
    case True
    then show ?thesis unfolding cut_here_def full Let_def prev c len by simp
  next
    case False
    then have "unat (mh_length (map (message_hash_from H) bodies ! (length pre + n))) = length (rest ! n)"
      using next_len assms(5) by simp
    with False show ?thesis unfolding cut_here_def full Let_def prev c len by (simp add: ac_simps)
  qed
qed

lemma page_count_le: "n \<le> length rest \<Longrightarrow> page_count H rest n \<le> length rest"
  by (induction H rest n rule: page_count.induct) (subst page_count.simps, auto)

lemma page_loop_ok:
  assumes "digest_fun H" and "list_all (\<lambda>b. length b < 2 ^ 64) bodies" and "bodies = pre @ rest"
    and "\<forall>i < length bodies. read i = Inr (bodies ! i)"
  shows "n < length rest \<Longrightarrow>
    page_loop H read (map (message_hash_from H) bodies) (length pre) (length pre + n) (PAGE_PREFIX @ join (take n rest))
      = Inr (length pre + page_count H rest (Suc n), PAGE_PREFIX @ join (take (page_count H rest (Suc n)) rest))"
proof (induction "length rest - n" arbitrary: n rule: less_induct)
  case less
  have r: "read (length pre + n) = Inr (rest ! n)" and
    g: "get_at (map (message_hash_from H) bodies) (length pre + n) = Some (message_hash_from H (rest ! n))"
    using less.prems assms(3,4) by (simp_all add: nth_append get_at_def)
  have bs: "(PAGE_PREFIX @ join (take n rest)) @ (if length pre + n > length pre then [byte CHR '','']  else []) @ rest ! n
      = PAGE_PREFIX @ join (take (Suc n) rest)"
    using less.prems by (simp add: join_take_Suc separator_def)
  have cut: "cut_here (map (message_hash_from H) bodies) (length pre) (length pre + n + 1)
      (length (PAGE_PREFIX @ join (take (Suc n) rest))) = Inr (page_full H rest (Suc n))"
    using cut_here_full [OF assms(1-3), of "Suc n"] less.prems by simp
  show ?case
  proof (cases "page_full H rest (Suc n)")
    case True
    then have "page_count H rest (Suc n) = Suc n" by (subst page_count.simps) simp
    with True show ?thesis
      by (subst page_loop.simps) (simp only: r g bs cut caller_def lift_record_def ok_or_simps bindE_simps sum.case Let_def simp_thms if_False if_True, simp)
  next
    case False
    then have more: "Suc n < length rest" using less.prems by (auto simp: page_full_def)
    with False have "page_count H rest (Suc n) = page_count H rest (Suc (Suc n))"
      by (subst page_count.simps) simp
    with False less.hyps [OF _ more] less.prems show ?thesis
      by (subst page_loop.simps) (simp only: r g bs cut caller_def lift_record_def ok_or_simps bindE_simps sum.case Let_def simp_thms if_False if_True, simp)
  qed
qed

subsection \<open>The pages of a list\<close>

lemma paging_simps:
  "paging H a [] = []"
  "xs \<noteq> [] \<Longrightarrow> paging H a xs = page_of H a (take (page_count H xs (Suc 0)) xs)
     # paging H (a + page_count H xs (Suc 0)) (drop (page_count H xs (Suc 0)) xs)"
  by (subst paging.simps, simp add: Let_def)+

lemma paging_start_ge: "b \<in> set (paging H a xs) \<Longrightarrow> a \<le> pb_start b"
proof (induction H a xs rule: paging.induct)
  case (1 H a xs)
  then show ?case by (cases "xs = []") (force simp: paging_simps page_of_def)+
qed

lemma paging_shift: "map (\<lambda>b. b\<lparr>pb_start := pb_start b + d\<rparr>) (paging H a xs) = paging H (a + d) xs"
proof (induction H a xs rule: paging.induct)
  case (1 H a xs)
  then show ?case by (cases "xs = []") (simp_all add: paging_simps page_of_def ac_simps)
qed

lemma paging_drop:
  "k < length (paging H a xs) \<Longrightarrow> pb_start (paging H a xs ! k) = st \<Longrightarrow>
     a \<le> st \<and> drop k (paging H a xs) = paging H st (drop (st - a) xs)"
proof (induction H a xs arbitrary: k rule: paging.induct)
  case (1 H a xs)
  then have ne: "xs \<noteq> []" by (auto simp: paging_simps)
  show ?case
  proof (cases k)
    case 0
    with 1 ne show ?thesis by (simp add: paging_simps page_of_def)
  next
    case (Suc j)
    with 1 ne have "a + page_count H xs (Suc 0) \<le> st
        \<and> drop j (paging H (a + page_count H xs (Suc 0)) (drop (page_count H xs (Suc 0)) xs))
          = paging H st (drop (st - (a + page_count H xs (Suc 0))) (drop (page_count H xs (Suc 0)) xs))"
      by (intro "1.IH") (simp_all add: paging_simps)
    with Suc ne show ?thesis by (simp add: paging_simps)
  qed
qed

lemma page_full_prefix: "0 < n \<Longrightarrow> n < length xs \<Longrightarrow> page_full H (xs @ ys) n = page_full H (xs @ zs) n"
  using less_imp_diff_less [of n "length xs" 1] by (simp add: page_full_def nth_append)

lemma page_count_prefix:
  "0 < n \<Longrightarrow> page_count H (xs @ ys) n < length xs \<Longrightarrow> page_count H (xs @ zs) n = page_count H (xs @ ys) n"
proof (induction "length xs - n" arbitrary: n rule: less_induct)
  case less
  have n: "n < length xs" using less.prems page_count_ge [of n H "xs @ ys"] by simp
  note same = page_full_prefix [OF less.prems(1) n, of H ys zs]
  show ?case
  proof (cases "page_full H (xs @ ys) n")
    case False
    then have "page_count H (xs @ ys) n = page_count H (xs @ ys) (Suc n)"
        "page_count H (xs @ zs) n = page_count H (xs @ zs) (Suc n)"
      using n same by (subst page_count.simps, simp)+
    with less.hyps [of "Suc n"] less.prems n show ?thesis by simp
  qed (use same n in \<open>subst (1 2) page_count.simps, simp\<close>)
qed

lemma paging_prefix:
  "k < length (paging H a (xs @ ys)) \<Longrightarrow> pb_start (paging H a (xs @ ys) ! k) = st \<Longrightarrow> st < a + length xs \<Longrightarrow>
     paging H a (xs @ zs) = take k (paging H a (xs @ ys)) @ paging H st (drop (st - a) (xs @ zs))"
proof (induction k arbitrary: a xs)
  case 0
  then have "xs @ ys \<noteq> []" by (auto simp: paging_simps)
  with 0 show ?case by (simp add: paging_simps page_of_def)
next
  case (Suc k)
  let ?n = "page_count H (xs @ ys) (Suc 0)"
  have ne: "xs @ ys \<noteq> []" using Suc.prems(1) by (auto simp: paging_simps)
  then have rest: "k < length (paging H (a + ?n) (drop ?n (xs @ ys)))"
      "pb_start (paging H (a + ?n) (drop ?n (xs @ ys)) ! k) = st"
    using Suc.prems by (simp_all add: paging_simps)
  have "a + ?n \<le> st" using paging_start_ge [OF nth_mem [OF rest(1)]] rest(2) by simp
  then have n: "?n < length xs" using Suc.prems(3) by simp
  with page_count_prefix [of "Suc 0" H xs ys zs] have same: "page_count H (xs @ zs) (Suc 0) = ?n" by simp
  have "xs \<noteq> []" using n by auto
  then have zs: "paging H a (xs @ zs) = page_of H a (take ?n xs) # paging H (a + ?n) (drop ?n xs @ zs)"
    using paging_simps(2) [of "xs @ zs" H a] n same by simp
  have "paging H (a + ?n) (drop ?n xs @ zs)
      = take k (paging H (a + ?n) (drop ?n xs @ ys)) @ paging H st (drop (st - (a + ?n)) (drop ?n xs @ zs))"
    using Suc.IH [of "a + ?n" "drop ?n xs"] rest Suc.prems(3) n by simp
  moreover have "drop (st - (a + ?n)) (drop ?n xs @ zs) = drop (st - a) (xs @ zs)"
  proof -
    have "st - a = ?n + (st - (a + ?n))" using \<open>a + ?n \<le> st\<close> by simp
    then have "drop (st - a) (xs @ zs) = drop (st - (a + ?n)) (drop ?n (xs @ zs))" by (simp only: drop_drop add.commute)
    then show ?thesis using n by simp
  qed
  moreover have "paging H a (xs @ ys) = page_of H a (take ?n xs) # paging H (a + ?n) (drop ?n xs @ ys)"
    using paging_simps(2) [OF ne, of H a] n by simp
  ultimately show ?case using zs by simp
qed

subsection \<open>Sizes\<close>

definition messages_fit :: "bytes list \<Rightarrow> bool" where
  "messages_fit bodies \<longleftrightarrow> length bodies < 2 ^ 64 \<and> list_all (\<lambda>b. length b < 2 ^ 53 - 2 ^ 10) bodies"

lemma length_page_frame: "length PAGE_PREFIX = 57" "length PAGE_SUFFIX = 2"
  by (simp_all add: PAGE_PREFIX_def PAGE_SUFFIX_def as_bytes_def)

lemma page_count_bound: "n \<le> 128 \<Longrightarrow> page_count H rest n \<le> 128"
proof (induction "128 - n" arbitrary: n rule: less_induct)
  case less
  show ?case
  proof (cases "n \<ge> length rest \<or> page_full H rest n")
    case True
    then show ?thesis using less.prems by (subst page_count.simps) simp
  next
    case False
    then have "n \<noteq> 128" by (auto simp: page_full_def LOGICAL_MESSAGE_PAGE_SIZE_def)
    with less False show ?thesis by (subst page_count.simps) simp
  qed
qed

lemma page_size_grows:
  "n \<le> length rest \<Longrightarrow> length (page_bytes (take n rest)) \<le> MAX_PAGE_BYTES \<Longrightarrow>
     length (page_bytes (take (page_count H rest n) rest)) \<le> MAX_PAGE_BYTES"
proof (induction "length rest - n" arbitrary: n rule: less_induct)
  case less
  show ?case
  proof (cases "n \<ge> length rest \<or> page_full H rest n")
    case True
    then show ?thesis using less.prems by (subst page_count.simps) simp
  next
    case False
    then have n: "n < length rest" and fits: "length (page_bytes (take n rest)) + 1 + length (rest ! n) \<le> MAX_PAGE_BYTES"
      by (auto simp: page_full_def)
    have "length (page_bytes (take (Suc n) rest)) \<le> length (page_bytes (take n rest)) + 1 + length (rest ! n)"
      using n by (simp add: page_bytes_def join_take_Suc separator_def)
    with less.hyps [of "Suc n"] n fits False show ?thesis by (subst page_count.simps) simp
  qed
qed

lemma page_size:
  assumes "rest \<noteq> []" and "list_all (\<lambda>b. length b < 2 ^ 53 - 2 ^ 10) rest"
  shows "length (page_bytes (take (page_count H rest (Suc 0)) rest)) < 2 ^ 53
    \<and> (length (page_bytes (take (page_count H rest (Suc 0)) rest)) \<le> MAX_PAGE_BYTES \<or> page_count H rest (Suc 0) = 1)"
proof (cases "length (page_bytes (take 1 rest)) \<le> MAX_PAGE_BYTES")
  case True
  then have "length (page_bytes (take (page_count H rest (Suc 0)) rest)) \<le> MAX_PAGE_BYTES"
    using assms(1) by (intro page_size_grows) (simp_all add: Suc_le_eq)
  then show ?thesis by (simp add: MAX_PAGE_BYTES_def)
next
  case False
  then have "page_full H rest 1" by (simp add: page_full_def)
  then have one: "page_count H rest (Suc 0) = 1" by (subst page_count.simps) simp
  obtain b bs where rest: "rest = b # bs" using assms(1) by (cases rest) auto
  have "length (page_bytes (take 1 rest)) = length b + 59"
    by (simp add: rest page_bytes_def join_def separator_def length_page_frame)
  with assms(2) one show ?thesis by (simp add: rest)
qed

subsection \<open>The index of a list is valid\<close>

lemma page_of_step:
  assumes "digest_fun H" and "rest \<noteq> []" and "list_all (\<lambda>b. length b < 2 ^ 53 - 2 ^ 10) rest"
    and "unat cnt + length rest < 2 ^ 64"
  shows "manifest_step cnt (pb_page (page_of H a (take (page_count H rest (Suc 0)) rest)))
    = Inr (cnt + of_nat (page_count H rest (Suc 0)))"
proof -
  let ?n = "page_count H rest (Suc 0)"
  let ?bytes = "page_bytes (take ?n rest)"
  have n: "1 \<le> ?n" "?n \<le> 128" "?n \<le> length rest"
    using page_count_ge page_count_bound [of "Suc 0"] page_count_le [of "Suc 0" rest] assms(2) by (simp_all add: Suc_le_eq)
  then have c: "unat (of_nat ?n :: u32) = ?n" by (intro unat_of_nat_32) simp
  have c0: "(of_nat ?n :: u32) \<noteq> 0" "(of_nat ?n :: u32) = 1 \<longleftrightarrow> ?n = 1"
    using n c by (auto simp: word_unat_eq_iff)
  note size = page_size [OF assms(2,3), of H]
  then have l: "unat (of_nat (length ?bytes) :: u64) = length ?bytes" by (intro unat_of_nat_64) simp
  have h: "validate_record_hash (H ?bytes) ''message page hash'' = Inr ()"
    using assms(1) by (simp add: digest_fun_def hash_ok_def)
  have long: "length PAGE_PREFIX + length PAGE_SUFFIX \<le> length ?bytes" by (simp add: page_bytes_def)
  have uc: "(ucast (of_nat ?n :: u32) :: u64) = of_nat ?n"
    using n by (simp add: word_unat_eq_iff c unat_of_nat_64)
  have "unat cnt + unat (of_nat ?n :: u64) < 2 ^ 64" using assms(4) n by (simp add: unat_of_nat_64)
  then have "checked_add cnt (of_nat ?n) = Some (cnt + of_nat ?n)" by (simp add: checked_add_def)
  moreover have "min (length rest) ?n = ?n" using n by simp
  ultimately show ?thesis
    unfolding manifest_step_def page_of_def page_boundary.simps manifest_page.simps h bindE_simps
    using c c0 l size long n by (auto simp: LOGICAL_MESSAGE_PAGE_SIZE_def uc)
qed

lemma manifest_fold_paging:
  assumes "digest_fun H"
  shows "list_all (\<lambda>b. length b < 2 ^ 53 - 2 ^ 10) rest \<Longrightarrow> unat cnt + length rest < 2 ^ 64 \<Longrightarrow>
    foldE manifest_step cnt (map pb_page (paging H a rest)) = Inr (cnt + of_nat (length rest))"
proof (induction "length rest" arbitrary: rest a cnt rule: less_induct)
  case less
  show ?case
  proof (cases "rest = []")
    case False
    let ?n = "page_count H rest (Suc 0)"
    have n: "1 \<le> ?n" "?n \<le> length rest"
      using page_count_ge page_count_le [of "Suc 0" rest] False by (simp_all add: Suc_le_eq)
    have nn: "unat (of_nat ?n :: u64) = ?n" using less.prems(2) n by (intro unat_of_nat_64) simp
    then have cnt: "unat (cnt + of_nat ?n) = unat cnt + ?n"
      using less.prems(2) n by (subst unat_add_lem [THEN iffD1]) simp_all
    have "foldE manifest_step (cnt + of_nat ?n) (map pb_page (paging H (a + ?n) (drop ?n rest)))
        = Inr (cnt + of_nat ?n + of_nat (length (drop ?n rest)))"
      using less.prems n False by (intro less.hyps) (auto simp: cnt list_all_iff dest: in_set_dropD)
    moreover have "cnt + of_nat ?n + of_nat (length (drop ?n rest)) = cnt + of_nat (length rest)"
      using n by (simp add: of_nat_diff)
    ultimately show ?thesis
      using page_of_step [OF assms False less.prems] by (simp add: paging_simps(2) [OF False])
  qed (simp add: paging_simps)
qed

lemma start_fold_paging: "foldE start_step a (paging H a rest) = Inr (a + length rest)"
proof (induction H a rest rule: paging.induct)
  case (1 H a rest)
  show ?case
  proof (cases "rest = []")
    case False
    let ?n = "page_count H rest (Suc 0)"
    have n: "?n \<le> 128" "?n \<le> length rest"
      using page_count_bound [of "Suc 0"] page_count_le [of "Suc 0" rest] False by (simp_all add: Suc_le_eq)
    then have "unat (of_nat ?n :: u32) = ?n" by (intro unat_of_nat_32) simp
    moreover have "length (take ?n rest) = ?n" using n by simp
    ultimately have "start_step a (page_of H a (take ?n rest)) = Inr (a + ?n)" by (simp add: start_step_def page_of_def)
    with n 1 [OF False refl] show ?thesis by (simp add: paging_simps(2) [OF False])
  qed (simp add: paging_simps)
qed

lemma index_of_bodies_valid:
  assumes "digest_fun H" and "messages_fit bodies"
  shows "page_index_validate (index_of_bodies H bodies) = Inr ()"
proof -
  have "foldE manifest_step 0 (map pb_page (paging H 0 bodies)) = Inr (of_nat (length bodies))"
    using manifest_fold_paging [OF assms(1), of bodies 0] assms(2) by (simp add: messages_fit_def)
  moreover have "foldE (\<lambda>_ m. bindE (mh_boundary m) (\<lambda>_. Inr ())) () (map (message_hash_from H) bs) = Inr ()" for bs
  proof (induction bs)
    case (Cons b bs)
    obtain c where "mh_boundary (message_hash_from H b) = Inr c" using boundary_ok [OF assms(1)] by blast
    with Cons show ?case by simp
  qed simp
  ultimately show ?thesis
    by (simp add: page_index_validate_def manifest_validate_def index_manifest_def index_of_bodies_def start_fold_paging)
qed

subsection \<open>Rebuilding\<close>

definition page_object :: "(bytes \<Rightarrow> string) \<Rightarrow> bytes list \<Rightarrow> encoded" where
  "page_object H bodies =
     \<lparr>eo_hash = H (page_bytes bodies), eo_size = of_nat (length (page_bytes bodies)), eo_bytes = page_bytes bodies\<rparr>"

text \<open>Every page is either a page of the old index or one of the objects, which hold its bytes.\<close>

definition pages_kept :: "(bytes \<Rightarrow> string) \<Rightarrow> bytes list \<Rightarrow> page_boundary list \<Rightarrow> encoded list \<Rightarrow> page_boundary list \<Rightarrow> bool" where
  "pages_kept H bodies old objs ps \<longleftrightarrow>
     list_all (\<lambda>b. pb_page b \<in> pb_page ` set old
       \<or> page_object H (take (unat (mp_count (pb_page b))) (drop (pb_start b) bodies)) \<in> set objs) ps"

lemma shift_pages:
  "list_all (\<lambda>b. e \<le> pb_start b) bs \<Longrightarrow>
     mapE (shift_boundary e r) bs = Inr (map (\<lambda>b. b\<lparr>pb_start := r + (pb_start b - e)\<rparr>) bs)"
  by (induction bs) (simp_all add: shift_boundary_def)

lemma mapE_mem: "mapE f xs = Inr ys \<Longrightarrow> y \<in> set ys \<Longrightarrow> \<exists>x \<in> set xs. f x = Inr y"
  by (induction xs arbitrary: ys) (auto simp: bindE_Inr)

lemma page_at_Some: "page_at ps st = Some k \<Longrightarrow> k < length ps \<and> pb_start (ps ! k) = st"
  by (auto simp: page_at_def Let_def split: if_splits)

lemma moved_pages:
  assumes "page_at (paging H 0 olds) (e + d) = Some k"
  shows "mapE (shift_boundary e r) (drop k (paging H 0 olds)) = Inr (paging H (r + d) (drop (e + d) olds))"
proof -
  note k = page_at_Some [OF assms]
  from k paging_drop [of k H 0 olds "e + d"]
  have d: "drop k (paging H 0 olds) = paging H (e + d) (drop (e + d) olds)" by simp
  have ge: "e + d \<le> pb_start b" if "b \<in> set (paging H (e + d) (drop (e + d) olds))" for b
    using paging_start_ge [OF that] .
  have "paging H (r + d) xs = map (\<lambda>b. b\<lparr>pb_start := r + (pb_start b - e)\<rparr>) (paging H (e + d) xs)" for xs
  proof -
    have "paging H (e + d) xs = map (\<lambda>b. b\<lparr>pb_start := pb_start b + (e + d)\<rparr>) (paging H 0 xs)"
      "paging H (r + d) xs = map (\<lambda>b. b\<lparr>pb_start := pb_start b + (r + d)\<rparr>) (paging H 0 xs)"
      by (simp_all add: paging_shift)
    then show ?thesis by (simp add: o_def ac_simps)
  qed
  then show ?thesis
    unfolding d by (subst shift_pages) (auto simp: list_all_iff dest: ge)
qed

lemma repage_loop_ok:
  fixes read :: "nat \<Rightarrow> 'e + bytes"
  assumes "digest_fun H" and "messages_fit new" and "\<forall>i < length new. read i = Inr (new ! i)"
    and "drop e olds = drop r new"
  shows "p \<le> length new \<Longrightarrow> \<exists>more. repage_loop H read (paging H 0 olds) (map (message_hash_from H) new) e r p ps objs
      = Inr (ps @ paging H p (drop p new), objs @ more)
    \<and> pages_kept H new (paging H 0 olds) more (paging H p (drop p new))"
proof (induction "length new - p" arbitrary: p ps objs rule: less_induct)
  case less
  let ?old = "paging H 0 olds" and ?ms = "map (message_hash_from H) new"
  let ?found = "if p \<ge> r then page_at ?old (e + (p - r)) else None"
  show ?case
  proof (cases "p < length new")
    case False
    with less.prems show ?thesis by (subst repage_loop.simps) (simp add: paging_simps pages_kept_def)
  next
    case True
    show ?thesis
    proof (cases ?found)
      case (Some k)
      then have p: "r \<le> p" and k: "page_at ?old (e + (p - r)) = Some k" by (auto split: if_splits)
      have "drop (e + (p - r)) olds = drop (p - r) (drop e olds)" by (simp add: add.commute)
      also have "\<dots> = drop p new" using p by (simp add: assms(4))
      finally have rest: "drop (e + (p - r)) olds = drop p new" .
      have moved: "mapE (shift_boundary e r) (drop k ?old) = (Inr (paging H p (drop p new)) :: 'e page_error + _)"
        using moved_pages [OF k, of r] unfolding rest le_add_diff_inverse [OF p] .
      have "pages_kept H new ?old [] (paging H p (drop p new))"
        unfolding pages_kept_def list_all_iff
      proof
        fix b assume "b \<in> set (paging H p (drop p new))"
        from mapE_mem [OF moved this] obtain b0
          where "b0 \<in> set (drop k ?old)" "shift_boundary e r b0 = (Inr b :: 'e page_error + _)" by blast
        then have "pb_page b = pb_page b0" "b0 \<in> set ?old"
          by (auto simp: shift_boundary_def split: if_splits dest: in_set_dropD)
        then show "pb_page b \<in> pb_page ` set ?old
          \<or> page_object H (take (unat (mp_count (pb_page b))) (drop (pb_start b) new)) \<in> set []" by auto
      qed
      with moved Some True show ?thesis
        by (subst repage_loop.simps) (rule exI [of _ "[]"], simp)
    next
      case None
      let ?rest = "drop p new"
      let ?n = "page_count H ?rest (Suc 0)"
      have ne: "?rest \<noteq> []" using True by simp
      have small: "list_all (\<lambda>b. length b < 2 ^ 53 - 2 ^ 10) ?rest"
        using assms(2) by (auto simp: messages_fit_def list_all_iff dest: in_set_dropD)
      have n: "1 \<le> ?n" "?n \<le> 128" "?n \<le> length ?rest"
        using page_count_ge page_count_bound [of "Suc 0"] page_count_le [of "Suc 0" ?rest] ne by (simp_all add: Suc_le_eq)
      have "list_all (\<lambda>b. length b < 2 ^ 64) new"
        using assms(2) by (auto simp: messages_fit_def list_all_iff)
      from page_loop_ok [OF assms(1) this, of "take p new" ?rest read 0] assms(3) True
      have l: "page_loop H read ?ms p p PAGE_PREFIX = Inr (p + ?n, PAGE_PREFIX @ join (take ?n ?rest))"
        by (simp add: join_def min_def)
      have o: "encoded_object H ((PAGE_PREFIX @ join (take ?n ?rest)) @ PAGE_SUFFIX) = Inr (page_object H (take ?n ?rest))"
        using page_size [OF ne small, of H] by (simp add: encoded_object_Inr page_object_def page_bytes_def)
      have b: "new_boundary p (p + ?n) (page_object H (take ?n ?rest)) = page_of H p (take ?n ?rest)"
        using n by (simp add: new_boundary_def page_of_def page_object_def min_def)
      let ?more1 = "page_object H (take ?n ?rest)"
      have "length new - (p + ?n) < length new - p" "p + ?n \<le> length new" using n True by simp_all
      from less.hyps [OF this, of "ps @ [page_of H p (take ?n ?rest)]" "objs @ [?more1]"] obtain more where
        ih: "repage_loop H read ?old ?ms e r (p + ?n) (ps @ [page_of H p (take ?n ?rest)]) (objs @ [?more1])
          = Inr ((ps @ [page_of H p (take ?n ?rest)]) @ paging H (p + ?n) (drop (p + ?n) new), (objs @ [?more1]) @ more)"
        and kept: "pages_kept H new ?old more (paging H (p + ?n) (drop (p + ?n) new))" by blast
      have pages: "paging H p ?rest = page_of H p (take ?n ?rest) # paging H (p + ?n) (drop (p + ?n) new)"
        using paging_simps(2) [OF ne, of H p] by (simp add: add.commute)
      have "unat (of_nat ?n :: u32) = ?n" using n by (intro unat_of_nat_32) simp
      then have "pages_kept H new ?old (?more1 # more) (paging H p ?rest)"
        using kept n unfolding pages pages_kept_def
        by (auto simp: page_of_def min_def list_all_iff)
      moreover have "repage_loop H read ?old ?ms e r p ps objs
          = Inr (ps @ paging H p ?rest, objs @ (?more1 # more))"
        using None True l o b ih by (subst repage_loop.simps) (simp add: lift_record_def pages)
      ultimately show ?thesis by blast
    qed
  qed
qed

subsection \<open>Nothing panics\<close>

lemma boundary_no_panic [simp]: "mh_boundary m \<noteq> Inl Record_Panic"
  by (auto simp: mh_boundary_def bindE_Inl split: option.split)

lemma page_index_no_panic [simp]: "page_index_validate ix \<noteq> Inl Record_Panic"
proof -
  have "foldE manifest_step c ps \<noteq> Inl Record_Panic" for c ps
    by (induction ps arbitrary: c) (auto simp: bindE_Inl manifest_step_def)
  moreover have "foldE start_step a ps \<noteq> Inl Record_Panic" for a ps
    by (induction ps arbitrary: a) (auto simp: bindE_Inl start_step_def)
  moreover have "foldE (\<lambda>_ m. bindE (mh_boundary m) (\<lambda>_. Inr ())) () ms \<noteq> Inl Record_Panic" for ms
    by (induction ms) (auto simp: bindE_Inl)
  ultimately show ?thesis by (auto simp: page_index_validate_def manifest_validate_def bindE_Inl)
qed

lemma lift_record_Inl: "lift_record m = Inl (Logical e) \<longleftrightarrow> m = Inl e" and lift_record_Inr [simp]: "lift_record m = Inr x \<longleftrightarrow> m = Inr x"
  by (auto simp: lift_record_def split: sum.splits)

lemma caller_Inl [simp]: "caller m \<noteq> Inl (Logical e)"
  by (auto simp: caller_def split: sum.splits)

lemma page_loop_no_panic:
  "position < length messages \<Longrightarrow> page_loop H read messages start position bs \<noteq> Inl (Logical Record_Panic)"
proof (induction "length messages - position" arbitrary: position bs rule: less_induct)
  case less
  show ?case
  proof
    assume panic: "page_loop H read messages start position bs = Inl (Logical Record_Panic)"
    have cut_panic: "cut_here messages start k len \<noteq> Inl Record_Panic" for k len
      by (auto simp: cut_here_def Let_def bindE_Inl)
    have cut_end: "cut_here messages start k len = Inr False \<Longrightarrow> k \<noteq> length messages" for k len
      by (auto simp: cut_here_def Let_def bindE_Inr split: if_splits)
    have "get_at messages position = Some (messages ! position)" using less.prems by (simp add: get_at_def)
    with panic [unfolded page_loop.simps [of H read messages start position bs]] obtain body where
        cut: "cut_here messages start (position + 1)
          (length (bs @ (if position > start then [byte CHR '','']  else []) @ body)) = Inr False"
        and rest: "page_loop H read messages start (position + 1)
          (bs @ (if position > start then [byte CHR '','']  else []) @ body) = Inl (Logical Record_Panic)"
      by (auto simp: bindE_Inl lift_record_Inl cut_panic Let_def simp del: get_at_Some split: if_splits)
    have "position + 1 < length messages" using less.prems cut_end [OF cut] by simp
    with less.hyps [of "position + 1"] rest less.prems show False by simp
  qed
qed

lemma start_fold_sorted:
  "foldE start_step a ps = Inr t \<Longrightarrow> list_all (\<lambda>b. a \<le> pb_start b) ps \<and> sorted_wrt (\<lambda>b c. pb_start b \<le> pb_start c) ps"
proof (induction ps arbitrary: a)
  case (Cons b ps)
  then obtain a' where a': "start_step a b = Inr a'" "foldE start_step a' ps = Inr t" by (auto simp: bindE_Inr)
  then have "pb_start b = a" "a' = a + unat (mp_count (pb_page b))" by (auto simp: start_step_def split: if_splits)
  with a'(2) Cons.IH [of "a + unat (mp_count (pb_page b))"] show ?case by (auto simp: list_all_iff)
qed simp

lemma repage_loop_no_panic:
  assumes "sorted_wrt (\<lambda>b c. pb_start b \<le> pb_start c) old"
  shows "repage_loop H read old messages e r p ps objs \<noteq> Inl (Logical Record_Panic)"
  using assms
proof (induction H read old messages e r p ps objs rule: repage_loop.induct)
  case (1 H read old messages e r p ps objs)
  let ?found = "if p \<ge> r then page_at old (e + (p - r)) else None"
  show ?case
  proof (cases "p < length messages")
    case False
    then show ?thesis by (subst repage_loop.simps) simp
  next
    case True
    show ?thesis
    proof (cases ?found)
      case None
      show ?thesis
      proof
        assume panic: "repage_loop H read old messages e r p ps objs = Inl (Logical Record_Panic)"
        from panic [unfolded repage_loop.simps [of H read old messages e r p ps objs]] True None obtain stop bs obj where
            l: "page_loop H read messages p p PAGE_PREFIX = Inr (stop, bs)"
          and o: "encoded_object H (bs @ PAGE_SUFFIX) = Inr obj"
          and rest: "repage_loop H read old messages e r stop (ps @ [new_boundary p stop obj]) (objs @ [obj])
              = Inl (Logical Record_Panic)"
          using page_loop_no_panic [OF True, of H read p PAGE_PREFIX] by (auto simp: bindE_Inl lift_record_Inl)
        from o have "lift_record (encoded_object H (bs @ PAGE_SUFFIX)) = Inr obj" by simp
        from "1.IH" [OF True None l refl this "1.prems"] rest show False by simp
      qed
    next
      case (Some k)
      then have k: "k < length old" "pb_start (old ! k) = e + (p - r)" using page_at_Some by (auto split: if_splits)
      have ge: "list_all (\<lambda>b. e \<le> pb_start b) (drop k old)"
      proof -
        have asc: "pb_start (old ! i) \<le> pb_start (old ! j)" if "i < j" "j < length old" for i j
          using "1.prems" that by (auto simp: sorted_wrt_iff_nth_less)
        have mono: "pb_start (old ! k) \<le> pb_start (old ! (k + i))" if "k + i < length old" for i
          using asc [of k "k + i"] that by (cases "i = 0") simp_all
        have "e \<le> pb_start (old ! (k + i))" if "k + i < length old" for i
          using mono [OF that] k(2) by simp
        then show ?thesis by (simp add: list_all_length)
      qed
      from Some True show ?thesis by (subst repage_loop.simps) (simp add: shift_pages [OF ge])
    qed
  qed
qed

section \<open>Properties\<close>

text \<open>C11. Rebuilding the pages an edit affects gives the index that paging the whole new list from scratch
  gives: after the messages from \<open>s\<close> to \<open>e\<close> were replaced by \<open>mid\<close>, whatever their number, the pages
  before and after are reused and the ones built in between join them exactly. Every page is
  either one of the old ones or among the objects returned, with its bytes.\<close>

theorem repage_is_full_paging:
  assumes "digest_fun H" and "messages_fit old" and "messages_fit new"
    and "s \<le> e" and "e \<le> length old" and "new = take s old @ mid @ drop e old"
    and "\<forall>i < length new. read i = Inr (new ! i)"
  shows "\<exists>objs. repage H (index_of_bodies H old) (map (message_hash_from H) new) (s, e) (s + length mid) read
      = Inr (index_of_bodies H new, objs)
    \<and> pages_kept H new (paging H 0 old) objs (drop (length (takeWhile (\<lambda>b. pb_start b < s) (paging H 0 old)) - 1) (paging H 0 new))"
proof -
  let ?old = "paging H 0 old" and ?r = "s + length mid"
  let ?ms = "map (message_hash_from H)"
  have s: "length (take s old) = s" using assms(4,5) by simp
  have tail: "drop e old = drop ?r new" using s by (simp add: assms(6))
  have unchanged: "take s (?ms old) = take s (?ms new)" "drop e (?ms old) = drop ?r (?ms new)"
    using s by (simp_all add: assms(6) take_map drop_map)
  have bounds: "?r \<le> length new" using s assms(5) by (simp add: assms(6))
  define m where "m = length (takeWhile (\<lambda>b. pb_start b < s) ?old)"
  define p where "p = (case get_at ?old (m - 1) of None \<Rightarrow> 0 | Some b \<Rightarrow> pb_start b)"
  have m: "m \<le> length ?old" unfolding m_def by (rule length_takeWhile_le)
  have prefix: "paging H 0 new = take (m - 1) ?old @ paging H p (drop p new) \<and> p \<le> length new"
  proof (cases "m = 0")
    case True
    have "p = 0"
      using paging_simps(2) [of old H 0] by (cases "old = []") (simp_all add: p_def True get_at_def paging_simps page_of_def)
    with True show ?thesis by simp
  next
    case False
    then have k: "m - 1 < length ?old" "m - 1 < m" using m by simp_all
    then have at: "get_at ?old (m - 1) = Some (?old ! (m - 1))" by (simp add: get_at_def)
    have "pb_start (?old ! (m - 1)) < s"
      using k(2) nth_mem [of "m - 1" "takeWhile (\<lambda>b. pb_start b < s) ?old"] unfolding m_def
      by (metis set_takeWhileD takeWhile_nth)
    then have p: "p < s" "pb_start (?old ! (m - 1)) = p" unfolding p_def at by simp_all
    have "take s old @ drop s old = old" by simp
    with paging_prefix [of "m - 1" H 0 "take s old" "drop s old" p "mid @ drop e old"] k(1) p s
    have "paging H 0 new = take (m - 1) ?old @ paging H p (drop p new)" by (simp add: assms(6))
    with p s bounds show ?thesis by simp
  qed
  from repage_loop_ok [OF assms(1,3,7) tail conjunct2 [OF prefix], where ps = "take (m - 1) ?old" and objs = "[]"]
  obtain objs where loop: "repage_loop H read ?old (?ms new) e ?r p (take (m - 1) ?old) [] = Inr (paging H 0 new, objs)"
    and kept: "pages_kept H new ?old objs (paging H p (drop p new))" using prefix by auto
  have "repage H (index_of_bodies H old) (?ms new) (s, e) ?r read = Inr (index_of_bodies H new, objs)"
    using loop index_of_bodies_valid [OF assms(1,2)] index_of_bodies_valid [OF assms(1,3)] unchanged assms(4,5) bounds
    by (simp add: repage_def Let_def lift_record_def index_of_bodies_def m_def p_def)
  moreover have "drop (m - 1) (paging H 0 new) = paging H p (drop p new)" using prefix m by simp
  ultimately show ?thesis using kept by (auto simp: m_def)
qed

text \<open>Whatever index, ranges and reader it is given, repaging never panics, and an index it returns
  is valid and lists the new messages.\<close>

theorem repage_valid:
  "case repage H previous messages replaced replacement_end read of
     Inl e \<Rightarrow> e \<noteq> Logical Record_Panic
   | Inr (ix, _) \<Rightarrow> page_index_validate ix = Inr () \<and> pi_messages ix = messages"
proof (cases "repage H previous messages replaced replacement_end read")
  case (Inr y)
  obtain ix objs where y: "y = (ix, objs)" by fastforce
  from Inr have "page_index_validate ix = Inr () \<and> pi_messages ix = messages"
    by (auto simp: y repage_def Let_def bindE_Inr split: if_splits)
  with Inr y show ?thesis by simp
next
  case (Inl e)
  have "sorted_wrt (\<lambda>b c. pb_start b \<le> pb_start c) (pi_pages previous)" if "page_index_validate previous = Inr ()"
    using that start_fold_sorted [of 0 "pi_pages previous"] by (auto simp: page_index_validate_def bindE_Inr)
  note no_panic = repage_loop_no_panic [OF this]
  have "e \<noteq> Logical Record_Panic"
  proof (cases "page_index_validate previous")
    case (Inl d)
    with \<open>repage H previous messages replaced replacement_end read = Inl e\<close> show ?thesis
      using page_index_no_panic [of previous] by (auto simp: repage_def lift_record_def)
  next
    case (Inr u)
    then have ok: "page_index_validate previous = Inr ()" by simp
    show ?thesis
    proof
      assume "e = Logical Record_Panic"
      with Inl show False
        using no_panic [OF ok, where read = read] by (auto simp: repage_def Let_def ok bindE_Inl lift_record_Inl split: if_splits)
    qed
  qed
  with Inl show ?thesis by simp
qed

definition sample_read :: "nat \<Rightarrow> unit + bytes" where
  "sample_read i = Inr ([[1], [3, 4], [2]] ! i)"

lemma repage_is_full_paging_witness:
  "\<exists>objs. repage (\<lambda>_. replicate 64 CHR ''a'') (index_of_bodies (\<lambda>_. replicate 64 CHR ''a'') [[1], [2]])
     (map (message_hash_from (\<lambda>_. replicate 64 CHR ''a'')) [[1], [3, 4], [2]]) (1, 1) 2 sample_read
   = Inr (index_of_bodies (\<lambda>_. replicate 64 CHR ''a'') [[1], [3, 4], [2]], objs)"
proof -
  have "digest_fun (\<lambda>_. replicate 64 CHR ''a'')"
    by (simp add: digest_fun_def hash_ok_def is_lower_hex_def is_ascii_digit_def list_all_length)
  then have "\<exists>objs. repage (\<lambda>_. replicate 64 CHR ''a'') (index_of_bodies (\<lambda>_. replicate 64 CHR ''a'') [[1], [2]])
     (map (message_hash_from (\<lambda>_. replicate 64 CHR ''a'')) [[1], [3, 4], [2]]) (1, 1) (1 + length [[3, 4 :: u8]]) sample_read
     = Inr (index_of_bodies (\<lambda>_. replicate 64 CHR ''a'') [[1], [3, 4], [2]], objs)"
    using repage_is_full_paging [of "\<lambda>_. replicate 64 CHR ''a''" "[[1], [2]]" "[[1], [3, 4], [2]]" 1 1 "[[3, 4]]" sample_read]
    by (fastforce simp: messages_fit_def sample_read_def)
  then show ?thesis by (simp add: numeral_2_eq_2)
qed

end
