(* ===== verification/Format_Io.thy ===== *)
theory Format_Io
  imports Codec
begin

text \<open>
  The error of \<^verbatim>\<open>crates/external-storage-format/src/lib.rs\<close> and the \<^verbatim>\<open>Read\<close> and \<^verbatim>\<open>Write\<close> traits its
  codecs work on. What a reader delivers is a list of events: bytes, in the portions in which
  they arrive, and faults; the end of the list is the end of the file. A writer keeps the bytes it
  was given and what its next calls will answer. So every reader and writer, short reads and
  faults included, is some list, and no routine can tell more about it than its calls do.
\<close>

datatype format_error = FormatError string | Format_Panic

type_synonym 'a formatted = "format_error + 'a"

definition failed :: "string \<Rightarrow> 'a formatted" where
  "failed message = Inl (FormatError message)"

datatype io_kind = StorageFull | PermissionDenied | ReadOnlyFilesystem | UnexpectedEof | Other_Kind

definition from_io :: "io_kind \<Rightarrow> format_error" where
  "from_io kind = FormatError
     (case kind of
        StorageFull \<Rightarrow> ''object-io-storage-full''
      | PermissionDenied \<Rightarrow> ''object-io-permission-denied''
      | ReadOnlyFilesystem \<Rightarrow> ''object-io-read-only''
      | UnexpectedEof \<Rightarrow> ''object-unexpected-eof''
      | Other_Kind \<Rightarrow> ''object-io-failed'')"

definition io_kind_of :: "format_error \<Rightarrow> io_kind option" where
  "io_kind_of e =
     (if e = FormatError ''object-io-storage-full'' then Some StorageFull
      else if e = FormatError ''object-io-permission-denied'' then Some PermissionDenied
      else if e = FormatError ''object-io-read-only'' then Some ReadOnlyFilesystem
      else if e = FormatError ''object-io-failed'' then Some Other_Kind
      else None)"

text \<open>The result of an operation of the standard library or of one behind \<^verbatim>\<open>io::Error\<close>, under \<^verbatim>\<open>?\<close>.\<close>

definition io_result :: "io_kind + 'a \<Rightarrow> 'a formatted" where
  "io_result m = (case m of Inl kind \<Rightarrow> Inl (from_io kind) | Inr x \<Rightarrow> Inr x)"

section \<open>Readers\<close>

datatype read_event = Data bytes | Fault io_kind

type_synonym source = "read_event list"

fun fetch :: "nat \<Rightarrow> source \<Rightarrow> io_kind + (bytes \<times> source)" where
  "fetch len [] = Inr ([], [])"
| "fetch len (Fault kind # es) = Inl kind"
| "fetch len (Data bs # es) =
     (if bs = [] then fetch len es
      else Inr (take len bs, if length bs \<le> len then es else Data (drop len bs) # es))"

text \<open>What a reader delivers before its first fault, and readers without one.\<close>

fun given :: "source \<Rightarrow> bytes" where
  "given [] = []"
| "given (Data bs # es) = bs @ given es"
| "given (Fault kind # es) = []"

definition sound :: "source \<Rightarrow> bool" where
  "sound src \<longleftrightarrow> list_all (\<lambda>e. case e of Data _ \<Rightarrow> True | Fault _ \<Rightarrow> False) src"

lemma fetch_Inr:
  "fetch len src = Inr (bs, src') \<Longrightarrow>
     given src = bs @ given src' \<and> length bs \<le> len
     \<and> (sound src \<longrightarrow> sound src') \<and> (sound src \<longrightarrow> bs = [] \<longrightarrow> len = 0 \<or> given src = [])"
  by (induction len src rule: fetch.induct)
    (auto simp: sound_def append_eq_append_conv2 split: if_splits)

lemma fetch_sound: "sound src \<Longrightarrow> \<exists>bs src'. fetch len src = Inr (bs, src')"
  by (induction len src rule: fetch.induct) (auto simp: sound_def)

text \<open>\<^verbatim>\<open>read\<close> and \<^verbatim>\<open>read_exact\<close>, which repeats it until the buffer is full.\<close>

definition read_up_to :: "nat \<Rightarrow> source \<Rightarrow> (bytes \<times> source) formatted" where
  "read_up_to len src = io_result (fetch len src)"

function read_full :: "nat \<Rightarrow> source \<Rightarrow> (bytes \<times> source) formatted" where
  "read_full len src =
     (if len = 0 then Inr ([], src)
      else
        bindE (read_up_to len src) (\<lambda>(bs, src').
        if bs = [] then Inl (from_io UnexpectedEof)
        else bindE (read_full (len - length bs) src') (\<lambda>(more, src''). Inr (bs @ more, src''))))"
  by pat_completeness auto
termination by (relation "measure fst") auto

declare read_full.simps [simp del]

lemma io_result_Inr [simp]: "io_result m = Inr x \<longleftrightarrow> m = Inr x"
  by (auto simp: io_result_def split: sum.split)

lemma from_io_no_panic [simp]: "from_io k \<noteq> Format_Panic"
  by (simp add: from_io_def)

lemma io_result_no_panic [simp]: "io_result m \<noteq> Inl Format_Panic"
  by (auto simp: io_result_def split: sum.split)

lemma failed_simps [simp]: "failed m \<noteq> Inr x" "failed m \<noteq> Inl Format_Panic"
  by (simp_all add: failed_def)

lemma read_no_panic [simp]: "read_up_to len src \<noteq> Inl Format_Panic" "read_full len src \<noteq> Inl Format_Panic"
proof -
  show *: "read_up_to len src \<noteq> Inl Format_Panic" for len src by (simp add: read_up_to_def)
  show "read_full len src \<noteq> Inl Format_Panic"
    by (induction len src rule: read_full.induct) (subst read_full.simps, auto simp: bindE_Inl * from_io_def)
qed

lemma read_up_to_Inr:
  assumes "read_up_to len src = Inr (bs, src')"
  shows "given src = bs @ given src'" "length bs \<le> len" "sound src \<Longrightarrow> sound src'"
    "sound src \<Longrightarrow> 0 < len \<Longrightarrow> bs = [] \<Longrightarrow> given src = []"
  using assms fetch_Inr [of len src bs src'] by (auto simp: read_up_to_def)

lemma read_up_to_sound:
  assumes "sound src"
  obtains bs src' where "read_up_to len src = Inr (bs, src')"
  using fetch_sound [OF assms, of len] that by (auto simp: read_up_to_def)

lemma read_full_Inr:
  "read_full len src = Inr (bs, src') \<Longrightarrow>
     given src = bs @ given src' \<and> length bs = len \<and> (sound src \<longrightarrow> sound src')"
proof (induction len src arbitrary: bs rule: read_full.induct)
  case (1 len src)
  show ?case
  proof (cases "len = 0")
    case False
    with "1.prems" obtain b s more where b: "read_up_to len src = Inr (b, s)" "b \<noteq> []"
      and more: "read_full (len - length b) s = Inr (more, src')" "bs = b @ more"
      by (subst (asm) read_full.simps) (auto simp: bindE_Inr split: if_splits)
    from "1.IH" [OF False b(1) refl b(2) more(1)] read_up_to_Inr [OF b(1)] more(2) show ?thesis by simp
  qed (use 1 in \<open>simp add: read_full.simps\<close>)
qed

lemma read_full_sound:
  "sound src \<Longrightarrow> len \<le> length (given src) \<Longrightarrow>
     \<exists>src'. read_full len src = Inr (take len (given src), src') \<and> sound src' \<and> given src' = drop len (given src)"
proof (induction len src rule: read_full.induct)
  case (1 len src)
  show ?case
  proof (cases "len = 0")
    case False
    obtain b s where b: "read_up_to len src = Inr (b, s)" using read_up_to_sound [OF "1.prems"(1)] .
    note B = read_up_to_Inr [OF b]
    have ne: "b \<noteq> []" using B(4) [OF "1.prems"(1)] False "1.prems"(2) by auto
    have "len - length b \<le> length (given s)" using "1.prems"(2) B(1,2) by simp
    from "1.IH" [OF False b refl ne B(3) [OF "1.prems"(1)] this] obtain s'
      where "read_full (len - length b) s = Inr (take (len - length b) (given s), s')" "sound s'"
        "given s' = drop (len - length b) (given s)" by blast
    with False b ne B(1,2) show ?thesis by (subst read_full.simps) auto
  qed (use 1 in \<open>simp add: read_full.simps\<close>)
qed

lemma read_full_take:
  assumes "sound src" and "given src = bs @ rest" and "len = length bs"
  obtains src' where "read_full len src = Inr (bs, src')" and "sound src'" and "given src' = rest"
  using read_full_sound [OF assms(1), of len] assms(2,3) by auto

lemma given_Nil_fetch: "sound src \<Longrightarrow> given src = [] \<Longrightarrow> \<exists>src'. fetch len src = Inr ([], src')"
  by (induction len src rule: fetch.induct) (auto simp: sound_def)

lemma read_up_to_end:
  assumes "sound src" and "given src = []"
  obtains src' where "read_up_to len src = Inr ([], src')"
  using given_Nil_fetch [OF assms, of len] that by (auto simp: read_up_to_def)

section \<open>Writers\<close>

record sink =
  sunk :: bytes
  sink_answers :: "io_kind option list"

definition put_all :: "sink \<Rightarrow> bytes \<Rightarrow> sink formatted" where
  "put_all out bs =
     (case sink_answers out of
        [] \<Rightarrow> Inr (out\<lparr>sunk := sunk out @ bs\<rparr>)
      | None # answers \<Rightarrow> Inr \<lparr>sunk = sunk out @ bs, sink_answers = answers\<rparr>
      | Some kind # _ \<Rightarrow> Inl (from_io kind))"

text \<open>A growing vector never fails.\<close>

definition vector :: "bytes \<Rightarrow> sink" where
  "vector bs = \<lparr>sunk = bs, sink_answers = []\<rparr>"

lemma put_all_Inr: "put_all out bs = Inr out' \<Longrightarrow> sunk out' = sunk out @ bs"
  by (auto simp: put_all_def split: list.splits option.splits)

lemma put_all_vector [simp]: "put_all (vector bs) cs = Inr (vector (bs @ cs))"
  by (simp add: put_all_def vector_def)

lemma put_all_no_panic [simp]: "put_all out bs \<noteq> Inl Format_Panic"
  by (auto simp: put_all_def from_io_def split: list.splits option.splits)

lemma sunk_vector [simp]: "sunk (vector bs) = bs"
  by (simp add: vector_def)

section \<open>Little-endian integers\<close>

definition u64_to_le :: "u64 \<Rightarrow> bytes" where "u64_to_le w = rev (u64_to_be w)"
definition u32_to_le :: "u32 \<Rightarrow> bytes" where "u32_to_le w = rev (u32_to_be w)"
definition u64_from_le :: "bytes \<Rightarrow> u64" where "u64_from_le bs = u64_from_be (rev bs)"
definition u32_from_le :: "bytes \<Rightarrow> u32" where "u32_from_le bs = u32_from_be (rev bs)"

lemma le_simps [simp]:
  "length (u64_to_le w) = 8" "u64_from_le (u64_to_le w) = w"
  "length (u32_to_le v) = 4" "u32_from_le (u32_to_le v) = v"
  by (simp_all add: u64_to_le_def u64_from_le_def u32_to_le_def u32_from_le_def)

lemma u64_to_from_le: "length bs = 8 \<Longrightarrow> u64_to_le (u64_from_le bs) = bs"
  by (simp add: u64_to_le_def u64_from_le_def u64_to_from_be)

lemma u32_to_from_le: "length bs = 4 \<Longrightarrow> u32_to_le (u32_from_le bs) = bs"
  by (simp add: u32_to_le_def u32_from_le_def u32_to_from_be)

end
