(* ===== verification/Pack.thy ===== *)
theory Pack
  imports Format_Io
begin

text \<open>
  Chunks and pack entries, \<^verbatim>\<open>crates/external-storage-format/src/pack.rs\<close> and
  \<^verbatim>\<open>content_identity.rs\<close>: a stream is cut into chunks of a fixed size, each becomes an entry of
  lengths, digest and a body that is stored as it is or as one zstd frame. SHA-256 is the
  parameter \<open>H\<close> and the zstd library, at the level and window the code sets, the parameter \<open>Z\<close>:
  creating an encoder, compressing, opening a frame, reading at most so many bytes of its content
  and what is left of the input then.
\<close>

type_synonym digest = bytes

record frames =
  fr_new :: "io_kind + unit"
  fr_compress :: "bytes \<Rightarrow> io_kind + bytes"
  fr_open :: "bytes \<Rightarrow> io_kind + unit"
  fr_read :: "bytes \<Rightarrow> nat \<Rightarrow> io_kind + bytes"
  fr_left :: "bytes \<Rightarrow> nat \<Rightarrow> bytes"

definition MAX_CHUNK_BYTES :: nat where "MAX_CHUNK_BYTES = 1024 * 1024"
definition ENTRY_OVERHEAD :: u64 where "ENTRY_OVERHEAD = 8 + 8 + 32"
definition RAW :: u8 where "RAW = 0"
definition ZSTD_CODEC :: u8 where "ZSTD_CODEC = 1"
definition FRAME_MAGIC :: bytes where "FRAME_MAGIC = [0x28, 0xb5, 0x2f, 0xfd]"

datatype compression_policy = Text_Policy | AlreadyCompressed

record chunk =
  chunk_hash :: digest
  chunk_bytes :: bytes

section \<open>Content identity\<close>

function hash_loop :: "source \<Rightarrow> u64 \<Rightarrow> u64 \<Rightarrow> bytes \<Rightarrow> (u64 \<times> bytes \<times> source) formatted" where
  "hash_loop src expected len fed =
     bindE (read_up_to (64 * 1024) src) (\<lambda>(bs, src').
     if bs = [] then Inr (len, fed, src')
     else
       bindE (ok_or (checked_add len (of_nat (length bs))) (FormatError ''length-overflow'')) (\<lambda>len'.
       if len' > expected then failed ''object-length-mismatch''
       else hash_loop src' expected len' (fed @ bs)))"
  by pat_completeness auto
termination
  by (relation "measure (\<lambda>(src, _). length (given src))") (auto dest!: read_up_to_Inr(1))

declare hash_loop.simps [simp del]

definition hash_reader :: "(bytes \<Rightarrow> digest) \<Rightarrow> source \<Rightarrow> u64 \<Rightarrow> (digest \<times> source) formatted" where
  "hash_reader H src expected =
     bindE (hash_loop src expected 0 []) (\<lambda>(len, fed, src').
     if len \<noteq> expected then failed ''object-length-mismatch'' else Inr (H fed, src'))"

section \<open>Chunk bodies\<close>

definition chunk_encode :: "frames \<Rightarrow> bytes \<Rightarrow> compression_policy \<Rightarrow> bytes formatted" where
  "chunk_encode Z bs policy =
     (if length bs > MAX_CHUNK_BYTES then failed ''chunk-limit-exceeded''
      else
        bindE (if policy = Text_Policy then bindE (io_result (fr_compress Z bs)) (\<lambda>c. Inr (Some c)) else Inr None) (\<lambda>m.
        case m of
          Some compressed \<Rightarrow>
            if length compressed < length bs then Inr (ZSTD_CODEC # compressed) else Inr (RAW # bs)
        | None \<Rightarrow> Inr (RAW # bs)))"

definition compress :: "frames \<Rightarrow> bytes \<Rightarrow> bytes formatted" where
  "compress Z bs = bindE (io_result (fr_new Z)) (\<lambda>_. chunk_encode Z bs Text_Policy)"

definition unpack :: "frames \<Rightarrow> u8 \<Rightarrow> bytes \<Rightarrow> nat \<Rightarrow> bytes formatted" where
  "unpack Z kind payload expected_length =
     (if kind = RAW then
        (if length payload \<noteq> expected_length then failed ''chunk-length-mismatch'' else Inr payload)
      else if kind = ZSTD_CODEC then
        (if take 4 payload \<noteq> FRAME_MAGIC then failed ''invalid-zstd-frame''
         else
           bindE (io_result (fr_open Z payload)) (\<lambda>_.
           bindE (io_result (fr_read Z payload (expected_length + 1))) (\<lambda>output.
           if fr_left Z payload (expected_length + 1) \<noteq> [] then failed ''trailing-compressed-bytes''
           else Inr output)))
      else failed ''unsupported-chunk-codec'')"

definition decompress :: "(bytes \<Rightarrow> digest) \<Rightarrow> frames \<Rightarrow> bytes \<Rightarrow> nat \<Rightarrow> digest \<Rightarrow> bytes formatted" where
  "decompress H Z bs expected_length expected_hash =
     (if expected_length > MAX_CHUNK_BYTES \<or> length bs > MAX_CHUNK_BYTES + 1 then failed ''chunk-limit-exceeded''
      else
        case bs of
          [] \<Rightarrow> failed ''missing-chunk-codec''
        | kind # payload \<Rightarrow>
            bindE (unpack Z kind payload expected_length) (\<lambda>output.
            if length output \<noteq> expected_length \<or> H output \<noteq> expected_hash
            then failed ''compressed-chunk-integrity-failed'' else Inr output))"

section \<open>Chunks of a stream\<close>

text \<open>Fills a buffer as far as the stream goes.\<close>

function fill :: "nat \<Rightarrow> source \<Rightarrow> (bytes \<times> source) formatted" where
  "fill len src =
     (if len = 0 then Inr ([], src)
      else
        bindE (read_up_to len src) (\<lambda>(bs, src').
        if bs = [] then Inr ([], src')
        else bindE (fill (len - length bs) src') (\<lambda>(rest, src''). Inr (bs @ rest, src''))))"
  by pat_completeness auto
termination by (relation "measure fst") auto

declare fill.simps [simp del]

lemma fill_Inr:
  "fill len src = Inr (bs, src') \<Longrightarrow>
     given src = bs @ given src' \<and> length bs \<le> len \<and> (sound src \<longrightarrow> sound src' \<and> (length bs < len \<longrightarrow> given src' = []))"
proof (induction len src arbitrary: bs rule: fill.induct)
  case (1 len src)
  show ?case
  proof (cases "len = 0")
    case False
    with "1.prems" obtain b s where b: "read_up_to len src = Inr (b, s)"
      and rest: "(if b = [] then Inr ([], s) else bindE (fill (len - length b) s) (\<lambda>(rest, src''). Inr (b @ rest, src'')))
        = Inr (bs, src')"
      by (subst (asm) fill.simps) (auto simp: bindE_Inr)
    note B = read_up_to_Inr [OF b]
    show ?thesis
    proof (cases "b = []")
      case True
      with rest B False show ?thesis by auto
    next
      case ne: False
      with rest obtain r where r: "fill (len - length b) s = Inr (r, src')" "bs = b @ r" by (auto simp: bindE_Inr)
      from "1.IH" [OF False b refl ne r(1)] B r(2) show ?thesis by auto
    qed
  qed (use 1 in \<open>simp add: fill.simps\<close>)
qed

function chunks_loop ::
  "(bytes \<Rightarrow> digest) \<Rightarrow> ('s \<Rightarrow> chunk \<Rightarrow> 's formatted) \<Rightarrow> nat \<Rightarrow> source \<Rightarrow> 's \<Rightarrow> ('s \<times> source) formatted" where
  "chunks_loop H consume n src st =
     bindE (fill n src) (\<lambda>(bs, src').
     if bs = [] then Inr (st, src')
     else bindE (consume st \<lparr>chunk_hash = H bs, chunk_bytes = bs\<rparr>) (chunks_loop H consume n src'))"
  by pat_completeness auto
termination
  by (relation "measure (\<lambda>(H, c, n, src, st). length (given src))") (auto dest!: fill_Inr)

declare chunks_loop.simps [simp del]

definition chunks ::
  "(bytes \<Rightarrow> digest) \<Rightarrow> source \<Rightarrow> nat \<Rightarrow> ('s \<Rightarrow> chunk \<Rightarrow> 's formatted) \<Rightarrow> 's \<Rightarrow> ('s \<times> source) formatted" where
  "chunks H src chunk_size consume st =
     (if chunk_size = 0 \<or> chunk_size > MAX_CHUNK_BYTES then failed ''invalid-chunk-limit''
      else chunks_loop H consume chunk_size src st)"

section \<open>Entries\<close>

definition write_entry_with ::
  "(bytes \<Rightarrow> digest) \<Rightarrow> frames \<Rightarrow> sink \<Rightarrow> chunk \<Rightarrow> compression_policy \<Rightarrow> (u64 \<times> sink) formatted" where
  "write_entry_with H Z out c policy =
     (if length (chunk_bytes c) > MAX_CHUNK_BYTES \<or> H (chunk_bytes c) \<noteq> chunk_hash c then failed ''invalid-chunk''
      else
        bindE (put_all out (u64_to_le (of_nat (length (chunk_bytes c))))) (\<lambda>out.
        bindE (chunk_encode Z (chunk_bytes c) policy) (\<lambda>encoded.
        bindE (put_all out (u64_to_le (of_nat (length encoded)))) (\<lambda>out.
        bindE (put_all out (chunk_hash c)) (\<lambda>out.
        bindE (put_all out encoded) (\<lambda>out.
        Inr (ENTRY_OVERHEAD + of_nat (length encoded), out)))))))"

definition write_entry :: "(bytes \<Rightarrow> digest) \<Rightarrow> frames \<Rightarrow> sink \<Rightarrow> chunk \<Rightarrow> (u64 \<times> sink) formatted" where
  "write_entry H Z out c = bindE (io_result (fr_new Z)) (\<lambda>_. write_entry_with H Z out c Text_Policy)"

definition read_entry :: "(bytes \<Rightarrow> digest) \<Rightarrow> frames \<Rightarrow> source \<Rightarrow> nat \<Rightarrow> (chunk \<times> source) formatted" where
  "read_entry H Z src max_bytes =
     bindE (read_full 8 src) (\<lambda>(bs, src).
     let len = u64_from_le bs in
     if len > of_nat (min max_bytes MAX_CHUNK_BYTES) then failed ''chunk-limit-exceeded''
     else
       bindE (read_full 8 src) (\<lambda>(bs, src).
       let encoded_len = u64_from_le bs in
       if encoded_len = 0 \<or> encoded_len > len + 1 then failed ''chunk-limit-exceeded''
       else
         bindE (read_full 32 src) (\<lambda>(expected, src).
         bindE (read_full (unat encoded_len) src) (\<lambda>(encoded, src).
         bindE (decompress H Z encoded (unat len) expected) (\<lambda>bs.
         Inr (\<lparr>chunk_hash = expected, chunk_bytes = bs\<rparr>, src))))))"

section \<open>Lemmas\<close>

text \<open>What is assumed of zstd: a frame it made of a chunk starts with the magic number, opens, and reading
  past its content gives the content and consumes the frame.\<close>

definition frames_ok :: "frames \<Rightarrow> bool" where
  "frames_ok Z \<longleftrightarrow> (\<forall>bs c n. fr_compress Z bs = Inr c \<longrightarrow> length bs < n \<longrightarrow>
     take 4 c = FRAME_MAGIC \<and> fr_open Z c = Inr () \<and> fr_read Z c n = Inr bs \<and> fr_left Z c n = [])"

definition digest32 :: "(bytes \<Rightarrow> digest) \<Rightarrow> bool" where
  "digest32 H \<longleftrightarrow> (\<forall>bs. length (H bs) = 32)"

lemma chunk_encode_Inr:
  assumes "chunk_encode Z bs policy = Inr encoded"
  shows "length bs \<le> MAX_CHUNK_BYTES \<and> 0 < length encoded \<and> length encoded \<le> length bs + 1
    \<and> (frames_ok Z \<longrightarrow> decompress H Z encoded (length bs) (H bs) = Inr bs)"
proof -
  have ne: "ZSTD_CODEC \<noteq> RAW" by (simp add: ZSTD_CODEC_def RAW_def)
  from assms have small: "length bs \<le> MAX_CHUNK_BYTES" by (auto simp: chunk_encode_def split: if_splits)
  have raw: ?thesis if "encoded = RAW # bs"
    using that small by (simp add: decompress_def unpack_def)
  show ?thesis
  proof (cases "encoded = RAW # bs")
    case False
    with assms small obtain c where c: "fr_compress Z bs = Inr c" "length c < length bs" "encoded = ZSTD_CODEC # c"
      by (auto simp: chunk_encode_def bindE_Inr split: if_splits)
    have "decompress H Z encoded (length bs) (H bs) = Inr bs" if "frames_ok Z"
    proof -
      from that have "take 4 c = FRAME_MAGIC \<and> fr_open Z c = Inr () \<and> fr_read Z c (length bs + 1) = Inr bs
          \<and> fr_left Z c (length bs + 1) = []"
        using c(1) unfolding frames_ok_def by (metis less_add_one)
      then show ?thesis using c small ne by (simp add: decompress_def unpack_def io_result_def)
    qed
    with c small show ?thesis by simp
  qed (rule raw)
qed

lemma decompress_Inr:
  "decompress H Z bs n h = Inr out \<Longrightarrow> length out = n \<and> H out = h \<and> n \<le> MAX_CHUNK_BYTES"
  by (auto simp: decompress_def bindE_Inr split: list.splits if_splits)

fun pieces :: "nat \<Rightarrow> bytes \<Rightarrow> bytes list" where
  "pieces n bs = (if n = 0 \<or> bs = [] then [] else take n bs # pieces n (drop n bs))"

declare pieces.simps [simp del]

lemma concat_pieces: "0 < n \<Longrightarrow> concat (pieces n bs) = bs"
  by (induction n bs rule: pieces.induct) (subst pieces.simps, auto)

lemma fill_sound: "sound src \<Longrightarrow> \<exists>src'. fill len src = Inr (take len (given src), src') \<and> sound src' \<and> given src' = drop len (given src)"
proof (induction len src rule: fill.induct)
  case (1 len src)
  show ?case
  proof (cases "len = 0")
    case False
    obtain b s where b: "read_up_to len src = Inr (b, s)" using read_up_to_sound [OF "1.prems"] .
    note B = read_up_to_Inr [OF b]
    show ?thesis
    proof (cases "b = []")
      case True
      with B(4) [OF "1.prems"] False B(1) have "given src = []" "given s = []" by simp_all
      with True b B(3) [OF "1.prems"] False show ?thesis by (subst fill.simps) simp
    next
      case ne: False
      from "1.IH" [OF False b refl ne B(3) [OF "1.prems"]] obtain s'
        where "fill (len - length b) s = Inr (take (len - length b) (given s), s')" "sound s'"
          "given s' = drop (len - length b) (given s)" by blast
      with False b ne B(1,2) show ?thesis by (subst fill.simps) auto
    qed
  qed (use 1 in \<open>simp add: fill.simps\<close>)
qed

text \<open>Cutting a stream into chunks is running the consumer over its pieces.\<close>

definition chunk_of :: "(bytes \<Rightarrow> digest) \<Rightarrow> bytes \<Rightarrow> chunk" where
  "chunk_of H bs = \<lparr>chunk_hash = H bs, chunk_bytes = bs\<rparr>"

lemma chunks_loop_pieces:
  assumes "0 < n"
  shows "sound src \<Longrightarrow> \<exists>src'. given src' = [] \<and>
    chunks_loop H consume n src st = bindE (foldE consume st (map (chunk_of H) (pieces n (given src)))) (\<lambda>st. Inr (st, src'))"
proof (induction "length (given src)" arbitrary: src st rule: less_induct)
  case less
  obtain s where s: "fill n src = Inr (take n (given src), s)" "sound s" "given s = drop n (given src)"
    using fill_sound [OF less.prems] by blast
  show ?case
  proof (cases "given src = []")
    case True
    with s show ?thesis by (subst chunks_loop.simps, subst pieces.simps) auto
  next
    case False
    then have ne: "take n (given src) \<noteq> []" using assms by simp
    have "pieces n (given src) = take n (given src) # pieces n (given s)"
      using False assms s(3) by (subst pieces.simps) simp
    moreover have "length (given s) < length (given src)" using False assms s(3) by simp
    note ih = less.hyps [OF this s(2)]
    ultimately show ?thesis
    proof (cases "consume st (chunk_of H (take n (given src)))")
      case (Inl e)
      obtain src' where "given src' = []" using ih [of st] by blast
      with Inl s(1) ne show ?thesis
        by (subst chunks_loop.simps) (auto simp: chunk_of_def \<open>pieces n (given src) = _\<close>)
    next
      case (Inr st')
      obtain src' where "given src' = []"
        "chunks_loop H consume n s st' = bindE (foldE consume st' (map (chunk_of H) (pieces n (given s)))) (\<lambda>st. Inr (st, src'))"
        using ih [of st'] by blast
      with Inr s(1) ne show ?thesis
        by (subst chunks_loop.simps) (auto simp: chunk_of_def \<open>pieces n (given src) = _\<close>)
    qed
  qed
qed

lemma write_entry_with_Inr:
  assumes "write_entry_with H Z out c policy = Inr (n, out')"
  obtains encoded where "chunk_encode Z (chunk_bytes c) policy = Inr encoded"
    and "H (chunk_bytes c) = chunk_hash c" and "n = ENTRY_OVERHEAD + of_nat (length encoded)"
    and "sunk out' = sunk out @ u64_to_le (of_nat (length (chunk_bytes c))) @ u64_to_le (of_nat (length encoded))
      @ chunk_hash c @ encoded"
  using assms that unfolding write_entry_with_def
  by (auto simp: bindE_Inr dest!: put_all_Inr split: if_splits)

lemma read_written_entry:
  assumes "write_entry_with H Z out c policy = Inr (n, out')" and "frames_ok Z" and "digest32 H"
    and "sound src" and "given src = drop (length (sunk out)) (sunk out') @ rest" and "length (chunk_bytes c) \<le> m"
  obtains src' where "read_entry H Z src m = Inr (c, src')" and "sound src'" and "given src' = rest"
proof -
  from assms(1) obtain encoded where e: "chunk_encode Z (chunk_bytes c) policy = Inr encoded"
    and h: "H (chunk_bytes c) = chunk_hash c"
    and out: "sunk out' = sunk out @ u64_to_le (of_nat (length (chunk_bytes c))) @ u64_to_le (of_nat (length encoded))
      @ chunk_hash c @ encoded" by (rule write_entry_with_Inr)
  note E = chunk_encode_Inr [OF e, of H]
  have len: "length (chunk_bytes c) \<le> MAX_CHUNK_BYTES" "0 < length encoded" "length encoded \<le> length (chunk_bytes c) + 1"
    using E by simp_all
  then have small: "length (chunk_bytes c) < 2 ^ 64" "length encoded < 2 ^ 64" by (simp_all add: MAX_CHUNK_BYTES_def)
  have n1: "unat (of_nat (length (chunk_bytes c)) :: u64) = length (chunk_bytes c)"
    and n2: "unat (of_nat (length encoded) :: u64) = length encoded"
    and n3: "unat (of_nat (min m MAX_CHUNK_BYTES) :: u64) = min m MAX_CHUNK_BYTES"
    using small by (auto intro!: unat_of_nat_64 simp: MAX_CHUNK_BYTES_def)
  have n4: "unat (of_nat (length (chunk_bytes c)) + 1 :: u64) = length (chunk_bytes c) + 1"
    using len(1) n1 by (subst unat_add_lem [THEN iffD1]) (simp_all add: MAX_CHUNK_BYTES_def)
  from read_full_take [OF assms(4), of "u64_to_le (of_nat (length (chunk_bytes c)))" _ 8] assms(5) out
  obtain s1 where s1: "read_full 8 src = Inr (u64_to_le (of_nat (length (chunk_bytes c))), s1)" "sound s1"
    "given s1 = u64_to_le (of_nat (length encoded)) @ chunk_hash c @ encoded @ rest" by auto
  from read_full_take [OF s1(2,3), of 8] obtain s2 where
    s2: "read_full 8 s1 = Inr (u64_to_le (of_nat (length encoded)), s2)" "sound s2" "given s2 = chunk_hash c @ encoded @ rest"
    by auto
  have "32 = length (chunk_hash c)" using assms(3) h unfolding digest32_def by metis
  from read_full_take [OF s2(2,3) this] obtain s3 where
    s3: "read_full 32 s2 = Inr (chunk_hash c, s3)" "sound s3" "given s3 = encoded @ rest" by blast
  from read_full_take [OF s3(2,3) refl] obtain s4 where
    s4: "read_full (length encoded) s3 = Inr (encoded, s4)" "sound s4" "given s4 = rest" by blast
  have "\<not> (of_nat (length (chunk_bytes c)) :: u64) > of_nat (min m MAX_CHUNK_BYTES)"
    using len(1) assms(6) by (simp add: word_less_nat_alt n1 n3)
  moreover have "(of_nat (length encoded) :: u64) \<noteq> 0" using len(2) n2 by (metis unat_0 less_numeral_extra(3))
  moreover have "\<not> (of_nat (length encoded) :: u64) > of_nat (length (chunk_bytes c)) + 1"
    using len(3) by (simp add: word_less_nat_alt n2 n4 del: of_nat_Suc)
  moreover have "decompress H Z encoded (length (chunk_bytes c)) (chunk_hash c) = Inr (chunk_bytes c)"
    using E assms(2) h by simp
  ultimately have "read_entry H Z src m = Inr (c, s4)"
    unfolding read_entry_def by (simp add: s1(1) s2(1) s3(1) s4(1) n1 n2 Let_def)
  with s4 that show thesis by blast
qed

section \<open>Properties\<close>

definition write_step :: "(bytes \<Rightarrow> digest) \<Rightarrow> frames \<Rightarrow> compression_policy \<Rightarrow> sink \<Rightarrow> chunk \<Rightarrow> sink formatted" where
  "write_step H Z policy out c = bindE (write_entry_with H Z out c policy) (\<lambda>(_, out'). Inr out')"

lemma write_step_Inr: "write_step H Z policy out c = Inr out' \<longleftrightarrow> (\<exists>n. write_entry_with H Z out c policy = Inr (n, out'))"
  by (auto simp: write_step_def bindE_Inr)

text \<open>Reads so many entries, keeping their bytes.\<close>

fun read_entries :: "(bytes \<Rightarrow> digest) \<Rightarrow> frames \<Rightarrow> nat \<Rightarrow> nat \<Rightarrow> source \<Rightarrow> (bytes list \<times> source) formatted" where
  "read_entries H Z m 0 src = Inr ([], src)"
| "read_entries H Z m (Suc k) src =
     bindE (read_entry H Z src m) (\<lambda>(c, src').
     bindE (read_entries H Z m k src') (\<lambda>(rest, src''). Inr (chunk_bytes c # rest, src'')))"

lemma sink_grows: "foldE (write_step H Z policy) out cs = Inr out' \<Longrightarrow> \<exists>bs. sunk out' = sunk out @ bs"
proof (induction cs arbitrary: out)
  case (Cons c cs)
  then obtain n out1 where w: "write_entry_with H Z out c policy = Inr (n, out1)"
    and rest: "foldE (write_step H Z policy) out1 cs = Inr out'" by (auto simp: write_step_Inr bindE_Inr)
  from w obtain bs where "sunk out1 = sunk out @ bs" by (rule write_entry_with_Inr) auto
  with Cons.IH [OF rest] show ?case by auto
qed simp

lemma read_written_entries:
  assumes "frames_ok Z" and "digest32 H"
  shows "foldE (write_step H Z policy) out cs = Inr out' \<Longrightarrow> sound src \<Longrightarrow>
    given src = drop (length (sunk out)) (sunk out') \<Longrightarrow> list_all (\<lambda>c. length (chunk_bytes c) \<le> m) cs \<Longrightarrow>
    \<exists>src'. read_entries H Z m (length cs) src = Inr (map chunk_bytes cs, src') \<and> given src' = []"
proof (induction cs arbitrary: out src)
  case (Cons c cs)
  then obtain n out1 where w: "write_entry_with H Z out c policy = Inr (n, out1)"
    and rest: "foldE (write_step H Z policy) out1 cs = Inr out'" by (auto simp: write_step_Inr bindE_Inr)
  from w obtain b1 where b1: "sunk out1 = sunk out @ b1" by (rule write_entry_with_Inr) auto
  from sink_grows [OF rest] obtain b2 where b2: "sunk out' = sunk out1 @ b2" by blast
  have "given src = drop (length (sunk out)) (sunk out1) @ b2" using Cons.prems(3) b1 b2 by simp
  from read_written_entry [OF w assms Cons.prems(2) this] Cons.prems(4) obtain s
    where s: "read_entry H Z src m = Inr (c, s)" "sound s" "given s = b2" by auto
  have "given s = drop (length (sunk out1)) (sunk out')" using s(3) b2 by simp
  from Cons.IH [OF rest s(2) this] Cons.prems(4) s(1) show ?case by auto
qed simp

lemma pieces_small: "list_all (\<lambda>b. length b \<le> n) (pieces n bs)"
  by (induction n bs rule: pieces.induct) (subst pieces.simps, auto)

text \<open>C27. A stream packed chunk by chunk is read back: the entries of the pack, read in order from any
  reader that delivers it, whatever its portions, are the chunks, and together they are the
  stream.\<close>

theorem pack_roundtrip:
  assumes "chunks H src n (write_step H Z policy) (vector []) = Inr (out, src')"
    and "frames_ok Z" and "digest32 H" and "sound src" and "sound pack" and "given pack = sunk out"
  shows "\<exists>parts pack'. read_entries H Z n (length (pieces n (given src))) pack = Inr (parts, pack')
    \<and> concat parts = given src \<and> given pack' = []"
proof -
  from assms(1) have n: "0 < n" and loop: "chunks_loop H (write_step H Z policy) n src (vector []) = Inr (out, src')"
    by (auto simp: chunks_def split: if_splits)
  let ?cs = "map (chunk_of H) (pieces n (given src))"
  from chunks_loop_pieces [OF n assms(4), of H "write_step H Z policy" "vector []"] loop
  have "foldE (write_step H Z policy) (vector []) ?cs = Inr out"
    by (cases "foldE (write_step H Z policy) (vector []) ?cs") auto
  moreover have "list_all (\<lambda>c. length (chunk_bytes c) \<le> n) ?cs"
    using pieces_small [of n "given src"] by (simp add: list_all_iff chunk_of_def)
  ultimately obtain pack' where "read_entries H Z n (length ?cs) pack = Inr (map chunk_bytes ?cs, pack')" "given pack' = []"
    using read_written_entries [OF assms(2,3) _ assms(5), of policy "vector []" ?cs out n] assms(6) by auto
  moreover have "concat (map chunk_bytes ?cs) = given src" using concat_pieces [OF n] by (simp add: o_def chunk_of_def)
  ultimately show ?thesis by auto
qed

definition sample_frames :: frames where
  "sample_frames = \<lparr>fr_new = Inr (), fr_compress = (\<lambda>_. Inl Other_Kind), fr_open = (\<lambda>_. Inr ()),
     fr_read = (\<lambda>_ _. Inl Other_Kind), fr_left = (\<lambda>_ _. [])\<rparr>"

definition sample_digest32 :: "bytes \<Rightarrow> digest" where "sample_digest32 bs = replicate 32 0"

lemma pack_roundtrip_witness:
  "case chunks sample_digest32 [Data [1], Data [2, 3]] 2 (write_step sample_digest32 sample_frames AlreadyCompressed) (vector []) of
     Inl _ \<Rightarrow> False
   | Inr (out, _) \<Rightarrow>
       \<exists>parts pack'. read_entries sample_digest32 sample_frames 2 2 [Data (sunk out)] = Inr (parts, pack')
         \<and> concat parts = [1, 2, 3] \<and> given pack' = []"
proof -
  let ?src = "[Data [1], Data [2, 3]]" and ?w = "write_step sample_digest32 sample_frames AlreadyCompressed"
  have p: "pieces 2 [1, 2, 3 :: u8] = [[1, 2], [3]]" by (simp add: pieces.simps)
  have "foldE ?w (vector []) (map (chunk_of sample_digest32) [[1, 2], [3]]) \<noteq> Inl e" for e
    by (simp add: write_step_def write_entry_with_def chunk_of_def chunk_encode_def sample_digest32_def MAX_CHUNK_BYTES_def)
  then obtain out where "foldE ?w (vector []) (map (chunk_of sample_digest32) [[1, 2], [3]]) = Inr out"
    by (cases "foldE ?w (vector []) (map (chunk_of sample_digest32) [[1, 2], [3]])") auto
  moreover have sound: "sound ?src" "sound [Data bs]" for bs by (simp_all add: sound_def)
  ultimately obtain src' where c: "chunks sample_digest32 ?src 2 ?w (vector []) = Inr (out, src')"
    using chunks_loop_pieces [of 2 ?src sample_digest32 ?w "vector []"] p
    by (auto simp: chunks_def MAX_CHUNK_BYTES_def)
  have "frames_ok sample_frames" "digest32 sample_digest32"
    by (simp_all add: frames_ok_def sample_frames_def digest32_def sample_digest32_def)
  from pack_roundtrip [OF c this sound(1) sound(2) [of "sunk out"]] c p show ?thesis by (simp add: numeral_2_eq_2)
qed

text \<open>Whatever a reader delivers, an entry that is accepted has the digest it names and is within the
  bounds, reading it never panics, and it consumed what came before the rest.\<close>

theorem read_entry_verified:
  "case read_entry H Z src m of
     Inl e \<Rightarrow> e \<noteq> Format_Panic
   | Inr (c, src') \<Rightarrow>
       H (chunk_bytes c) = chunk_hash c \<and> length (chunk_bytes c) \<le> min m MAX_CHUNK_BYTES
       \<and> (\<exists>entry. given src = entry @ given src' \<and> length entry \<le> unat ENTRY_OVERHEAD + length (chunk_bytes c) + 1)"
proof (cases "read_entry H Z src m")
  case (Inl e)
  have "unpack Z k p n \<noteq> Inl Format_Panic" for k p n by (auto simp: unpack_def bindE_Inl)
  then have "decompress H Z bs n h \<noteq> Inl Format_Panic" for bs n h
    by (auto simp: decompress_def bindE_Inl split: list.split)
  with Inl show ?thesis by (auto simp: read_entry_def bindE_Inl Let_def split: if_splits)
next
  case (Inr y)
  obtain c src' where y: "y = (c, src')" by fastforce
  from Inr y obtain b1 s1 b2 s2 expected s3 encoded where
    r1: "read_full 8 src = Inr (b1, s1)" and r2: "read_full 8 s1 = Inr (b2, s2)"
    and r3: "read_full 32 s2 = Inr (expected, s3)" and r4: "read_full (unat (u64_from_le b2)) s3 = Inr (encoded, src')"
    and l1: "\<not> u64_from_le b1 > of_nat (min m MAX_CHUNK_BYTES)"
    and l2: "\<not> u64_from_le b2 > u64_from_le b1 + 1"
    and d: "decompress H Z encoded (unat (u64_from_le b1)) expected = Inr (chunk_bytes c)"
    and h: "chunk_hash c = expected"
    by (auto simp: read_entry_def bindE_Inr Let_def split: if_splits)
  note D = decompress_Inr [OF d]
  have min: "unat (of_nat (min m MAX_CHUNK_BYTES) :: u64) = min m MAX_CHUNK_BYTES"
    by (intro unat_of_nat_64) (simp add: MAX_CHUNK_BYTES_def)
  have b: "length (chunk_bytes c) \<le> min m MAX_CHUNK_BYTES"
    using l1 D min by (simp add: word_le_nat_alt not_less)
  have "unat (u64_from_le b1 + 1) = unat (u64_from_le b1) + 1"
    using D by (subst unat_add_lem [THEN iffD1]) (simp_all add: MAX_CHUNK_BYTES_def)
  then have e: "unat (u64_from_le b2) \<le> length (chunk_bytes c) + 1"
    using l2 D by (simp add: not_less word_le_nat_alt)
  note R = read_full_Inr [OF r1] read_full_Inr [OF r2] read_full_Inr [OF r3] read_full_Inr [OF r4]
  have "given src = (b1 @ b2 @ expected @ encoded) @ given src'" using R by simp
  moreover have "length (b1 @ b2 @ expected @ encoded) \<le> unat ENTRY_OVERHEAD + length (chunk_bytes c) + 1"
    using R e by (simp add: ENTRY_OVERHEAD_def)
  ultimately show ?thesis using Inr y D b h by auto
qed

end
