(* ===== verification/Serde_Doc.thy ===== *)
theory Serde_Doc
  imports Serde Stamp
begin

text \<open>
  \<^verbatim>\<open>#[derive(Serialize, Deserialize)]\<close> of the external-storage structures, which \<^verbatim>\<open>serde_json\<close>
  writes to text and reads from text directly: the fields of an object stand in the order of
  their declaration, and an object read from text may list them in any order but none twice. A
  byte array is an array of numbers; \<^verbatim>\<open>control_integer.rs\<close> writes an integer as a decimal string.
\<close>

definition doc_fields :: "string list \<Rightarrow> json \<Rightarrow> json option list option" where
  "doc_fields names v =
     (case v of
        JObject ps \<Rightarrow> if distinct (map fst ps) then struct_fields names v else None
      | _ \<Rightarrow> struct_fields names v)"

lemma doc_fields_object:
  "distinct (map fst fs) \<Longrightarrow> doc_fields (map fst fs) (JObject fs) = Some (map (Some \<circ> snd) fs)"
  by (auto simp: doc_fields_def struct_fields_def list_all_iff intro!: map_of_is_SomeI)

definition bytes_value :: "bytes \<Rightarrow> json" where
  "bytes_value bs = JArray (map (\<lambda>b. JNumber (PosInt (ucast b))) bs)"

definition as_u8 :: "json \<Rightarrow> u8 option" where
  "as_u8 v = (case v of JNumber (PosInt n) \<Rightarrow> if unat n < 256 then Some (ucast n) else None | _ \<Rightarrow> None)"

definition as_array :: "nat \<Rightarrow> json option \<Rightarrow> bytes option" where
  "as_array n m =
     (case m of
        Some (JArray vs) \<Rightarrow> if length vs = n then those (map as_u8 vs) else None
      | _ \<Rightarrow> None)"

lemma as_u8_ucast [simp]: "as_u8 (JNumber (PosInt (ucast b))) = Some b"
proof -
  have "unat (ucast b :: u64) = unat b" using unat_less_8 [of b] by (simp add: unsigned_ucast_eq take_bit_nat_eq_self)
  moreover have "(ucast (ucast b :: u64) :: u8) = b" by (rule ucast_up_ucast_id) (simp add: is_up)
  ultimately show ?thesis using unat_less_8 [of b] by (simp add: as_u8_def)
qed

lemma as_array_bytes [simp]: "length bs = n \<Longrightarrow> as_array n (Some (bytes_value bs)) = Some bs"
proof -
  have "those (map (as_u8 \<circ> (\<lambda>b. JNumber (PosInt (ucast b)))) bs) = Some bs" by (induction bs) simp_all
  then show "length bs = n \<Longrightarrow> ?thesis" by (simp add: as_array_def bytes_value_def)
qed

lemma as_array_length: "as_array n m = Some bs \<Longrightarrow> length bs = n"
proof -
  have "those vs = Some ws \<Longrightarrow> length ws = length vs" for vs :: "u8 option list" and ws
    by (induction vs arbitrary: ws) (auto split: option.splits)
  then show "as_array n m = Some bs \<Longrightarrow> ?thesis"
    by (fastforce simp: as_array_def split: option.splits json.splits if_splits)
qed

text \<open>\<^verbatim>\<open>control_integer\<close> for a \<^verbatim>\<open>u64\<close>, and for a narrower type of the given number of values.\<close>

definition control_value :: "u64 \<Rightarrow> json" where
  "control_value n = JString (decimal_string n)"

definition control_from :: "json option \<Rightarrow> u64 option" where
  "control_from m =
     (case as_string m of None \<Rightarrow> None | Some s \<Rightarrow> (case decimal_u64 s of Inl _ \<Rightarrow> None | Inr n \<Rightarrow> Some n))"

definition control_below :: "nat \<Rightarrow> json option \<Rightarrow> u64 option" where
  "control_below limit m = (case control_from m of Some n \<Rightarrow> if unat n < limit then Some n else None | None \<Rightarrow> None)"

lemma decimal_reads: "decimal_u64 (decimal_string n) = Inr n"
  by (simp add: decimal_u64_Inr decimal_string_def show_nat_plain)

lemma control_field [simp]:
  "control_from (Some (control_value n)) = Some n"
  "unat n < limit \<Longrightarrow> control_below limit (Some (control_value n)) = Some n"
  by (simp_all add: control_from_def control_value_def control_below_def decimal_reads)

text \<open>An enum of bare variants: its name, or, as \<^verbatim>\<open>serde_json\<close> also admits, an object that maps the name
  to null.\<close>

definition enum_from :: "(string \<times> 'a) list \<Rightarrow> json option \<Rightarrow> 'a option" where
  "enum_from names m =
     (case m of
        Some (JString s) \<Rightarrow> map_of names s
      | Some (JObject [(s, JNull)]) \<Rightarrow> map_of names s
      | _ \<Rightarrow> None)"

lemma enum_from_string [simp]: "enum_from names (Some (JString s)) = map_of names s"
  by (simp add: enum_from_def)

text \<open>What is assumed of \<^verbatim>\<open>serde_json\<close>: the text it wrote for a value reads back as that value.\<close>

definition reads_back :: "ext \<Rightarrow> json \<Rightarrow> bool" where
  "reads_back X v \<longleftrightarrow> from_slice X (json_text X v) = Some v"

end
