(* ===== verification/Repository.thy ===== *)
theory Repository
  imports Pack Serde_Doc "HOL-Library.Sublist"
begin

text \<open>
  The descriptor of a repository and content fingerprints, \<^verbatim>\<open>format.rs\<close>, and sorted catalog pages,
  \<^verbatim>\<open>catalog.rs\<close>, of \<^verbatim>\<open>crates/external-storage-format/src\<close>. The digest is the parameter \<open>H\<close>; an
  incremental digest is the list of the bytes it was fed.
\<close>

section \<open>The repository descriptor\<close>

definition SCHEMA :: string where "SCHEMA = ''risunest.external-storage/v1''"

datatype strategy = Cas | Sequential

record repository =
  rd_schema :: string
  rd_id :: string
  rd_encrypted :: bool
  rd_strategy :: "strategy option"
  rd_level :: "u64 option"

definition library_fingerprint_domain :: "(bytes \<Rightarrow> digest) \<Rightarrow> digest" where
  "library_fingerprint_domain H = H (as_bytes ''risunest.external-library-fingerprint/v1'')"

definition strategy_value :: "strategy option \<Rightarrow> json" where
  "strategy_value m =
     (case m of None \<Rightarrow> JNull | Some Cas \<Rightarrow> JString ''cas'' | Some Sequential \<Rightarrow> JString ''sequential'')"

definition strategy_from :: "json option \<Rightarrow> strategy option option" where
  "strategy_from m =
     (case m of
        None \<Rightarrow> Some None
      | Some JNull \<Rightarrow> Some None
      | _ \<Rightarrow> map_option Some (enum_from [(''cas'', Cas), (''sequential'', Sequential)] m))"

definition level_from :: "json option \<Rightarrow> u64 option option" where
  "level_from m =
     (case m of None \<Rightarrow> Some None | Some JNull \<Rightarrow> Some None | Some (JNumber (PosInt n)) \<Rightarrow> Some (Some n) | _ \<Rightarrow> None)"

definition repository_value :: "repository \<Rightarrow> json" where
  "repository_value d = JObject
     ([(''schema'', JString (rd_schema d)), (''repositoryId'', JString (rd_id d)),
       (''encrypted'', JBool (rd_encrypted d)), (''publicationStrategy'', strategy_value (rd_strategy d))]
      @ (case rd_level d of None \<Rightarrow> [] | Some n \<Rightarrow> [(''formatLevel'', JNumber (PosInt n))]))"

text \<open>An array may leave out the defaulted last field.\<close>

definition repository_fields :: "json \<Rightarrow> json option list option" where
  "repository_fields v =
     (case v of
        JArray vs \<Rightarrow>
          if length vs = 4 then Some (map Some vs @ [None]) else if length vs = 5 then Some (map Some vs) else None
      | _ \<Rightarrow> doc_fields [''schema'', ''repositoryId'', ''encrypted'', ''publicationStrategy'', ''formatLevel''] v)"

definition repository_from :: "json \<Rightarrow> repository option" where
  "repository_from v =
     (case repository_fields v of
        Some [s, i, Some (JBool e), p, l] \<Rightarrow>
          (case (as_string s, as_string i, strategy_from p, level_from l) of
             (Some s, Some i, Some p, Some l) \<Rightarrow>
               Some \<lparr>rd_schema = s, rd_id = i, rd_encrypted = e, rd_strategy = p, rd_level = l\<rparr>
           | _ \<Rightarrow> None)
      | _ \<Rightarrow> None)"

definition repository_validate :: "repository \<Rightarrow> unit formatted" where
  "repository_validate d =
     (if rd_schema d \<noteq> SCHEMA \<or> \<not> rd_encrypted d \<or> rd_id d = [] \<or> length (rd_id d) > 128
         \<or> (case rd_level d of None \<Rightarrow> False
            | Some level \<Rightarrow> level < 2 \<or> level > push_bit 53 1 - 1 \<or> rd_strategy d = None)
      then failed ''invalid-descriptor'' else Inr ())"

definition repository_decode :: "ext \<Rightarrow> bytes \<Rightarrow> repository formatted" where
  "repository_decode X bs =
     (if length bs > 64 * 1024 then failed ''invalid-descriptor''
      else
        bindE (ok_or (Option.bind (from_slice X bs) repository_from) (FormatError ''invalid-descriptor'')) (\<lambda>d.
        bindE (repository_validate d) (\<lambda>_. Inr d)))"

text \<open>A \<^verbatim>\<open>serde_json::Value\<close> keeps the last of equal keys.\<close>

definition declared_format_level :: "ext \<Rightarrow> bytes \<Rightarrow> u64 option" where
  "declared_format_level X bs =
     (case from_slice X bs of
        Some (JObject ps) \<Rightarrow>
          (case map_of (rev ps) ''formatLevel'' of Some (JNumber (PosInt n)) \<Rightarrow> Some n | _ \<Rightarrow> None)
      | _ \<Rightarrow> None)"

definition with_format_level :: "repository \<Rightarrow> u64 \<Rightarrow> repository formatted" where
  "with_format_level d level =
     (let d' = d\<lparr>rd_level := Some level\<rparr> in bindE (repository_validate d') (\<lambda>_. Inr d'))"

definition same_repository :: "repository \<Rightarrow> repository \<Rightarrow> bool" where
  "same_repository a b \<longleftrightarrow> a\<lparr>rd_level := None\<rparr> = b\<lparr>rd_level := None\<rparr>"

definition repository_level :: "repository \<Rightarrow> u64" where
  "repository_level d = (case rd_level d of None \<Rightarrow> 1 | Some n \<Rightarrow> n)"

definition repository_new :: "string \<Rightarrow> strategy option \<Rightarrow> repository formatted" where
  "repository_new i s =
     (let d = \<lparr>rd_schema = SCHEMA, rd_id = i, rd_encrypted = True, rd_strategy = s, rd_level = None\<rparr> in
      bindE (repository_validate d) (\<lambda>_. Inr d))"

section \<open>Fingerprints\<close>

record builder =
  fb_fed :: bytes
  fb_previous :: "string option"

definition builder_new :: "digest \<Rightarrow> builder" where
  "builder_new domain = \<lparr>fb_fed = as_bytes ''risunest.external-fingerprint/v1'' @ [0] @ domain, fb_previous = None\<rparr>"

definition builder_push :: "builder \<Rightarrow> string \<Rightarrow> digest \<Rightarrow> builder formatted" where
  "builder_push b key content =
     (if (case fb_previous b of None \<Rightarrow> False | Some previous \<Rightarrow> previous \<ge> key) then failed ''fingerprint-order''
      else Inr \<lparr>fb_fed = fb_fed b @ u64_to_le (of_nat (length key)) @ as_bytes key @ content, fb_previous = Some key\<rparr>)"

definition builder_finish :: "(bytes \<Rightarrow> digest) \<Rightarrow> builder \<Rightarrow> digest" where
  "builder_finish H b = H (fb_fed b)"

text \<open>\<^verbatim>\<open>expect\<close> panics where \<open>push\<close> refuses.\<close>

definition fingerprint :: "(bytes \<Rightarrow> digest) \<Rightarrow> digest \<Rightarrow> (string \<times> digest) list \<Rightarrow> digest formatted" where
  "fingerprint H domain entries =
     bindE (foldE (\<lambda>b (key, content). case builder_push b key content of Inl _ \<Rightarrow> Inl Format_Panic | Inr b \<Rightarrow> Inr b)
              (builder_new domain) entries)
       (\<lambda>b. Inr (builder_finish H b))"

section \<open>Catalog pages\<close>

record chunk_reference =
  cr_pack :: string
  cr_offset :: u64
  cr_length :: u64
  cr_hash :: digest

record catalog_entry =
  ce_key :: string
  ce_hash :: digest
  ce_length :: u64
  ce_chunks :: "chunk_reference list"

record catalog_page =
  cp_first :: string
  cp_last :: string
  cp_bytes :: bytes
  cp_hash :: digest

definition reference_value :: "chunk_reference \<Rightarrow> json" where
  "reference_value r = JObject
     [(''packId'', JString (cr_pack r)), (''offset'', control_value (cr_offset r)),
      (''length'', control_value (cr_length r)), (''hash'', bytes_value (cr_hash r))]"

definition reference_from :: "json \<Rightarrow> chunk_reference option" where
  "reference_from v =
     (case doc_fields [''packId'', ''offset'', ''length'', ''hash''] v of
        Some [p, off, l, h] \<Rightarrow>
          (case (as_string p, control_from off, control_from l, as_array 32 h) of
             (Some p, Some off, Some l, Some h) \<Rightarrow> Some \<lparr>cr_pack = p, cr_offset = off, cr_length = l, cr_hash = h\<rparr>
           | _ \<Rightarrow> None)
      | _ \<Rightarrow> None)"

definition entry_value :: "catalog_entry \<Rightarrow> json" where
  "entry_value e = JObject
     [(''key'', JString (ce_key e)), (''contentHash'', bytes_value (ce_hash e)),
      (''byteLength'', control_value (ce_length e)), (''chunks'', JArray (map reference_value (ce_chunks e)))]"

definition entry_from :: "json \<Rightarrow> catalog_entry option" where
  "entry_from v =
     (case doc_fields [''key'', ''contentHash'', ''byteLength'', ''chunks''] v of
        Some [k, h, l, cs] \<Rightarrow>
          (case (as_string k, as_array 32 h, control_from l, as_list reference_from cs) of
             (Some k, Some h, Some l, Some cs) \<Rightarrow> Some \<lparr>ce_key = k, ce_hash = h, ce_length = l, ce_chunks = cs\<rparr>
           | _ \<Rightarrow> None)
      | _ \<Rightarrow> None)"

record paging_state =
  ps_result :: "catalog_page list"
  ps_page :: bytes
  ps_first :: string
  ps_last :: string

definition close_page :: "(bytes \<Rightarrow> digest) \<Rightarrow> paging_state \<Rightarrow> catalog_page" where
  "close_page H st =
     (let bs = ps_page st @ [byte CHR '']''] in
      \<lparr>cp_first = ps_first st, cp_last = ps_last st, cp_bytes = bs, cp_hash = H bs\<rparr>)"

definition pages_step :: "ext \<Rightarrow> (bytes \<Rightarrow> digest) \<Rightarrow> nat \<Rightarrow> paging_state \<Rightarrow> string \<times> catalog_entry \<Rightarrow> paging_state formatted" where
  "pages_step X H max_bytes st = (\<lambda>(key, entry).
     if ce_key entry \<noteq> key \<or> key = [] \<or> length key > 64 * 1024 then failed ''invalid-catalog-key''
     else
       let bs = json_text X (entry_value entry) in
       if length bs + 2 > max_bytes then failed ''catalog-entry-requires-fragmentation''
       else
         let st = (if length (ps_page st) > 1 \<and> length (ps_page st) + length bs + 2 > max_bytes
                   then \<lparr>ps_result = ps_result st @ [close_page H st], ps_page = [byte CHR ''[''], ps_first = [],
                         ps_last = ps_last st\<rparr>
                   else st);
             st = (if length (ps_page st) = 1 then st\<lparr>ps_first := key\<rparr>
                   else st\<lparr>ps_page := ps_page st @ [byte CHR '','']\<rparr>) in
         Inr (st\<lparr>ps_page := ps_page st @ bs, ps_last := key\<rparr>))"

definition catalog_pages :: "ext \<Rightarrow> (bytes \<Rightarrow> digest) \<Rightarrow> (string \<times> catalog_entry) list \<Rightarrow> nat \<Rightarrow> catalog_page list formatted" where
  "catalog_pages X H entries max_bytes =
     (if \<not> (128 \<le> max_bytes \<and> max_bytes \<le> 16 * 1024 * 1024) then failed ''invalid-catalog-limit''
      else
        bindE (foldE (pages_step X H max_bytes) \<lparr>ps_result = [], ps_page = [byte CHR ''[''], ps_first = [], ps_last = []\<rparr>
                 entries)
          (\<lambda>st. Inr (ps_result st @ [close_page H st])))"

definition sum_chunk :: "u64 \<Rightarrow> chunk_reference \<Rightarrow> u64 formatted" where
  "sum_chunk len r =
     bindE (ok_or (checked_add len (cr_length r)) (FormatError ''length-overflow'')) (\<lambda>len'.
     if cr_pack r = [] \<or> checked_add (cr_offset r) (cr_length r) = None then failed ''invalid-chunk-reference''
     else Inr len')"

definition read_entry_step :: "string option \<Rightarrow> catalog_entry \<Rightarrow> string option formatted" where
  "read_entry_step previous e =
     (if ce_key e = [] \<or> (case previous of None \<Rightarrow> False | Some k \<Rightarrow> k \<ge> ce_key e) then failed ''invalid-catalog-order''
      else
        bindE (foldE sum_chunk 0 (ce_chunks e)) (\<lambda>len.
        if len \<noteq> ce_length e then failed ''catalog-length-mismatch'' else Inr (Some (ce_key e))))"

definition read_page :: "ext \<Rightarrow> (bytes \<Rightarrow> digest) \<Rightarrow> bytes \<Rightarrow> digest \<Rightarrow> nat \<Rightarrow> catalog_entry list formatted" where
  "read_page X H bs expected max_bytes =
     (if length bs > max_bytes \<or> H bs \<noteq> expected then failed ''catalog-integrity-failed''
      else
        bindE (ok_or (Option.bind (from_slice X bs) (\<lambda>v. as_list entry_from (Some v)))
                 (FormatError ''invalid-catalog-page'')) (\<lambda>entries.
        bindE (foldE read_entry_step None entries) (\<lambda>_. Inr entries)))"

section \<open>Lemmas\<close>

lemma repository_validate_Inr:
  "repository_validate d = Inr () \<longleftrightarrow>
     rd_schema d = SCHEMA \<and> rd_encrypted d \<and> rd_id d \<noteq> [] \<and> length (rd_id d) \<le> 128
     \<and> (case rd_level d of None \<Rightarrow> True
        | Some n \<Rightarrow> 2 \<le> n \<and> n \<le> 2 ^ 53 - 1 \<and> rd_strategy d \<noteq> None)"
  by (auto simp: repository_validate_def failed_def not_le push_bit_eq_mult split: option.splits)

lemma repository_from_value: "repository_from (repository_value d) = Some d"
proof (cases "rd_level d")
  case None
  then show ?thesis
    by (cases d; cases "rd_strategy d")
      (auto simp: repository_from_def repository_fields_def repository_value_def doc_fields_def struct_fields_def
        strategy_value_def strategy_from_def level_from_def split: strategy.splits)
next
  case (Some n)
  then show ?thesis
    by (cases d; cases "rd_strategy d")
      (auto simp: repository_from_def repository_fields_def repository_value_def doc_fields_def struct_fields_def
        strategy_value_def strategy_from_def level_from_def split: strategy.splits)
qed

text \<open>The bytes a fingerprint is the digest of.\<close>

definition fingerprint_entry :: "string \<times> digest \<Rightarrow> bytes" where
  "fingerprint_entry = (\<lambda>(key, content). u64_to_le (of_nat (length key)) @ as_bytes key @ content)"

definition fingerprint_input :: "digest \<Rightarrow> (string \<times> digest) list \<Rightarrow> bytes" where
  "fingerprint_input domain entries =
     as_bytes ''risunest.external-fingerprint/v1'' @ [0] @ domain @ concat (map fingerprint_entry entries)"

definition pushed :: "builder \<Rightarrow> string \<times> digest \<Rightarrow> builder formatted" where
  "pushed b = (\<lambda>(key, content). case builder_push b key content of Inl _ \<Rightarrow> Inl Format_Panic | Inr b \<Rightarrow> Inr b)"

lemma push_entries:
  assumes "bt_inv entries" and "case fb_previous b of None \<Rightarrow> True | Some p \<Rightarrow> \<forall>e \<in> set entries. p < fst e"
  shows "\<exists>p. foldE pushed b entries = Inr \<lparr>fb_fed = fb_fed b @ concat (map fingerprint_entry entries), fb_previous = p\<rparr>"
  using assms
proof (induction entries arbitrary: b)
  case Nil
  then show ?case by (intro exI [of _ "fb_previous b"]) simp
next
  case (Cons e entries)
  obtain key content where e: "e = (key, content)" by (cases e)
  let ?b = "\<lparr>fb_fed = fb_fed b @ fingerprint_entry e, fb_previous = Some key\<rparr>"
  have "pushed b e = Inr ?b"
    using Cons.prems(2) by (auto simp: e pushed_def builder_push_def fingerprint_entry_def split: option.splits)
  moreover have "\<exists>p. foldE pushed ?b entries
      = Inr \<lparr>fb_fed = fb_fed ?b @ concat (map fingerprint_entry entries), fb_previous = p\<rparr>"
    by (rule Cons.IH) (use Cons.prems(1) e in simp_all)
  ultimately show ?case by simp
qed

lemma fingerprint_Inr:
  assumes "bt_inv entries"
  shows "fingerprint H domain entries = Inr (H (fingerprint_input domain entries))"
proof -
  have f: "(\<lambda>b (key, content). case builder_push b key content of Inl _ \<Rightarrow> Inl Format_Panic | Inr b \<Rightarrow> Inr b) = pushed"
    by (intro ext) (simp add: pushed_def)
  from push_entries [OF assms, of "builder_new domain"] show ?thesis
    by (auto simp: fingerprint_def f builder_new_def builder_finish_def fingerprint_input_def)
qed

lemma fingerprint_entries_inj:
  assumes "concat (map fingerprint_entry xs) = concat (map fingerprint_entry ys)"
    and "\<forall>(k, c) \<in> set xs \<union> set ys. length k < 2 ^ 64 \<and> length c = 32"
  shows "xs = ys"
  using assms
proof (induction xs arbitrary: ys)
  case Nil
  then show ?case by (cases ys) (auto simp: fingerprint_entry_def)
next
  case (Cons x xs)
  obtain k c where x: "x = (k, c)" by (cases x)
  obtain y zs where y: "ys = y # zs" using Cons.prems(1)
    by (cases ys) (auto simp: x fingerprint_entry_def dest: arg_cong [where f = length])
  obtain k' c' where y': "y = (k', c')" by (cases y)
  have b: "length k < 2 ^ 64" "length k' < 2 ^ 64" "length c = 32" "length c' = 32"
    using Cons.prems(2) by (simp_all add: x y y')
  have eq: "u64_to_le (of_nat (length k)) @ as_bytes k @ c @ concat (map fingerprint_entry xs)
      = u64_to_le (of_nat (length k')) @ as_bytes k' @ c' @ concat (map fingerprint_entry zs)"
    using Cons.prems(1) by (simp add: x y y' fingerprint_entry_def)
  then have "u64_to_le (of_nat (length k)) = u64_to_le (of_nat (length k'))"
    by (subst (asm) append_eq_append_conv) simp_all
  then have "(of_nat (length k) :: u64) = of_nat (length k')" by (metis le_simps(2))
  from arg_cong [OF this, of unat] have l: "length k = length k'" using b by (simp add: unat_of_nat_64)
  with eq b have "as_bytes k = as_bytes k'" "c = c'" "concat (map fingerprint_entry xs) = concat (map fingerprint_entry zs)"
    by simp_all
  with Cons.IH [of zs] Cons.prems(2) show ?case by (auto simp: x y y' dest: as_bytes_inj)
qed

section \<open>Catalog lemmas\<close>

lemma reference_from_value [simp]: "length (cr_hash r) = 32 \<Longrightarrow> reference_from (reference_value r) = Some r"
  by (cases r) (simp add: reference_from_def reference_value_def doc_fields_def struct_fields_def)

lemma entry_from_value:
  assumes "length (ce_hash e) = 32" and "list_all (\<lambda>r. length (cr_hash r) = 32) (ce_chunks e)"
  shows "entry_from (entry_value e) = Some e"
proof -
  have "those (map (reference_from \<circ> reference_value) (ce_chunks e)) = Some (ce_chunks e)"
    using assms(2) by (intro those_map_Some) (simp add: list_all_iff)
  then show ?thesis using assms(1)
    by (cases e) (simp add: entry_from_def entry_value_def doc_fields_def struct_fields_def as_list_def)
qed

text \<open>What a reader requires of an entry.\<close>

definition chunk_ok :: "chunk_reference \<Rightarrow> bool" where
  "chunk_ok r \<longleftrightarrow> cr_pack r \<noteq> [] \<and> unat (cr_offset r) + unat (cr_length r) < 2 ^ 64"

definition entry_ok :: "catalog_entry \<Rightarrow> bool" where
  "entry_ok e \<longleftrightarrow> ce_key e \<noteq> [] \<and> list_all chunk_ok (ce_chunks e)
     \<and> sum_list (map (\<lambda>r. unat (cr_length r)) (ce_chunks e)) = unat (ce_length e)"

lemma sum_chunks:
  "foldE sum_chunk len rs = Inr n \<longleftrightarrow>
     list_all chunk_ok rs \<and> unat n = unat len + sum_list (map (\<lambda>r. unat (cr_length r)) rs)"
proof (induction rs arbitrary: len)
  case Nil
  show ?case by (auto simp: word_unat_eq_iff)
next
  case (Cons r rs)
  show ?case
  proof (cases "unat len + unat (cr_length r) < 2 ^ 64")
    case True
    then have "unat (len + cr_length r) = unat len + unat (cr_length r)" by (simp add: unat_add_lem [THEN iffD1])
    with True Cons.IH [of "len + cr_length r"] show ?thesis
      by (auto simp: sum_chunk_def checked_add_def chunk_ok_def failed_def)
  next
    case False
    then show ?thesis using unat_less_64 [of n] by (auto simp: sum_chunk_def checked_add_def)
  qed
qed

text \<open>The page of a group of entries.\<close>

definition group_text :: "ext \<Rightarrow> catalog_entry list \<Rightarrow> bytes" where
  "group_text X es = json_text X (JArray (map entry_value es))"

definition group_page :: "ext \<Rightarrow> (bytes \<Rightarrow> digest) \<Rightarrow> catalog_entry list \<Rightarrow> catalog_page" where
  "group_page X H es =
     \<lparr>cp_first = (if es = [] then [] else ce_key (hd es)), cp_last = (if es = [] then [] else ce_key (last es)),
      cp_bytes = group_text X es, cp_hash = H (group_text X es)\<rparr>"

text \<open>The state between two entries: the pages written hold the groups \<open>gs\<close>, the open one \<open>cur\<close>.\<close>

definition pages_inv ::
  "ext \<Rightarrow> (bytes \<Rightarrow> digest) \<Rightarrow> nat \<Rightarrow> catalog_entry list list \<Rightarrow> catalog_entry list \<Rightarrow> paging_state \<Rightarrow> bool" where
  "pages_inv X H m gs cur st \<longleftrightarrow>
     ps_result st = map (group_page X H) gs \<and> list_all (\<lambda>g. g \<noteq> [] \<and> length (group_text X g) \<le> m) gs
     \<and> (cur = [] \<longrightarrow> gs = [])
     \<and> ps_page st @ [byte CHR '']''] = group_text X cur \<and> length (group_text X cur) \<le> m
     \<and> ps_first st = (if cur = [] then [] else ce_key (hd cur))
     \<and> ps_last st = (if cur = [] then [] else ce_key (last cur))"

lemma group_text_snoc:
  "group_text X (es @ [e]) =
     butlast (group_text X es) @ separator (length es) @ json_text X (entry_value e) @ [byte CHR '']'']"
  by (simp add: group_text_def join_snoc butlast_append)

lemma separator_simps [simp]: "separator 0 = []" "separator (Suc n) = [byte CHR '','']"
  by (simp_all add: separator_def)

lemma entry_text_long: "length (json_text X (entry_value e)) > 1"
  by (simp add: entry_value_def)

lemma page_length_one:
  assumes "pages_inv X H m gs cur st"
  shows "length (ps_page st) = 1 \<longleftrightarrow> cur = []" "length (ps_page st) > 1 \<longleftrightarrow> cur \<noteq> []"
proof -
  from assms have t: "ps_page st @ [byte CHR '']''] = group_text X cur" by (simp add: pages_inv_def)
  have len: "length (ps_page st) + 1 = length (group_text X cur)" using arg_cong [OF t, of length] by simp
  have "length (group_text X cur) = 2 \<longleftrightarrow> cur = []" "length (group_text X cur) \<ge> 2"
  proof -
    show "length (group_text X cur) \<ge> 2" by (simp add: group_text_def)
    show "length (group_text X cur) = 2 \<longleftrightarrow> cur = []"
      using entry_text_long [of X]
      by (cases cur) (auto simp: group_text_def join_def, metis gr_implies_not0 list.size(3))
  qed
  with len show "length (ps_page st) = 1 \<longleftrightarrow> cur = []" "length (ps_page st) > 1 \<longleftrightarrow> cur \<noteq> []" by linarith+
qed

lemma open_page:
  assumes "pages_inv X H m gs cur st" and "length (json_text X (entry_value e)) + 2 \<le> m" and "ce_key e = key"
    and "cur = [] \<or> length (ps_page st) + length (json_text X (entry_value e)) + 2 \<le> m"
  shows "pages_inv X H m gs (cur @ [e])
     ((if length (ps_page st) = 1 then st\<lparr>ps_first := key\<rparr> else st\<lparr>ps_page := ps_page st @ [byte CHR '','']\<rparr>)
      \<lparr>ps_page := ps_page (if length (ps_page st) = 1 then st\<lparr>ps_first := key\<rparr>
          else st\<lparr>ps_page := ps_page st @ [byte CHR '','']\<rparr>) @ json_text X (entry_value e), ps_last := key\<rparr>)"
proof -
  from assms(1) have t: "butlast (group_text X cur) = ps_page st" by (simp add: pages_inv_def) (metis butlast_snoc)
  show ?thesis
  proof (cases "cur = []")
    case True
    then have "length (ps_page st) = 1" using page_length_one [OF assms(1)] by simp
    with True assms(1-3) show ?thesis
      by (simp add: pages_inv_def group_text_snoc [of X "[]", simplified] t [unfolded True] del: json_text.simps)
  next
    case False
    then have "length (ps_page st) \<noteq> 1" "length cur = Suc (length cur - 1)" using page_length_one [OF assms(1)] by simp_all
    moreover have "separator (length cur) = [byte CHR '','']" by (subst calculation(2)) simp
    ultimately show ?thesis using assms False
      by (simp add: pages_inv_def group_text_snoc t)
  qed
qed

lemma pages_step_inv:
  assumes "pages_inv X H m gs cur st" and "pages_step X H m st (key, e) = Inr st'"
  shows "\<exists>gs' cur'. pages_inv X H m gs' cur' st' \<and> concat gs' @ cur' = concat gs @ cur @ [e] \<and> cur' \<noteq> []
     \<and> ce_key e = key \<and> key \<noteq> []"
proof -
  let ?bs = "json_text X (entry_value e)"
  from assms(2) have c: "ce_key e = key" "key \<noteq> []" "length ?bs + 2 \<le> m"
    by (auto simp: pages_step_def Let_def failed_def split: if_splits)
  show ?thesis
  proof (cases "length (ps_page st) > 1 \<and> length (ps_page st) + length ?bs + 2 > m")
    case True
    let ?st = "\<lparr>ps_result = ps_result st @ [close_page H st], ps_page = [byte CHR ''[''], ps_first = [], ps_last = ps_last st\<rparr>"
    have cur: "cur \<noteq> []" using True page_length_one [OF assms(1)] by simp
    then have "close_page H st = group_page X H cur"
      using assms(1) by (simp add: pages_inv_def close_page_def group_page_def Let_def)
    then have res: "ps_result ?st = map (group_page X H) (gs @ [cur])"
      using assms(1) by (simp add: pages_inv_def)
    have "st' = ?st\<lparr>ps_page := [byte CHR ''[''] @ ?bs, ps_first := key, ps_last := key\<rparr>"
      using assms(2) True c by (auto simp: pages_step_def Let_def failed_def split: if_splits)
    then have "pages_inv X H m (gs @ [cur]) [e] st'"
      using assms(1) cur res c by (simp add: pages_inv_def group_text_snoc [of X "[]", simplified])
        (simp add: group_text_def join_def)
    then show ?thesis using c by (intro exI [of _ "gs @ [cur]"] exI [of _ "[e]"]) simp
  next
    case False
    then have "cur = [] \<or> length (ps_page st) + length ?bs + 2 \<le> m" using page_length_one [OF assms(1)] by auto
    from open_page [OF assms(1) c(3,1) this] False assms(2) c
    have "pages_inv X H m gs (cur @ [e]) st'"
      by (auto simp: pages_step_def Let_def failed_def split: if_splits)
    then show ?thesis using c by (intro exI [of _ gs] exI [of _ "cur @ [e]"]) simp
  qed
qed

lemma pages_loop:
  assumes "foldE (pages_step X H m) st entries = Inr st'" and "pages_inv X H m gs cur st"
  shows "\<exists>gs' cur'. pages_inv X H m gs' cur' st' \<and> concat gs' @ cur' = concat gs @ cur @ map snd entries
     \<and> map fst entries = map (ce_key \<circ> snd) entries \<and> list_all (\<lambda>e. fst e \<noteq> []) entries"
  using assms
proof (induction entries arbitrary: st gs cur)
  case (Cons e entries)
  obtain key entry where e: "e = (key, entry)" by (cases e)
  from Cons.prems(1) obtain st1 where s: "pages_step X H m st (key, entry) = Inr st1" "foldE (pages_step X H m) st1 entries = Inr st'"
    by (auto simp: e bindE_Inr)
  from pages_step_inv [OF Cons.prems(2) s(1)] obtain gs1 cur1 where
    g: "pages_inv X H m gs1 cur1 st1" "concat gs1 @ cur1 = concat gs @ cur @ [entry]" "ce_key entry = key" "key \<noteq> []" by blast
  from Cons.IH [OF s(2) g(1)] obtain gs' cur' where
    "pages_inv X H m gs' cur' st'" "concat gs' @ cur' = concat gs1 @ cur1 @ map snd entries"
    "map fst entries = map (ce_key \<circ> snd) entries" "list_all (\<lambda>e. fst e \<noteq> []) entries" by blast
  with g show ?case by (intro exI [of _ gs'] exI [of _ cur']) (simp add: e)
qed auto

lemma catalog_pages_Inr:
  assumes "catalog_pages X H entries m = Inr ps"
  obtains gs where "ps = map (group_page X H) gs" and "concat gs = map snd entries"
    and "list_all (\<lambda>g. (g = [] \<longrightarrow> entries = []) \<and> length (group_text X g) \<le> m) gs"
    and "map fst entries = map (ce_key \<circ> snd) entries" and "list_all (\<lambda>e. fst e \<noteq> []) entries"
proof -
  let ?st = "\<lparr>ps_result = [], ps_page = [byte CHR ''[''], ps_first = [], ps_last = []\<rparr>"
  from assms obtain st where m: "128 \<le> m" and l: "foldE (pages_step X H m) ?st entries = Inr st"
    and ps: "ps = ps_result st @ [close_page H st]"
    by (auto simp: catalog_pages_def failed_def bindE_Inr split: if_splits)
  have "pages_inv X H m [] [] ?st" using m by (simp add: pages_inv_def group_text_def join_def)
  from pages_loop [OF l this] obtain gs cur where
    g: "pages_inv X H m gs cur st" "concat gs @ cur = map snd entries"
    "map fst entries = map (ce_key \<circ> snd) entries" "list_all (\<lambda>e. fst e \<noteq> []) entries" by auto
  have "close_page H st = group_page X H cur"
    using g(1) by (simp add: pages_inv_def close_page_def group_page_def Let_def)
  with g(1) ps have "ps = map (group_page X H) (gs @ [cur])" by (simp add: pages_inv_def)
  moreover have "list_all (\<lambda>g. (g = [] \<longrightarrow> entries = []) \<and> length (group_text X g) \<le> m) (gs @ [cur])"
    using g(1,2) by (auto simp: pages_inv_def list_all_iff)
  ultimately show thesis using that [of "gs @ [cur]"] g(2-4) by simp
qed

lemma read_entries_Inr:
  "foldE read_entry_step previous es = Inr p \<longleftrightarrow>
     list_all entry_ok es \<and> sorted_wrt (<) (map ce_key es) \<and> p = (if es = [] then previous else Some (ce_key (last es)))
     \<and> (case previous of None \<Rightarrow> True | Some k \<Rightarrow> list_all (\<lambda>e. k < ce_key e) es)"
proof (induction es arbitrary: previous)
  case Nil
  then show ?case by (cases previous) auto
next
  case (Cons e es)
  have step: "read_entry_step prev e = Inr q \<longleftrightarrow>
      entry_ok e \<and> (case prev of None \<Rightarrow> True | Some k \<Rightarrow> k < ce_key e) \<and> q = Some (ce_key e)" for prev q
    by (cases prev)
      (auto simp: read_entry_step_def failed_def bindE_Inr sum_chunks entry_ok_def not_le split: if_splits)
  show ?case
    by (cases previous) (auto simp: bindE_Inr step Cons.IH list_all_iff dest: order.strict_trans)
qed

section \<open>Properties\<close>

text \<open>The fingerprint of a map never panics: it is the digest of the domain and of the entries in
  order, and maps with different entries give it different bytes to digest, since each key comes
  with its length and each content digest has 32 bytes.\<close>

theorem fingerprint_separates:
  assumes "bt_inv xs" and "bt_inv ys"
    and "\<forall>(k, c) \<in> set xs \<union> set ys. length k < 2 ^ 64 \<and> length c = 32"
  shows "fingerprint H domain xs = Inr (H (fingerprint_input domain xs))
    \<and> (fingerprint_input domain xs = fingerprint_input domain ys \<longleftrightarrow> xs = ys)"
  using fingerprint_Inr [OF assms(1)] fingerprint_entries_inj [OF _ assms(3)] by (auto simp: fingerprint_input_def)

lemma fingerprint_separates_witness:
  "fingerprint_input [] [(''a'', replicate 32 1)] \<noteq> fingerprint_input [] [(''a'', replicate 32 2)]"
  using fingerprint_separates [of "[(''a'', replicate 32 1)]" "[(''a'', replicate 32 2)]" id "[]"]
  by (simp add: replicate_eq_replicate)

text \<open>C28. A catalog cut into pages is read back from them: every page is within the limit, names its
  first and last key, and reading the pages in turn against the digests they carry gives the
  entries of the catalog in order, when the entries are consistent and \<^verbatim>\<open>serde_json\<close> reads the
  text it wrote.\<close>

theorem catalog_roundtrip:
  assumes "catalog_pages X H entries max_bytes = Inr ps" and "bt_inv entries"
    and "list_all (\<lambda>(k, e). entry_ok e \<and> length (ce_hash e) = 32 \<and> list_all (\<lambda>r. length (cr_hash r) = 32) (ce_chunks e)) entries"
    and "\<And>g. sublist g (map snd entries) \<Longrightarrow> (g = [] \<longrightarrow> entries = []) \<Longrightarrow> reads_back X (JArray (map entry_value g))"
  shows "\<exists>gs. mapE (\<lambda>p. read_page X H (cp_bytes p) (cp_hash p) max_bytes) ps = Inr gs \<and> concat gs = map snd entries
    \<and> list_all2 (\<lambda>p g. length (cp_bytes p) \<le> max_bytes
        \<and> (if g = [] then True else cp_first p = ce_key (hd g) \<and> cp_last p = ce_key (last g))) ps gs"
proof -
  from assms(1) obtain gs where ps: "ps = map (group_page X H) gs" and c: "concat gs = map snd entries"
    and ok: "list_all (\<lambda>g. (g = [] \<longrightarrow> entries = []) \<and> length (group_text X g) \<le> max_bytes) gs"
    and keys: "map fst entries = map (ce_key \<circ> snd) entries" by (rule catalog_pages_Inr)
  have sorted: "sorted_wrt (<) (map ce_key (concat gs))"
    using assms(2) keys by (simp add: bt_inv_def c map_map)
  have "read_page X H (group_text X g) (H (group_text X g)) max_bytes = Inr g" if g: "g \<in> set gs" for g
  proof -
    obtain us vs where "gs = us @ g # vs" using g by (meson split_list)
    then have whole: "concat gs = concat us @ g @ concat vs" by simp
    then have sub: "sublist g (map snd entries)" using c unfolding sublist_def by metis
    have valid: "entry_ok e" "length (ce_hash e) = 32" "list_all (\<lambda>r. length (cr_hash r) = 32) (ce_chunks e)"
      if "e \<in> set g" for e
      using that assms(3) set_mono_sublist [OF sub] by (fastforce simp: list_all_iff)+
    have "those (map (entry_from \<circ> entry_value) g) = Some g"
      by (rule those_map_Some) (use valid entry_from_value in blast)
    then have "as_list entry_from (Some (JArray (map entry_value g))) = Some g" by (simp add: as_list_def)
    moreover have "from_slice X (group_text X g) = Some (JArray (map entry_value g))"
      using assms(4) [OF sub] ok g unfolding reads_back_def group_text_def by (simp add: list_all_iff del: json_text.simps)
    moreover have "foldE read_entry_step None g \<noteq> Inl e" for e
    proof -
      have "list_all entry_ok g" using valid by (simp add: list_all_iff)
      moreover have "sorted_wrt (<) (map ce_key g)" using sorted by (simp add: whole sorted_wrt_append)
      ultimately have "\<exists>p. foldE read_entry_step None g = Inr p" by (simp add: read_entries_Inr)
      then show ?thesis by auto
    qed
    ultimately show ?thesis using ok g
      by (cases "foldE read_entry_step None g")
        (auto simp: read_page_def list_all_iff not_less)
  qed
  then have "mapE (\<lambda>p. read_page X H (cp_bytes p) (cp_hash p) max_bytes) ps = Inr gs"
    by (simp add: ps mapE_Inr_iff list_all2_map1 list_all2_same group_page_def)
  then show ?thesis using c ok
    by (intro exI [of _ gs]) (auto simp: ps list_all2_map1 list_all2_same group_page_def list_all_iff)
qed

text \<open>Whatever bytes it is given, a page that is accepted has the expected digest and fits the
  limit, its keys are distinct and ascend, and every entry is consistent: its chunks name a pack, do
  not run past 64 bits and add up to its length.\<close>

theorem read_page_sound:
  "case read_page X H bs expected max_bytes of
     Inl e \<Rightarrow> e \<noteq> Format_Panic
   | Inr es \<Rightarrow>
       H bs = expected \<and> length bs \<le> max_bytes \<and> sorted_wrt (<) (map ce_key es) \<and> list_all entry_ok es"
proof (cases "read_page X H bs expected max_bytes")
  case (Inl e)
  have "sum_chunk len r \<noteq> Inl Format_Panic" for len r by (auto simp: sum_chunk_def failed_def bindE_Inl)
  then have "foldE sum_chunk len rs \<noteq> Inl Format_Panic" for len rs
    by (induction rs arbitrary: len) (auto simp: bindE_Inl)
  then have "read_entry_step p e \<noteq> Inl Format_Panic" for p e
    by (auto simp: read_entry_step_def failed_def bindE_Inl)
  then have "foldE read_entry_step p es \<noteq> Inl Format_Panic" for p es
    by (induction es arbitrary: p) (auto simp: bindE_Inl)
  with Inl show ?thesis by (auto simp: read_page_def failed_def bindE_Inl split: if_splits)
next
  case (Inr es)
  then show ?thesis by (auto simp: read_page_def failed_def bindE_Inr read_entries_Inr split: if_splits)
qed

text \<open>A descriptor that is valid is read back from its text, declares there the level it has, and
  accepts exactly the levels from 2 on that fit a JavaScript integer, if it has a strategy;
  raising the level leaves it the same repository.\<close>

theorem repository_levels:
  assumes "repository_validate d = Inr ()" and "reads_back X (repository_value d)"
    and "length (json_text X (repository_value d)) \<le> 64 * 1024"
  shows "repository_decode X (json_text X (repository_value d)) = Inr d
    \<and> declared_format_level X (json_text X (repository_value d)) = rd_level d
    \<and> (case with_format_level d n of
         Inr d' \<Rightarrow> 2 \<le> n \<and> n \<le> 2 ^ 53 - 1 \<and> rd_strategy d \<noteq> None \<and> repository_level d' = n \<and> same_repository d d'
       | Inl _ \<Rightarrow> n < 2 \<or> 2 ^ 53 \<le> n \<or> rd_strategy d = None)"
proof -
  have "repository_decode X (json_text X (repository_value d)) = Inr d"
    using assms repository_from_value [of d] by (simp add: repository_decode_def reads_back_def)
  moreover have "declared_format_level X (json_text X (repository_value d)) = rd_level d"
    using assms(2)
    by (cases "rd_level d") (auto simp: declared_format_level_def reads_back_def repository_value_def)
  moreover have "case with_format_level d n of
         Inr d' \<Rightarrow> 2 \<le> n \<and> n \<le> 2 ^ 53 - 1 \<and> rd_strategy d \<noteq> None \<and> repository_level d' = n \<and> same_repository d d'
       | Inl _ \<Rightarrow> n < 2 \<or> 2 ^ 53 \<le> n \<or> rd_strategy d = None"
  proof (cases "repository_validate (d\<lparr>rd_level := Some n\<rparr>)")
    case (Inl e)
    with assms(1) have "\<not> (2 \<le> n \<and> n \<le> 2 ^ 53 - 1 \<and> rd_strategy d \<noteq> None)"
      using repository_validate_Inr [of "d\<lparr>rd_level := Some n\<rparr>"] by (auto simp: repository_validate_Inr)
    then have "n < 2 \<or> 2 ^ 53 \<le> n \<or> rd_strategy d = None"
      by (auto simp: word_le_nat_alt word_less_nat_alt)
    with Inl show ?thesis by (simp add: with_format_level_def)
  next
    case (Inr u)
    with assms(1) have "2 \<le> n \<and> n \<le> 2 ^ 53 - 1 \<and> rd_strategy d \<noteq> None"
      using repository_validate_Inr [of "d\<lparr>rd_level := Some n\<rparr>"] by simp
    with Inr show ?thesis by (simp add: with_format_level_def repository_level_def same_repository_def)
  qed
  ultimately show ?thesis by blast
qed

definition sample_entry :: catalog_entry where
  "sample_entry = \<lparr>ce_key = ''a'', ce_hash = replicate 32 0, ce_length = 3,
     ce_chunks = [\<lparr>cr_pack = ''p'', cr_offset = 5, cr_length = 3, cr_hash = replicate 32 0\<rparr>]\<rparr>"

lemma catalog_roundtrip_witness:
  "let X = sample_ext (JArray [entry_value sample_entry]) in
     case catalog_pages X sample_digest32 [(''a'', sample_entry)] 1000 of
       Inl _ \<Rightarrow> False
     | Inr ps \<Rightarrow> \<exists>gs. mapE (\<lambda>p. read_page X sample_digest32 (cp_bytes p) (cp_hash p) 1000) ps = Inr gs \<and> concat gs = [sample_entry]"
proof -
  let ?X = "sample_ext (JArray [entry_value sample_entry])"
  have t: "length (json_text ?X (bytes_value bs)) \<le> length bs + 2" for bs
    using length_join [of "map (json_text ?X \<circ> (\<lambda>b. JNumber (PosInt (ucast b)))) bs"]
    by (simp add: bytes_value_def sample_ext_def quote_def o_def)
  have n: "decimal_string 3 = [digit_char 3]" "decimal_string 5 = [digit_char 5]"
    by (simp_all add: decimal_string_def show_nat.simps)
  have "length (json_text ?X (reference_value (hd (ce_chunks sample_entry)))) \<le> 200"
    using t [of "replicate 32 0"]
    by (simp add: reference_value_def control_value_def sample_entry_def join_def separator_def n)
      (simp add: sample_ext_def quote_def as_bytes_def)
  then have "length (json_text ?X (entry_value sample_entry)) \<le> 500"
    using t [of "replicate 32 0"]
    by (simp add: entry_value_def control_value_def sample_entry_def join_def separator_def n)
      (simp add: sample_ext_def quote_def as_bytes_def)
  then obtain ps where ps: "catalog_pages ?X sample_digest32 [(''a'', sample_entry)] 1000 = Inr ps"
    by (simp add: catalog_pages_def pages_step_def Let_def) (simp add: sample_entry_def)
  have "reads_back ?X (JArray (map entry_value g))"
    if "sublist g (map snd [(''a'', sample_entry)])" "g = [] \<longrightarrow> [(''a'', sample_entry)] = []" for g
  proof -
    from that have "g = [sample_entry]" by (auto simp: sublist_def Cons_eq_append_conv)
    then show ?thesis by (simp add: reads_back_def sample_ext_def)
  qed
  with catalog_roundtrip [OF ps] show ?thesis
    unfolding Let_def ps by (simp add: sample_entry_def entry_ok_def chunk_ok_def) blast
qed

lemma repository_levels_witness:
  "let d = \<lparr>rd_schema = SCHEMA, rd_id = ''r'', rd_encrypted = True, rd_strategy = Some Cas, rd_level = None\<rparr>;
       X = sample_ext (repository_value d)
   in repository_decode X (json_text X (repository_value d)) = Inr d \<and> is_ok (with_format_level d 2)"
proof -
  let ?d = "\<lparr>rd_schema = SCHEMA, rd_id = ''r'', rd_encrypted = True, rd_strategy = Some Cas, rd_level = None\<rparr>"
  let ?X = "sample_ext (repository_value ?d)"
  have "length (json_text ?X (repository_value ?d)) \<le> 64 * 1024"
    by (simp add: sample_ext_def repository_value_def quote_def as_bytes_def join_def separator_def SCHEMA_def
        strategy_value_def)
  moreover have "reads_back ?X (repository_value ?d)" by (simp add: reads_back_def sample_ext_def)
  moreover have "repository_validate ?d = Inr ()" by (simp add: repository_validate_Inr)
  ultimately show ?thesis
    unfolding Let_def using repository_levels [of ?d ?X 2] by (auto simp: is_ok_iff split: sum.splits)
qed

end
