(* ===== verification/Secretstream.thy ===== *)
theory Secretstream
  imports Format_Io
begin

text \<open>
  Encrypted objects, the first half of \<^verbatim>\<open>crates/external-storage-format/src/crypto.rs\<close>: framing of a
  plaintext of known length into messages of the XChaCha20-Poly1305 secretstream. The stream
  cipher comes from \<^verbatim>\<open>dryoc\<close>: \<open>C\<close> is its initial state for a key and a header, its push and its
  pull; the random header that \<^verbatim>\<open>init_push\<close> makes is an argument of \<open>encrypt\<close>.
\<close>

record 's cipher =
  ss_init :: "bytes \<Rightarrow> bytes \<Rightarrow> 's"
  ss_push :: "'s \<Rightarrow> bytes \<Rightarrow> bytes \<Rightarrow> u8 \<Rightarrow> (bytes \<times> 's) option"
  ss_pull :: "'s \<Rightarrow> bytes \<Rightarrow> bytes \<Rightarrow> (bytes \<times> u8 \<times> 's) option"

definition TAG_BYTES :: nat where "TAG_BYTES = 17"
definition FINAL :: u8 where "FINAL = 3"
definition MESSAGE :: u8 where "MESSAGE = 0"
definition CRYPT_MAGIC :: bytes where "CRYPT_MAGIC = as_bytes ''RNE1''"
definition FRAME_BYTES :: nat where "FRAME_BYTES = 64 * 1024"
definition MAX_BINDING :: nat where "MAX_BINDING = 16 * 1024"
definition FIXED_OVERHEAD :: u64 where "FIXED_OVERHEAD = 4 + 8 + 24 + 4 + of_nat TAG_BYTES"

definition aad :: "bytes \<Rightarrow> u64 \<Rightarrow> bytes formatted" where
  "aad binding len =
     (if binding = [] \<or> length binding > MAX_BINDING then failed ''invalid-object-binding''
      else Inr (CRYPT_MAGIC @ u64_to_le len @ u32_to_le (of_nat (length binding)) @ binding))"

definition checked_mul :: "u64 \<Rightarrow> u64 \<Rightarrow> u64 option" where
  "checked_mul a b = (if unat a * unat b < 2 ^ 64 then Some (a * b) else None)"

definition u64_div_ceil :: "u64 \<Rightarrow> u64 \<Rightarrow> u64" where
  "u64_div_ceil a b = (if a mod b > 0 then a div b + 1 else a div b)"

definition ciphertext_length :: "u64 \<Rightarrow> u64 formatted" where
  "ciphertext_length len =
     ok_or (Option.bind (Option.bind (checked_mul (u64_div_ceil len (of_nat FRAME_BYTES)) (of_nat (4 + TAG_BYTES)))
              (\<lambda>n. checked_add n len)) (\<lambda>n. checked_add n FIXED_OVERHEAD))
       (FormatError ''length-overflow'')"

section \<open>Sealing\<close>

lemma remaining_shrinks:
  fixes remaining :: u64
  assumes "remaining > 0"
  shows "unat (remaining - min remaining (of_nat FRAME_BYTES)) < unat remaining"
proof -
  have "min remaining (of_nat FRAME_BYTES) > 0" using assms by (simp add: FRAME_BYTES_def min_def)
  with assms show ?thesis by (simp add: word_less_nat_alt unat_sub)
qed

function encrypt_loop ::
  "'s cipher \<Rightarrow> bytes \<Rightarrow> 's \<Rightarrow> u64 \<Rightarrow> source \<Rightarrow> sink \<Rightarrow> ('s \<times> source \<times> sink) formatted" where
  "encrypt_loop C ad st remaining src out =
     (if remaining > 0 then
        let cnt = min remaining (of_nat FRAME_BYTES) in
        bindE (read_full (unat cnt) src) (\<lambda>(plaintext, src).
        bindE (ok_or (ss_push C st plaintext ad MESSAGE) (FormatError ''encryption-failed'')) (\<lambda>(ciphertext, st).
        bindE (put_all out (u32_to_le (of_nat (unat cnt + TAG_BYTES)))) (\<lambda>out.
        bindE (put_all out ciphertext) (\<lambda>out.
        encrypt_loop C ad st (remaining - cnt) src out))))
      else Inr (st, src, out))"
  by pat_completeness auto

termination
  by (relation "measure (\<lambda>(C, ad, st, remaining, src, out). unat remaining)") (auto intro: remaining_shrinks)

declare encrypt_loop.simps [simp del]

definition encrypt ::
  "'s cipher \<Rightarrow> bytes \<Rightarrow> source \<Rightarrow> sink \<Rightarrow> bytes \<Rightarrow> bytes \<Rightarrow> u64 \<Rightarrow> (source \<times> sink) formatted" where
  "encrypt C header src out key binding len =
     bindE (aad binding len) (\<lambda>ad.
     let st = ss_init C key header in
     bindE (put_all out CRYPT_MAGIC) (\<lambda>out.
     bindE (put_all out (u64_to_le len)) (\<lambda>out.
     bindE (put_all out header) (\<lambda>out.
     bindE (encrypt_loop C ad st len src out) (\<lambda>(st, src, out).
     bindE (read_up_to 1 src) (\<lambda>(extra, src).
     if extra \<noteq> [] then failed ''object-length-mismatch''
     else
       bindE (ok_or (ss_push C st [] ad FINAL) (FormatError ''encryption-failed'')) (\<lambda>(end_frame, st).
       bindE (put_all out (u32_to_le (of_nat TAG_BYTES))) (\<lambda>out.
       bindE (put_all out end_frame) (\<lambda>out. Inr (src, out))))))))))"

section \<open>Opening\<close>

function decrypt_loop ::
  "'s cipher \<Rightarrow> bytes \<Rightarrow> 's \<Rightarrow> u64 \<Rightarrow> u64 \<Rightarrow> source \<Rightarrow> sink \<Rightarrow> (u64 \<times> source \<times> sink) formatted" where
  "decrypt_loop C ad st len total_bytes src staging =
     bindE (read_full 4 src) (\<lambda>(bs, src1).
     let frame_length = unat (u32_from_le bs) in
     if \<not> (TAG_BYTES \<le> frame_length \<and> frame_length \<le> FRAME_BYTES + TAG_BYTES) then failed ''invalid-encrypted-frame''
     else
       bindE (read_full frame_length src1) (\<lambda>(ciphertext, src2).
       bindE (ok_or (ss_pull C st ciphertext ad) (FormatError ''object-authentication-failed'')) (\<lambda>(plaintext, tag, st').
       if tag = FINAL then
         (if plaintext \<noteq> [] \<or> total_bytes \<noteq> len then failed ''object-length-mismatch''
          else
            bindE (read_up_to 1 src2) (\<lambda>(extra, src3).
            if extra \<noteq> [] then failed ''trailing-encrypted-bytes'' else Inr (total_bytes, src3, staging)))
       else if tag \<noteq> MESSAGE \<or> plaintext = [] then failed ''invalid-encrypted-tag''
       else
         bindE (ok_or (checked_add total_bytes (of_nat (length plaintext))) (FormatError ''length-overflow'')) (\<lambda>total'.
         if total' > len then failed ''object-length-mismatch''
         else
           bindE (put_all staging plaintext) (\<lambda>staging'.
           decrypt_loop C ad st' len total' src2 staging')))))"
  by pat_completeness auto
termination
  by (relation "measure (\<lambda>(C, ad, st, len, n, src, staging). length (given src))") (auto dest!: read_full_Inr)

declare decrypt_loop.simps [simp del]

definition decrypt ::
  "'s cipher \<Rightarrow> source \<Rightarrow> sink \<Rightarrow> bytes \<Rightarrow> bytes \<Rightarrow> u64 \<Rightarrow> (u64 \<times> source \<times> sink) formatted" where
  "decrypt C src staging key binding max_length =
     bindE (read_full 4 src) (\<lambda>(magic, src).
     if magic \<noteq> CRYPT_MAGIC then failed ''invalid-encrypted-object''
     else
       bindE (read_full 8 src) (\<lambda>(bs, src).
       let len = u64_from_le bs in
       if len > max_length then failed ''decoded-limit-exceeded''
       else
         bindE (aad binding len) (\<lambda>ad.
         bindE (read_full 24 src) (\<lambda>(header, src).
         decrypt_loop C ad (ss_init C key header) len 0 src staging))))"

section \<open>Lemmas\<close>

text \<open>What is assumed of the cipher: a message it pushed is longer by the tag and is pulled from the same
  state under the same additional data, with its tag, into the same next state.\<close>

definition cipher_ok :: "'s cipher \<Rightarrow> bool" where
  "cipher_ok C \<longleftrightarrow> (\<forall>st p ad tag c st'. ss_push C st p ad tag = Some (c, st') \<longrightarrow>
     length c = length p + TAG_BYTES \<and> ss_pull C st c ad = Some (p, tag, st'))"

lemma encrypt_loop_step:
  assumes "encrypt_loop C ad st remaining src out = Inr (st', src', out')" and "remaining > 0"
  obtains plaintext src1 ciphertext st1 out1 out2 where
    "read_full (unat (min remaining (of_nat FRAME_BYTES))) src = Inr (plaintext, src1)"
    "ss_push C st plaintext ad MESSAGE = Some (ciphertext, st1)"
    "put_all out (u32_to_le (of_nat (unat (min remaining (of_nat FRAME_BYTES)) + TAG_BYTES))) = Inr out1"
    "put_all out1 ciphertext = Inr out2"
    "encrypt_loop C ad st1 (remaining - min remaining (of_nat FRAME_BYTES)) src1 out2 = Inr (st', src', out')"
  using assms(1) [unfolded encrypt_loop.simps [of C ad st remaining src out]] assms(2) that
  by (auto simp: bindE_Inr Let_def)

lemma count_facts:
  fixes remaining :: u64
  assumes "remaining > 0"
  shows "0 < unat (min remaining (of_nat FRAME_BYTES))" "unat (min remaining (of_nat FRAME_BYTES)) \<le> FRAME_BYTES"
    "unat (remaining - min remaining (of_nat FRAME_BYTES)) + unat (min remaining (of_nat FRAME_BYTES)) = unat remaining"
proof -
  have F: "unat (of_nat FRAME_BYTES :: u64) = FRAME_BYTES" by (simp add: FRAME_BYTES_def)
  show "0 < unat (min remaining (of_nat FRAME_BYTES))" "unat (min remaining (of_nat FRAME_BYTES)) \<le> FRAME_BYTES"
    using assms F by (auto simp: min_def word_less_nat_alt word_le_nat_alt FRAME_BYTES_def)
  show "unat (remaining - min remaining (of_nat FRAME_BYTES)) + unat (min remaining (of_nat FRAME_BYTES)) = unat remaining"
    using assms by (auto simp: min_def unat_sub word_le_nat_alt)
qed

text \<open>One frame: what its length field says and what pulling it does.\<close>

lemma pull_frame:
  assumes "cipher_ok C" and "ss_push C st p ad tag = Some (c, st')" and "length p \<le> FRAME_BYTES"
    and "sound src" and "given src = u32_to_le (of_nat (length p + TAG_BYTES)) @ c @ rest"
  obtains src1 src2 where "read_full 4 src = Inr (u32_to_le (of_nat (length p + TAG_BYTES)), src1)"
    and "unat (of_nat (length p + TAG_BYTES) :: u32) = length p + TAG_BYTES"
    and "read_full (length p + TAG_BYTES) src1 = Inr (c, src2)" and "ss_pull C st c ad = Some (p, tag, st')"
    and "sound src2" and "given src2 = rest"
proof -
  from assms(1,2) have c: "length c = length p + TAG_BYTES" "ss_pull C st c ad = Some (p, tag, st')"
    unfolding cipher_ok_def by blast+
  have n: "unat (of_nat (length p + TAG_BYTES) :: u32) = length p + TAG_BYTES"
    using assms(3) by (intro unat_of_nat_32) (simp add: FRAME_BYTES_def TAG_BYTES_def)
  from read_full_take [OF assms(4,5), of 4] obtain src1 where
    s1: "read_full 4 src = Inr (u32_to_le (of_nat (length p + TAG_BYTES)), src1)" "sound src1" "given src1 = c @ rest"
    by auto
  from read_full_take [OF s1(2,3), of "length p + TAG_BYTES"] c(1) obtain src2 where
    "read_full (length p + TAG_BYTES) src1 = Inr (c, src2)" "sound src2" "given src2 = rest" by auto
  with s1(1) n c(2) that show thesis by blast
qed

lemma encrypt_loop_opens:
  assumes "cipher_ok C"
  shows "encrypt_loop C ad st remaining src out = Inr (st', src', out') \<Longrightarrow>
    \<exists>p. given src = p @ given src' \<and> length p = unat remaining \<and> (sound src \<longrightarrow> sound src')
      \<and> length (sunk out') = length (sunk out) + unat remaining
          + (unat remaining + FRAME_BYTES - 1) div FRAME_BYTES * (4 + TAG_BYTES)
      \<and> (\<exists>sealed. sunk out' = sunk out @ sealed \<and>
        (\<forall>len total_bytes csrc rest staging.
          (sound csrc \<and> given csrc = sealed @ rest \<and> unat total_bytes + unat remaining \<le> unat len) \<longrightarrow>
          (\<exists>csrc'. sound csrc' \<and> given csrc' = rest
            \<and> decrypt_loop C ad st len total_bytes csrc (vector staging)
              = decrypt_loop C ad st' len (total_bytes + remaining) csrc' (vector (staging @ p)))))"
proof (induction "unat remaining" arbitrary: st remaining src out rule: less_induct)
  case less
  show ?case
  proof (cases "remaining > 0")
    case False
    then have "remaining = 0" by (simp add: word_less_nat_alt unat_eq_0)
    with less.prems have "st' = st" "src' = src" "out' = out" by (simp_all add: encrypt_loop.simps)
    with \<open>remaining = 0\<close> show ?thesis by (auto simp: FRAME_BYTES_def)
  next
    case True
    define k where "k = unat (min remaining (of_nat FRAME_BYTES))"
    define left where "left = remaining - min remaining (of_nat FRAME_BYTES)"
    from encrypt_loop_step [OF less.prems True] obtain p1 src1 c st1 out1 out2 where
      r: "read_full k src = Inr (p1, src1)" and push: "ss_push C st p1 ad MESSAGE = Some (c, st1)"
      and w1: "put_all out (u32_to_le (of_nat (k + TAG_BYTES))) = Inr out1" and w2: "put_all out1 c = Inr out2"
      and loop: "encrypt_loop C ad st1 left src1 out2 = Inr (st', src', out')"
      unfolding k_def left_def by metis
    note K = count_facts [OF True, folded k_def left_def]
    note R = read_full_Inr [OF r]
    then have p1: "length p1 = k" by simp
    from K(1,3) have "unat left < unat remaining" by simp
    from less.hyps [OF this loop] obtain p2 sealed where
      p2: "given src1 = p2 @ given src'" "length p2 = unat left" "sound src1 \<longrightarrow> sound src'"
      and len: "length (sunk out') = length (sunk out2) + unat left + (unat left + FRAME_BYTES - 1) div FRAME_BYTES * (4 + TAG_BYTES)"
      and sealed: "sunk out' = sunk out2 @ sealed"
      and opens: "\<And>len total_bytes csrc rest staging. sound csrc \<and> given csrc = sealed @ rest \<and> unat total_bytes + unat left \<le> unat len \<Longrightarrow>
          (\<exists>csrc'. sound csrc' \<and> given csrc' = rest
            \<and> decrypt_loop C ad st1 len total_bytes csrc (vector staging)
              = decrypt_loop C ad st' len (total_bytes + left) csrc' (vector (staging @ p2)))"
      by blast
    have clen: "length c = k + TAG_BYTES" using assms push p1 unfolding cipher_ok_def by metis
    have out2: "sunk out2 = sunk out @ u32_to_le (of_nat (k + TAG_BYTES)) @ c"
      using put_all_Inr [OF w1] put_all_Inr [OF w2] by simp
    have frames: "(unat remaining + FRAME_BYTES - 1) div FRAME_BYTES = (unat left + FRAME_BYTES - 1) div FRAME_BYTES + 1"
    proof (cases "unat remaining \<ge> FRAME_BYTES")
      case True
      then have "k = FRAME_BYTES" using K(2) unfolding k_def by (auto simp: min_def word_le_nat_alt FRAME_BYTES_def)
      then have "unat remaining + FRAME_BYTES - 1 = (unat left + FRAME_BYTES - 1) + FRAME_BYTES" using K(3)
        by (simp add: FRAME_BYTES_def)
      then show ?thesis by (simp add: FRAME_BYTES_def)
    next
      case small: False
      then have "k = unat remaining" unfolding k_def by (auto simp: min_def word_le_nat_alt FRAME_BYTES_def)
      then have "unat left = 0" "unat remaining + FRAME_BYTES - 1 = FRAME_BYTES + (unat remaining - 1)" "unat remaining - 1 < FRAME_BYTES"
        using K small by (simp_all add: FRAME_BYTES_def)
      then show ?thesis by (simp add: FRAME_BYTES_def)
    qed
    have sum: "left + min remaining (of_nat FRAME_BYTES) = remaining" by (simp add: left_def)
    have kw: "of_nat k = min remaining (of_nat FRAME_BYTES)" by (simp add: k_def)
    have "\<exists>csrc'. sound csrc' \<and> given csrc' = rest
        \<and> decrypt_loop C ad st len total_bytes csrc (vector staging)
          = decrypt_loop C ad st' len (total_bytes + remaining) csrc' (vector (staging @ p1 @ p2))"
      if src: "sound csrc" "given csrc = (u32_to_le (of_nat (k + TAG_BYTES)) @ c @ sealed) @ rest"
        and fits: "unat total_bytes + unat remaining \<le> unat len" for len total_bytes csrc rest staging
    proof -
      from src(2) have g: "given csrc = u32_to_le (of_nat (length p1 + TAG_BYTES)) @ c @ (sealed @ rest)" by (simp add: p1)
      have "length p1 \<le> FRAME_BYTES" using K(2) p1 by simp
      from pull_frame [OF assms push this src(1) g] obtain c1 c2 where
        f: "read_full 4 csrc = Inr (u32_to_le (of_nat (k + TAG_BYTES)), c1)"
          "unat (of_nat (k + TAG_BYTES) :: u32) = k + TAG_BYTES"
          "read_full (k + TAG_BYTES) c1 = Inr (c, c2)" "ss_pull C st c ad = Some (p1, MESSAGE, st1)"
          "sound c2" "given c2 = sealed @ rest" unfolding p1 by blast
      have tot: "unat (total_bytes + of_nat k) = unat total_bytes + k" and kk: "unat (of_nat k :: u64) = k"
      proof -
        show kk: "unat (of_nat k :: u64) = k" by (simp add: kw k_def)
        show "unat (total_bytes + of_nat k) = unat total_bytes + k"
          using fits K(3) kk unat_less_64 [of len] by (subst unat_add_lem [THEN iffD1]) simp_all
      qed
      have add: "checked_add total_bytes (of_nat (length p1)) = Some (total_bytes + of_nat k)"
        using fits K(3) kk unat_less_64 [of len] by (simp add: checked_add_def p1)
      have le: "\<not> total_bytes + of_nat k > len" using tot fits K(3) by (simp add: word_less_nat_alt)
      have "p1 \<noteq> []" using K(1) p1 by auto
      then have step: "decrypt_loop C ad st len total_bytes csrc (vector staging)
          = decrypt_loop C ad st1 len (total_bytes + of_nat k) c2 (vector (staging @ p1))"
        using f(1,3,4) K(2) f(2) add le
        by (subst decrypt_loop.simps) (simp add: Let_def MESSAGE_def FINAL_def)
      have "sound c2 \<and> given c2 = sealed @ rest \<and> unat (total_bytes + of_nat k) + unat left \<le> unat len"
        using f(5,6) tot fits K(3) by simp
      from opens [OF this, of "staging @ p1"] obtain csrc' where "sound csrc'" "given csrc' = rest"
        "decrypt_loop C ad st1 len (total_bytes + of_nat k) c2 (vector (staging @ p1))
          = decrypt_loop C ad st' len (total_bytes + of_nat k + left) csrc' (vector ((staging @ p1) @ p2))" by blast
      moreover have "total_bytes + of_nat k + left = total_bytes + remaining" using sum kw by (simp add: ac_simps)
      ultimately show ?thesis using step by auto
    qed
    then show ?thesis
      using R p2 K(3) p1 sealed out2 len clen frames
      by (intro exI [of _ "p1 @ p2"]) (auto intro!: exI [of _ "u32_to_le (of_nat (k + TAG_BYTES)) @ c @ sealed"])
  qed
qed

lemma encrypt_Inr:
  assumes "encrypt C header src out key binding len = Inr (src', out')"
  obtains ad out0 st src1 out1 src2 c st2 where
    "aad binding len = Inr ad" and "sunk out0 = sunk out @ CRYPT_MAGIC @ u64_to_le len @ header"
    and "encrypt_loop C ad (ss_init C key header) len src out0 = Inr (st, src1, out1)"
    and "read_up_to 1 src1 = Inr ([], src')" and "ss_push C st [] ad FINAL = Some (c, st2)"
    and "sunk out' = sunk out1 @ u32_to_le (of_nat TAG_BYTES) @ c"
  using assms that unfolding encrypt_def
  by (auto simp: bindE_Inr Let_def dest!: put_all_Inr split: if_splits)

lemma encrypt_appends:
  assumes "encrypt C header src out key binding len = Inr (src', out')" and "cipher_ok C"
  shows "\<exists>bs. sunk out' = sunk out @ bs"
proof -
  from assms(1) obtain ad out0 st src1 out1 c where out0: "sunk out0 = sunk out @ CRYPT_MAGIC @ u64_to_le len @ header"
    and loop: "encrypt_loop C ad (ss_init C key header) len src out0 = Inr (st, src1, out1)"
    and out': "sunk out' = sunk out1 @ u32_to_le (of_nat TAG_BYTES) @ c" by (rule encrypt_Inr)
  from encrypt_loop_opens [OF assms(2) loop] obtain sealed where "sunk out1 = sunk out0 @ sealed" by blast
  with out0 out' show ?thesis by simp
qed

lemma encrypt_length:
  assumes "encrypt C header src out key binding len = Inr (src', out')" and "cipher_ok C" and "length header = 24"
  shows "length (sunk out') = length (sunk out) + (57 + unat len + (unat len + FRAME_BYTES - 1) div FRAME_BYTES * 21)"
proof -
  from assms(1) obtain ad out0 st src1 out1 src2 c st2 where
    out0: "sunk out0 = sunk out @ CRYPT_MAGIC @ u64_to_le len @ header"
    and loop: "encrypt_loop C ad (ss_init C key header) len src out0 = Inr (st, src1, out1)"
    and push: "ss_push C st [] ad FINAL = Some (c, st2)"
    and out': "sunk out' = sunk out1 @ u32_to_le (of_nat TAG_BYTES) @ c" by (rule encrypt_Inr)
  have "length c = TAG_BYTES" using push assms(2) unfolding cipher_ok_def by fastforce
  then show ?thesis
    using encrypt_loop_opens [OF assms(2) loop] out0 out' assms(3)
    by (auto simp: CRYPT_MAGIC_def as_bytes_def TAG_BYTES_def)
qed

lemma final_frame:
  assumes "cipher_ok C" and "ss_push C st [] ad FINAL = Some (c, st2)"
    and "sound src" and "given src = u32_to_le (of_nat TAG_BYTES) @ c"
  obtains src' where "decrypt_loop C ad st len len src staging = Inr (len, src', staging)" and "given src' = []"
proof -
  have g: "given src = u32_to_le (of_nat (length ([] :: bytes) + TAG_BYTES)) @ c @ []" using assms(4) by simp
  from pull_frame [OF assms(1,2) _ assms(3) g] obtain s1 s2 where
    f: "read_full 4 src = Inr (u32_to_le (of_nat TAG_BYTES), s1)" "unat (of_nat TAG_BYTES :: u32) = TAG_BYTES"
      "read_full TAG_BYTES s1 = Inr (c, s2)" "ss_pull C st c ad = Some ([], FINAL, st2)" "sound s2" "given s2 = []"
    by auto
  from read_up_to_end [OF f(5,6), of 1] obtain s3 where s3: "read_up_to 1 s2 = Inr ([], s3)" .
  with read_up_to_Inr(1) [OF s3] f(6) have "given s3 = []" by simp
  moreover have "decrypt_loop C ad st len len src staging = Inr (len, s3, staging)"
    using f(1,3,4) s3 f(2) by (subst decrypt_loop.simps) (simp add: Let_def)
  ultimately show thesis using that by blast
qed

lemma decrypt_encrypted:
  assumes "encrypt C header src out key binding len = Inr (src', out')" and "cipher_ok C"
    and "length header = 24" and "sound src" and "len \<le> max_length"
    and "sound sealed" and "given sealed = drop (length (sunk out)) (sunk out')"
  shows "length (given src) = unat len \<and>
    (\<exists>rest. decrypt C sealed (vector staging) key binding max_length = Inr (len, rest, vector (staging @ given src))
       \<and> given rest = [])"
proof -
  from assms(1) obtain ad out0 st src1 out1 c st2 where
    ad: "aad binding len = Inr ad" and out0: "sunk out0 = sunk out @ CRYPT_MAGIC @ u64_to_le len @ header"
    and loop: "encrypt_loop C ad (ss_init C key header) len src out0 = Inr (st, src1, out1)"
    and extra: "read_up_to 1 src1 = Inr ([], src')" and push: "ss_push C st [] ad FINAL = Some (c, st2)"
    and out': "sunk out' = sunk out1 @ u32_to_le (of_nat TAG_BYTES) @ c" by (rule encrypt_Inr)
  from encrypt_loop_opens [OF assms(2) loop] assms(4) obtain p body where
    p: "given src = p @ given src1" "length p = unat len" "sound src1" and body: "sunk out1 = sunk out0 @ body"
    and opens: "\<And>len' total_bytes csrc rest staging. sound csrc \<and> given csrc = body @ rest
        \<and> unat total_bytes + unat len \<le> unat len' \<Longrightarrow>
        (\<exists>csrc'. sound csrc' \<and> given csrc' = rest
          \<and> decrypt_loop C ad (ss_init C key header) len' total_bytes csrc (vector staging)
            = decrypt_loop C ad st len' (total_bytes + len) csrc' (vector (staging @ p)))"
    by blast
  have "given src1 = []" using read_up_to_Inr(4) [OF extra p(3)] by simp
  then have plain: "given src = p" using p(1) by simp
  have "given sealed = CRYPT_MAGIC @ u64_to_le len @ header @ body @ u32_to_le (of_nat TAG_BYTES) @ c"
    using assms(7) out' body out0 by simp
  moreover have "4 = length CRYPT_MAGIC" by (simp add: CRYPT_MAGIC_def as_bytes_def)
  ultimately obtain s1 where s1: "read_full 4 sealed = Inr (CRYPT_MAGIC, s1)" "sound s1"
      "given s1 = u64_to_le len @ header @ body @ u32_to_le (of_nat TAG_BYTES) @ c"
    using read_full_take [OF assms(6)] by metis
  from read_full_take [OF s1(2,3), of 8] obtain s2 where s2: "read_full 8 s1 = Inr (u64_to_le len, s2)" "sound s2"
      "given s2 = header @ body @ u32_to_le (of_nat TAG_BYTES) @ c" by auto
  from read_full_take [OF s2(2,3), of 24] assms(3) obtain s3 where s3: "read_full 24 s2 = Inr (header, s3)" "sound s3"
      "given s3 = body @ u32_to_le (of_nat TAG_BYTES) @ c" by auto
  have "sound s3 \<and> given s3 = body @ (u32_to_le (of_nat TAG_BYTES) @ c) \<and> unat (0 :: u64) + unat len \<le> unat len"
    using s3 by simp
  from opens [OF this, of staging] obtain s4 where s4: "sound s4" "given s4 = u32_to_le (of_nat TAG_BYTES) @ c"
      "decrypt_loop C ad (ss_init C key header) len 0 s3 (vector staging)
        = decrypt_loop C ad st len len s4 (vector (staging @ p))" by auto
  from final_frame [OF assms(2) push s4(1,2)] obtain rest where
    "decrypt_loop C ad st len len s4 (vector (staging @ p)) = Inr (len, rest, vector (staging @ p))" "given rest = []" .
  with s1(1) s2(1) s3(1) s4(3) ad assms(5) have "decrypt C sealed (vector staging) key binding max_length
      = Inr (len, rest, vector (staging @ p))"
    by (simp add: decrypt_def Let_def not_less)
  with \<open>given rest = []\<close> plain p(2) show ?thesis by auto
qed

text \<open>Pulling fills a buffer that is shorter than the message by the tag.\<close>

definition pull_sized :: "'s cipher \<Rightarrow> bool" where
  "pull_sized C \<longleftrightarrow> (\<forall>st c ad p tag st'. ss_pull C st c ad = Some (p, tag, st') \<longrightarrow> length c = length p + TAG_BYTES)"

lemma decrypt_loop_cases:
  assumes "decrypt_loop C ad st len total_bytes src staging = Inr (n, src', staging')" and "pull_sized C"
  obtains (final) bs s1 c s2 where "read_full 4 src = Inr (bs, s1)"
      and "read_full (unat (u32_from_le bs)) s1 = Inr (c, s2)" and "read_up_to 1 s2 = Inr ([], src')"
      and "n = len" and "total_bytes = len" and "staging' = staging"
  | (message) bs s1 c s2 p st' staging1 where "read_full 4 src = Inr (bs, s1)"
      and "read_full (unat (u32_from_le bs)) s1 = Inr (c, s2)" and "length p \<le> FRAME_BYTES"
      and "unat total_bytes + unat (of_nat (length p) :: u64) < 2 ^ 64"
      and "\<not> total_bytes + of_nat (length p) > len" and "put_all staging p = Inr staging1"
      and "decrypt_loop C ad st' len (total_bytes + of_nat (length p)) s2 staging1 = Inr (n, src', staging')"
proof -
  from assms(1) [unfolded decrypt_loop.simps [of C ad st len total_bytes src staging]]
  obtain bs s1 c s2 p tag st' where
    r1: "read_full 4 src = Inr (bs, s1)" and r2: "read_full (unat (u32_from_le bs)) s1 = Inr (c, s2)"
    and b: "unat (u32_from_le bs) \<le> FRAME_BYTES + TAG_BYTES" and pull: "ss_pull C st c ad = Some (p, tag, st')"
    and cases: "tag = FINAL \<and> total_bytes = len \<and> n = total_bytes \<and> staging' = staging \<and> read_up_to 1 s2 = Inr ([], src')
      \<or> (\<exists>staging1. unat total_bytes + unat (of_nat (length p) :: u64) < 2 ^ 64
          \<and> \<not> total_bytes + of_nat (length p) > len \<and> put_all staging p = Inr staging1
          \<and> decrypt_loop C ad st' len (total_bytes + of_nat (length p)) s2 staging1 = Inr (n, src', staging'))"
    by (auto simp: bindE_Inr bind_checked_add checked_add_def Let_def split: if_splits)
  have "length c = unat (u32_from_le bs)" using read_full_Inr [OF r2] by simp
  then have "length p \<le> FRAME_BYTES" using assms(2) pull b unfolding pull_sized_def by fastforce
  with r1 r2 cases that show thesis by blast
qed

lemma decrypt_loop_Inr:
  assumes "pull_sized C"
  shows "decrypt_loop C ad st len total_bytes src staging = Inr (n, src', staging') \<Longrightarrow>
     n = len \<and> (\<exists>p. sunk staging' = sunk staging @ p \<and> unat total_bytes + length p = unat len)
     \<and> (sound src \<longrightarrow> given src' = [])"
proof (induction "length (given src)" arbitrary: st total_bytes src staging rule: less_induct)
  case less
  from less.prems assms show ?case
  proof (cases rule: decrypt_loop_cases)
    case (final bs s1 c s2)
    have "given src' = []" if "sound src"
      using read_up_to_Inr(4) [OF final(3)] read_up_to_Inr(1) [OF final(3)] read_full_Inr [OF final(1)]
        read_full_Inr [OF final(2)] that by simp
    with final show ?thesis by auto
  next
    case (message bs s1 c s2 p st' staging1)
    have l: "unat (of_nat (length p) :: u64) = length p"
      using message(3) by (intro unat_of_nat_64) (simp add: FRAME_BYTES_def)
    have n: "unat (total_bytes + of_nat (length p)) = unat total_bytes + length p"
      using message(4) l by (subst unat_add_lem [THEN iffD1]) simp_all
    note R = read_full_Inr [OF message(1)] read_full_Inr [OF message(2)]
    then have "length (given s2) < length (given src)" by auto
    from less.hyps [OF this message(7)] obtain q where "n = len" "sunk staging' = sunk staging1 @ q"
      "unat total_bytes + length p + length q = unat len" "sound s2 \<longrightarrow> given src' = []"
      by (auto simp: n)
    with put_all_Inr [OF message(6)] R show ?thesis by auto
  qed
qed

lemma ciphertext_length_matches:
  assumes "encrypt C header src out key binding len = Inr (src', out')" and "cipher_ok C" and "length header = 24"
  shows "case ciphertext_length len of
      Inl _ \<Rightarrow> 2 ^ 64 \<le> length (sunk out') - length (sunk out)
    | Inr n \<Rightarrow> length (sunk out') = length (sunk out) + unat n"
proof -
  let ?k = "(unat len + FRAME_BYTES - 1) div FRAME_BYTES"
  note total = encrypt_length [OF assms]
  have F: "unat (of_nat FRAME_BYTES :: u64) = 65536" by (simp add: FRAME_BYTES_def)
  have k: "unat (u64_div_ceil len (of_nat FRAME_BYTES)) = ?k"
  proof (cases "unat len mod 65536 = 0")
    case True
    then have "\<not> len mod of_nat FRAME_BYTES > 0" by (simp add: word_less_nat_alt unat_mod F)
    moreover obtain q where "unat len = 65536 * q" using True by auto
    ultimately show ?thesis by (simp add: u64_div_ceil_def unat_div F) (simp add: FRAME_BYTES_def)
  next
    case False
    then have pos: "len mod of_nat FRAME_BYTES > 0" by (simp add: word_less_nat_alt unat_mod F)
    obtain q r where q: "unat len = 65536 * q + r" "0 < r" "r < 65536"
      using False by (metis div_mod_decomp mult.commute neq0_conv mod_less_divisor zero_less_numeral)
    then have d: "unat (len div of_nat FRAME_BYTES) = q" by (simp add: unat_div F)
    have "unat (len div of_nat FRAME_BYTES + 1) = q + 1"
      using q unat_less_64 [of len] d by (subst unat_add_lem [THEN iffD1]) simp_all
    moreover have "?k = q + 1"
    proof -
      have "unat len + FRAME_BYTES - 1 = (q + 1) * 65536 + (r - 1)" using q by (simp add: FRAME_BYTES_def)
      moreover have "r - 1 < 65536" using q by simp
      ultimately show ?thesis by (simp add: FRAME_BYTES_def)
    qed
    ultimately show ?thesis using pos by (simp add: u64_div_ceil_def)
  qed
  define frames where "frames = u64_div_ceil len (of_nat FRAME_BYTES)"
  have T: "unat (of_nat (4 + TAG_BYTES) :: u64) = 21" "unat FIXED_OVERHEAD = 57"
    by (simp_all add: TAG_BYTES_def FIXED_OVERHEAD_def)
  show ?thesis
  proof (cases "57 + unat len + ?k * 21 < 2 ^ 64")
    case True
    have m: "checked_mul frames (of_nat (4 + TAG_BYTES)) = Some (frames * of_nat (4 + TAG_BYTES))"
      "unat (frames * of_nat (4 + TAG_BYTES)) = ?k * 21"
      using True k T by (simp_all add: checked_mul_def frames_def unat_mult_lem [THEN iffD1])
    have a: "checked_add (frames * of_nat (4 + TAG_BYTES)) len = Some (frames * of_nat (4 + TAG_BYTES) + len)"
      "unat (frames * of_nat (4 + TAG_BYTES) + len) = ?k * 21 + unat len"
      using True m(2) by (simp_all add: checked_add_def unat_add_lem [THEN iffD1])
    have "checked_add (frames * of_nat (4 + TAG_BYTES) + len) FIXED_OVERHEAD
        = Some (frames * of_nat (4 + TAG_BYTES) + len + FIXED_OVERHEAD)"
      "unat (frames * of_nat (4 + TAG_BYTES) + len + FIXED_OVERHEAD) = ?k * 21 + unat len + 57"
      using True a(2) T by (simp_all add: checked_add_def unat_add_lem [THEN iffD1])
    with m(1) a(1) total show ?thesis by (simp add: ciphertext_length_def frames_def [symmetric])
  next
    case False
    show ?thesis
    proof (cases "ciphertext_length len")
      case (Inr n)
      then have "unat frames * 21 < 2 ^ 64" "unat (frames * of_nat (4 + TAG_BYTES)) + unat len < 2 ^ 64"
        "unat (frames * of_nat (4 + TAG_BYTES) + len) + 57 < 2 ^ 64"
        using T by (auto simp: ciphertext_length_def frames_def [symmetric] checked_mul_def checked_add_def
            bind_eq_Some_conv split: if_splits)
      moreover from this have "unat (frames * of_nat (4 + TAG_BYTES)) = unat frames * 21"
        using T by (simp add: unat_mult_lem [THEN iffD1])
      moreover from calculation have "unat (frames * of_nat (4 + TAG_BYTES) + len) = unat frames * 21 + unat len"
        by (simp add: unat_add_lem [THEN iffD1])
      ultimately have "57 + unat len + ?k * 21 < 2 ^ 64" using k by (simp add: frames_def)
      with False show ?thesis by simp
    qed (use total False in simp)
  qed
qed

lemma decrypt_cases:
  assumes "pull_sized C"
  shows "case decrypt C src staging key binding max_length of
      Inl e \<Rightarrow> e \<noteq> Format_Panic
    | Inr (n, src', staging') \<Rightarrow>
        n \<le> max_length \<and> (\<exists>p. sunk staging' = sunk staging @ p \<and> length p = unat n)
        \<and> (if sound src then given src' = [] else True)"
proof (cases "decrypt C src staging key binding max_length")
  case (Inl e)
  have "decrypt_loop C ad st len t src staging \<noteq> Inl Format_Panic" for ad st len t src staging
  proof (induction C ad st len t src staging rule: decrypt_loop.induct)
    case (1 C ad st len t src staging)
    show ?case
    proof
      assume "decrypt_loop C ad st len t src staging = Inl Format_Panic"
      from this [unfolded decrypt_loop.simps [of C ad st len t src staging]] obtain bs s1 c s2 p st' total' staging' where
        h: "read_full 4 src = Inr (bs, s1)"
          "\<not> \<not> (TAG_BYTES \<le> unat (u32_from_le bs) \<and> unat (u32_from_le bs) \<le> FRAME_BYTES + TAG_BYTES)"
          "read_full (unat (u32_from_le bs)) s1 = Inr (c, s2)" "ss_pull C st c ad = Some (p, MESSAGE, st')"
          "p \<noteq> []" "checked_add t (of_nat (length p)) = Some total'" "\<not> total' > len"
          "put_all staging p = Inr staging'" and panic: "decrypt_loop C ad st' len total' s2 staging' = Inl Format_Panic"
        and m: "MESSAGE \<noteq> FINAL"
        by (auto simp: bindE_Inl Let_def split: if_splits)
      have "ok_or (ss_pull C st c ad) (FormatError ''object-authentication-failed'') = Inr (p, MESSAGE, st')"
        "ok_or (checked_add t (of_nat (length p))) (FormatError ''length-overflow'') = Inr total'"
        using h by simp_all
      from "1.IH" [OF h(1) refl refl h(2,3) refl this(1) refl refl m _ this(2) h(7,8)] panic h(5) show False by simp
    qed
  qed
  moreover have "aad binding len \<noteq> Inl Format_Panic" for len by (simp add: aad_def)
  ultimately show ?thesis using Inl by (auto simp: decrypt_def bindE_Inl Let_def split: if_splits)
next
  case (Inr y)
  obtain n src' staging' where y: "y = (n, src', staging')" by (metis prod_cases3)
  from Inr y obtain m s1 bs s2 ad header s3 where
    r: "read_full 4 src = Inr (m, s1)" "read_full 8 s1 = Inr (bs, s2)" "read_full 24 s2 = Inr (header, s3)"
    and le: "\<not> u64_from_le bs > max_length"
    and loop: "decrypt_loop C ad (ss_init C key header) (u64_from_le bs) 0 s3 staging = Inr (n, src', staging')"
    by (auto simp: decrypt_def bindE_Inr Let_def split: if_splits)
  have "sound src \<longrightarrow> sound s3" using r [THEN read_full_Inr] by simp
  with decrypt_loop_Inr [OF assms loop] le show ?thesis by (auto simp: Inr y)
qed

text \<open>The frames of a ciphertext, and what pulling them one after the other gives: every message authenticated
  under \<open>ad\<close> in the state the one before left, an empty final message at the end.\<close>

definition framed :: "bytes list \<Rightarrow> bytes" where
  "framed cs = concat (map (\<lambda>c. u32_to_le (of_nat (length c)) @ c) cs)"

fun pulls :: "'s cipher \<Rightarrow> bytes \<Rightarrow> 's \<Rightarrow> bytes list \<Rightarrow> bytes \<Rightarrow> bool" where
  "pulls C ad st [] p = False"
| "pulls C ad st [c] p = (\<exists>st'. ss_pull C st c ad = Some ([], FINAL, st') \<and> p = [])"
| "pulls C ad st (c # cs) p =
     (\<exists>q r st'. ss_pull C st c ad = Some (q, MESSAGE, st') \<and> q \<noteq> [] \<and> p = q @ r \<and> pulls C ad st' cs r)"

lemma decrypt_loop_pulls:
  assumes "pull_sized C"
  shows "decrypt_loop C ad st len total_bytes src staging = Inr (n, src', staging') \<Longrightarrow>
     \<exists>cs p. given src = framed cs @ given src' \<and> pulls C ad st cs p \<and> sunk staging' = sunk staging @ p"
proof (induction "length (given src)" arbitrary: st total_bytes src staging rule: less_induct)
  case less
  from less.prems [unfolded decrypt_loop.simps [of C ad st len total_bytes src staging]]
  obtain bs s1 c s2 p tag st' where
    r1: "read_full 4 src = Inr (bs, s1)" and r2: "read_full (unat (u32_from_le bs)) s1 = Inr (c, s2)"
    and pull: "ss_pull C st c ad = Some (p, tag, st')"
    and cases: "tag = FINAL \<and> p = [] \<and> staging' = staging \<and> read_up_to 1 s2 = Inr ([], src')
      \<or> (\<exists>staging1. tag = MESSAGE \<and> p \<noteq> [] \<and> put_all staging p = Inr staging1
          \<and> decrypt_loop C ad st' len (total_bytes + of_nat (length p)) s2 staging1 = Inr (n, src', staging'))"
    by (auto simp: bindE_Inr bind_checked_add checked_add_def Let_def split: if_splits)
  note R = read_full_Inr [OF r1] read_full_Inr [OF r2]
  have "bs = u32_to_le (u32_from_le bs)" using u32_to_from_le [of bs] R(1) by simp
  then have head: "given src = u32_to_le (of_nat (length c)) @ c @ given s2"
    using R by simp
  from cases show ?case
  proof (elim disjE conjE exE)
    assume "tag = FINAL" "p = []" "staging' = staging" "read_up_to 1 s2 = Inr ([], src')"
    with head pull read_up_to_Inr(1) [of 1 s2 "[]" src'] show ?thesis
      by (intro exI [of _ "[c]"] exI [of _ "[]"]) (simp add: framed_def)
  next
    fix staging1
    assume m: "tag = MESSAGE" "p \<noteq> []" "put_all staging p = Inr staging1"
      and loop: "decrypt_loop C ad st' len (total_bytes + of_nat (length p)) s2 staging1 = Inr (n, src', staging')"
    have "length (given s2) < length (given src)" using head by simp
    from less.hyps [OF this loop] obtain cs r where
      cs: "given s2 = framed cs @ given src'" "pulls C ad st' cs r" "sunk staging' = sunk staging1 @ r" by blast
    then have "cs \<noteq> []" by auto
    then obtain c' cs' where c': "cs = c' # cs'" by (cases cs) auto
    show ?thesis
      using head cs m pull put_all_Inr [OF m(3)]
      by (intro exI [of _ "c # cs"] exI [of _ "p @ r"]) (auto simp: framed_def c')
  qed
qed

lemma decrypt_pulls:
  assumes "pull_sized C" and "decrypt C src staging key binding max_length = Inr (n, src', staging')"
  shows "\<exists>random cs p. given src = CRYPT_MAGIC @ u64_to_le n @ random @ framed cs @ given src' \<and> length random = 24
    \<and> pulls C (CRYPT_MAGIC @ u64_to_le n @ u32_to_le (of_nat (length binding)) @ binding) (ss_init C key random) cs p
    \<and> sunk staging' = sunk staging @ p \<and> length p = unat n \<and> (sound src \<longrightarrow> given src' = [])"
proof -
  from assms(2) obtain s1 bs s2 ad random s3 where
    r: "read_full 4 src = Inr (CRYPT_MAGIC, s1)" "read_full 8 s1 = Inr (bs, s2)" "read_full 24 s2 = Inr (random, s3)"
    and ad: "aad binding (u64_from_le bs) = Inr ad"
    and loop: "decrypt_loop C ad (ss_init C key random) (u64_from_le bs) 0 s3 staging = Inr (n, src', staging')"
    by (auto simp: decrypt_def bindE_Inr Let_def split: if_splits)
  note R = r [THEN read_full_Inr]
  note L = decrypt_loop_Inr [OF assms(1) loop]
  have n: "n = u64_from_le bs" using L by simp
  have "bs = u64_to_le n" using R(2) by (simp add: n u64_to_from_le)
  then have g: "given src = CRYPT_MAGIC @ u64_to_le n @ random @ given s3" using R by simp
  have a: "ad = CRYPT_MAGIC @ u64_to_le n @ u32_to_le (of_nat (length binding)) @ binding"
    using ad by (simp add: aad_def n split: if_splits)
  from decrypt_loop_pulls [OF assms(1) loop] obtain cs p where
    cs: "given s3 = framed cs @ given src'" "pulls C ad (ss_init C key random) cs p" "sunk staging' = sunk staging @ p"
    by blast
  moreover from L cs(3) have "length p = unat n" by auto
  moreover from L R have "sound src \<longrightarrow> given src' = []" by simp
  ultimately show ?thesis using g R(3) unfolding a by (intro exI [of _ random] exI [of _ cs] exI [of _ p]) simp
qed

section \<open>Properties\<close>

text \<open>An object that was sealed is opened again: with the key, the binding and the bytes that sealing
  wrote, from any reader that delivers them, opening gives the plaintext and its length and leaves
  nothing unread, and the plaintext had the length that was announced.\<close>

theorem seal_open_roundtrip:
  assumes "encrypt C header src out key binding len = Inr (src', out')" and "cipher_ok C"
    and "length header = 24" and "sound src" and "len \<le> max_length"
    and "sound sealed" and "given sealed = drop (length (sunk out)) (sunk out')"
  shows "length (given src) = unat len \<and>
    (\<exists>rest. decrypt C sealed (vector staging) key binding max_length = Inr (len, rest, vector (staging @ given src))
       \<and> given rest = [])"
  using decrypt_encrypted [OF assms] .

text \<open>The length that is announced for the sealed form of a plaintext is the length of what is written.\<close>

theorem ciphertext_length_exact:
  assumes "encrypt C header src out key binding len = Inr (src', out')" and "cipher_ok C" and "length header = 24"
  shows "case ciphertext_length len of
      Inl _ \<Rightarrow> 2 ^ 64 \<le> length (sunk out') - length (sunk out)
    | Inr n \<Rightarrow> length (sunk out') = length (sunk out) + unat n"
  by (rule ciphertext_length_matches [OF assms])

text \<open>Whatever a reader delivers, opening never panics, and an object it accepts yields exactly the
  announced number of bytes, at most the limit, was read to its end and left the staging
  output's earlier content alone.\<close>

theorem decrypt_bounded:
  assumes "pull_sized C"
  shows "case decrypt C src staging key binding max_length of
      Inl e \<Rightarrow> e \<noteq> Format_Panic
    | Inr (n, src', staging') \<Rightarrow>
        n \<le> max_length \<and> (\<exists>p. sunk staging' = sunk staging @ p \<and> length p = unat n)
        \<and> (if sound src then given src' = [] else True)"
  by (rule decrypt_cases [OF assms])

section \<open>A concrete cipher\<close>

text \<open>A cipher that encrypts nothing, to run the theorems on.\<close>

definition sample_cipher :: "unit cipher" where
  "sample_cipher =
     \<lparr>ss_init = (\<lambda>_ _. ()), ss_push = (\<lambda>_ p _ tag. Some (tag # replicate 16 0 @ p, ())),
      ss_pull = (\<lambda>_ c _. if length c < 17 then None else Some (drop 17 c, hd c, ()))\<rparr>"

lemma sample_cipher_ok: "cipher_ok sample_cipher" "pull_sized sample_cipher"
  by (auto simp: cipher_ok_def pull_sized_def sample_cipher_def TAG_BYTES_def split: if_splits)

lemma sample_encrypt: "\<exists>s out. encrypt sample_cipher (replicate 24 0) [Data [1, 2, 3]] (vector []) [] [7] 3 = Inr (s, out)"
  by (simp add: encrypt_def aad_def MAX_BINDING_def encrypt_loop.simps FRAME_BYTES_def read_full.simps read_up_to_def
      io_result_def sample_cipher_def)

lemma seal_open_roundtrip_witness:
  "case encrypt sample_cipher (replicate 24 0) [Data [1, 2, 3]] (vector []) [] [7] 3 of
     Inl _ \<Rightarrow> False
   | Inr (_, out) \<Rightarrow>
       \<exists>rest. decrypt sample_cipher [Data (sunk out)] (vector []) [] [7] 5 = Inr (3, rest, vector [1, 2, 3]) \<and> given rest = []"
proof -
  obtain s out where e: "encrypt sample_cipher (replicate 24 0) [Data [1, 2, 3]] (vector []) [] [7] 3 = Inr (s, out)"
    using sample_encrypt by blast
  have "sound [Data [1, 2, 3]]" "sound [Data (sunk out)]" by (simp_all add: sound_def)
  with seal_open_roundtrip [OF e sample_cipher_ok(1), of 5 "[Data (sunk out)]" "[]"] e show ?thesis by simp
qed

lemma ciphertext_length_exact_witness:
  "case encrypt sample_cipher (replicate 24 0) [Data [1, 2, 3]] (vector []) [] [7] 3 of
     Inl _ \<Rightarrow> False | Inr (_, out) \<Rightarrow> length (sunk out) = 81"
proof -
  obtain s out where e: "encrypt sample_cipher (replicate 24 0) [Data [1, 2, 3]] (vector []) [] [7] 3 = Inr (s, out)"
    using sample_encrypt by blast
  have "ciphertext_length 3 = Inr 81"
    by (simp add: ciphertext_length_def u64_div_ceil_def FRAME_BYTES_def TAG_BYTES_def FIXED_OVERHEAD_def checked_mul_def
        checked_add_def)
  with ciphertext_length_exact [OF e sample_cipher_ok(1)] e show ?thesis by simp
qed

lemma decrypt_bounded_witness:
  "case decrypt sample_cipher [Data [1], Fault StorageFull] (vector []) [] [7] 5 of
     Inl e \<Rightarrow> e \<noteq> Format_Panic | Inr (n, _) \<Rightarrow> n \<le> 5"
  using decrypt_bounded [OF sample_cipher_ok(2), where src = "[Data [1], Fault StorageFull]" and staging = "vector []"
    and key = "[]" and binding = "[7]" and max_length = 5]
  by (auto split: sum.splits)

end
