(* ===== verification/Recovery.thy ===== *)
theory Recovery
  imports Secretstream Pack Serde_Doc
begin

text \<open>
  Recovery keys, connection settings and the bootstrap of a repository, the second half of
  \<^verbatim>\<open>crates/external-storage-format/src/crypto.rs\<close>. Key derivation from \<^verbatim>\<open>hkdf\<close> is the parameter
  \<open>K salt secret info\<close>, the 256-bit digest is \<open>H\<close>, zstd is \<open>Z\<close>; the random salt and header that
  sealing draws are arguments, None standing for a failing generator.
\<close>

definition RECOVERY_SCHEMA :: string where "RECOVERY_SCHEMA = ''risunest.repository-bootstrap/v1''"
definition SETTINGS_MAGIC :: bytes where "SETTINGS_MAGIC = as_bytes ''RNC1''"
definition SETTINGS_HEADER_BYTES :: nat where "SETTINGS_HEADER_BYTES = 22"
definition MAX_SETTINGS_PLAINTEXT :: nat where "MAX_SETTINGS_PLAINTEXT = 32 * 1024"
definition MAX_BOOTSTRAP_BYTES :: nat where "MAX_BOOTSTRAP_BYTES = 64 * 1024"
definition MAX_SETTINGS_BYTES :: nat where "MAX_SETTINGS_BYTES = 64 * 1024"

definition derive_key :: "(bytes \<Rightarrow> bytes \<Rightarrow> bytes \<Rightarrow> bytes option) \<Rightarrow> bytes \<Rightarrow> string \<Rightarrow> string \<Rightarrow> bytes formatted" where
  "derive_key K root repository purpose =
     (if repository = [] \<or> length repository > 128 \<or> purpose \<notin> {''data'', ''metadata'', ''recovery''}
      then failed ''invalid-key-context''
      else ok_or (K (as_bytes repository) root (as_bytes (''risunest.external-storage/v1/'' @ purpose)))
             (FormatError ''key-derivation-failed''))"

section \<open>Recovery keys\<close>

definition hex_encode :: "bytes \<Rightarrow> string" where
  "hex_encode bs = concat (map hex_byte bs)"

text \<open>\<^verbatim>\<open>hex::decode_to_slice\<close>: pairs of digits of either case.\<close>

fun hex_decode :: "string \<Rightarrow> bytes option" where
  "hex_decode [] = Some []"
| "hex_decode [c] = None"
| "hex_decode (c # d # cs) =
     (case (hex_value c, hex_value d, hex_decode cs) of
        (Some m, Some n, Some bs) \<Rightarrow> Some (of_nat (16 * m + n) # bs)
      | _ \<Rightarrow> None)"

definition recovery_expose :: "(bytes \<Rightarrow> digest) \<Rightarrow> bytes \<Rightarrow> string" where
  "recovery_expose H key =
     (let raw = hex_encode key @ hex_encode (take 4 (H key)) in
      concat (map (\<lambda>(index, b). (if index > 0 \<and> index mod 4 = 0 then ''-'' else []) @ [b]) (enumerate 0 raw)))"

definition digit_step :: "string \<Rightarrow> nat \<times> char \<Rightarrow> string formatted" where
  "digit_step digits = (\<lambda>(index, b).
     if index mod 5 = 4 then (if b \<noteq> CHR ''-'' then failed ''invalid-recovery-code'' else Inr digits)
     else if is_ascii_hexdigit b then Inr (digits @ [b])
     else failed ''invalid-recovery-code'')"

definition recovery_parse :: "(bytes \<Rightarrow> digest) \<Rightarrow> string \<Rightarrow> bytes formatted" where
  "recovery_parse H txt =
     (if length txt \<noteq> 49 then failed ''invalid-recovery-code''
      else
        bindE (foldE digit_step [] (enumerate 0 txt)) (\<lambda>digits.
        bindE (ok_or (if length digits = 40 then hex_decode digits else None) (FormatError ''invalid-recovery-code'')) (\<lambda>decoded.
        if take 4 (H (take 16 decoded)) \<noteq> drop 16 decoded then failed ''invalid-recovery-code''
        else Inr (take 16 decoded))))"

section \<open>Connection settings\<close>

record settings =
  cs_repository :: string
  cs_salt :: bytes
  cs_ciphertext :: bytes
  cs_compressed :: bool

definition settings_binding :: "settings \<Rightarrow> bytes formatted" where
  "settings_binding s =
     (if cs_repository s = [] \<or> length (cs_repository s) > 128 then failed ''invalid-connection-settings''
      else Inr (SETTINGS_MAGIC @ [if cs_compressed s then 1 else 0] @ [of_nat (length (cs_repository s))]
        @ cs_salt s @ as_bytes (cs_repository s)))"

definition settings_key :: "(bytes \<Rightarrow> bytes \<Rightarrow> bytes \<Rightarrow> bytes option) \<Rightarrow> settings \<Rightarrow> bytes \<Rightarrow> bytes formatted" where
  "settings_key K s key =
     bindE (settings_binding s) (\<lambda>binding. ok_or (K (cs_salt s) key binding) (FormatError ''key-derivation-failed''))"

definition settings_protect ::
  "'s cipher \<Rightarrow> frames \<Rightarrow> (bytes \<Rightarrow> bytes \<Rightarrow> bytes \<Rightarrow> bytes option) \<Rightarrow> bytes option \<Rightarrow> bytes
    \<Rightarrow> string \<Rightarrow> bytes \<Rightarrow> bytes \<Rightarrow> settings formatted" where
  "settings_protect C Z K salt header repository plaintext key =
     (if plaintext = [] \<or> length plaintext > MAX_SETTINGS_PLAINTEXT then failed ''invalid-connection-settings''
      else
        bindE (io_result (fr_new Z)) (\<lambda>_.
        bindE (io_result (fr_compress Z plaintext)) (\<lambda>compressed.
        let use_compression = length compressed < length plaintext;
            body = (if use_compression then compressed else plaintext) in
        bindE (ok_or salt (FormatError ''randomness-unavailable'')) (\<lambda>salt.
        let s = \<lparr>cs_repository = repository, cs_salt = salt, cs_ciphertext = [], cs_compressed = use_compression\<rparr> in
        bindE (settings_key K s key) (\<lambda>wrapping.
        bindE (settings_binding s) (\<lambda>binding.
        bindE (encrypt C header [Data body] (vector []) wrapping binding (of_nat (length body))) (\<lambda>(_, out).
        Inr (s\<lparr>cs_ciphertext := sunk out\<rparr>))))))))"

definition settings_encode :: "settings \<Rightarrow> bytes formatted" where
  "settings_encode s =
     bindE (settings_binding s) (\<lambda>binding.
     let bs = binding @ cs_ciphertext s in
     if length bs > MAX_SETTINGS_BYTES then failed ''invalid-connection-settings'' else Inr bs)"

text \<open>\<^verbatim>\<open>std::str::from_utf8\<close> on the bytes.\<close>

definition tail_byte :: "nat \<Rightarrow> bool" where "tail_byte b \<longleftrightarrow> 128 \<le> b \<and> b < 192"

fun utf8 :: "nat list \<Rightarrow> bool" where
  "utf8 [] = True"
| "utf8 (a # s) =
     (if a < 128 then utf8 s
      else if 194 \<le> a \<and> a < 224 then (case s of b # s' \<Rightarrow> tail_byte b \<and> utf8 s' | _ \<Rightarrow> False)
      else if 224 \<le> a \<and> a < 240 then
        (case s of
           b # c # s' \<Rightarrow>
             tail_byte b \<and> tail_byte c \<and> (a = 224 \<longrightarrow> 160 \<le> b) \<and> (a = 237 \<longrightarrow> b < 160) \<and> utf8 s'
         | _ \<Rightarrow> False)
      else if 240 \<le> a \<and> a < 245 then
        (case s of
           b # c # d # s' \<Rightarrow>
             tail_byte b \<and> tail_byte c \<and> tail_byte d \<and> (a = 240 \<longrightarrow> 144 \<le> b) \<and> (a = 244 \<longrightarrow> b < 144) \<and> utf8 s'
         | _ \<Rightarrow> False)
      else False)"

definition from_utf8 :: "bytes \<Rightarrow> string option" where
  "from_utf8 bs = (if utf8 (map unat bs) then Some (map (\<lambda>b. char_of (unat b)) bs) else None)"

definition settings_decode :: "bytes \<Rightarrow> settings formatted" where
  "settings_decode bs =
     (if length bs < SETTINGS_HEADER_BYTES \<or> length bs > MAX_SETTINGS_BYTES
         \<or> take 4 bs \<noteq> SETTINGS_MAGIC \<or> bs ! 4 > 1
      then failed ''invalid-connection-settings''
      else
        let repository_end = SETTINGS_HEADER_BYTES + unat (bs ! 5) in
        bindE (ok_or (if repository_end \<le> length bs
                      then from_utf8 (drop SETTINGS_HEADER_BYTES (take repository_end bs)) else None)
                (FormatError ''invalid-connection-settings'')) (\<lambda>repository.
        let s = \<lparr>cs_repository = repository, cs_salt = drop 6 (take SETTINGS_HEADER_BYTES bs),
                 cs_ciphertext = drop repository_end bs, cs_compressed = (bs ! 4 = 1)\<rparr> in
        bindE (settings_binding s) (\<lambda>_.
        if cs_ciphertext s = [] then failed ''invalid-connection-settings''
        else
          bindE (ciphertext_length (of_nat MAX_SETTINGS_PLAINTEXT)) (\<lambda>limit.
          if (of_nat (length (cs_ciphertext s)) :: u64) > limit then failed ''invalid-connection-settings''
          else Inr s))))"

definition settings_open ::
  "'s cipher \<Rightarrow> frames \<Rightarrow> (bytes \<Rightarrow> bytes \<Rightarrow> bytes \<Rightarrow> bytes option) \<Rightarrow> settings \<Rightarrow> string \<Rightarrow> bytes \<Rightarrow> bytes formatted" where
  "settings_open C Z K s repository key =
     (if cs_repository s \<noteq> repository then failed ''invalid-connection-settings''
      else
        bindE (settings_key K s key) (\<lambda>wrapping.
        bindE (settings_binding s) (\<lambda>binding.
        bindE (decrypt C [Data (cs_ciphertext s)] (vector []) wrapping binding (of_nat MAX_SETTINGS_PLAINTEXT)) (\<lambda>(_, _, out).
        bindE
          (if \<not> cs_compressed s then Inr (sunk out)
           else if take 4 (sunk out) \<noteq> FRAME_MAGIC then failed ''invalid-zstd-frame''
           else
             bindE (io_result (fr_open Z (sunk out))) (\<lambda>_.
             bindE (io_result (fr_read Z (sunk out) (MAX_SETTINGS_PLAINTEXT + 1))) (\<lambda>decoded.
             if length decoded > MAX_SETTINGS_PLAINTEXT \<or> fr_left Z (sunk out) (MAX_SETTINGS_PLAINTEXT + 1) \<noteq> []
             then failed ''invalid-connection-settings'' else Inr decoded)))
          (\<lambda>plaintext.
             if plaintext = [] then failed ''invalid-connection-settings'' else Inr plaintext)))))"

section \<open>The bootstrap of a repository\<close>

record bootstrap =
  rb_schema :: string
  rb_repository :: string
  rb_salt :: bytes
  rb_wrapped :: bytes

definition bootstrap_binding :: "ext \<Rightarrow> bootstrap \<Rightarrow> bytes formatted" where
  "bootstrap_binding X b =
     (if rb_schema b \<noteq> RECOVERY_SCHEMA \<or> rb_repository b = [] \<or> length (rb_repository b) > 128
      then failed ''invalid-recovery-envelope''
      else Inr (json_text X (JArray [JString (rb_schema b), JString (rb_repository b), bytes_value (rb_salt b)])))"

definition bootstrap_key :: "ext \<Rightarrow> (bytes \<Rightarrow> bytes \<Rightarrow> bytes \<Rightarrow> bytes option) \<Rightarrow> bootstrap \<Rightarrow> bytes \<Rightarrow> bytes formatted" where
  "bootstrap_key X K b key =
     bindE (bootstrap_binding X b) (\<lambda>binding. ok_or (K (rb_salt b) key binding) (FormatError ''key-derivation-failed''))"

definition bootstrap_protect ::
  "ext \<Rightarrow> 's cipher \<Rightarrow> (bytes \<Rightarrow> bytes \<Rightarrow> bytes \<Rightarrow> bytes option) \<Rightarrow> bytes option \<Rightarrow> bytes
    \<Rightarrow> string \<Rightarrow> string \<Rightarrow> bytes \<Rightarrow> bytes \<Rightarrow> bootstrap formatted" where
  "bootstrap_protect X C K salt header repository metadata root key =
     (if length metadata > 8192 then failed ''invalid-recovery-envelope''
      else
        bindE (ok_or salt (FormatError ''randomness-unavailable'')) (\<lambda>salt.
        let b = \<lparr>rb_schema = RECOVERY_SCHEMA, rb_repository = repository, rb_salt = salt, rb_wrapped = []\<rparr> in
        bindE (bootstrap_key X K b key) (\<lambda>wrapping.
        bindE (bootstrap_binding X b) (\<lambda>binding.
        let body = root @ as_bytes metadata in
        bindE (encrypt C header [Data body] (vector []) wrapping binding (of_nat (length body))) (\<lambda>(_, out).
        Inr (b\<lparr>rb_wrapped := sunk out\<rparr>))))))"

definition bootstrap_value :: "ext \<Rightarrow> bootstrap \<Rightarrow> json" where
  "bootstrap_value X b = JObject
     [(''schema'', JString (rb_schema b)), (''repositoryId'', JString (rb_repository b)),
      (''salt'', bytes_value (rb_salt b)), (''wrappedKey'', JString (b64_encode X (rb_wrapped b)))]"

definition recovery_ciphertext :: "ext \<Rightarrow> json option \<Rightarrow> bytes option" where
  "recovery_ciphertext X m =
     (case as_string m of
        None \<Rightarrow> None
      | Some encoded \<Rightarrow> if length encoded > MAX_SETTINGS_BYTES then None else b64_decode X encoded)"

definition bootstrap_from :: "ext \<Rightarrow> json \<Rightarrow> bootstrap option" where
  "bootstrap_from X v =
     (case doc_fields [''schema'', ''repositoryId'', ''salt'', ''wrappedKey''] v of
        Some [s, r, n, w] \<Rightarrow>
          (case (as_string s, as_string r, as_array 16 n, recovery_ciphertext X w) of
             (Some s, Some r, Some n, Some w) \<Rightarrow>
               Some \<lparr>rb_schema = s, rb_repository = r, rb_salt = n, rb_wrapped = w\<rparr>
           | _ \<Rightarrow> None)
      | _ \<Rightarrow> None)"

definition bootstrap_encode :: "ext \<Rightarrow> bootstrap \<Rightarrow> bytes formatted" where
  "bootstrap_encode X b =
     bindE (bootstrap_binding X b) (\<lambda>_.
     let bs = json_text X (bootstrap_value X b) in
     if length bs > MAX_BOOTSTRAP_BYTES then failed ''invalid-recovery-envelope'' else Inr bs)"

definition bootstrap_decode :: "ext \<Rightarrow> bytes \<Rightarrow> bootstrap formatted" where
  "bootstrap_decode X bs =
     (if length bs > MAX_BOOTSTRAP_BYTES then failed ''invalid-recovery-envelope''
      else
        bindE (ok_or (Option.bind (from_slice X bs) (bootstrap_from X)) (FormatError ''invalid-recovery-envelope'')) (\<lambda>b.
        bindE (bootstrap_binding X b) (\<lambda>_. Inr b)))"

definition bootstrap_recover ::
  "ext \<Rightarrow> 's cipher \<Rightarrow> (bytes \<Rightarrow> bytes \<Rightarrow> bytes \<Rightarrow> bytes option) \<Rightarrow> bootstrap \<Rightarrow> string \<Rightarrow> bytes
    \<Rightarrow> (bytes \<times> string) formatted" where
  "bootstrap_recover X C K b repository key =
     (if rb_repository b \<noteq> repository \<or> length (rb_wrapped b) > 16 * 1024 then failed ''invalid-recovery-envelope''
      else
        bindE (bootstrap_key X K b key) (\<lambda>wrapping.
        bindE (bootstrap_binding X b) (\<lambda>binding.
        bindE (decrypt C [Data (rb_wrapped b)] (vector []) wrapping binding (32 + 8192)) (\<lambda>(_, _, out).
        let root = sunk out in
        bindE (if 32 \<le> length root then Inr (take 32 root) else failed ''invalid-root-key'') (\<lambda>bs.
        bindE (ok_or (from_utf8 (drop 32 root)) (FormatError ''invalid-recovery-envelope'')) (\<lambda>metadata.
        Inr (bs, metadata)))))))"

section \<open>Lemmas\<close>

subsection \<open>Codes\<close>

definition lower :: "char \<Rightarrow> char" where
  "lower c = (if CHR ''A'' \<le> c \<and> c \<le> CHR ''F'' then char_of (of_char c + 32 :: nat) else c)"

lemma hex_char_of: "n < 16 \<Longrightarrow> of_char (hex_char n) = (if n < 10 then 48 + n else 87 + n)"
proof -
  have "list_all (\<lambda>n. of_char (hex_char n) = (if n < 10 then 48 + n else 87 + n)) [0..<16]" by code_simp
  then show "n < 16 \<Longrightarrow> ?thesis" by (simp add: list_all_iff)
qed

lemma hexdigit_ranges:
  fixes c :: char
  defines "k \<equiv> (of_char c :: nat)"
  shows "is_ascii_hexdigit c \<longleftrightarrow> 48 \<le> k \<and> k < 58 \<or> 97 \<le> k \<and> k < 103 \<or> 65 \<le> k \<and> k < 71"
    and "hex_value c = (if 48 \<le> k \<and> k < 58 then Some (k - 48) else if 97 \<le> k \<and> k < 103 then Some (k - 87)
           else if 65 \<le> k \<and> k < 71 then Some (k - 55) else None)"
    and "of_char (lower c) = (if 65 \<le> k \<and> k < 71 then k + 32 else k)"
  by (auto simp: is_ascii_hexdigit_def is_lower_hex_def is_ascii_digit_def hex_value_def lower_def less_eq_char_def k_def)

lemma char_eq_nat: "c = d \<longleftrightarrow> (of_char c :: nat) = of_char d"
  by simp

lemma hex_digits: "is_ascii_hexdigit c \<longleftrightarrow> (\<exists>n < 16. hex_value c = Some n \<and> lower c = hex_char n)"
  by (auto simp: hexdigit_ranges hex_char_of char_eq_nat [of "lower c"] simp del: of_char_eq_iff split: if_splits)

lemma lower_hex_char: "n < 16 \<Longrightarrow> lower c = hex_char n \<Longrightarrow> hex_value c = Some n"
  by (auto simp: hexdigit_ranges hex_char_of char_eq_nat [of "lower c"] simp del: of_char_eq_iff split: if_splits)

lemma lower_dash [simp]: "lower c = CHR ''-'' \<longleftrightarrow> c = CHR ''-''"
  by (auto simp: hexdigit_ranges char_eq_nat [of "lower c"] char_eq_nat [of c] simp del: of_char_eq_iff split: if_splits)

lemma hex_decode_iff:
  "hex_decode ds = Some bs \<longleftrightarrow> list_all is_ascii_hexdigit ds \<and> map lower ds = hex_encode bs"
proof (induction ds arbitrary: bs rule: hex_decode.induct)
  case 1
  then show ?case by (cases bs) (auto simp: hex_encode_def hex_byte_def)
next
  case (2 c)
  then show ?case by (cases bs) (auto simp: hex_encode_def hex_byte_def)
next
  case (3 c d cs)
  show ?case
  proof
    assume "hex_decode (c # d # cs) = Some bs"
    then obtain m n bs' where h: "hex_value c = Some m" "hex_value d = Some n" "hex_decode cs = Some bs'"
      "bs = of_nat (16 * m + n) # bs'" by (auto split: option.splits)
    then have hex: "is_ascii_hexdigit c" "is_ascii_hexdigit d" by (auto simp: hexdigit_ranges split: if_splits)
    then have mn: "m < 16" "n < 16" "lower c = hex_char m" "lower d = hex_char n"
      using h(1,2) by (auto simp: hex_digits)
    have "unat (of_nat (16 * m + n) :: u8) = 16 * m + n" using mn by (intro unat_of_nat_8) simp
    then have "hex_byte (of_nat (16 * m + n)) = [lower c, lower d]" using mn by (simp add: hex_byte_def)
    with 3 [of bs'] h hex show "list_all is_ascii_hexdigit (c # d # cs) \<and> map lower (c # d # cs) = hex_encode bs"
      by (simp add: hex_encode_def)
  next
    assume r: "list_all is_ascii_hexdigit (c # d # cs) \<and> map lower (c # d # cs) = hex_encode bs"
    then obtain b bs' where bs: "bs = b # bs'" by (cases bs) (auto simp: hex_encode_def)
    with r have l: "lower c = hex_char (unat b div 16)" "lower d = hex_char (unat b mod 16)"
      "map lower cs = hex_encode bs'" "list_all is_ascii_hexdigit cs"
      by (simp_all add: hex_encode_def hex_byte_def)
    have "hex_value c = Some (unat b div 16)" "hex_value d = Some (unat b mod 16)"
      using l(1,2) by (auto intro!: lower_hex_char)
    moreover have "hex_decode cs = Some bs'" using 3 [of bs'] l by simp
    moreover have "of_nat (16 * (unat b div 16) + unat b mod 16) = b" by simp
    ultimately show "hex_decode (c # d # cs) = Some bs" by (simp add: bs)
  qed
qed

lemma length_hex_encode [simp]: "length (hex_encode bs) = 2 * length bs"
  by (induction bs) (simp_all add: hex_encode_def)

lemma hex_encode_lower: "list_all is_lower_hex (hex_encode bs)"
  by (induction bs) (simp_all add: hex_encode_def)

lemma list_four: "length xs = 4 + n \<Longrightarrow> \<exists>a b c d rest. xs = a # b # c # d # rest \<and> length rest = n"
  by (cases xs; cases "tl xs"; cases "tl (tl xs)"; cases "tl (tl (tl xs))") auto

text \<open>Digits in groups of four with dashes in between.\<close>

fun dashed :: "string \<Rightarrow> string" where
  "dashed (a # b # c # d # rest) = a # b # c # d # (if rest = [] then [] else CHR ''-'' # dashed rest)"
| "dashed rest = rest"

lemma length_dashed: "length ds = 4 * Suc n \<Longrightarrow> length (dashed ds) = 5 * n + 4"
proof (induction n arbitrary: ds)
  case 0
  then obtain a b c d where "ds = [a, b, c, d]" using list_four [of ds 0] by auto
  then show ?case by simp
next
  case (Suc n)
  then obtain a b c d rest where ds: "ds = a # b # c # d # rest" "length rest = 4 * Suc n"
    using list_four [of ds "4 * Suc n"] by auto
  then have "rest \<noteq> []" by auto
  with Suc.IH [OF ds(2)] ds show ?case by simp
qed

lemma map_lower_dashed: "map lower (dashed ds) = dashed (map lower ds)"
  by (induction ds rule: dashed.induct) (simp_all add: lower_dash [THEN iffD2])

lemma dashed_short: "length ds < 4 \<Longrightarrow> dashed ds = ds"
  by (cases ds rule: dashed.cases) auto

lemma dashed_inj: "length xs = length ys \<Longrightarrow> dashed xs = dashed ys \<Longrightarrow> xs = ys"
proof (induction xs arbitrary: ys rule: dashed.induct)
  case (1 a b c d rest)
  then obtain e f g h rest' where "ys = e # f # g # h # rest'" using list_four [of ys "length rest"] by auto
  with 1 show ?case by (auto split: if_splits)
qed (auto simp: dashed_short)

lemma expose_from:
  assumes "length raw = 4 * Suc n" and "0 < k"
  shows "concat (map (\<lambda>(index, b). (if index > 0 \<and> index mod 4 = 0 then ''-'' else []) @ [b]) (enumerate (4 * k) raw))
    = CHR ''-'' # dashed raw"
  using assms
proof (induction n arbitrary: raw k)
  case 0
  then obtain a b c d where "raw = [a, b, c, d]" using list_four [of raw 0] by auto
  moreover have "Suc (4 * k) mod 4 \<noteq> 0" "Suc (Suc (4 * k)) mod 4 \<noteq> 0" "Suc (Suc (Suc (4 * k))) mod 4 \<noteq> 0" by presburger+
  ultimately show ?case using 0 by simp
next
  case (Suc n)
  then obtain a b c d rest where ds: "raw = a # b # c # d # rest" "length rest = 4 * Suc n"
    using list_four [of raw "4 * Suc n"] by auto
  then have "rest \<noteq> []" by auto
  moreover have q: "4 * Suc k = Suc (Suc (Suc (Suc (4 * k))))" by simp
  note Suc.IH [OF ds(2), of "Suc k", unfolded q]
  moreover have "Suc (4 * k) mod 4 \<noteq> 0" "Suc (Suc (4 * k)) mod 4 \<noteq> 0" "Suc (Suc (Suc (4 * k))) mod 4 \<noteq> 0" by presburger+
  ultimately show ?case using Suc.prems(2) by (simp add: ds)
qed

lemma expose_dashed:
  assumes "length raw = 4 * Suc n"
  shows "concat (map (\<lambda>(index, b). (if index > 0 \<and> index mod 4 = 0 then ''-'' else []) @ [b]) (enumerate 0 raw)) = dashed raw"
proof (cases n)
  case 0
  then obtain a b c d where "raw = [a, b, c, d]" using assms list_four [of raw 0] by auto
  then show ?thesis by simp
next
  case (Suc m)
  then obtain a b c d rest where ds: "raw = a # b # c # d # rest" "length rest = 4 * Suc m"
    using assms list_four [of raw "4 * Suc m"] by auto
  then have "rest \<noteq> []" by auto
  have q: "4 * Suc 0 = Suc (Suc (Suc (Suc 0)))" by simp
  note expose_from [OF ds(2), of "Suc 0", unfolded q]
  with \<open>rest \<noteq> []\<close> show ?thesis by (simp add: ds)
qed

lemma parse_digits:
  "length shown = 5 * n + 4 \<Longrightarrow>
     foldE digit_step acc (enumerate (5 * k) shown) = Inr digits \<longleftrightarrow>
     (\<exists>ds. length ds = 4 * Suc n \<and> list_all is_ascii_hexdigit ds \<and> shown = dashed ds \<and> digits = acc @ ds)"
proof (induction n arbitrary: shown acc k)
  case 0
  then obtain a b c d where t: "shown = [a, b, c, d]" using list_four [of shown 0] by auto
  have "(5 * k) mod 5 \<noteq> 4" "Suc (5 * k) mod 5 \<noteq> 4" "Suc (Suc (5 * k)) mod 5 \<noteq> 4" "Suc (Suc (Suc (5 * k))) mod 5 \<noteq> 4"
    by presburger+
  then have "foldE digit_step acc (enumerate (5 * k) shown) = Inr digits \<longleftrightarrow>
      list_all is_ascii_hexdigit shown \<and> digits = acc @ shown"
    by (auto simp: t digit_step_def bindE_Inr)
  moreover have "dashed ds = ds" if "length ds = 4" for ds
    using that list_four [of ds 0] by auto
  ultimately show ?case using 0 by (auto simp: t)
next
  case (Suc n)
  then obtain a b c d es where es: "shown = a # b # c # d # es" "length es = Suc (5 * n + 4)"
    using list_four [of shown "Suc (5 * n + 4)"] by auto
  then obtain e rest where t: "shown = a # b # c # d # e # rest" "length rest = 5 * n + 4" by (cases es) auto
  have m: "(5 * k) mod 5 \<noteq> 4" "Suc (5 * k) mod 5 \<noteq> 4" "Suc (Suc (5 * k)) mod 5 \<noteq> 4" "Suc (Suc (Suc (5 * k))) mod 5 \<noteq> 4"
    "Suc (Suc (Suc (Suc (5 * k)))) mod 5 = 4" and q: "5 * Suc k = Suc (Suc (Suc (Suc (Suc (5 * k)))))"
    by presburger+
  have "foldE digit_step acc (enumerate (5 * k) shown) = Inr digits \<longleftrightarrow>
      list_all is_ascii_hexdigit [a, b, c, d] \<and> e = CHR ''-''
      \<and> foldE digit_step (acc @ [a, b, c, d]) (enumerate (5 * Suc k) rest) = Inr digits"
    unfolding q using m by (auto simp: t digit_step_def bindE_Inr split: if_splits)
  also have "\<dots> \<longleftrightarrow> list_all is_ascii_hexdigit [a, b, c, d] \<and> e = CHR ''-''
      \<and> (\<exists>ds. length ds = 4 * Suc n \<and> list_all is_ascii_hexdigit ds \<and> rest = dashed ds \<and> digits = (acc @ [a, b, c, d]) @ ds)"
    using Suc.IH [OF t(2)] by blast
  also have "\<dots> \<longleftrightarrow> (\<exists>ds. length ds = 4 * Suc (Suc n) \<and> list_all is_ascii_hexdigit ds \<and> shown = dashed ds \<and> digits = acc @ ds)"
    (is "?l \<longleftrightarrow> ?r")
  proof
    assume ?l
    then obtain ds where ds: "length ds = 4 * Suc n" "list_all is_ascii_hexdigit ds" "rest = dashed ds"
      "digits = acc @ a # b # c # d # ds" "e = CHR ''-''" "list_all is_ascii_hexdigit [a, b, c, d]" by auto
    then show ?r by (intro exI [of _ "a # b # c # d # ds"]) (auto simp: t)
  next
    assume ?r
    then obtain ds where ds: "length ds = 4 * Suc (Suc n)" "list_all is_ascii_hexdigit ds" "shown = dashed ds" "digits = acc @ ds"
      by blast
    then obtain a' b' c' d' ds' where s: "ds = a' # b' # c' # d' # ds'" "length ds' = 4 * Suc n"
      using list_four [of ds "4 * Suc n"] by auto
    then have "ds' \<noteq> []" by auto
    with s ds show ?l by (auto simp: t)
  qed
  finally show ?case .
qed

lemma lower_id: "list_all is_lower_hex cs \<Longrightarrow> map lower cs = cs"
  by (induction cs) (auto simp: lower_def is_lower_hex_def is_ascii_digit_def less_eq_char_def)

lemma recovery_expose_dashed:
  assumes "digest32 H" and "length key = 16"
  shows "recovery_expose H key = dashed (hex_encode (key @ take 4 (H key)))"
proof -
  have "length (hex_encode key @ hex_encode (take 4 (H key))) = 4 * Suc 9"
    using assms by (simp add: digest32_def)
  from expose_dashed [OF this] show ?thesis
    by (simp add: recovery_expose_def Let_def hex_encode_def)
qed

subsection \<open>Strings\<close>

lemma from_utf8_bytes: "utf8 (map of_char s) \<Longrightarrow> from_utf8 (as_bytes s) = Some s"
proof -
  have "unat (of_char c :: u8) = of_char c" for c :: char
    using unat_of_nat_8 [of "of_char c"] unfolding of_nat_of_char by simp
  then show "utf8 (map of_char s) \<Longrightarrow> ?thesis" by (simp add: from_utf8_def as_bytes_def o_def)
qed

lemma undash:
  "map lower s = dashed xs \<Longrightarrow> \<exists>ds. s = dashed ds \<and> map lower ds = xs"
proof (induction xs arbitrary: s rule: dashed.induct)
  case (1 a b c d rest)
  then obtain a' b' c' d' s' where s: "s = a' # b' # c' # d' # s'" "lower a' = a" "lower b' = b" "lower c' = c" "lower d' = d"
    "map lower s' = (if rest = [] then [] else CHR ''-'' # dashed rest)"
    by (auto simp: map_eq_Cons_conv)
  show ?case
  proof (cases "rest = []")
    case True
    with s show ?thesis by (intro exI [of _ "[a', b', c', d']"]) simp
  next
    case False
    with s obtain s'' where s': "s' = CHR ''-'' # s''" "map lower s'' = dashed rest" by (auto simp: map_eq_Cons_conv)
    from "1.IH" [OF False s'(2)] obtain ds where ds: "s'' = dashed ds" "map lower ds = rest" by blast
    with False have "ds \<noteq> []" by auto
    with s s' ds show ?thesis by (intro exI [of _ "a' # b' # c' # d' # ds"]) simp
  qed
qed (auto simp: map_eq_Cons_conv, (rule exI, rule conjI, rule dashed.simps [symmetric], auto)+)

lemma lower_digit: "is_lower_hex (lower c) \<Longrightarrow> is_ascii_hexdigit c"
  by (auto simp: is_lower_hex_def is_ascii_digit_def less_eq_char_def hexdigit_ranges split: if_splits)

lemma recovery_parse_Inr:
  assumes "digest32 H"
  shows "recovery_parse H shown = Inr key \<longleftrightarrow> length key = 16 \<and> map lower shown = recovery_expose H key"
proof
  assume "recovery_parse H shown = Inr key"
  then obtain digits decoded where l: "length shown = 5 * 9 + 4" and f: "foldE digit_step [] (enumerate (5 * 0) shown) = Inr digits"
    and d: "length digits = 40" "hex_decode digits = Some decoded"
    and h: "take 4 (H (take 16 decoded)) = drop 16 decoded" and k: "key = take 16 decoded"
    by (auto simp: recovery_parse_def bindE_Inr split: if_splits)
  from f parse_digits [OF l, of "[]" 0 digits] have s: "shown = dashed digits" by auto
  have lower: "map lower digits = hex_encode decoded" using d(2) by (simp add: hex_decode_iff)
  then have "2 * length decoded = 40" using d(1) by (metis length_hex_encode length_map)
  then have key: "length key = 16" by (simp add: k)
  moreover have "key @ take 4 (H key) = decoded" using h k by simp
  ultimately show "length key = 16 \<and> map lower shown = recovery_expose H key"
    using recovery_expose_dashed [OF assms key] lower by (simp add: s map_lower_dashed)
next
  assume r: "length key = 16 \<and> map lower shown = recovery_expose H key"
  let ?decoded = "key @ take 4 (H key)"
  have len: "length (hex_encode ?decoded) = 4 * Suc 9" using r assms by (simp add: digest32_def)
  from r recovery_expose_dashed [OF assms] have "map lower shown = dashed (hex_encode ?decoded)" by simp
  from undash [OF this] obtain ds where ds: "shown = dashed ds" "map lower ds = hex_encode ?decoded" by blast
  then have lds: "length ds = 4 * Suc 9" using len by (metis length_map)
  have "list_all is_lower_hex (map lower ds)" using ds(2) hex_encode_lower by simp
  then have hex: "list_all is_ascii_hexdigit ds" by (auto simp: list_all_iff intro: lower_digit)
  have l: "length shown = 5 * 9 + 4" using length_dashed [OF lds] ds(1) by simp
  have "foldE digit_step [] (enumerate (5 * 0) shown) = Inr ds"
    using parse_digits [OF l, of "[]" 0 ds] lds hex ds(1) by auto
  moreover have "hex_decode ds = Some ?decoded" using hex ds(2) by (simp add: hex_decode_iff)
  ultimately show "recovery_parse H shown = Inr key"
    using l lds r assms by (simp add: recovery_parse_def digest32_def)
qed

subsection \<open>Settings\<close>

lemma settings_binding_Inr:
  "settings_binding s = Inr b \<longleftrightarrow> cs_repository s \<noteq> [] \<and> length (cs_repository s) \<le> 128
     \<and> b = SETTINGS_MAGIC @ [if cs_compressed s then 1 else 0] @ [of_nat (length (cs_repository s))]
        @ cs_salt s @ as_bytes (cs_repository s)"
  by (auto simp: settings_binding_def)

lemma settings_decode_encode:
  assumes "settings_encode s = Inr bs" and "length (cs_salt s) = 16" and "utf8 (map of_char (cs_repository s))"
    and "cs_ciphertext s \<noteq> []" and "ciphertext_length (of_nat MAX_SETTINGS_PLAINTEXT) = Inr limit"
    and "length (cs_ciphertext s) \<le> unat limit"
  shows "settings_decode bs = Inr s"
proof -
  let ?n = "length (cs_repository s)"
  let ?flag = "if cs_compressed s then 1 else 0 :: u8"
  from assms(1) have b: "bs = SETTINGS_MAGIC @ [?flag] @ [of_nat ?n] @ cs_salt s @ as_bytes (cs_repository s) @ cs_ciphertext s"
    and r: "cs_repository s \<noteq> []" "?n \<le> 128" and max: "length bs \<le> MAX_SETTINGS_BYTES"
    by (auto simp: settings_encode_def bindE_Inr settings_binding_Inr Let_def split: if_splits)
  have m: "length SETTINGS_MAGIC = 4" by (simp add: SETTINGS_MAGIC_def)
  have n: "unat (of_nat ?n :: u8) = ?n" using r(2) by (intro unat_of_nat_8) simp
  have at: "bs ! 4 = ?flag" "bs ! 5 = of_nat ?n" "take 4 bs = SETTINGS_MAGIC"
    using m by (simp_all add: b nth_append)
  define h where "h = SETTINGS_MAGIC @ [?flag] @ [of_nat ?n] @ cs_salt s"
  have h: "length h = 22" "bs = h @ as_bytes (cs_repository s) @ cs_ciphertext s" "drop 6 h = cs_salt s"
    using m assms(2) by (simp_all add: h_def b)
  have parts: "drop 6 (take SETTINGS_HEADER_BYTES bs) = cs_salt s"
    "drop SETTINGS_HEADER_BYTES (take (SETTINGS_HEADER_BYTES + ?n) bs) = as_bytes (cs_repository s)"
    "drop (SETTINGS_HEADER_BYTES + ?n) bs = cs_ciphertext s"
    using h by (simp_all add: SETTINGS_HEADER_BYTES_def)
  have len: "length bs = SETTINGS_HEADER_BYTES + ?n + length (cs_ciphertext s)"
    using m assms(2) by (simp add: b SETTINGS_HEADER_BYTES_def)
  have "unat (of_nat (length (cs_ciphertext s)) :: u64) = length (cs_ciphertext s)"
    using max len by (intro unat_of_nat_64) (simp add: MAX_SETTINGS_BYTES_def)
  then have "\<not> (of_nat (length (cs_ciphertext s)) :: u64) > limit"
    using assms(6) by (simp add: word_less_nat_alt)
  moreover have "\<not> bs ! 4 > 1" "(bs ! 4 = 1) = cs_compressed s" by (simp_all add: at(1))
  moreover have same: "\<lparr>cs_repository = cs_repository s, cs_salt = cs_salt s, cs_ciphertext = cs_ciphertext s,
      cs_compressed = cs_compressed s\<rparr> = s" by simp
  moreover have "settings_binding s \<noteq> Inl e" for e using r by (simp add: settings_binding_def)
  then obtain binding where "settings_binding s = Inr binding" by (cases "settings_binding s") auto
  ultimately have "settings_decode bs
      = bindE (settings_binding \<lparr>cs_repository = cs_repository s, cs_salt = cs_salt s, cs_ciphertext = cs_ciphertext s,
          cs_compressed = cs_compressed s\<rparr>)
        (\<lambda>_. Inr \<lparr>cs_repository = cs_repository s, cs_salt = cs_salt s, cs_ciphertext = cs_ciphertext s,
          cs_compressed = cs_compressed s\<rparr>)"
    using at(2,3) parts len max assms(4,5) from_utf8_bytes [OF assms(3)] n
    by (simp add: settings_decode_def Let_def)
  with \<open>settings_binding s = Inr binding\<close> show ?thesis unfolding same by simp
qed

lemma settings_limit: "ciphertext_length (of_nat MAX_SETTINGS_PLAINTEXT) = Inr 32846"
  by (simp add: ciphertext_length_def u64_div_ceil_def FRAME_BYTES_def TAG_BYTES_def FIXED_OVERHEAD_def checked_mul_def
      checked_add_def MAX_SETTINGS_PLAINTEXT_def)

lemma settings_protect_Inr:
  assumes "settings_protect C Z K salt header repository plaintext key = Inr s"
  obtains n compressed body wrapping binding src out s0 where
    "salt = Some n" and "fr_compress Z plaintext = Inr compressed" and "plaintext \<noteq> []"
    and "length plaintext \<le> MAX_SETTINGS_PLAINTEXT"
    and "body = (if length compressed < length plaintext then compressed else plaintext)"
    and "s0 = \<lparr>cs_repository = repository, cs_salt = n, cs_ciphertext = [],
               cs_compressed = (length compressed < length plaintext)\<rparr>"
    and "settings_key K s0 key = Inr wrapping" and "settings_binding s0 = Inr binding"
    and "encrypt C header [Data body] (vector []) wrapping binding (of_nat (length body)) = Inr (src, out)"
    and "s = s0\<lparr>cs_ciphertext := sunk out\<rparr>"
  using assms that unfolding settings_protect_def Let_def
  by (auto simp: bindE_Inr simp del: if_split split: if_splits)

lemma small_frames: "n \<le> FRAME_BYTES \<Longrightarrow> (n + FRAME_BYTES - 1) div FRAME_BYTES * 21 \<le> 21"
proof -
  assume "n \<le> FRAME_BYTES"
  then have "n + FRAME_BYTES - 1 < FRAME_BYTES * 2" by (simp add: FRAME_BYTES_def)
  then have "(n + FRAME_BYTES - 1) div FRAME_BYTES < 2" by (simp add: less_mult_imp_div_less mult.commute)
  then show ?thesis by simp
qed

section \<open>Properties\<close>

text \<open>C32. A recovery code is accepted exactly when, letter case aside, it is the one shown for a key, and
  then it gives that key back: the checksum, the dashes and the length leave no other spelling.\<close>

theorem recovery_code_iff:
  assumes "digest32 H"
  shows "recovery_parse H shown = Inr key \<longleftrightarrow> length key = 16 \<and> map lower shown = recovery_expose H key"
  by (rule recovery_parse_Inr [OF assms])

lemma recovery_code_iff_witness:
  "recovery_parse sample_digest32 (recovery_expose sample_digest32 (replicate 16 171)) = Inr (replicate 16 171)"
proof -
  have H: "digest32 sample_digest32" by (simp add: digest32_def sample_digest32_def)
  have d: "recovery_expose sample_digest32 (replicate 16 171) = dashed (hex_encode (replicate 16 171 @ take 4 (sample_digest32 (replicate 16 171))))"
    by (rule recovery_expose_dashed [OF H]) simp
  then have "map lower (recovery_expose sample_digest32 (replicate 16 171)) = recovery_expose sample_digest32 (replicate 16 171)"
    by (simp only: d map_lower_dashed lower_id [OF hex_encode_lower])
  with recovery_code_iff [OF H] show ?thesis by simp
qed

text \<open>C21. Connection settings protected with a recovery key survive the trip: they encode within the limit,
  what is decoded is what was encoded, and opening it with the same key for the same repository
  gives the settings, through decryption and, where it was worth it, decompression.\<close>

theorem settings_roundtrip:
  assumes "settings_protect C Z K salt header repository plaintext key = Inr s"
    and "cipher_ok C" and "frames_ok Z" and "length header = 24" and "map_option length salt = Some 16"
    and "utf8 (map of_char repository)"
  shows "(\<exists>bs. settings_encode s = Inr bs \<and> settings_decode bs = Inr s)
    \<and> settings_open C Z K s repository key = Inr plaintext"
proof -
  from assms(1) obtain n compressed body wrapping binding src out s0 where
    salt: "salt = Some n" and c: "fr_compress Z plaintext = Inr compressed" and p: "plaintext \<noteq> []"
    "length plaintext \<le> MAX_SETTINGS_PLAINTEXT"
    and body: "body = (if length compressed < length plaintext then compressed else plaintext)"
    and s0: "s0 = \<lparr>cs_repository = repository, cs_salt = n, cs_ciphertext = [],
               cs_compressed = (length compressed < length plaintext)\<rparr>"
    and k: "settings_key K s0 key = Inr wrapping" and b: "settings_binding s0 = Inr binding"
    and e: "encrypt C header [Data body] (vector []) wrapping binding (of_nat (length body)) = Inr (src, out)"
    and s: "s = s0\<lparr>cs_ciphertext := sunk out\<rparr>" by (rule settings_protect_Inr)
  have small: "length body \<le> MAX_SETTINGS_PLAINTEXT" using body p(2) by simp
  then have n: "unat (of_nat (length body) :: u64) = length body" by (intro unat_of_nat_64) (simp add: MAX_SETTINGS_PLAINTEXT_def)
  have "length body \<le> FRAME_BYTES" using small by (simp add: MAX_SETTINGS_PLAINTEXT_def FRAME_BYTES_def)
  from encrypt_length [OF e assms(2,4)] small_frames [OF this] small n
  have len: "length (sunk out) \<le> 32846" "sunk out \<noteq> []" by (auto simp: MAX_SETTINGS_PLAINTEXT_def)
  have same: "settings_binding s = settings_binding s0" "settings_key K s key = settings_key K s0 key"
    by (simp_all add: s settings_binding_def settings_key_def)
  have bind: "cs_repository s = repository" "cs_salt s = n" "cs_ciphertext s = sunk out" by (simp_all add: s s0)
  from b have l: "length repository \<le> 128" "length binding = 22 + length repository"
    using assms(5) salt by (auto simp: settings_binding_Inr s0 SETTINGS_MAGIC_def)
  have enc: "settings_encode s = Inr (binding @ sunk out)"
    using l len(1) b by (simp add: settings_encode_def same bind MAX_SETTINGS_BYTES_def)
  have "settings_decode (binding @ sunk out) = Inr s"
    using settings_decode_encode [OF enc _ _ _ settings_limit] len assms(5,6) salt by (simp add: bind)
  moreover have "settings_open C Z K s repository key = Inr plaintext"
  proof -
    have "sound [Data body]" "sound [Data (sunk out)]" by (simp_all add: sound_def)
    moreover have "(of_nat (length body) :: u64) \<le> of_nat MAX_SETTINGS_PLAINTEXT"
      using small n by (simp add: word_le_nat_alt MAX_SETTINGS_PLAINTEXT_def)
    ultimately obtain rest where d: "decrypt C [Data (sunk out)] (vector []) wrapping binding (of_nat MAX_SETTINGS_PLAINTEXT)
        = Inr (of_nat (length body), rest, vector body)"
      using decrypt_encrypted [OF e assms(2,4), of "of_nat MAX_SETTINGS_PLAINTEXT" "[Data (sunk out)]" "[]"] by auto
    have comp: "take 4 compressed = FRAME_MAGIC \<and> fr_open Z compressed = Inr ()
        \<and> fr_read Z compressed (MAX_SETTINGS_PLAINTEXT + 1) = Inr plaintext \<and> fr_left Z compressed (MAX_SETTINGS_PLAINTEXT + 1) = []"
      using assms(3) c p(2) unfolding frames_ok_def by (meson le_imp_less_Suc less_eq_Suc_le Suc_eq_plus1 less_le_trans order_refl le_less_trans less_add_one)
    show ?thesis
      using k b d comp p body
      by (auto simp: settings_open_def bind same io_result_def) (auto simp: s s0)
  qed
  ultimately show ?thesis using enc by blast
qed

definition stored_frames :: frames where
  "stored_frames = \<lparr>fr_new = Inr (), fr_compress = (\<lambda>bs. Inr (FRAME_MAGIC @ bs)), fr_open = (\<lambda>_. Inr ()),
     fr_read = (\<lambda>c n. Inr (take n (drop 4 c))), fr_left = (\<lambda>c n. if length (drop 4 c) < n then [] else [0])\<rparr>"

definition sample_kdf :: "bytes \<Rightarrow> bytes \<Rightarrow> bytes \<Rightarrow> bytes option" where
  "sample_kdf salt secret info = Some (replicate 32 0)"

lemma sample_settings:
  "\<exists>s. settings_protect sample_cipher stored_frames sample_kdf (Some (replicate 16 0)) (replicate 24 0) ''repository''
     [1, 2, 3] (replicate 16 7) = Inr s"
  by (simp add: settings_protect_def stored_frames_def FRAME_MAGIC_def MAX_SETTINGS_PLAINTEXT_def settings_key_def
      settings_binding_def sample_kdf_def encrypt_def aad_def MAX_BINDING_def SETTINGS_MAGIC_def encrypt_loop.simps
      FRAME_BYTES_def read_full.simps read_up_to_def io_result_def sample_cipher_def)

lemma settings_roundtrip_witness:
  "case settings_protect sample_cipher stored_frames sample_kdf (Some (replicate 16 0)) (replicate 24 0) ''repository''
       [1, 2, 3] (replicate 16 7) of
     Inl _ \<Rightarrow> False
   | Inr s \<Rightarrow> (\<exists>bs. settings_encode s = Inr bs \<and> settings_decode bs = Inr s)
       \<and> settings_open sample_cipher stored_frames sample_kdf s ''repository'' (replicate 16 7) = Inr [1, 2, 3]"
proof -
  obtain s where s: "settings_protect sample_cipher stored_frames sample_kdf (Some (replicate 16 0)) (replicate 24 0)
      ''repository'' [1, 2, 3] (replicate 16 7) = Inr s" using sample_settings by blast
  have "frames_ok stored_frames" by (simp add: frames_ok_def stored_frames_def FRAME_MAGIC_def)
  from settings_roundtrip [OF s sample_cipher_ok(1) this] s show ?thesis by simp
qed

text \<open>The bootstrap of a repository survives the trip: what \<open>protect\<close> made of a root key and the
  connection metadata is read back from its JSON text as it was, and recovering with the same key
  gives the root key and the metadata.\<close>

theorem bootstrap_roundtrip:
  assumes "bootstrap_protect X C K salt header repository metadata root key = Inr b"
    and "cipher_ok C" and "length header = 24" and "map_option length salt = Some 16" and "length root = 32"
    and "utf8 (map of_char metadata)"
    and "bootstrap_encode X b = Inr bs" and "reads_back X (bootstrap_value X b)"
    and "b64_decode X (b64_encode X (rb_wrapped b)) = Some (rb_wrapped b)"
    and "length (b64_encode X (rb_wrapped b)) \<le> MAX_SETTINGS_BYTES"
  shows "bootstrap_decode X bs = Inr b \<and> bootstrap_recover X C K b repository key = Inr (root, metadata)"
proof -
  let ?body = "root @ as_bytes metadata"
  from assms(1) obtain n b0 wrapping binding src out where
    m: "length metadata \<le> 8192" and salt: "salt = Some n"
    and b0: "b0 = \<lparr>rb_schema = RECOVERY_SCHEMA, rb_repository = repository, rb_salt = n, rb_wrapped = []\<rparr>"
    and k: "bootstrap_key X K b0 key = Inr wrapping" and bi: "bootstrap_binding X b0 = Inr binding"
    and e: "encrypt C header [Data ?body] (vector []) wrapping binding (of_nat (length ?body)) = Inr (src, out)"
    and b: "b = b0\<lparr>rb_wrapped := sunk out\<rparr>"
    by (auto simp: bootstrap_protect_def bindE_Inr Let_def split: if_splits)
  have same: "bootstrap_binding X b = bootstrap_binding X b0" "bootstrap_key X K b key = bootstrap_key X K b0 key"
    by (simp_all add: b bootstrap_binding_def bootstrap_key_def)
  have len: "length ?body \<le> 32 + 8192" using m assms(5) by simp
  then have n64: "unat (of_nat (length ?body) :: u64) = length ?body" by (intro unat_of_nat_64) simp
  have "length ?body \<le> FRAME_BYTES" using len by (simp add: FRAME_BYTES_def)
  from encrypt_length [OF e assms(2,3)] small_frames [OF this] len n64
  have small: "length (sunk out) \<le> 16 * 1024" by simp
  have "bootstrap_from X (bootstrap_value X b) = Some b"
  proof -
    have "doc_fields [''schema'', ''repositoryId'', ''salt'', ''wrappedKey''] (bootstrap_value X b)
        = Some [Some (JString (rb_schema b)), Some (JString (rb_repository b)), Some (bytes_value (rb_salt b)),
            Some (JString (b64_encode X (rb_wrapped b)))]"
      by (simp add: bootstrap_value_def doc_fields_def struct_fields_def)
    moreover have "length (rb_salt b) = 16" using assms(4) salt by (simp add: b b0)
    ultimately show ?thesis using assms(9,10)
      by (simp add: bootstrap_from_def recovery_ciphertext_def)
  qed
  moreover have "bs = json_text X (bootstrap_value X b)" "length bs \<le> MAX_BOOTSTRAP_BYTES"
    using assms(7) by (auto simp: bootstrap_encode_def bindE_Inr Let_def split: if_splits)
  ultimately have "bootstrap_decode X bs = Inr b"
    using assms(8) bi same by (simp add: bootstrap_decode_def reads_back_def)
  moreover have "bootstrap_recover X C K b repository key = Inr (root, metadata)"
  proof -
    have "sound [Data ?body]" "sound [Data (sunk out)]" by (simp_all add: sound_def)
    moreover have "(of_nat (length ?body) :: u64) \<le> 32 + 8192"
      unfolding word_le_nat_alt n64 using len by simp
    ultimately obtain rest where d: "decrypt C [Data (sunk out)] (vector []) wrapping binding (32 + 8192)
        = Inr (of_nat (length ?body), rest, vector ?body)"
      using decrypt_encrypted [OF e assms(2,3), of "32 + 8192" "[Data (sunk out)]" "[]"] by auto
    have "rb_wrapped b = sunk out" "rb_repository b = repository" by (simp_all add: b b0)
    with k bi d same small assms(5) from_utf8_bytes [OF assms(6)] show ?thesis
      unfolding bootstrap_recover_def by (simp add: Let_def)
  qed
  ultimately show ?thesis by simp
qed

end
