(* ===== verification/Envelope.thy ===== *)
theory Envelope
  imports Recovery
begin

text \<open>
  The object envelope of \<^verbatim>\<open>crates/external-storage-format/src/snapshot.rs\<close>: the roles and keyed
  identities of objects, the public header, its sealed envelope, and the reference to a stored
  object. The digest is the parameter \<open>H\<close>; \<^verbatim>\<open>Sha256\<close> fed in pieces is the digest of what it was fed.
\<close>

definition ENVELOPE_MAGIC :: bytes where "ENVELOPE_MAGIC = as_bytes ''RNX1''"
definition HEADER_SCHEMA :: string where "HEADER_SCHEMA = ''risunest.external-object/v1''"
definition MAX_PUBLIC_HEADER_BYTES :: nat where "MAX_PUBLIC_HEADER_BYTES = 32 * 1024"
definition SNAPSHOT_METADATA_BYTES :: nat where "SNAPSHOT_METADATA_BYTES = 16 * 1024 * 1024"

section \<open>Roles and keyed identities\<close>

datatype object_role =
  Role_Descriptor | Role_Pack | Role_Catalog | Role_Sync_State | Role_Backup_Bundle | Role_Backup_Point
  | Role_Inventory_Page | Role_Lease | Role_Head

definition role_names :: "(string \<times> object_role) list" where
  "role_names =
     [(''descriptor'', Role_Descriptor), (''pack'', Role_Pack), (''catalog'', Role_Catalog),
      (''syncState'', Role_Sync_State), (''backupBundle'', Role_Backup_Bundle),
      (''backupPoint'', Role_Backup_Point), (''inventoryPage'', Role_Inventory_Page), (''lease'', Role_Lease),
      (''head'', Role_Head)]"

fun role_name :: "object_role \<Rightarrow> string" where
  "role_name Role_Descriptor = ''descriptor''"
| "role_name Role_Pack = ''pack''"
| "role_name Role_Catalog = ''catalog''"
| "role_name Role_Sync_State = ''syncState''"
| "role_name Role_Backup_Bundle = ''backupBundle''"
| "role_name Role_Backup_Point = ''backupPoint''"
| "role_name Role_Inventory_Page = ''inventoryPage''"
| "role_name Role_Lease = ''lease''"
| "role_name Role_Head = ''head''"

definition pad_step :: "bytes \<times> bytes \<Rightarrow> nat \<times> u8 \<Rightarrow> bytes \<times> bytes" where
  "pad_step = (\<lambda>(inner, outer) (index, b).
     (inner[index := xor (inner ! index) b], outer[index := xor (outer ! index) b]))"

definition keyed_object_id :: "(bytes \<Rightarrow> digest) \<Rightarrow> digest \<Rightarrow> string \<Rightarrow> object_role \<Rightarrow> digest \<Rightarrow> string formatted" where
  "keyed_object_id H key namespace role plaintext_sha256 =
     (if namespace = [] \<or> length namespace > 1024 \<or> CHR 0x00 \<in> set namespace then failed ''invalid-object-namespace''
      else
        bindE (case role of
                 Role_Pack \<Rightarrow> Inr (''pack'', as_bytes ''pack'')
               | Role_Catalog \<Rightarrow> Inr (''catalog'', as_bytes ''catalog'')
               | _ \<Rightarrow> failed ''invalid-keyed-object-role'') (\<lambda>(prefix, role_tag).
        let (inner_pad, outer_pad) = foldl pad_step (replicate 64 0x36, replicate 64 0x5c) (enumerate 0 key);
            inner = H (inner_pad @ as_bytes ''risunest.external-object-id/v1'' @ [0]
                       @ u64_to_le (of_nat (length namespace)) @ as_bytes namespace @ role_tag @ [0] @ plaintext_sha256)
        in Inr (prefix @ ''-'' @ hex_encode (H (outer_pad @ inner)))))"

section \<open>The public header\<close>

record header =
  ph_schema :: string
  ph_repository :: string
  ph_object :: string
  ph_role :: object_role
  ph_length :: u64

definition header_validate :: "header \<Rightarrow> unit formatted" where
  "header_validate h =
     (if ph_schema h \<noteq> HEADER_SCHEMA \<or> ph_repository h = [] \<or> length (ph_repository h) > 128
         \<or> ph_object h = [] \<or> length (ph_object h) > 8192 \<or> CHR 0x00 \<in> set (ph_object h)
      then failed ''invalid-object-header'' else Inr ())"

definition header_new :: "string \<Rightarrow> string \<Rightarrow> object_role \<Rightarrow> u64 \<Rightarrow> header formatted" where
  "header_new repository_id object_id role plaintext_length =
     (let h = \<lparr>ph_schema = HEADER_SCHEMA, ph_repository = repository_id, ph_object = object_id, ph_role = role,
               ph_length = plaintext_length\<rparr> in
      bindE (header_validate h) (\<lambda>_. Inr h))"

definition header_value :: "header \<Rightarrow> json" where
  "header_value h = JObject
     [(''schema'', JString (ph_schema h)), (''repositoryId'', JString (ph_repository h)),
      (''objectId'', JString (ph_object h)), (''role'', JString (role_name (ph_role h))),
      (''plaintextLength'', control_value (ph_length h))]"

definition header_from :: "json option \<Rightarrow> header option" where
  "header_from m =
     (case Option.bind m (doc_fields [''schema'', ''repositoryId'', ''objectId'', ''role'', ''plaintextLength'']) of
        Some [s, r, i, role, n] \<Rightarrow>
          (case (as_string s, as_string r, as_string i, enum_from role_names role, control_from n) of
             (Some s, Some r, Some i, Some role, Some n) \<Rightarrow>
               Some \<lparr>ph_schema = s, ph_repository = r, ph_object = i, ph_role = role, ph_length = n\<rparr>
           | _ \<Rightarrow> None)
      | _ \<Rightarrow> None)"

definition header_encode :: "ext \<Rightarrow> header \<Rightarrow> bytes formatted" where
  "header_encode X h =
     bindE (header_validate h) (\<lambda>_.
     let encoded = json_text X (header_value h) in
     if length encoded > MAX_PUBLIC_HEADER_BYTES then failed ''object-header-limit-exceeded'' else Inr encoded)"

section \<open>Stored objects\<close>

record locator =
  wl_connection :: string
  wl_collection :: "string option"
  wl_object :: string

definition locator_validate :: "locator \<Rightarrow> unit formatted" where
  "locator_validate l =
     (if wl_connection l = [] \<or> length (wl_connection l) > 8192 \<or> wl_object l = [] \<or> length (wl_object l) > 8192
         \<or> CHR 0x00 \<in> set (wl_connection l) \<or> CHR 0x00 \<in> set (wl_object l)
         \<or> (case wl_collection l of None \<Rightarrow> False | Some c \<Rightarrow> length c > 8192 \<or> CHR 0x00 \<in> set c)
      then failed ''invalid-object-locator'' else Inr ())"

definition locator_value :: "locator \<Rightarrow> json" where
  "locator_value l = JObject
     [(''connectionIdentity'', JString (wl_connection l)), (''collection'', opt_value (wl_collection l)),
      (''object'', JString (wl_object l))]"

definition locator_from :: "json option \<Rightarrow> locator option" where
  "locator_from m =
     (case Option.bind m (doc_fields [''connectionIdentity'', ''collection'', ''object'']) of
        Some [c, l, i] \<Rightarrow>
          (case (as_string c, as_opt_string l, as_string i) of
             (Some c, Some l, Some i) \<Rightarrow> Some \<lparr>wl_connection = c, wl_collection = l, wl_object = i\<rparr>
           | _ \<Rightarrow> None)
      | _ \<Rightarrow> None)"

record stored_object =
  so_header :: header
  so_locator :: locator
  so_ciphertext_length :: u64
  so_ciphertext_sha256 :: digest
  so_plaintext_length :: u64
  so_plaintext_sha256 :: digest

definition stored_value :: "stored_object \<Rightarrow> json" where
  "stored_value s = JObject
     [(''header'', header_value (so_header s)), (''locator'', locator_value (so_locator s)),
      (''ciphertextLength'', control_value (so_ciphertext_length s)),
      (''ciphertextSha256'', bytes_value (so_ciphertext_sha256 s)),
      (''plaintextLength'', control_value (so_plaintext_length s)),
      (''plaintextSha256'', bytes_value (so_plaintext_sha256 s))]"

definition stored_from :: "json option \<Rightarrow> stored_object option" where
  "stored_from m =
     (case Option.bind m (doc_fields [''header'', ''locator'', ''ciphertextLength'', ''ciphertextSha256'',
             ''plaintextLength'', ''plaintextSha256'']) of
        Some [h, l, n, c, k, p] \<Rightarrow>
          (case (header_from h, locator_from l, control_from n, as_array 32 c, control_from k, as_array 32 p) of
             (Some h, Some l, Some n, Some c, Some k, Some p) \<Rightarrow>
               Some \<lparr>so_header = h, so_locator = l, so_ciphertext_length = n, so_ciphertext_sha256 = c,
                     so_plaintext_length = k, so_plaintext_sha256 = p\<rparr>
           | _ \<Rightarrow> None)
      | _ \<Rightarrow> None)"

definition envelope_length :: "ext \<Rightarrow> header \<Rightarrow> u64 formatted" where
  "envelope_length X h =
     bindE (header_encode X h) (\<lambda>encoded.
     ok_or (Option.bind (checked_add 8 (of_nat (length encoded))) (\<lambda>n.
            case ciphertext_length (ph_length h) of Inl _ \<Rightarrow> None | Inr m \<Rightarrow> checked_add n m))
       (FormatError ''length-overflow''))"

definition stored_validate :: "ext \<Rightarrow> stored_object \<Rightarrow> unit formatted" where
  "stored_validate X s =
     bindE (header_validate (so_header s)) (\<lambda>_.
     bindE (locator_validate (so_locator s)) (\<lambda>_.
     bindE (envelope_length X (so_header s)) (\<lambda>n.
     if so_ciphertext_length s \<noteq> n \<or> so_plaintext_length s \<noteq> ph_length (so_header s)
     then failed ''object-length-mismatch'' else Inr ())))"

section \<open>The envelope\<close>

definition seal_envelope ::
  "ext \<Rightarrow> 's cipher \<Rightarrow> bytes \<Rightarrow> source \<Rightarrow> sink \<Rightarrow> bytes \<Rightarrow> header \<Rightarrow> (source \<times> sink) formatted" where
  "seal_envelope X C random src out key h =
     bindE (header_encode X h) (\<lambda>encoded.
     bindE (put_all out ENVELOPE_MAGIC) (\<lambda>out.
     bindE (put_all out (u32_to_le (of_nat (length encoded)))) (\<lambda>out.
     bindE (put_all out encoded) (\<lambda>out.
     encrypt C random src out key encoded (ph_length h)))))"

definition read_public_header :: "ext \<Rightarrow> source \<Rightarrow> (header \<times> bytes \<times> source) formatted" where
  "read_public_header X src =
     bindE (read_full 4 src) (\<lambda>(magic, src).
     if magic \<noteq> ENVELOPE_MAGIC then failed ''invalid-object-envelope''
     else
       bindE (read_full 4 src) (\<lambda>(bs, src).
       let len = unat (u32_from_le bs) in
       if len = 0 \<or> len > MAX_PUBLIC_HEADER_BYTES then failed ''object-header-limit-exceeded''
       else
         bindE (read_full len src) (\<lambda>(encoded, src).
         bindE (ok_or (header_from (from_slice X encoded)) (FormatError ''invalid-object-header'')) (\<lambda>h.
         bindE (header_validate h) (\<lambda>_.
         bindE (header_encode X h) (\<lambda>again.
         if again \<noteq> encoded then failed ''non-canonical-object-header''
         else Inr (h, encoded, src)))))))"

definition open_envelope ::
  "ext \<Rightarrow> 's cipher \<Rightarrow> source \<Rightarrow> sink \<Rightarrow> bytes \<Rightarrow> u64 \<Rightarrow> (header \<times> source \<times> sink) formatted" where
  "open_envelope X C src out key max_plaintext =
     bindE (read_public_header X src) (\<lambda>(h, encoded, src).
     if ph_length h > max_plaintext then failed ''decoded-limit-exceeded''
     else
       bindE (decrypt C src out key encoded max_plaintext) (\<lambda>(n, src, out).
       if n \<noteq> ph_length h then failed ''plaintext-integrity-failed'' else Inr (h, src, out)))"

section \<open>Lemmas\<close>

lemma role_from_name [simp]: "map_of role_names (role_name r) = Some r"
  by (cases r) (simp_all add: role_names_def)

lemma header_from_value [simp]: "header_from (Some (header_value h)) = Some h"
  by (cases h) (simp add: header_from_def header_value_def doc_fields_def struct_fields_def)

lemma locator_from_value [simp]: "locator_from (Some (locator_value l)) = Some l"
  by (cases l) (simp add: locator_from_def locator_value_def doc_fields_def struct_fields_def)

lemma stored_from_value [simp]:
  assumes "length (so_ciphertext_sha256 s) = 32" and "length (so_plaintext_sha256 s) = 32"
  shows "stored_from (Some (stored_value s)) = Some s"
  using assms by (cases s) (simp add: stored_from_def stored_value_def doc_fields_def struct_fields_def)

lemma header_encode_Inr:
  "header_encode X h = Inr encoded \<longleftrightarrow>
     header_validate h = Inr () \<and> encoded = json_text X (header_value h) \<and> length encoded \<le> MAX_PUBLIC_HEADER_BYTES"
  by (auto simp: header_encode_def Let_def failed_def bindE_Inr)

lemma header_text_nonempty: "json_text X (header_value h) \<noteq> []"
  by (simp add: header_value_def)

lemma unat_header_length:
  "n \<le> MAX_PUBLIC_HEADER_BYTES \<Longrightarrow> unat (of_nat n :: u32) = n"
  by (rule unat_of_nat_small) (simp add: MAX_PUBLIC_HEADER_BYTES_def)

lemma seal_envelope_Inr:
  assumes "seal_envelope X C random src out key h = Inr (src', out')"
  obtains encoded out0 where "header_encode X h = Inr encoded"
    and "sunk out0 = sunk out @ ENVELOPE_MAGIC @ u32_to_le (of_nat (length encoded)) @ encoded"
    and "encrypt C random src out0 key encoded (ph_length h) = Inr (src', out')"
  using assms that unfolding seal_envelope_def by (auto simp: bindE_Inr dest!: put_all_Inr)

lemma envelope_magic_length: "4 = length ENVELOPE_MAGIC"
  by (simp add: ENVELOPE_MAGIC_def)

lemma read_sealed_header:
  assumes "header_encode X h = Inr encoded" and "reads_back X (header_value h)" and "sound src"
    and "given src = ENVELOPE_MAGIC @ u32_to_le (of_nat (length encoded)) @ encoded @ rest"
  obtains src' where "read_public_header X src = Inr (h, encoded, src')" and "sound src'" and "given src' = rest"
proof -
  from assms(1) have e: "header_validate h = Inr ()" "encoded = json_text X (header_value h)"
    "length encoded \<le> MAX_PUBLIC_HEADER_BYTES" unfolding header_encode_Inr by blast+
  obtain s1 where s1: "read_full 4 src = Inr (ENVELOPE_MAGIC, s1)" "sound s1"
    "given s1 = u32_to_le (of_nat (length encoded)) @ encoded @ rest"
    using read_full_take [OF assms(3,4) envelope_magic_length] by blast
  obtain s2 where s2: "read_full 4 s1 = Inr (u32_to_le (of_nat (length encoded)), s2)" "sound s2"
    "given s2 = encoded @ rest" by (rule read_full_take [OF s1(2,3)]) simp_all
  obtain s3 where s3: "read_full (length encoded) s2 = Inr (encoded, s3)" "sound s3" "given s3 = rest"
    by (rule read_full_take [OF s2(2,3)]) simp_all
  have "encoded \<noteq> []" using e(2) header_text_nonempty by simp
  moreover have "from_slice X encoded = Some (header_value h)" using assms(2) e(2) by (simp add: reads_back_def)
  ultimately have "read_public_header X src = Inr (h, encoded, s3)"
    using s1(1) s2(1) s3(1) e(1,3) assms(1) unat_header_length [OF e(3)]
    by (simp add: read_public_header_def Let_def)
  with s3 that show thesis by blast
qed

lemma read_public_header_Inr:
  assumes "read_public_header X src = Inr (h, encoded, src')"
  shows "given src = ENVELOPE_MAGIC @ u32_to_le (of_nat (length encoded)) @ encoded @ given src'"
    "header_encode X h = Inr encoded" "sound src \<longrightarrow> sound src'"
proof -
  from assms obtain s1 bs s2 where
    r: "read_full 4 src = Inr (ENVELOPE_MAGIC, s1)" "read_full 4 s1 = Inr (bs, s2)"
      "read_full (unat (u32_from_le bs)) s2 = Inr (encoded, src')"
    and h: "header_encode X h = Inr encoded"
    by (auto simp: read_public_header_def bindE_Inr Let_def failed_def split: if_splits)
  have a: "given src = ENVELOPE_MAGIC @ given s1" "sound src \<longrightarrow> sound s1" using read_full_Inr [OF r(1)] by blast+
  have b: "given s1 = bs @ given s2" "sound s1 \<longrightarrow> sound s2" "length bs = 4" using read_full_Inr [OF r(2)] by blast+
  have c: "given s2 = encoded @ given src'" "sound s2 \<longrightarrow> sound src'" "length encoded = unat (u32_from_le bs)"
    using read_full_Inr [OF r(3)] by blast+
  have "bs = u32_to_le (of_nat (length encoded))" using b(3) c(3) by (simp add: u32_to_from_le)
  with a(1) b(1) c(1) show "given src = ENVELOPE_MAGIC @ u32_to_le (of_nat (length encoded)) @ encoded @ given src'"
    by metis
  show "sound src \<longrightarrow> sound src'" using a(2) b(2) c(2) by blast
  show "header_encode X h = Inr encoded" by (rule h)
qed

lemma header_no_panic [simp]: "header_validate h \<noteq> Inl Format_Panic" "header_encode X h \<noteq> Inl Format_Panic"
proof -
  show v: "header_validate h \<noteq> Inl Format_Panic" by (simp add: header_validate_def)
  then show "header_encode X h \<noteq> Inl Format_Panic" by (simp add: header_encode_def bindE_Inl Let_def)
qed

lemma read_public_header_no_panic: "read_public_header X src \<noteq> Inl Format_Panic"
proof
  assume "read_public_header X src = Inl Format_Panic"
  then show False unfolding read_public_header_def Let_def
    by (auto simp: bindE_Inl simp del: if_split split: if_splits)
qed

text \<open>HMAC of RFC 2104 over a digest with 64-byte blocks, and what is authenticated.\<close>

definition hmac :: "(bytes \<Rightarrow> digest) \<Rightarrow> bytes \<Rightarrow> bytes \<Rightarrow> digest" where
  "hmac H key message =
     (let k = key @ replicate (64 - length key) 0 in
      H (map (xor 0x5c) k @ H (map (xor 0x36) k @ message)))"

definition identity_message :: "string \<Rightarrow> object_role \<Rightarrow> digest \<Rightarrow> bytes" where
  "identity_message namespace role plaintext_sha256 =
     as_bytes ''risunest.external-object-id/v1'' @ [0] @ u64_to_le (of_nat (length namespace)) @ as_bytes namespace
       @ as_bytes (role_name role) @ [0] @ plaintext_sha256"

lemma pad_key:
  "n + length key \<le> 64 \<Longrightarrow> length p = 64 \<Longrightarrow> length q = 64 \<Longrightarrow>
   foldl pad_step (p, q) (enumerate n key) =
     (take n p @ map2 xor (drop n p) key @ drop (n + length key) p,
      take n q @ map2 xor (drop n q) key @ drop (n + length key) q)"
proof (induction key arbitrary: n p q)
  case (Cons b key)
  have s: "take (Suc n) (xs[n := x]) = take n xs @ [x]" "drop (Suc n) (xs[n := x]) = drop (Suc n) xs"
    "drop (Suc n + length key) (xs[n := x]) = drop (Suc n + length key) xs" "drop n xs = xs ! n # drop (Suc n) xs"
    if "length xs = 64" for xs :: bytes and x
    using that Cons.prems(1) by (simp_all add: take_Suc_conv_app_nth Cons_nth_drop_Suc)
  have "foldl pad_step (p, q) (enumerate n (b # key))
      = foldl pad_step (p[n := xor (p ! n) b], q[n := xor (q ! n) b]) (enumerate (Suc n) key)"
    by (simp add: pad_step_def)
  also have "\<dots> = (take n p @ map2 xor (drop n p) (b # key) @ drop (n + length (b # key)) p,
      take n q @ map2 xor (drop n q) (b # key) @ drop (n + length (b # key)) q)"
    using Cons.prems by (subst Cons.IH) (simp_all add: s)
  finally show ?case .
qed simp

lemma map2_replicate: "length key \<le> n \<Longrightarrow> map2 xor (replicate n a) key = map (xor a) (key :: bytes)"
proof (induction key arbitrary: n)
  case (Cons b key)
  then show ?case by (cases n) simp_all
qed simp

lemma pads:
  assumes "length key \<le> 64"
  shows "foldl pad_step (replicate 64 0x36, replicate 64 0x5c) (enumerate 0 key)
    = (map (xor 0x36) (key @ replicate (64 - length key) 0), map (xor 0x5c) (key @ replicate (64 - length key) 0))"
  using assms pad_key [of 0 key "replicate 64 0x36" "replicate 64 0x5c"] map2_replicate [of key 64]
  by (simp add: map_replicate)

lemma identity_message_inj:
  assumes "identity_message ns r d = identity_message ns' r' d'" and "length d = 32" and "length d' = 32"
    and "length ns \<le> 1024" and "length ns' \<le> 1024"
    and "r \<in> {Role_Pack, Role_Catalog}" and "r' \<in> {Role_Pack, Role_Catalog}"
  shows "ns = ns' \<and> r = r' \<and> d = d'"
proof -
  from assms(1) have eq: "u64_to_le (of_nat (length ns)) @ as_bytes ns @ as_bytes (role_name r) @ [0] @ d
      = u64_to_le (of_nat (length ns')) @ as_bytes ns' @ as_bytes (role_name r') @ [0] @ d'"
    by (simp add: identity_message_def)
  then have "u64_to_le (of_nat (length ns)) = u64_to_le (of_nat (length ns'))"
    by (subst (asm) append_eq_append_conv) simp_all
  from arg_cong [OF this, of "unat \<circ> u64_from_le"] have "length ns = length ns'"
    using assms(4,5) by (simp add: unat_of_nat_64)
  with eq have "as_bytes ns = as_bytes ns'" and tail: "as_bytes (role_name r) @ [0] @ d = as_bytes (role_name r') @ [0] @ d'"
    by simp_all
  have "length (role_name r) = length (role_name r')" using arg_cong [OF tail, of length] assms(2,3) by simp
  with assms(6,7) have "r = r'" by auto
  with tail \<open>as_bytes ns = as_bytes ns'\<close> show ?thesis by (simp add: as_bytes_inj)
qed

lemma envelope_length_sum:
  assumes e: "header_encode X h = Inr encoded"
    and c: "case ciphertext_length (ph_length h) of Inl _ \<Rightarrow> 2 ^ 64 \<le> l | Inr n \<Rightarrow> l = unat n"
  shows "case envelope_length X h of
      Inr n \<Rightarrow> 8 + length encoded + l = unat n | Inl _ \<Rightarrow> 2 ^ 64 \<le> 8 + length encoded + l"
proof -
  have max: "length encoded \<le> MAX_PUBLIC_HEADER_BYTES" using e unfolding header_encode_Inr by blast
  have u: "unat (of_nat (length encoded) :: u64) = length encoded"
    using max by (intro unat_of_nat_64) (simp add: MAX_PUBLIC_HEADER_BYTES_def)
  have eight: "checked_add 8 (of_nat (length encoded)) = Some (8 + of_nat (length encoded) :: u64)"
    "unat (8 + of_nat (length encoded) :: u64) = 8 + length encoded"
    using u max by (simp_all add: checked_add_def unat_add_lem [THEN iffD1] MAX_PUBLIC_HEADER_BYTES_def)
  show ?thesis
  proof (cases "ciphertext_length (ph_length h)")
    case (Inl err)
    with c e eight(1) show ?thesis by (simp add: envelope_length_def)
  next
    case (Inr n)
    show ?thesis
    proof (cases "8 + length encoded + unat n < 2 ^ 64")
      case True
      then have "checked_add (8 + of_nat (length encoded)) n = Some (8 + of_nat (length encoded) + n)"
        "unat (8 + of_nat (length encoded) + n) = 8 + length encoded + unat n"
        using eight(2) by (simp_all add: checked_add_def unat_add_lem [THEN iffD1])
      with c e eight Inr show ?thesis by (simp add: envelope_length_def)
    next
      case False
      then have "checked_add (8 + of_nat (length encoded)) n = None"
        using eight(2) by (simp add: checked_add_def)
      with c e eight(1) Inr False show ?thesis by (simp add: envelope_length_def)
    qed
  qed
qed

lemma open_sealed:
  assumes "seal_envelope X C random src out key h = Inr (src', out')" and "cipher_ok C" and "length random = 24"
    and "sound src" and "reads_back X (header_value h)" and "ph_length h \<le> max_plaintext"
    and "sound sealed" and "given sealed = drop (length (sunk out)) (sunk out')"
  shows "\<exists>rest. open_envelope X C sealed (vector staging) key max_plaintext = Inr (h, rest, vector (staging @ given src))
      \<and> given rest = []"
proof -
  from assms(1) obtain encoded out0 where e: "header_encode X h = Inr encoded"
    and o0: "sunk out0 = sunk out @ ENVELOPE_MAGIC @ u32_to_le (of_nat (length encoded)) @ encoded"
    and enc: "encrypt C random src out0 key encoded (ph_length h) = Inr (src', out')"
    by (rule seal_envelope_Inr)
  obtain bs where bs: "sunk out' = sunk out0 @ bs"
    using encrypt_appends [OF enc assms(2)] by blast
  from assms(8) have "given sealed = ENVELOPE_MAGIC @ u32_to_le (of_nat (length encoded)) @ encoded @ bs"
    by (simp add: bs o0)
  from read_sealed_header [OF e assms(5,7) this] obtain s1 where
    s1: "read_public_header X sealed = Inr (h, encoded, s1)" "sound s1" "given s1 = bs" .
  have "given s1 = drop (length (sunk out0)) (sunk out')" using s1(3) bs by simp
  from decrypt_encrypted [OF enc assms(2,3,4,6) s1(2) this, of staging] obtain rest where
    d: "decrypt C s1 (vector staging) key encoded max_plaintext = Inr (ph_length h, rest, vector (staging @ given src))"
      "given rest = []" by blast
  have "open_envelope X C sealed (vector staging) key max_plaintext = Inr (h, rest, vector (staging @ given src))"
    using s1(1) d(1) assms(6) by (simp add: open_envelope_def not_less)
  with d(2) show ?thesis by blast
qed

section \<open>Properties\<close>

text \<open>C18. The identity of an object is computed as HMAC over a message that determines the namespace,
  the role and the plaintext digest; it is refused exactly for a namespace that is empty, over 1024
  bytes or has a NUL, and for the roles that are not addressed by content.\<close>

theorem keyed_identity_is_hmac:
  assumes "length key = 32" and "length d = 32" and "length d' = 32" and "length ns' \<le> 1024"
  shows "keyed_object_id H key ns r d =
      (if ns = [] \<or> length ns > 1024 \<or> CHR 0x00 \<in> set ns then failed ''invalid-object-namespace''
       else if r \<in> {Role_Pack, Role_Catalog}
       then Inr (role_name r @ ''-'' @ hex_encode (hmac H key (identity_message ns r d)))
       else failed ''invalid-keyed-object-role'')
    \<and> (if length ns \<le> 1024 \<and> r \<in> {Role_Pack, Role_Catalog} \<and> r' \<in> {Role_Pack, Role_Catalog}
         \<and> identity_message ns r d = identity_message ns' r' d'
       then ns = ns' \<and> r = r' \<and> d = d' else True)"
proof -
  have "keyed_object_id H key ns r d =
      (if ns = [] \<or> length ns > 1024 \<or> CHR 0x00 \<in> set ns then failed ''invalid-object-namespace''
       else if r \<in> {Role_Pack, Role_Catalog}
       then Inr (role_name r @ ''-'' @ hex_encode (hmac H key (identity_message ns r d)))
       else failed ''invalid-keyed-object-role'')"
    using assms(1) by (cases r) (simp_all add: keyed_object_id_def pads hmac_def identity_message_def Let_def failed_def)
  with identity_message_inj [OF _ assms(2,3) _ assms(4)] show ?thesis by auto
qed

lemma keyed_identity_is_hmac_witness:
  "keyed_object_id (\<lambda>bs. drop 64 bs) (replicate 32 1) ''n'' Role_Pack (replicate 32 2)
     = Inr (''pack-'' @ hex_encode (hmac (\<lambda>bs. drop 64 bs) (replicate 32 1) (identity_message ''n'' Role_Pack (replicate 32 2))))"
  using keyed_identity_is_hmac [of "replicate 32 1" "replicate 32 2" "replicate 32 2" "''n''" "\<lambda>bs. drop 64 bs" "''n''" Role_Pack]
  by simp

text \<open>C17. A sealed envelope opens to what was sealed: from any reader that delivers the bytes written,
  opening with the same key gives the header and the plaintext, with nothing left unread; and the
  length announced for the header is the number of bytes written, an announcement failing only
  beyond 64 bits.\<close>

theorem envelope_roundtrip:
  assumes "seal_envelope X C random src out key h = Inr (src', out')" and "cipher_ok C" and "length random = 24"
    and "sound src" and "reads_back X (header_value h)" and "ph_length h \<le> max_plaintext"
    and "sound sealed" and "given sealed = drop (length (sunk out)) (sunk out')"
  shows "(\<exists>rest. open_envelope X C sealed (vector staging) key max_plaintext = Inr (h, rest, vector (staging @ given src))
      \<and> given rest = [])
    \<and> (case envelope_length X h of
        Inr n \<Rightarrow> length (sunk out') = length (sunk out) + unat n
      | Inl _ \<Rightarrow> 2 ^ 64 \<le> length (sunk out') - length (sunk out))"
proof -
  from assms(1) obtain encoded out0 where e: "header_encode X h = Inr encoded"
    and o0: "sunk out0 = sunk out @ ENVELOPE_MAGIC @ u32_to_le (of_nat (length encoded)) @ encoded"
    and enc: "encrypt C random src out0 key encoded (ph_length h) = Inr (src', out')"
    by (rule seal_envelope_Inr)
  obtain bs where bs: "sunk out' = sunk out0 @ bs"
    using encrypt_appends [OF enc assms(2)] by blast
  have grown: "length (sunk out') = length (sunk out) + (8 + length encoded + length bs)"
    using bs o0 envelope_magic_length by simp
  have "case ciphertext_length (ph_length h) of Inl _ \<Rightarrow> 2 ^ 64 \<le> length bs | Inr n \<Rightarrow> length bs = unat n"
    using ciphertext_length_matches [OF enc assms(2,3)] bs by (simp split: sum.splits)
  from envelope_length_sum [OF e this] have "case envelope_length X h of
        Inr n \<Rightarrow> length (sunk out') = length (sunk out) + unat n
      | Inl _ \<Rightarrow> 2 ^ 64 \<le> length (sunk out') - length (sunk out)"
    unfolding grown by (simp split: sum.splits)
  with open_sealed [OF assms, of staging] show ?thesis by blast
qed

text \<open>C29. Whatever a reader delivers, opening an envelope never panics. When it succeeds, what was read is an
  envelope: the one encoding of the header, the announced length, a random header and frames; every frame in order was authenticated
  by the cipher, in the state the frames before it left, under additional data that contain the announced
  length and the bytes of the public header; the last frame says that it is the last; and the output
  grew by the plaintexts of the frames, exactly as many bytes as the header announces and at most the limit.\<close>

theorem open_envelope_authenticated:
  assumes "pull_sized C"
  shows "case open_envelope X C src out key max_plaintext of
      Inl e \<Rightarrow> e \<noteq> Format_Panic
    | Inr (h, src', out') \<Rightarrow>
        \<exists>encoded random cs p. header_encode X h = Inr encoded \<and> length random = 24
          \<and> given src = ENVELOPE_MAGIC @ u32_to_le (of_nat (length encoded)) @ encoded
              @ CRYPT_MAGIC @ u64_to_le (ph_length h) @ random @ framed cs @ given src'
          \<and> (if sound src then given src' = [] else True)
          \<and> pulls C (CRYPT_MAGIC @ u64_to_le (ph_length h) @ u32_to_le (of_nat (length encoded)) @ encoded)
              (ss_init C key random) cs p
          \<and> ph_length h \<le> max_plaintext \<and> sunk out' = sunk out @ p \<and> length p = unat (ph_length h)"
proof (cases "open_envelope X C src out key max_plaintext")
  case (Inl e)
  have "decrypt C s out key encoded max_plaintext \<noteq> Inl Format_Panic" for s encoded
    using decrypt_cases [OF assms, where src = s and staging = out and key = key and binding = encoded and max_length = max_plaintext] by auto
  with Inl read_public_header_no_panic [of X src] show ?thesis
    by (auto simp: open_envelope_def bindE_Inl split: if_splits)
next
  case (Inr y)
  obtain h src' out' where y: "y = (h, src', out')" by (metis prod_cases3)
  from Inr obtain encoded body where r: "read_public_header X src = Inr (h, encoded, body)"
    and m: "ph_length h \<le> max_plaintext"
    and d: "decrypt C body out key encoded max_plaintext = Inr (ph_length h, src', out')"
    by (auto simp: y open_envelope_def bindE_Inr not_less split: if_splits)
  note H = read_public_header_Inr [OF r]
  from decrypt_pulls [OF assms d] obtain random cs p where
    "given body = CRYPT_MAGIC @ u64_to_le (ph_length h) @ random @ framed cs @ given src'" "length random = 24"
    "pulls C (CRYPT_MAGIC @ u64_to_le (ph_length h) @ u32_to_le (of_nat (length encoded)) @ encoded) (ss_init C key random) cs p"
    "sunk out' = sunk out @ p" "length p = unat (ph_length h)" "sound body \<longrightarrow> given src' = []" by blast
  with H m show ?thesis unfolding Inr y sum.case prod.case
    by (intro exI [of _ encoded] exI [of _ random] exI [of _ cs] exI [of _ p]) simp
qed

definition sample_header :: header where
  "sample_header = \<lparr>ph_schema = HEADER_SCHEMA, ph_repository = ''r'', ph_object = ''o'', ph_role = Role_Pack, ph_length = 3\<rparr>"

abbreviation sample_header_ext :: ext where
  "sample_header_ext \<equiv> sample_ext (header_value sample_header)"

lemma sample_header_text: "length (json_text sample_header_ext (header_value sample_header)) \<le> 400"
proof -
  have "decimal_string 3 = [digit_char 3]" by (simp add: decimal_string_def show_nat.simps)
  then show ?thesis
    by (simp add: sample_header_def header_value_def control_value_def HEADER_SCHEMA_def sample_ext_def quote_def
        as_bytes_def join_def separator_def)
qed

lemma sample_seal:
  "\<exists>s out. seal_envelope sample_header_ext sample_cipher (replicate 24 0) [Data [1, 2, 3]] (vector []) [] sample_header
     = Inr (s, out)"
proof -
  have "header_validate sample_header = Inr ()"
    by (simp add: header_validate_def sample_header_def)
  moreover have "json_text sample_header_ext (header_value sample_header) \<noteq> []" by (rule header_text_nonempty)
  ultimately show ?thesis
    using sample_header_text
    by (simp add: seal_envelope_def header_encode_def MAX_PUBLIC_HEADER_BYTES_def Let_def encrypt_def aad_def
        MAX_BINDING_def del: json_text.simps)
      (simp add: sample_header_def encrypt_loop.simps FRAME_BYTES_def read_full.simps read_up_to_def io_result_def
        sample_cipher_def)
qed

lemma envelope_roundtrip_witness:
  "case seal_envelope sample_header_ext sample_cipher (replicate 24 0) [Data [1, 2, 3]] (vector []) [] sample_header of
     Inl _ \<Rightarrow> False
   | Inr (_, out) \<Rightarrow>
       \<exists>rest. open_envelope sample_header_ext sample_cipher [Data (sunk out)] (vector []) [] 5
          = Inr (sample_header, rest, vector [1, 2, 3]) \<and> given rest = []"
proof -
  obtain s out where e: "seal_envelope sample_header_ext sample_cipher (replicate 24 0) [Data [1, 2, 3]] (vector []) []
      sample_header = Inr (s, out)" using sample_seal by blast
  have "sound [Data [1, 2, 3]]" "sound [Data (sunk out)]" by (simp_all add: sound_def)
  moreover have "reads_back sample_header_ext (header_value sample_header)" by (simp add: reads_back_def sample_ext_def)
  moreover have "ph_length sample_header \<le> 5" by (simp add: sample_header_def)
  ultimately show ?thesis
    using envelope_roundtrip [OF e sample_cipher_ok(1), of 5 "[Data (sunk out)]" "[]"] e by auto
qed

lemma open_envelope_authenticated_witness:
  "case seal_envelope sample_header_ext sample_cipher (replicate 24 0) [Data [1, 2, 3]] (vector []) [] sample_header of
     Inl _ \<Rightarrow> False
   | Inr (_, out) \<Rightarrow>
       \<exists>random cs. pulls sample_cipher
           (CRYPT_MAGIC @ u64_to_le 3 @ u32_to_le (of_nat (length (json_text sample_header_ext (header_value sample_header))))
             @ json_text sample_header_ext (header_value sample_header))
           (ss_init sample_cipher [] random) cs [1, 2, 3]"
proof -
  obtain s out where e: "seal_envelope sample_header_ext sample_cipher (replicate 24 0) [Data [1, 2, 3]] (vector []) []
      sample_header = Inr (s, out)" using sample_seal by blast
  have "sound [Data [1, 2, 3]]" "sound [Data (sunk out)]" by (simp_all add: sound_def)
  moreover have "reads_back sample_header_ext (header_value sample_header)" by (simp add: reads_back_def sample_ext_def)
  moreover have three: "ph_length sample_header = 3" by (simp add: sample_header_def)
  ultimately obtain rest where "open_envelope sample_header_ext sample_cipher [Data (sunk out)] (vector []) [] 5
      = Inr (sample_header, rest, vector [1, 2, 3])"
    using open_sealed [OF e sample_cipher_ok(1), of 5 "[Data (sunk out)]" "[]"] by auto
  with open_envelope_authenticated [OF sample_cipher_ok(2), where X = sample_header_ext
      and src = "[Data (sunk out)]" and out = "vector []" and key = "[]" and max_plaintext = 5]
  have "\<exists>encoded random cs p. header_encode sample_header_ext sample_header = Inr encoded
      \<and> pulls sample_cipher (CRYPT_MAGIC @ u64_to_le 3 @ u32_to_le (of_nat (length encoded)) @ encoded)
          (ss_init sample_cipher [] random) cs p \<and> p = [1, 2, 3]"
    unfolding three by (simp add: three) blast
  with e show ?thesis by (auto simp: header_encode_Inr)
qed

end
