(* ===== verification/Canonical_Document.thy ===== *)
theory Canonical_Document
  imports Envelope
begin

text \<open>
  The discipline the external-storage documents share: a document is written as JSON text of
  bounded size, and is read by parsing, validating and comparing its own encoding with what was
  read. The interface states what each decoder does; from it follows that a document and its
  bytes determine each other. Every document of \<^verbatim>\<open>snapshot.rs\<close> and \<^verbatim>\<open>control.rs\<close>, and every record of
  \<^verbatim>\<open>logical_records.rs\<close>, is an instance; the type of the errors is a parameter.
\<close>

locale canonical_document =
  fixes parse :: "bytes \<Rightarrow> 'd option"
    and check :: "'d \<Rightarrow> 'e + unit"
    and wire_text :: "'d \<Rightarrow> bytes"
    and fits :: "nat \<Rightarrow> bytes \<Rightarrow> bool"
    and enc :: "nat \<Rightarrow> 'd \<Rightarrow> 'e + bytes"
    and dec :: "nat \<Rightarrow> bytes \<Rightarrow> 'e + 'd"
  assumes enc_text: "enc m d = Inr bs \<Longrightarrow> bs = wire_text d \<and> fits m bs"
    and dec_iff: "dec m bs = Inr d \<longleftrightarrow> fits m bs \<and> parse bs = Some d \<and> check d = Inr () \<and> enc m d = Inr bs"
begin

lemma decode_iff_encode:
  "parse (wire_text d) = Some d \<Longrightarrow> dec m bs = Inr d \<longleftrightarrow> check d = Inr () \<and> enc m d = Inr bs"
  using enc_text dec_iff by metis

lemma one_encoding: "dec m bs = Inr d \<Longrightarrow> dec n cs = Inr d \<Longrightarrow> bs = cs"
  using enc_text dec_iff by metis

lemma decoded_checked: "dec m bs = Inr d \<Longrightarrow> check d = Inr () \<and> fits m bs"
  using dec_iff by blast

end

text \<open>Integers narrower than 64 bits under \<^verbatim>\<open>control_integer\<close>.\<close>

definition control_u32 :: "json option \<Rightarrow> u32 option" where
  "control_u32 m = map_option ucast (control_below (2 ^ 32) m)"

definition control_u16 :: "json option \<Rightarrow> 16 word option" where
  "control_u16 m = map_option ucast (control_below (2 ^ 16) m)"

lemma control_narrow [simp]:
  "control_u32 (Some (control_value (ucast n))) = Some n"
  "control_u16 (Some (control_value (ucast l))) = Some l"
proof -
  have "unat (ucast l :: u64) = unat l"
  proof -
    have "unat l < 2 ^ 16" using unsigned_less [of l] by simp
    then show ?thesis by (simp add: unsigned_ucast_eq take_bit_nat_eq_self)
  qed
  then have "unat (ucast l :: u64) < 2 ^ 16" using unsigned_less [of l] by simp
  moreover have "(ucast (ucast l :: u64) :: 16 word) = l" by (rule ucast_up_ucast_id) (simp add: is_up)
  ultimately show "control_u16 (Some (control_value (ucast l))) = Some l" by (simp add: control_u16_def)
  have "unat (ucast n :: u64) < 2 ^ 32" using unat_less_32 [of n] by simp
  moreover have "(ucast (ucast n :: u64) :: u32) = n" by (rule ucast_up_ucast_id) (simp add: is_up)
  ultimately show "control_u32 (Some (control_value (ucast n))) = Some n" by (simp add: control_u32_def)
qed

text \<open>Loops that compare each element with the one before it.\<close>

lemma successively_append_last:
  "successively P (xs @ [y]) \<longleftrightarrow> successively P xs \<and> (xs = [] \<or> P (last xs) y)"
  by (auto simp: successively_append_iff)

text \<open>A loop that carries what the last element left, against the relation between neighbours.\<close>

lemma chained_loop:
  assumes "\<And>previous x q. step previous x = Inr q \<longleftrightarrow>
      ok x \<and> q = Some (left x) \<and> (case previous of None \<Rightarrow> True | Some p \<Rightarrow> rel p x)"
  shows "foldE step previous xs = Inr q \<longleftrightarrow>
     list_all ok xs \<and> successively (\<lambda>x y. rel (left x) y) xs
     \<and> (case previous of None \<Rightarrow> True | Some p \<Rightarrow> xs = [] \<or> rel p (hd xs))
     \<and> q = (if xs = [] then previous else Some (left (last xs)))"
proof (induction xs arbitrary: previous)
  case Nil
  then show ?case by (auto split: option.split)
next
  case (Cons x xs)
  then show ?case
    by (cases xs) (auto simp: bindE_Inr assms split: option.splits)
qed

section \<open>A parser for given documents\<close>

text \<open>A concrete environment whose parser knows the texts of the given values, to run the theorems on.\<close>

definition table_ext :: "json list \<Rightarrow> ext" where
  "table_ext vs = sample_ext JNull\<lparr>from_slice := \<lambda>bs. find (\<lambda>v. json_text (sample_ext JNull) v = bs) vs\<rparr>"

lemma json_text_to_vec: "to_vec X = to_vec Y \<Longrightarrow> json_text X v = json_text Y v"
proof (induction v)
  case (JArray vs)
  then have "map (json_text X) vs = map (json_text Y) vs" by simp
  then show ?case by (simp only: json_text.simps)
next
  case (JObject ps)
  then have "map (\<lambda>p. to_vec X (JString (fst p)) @ [byte CHR '':''] @ json_text X (snd p)) ps
      = map (\<lambda>p. to_vec Y (JString (fst p)) @ [byte CHR '':''] @ json_text Y (snd p)) ps"
    by (auto simp: snds.simps)
  then show ?case by (simp only: json_text.simps)
qed simp_all

lemma table_reads_back:
  assumes "vs = us @ v # ws" and "list_all (\<lambda>u. json_text (sample_ext JNull) u \<noteq> json_text (sample_ext JNull) v) us"
  shows "reads_back (table_ext vs) v"
proof -
  have t: "json_text (table_ext vs) v = json_text (sample_ext JNull) v"
    by (rule json_text_to_vec) (simp add: table_ext_def)
  have "find (\<lambda>u. json_text (sample_ext JNull) u = json_text (sample_ext JNull) v) (us @ v # ws) = Some v"
    using assms(2) by (induction us) auto
  then show ?thesis unfolding reads_back_def t by (simp add: table_ext_def assms(1))
qed

end
