(* ===== verification/Catalog_Tree.thy ===== *)
theory Catalog_Tree
  imports Canonical_Document
begin

text \<open>
  The catalog documents of \<^verbatim>\<open>crates/external-storage-format/src/snapshot.rs\<close>: a tree whose leaves list
  the fragments of entries and the packs they lie in, and whose branches list the key ranges of
  their children.
\<close>

definition CATALOG_SCHEMA :: string where "CATALOG_SCHEMA = ''risunest.external-catalog/v1''"

datatype catalog_kind = Kind_Records | Kind_Assets | Kind_Section

datatype entry_kind = Entry_Record | Entry_Object | Entry_Section_Entry | Entry_Section_Object

fun catalog_kind_name :: "catalog_kind \<Rightarrow> string" where
  "catalog_kind_name Kind_Records = ''records''"
| "catalog_kind_name Kind_Assets = ''assets''"
| "catalog_kind_name Kind_Section = ''section''"

definition catalog_kinds :: "(string \<times> catalog_kind) list" where
  "catalog_kinds = [(''records'', Kind_Records), (''assets'', Kind_Assets), (''section'', Kind_Section)]"

fun entry_kind_name :: "entry_kind \<Rightarrow> string" where
  "entry_kind_name Entry_Record = ''record''"
| "entry_kind_name Entry_Object = ''object''"
| "entry_kind_name Entry_Section_Entry = ''sectionEntry''"
| "entry_kind_name Entry_Section_Object = ''sectionObject''"

definition entry_kinds :: "(string \<times> entry_kind) list" where
  "entry_kinds = [(''record'', Entry_Record), (''object'', Entry_Object), (''sectionEntry'', Entry_Section_Entry),
     (''sectionObject'', Entry_Section_Object)]"

record stored_chunk =
  sc_pack :: string
  sc_offset :: u64
  sc_stored :: u64
  sc_plain :: u64
  sc_hash :: digest

definition chunk_value :: "stored_chunk \<Rightarrow> json" where
  "chunk_value c = JObject
     [(''packId'', JString (sc_pack c)), (''offset'', control_value (sc_offset c)),
      (''storedLength'', control_value (sc_stored c)), (''plaintextLength'', control_value (sc_plain c)),
      (''plaintextSha256'', bytes_value (sc_hash c))]"

definition chunk_from :: "json \<Rightarrow> stored_chunk option" where
  "chunk_from v =
     (case doc_fields [''packId'', ''offset'', ''storedLength'', ''plaintextLength'', ''plaintextSha256''] v of
        Some [p, off, s, n, h] \<Rightarrow>
          (case (as_string p, control_from off, control_from s, control_from n, as_array 32 h) of
             (Some p, Some off, Some s, Some n, Some h) \<Rightarrow>
               Some \<lparr>sc_pack = p, sc_offset = off, sc_stored = s, sc_plain = n, sc_hash = h\<rparr>
           | _ \<Rightarrow> None)
      | _ \<Rightarrow> None)"

record fragment =
  fg_kind :: entry_kind
  fg_key :: string
  fg_content :: digest
  fg_length :: u64
  fg_index :: u32
  fg_count :: u32
  fg_chunks :: "stored_chunk list"

definition fragment_value :: "fragment \<Rightarrow> json" where
  "fragment_value f = JObject
     [(''kind'', JString (entry_kind_name (fg_kind f))), (''key'', JString (fg_key f)),
      (''contentSha256'', bytes_value (fg_content f)), (''byteLength'', control_value (fg_length f)),
      (''fragmentIndex'', control_value (ucast (fg_index f))), (''fragmentCount'', control_value (ucast (fg_count f))),
      (''chunks'', JArray (map chunk_value (fg_chunks f)))]"

definition fragment_from :: "json \<Rightarrow> fragment option" where
  "fragment_from v =
     (case doc_fields [''kind'', ''key'', ''contentSha256'', ''byteLength'', ''fragmentIndex'', ''fragmentCount'', ''chunks''] v of
        Some [k, i, h, n, x, c, cs] \<Rightarrow>
          (case (enum_from entry_kinds k, as_string i, as_array 32 h, control_from n, control_u32 x, control_u32 c,
                 as_list chunk_from cs) of
             (Some k, Some i, Some h, Some n, Some x, Some c, Some cs) \<Rightarrow>
               Some \<lparr>fg_kind = k, fg_key = i, fg_content = h, fg_length = n, fg_index = x, fg_count = c, fg_chunks = cs\<rparr>
           | _ \<Rightarrow> None)
      | _ \<Rightarrow> None)"

record child =
  ch_first :: string
  ch_last :: string
  ch_object :: stored_object

definition child_value :: "child \<Rightarrow> json" where
  "child_value c = JObject
     [(''firstKey'', JString (ch_first c)), (''lastKey'', JString (ch_last c)), (''object'', stored_value (ch_object c))]"

definition child_from :: "json \<Rightarrow> child option" where
  "child_from v =
     (case doc_fields [''firstKey'', ''lastKey'', ''object''] v of
        Some [f, l, i] \<Rightarrow>
          (case (as_string f, as_string l, stored_from i) of
             (Some f, Some l, Some i) \<Rightarrow> Some \<lparr>ch_first = f, ch_last = l, ch_object = i\<rparr>
           | _ \<Rightarrow> None)
      | _ \<Rightarrow> None)"

record catalog =
  cg_schema :: string
  cg_kind :: catalog_kind
  cg_level :: "16 word"
  cg_first :: string
  cg_last :: string
  cg_entries :: "fragment list"
  cg_children :: "child list"
  cg_packs :: "stored_object list"

definition catalog_value :: "catalog \<Rightarrow> json" where
  "catalog_value d = JObject
     [(''schema'', JString (cg_schema d)), (''kind'', JString (catalog_kind_name (cg_kind d))),
      (''level'', control_value (ucast (cg_level d))), (''firstKey'', JString (cg_first d)),
      (''lastKey'', JString (cg_last d)), (''entries'', JArray (map fragment_value (cg_entries d))),
      (''children'', JArray (map child_value (cg_children d))), (''packs'', JArray (map stored_value (cg_packs d)))]"

definition catalog_from :: "json \<Rightarrow> catalog option" where
  "catalog_from v =
     (case doc_fields [''schema'', ''kind'', ''level'', ''firstKey'', ''lastKey'', ''entries'', ''children'', ''packs''] v of
        Some [s, k, lv, f, l, es, cs, ps] \<Rightarrow>
          (case (as_string s, enum_from catalog_kinds k, control_u16 lv, as_string f, as_string l,
                 as_list fragment_from es, as_list child_from cs, as_list (\<lambda>v. stored_from (Some v)) ps) of
             (Some s, Some k, Some lv, Some f, Some l, Some es, Some cs, Some ps) \<Rightarrow>
               Some \<lparr>cg_schema = s, cg_kind = k, cg_level = lv, cg_first = f, cg_last = l, cg_entries = es,
                     cg_children = cs, cg_packs = ps\<rparr>
           | _ \<Rightarrow> None)
      | _ \<Rightarrow> None)"

section \<open>Validation\<close>

definition chunk_sum :: "u64 \<Rightarrow> stored_chunk \<Rightarrow> u64 formatted" where
  "chunk_sum amount c =
     (if sc_pack c = [] \<or> sc_stored c = 0 \<or> checked_add (sc_offset c) (sc_stored c) = None
      then failed ''invalid-chunk-reference''
      else ok_or (checked_add amount (sc_plain c)) (FormatError ''length-overflow''))"

definition fragment_step :: "(string \<times> u32) option \<Rightarrow> fragment \<Rightarrow> (string \<times> u32) option formatted" where
  "fragment_step previous f =
     (if fg_key f = [] \<or> fg_count f = 0 \<or> fg_index f \<ge> fg_count f \<or> fg_chunks f = [] then failed ''invalid-catalog-entry''
      else if (case previous of
                 None \<Rightarrow> False
               | Some (key, index) \<Rightarrow> key > fg_key f \<or> key = fg_key f \<and> index + 1 \<noteq> fg_index f)
      then failed ''invalid-catalog-order''
      else
        bindE (foldE chunk_sum 0 (fg_chunks f)) (\<lambda>amount.
        if amount > fg_length f then failed ''catalog-length-mismatch'' else Inr (Some (fg_key f, fg_index f))))"

definition pack_step :: "ext \<Rightarrow> string option \<Rightarrow> stored_object \<Rightarrow> string option formatted" where
  "pack_step X previous s =
     bindE (stored_validate X s) (\<lambda>_.
     if ph_role (so_header s) \<noteq> Role_Pack
        \<or> (case previous of None \<Rightarrow> False | Some i \<Rightarrow> i \<ge> ph_object (so_header s))
     then failed ''invalid-pack-reference'' else Inr (Some (ph_object (so_header s))))"

definition child_step :: "ext \<Rightarrow> string option \<Rightarrow> child \<Rightarrow> string option formatted" where
  "child_step X previous c =
     bindE (stored_validate X (ch_object c)) (\<lambda>_.
     if ph_role (so_header (ch_object c)) \<noteq> Role_Catalog \<or> ch_first c = [] \<or> ch_first c > ch_last c
        \<or> (case previous of None \<Rightarrow> False | Some k \<Rightarrow> k > ch_first c)
     then failed ''invalid-catalog-child'' else Inr (Some (ch_last c)))"

definition outside :: "'a list \<Rightarrow> ('a \<Rightarrow> string) \<Rightarrow> ('a \<Rightarrow> string) \<Rightarrow> string \<Rightarrow> string \<Rightarrow> bool" where
  "outside xs lower_key upper_key first_key last_key \<longleftrightarrow>
     xs \<noteq> [] \<and> (lower_key (hd xs) \<noteq> first_key \<or> upper_key (last xs) \<noteq> last_key)"

definition catalog_validate :: "ext \<Rightarrow> catalog \<Rightarrow> unit formatted" where
  "catalog_validate X d =
     (if cg_schema d \<noteq> CATALOG_SCHEMA \<or> cg_level d > 32 then failed ''invalid-catalog-document''
      else if cg_level d = 0 then
        (if cg_children d \<noteq> [] \<or> (cg_entries d = []) \<noteq> (cg_first d = []) \<or> (cg_entries d = []) \<noteq> (cg_last d = [])
         then failed ''invalid-catalog-document''
         else
           bindE (foldE fragment_step None (cg_entries d)) (\<lambda>_.
           if outside (cg_entries d) fg_key fg_key (cg_first d) (cg_last d) then failed ''invalid-catalog-range''
           else bindE (foldE (pack_step X) None (cg_packs d)) (\<lambda>_. Inr ())))
      else if cg_entries d \<noteq> [] \<or> cg_packs d \<noteq> [] \<or> cg_children d = [] then failed ''invalid-catalog-document''
      else
        bindE (foldE (child_step X) None (cg_children d)) (\<lambda>_.
        if outside (cg_children d) ch_first ch_last (cg_first d) (cg_last d) then failed ''invalid-catalog-range''
        else Inr ()))"

definition catalog_leaf :: "ext \<Rightarrow> catalog_kind \<Rightarrow> fragment list \<Rightarrow> stored_object list \<Rightarrow> catalog formatted" where
  "catalog_leaf X kind entries packs =
     (let d = \<lparr>cg_schema = CATALOG_SCHEMA, cg_kind = kind, cg_level = 0,
               cg_first = (if entries = [] then [] else fg_key (hd entries)),
               cg_last = (if entries = [] then [] else fg_key (last entries)),
               cg_entries = entries, cg_children = [], cg_packs = packs\<rparr> in
      bindE (catalog_validate X d) (\<lambda>_. Inr d))"

definition catalog_branch :: "ext \<Rightarrow> catalog_kind \<Rightarrow> 16 word \<Rightarrow> child list \<Rightarrow> catalog formatted" where
  "catalog_branch X kind level children =
     (let d = \<lparr>cg_schema = CATALOG_SCHEMA, cg_kind = kind, cg_level = level,
               cg_first = (if children = [] then [] else ch_first (hd children)),
               cg_last = (if children = [] then [] else ch_last (last children)),
               cg_entries = [], cg_children = children, cg_packs = []\<rparr> in
      bindE (catalog_validate X d) (\<lambda>_. Inr d))"

definition catalog_encode :: "ext \<Rightarrow> nat \<Rightarrow> catalog \<Rightarrow> bytes formatted" where
  "catalog_encode X max_bytes d =
     bindE (catalog_validate X d) (\<lambda>_.
     let bs = json_text X (catalog_value d) in
     if length bs > min max_bytes SNAPSHOT_METADATA_BYTES then failed ''catalog-limit-exceeded'' else Inr bs)"

definition catalog_decode :: "ext \<Rightarrow> nat \<Rightarrow> bytes \<Rightarrow> catalog formatted" where
  "catalog_decode X max_bytes bs =
     (if length bs > min max_bytes SNAPSHOT_METADATA_BYTES then failed ''catalog-limit-exceeded''
      else
        bindE (ok_or (Option.bind (from_slice X bs) catalog_from) (FormatError ''invalid-catalog-document'')) (\<lambda>d.
        bindE (catalog_validate X d) (\<lambda>_.
        bindE (catalog_encode X max_bytes d) (\<lambda>again.
        if again \<noteq> bs then failed ''non-canonical-catalog-document'' else Inr d))))"

section \<open>What validation accepts\<close>

definition stored_chunk_ok :: "stored_chunk \<Rightarrow> bool" where
  "stored_chunk_ok c \<longleftrightarrow> sc_pack c \<noteq> [] \<and> 0 < unat (sc_stored c) \<and> unat (sc_offset c) + unat (sc_stored c) < 2 ^ 64"

definition fragment_ok :: "fragment \<Rightarrow> bool" where
  "fragment_ok f \<longleftrightarrow> fg_key f \<noteq> [] \<and> unat (fg_index f) < unat (fg_count f) \<and> fg_chunks f \<noteq> []
     \<and> list_all stored_chunk_ok (fg_chunks f)
     \<and> sum_list (map (\<lambda>c. unat (sc_plain c)) (fg_chunks f)) \<le> unat (fg_length f)"

text \<open>A fragment follows another under a larger key, or as the next one of the same entry.\<close>

definition follows :: "fragment \<Rightarrow> fragment \<Rightarrow> bool" where
  "follows f g \<longleftrightarrow> fg_key f < fg_key g \<or> fg_key f = fg_key g \<and> unat (fg_index g) = unat (fg_index f) + 1"

definition pack_ok :: "ext \<Rightarrow> stored_object \<Rightarrow> bool" where
  "pack_ok X s \<longleftrightarrow> stored_validate X s = Inr () \<and> ph_role (so_header s) = Role_Pack"

definition child_ok :: "ext \<Rightarrow> child \<Rightarrow> bool" where
  "child_ok X c \<longleftrightarrow> stored_validate X (ch_object c) = Inr () \<and> ph_role (so_header (ch_object c)) = Role_Catalog
     \<and> ch_first c \<noteq> [] \<and> ch_first c \<le> ch_last c"

definition spans :: "'a list \<Rightarrow> ('a \<Rightarrow> string) \<Rightarrow> ('a \<Rightarrow> string) \<Rightarrow> string \<Rightarrow> string \<Rightarrow> bool" where
  "spans xs lower_key upper_key first_key last_key \<longleftrightarrow>
     (if xs = [] then first_key = [] \<and> last_key = [] else first_key = lower_key (hd xs) \<and> last_key = upper_key (last xs))"

definition catalog_ok :: "ext \<Rightarrow> catalog \<Rightarrow> bool" where
  "catalog_ok X d \<longleftrightarrow> cg_schema d = CATALOG_SCHEMA \<and> unat (cg_level d) \<le> 32 \<and>
     (if cg_level d = 0 then
        cg_children d = [] \<and> list_all fragment_ok (cg_entries d) \<and> successively follows (cg_entries d)
        \<and> spans (cg_entries d) fg_key fg_key (cg_first d) (cg_last d)
        \<and> list_all (pack_ok X) (cg_packs d) \<and> sorted_wrt (<) (map (ph_object \<circ> so_header) (cg_packs d))
      else
        cg_entries d = [] \<and> cg_packs d = [] \<and> cg_children d \<noteq> [] \<and> list_all (child_ok X) (cg_children d)
        \<and> successively (\<lambda>a b. ch_last a \<le> ch_first b) (cg_children d)
        \<and> spans (cg_children d) ch_first ch_last (cg_first d) (cg_last d))"

lemma chunk_sums:
  "foldE chunk_sum start cs = Inr n \<longleftrightarrow>
     list_all stored_chunk_ok cs \<and> unat n = unat start + sum_list (map (\<lambda>c. unat (sc_plain c)) cs)"
proof (induction cs arbitrary: start)
  case Nil
  show ?case by (auto simp: word_unat_eq_iff)
next
  case (Cons c cs)
  have step: "chunk_sum start c = Inr m \<longleftrightarrow> stored_chunk_ok c \<and> unat m = unat start + unat (sc_plain c)" for m
  proof -
    have "checked_add (sc_offset c) (sc_stored c) = None \<longleftrightarrow> \<not> unat (sc_offset c) + unat (sc_stored c) < 2 ^ 64"
      by (simp add: checked_add_def)
    then show ?thesis
      by (auto simp: chunk_sum_def stored_chunk_ok_def checked_add_Some unat_gt_0 simp del: not_None_eq)
  qed
  show ?case
  proof
    assume "foldE chunk_sum start (c # cs) = Inr n"
    then obtain m where "chunk_sum start c = Inr m" "foldE chunk_sum m cs = Inr n" by (auto simp: bindE_Inr)
    then show "list_all stored_chunk_ok (c # cs) \<and> unat n = unat start + sum_list (map (\<lambda>c. unat (sc_plain c)) (c # cs))"
      using Cons.IH step by simp
  next
    assume r: "list_all stored_chunk_ok (c # cs) \<and> unat n = unat start + sum_list (map (\<lambda>c. unat (sc_plain c)) (c # cs))"
    then have "unat start + unat (sc_plain c) < 2 ^ 64" using unat_less_64 [of n] by simp
    then have "unat (start + sc_plain c) = unat start + unat (sc_plain c)" by (simp add: unat_add_lem [THEN iffD1])
    with r Cons.IH [of "start + sc_plain c"] step [of "start + sc_plain c"]
    show "foldE chunk_sum start (c # cs) = Inr n" by simp
  qed
qed

lemma next_index:
  fixes i c :: u32
  assumes "i < c"
  shows "i + 1 = j \<longleftrightarrow> unat j = unat i + 1"
proof -
  have "unat (i + 1) = unat i + 1" using assms unat_less_32 [of c]
    by (subst unat_add_lem [THEN iffD1]) (simp_all add: word_less_nat_alt)
  then show ?thesis by (auto simp: word_unat_eq_iff)
qed

lemma fragment_step_Inr:
  "fragment_step previous f = Inr q \<longleftrightarrow> fragment_ok f \<and> q = Some (fg_key f, fg_index f)
     \<and> (case previous of None \<Rightarrow> True | Some (key, index) \<Rightarrow> key < fg_key f \<or> key = fg_key f \<and> index + 1 = fg_index f)"
proof -
  have amount: "(\<exists>n. foldE chunk_sum 0 (fg_chunks f) = Inr n \<and> \<not> n > fg_length f)
      \<longleftrightarrow> list_all stored_chunk_ok (fg_chunks f) \<and> sum_list (map (\<lambda>c. unat (sc_plain c)) (fg_chunks f)) \<le> unat (fg_length f)"
    (is "_ \<longleftrightarrow> ?ok \<and> ?sum \<le> _")
  proof
    assume "?ok \<and> ?sum \<le> unat (fg_length f)"
    moreover from this obtain n :: u64 where "unat n = ?sum" using unat_less_64 [of "fg_length f"] u64_exists [of ?sum] by auto
    ultimately show "\<exists>n. foldE chunk_sum 0 (fg_chunks f) = Inr n \<and> \<not> n > fg_length f"
      by (intro exI [of _ n]) (simp add: chunk_sums not_less word_le_nat_alt)
  qed (auto simp: chunk_sums not_less word_le_nat_alt)
  have c: "fg_count f = 0 \<or> fg_index f \<ge> fg_count f \<longleftrightarrow> \<not> unat (fg_index f) < unat (fg_count f)"
    by (auto simp: word_le_nat_alt not_less)
  have "fragment_step previous f = Inr q \<longleftrightarrow>
      \<not> (fg_key f = [] \<or> (fg_count f = 0 \<or> fg_index f \<ge> fg_count f) \<or> fg_chunks f = [])
      \<and> \<not> (case previous of None \<Rightarrow> False | Some (key, index) \<Rightarrow> key > fg_key f \<or> key = fg_key f \<and> index + 1 \<noteq> fg_index f)
      \<and> (\<exists>n. foldE chunk_sum 0 (fg_chunks f) = Inr n \<and> \<not> n > fg_length f) \<and> q = Some (fg_key f, fg_index f)"
    by (auto simp: fragment_step_def bindE_Inr split del: option.split)
  moreover have "\<not> (case previous of None \<Rightarrow> False | Some (key, index) \<Rightarrow> key > fg_key f \<or> key = fg_key f \<and> index + 1 \<noteq> fg_index f)
      \<longleftrightarrow> (case previous of None \<Rightarrow> True | Some (key, index) \<Rightarrow> key < fg_key f \<or> key = fg_key f \<and> index + 1 = fg_index f)"
    by (auto split: option.split)
  ultimately show ?thesis unfolding amount c by (auto simp: fragment_ok_def)
qed

lemma fragments_loop:
  "(\<exists>q. foldE fragment_step None fs = Inr q) \<longleftrightarrow> list_all fragment_ok fs \<and> successively follows fs"
proof -
  have loop: "(\<exists>q. foldE fragment_step None fs = Inr q) \<longleftrightarrow> list_all fragment_ok fs
      \<and> successively (\<lambda>f g. fg_key f < fg_key g \<or> fg_key f = fg_key g \<and> fg_index f + 1 = fg_index g) fs"
  proof -
    have "fragment_step previous f = Inr q \<longleftrightarrow> fragment_ok f \<and> q = Some (fg_key f, fg_index f)
        \<and> (case previous of None \<Rightarrow> True | Some p \<Rightarrow> fst p < fg_key f \<or> fst p = fg_key f \<and> snd p + 1 = fg_index f)"
      for previous f q by (auto simp: fragment_step_Inr split: option.splits)
    from chained_loop [of fragment_step fragment_ok "\<lambda>f. (fg_key f, fg_index f)"
        "\<lambda>p f. fst p < fg_key f \<or> fst p = fg_key f \<and> snd p + 1 = fg_index f" None fs, OF this]
    show ?thesis by simp
  qed
  have "successively (\<lambda>f g. fg_key f < fg_key g \<or> fg_key f = fg_key g \<and> fg_index f + 1 = fg_index g) fs
      \<longleftrightarrow> successively follows fs" if "list_all fragment_ok fs"
  proof -
    have "fg_index f + 1 = fg_index g \<longleftrightarrow> unat (fg_index g) = unat (fg_index f) + 1" if "f \<in> set fs" for f g
      using that \<open>list_all fragment_ok fs\<close> next_index [of "fg_index f" "fg_count f" "fg_index g"]
      by (auto simp: list_all_iff fragment_ok_def word_less_nat_alt)
    then show ?thesis by (intro successively_cong) (auto simp: follows_def)
  qed
  with loop show ?thesis by auto
qed

lemma packs_loop:
  "(\<exists>q. foldE (pack_step X) None ps = Inr q) \<longleftrightarrow>
     list_all (pack_ok X) ps \<and> sorted_wrt (<) (map (ph_object \<circ> so_header) ps)"
proof -
  have "pack_step X previous s = Inr q \<longleftrightarrow> pack_ok X s \<and> q = Some (ph_object (so_header s))
      \<and> (case previous of None \<Rightarrow> True | Some i \<Rightarrow> i < ph_object (so_header s))" for previous s q
    by (cases previous) (auto simp: pack_step_def pack_ok_def bindE_Inr not_le)
  from chained_loop [of "pack_step X" "pack_ok X" "ph_object \<circ> so_header" "\<lambda>i s. i < ph_object (so_header s)" None ps] this
  have "(\<exists>q. foldE (pack_step X) None ps = Inr q) \<longleftrightarrow> list_all (pack_ok X) ps
      \<and> successively (\<lambda>s t. ph_object (so_header s) < ph_object (so_header t)) ps" by simp
  also have "successively (\<lambda>s t. ph_object (so_header s) < ph_object (so_header t)) ps
      \<longleftrightarrow> successively (<) (map (ph_object \<circ> so_header) ps)" by (simp add: successively_map)
  also have "\<dots> \<longleftrightarrow> sorted_wrt (<) (map (ph_object \<circ> so_header) ps)"
    by (rule successively_iff_sorted_wrt_strong) auto
  finally show ?thesis .
qed

lemma children_loop:
  "(\<exists>q. foldE (child_step X) None cs = Inr q) \<longleftrightarrow>
     list_all (child_ok X) cs \<and> successively (\<lambda>a b. ch_last a \<le> ch_first b) cs"
proof -
  have "child_step X previous c = Inr q \<longleftrightarrow> child_ok X c \<and> q = Some (ch_last c)
      \<and> (case previous of None \<Rightarrow> True | Some k \<Rightarrow> k \<le> ch_first c)" for previous c q
    by (cases previous) (auto simp: child_step_def child_ok_def bindE_Inr not_less)
  from chained_loop [of "child_step X" "child_ok X" ch_last "\<lambda>k c. k \<le> ch_first c" None cs] this
  show ?thesis by simp
qed

lemma catalog_validate_Inr: "catalog_validate X d = Inr () \<longleftrightarrow> catalog_ok X d"
proof (cases "cg_schema d \<noteq> CATALOG_SCHEMA \<or> cg_level d > 32")
  case True
  then show ?thesis by (auto simp: catalog_validate_def catalog_ok_def word_less_nat_alt)
next
  case False
  then have head: "cg_schema d = CATALOG_SCHEMA" "unat (cg_level d) \<le> 32" by (simp_all add: word_less_nat_alt not_less)
  show ?thesis
  proof (cases "cg_level d = 0")
    case True
    have "catalog_validate X d = Inr () \<longleftrightarrow>
        \<not> (cg_children d \<noteq> [] \<or> (cg_entries d = []) \<noteq> (cg_first d = []) \<or> (cg_entries d = []) \<noteq> (cg_last d = []))
        \<and> (\<exists>q. foldE fragment_step None (cg_entries d) = Inr q)
        \<and> \<not> outside (cg_entries d) fg_key fg_key (cg_first d) (cg_last d)
        \<and> (\<exists>q. foldE (pack_step X) None (cg_packs d) = Inr q)"
      using False True by (auto simp: catalog_validate_def bindE_Inr)
    moreover have "fg_key (hd (cg_entries d)) \<noteq> [] \<and> fg_key (last (cg_entries d)) \<noteq> []"
      if "list_all fragment_ok (cg_entries d)" "cg_entries d \<noteq> []"
      using that hd_in_set [OF that(2)] last_in_set [OF that(2)] by (auto simp: list_all_iff fragment_ok_def)
    ultimately show ?thesis unfolding fragments_loop packs_loop
      using True head by (auto simp: catalog_ok_def outside_def spans_def)
  next
    case False
    have "catalog_validate X d = Inr () \<longleftrightarrow>
        \<not> (cg_entries d \<noteq> [] \<or> cg_packs d \<noteq> [] \<or> cg_children d = [])
        \<and> (\<exists>q. foldE (child_step X) None (cg_children d) = Inr q)
        \<and> \<not> outside (cg_children d) ch_first ch_last (cg_first d) (cg_last d)"
      using False \<open>\<not> (cg_schema d \<noteq> CATALOG_SCHEMA \<or> cg_level d > 32)\<close> by (auto simp: catalog_validate_def bindE_Inr)
    then show ?thesis unfolding children_loop
      using False head by (auto simp: catalog_ok_def outside_def spans_def)
  qed
qed

section \<open>Reading and writing\<close>

definition stored_wf :: "stored_object \<Rightarrow> bool" where
  "stored_wf s \<longleftrightarrow> length (so_ciphertext_sha256 s) = 32 \<and> length (so_plaintext_sha256 s) = 32"

definition fragment_wf :: "fragment \<Rightarrow> bool" where
  "fragment_wf f \<longleftrightarrow> length (fg_content f) = 32 \<and> list_all (\<lambda>c. length (sc_hash c) = 32) (fg_chunks f)"

definition catalog_wf :: "catalog \<Rightarrow> bool" where
  "catalog_wf d \<longleftrightarrow> list_all fragment_wf (cg_entries d) \<and> list_all (\<lambda>c. stored_wf (ch_object c)) (cg_children d)
     \<and> list_all stored_wf (cg_packs d)"

lemma chunk_from_value [simp]: "length (sc_hash c) = 32 \<Longrightarrow> chunk_from (chunk_value c) = Some c"
  by (cases c) (simp add: chunk_from_def chunk_value_def doc_fields_def struct_fields_def)

lemma entry_kind_from_name [simp]: "map_of entry_kinds (entry_kind_name k) = Some k"
  by (cases k) (simp_all add: entry_kinds_def)

lemma catalog_kind_from_name [simp]: "map_of catalog_kinds (catalog_kind_name k) = Some k"
  by (cases k) (simp_all add: catalog_kinds_def)

lemma as_list_values: "(\<And>x. x \<in> set xs \<Longrightarrow> f (g x) = Some x) \<Longrightarrow> as_list f (Some (JArray (map g xs))) = Some xs"
  by (simp add: as_list_def)

lemma fragment_from_value: "fragment_wf f \<Longrightarrow> fragment_from (fragment_value f) = Some f"
  using as_list_values [of "fg_chunks f" chunk_from chunk_value]
  by (cases f) (simp add: fragment_wf_def fragment_from_def fragment_value_def doc_fields_def struct_fields_def list_all_iff)

lemma child_from_value: "stored_wf (ch_object c) \<Longrightarrow> child_from (child_value c) = Some c"
  by (cases c) (simp add: stored_wf_def child_from_def child_value_def doc_fields_def struct_fields_def)

lemma catalog_from_value:
  assumes "catalog_wf d"
  shows "catalog_from (catalog_value d) = Some d"
proof -
  have "as_list fragment_from (Some (JArray (map fragment_value (cg_entries d)))) = Some (cg_entries d)"
    "as_list child_from (Some (JArray (map child_value (cg_children d)))) = Some (cg_children d)"
    "as_list (\<lambda>v. stored_from (Some v)) (Some (JArray (map stored_value (cg_packs d)))) = Some (cg_packs d)"
    using assms
    by (intro as_list_values; force simp: catalog_wf_def list_all_iff stored_wf_def fragment_from_value child_from_value)+
  then show ?thesis
    by (cases d) (simp add: catalog_from_def catalog_value_def doc_fields_def struct_fields_def)
qed

lemma catalog_encode_Inr:
  "catalog_encode X m d = Inr bs \<longleftrightarrow>
     catalog_validate X d = Inr () \<and> bs = json_text X (catalog_value d) \<and> length bs \<le> min m SNAPSHOT_METADATA_BYTES"
  by (auto simp: catalog_encode_def Let_def bindE_Inr)

lemma catalog_decode_Inr:
  "catalog_decode X m bs = Inr d \<longleftrightarrow> length bs \<le> min m SNAPSHOT_METADATA_BYTES
     \<and> Option.bind (from_slice X bs) catalog_from = Some d \<and> catalog_validate X d = Inr () \<and> catalog_encode X m d = Inr bs"
  by (auto simp: catalog_decode_def bindE_Inr)

interpretation tree: canonical_document
  "\<lambda>bs. Option.bind (from_slice X bs) catalog_from" "catalog_validate X" "\<lambda>d. json_text X (catalog_value d)"
  "\<lambda>m bs. length bs \<le> min m SNAPSHOT_METADATA_BYTES" "catalog_encode X" "catalog_decode X" for X
  by unfold_locales (auto simp: catalog_encode_Inr catalog_decode_Inr)

section \<open>Properties\<close>

text \<open>A catalog document is valid exactly when it is a leaf whose fragments are well-formed, come in
  the order of their keys with the fragments of an entry consecutive, and whose packs are valid
  and strictly ordered, or a branch of valid catalogs whose key ranges follow each other; in both
  cases with the range that its content has and at most 32 levels.\<close>

theorem catalog_validate_accepts: "catalog_validate X d = Inr () \<longleftrightarrow> catalog_ok X d"
  by (rule catalog_validate_Inr)

text \<open>A catalog document and its bytes determine each other: bytes decode to a document exactly when
  the document, if valid, encodes to them within the limit.\<close>

theorem catalog_bytes:
  assumes "catalog_wf d" and "reads_back X (catalog_value d)"
  shows "catalog_decode X m bs = Inr d \<longleftrightarrow> catalog_encode X m d = Inr bs"
proof -
  have "Option.bind (from_slice X (json_text X (catalog_value d))) catalog_from = Some d"
    using assms by (simp add: reads_back_def catalog_from_value del: json_text.simps)
  from tree.decode_iff_encode [OF this] show ?thesis by (auto simp: catalog_encode_Inr)
qed

definition sample_catalog :: catalog where
  "sample_catalog = \<lparr>cg_schema = CATALOG_SCHEMA, cg_kind = Kind_Records, cg_level = 0, cg_first = [], cg_last = [],
     cg_entries = [], cg_children = [], cg_packs = []\<rparr>"

lemma catalog_bytes_witness:
  "let X = sample_ext (catalog_value sample_catalog) in
     catalog_decode X 1000 (json_text X (catalog_value sample_catalog)) = Inr sample_catalog"
proof -
  let ?X = "sample_ext (catalog_value sample_catalog)"
  have d: "decimal_string 0 = [digit_char 0]" by (simp add: decimal_string_def show_nat.simps)
  have "length (json_text ?X (catalog_value sample_catalog)) \<le> min 1000 SNAPSHOT_METADATA_BYTES"
    by (simp add: catalog_value_def sample_catalog_def control_value_def d join_def separator_def CATALOG_SCHEMA_def)
      (simp add: SNAPSHOT_METADATA_BYTES_def sample_ext_def quote_def as_bytes_def)
  moreover have "catalog_validate ?X sample_catalog = Inr ()"
    by (simp add: catalog_validate_def sample_catalog_def outside_def)
  ultimately have "catalog_encode ?X 1000 sample_catalog = Inr (json_text ?X (catalog_value sample_catalog))"
    unfolding catalog_encode_Inr by blast
  moreover have "catalog_wf sample_catalog" by (simp add: catalog_wf_def sample_catalog_def)
  moreover have "reads_back ?X (catalog_value sample_catalog)" by (simp add: reads_back_def sample_ext_def)
  ultimately show ?thesis using catalog_bytes [of sample_catalog ?X] by simp
qed

end
