(* ===== verification/Sections.thy ===== *)
theory Sections
  imports Envelope Head
begin

text \<open>
  The codec of device sections, \<^verbatim>\<open>crates/external-storage-format/src/section.rs\<close>: kinds, keys, values
  with the objects they name, their validation and the entry that carries them. A
  \<^verbatim>\<open>serde_json::Value\<close> is a tree whose objects keep the order of first insertion and the last value
  of a key, as the crate's feature \<^verbatim>\<open>preserve_order\<close> has it.
\<close>

definition SECTION_CODEC :: string where "SECTION_CODEC = ''risunest.section-codec/v1''"
definition MAX_INLINE_VALUE_BYTES :: nat where "MAX_INLINE_VALUE_BYTES = 4 * 1024"
definition MAX_SECTION_ENTRY_BYTES :: nat where "MAX_SECTION_ENTRY_BYTES = 64 * 1024"
definition MAX_SECTION_OBJECT_BYTES :: nat where "MAX_SECTION_OBJECT_BYTES = 8 * 1024 * 1024"
definition MAX_PLUGIN_VALUE_BYTES :: u64 where "MAX_PLUGIN_VALUE_BYTES = 512 * 1024 * 1024"
definition MAX_VECTOR_DIMENSIONS :: u32 where "MAX_VECTOR_DIMENSIONS = 16384"

section \<open>Kinds and keys\<close>

datatype section_kind = Hypa | Local_Plugins | Local_Settings

fun section_id :: "section_kind \<Rightarrow> string" where
  "section_id Hypa = ''hypa''"
| "section_id Local_Plugins = ''local-plugins''"
| "section_id Local_Settings = ''local-settings''"

definition section_parse :: "string \<Rightarrow> section_kind formatted" where
  "section_parse i =
     (if i = ''hypa'' then Inr Hypa
      else if i = ''local-plugins'' then Inr Local_Plugins
      else if i = ''local-settings'' then Inr Local_Settings
      else failed ''unknown-section'')"

definition section_kinds :: "(string \<times> section_kind) list" where
  "section_kinds = [(''hypa'', Hypa), (''local-plugins'', Local_Plugins), (''local-settings'', Local_Settings)]"

definition is_synchronizable :: "section_kind \<Rightarrow> bool" where
  "is_synchronizable k \<longleftrightarrow> k \<noteq> Local_Settings"

definition section_fingerprint_domain :: "(bytes \<Rightarrow> digest) \<Rightarrow> section_kind \<Rightarrow> digest" where
  "section_fingerprint_domain H k = H (as_bytes ''risunest.section-fingerprint/v1'' @ [0] @ as_bytes (section_id k))"

definition hypa_entry_key :: "string \<Rightarrow> string formatted" where
  "hypa_entry_key cache_key =
     (if length cache_key \<noteq> 64 \<or> \<not> list_all is_lower_hex cache_key then failed ''invalid-section-key'' else Inr cache_key)"

text \<open>The text that \<^verbatim>\<open>serde_json::to_string\<close> makes is its bytes read as UTF-8.\<close>

definition text_of :: "bytes \<Rightarrow> string" where
  "text_of bs = map (\<lambda>b. char_of (unat b)) bs"

definition local_plugin_entry_key :: "ext \<Rightarrow> string \<Rightarrow> string \<Rightarrow> string \<Rightarrow> string formatted" where
  "local_plugin_entry_key X owner space key =
     (if owner = [] \<or> space = [] then failed ''invalid-section-key''
      else
        let encoded = text_of (json_text X (strings_value [owner, space, key])) in
        if length encoded > 64 * 1024 then failed ''invalid-section-key'' else Inr encoded)"

definition decode_local_plugin_entry_key :: "ext \<Rightarrow> string \<Rightarrow> (string \<times> string \<times> string) formatted" where
  "decode_local_plugin_entry_key X encoded =
     (case as_strings (from_slice X (as_bytes encoded)) of
        Some [owner, space, key] \<Rightarrow>
          bindE (local_plugin_entry_key X owner space key) (\<lambda>again.
          if again \<noteq> encoded then failed ''invalid-section-key'' else Inr (owner, space, key))
      | _ \<Rightarrow> failed ''invalid-section-key'')"

section \<open>JSON values and enums with data\<close>

definition index_insert :: "string \<Rightarrow> 'v \<Rightarrow> (string \<times> 'v) list \<Rightarrow> (string \<times> 'v) list" where
  "index_insert k v m =
     (if map_of m k = None then m @ [(k, v)] else map (\<lambda>(k', v'). (k', if k' = k then v else v')) m)"

definition index_collect :: "(string \<times> 'v) list \<Rightarrow> (string \<times> 'v) list" where
  "index_collect ps = foldl (\<lambda>m (k, v). index_insert k v m) [] ps"

function value_tree :: "json \<Rightarrow> json" where
  "value_tree (JArray vs) = JArray (map value_tree vs)"
| "value_tree (JObject ps) = JObject (index_collect (map (\<lambda>p. (fst p, value_tree (snd p))) ps))"
| "value_tree JNull = JNull"
| "value_tree (JBool b) = JBool b"
| "value_tree (JNumber n) = JNumber n"
| "value_tree (JString s) = JString s"
  by pat_completeness auto
termination
  by (relation "measure size") (auto intro: json_size_array json_size_object)

text \<open>The variant of an externally tagged enum, and of one flattened into a structure with the given
  further fields.\<close>

definition variant_of :: "json option \<Rightarrow> (string \<times> json) option" where
  "variant_of m = (case m of Some (JObject [(k, v)]) \<Rightarrow> Some (k, v) | _ \<Rightarrow> None)"

definition flat_variant :: "string list \<Rightarrow> json \<Rightarrow> (json option list \<times> string \<times> json) option" where
  "flat_variant names v =
     (case v of
        JObject ps \<Rightarrow>
          let known = filter (\<lambda>p. fst p \<in> set names) ps in
          (case filter (\<lambda>p. fst p \<notin> set names) ps of
             [(k, x)] \<Rightarrow> if distinct (map fst known) then Some (map (map_of known) names, k, x) else None
           | _ \<Rightarrow> None)
      | _ \<Rightarrow> None)"

definition as_u32 :: "json option \<Rightarrow> u32 option" where
  "as_u32 m = (case m of Some (JNumber (PosInt n)) \<Rightarrow> if unat n < 2 ^ 32 then Some (ucast n) else None | _ \<Rightarrow> None)"

definition u32_value :: "u32 \<Rightarrow> json" where "u32_value n = JNumber (PosInt (ucast n))"

section \<open>References to objects\<close>

record object_ref =
  or_hash :: digest
  or_length :: u64

definition ref_value :: "object_ref \<Rightarrow> json" where
  "ref_value r = JObject [(''contentSha256'', bytes_value (or_hash r)), (''byteLength'', control_value (or_length r))]"

definition ref_from :: "json \<Rightarrow> object_ref option" where
  "ref_from v =
     (case doc_fields [''contentSha256'', ''byteLength''] v of
        Some [h, n] \<Rightarrow>
          (case (as_array 32 h, control_from n) of
             (Some h, Some n) \<Rightarrow> Some \<lparr>or_hash = h, or_length = n\<rparr>
           | _ \<Rightarrow> None)
      | _ \<Rightarrow> None)"

definition ref_validate :: "object_ref \<Rightarrow> unit formatted" where
  "ref_validate r =
     (if or_length r = 0 \<or> or_length r > of_nat MAX_SECTION_OBJECT_BYTES then failed ''invalid-section-value'' else Inr ())"

definition refs_value :: "object_ref list \<Rightarrow> json" where "refs_value rs = JArray (map ref_value rs)"

definition refs_from :: "json \<Rightarrow> object_ref list option" where
  "refs_from v = as_list ref_from (Some v)"

section \<open>Values\<close>

datatype inline_or_object = Vec_Inline string | Vec_Object object_ref

definition vec_inline :: "ext \<Rightarrow> bytes \<Rightarrow> inline_or_object formatted" where
  "vec_inline X bs =
     (if length bs > MAX_INLINE_VALUE_BYTES then failed ''section-value-requires-object''
      else Inr (Vec_Inline (b64_encode X bs)))"

definition decode_inline :: "ext \<Rightarrow> inline_or_object \<Rightarrow> bytes formatted" where
  "decode_inline X v =
     (case v of
        Vec_Object _ \<Rightarrow> failed ''section-value-is-an-object''
      | Vec_Inline encoded \<Rightarrow>
          bindE (ok_or (b64_decode X encoded) (FormatError ''invalid-section-value'')) (\<lambda>bs.
          if length bs > MAX_INLINE_VALUE_BYTES then failed ''invalid-section-value'' else Inr bs))"

definition vec_validate :: "ext \<Rightarrow> inline_or_object \<Rightarrow> unit formatted" where
  "vec_validate X v =
     (case v of Vec_Inline _ \<Rightarrow> bindE (decode_inline X v) (\<lambda>_. Inr ()) | Vec_Object r \<Rightarrow> ref_validate r)"

fun vec_value :: "inline_or_object \<Rightarrow> json" where
  "vec_value (Vec_Inline s) = JObject [(''inline'', JString s)]"
| "vec_value (Vec_Object r) = JObject [(''object'', ref_value r)]"

definition vec_from :: "json option \<Rightarrow> inline_or_object option" where
  "vec_from m =
     (case variant_of m of
        Some (t, v) \<Rightarrow>
          if t = ''inline'' then map_option Vec_Inline (as_string (Some v))
          else if t = ''object'' then map_option Vec_Object (ref_from v)
          else None
      | None \<Rightarrow> None)"

datatype value_or_object = Value_Inline json | Value_Object object_ref

definition value_validate_or :: "value_or_object \<Rightarrow> unit formatted" where
  "value_validate_or v =
     (case v of
        Value_Inline _ \<Rightarrow> Inr ()
      | Value_Object r \<Rightarrow>
          if or_length r \<le> of_nat MAX_INLINE_VALUE_BYTES then failed ''invalid-section-value'' else ref_validate r)"

fun setting_field :: "value_or_object \<Rightarrow> string \<times> json" where
  "setting_field (Value_Inline v) = (''value'', v)"
| "setting_field (Value_Object r) = (''object'', ref_value r)"

definition setting_from :: "string \<Rightarrow> json \<Rightarrow> value_or_object option" where
  "setting_from t v =
     (if t = ''value'' then Some (Value_Inline (value_tree v))
      else if t = ''object'' then map_option Value_Object (ref_from v)
      else None)"

datatype structure_text = Text_Inline string | Text_Object object_ref | Text_Objects "object_ref list"

fun text_references :: "structure_text \<Rightarrow> object_ref list" where
  "text_references (Text_Inline _) = []"
| "text_references (Text_Object r) = [r]"
| "text_references (Text_Objects rs) = rs"

record structured =
  sp_text :: structure_text
  sp_parts :: "object_ref list"

definition add_ref :: "u64 \<Rightarrow> object_ref \<Rightarrow> u64 formatted" where
  "add_ref amount r =
     bindE (ref_validate r) (\<lambda>_. ok_or (checked_add amount (or_length r)) (FormatError ''invalid-section-value''))"

definition structured_validate :: "structured \<Rightarrow> unit formatted" where
  "structured_validate p =
     bindE (case sp_text p of
              Text_Inline s \<Rightarrow>
                if length s \<le> MAX_INLINE_VALUE_BYTES then Inr (of_nat (length s)) else failed ''invalid-section-value''
            | Text_Object r \<Rightarrow>
                if or_length r > of_nat MAX_INLINE_VALUE_BYTES then Inr 0 else failed ''invalid-section-value''
            | Text_Objects rs \<Rightarrow> if length rs \<ge> 2 then Inr 0 else failed ''invalid-section-value'') (\<lambda>start.
     bindE (foldE add_ref start (text_references (sp_text p) @ sp_parts p)) (\<lambda>amount.
     if amount > MAX_PLUGIN_VALUE_BYTES then failed ''invalid-section-value'' else Inr ()))"

fun text_value :: "structure_text \<Rightarrow> json" where
  "text_value (Text_Inline s) = JObject [(''value'', JString s)]"
| "text_value (Text_Object r) = JObject [(''object'', ref_value r)]"
| "text_value (Text_Objects rs) = JObject [(''objects'', refs_value rs)]"

definition text_from :: "json option \<Rightarrow> structure_text option" where
  "text_from m =
     (case variant_of m of
        Some (t, v) \<Rightarrow>
          if t = ''value'' then map_option Text_Inline (as_string (Some v))
          else if t = ''object'' then map_option Text_Object (ref_from v)
          else if t = ''objects'' then map_option Text_Objects (refs_from v)
          else None
      | None \<Rightarrow> None)"

definition structured_value :: "structured \<Rightarrow> json" where
  "structured_value p = JObject [(''text'', text_value (sp_text p)), (''parts'', refs_value (sp_parts p))]"

definition structured_from :: "json \<Rightarrow> structured option" where
  "structured_from v =
     (case doc_fields [''text'', ''parts''] v of
        Some [t, ps] \<Rightarrow>
          (case (text_from t, Option.bind ps refs_from) of
             (Some t, Some ps) \<Rightarrow> Some \<lparr>sp_text = t, sp_parts = ps\<rparr>
           | _ \<Rightarrow> None)
      | _ \<Rightarrow> None)"

datatype plugin_space = Space_String | Space_Json

datatype plugin_value =
  Plugin_Inline json | Plugin_Object object_ref | Plugin_Objects "object_ref list" | Plugin_Structured structured

fun plugin_of_value :: "value_or_object \<Rightarrow> plugin_value" where
  "plugin_of_value (Value_Inline v) = Plugin_Inline v"
| "plugin_of_value (Value_Object r) = Plugin_Object r"

definition plugin_validate :: "plugin_value \<Rightarrow> unit formatted" where
  "plugin_validate v =
     (case v of
        Plugin_Inline _ \<Rightarrow> Inr ()
      | Plugin_Object r \<Rightarrow>
          if or_length r \<le> of_nat MAX_INLINE_VALUE_BYTES then failed ''invalid-section-value'' else ref_validate r
      | Plugin_Objects rs \<Rightarrow>
          if length rs < 2 then failed ''invalid-section-value''
          else
            bindE (foldE add_ref 2 rs) (\<lambda>amount.
            if amount > MAX_PLUGIN_VALUE_BYTES then failed ''invalid-section-value'' else Inr ())
      | Plugin_Structured p \<Rightarrow> structured_validate p)"

fun plugin_field :: "plugin_value \<Rightarrow> string \<times> json" where
  "plugin_field (Plugin_Inline v) = (''value'', v)"
| "plugin_field (Plugin_Object r) = (''object'', ref_value r)"
| "plugin_field (Plugin_Objects rs) = (''objects'', refs_value rs)"
| "plugin_field (Plugin_Structured p) = (''structured'', structured_value p)"

definition plugin_from :: "string \<Rightarrow> json \<Rightarrow> plugin_value option" where
  "plugin_from t v =
     (if t = ''value'' then Some (Plugin_Inline (value_tree v))
      else if t = ''object'' then map_option Plugin_Object (ref_from v)
      else if t = ''objects'' then map_option Plugin_Objects (refs_from v)
      else if t = ''structured'' then map_option Plugin_Structured (structured_from v)
      else None)"

record hypa_value =
  hv_producer :: string
  hv_model :: string
  hv_endpoint :: "string option"
  hv_preprocess :: u32
  hv_dimensions :: u32
  hv_vector :: inline_or_object
  hv_metadata :: "json option"

definition hypa_value_json :: "hypa_value \<Rightarrow> json" where
  "hypa_value_json h = JObject
     [(''producer'', JString (hv_producer h)), (''model'', JString (hv_model h)), (''endpoint'', opt_value (hv_endpoint h)),
      (''preprocessVersion'', u32_value (hv_preprocess h)), (''dimensions'', u32_value (hv_dimensions h)),
      (''vector'', vec_value (hv_vector h)),
      (''metadata'', case hv_metadata h of None \<Rightarrow> JNull | Some v \<Rightarrow> v)]"

definition metadata_from :: "json option \<Rightarrow> json option" where
  "metadata_from m = (case m of None \<Rightarrow> None | Some JNull \<Rightarrow> None | Some v \<Rightarrow> Some (value_tree v))"

definition hypa_from :: "json \<Rightarrow> hypa_value option" where
  "hypa_from v =
     (case doc_fields [''producer'', ''model'', ''endpoint'', ''preprocessVersion'', ''dimensions'', ''vector'', ''metadata''] v of
        Some [p, m, e, pv, d, vec, meta] \<Rightarrow>
          (case (as_string p, as_string m, as_opt_string e, as_u32 pv, as_u32 d, vec_from vec) of
             (Some p, Some m, Some e, Some pv, Some d, Some vec) \<Rightarrow>
               Some \<lparr>hv_producer = p, hv_model = m, hv_endpoint = e, hv_preprocess = pv, hv_dimensions = d,
                     hv_vector = vec, hv_metadata = metadata_from meta\<rparr>
           | _ \<Rightarrow> None)
      | _ \<Rightarrow> None)"

datatype section_value =
    Section_Hypa hypa_value
  | Section_Plugin plugin_space plugin_value
  | Section_Setting value_or_object
  | Section_Tombstone sequence u64

fun section_value_kind :: "section_value \<Rightarrow> section_kind option" where
  "section_value_kind (Section_Hypa _) = Some Hypa"
| "section_value_kind (Section_Plugin _ _) = Some Local_Plugins"
| "section_value_kind (Section_Setting _) = Some Local_Settings"
| "section_value_kind (Section_Tombstone _ _) = None"

text \<open>The objects a value names; a structured value lists its text before its parts.\<close>

definition object_reference :: "section_value \<Rightarrow> object_ref option" where
  "object_reference v =
     (case v of
        Section_Hypa h \<Rightarrow> (case hv_vector h of Vec_Object r \<Rightarrow> Some r | _ \<Rightarrow> None)
      | Section_Setting (Value_Object r) \<Rightarrow> Some r
      | Section_Plugin _ (Plugin_Object r) \<Rightarrow> Some r
      | _ \<Rightarrow> None)"

definition object_references :: "section_value \<Rightarrow> object_ref list" where
  "object_references v =
     (case v of
        Section_Plugin _ (Plugin_Objects rs) \<Rightarrow> rs
      | Section_Plugin _ (Plugin_Structured p) \<Rightarrow> text_references (sp_text p) @ sp_parts p
      | _ \<Rightarrow> (case object_reference v of None \<Rightarrow> [] | Some r \<Rightarrow> [r]))"

fun space_name :: "plugin_space \<Rightarrow> string" where
  "space_name Space_String = ''string''"
| "space_name Space_Json = ''json''"

definition space_names :: "(string \<times> plugin_space) list" where
  "space_names = [(''string'', Space_String), (''json'', Space_Json)]"

fun section_value_json :: "section_value \<Rightarrow> json" where
  "section_value_json (Section_Hypa h) = JObject [(''hypa'', hypa_value_json h)]"
| "section_value_json (Section_Plugin s v) =
     JObject [(''localPlugin'', JObject [(''space'', JString (space_name s)), plugin_field v])]"
| "section_value_json (Section_Setting v) = JObject [(''localSetting'', JObject [setting_field v])]"
| "section_value_json (Section_Tombstone g t) =
     JObject [(''tombstone'', JObject [(''firstPublishedGeneration'', JString (seq_str g)),
       (''firstPublishedAtMs'', control_value t)])]"

definition sequence_from_json :: "json option \<Rightarrow> sequence option" where
  "sequence_from_json m =
     (case as_string m of
        None \<Rightarrow> None
      | Some s \<Rightarrow> (case sequence_try_from s of Inl _ \<Rightarrow> None | Inr n \<Rightarrow> Some n))"

text \<open>The tombstone's variant does not deny unknown fields.\<close>

definition loose_fields :: "string list \<Rightarrow> json \<Rightarrow> json option list option" where
  "loose_fields names v =
     (case v of
        JObject ps \<Rightarrow>
          let known = filter (\<lambda>p. fst p \<in> set names) ps in
          if distinct (map fst known) then Some (map (map_of known) names) else None
      | _ \<Rightarrow> struct_fields names v)"

definition tombstone_from :: "json \<Rightarrow> section_value option" where
  "tombstone_from v =
     (case loose_fields [''firstPublishedGeneration'', ''firstPublishedAtMs''] v of
        Some [g, t] \<Rightarrow>
          (case (sequence_from_json g, control_from t) of
             (Some g, Some t) \<Rightarrow> Some (Section_Tombstone g t)
           | _ \<Rightarrow> None)
      | _ \<Rightarrow> None)"

definition plugin_entry_from :: "json \<Rightarrow> section_value option" where
  "plugin_entry_from v =
     (case flat_variant [''space''] v of
        Some ([s], t, x) \<Rightarrow>
          (case (enum_from space_names s, plugin_from t x) of
             (Some s, Some p) \<Rightarrow> Some (Section_Plugin s p)
           | _ \<Rightarrow> None)
      | _ \<Rightarrow> None)"

definition setting_entry_from :: "json \<Rightarrow> section_value option" where
  "setting_entry_from v =
     (case flat_variant [] v of Some (_, t, x) \<Rightarrow> map_option Section_Setting (setting_from t x) | None \<Rightarrow> None)"

definition section_value_from :: "json option \<Rightarrow> section_value option" where
  "section_value_from m =
     (case variant_of m of
        Some (t, v) \<Rightarrow>
          if t = ''hypa'' then map_option Section_Hypa (hypa_from v)
          else if t = ''localPlugin'' then plugin_entry_from v
          else if t = ''localSetting'' then setting_entry_from v
          else if t = ''tombstone'' then tombstone_from v
          else None
      | None \<Rightarrow> None)"

section \<open>Entries\<close>

record entry_version =
  ev_clock :: sequence
  ev_writer :: string

definition version_value :: "entry_version \<Rightarrow> json" where
  "version_value v = JObject [(''writeClock'', JString (seq_str (ev_clock v))), (''writerId'', JString (ev_writer v))]"

definition version_from :: "json option \<Rightarrow> entry_version option option" where
  "version_from m =
     (case m of
        None \<Rightarrow> Some None
      | Some JNull \<Rightarrow> Some None
      | Some v \<Rightarrow>
          (case doc_fields [''writeClock'', ''writerId''] v of
             Some [c, w] \<Rightarrow>
               (case (sequence_from_json c, as_string w) of
                  (Some c, Some w) \<Rightarrow> Some (Some \<lparr>ev_clock = c, ev_writer = w\<rparr>)
                | _ \<Rightarrow> None)
           | _ \<Rightarrow> None))"

record section_entry =
  se_codec :: string
  se_kind :: section_kind
  se_key :: string
  se_value :: section_value
  se_version :: "entry_version option"

definition section_entry_json :: "section_entry \<Rightarrow> json" where
  "section_entry_json e = JObject
     [(''codec'', JString (se_codec e)), (''kind'', JString (section_id (se_kind e))), (''key'', JString (se_key e)),
      (''value'', section_value_json (se_value e)),
      (''version'', case se_version e of None \<Rightarrow> JNull | Some v \<Rightarrow> version_value v)]"

definition section_entry_from :: "json \<Rightarrow> section_entry option" where
  "section_entry_from v =
     (case doc_fields [''codec'', ''kind'', ''key'', ''value'', ''version''] v of
        Some [c, k, i, v, w] \<Rightarrow>
          (case (as_string c, enum_from section_kinds k, as_string i, section_value_from v, version_from w) of
             (Some c, Some k, Some i, Some v, Some w) \<Rightarrow>
               Some \<lparr>se_codec = c, se_kind = k, se_key = i, se_value = v, se_version = w\<rparr>
           | _ \<Rightarrow> None)
      | _ \<Rightarrow> None)"

definition section_key_validate :: "ext \<Rightarrow> section_kind \<Rightarrow> string \<Rightarrow> unit formatted" where
  "section_key_validate X kind key =
     (case kind of
        Hypa \<Rightarrow> bindE (hypa_entry_key key) (\<lambda>_. Inr ())
      | Local_Plugins \<Rightarrow> bindE (decode_local_plugin_entry_key X key) (\<lambda>_. Inr ())
      | Local_Settings \<Rightarrow> if key = [] \<or> length key > 64 * 1024 then failed ''invalid-section-key'' else Inr ())"

definition hypa_validate :: "ext \<Rightarrow> hypa_value \<Rightarrow> unit formatted" where
  "hypa_validate X h =
     (if hv_producer h = [] \<or> hv_model h = [] \<or> hv_dimensions h = 0 \<or> hv_dimensions h > MAX_VECTOR_DIMENSIONS
         \<or> (case hv_endpoint h of None \<Rightarrow> False | Some e \<Rightarrow> e = [])
      then failed ''invalid-section-value''
      else
        bindE (vec_validate X (hv_vector h)) (\<lambda>_.
        bindE (case hv_vector h of
                 Vec_Inline _ \<Rightarrow> bindE (decode_inline X (hv_vector h)) (\<lambda>bs. Inr (of_nat (length bs)))
               | Vec_Object r \<Rightarrow> Inr (or_length r)) (\<lambda>byte_length.
        if byte_length \<noteq> (ucast (hv_dimensions h) * 4 :: u64) then failed ''invalid-section-vector-length'' else Inr ())))"

definition is_json_string :: "json \<Rightarrow> bool" where
  "is_json_string v \<longleftrightarrow> (case v of JString _ \<Rightarrow> True | _ \<Rightarrow> False)"

definition plugin_entry_validate :: "ext \<Rightarrow> string \<Rightarrow> plugin_space \<Rightarrow> plugin_value \<Rightarrow> unit formatted" where
  "plugin_entry_validate X key declared v =
     bindE (decode_local_plugin_entry_key X key) (\<lambda>(_, space, _).
     if space \<noteq> space_name declared then failed ''section-plugin-space-mismatch''
     else
       bindE (plugin_validate v) (\<lambda>_.
       if declared = Space_String
          \<and> (case v of
               Plugin_Inline x \<Rightarrow> \<not> is_json_string x
             | Plugin_Structured _ \<Rightarrow> True
             | _ \<Rightarrow> False)
       then failed ''invalid-section-value'' else Inr ()))"

definition version_refused :: "entry_version option \<Rightarrow> bool" where
  "version_refused m \<longleftrightarrow> (case m of None \<Rightarrow> False | Some v \<Rightarrow> ev_writer v = [] \<or> length (ev_writer v) > 1024)"

definition section_entry_validate :: "ext \<Rightarrow> section_entry \<Rightarrow> unit formatted" where
  "section_entry_validate X e =
     (if se_codec e \<noteq> SECTION_CODEC then failed ''unsupported-section-codec''
      else
        bindE (section_key_validate X (se_kind e) (se_key e)) (\<lambda>_.
        if (case section_value_kind (se_value e) of None \<Rightarrow> False | Some k \<Rightarrow> k \<noteq> se_kind e)
        then failed ''section-value-kind-mismatch''
        else
          bindE (case se_value e of
                   Section_Hypa h \<Rightarrow> hypa_validate X h
                 | Section_Plugin s v \<Rightarrow> plugin_entry_validate X (se_key e) s v
                 | Section_Tombstone g t \<Rightarrow>
                     if g = sequence_from 0 \<or> t = 0 \<or> t > 2 ^ 63 - 1 then failed ''invalid-section-value'' else Inr ()
                 | Section_Setting v \<Rightarrow> value_validate_or v) (\<lambda>_.
          if version_refused (se_version e) then failed ''invalid-section-version'' else Inr ())))"

definition section_entry_new ::
  "ext \<Rightarrow> section_kind \<Rightarrow> string \<Rightarrow> section_value \<Rightarrow> entry_version option \<Rightarrow> section_entry formatted" where
  "section_entry_new X kind key v version =
     (let e = \<lparr>se_codec = SECTION_CODEC, se_kind = kind, se_key = key, se_value = v, se_version = version\<rparr> in
      bindE (section_entry_validate X e) (\<lambda>_. Inr e))"

definition section_entry_encode :: "ext \<Rightarrow> section_entry \<Rightarrow> bytes formatted" where
  "section_entry_encode X e =
     bindE (section_entry_validate X e) (\<lambda>_.
     let bs = json_text X (section_entry_json e) in
     if length bs > MAX_SECTION_ENTRY_BYTES then failed ''section-entry-limit-exceeded'' else Inr bs)"

definition section_entry_decode :: "ext \<Rightarrow> bytes \<Rightarrow> section_entry formatted" where
  "section_entry_decode X bs =
     (if bs = [] \<or> length bs > MAX_SECTION_ENTRY_BYTES then failed ''section-entry-limit-exceeded''
      else
        bindE (ok_or (Option.bind (from_slice X bs) section_entry_from) (FormatError ''invalid-section-entry'')) (\<lambda>e.
        bindE (section_entry_validate X e) (\<lambda>_.
        bindE (section_entry_encode X e) (\<lambda>again.
        if again \<noteq> bs then failed ''non-canonical-section-entry'' else Inr e))))"

record unknown_entry =
  ue_key :: string
  ue_version :: "entry_version option"

text \<open>The envelope read when an entry was refused: its codec, kind, key, the fields of its plugin value
  and its version.\<close>

definition plugin_envelope ::
  "json \<Rightarrow> (string \<times> section_kind \<times> string \<times> (string \<times> json) list \<times> entry_version option) option" where
  "plugin_envelope v =
     (case doc_fields [''codec'', ''kind'', ''key'', ''value'', ''version''] v of
        Some [c, k, i, v, w] \<Rightarrow>
          (case (as_string c, enum_from section_kinds k, as_string i, variant_of v, version_from w) of
             (Some c, Some k, Some i, Some (t, JObject ps), Some w) \<Rightarrow>
               if t = ''localPlugin'' then Some (c, k, i, index_collect (map (\<lambda>p. (fst p, value_tree (snd p))) ps), w) else None
           | _ \<Rightarrow> None)
      | _ \<Rightarrow> None)"

definition decode_known :: "ext \<Rightarrow> bytes \<Rightarrow> (unknown_entry + section_entry) formatted" where
  "decode_known X bs =
     (case section_entry_decode X bs of
        Inr e \<Rightarrow> Inr (Inr e)
      | Inl err \<Rightarrow>
          if bs = [] \<or> length bs > MAX_SECTION_ENTRY_BYTES then Inl err
          else
            (case Option.bind (from_slice X bs) plugin_envelope of
               None \<Rightarrow> Inl err
             | Some (used, kind, key, fs, version) \<Rightarrow>
                 (case decode_local_plugin_entry_key X key of
                    Inl _ \<Rightarrow> Inl err
                  | Inr (_, space, _) \<Rightarrow>
                      let unknown = length fs = 2 \<and> map_of fs ''space'' = Some (JString space)
                            \<and> list_all (\<lambda>(name, _). name = ''space''
                                \<or> name \<notin> {''value'', ''object'', ''objects'', ''structured''}) fs in
                      if used \<noteq> SECTION_CODEC \<or> kind \<noteq> Local_Plugins \<or> \<not> unknown \<or> version_refused version
                      then Inl err
                      else Inr (Inl \<lparr>ue_key = key, ue_version = version\<rparr>))))"

section \<open>Lemmas\<close>

lemma text_bytes [simp]: "as_bytes (text_of bs) = bs" "text_of (as_bytes s) = s"
proof -
  have "(of_char (char_of (unat b)) :: u8) = b" for b :: u8
  proof -
    have "(of_char (char_of (unat b)) :: nat) = unat b" using unat_less_8 [of b] by simp
    then have "(of_nat (of_char (char_of (unat b) :: char)) :: u8) = of_nat (unat b)" by simp
    then show ?thesis unfolding of_nat_of_char by simp
  qed
  then show "as_bytes (text_of bs) = bs" by (simp add: as_bytes_def text_of_def o_def)
  have "unat (of_char c :: u8) = of_char c" for c :: char
    using unat_of_nat_8 [of "of_char c"] unfolding of_nat_of_char by simp
  then show "text_of (as_bytes s) = s" by (simp add: as_bytes_def text_of_def o_def)
qed

lemma text_of_inj: "text_of bs = text_of cs \<Longrightarrow> bs = cs"
  by (metis text_bytes(1))

text \<open>Values as a device holds them: digests of 32 bytes, sequences in range, JSON with unique keys.\<close>

definition ref_wf :: "object_ref \<Rightarrow> bool" where "ref_wf r \<longleftrightarrow> length (or_hash r) = 32"
definition sequence_wf :: "sequence \<Rightarrow> bool" where "sequence_wf n \<longleftrightarrow> sequence_try_from (seq_str n) = Inr n"

definition section_value_wf :: "section_value \<Rightarrow> bool" where
  "section_value_wf v \<longleftrightarrow>
     list_all ref_wf (object_references v)
     \<and> (case v of
          Section_Hypa h \<Rightarrow> (case hv_metadata h of None \<Rightarrow> True | Some m \<Rightarrow> m \<noteq> JNull \<and> value_tree m = m)
        | Section_Plugin _ (Plugin_Inline x) \<Rightarrow> value_tree x = x
        | Section_Setting (Value_Inline x) \<Rightarrow> value_tree x = x
        | Section_Tombstone g _ \<Rightarrow> sequence_wf g
        | _ \<Rightarrow> True)"

definition section_entry_wf :: "section_entry \<Rightarrow> bool" where
  "section_entry_wf e \<longleftrightarrow>
     section_value_wf (se_value e) \<and> (case se_version e of None \<Rightarrow> True | Some v \<Rightarrow> sequence_wf (ev_clock v))"

lemma sequence_json [simp]: "sequence_wf n \<Longrightarrow> sequence_from_json (Some (JString (seq_str n))) = Some n"
  unfolding sequence_wf_def sequence_from_json_def by (simp del: sequence_try_from_Inr)

lemma ref_from_value [simp]: "ref_wf r \<Longrightarrow> ref_from (ref_value r) = Some r"
  by (cases r) (simp add: ref_wf_def ref_from_def ref_value_def doc_fields_def struct_fields_def)

lemma refs_from_value [simp]: "list_all ref_wf rs \<Longrightarrow> refs_from (refs_value rs) = Some rs"
  by (simp add: refs_from_def refs_value_def as_list_def list_all_iff)

lemma u32_from_value [simp]: "as_u32 (Some (u32_value n)) = Some n"
proof -
  have "(ucast (ucast n :: u64) :: u32) = n" by (rule ucast_up_ucast_id) (simp add: is_up)
  then show ?thesis using unat_less_32 [of n] by (simp add: as_u32_def u32_value_def)
qed

lemma variant_of_single [simp]: "variant_of (Some (JObject [(k, v)])) = Some (k, v)"
  by (simp add: variant_of_def)

lemma vec_from_value:
  "(case v of Vec_Object r \<Rightarrow> ref_wf r | _ \<Rightarrow> True) \<Longrightarrow> vec_from (Some (vec_value v)) = Some v"
  by (cases v) (simp_all add: vec_from_def)

lemma text_from_value: "list_all ref_wf (text_references t) \<Longrightarrow> text_from (Some (text_value t)) = Some t"
  by (cases t) (simp_all add: text_from_def)

lemma structured_from_value:
  "list_all ref_wf (text_references (sp_text p) @ sp_parts p) \<Longrightarrow> structured_from (structured_value p) = Some p"
  by (cases p) (simp add: structured_from_def structured_value_def doc_fields_def struct_fields_def text_from_value)

lemma space_from_name [simp]: "map_of space_names (space_name s) = Some s"
  by (cases s) (simp_all add: space_names_def)

lemma kind_from_id [simp]: "map_of section_kinds (section_id k) = Some k"
  by (cases k) (simp_all add: section_kinds_def)

lemma hypa_from_value:
  assumes "section_value_wf (Section_Hypa h)"
  shows "hypa_from (hypa_value_json h) = Some h"
proof -
  have m: "metadata_from (Some (case hv_metadata h of None \<Rightarrow> JNull | Some v \<Rightarrow> v)) = hv_metadata h"
    using assms by (auto simp: section_value_wf_def metadata_from_def split: option.splits json.splits)
  have "vec_from (Some (vec_value (hv_vector h))) = Some (hv_vector h)"
    using assms by (intro vec_from_value) (auto simp: section_value_wf_def object_references_def object_reference_def
        split: inline_or_object.splits)
  with m show ?thesis
    by (cases h) (simp add: hypa_from_def hypa_value_json_def doc_fields_def struct_fields_def)
qed

lemma plugin_from_field:
  assumes "section_value_wf (Section_Plugin s v)"
  shows "plugin_from (fst (plugin_field v)) (snd (plugin_field v)) = Some v"
  using assms structured_from_value
  by (cases v) (auto simp: section_value_wf_def object_references_def object_reference_def plugin_from_def)

lemma plugin_entry_from_value:
  assumes "section_value_wf (Section_Plugin s v)"
  shows "plugin_entry_from (JObject [(''space'', JString (space_name s)), plugin_field v]) = Some (Section_Plugin s v)"
proof -
  obtain t x where f: "plugin_field v = (t, x)" by (cases "plugin_field v")
  moreover have "t \<noteq> ''space''" using f by (cases v) auto
  ultimately show ?thesis using plugin_from_field [OF assms]
    by (simp add: plugin_entry_from_def flat_variant_def)
qed

lemma setting_entry_from_value:
  assumes "section_value_wf (Section_Setting v)"
  shows "setting_entry_from (JObject [setting_field v]) = Some (Section_Setting v)"
  using assms by (cases v) (simp_all add: setting_entry_from_def flat_variant_def setting_from_def section_value_wf_def
      object_references_def object_reference_def)

lemma section_value_from_json:
  assumes "section_value_wf v"
  shows "section_value_from (Some (section_value_json v)) = Some v"
proof (cases v)
  case (Section_Tombstone g t)
  with assms have "sequence_wf g" by (simp add: section_value_wf_def)
  then show ?thesis
    by (simp add: Section_Tombstone section_value_from_def tombstone_from_def loose_fields_def)
qed (use assms in \<open>simp_all add: section_value_from_def hypa_from_value plugin_entry_from_value setting_entry_from_value\<close>)

lemma version_from_value:
  "(case m of None \<Rightarrow> True | Some v \<Rightarrow> sequence_wf (ev_clock v)) \<Longrightarrow>
     version_from (Some (case m of None \<Rightarrow> JNull | Some v \<Rightarrow> version_value v)) = Some m"
  by (cases m) (simp_all add: version_from_def version_value_def doc_fields_def struct_fields_def)

lemma section_entry_from_json: "section_entry_wf e \<Longrightarrow> section_entry_from (section_entry_json e) = Some e"
  using section_value_from_json [of "se_value e"] version_from_value [of "se_version e"]
  by (cases e) (simp add: section_entry_wf_def section_entry_from_def section_entry_json_def doc_fields_def struct_fields_def)

lemma section_entry_encode_Inr:
  "section_entry_encode X e = Inr bs \<longleftrightarrow>
     section_entry_validate X e = Inr () \<and> bs = json_text X (section_entry_json e) \<and> length bs \<le> MAX_SECTION_ENTRY_BYTES"
  by (auto simp: section_entry_encode_def Let_def bindE_Inr)

lemma section_entry_decode_Inr:
  "section_entry_decode X bs = Inr e \<longleftrightarrow>
     bs \<noteq> [] \<and> Option.bind (from_slice X bs) section_entry_from = Some e \<and> section_entry_encode X e = Inr bs"
  by (auto simp: section_entry_decode_def bindE_Inr section_entry_encode_Inr)

lemma ref_validate_Inr [simp]: "ref_validate r = Inr u \<longleftrightarrow> 0 < unat (or_length r) \<and> unat (or_length r) \<le> MAX_SECTION_OBJECT_BYTES"
proof -
  have "unat (of_nat MAX_SECTION_OBJECT_BYTES :: u64) = MAX_SECTION_OBJECT_BYTES"
    by (intro unat_of_nat_64) (simp add: MAX_SECTION_OBJECT_BYTES_def)
  then show ?thesis by (auto simp: ref_validate_def word_less_nat_alt not_less unat_gt_0)
qed

lemma add_ref_step:
  "add_ref start r = Inr m \<longleftrightarrow>
     0 < unat (or_length r) \<and> unat (or_length r) \<le> MAX_SECTION_OBJECT_BYTES \<and> checked_add start (or_length r) = Some m"
  by (simp add: add_ref_def bindE_Inr)

lemma add_refs_Inr:
  "foldE add_ref start rs = Inr n \<Longrightarrow>
     list_all (\<lambda>r. 0 < unat (or_length r) \<and> unat (or_length r) \<le> MAX_SECTION_OBJECT_BYTES) rs
     \<and> unat n = unat start + sum_list (map (\<lambda>r. unat (or_length r)) rs)"
proof (induction rs arbitrary: start)
  case (Cons r rs)
  then obtain m where m: "0 < unat (or_length r)" "unat (or_length r) \<le> MAX_SECTION_OBJECT_BYTES"
    "checked_add start (or_length r) = Some m" "foldE add_ref m rs = Inr n"
    by (auto simp: bindE_Inr add_ref_step)
  from m(3) have "unat m = unat start + unat (or_length r)"
    by (auto simp: checked_add_def unat_add_lem [THEN iffD1] split: if_splits)
  with Cons.IH [OF m(4)] m show ?case by simp
qed simp

text \<open>What the references of a value add up to, and what validation establishes about a value.\<close>

definition refs_total :: "object_ref list \<Rightarrow> nat" where
  "refs_total rs = sum_list (map (\<lambda>r. unat (or_length r)) rs)"

definition ref_ok :: "object_ref \<Rightarrow> bool" where
  "ref_ok r \<longleftrightarrow> 0 < unat (or_length r) \<and> unat (or_length r) \<le> MAX_SECTION_OBJECT_BYTES"

definition section_value_ok :: "ext \<Rightarrow> section_value \<Rightarrow> bool" where
  "section_value_ok X v \<longleftrightarrow>
     list_all ref_ok (object_references v) \<and> refs_total (object_references v) \<le> unat MAX_PLUGIN_VALUE_BYTES
     \<and> (case v of
          Section_Hypa h \<Rightarrow>
            0 < unat (hv_dimensions h) \<and> unat (hv_dimensions h) \<le> 16384
            \<and> (case hv_vector h of
                 Vec_Object r \<Rightarrow> unat (or_length r) = 4 * unat (hv_dimensions h)
               | Vec_Inline s \<Rightarrow> (case b64_decode X s of None \<Rightarrow> False
                   | Some bs \<Rightarrow> length bs = 4 * unat (hv_dimensions h) \<and> length bs \<le> MAX_INLINE_VALUE_BYTES))
        | Section_Tombstone g t \<Rightarrow> g \<noteq> sequence_from 0 \<and> 0 < unat t \<and> unat t < 2 ^ 63
        | _ \<Rightarrow> True)"

lemma one_ref_ok: "ref_validate r = Inr u \<Longrightarrow> ref_ok r \<and> refs_total [r] \<le> unat MAX_PLUGIN_VALUE_BYTES"
  by (simp add: ref_ok_def refs_total_def MAX_SECTION_OBJECT_BYTES_def MAX_PLUGIN_VALUE_BYTES_def)

lemma refs_ok:
  assumes "foldE add_ref start rs = Inr n" and "\<not> n > MAX_PLUGIN_VALUE_BYTES"
  shows "list_all ref_ok rs \<and> refs_total rs \<le> unat MAX_PLUGIN_VALUE_BYTES"
  using add_refs_Inr [OF assms(1)] assms(2) by (simp add: ref_ok_def refs_total_def list_all_iff not_less word_le_nat_alt)

lemma dimension_bytes: "hv_dimensions h \<le> MAX_VECTOR_DIMENSIONS \<Longrightarrow> unat (ucast (hv_dimensions h) * 4 :: u64) = 4 * unat (hv_dimensions h)"
proof -
  assume "hv_dimensions h \<le> MAX_VECTOR_DIMENSIONS"
  then have "unat (hv_dimensions h) \<le> 16384" by (simp add: MAX_VECTOR_DIMENSIONS_def word_le_nat_alt)
  then show ?thesis by (subst unat_mult_lem [THEN iffD1]) simp_all
qed

lemma hypa_ok:
  assumes "hypa_validate X h = Inr u"
  shows "section_value_ok X (Section_Hypa h)"
proof -
  from assms obtain n where v: "vec_validate X (hv_vector h) = Inr ()" and d: "hv_dimensions h \<noteq> 0" "hv_dimensions h \<le> MAX_VECTOR_DIMENSIONS"
    and n: "(case hv_vector h of
                 Vec_Inline _ \<Rightarrow> bindE (decode_inline X (hv_vector h)) (\<lambda>bs. Inr (of_nat (length bs)))
               | Vec_Object r \<Rightarrow> Inr (or_length r)) = Inr n" "n = ucast (hv_dimensions h) * 4"
    by (auto simp: hypa_validate_def bindE_Inr not_less split: if_splits)
  note bytes = dimension_bytes [OF d(2)]
  have dims: "0 < unat (hv_dimensions h) \<and> unat (hv_dimensions h) \<le> 16384"
    using d by (simp add: MAX_VECTOR_DIMENSIONS_def word_le_nat_alt unat_gt_0)
  show ?thesis
  proof (cases "hv_vector h")
    case (Vec_Inline s)
    with n(1) obtain bs where b: "b64_decode X s = Some bs" "length bs \<le> MAX_INLINE_VALUE_BYTES" "n = of_nat (length bs)"
      by (auto simp: decode_inline_def bindE_Inr split: if_splits)
    have "unat n = length bs" using b(2,3) by (simp add: MAX_INLINE_VALUE_BYTES_def unat_of_nat_64)
    with b n(2) bytes dims Vec_Inline show ?thesis
      by (simp add: section_value_ok_def object_references_def object_reference_def refs_total_def)
  next
    case (Vec_Object r)
    with v have "ref_validate r = Inr ()" by (simp add: vec_validate_def)
    from one_ref_ok [OF this] n bytes dims Vec_Object show ?thesis
      by (simp add: section_value_ok_def object_references_def object_reference_def)
  qed
qed

lemma plugin_ok:
  assumes "plugin_validate v = Inr u"
  shows "section_value_ok X (Section_Plugin s v)"
proof (cases v)
  case (Plugin_Structured p)
  with assms obtain start n where "foldE add_ref start (text_references (sp_text p) @ sp_parts p) = Inr n" "\<not> n > MAX_PLUGIN_VALUE_BYTES"
    by (auto simp: plugin_validate_def structured_validate_def bindE_Inr split: if_splits)
  from refs_ok [OF this] show ?thesis by (simp add: Plugin_Structured section_value_ok_def object_references_def)
next
  case (Plugin_Objects rs)
  with assms obtain n where "foldE add_ref 2 rs = Inr n" "\<not> n > MAX_PLUGIN_VALUE_BYTES"
    by (auto simp: plugin_validate_def bindE_Inr split: if_splits)
  from refs_ok [OF this] show ?thesis by (simp add: Plugin_Objects section_value_ok_def object_references_def)
next
  case (Plugin_Object r)
  with assms have "ref_validate r = Inr u" by (simp add: plugin_validate_def split: if_splits)
  from one_ref_ok [OF this] show ?thesis
    by (simp add: Plugin_Object section_value_ok_def object_references_def object_reference_def)
qed (simp add: section_value_ok_def object_references_def object_reference_def refs_total_def)

lemma setting_ok:
  assumes "value_validate_or v = Inr u"
  shows "section_value_ok X (Section_Setting v)"
proof (cases v)
  case (Value_Object r)
  with assms have "ref_validate r = Inr u" by (simp add: value_validate_or_def split: if_splits)
  from one_ref_ok [OF this] show ?thesis
    by (simp add: Value_Object section_value_ok_def object_references_def object_reference_def)
qed (simp add: section_value_ok_def object_references_def object_reference_def refs_total_def)

lemma section_entry_ok:
  assumes "section_entry_validate X e = Inr ()"
  shows "section_value_ok X (se_value e)" "case section_value_kind (se_value e) of None \<Rightarrow> True | Some k \<Rightarrow> k = se_kind e"
    "section_key_validate X (se_kind e) (se_key e) = Inr ()"
proof -
  show "case section_value_kind (se_value e) of None \<Rightarrow> True | Some k \<Rightarrow> k = se_kind e"
    "section_key_validate X (se_kind e) (se_key e) = Inr ()"
    using assms by (auto simp: section_entry_validate_def bindE_Inr split: if_splits option.splits)
  from assms have v: "(case se_value e of
                   Section_Hypa h \<Rightarrow> hypa_validate X h
                 | Section_Plugin s v \<Rightarrow> plugin_entry_validate X (se_key e) s v
                 | Section_Tombstone g t \<Rightarrow>
                     if g = sequence_from 0 \<or> t = 0 \<or> t > 2 ^ 63 - 1 then failed ''invalid-section-value'' else Inr ()
                 | Section_Setting v \<Rightarrow> value_validate_or v) = Inr ()"
    by (auto simp: section_entry_validate_def bindE_Inr split: if_splits)
  show "section_value_ok X (se_value e)"
  proof (cases "se_value e")
    case (Section_Plugin s p)
    with v have "plugin_validate p = Inr ()" by (auto simp: plugin_entry_validate_def bindE_Inr split: if_splits)
    then show ?thesis using plugin_ok by (simp add: Section_Plugin)
  next
    case (Section_Tombstone g t)
    with v have "g \<noteq> sequence_from 0" "t \<noteq> 0" "\<not> t > 2 ^ 63 - 1" by (auto split: if_splits)
    then show ?thesis
      by (simp add: Section_Tombstone section_value_ok_def object_references_def object_reference_def refs_total_def
          unat_gt_0 not_less word_le_nat_alt)
  qed (use v hypa_ok setting_ok in auto)
qed

section \<open>Properties\<close>

text \<open>A plugin key determines its owner, space and key: a text decodes to three parts exactly when it
  is the encoding of those parts, so no two combinations share a key and every key has one
  spelling.\<close>

theorem plugin_key_unambiguous:
  assumes "reads_back X (strings_value [owner, space, key])"
  shows "decode_local_plugin_entry_key X encoded = Inr (owner, space, key)
    \<longleftrightarrow> local_plugin_entry_key X owner space key = Inr encoded"
proof
  assume "decode_local_plugin_entry_key X encoded = Inr (owner, space, key)"
  then show "local_plugin_entry_key X owner space key = Inr encoded"
    by (auto simp: decode_local_plugin_entry_key_def bindE_Inr split: option.splits list.splits if_splits)
next
  assume e: "local_plugin_entry_key X owner space key = Inr encoded"
  then have "as_bytes encoded = json_text X (strings_value [owner, space, key])"
    by (auto simp: local_plugin_entry_key_def Let_def split: if_splits)
  with assms have "from_slice X (as_bytes encoded) = Some (strings_value [owner, space, key])"
    by (simp add: reads_back_def)
  with e show "decode_local_plugin_entry_key X encoded = Inr (owner, space, key)"
    by (simp add: decode_local_plugin_entry_key_def)
qed

lemma plugin_key_unambiguous_witness:
  "decode_local_plugin_entry_key (sample_ext (strings_value [''o'', ''json'', ''k'']))
     (text_of (json_text (sample_ext (strings_value [''o'', ''json'', ''k''])) (strings_value [''o'', ''json'', ''k''])))
   = Inr (''o'', ''json'', ''k'')"
proof -
  let ?X = "sample_ext (strings_value [''o'', ''json'', ''k''])"
  have "local_plugin_entry_key ?X ''o'' ''json'' ''k'' = Inr (text_of (json_text ?X (strings_value [''o'', ''json'', ''k''])))"
    by (simp add: local_plugin_entry_key_def Let_def)
      (simp add: strings_value_def text_of_def join_def separator_def sample_ext_def quote_def as_bytes_def)
  moreover have "reads_back ?X (strings_value [''o'', ''json'', ''k''])" by (simp add: reads_back_def sample_ext_def)
  ultimately show ?thesis by (simp only: plugin_key_unambiguous)
qed

text \<open>A section entry decodes from exactly the bytes it encodes to, so that an entry and its bytes
  determine each other.\<close>

theorem section_entry_bytes:
  assumes "section_entry_wf e" and "reads_back X (section_entry_json e)"
  shows "section_entry_decode X bs = Inr e \<longleftrightarrow> section_entry_encode X e = Inr bs"
proof -
  have "Option.bind (from_slice X bs) section_entry_from = Some e \<and> bs \<noteq> []" if "section_entry_encode X e = Inr bs"
  proof -
    from that have bs: "bs = json_text X (section_entry_json e)" unfolding section_entry_encode_Inr by blast
    then have "from_slice X bs = Some (section_entry_json e)" using assms(2) by (simp add: reads_back_def)
    then have "Option.bind (from_slice X bs) section_entry_from = Some e"
      using section_entry_from_json [OF assms(1)] by simp
    moreover have "bs \<noteq> []" unfolding bs by (simp add: section_entry_json_def)
    ultimately show ?thesis by blast
  qed
  then show ?thesis unfolding section_entry_decode_Inr by blast
qed

text \<open>C40. Whatever bytes arrive, an entry that is decoded is bounded and consistent: every object it names
  has between one byte and eight mebibytes, together at most 512 mebibytes; a vector has four
  bytes for each of at most 16384 dimensions; a removal names a commit and a time; the value is of
  the kind of the section and the key is one of that kind. Bytes taken for a value of a later
  build are none that decode.\<close>

theorem section_decode_bounded:
  "case section_entry_decode X bs of
     Inr e \<Rightarrow> section_value_ok X (se_value e) \<and> section_key_validate X (se_kind e) (se_key e) = Inr ()
       \<and> (case section_value_kind (se_value e) of None \<Rightarrow> True | Some k \<Rightarrow> k = se_kind e)
       \<and> length bs \<le> MAX_SECTION_ENTRY_BYTES \<and> decode_known X bs = Inr (Inr e)
   | Inl err \<Rightarrow>
       (case decode_known X bs of
          Inl err' \<Rightarrow> err' = err
        | Inr (Inl u) \<Rightarrow> is_ok (decode_local_plugin_entry_key X (ue_key u)) \<and> length bs \<le> MAX_SECTION_ENTRY_BYTES
        | Inr (Inr _) \<Rightarrow> False)"
proof (cases "section_entry_decode X bs")
  case (Inr e)
  then have "section_entry_encode X e = Inr bs" unfolding section_entry_decode_Inr by blast
  then have "section_entry_validate X e = Inr ()" "length bs \<le> MAX_SECTION_ENTRY_BYTES"
    unfolding section_entry_encode_Inr by blast+
  with section_entry_ok Inr show ?thesis by (simp add: decode_known_def)
next
  case (Inl err)
  then show ?thesis
    by (auto simp: decode_known_def Let_def is_ok_iff split: option.splits sum.splits if_splits)
qed

definition sample_section_entry :: section_entry where
  "sample_section_entry = \<lparr>se_codec = SECTION_CODEC, se_kind = Local_Settings, se_key = ''k'',
     se_value = Section_Tombstone (sequence_from 1) 5, se_version = None\<rparr>"

lemma section_entry_bytes_witness:
  "let X = sample_ext (section_entry_json sample_section_entry) in
     section_entry_decode X (json_text X (section_entry_json sample_section_entry)) = Inr sample_section_entry"
proof -
  let ?X = "sample_ext (section_entry_json sample_section_entry)"
  have d: "show_nat (Suc 0) = [digit_char 1]" "decimal_string 5 = [digit_char 5]" "show_nat 0 = [digit_char 0]"
    by (simp_all add: decimal_string_def show_nat.simps)
  have wf: "section_entry_wf sample_section_entry"
    by (simp add: section_entry_wf_def sample_section_entry_def section_value_wf_def object_references_def
        object_reference_def sequence_wf_def sequence_from_def show_nat_plain d)
      (simp add: digit_char_def plain_decimal_def is_ascii_digit_def)
  have len: "length (json_text ?X (section_entry_json sample_section_entry)) \<le> MAX_SECTION_ENTRY_BYTES"
    by (simp add: section_entry_json_def sample_section_entry_def control_value_def sequence_from_def d join_def separator_def)
      (simp add: MAX_SECTION_ENTRY_BYTES_def sample_ext_def quote_def as_bytes_def SECTION_CODEC_def)
  have "section_entry_validate ?X sample_section_entry = Inr ()"
    by (simp add: section_entry_validate_def sample_section_entry_def section_key_validate_def version_refused_def
        sequence_from_def d) (simp add: digit_char_def)
  with len have "section_entry_encode ?X sample_section_entry = Inr (json_text ?X (section_entry_json sample_section_entry))"
    unfolding section_entry_encode_Inr by blast
  moreover have "reads_back ?X (section_entry_json sample_section_entry)" by (simp add: reads_back_def sample_ext_def)
  ultimately show ?thesis using section_entry_bytes [OF wf, of ?X] by simp
qed

end
