(* ===== verification/Sync_State.thy ===== *)
theory Sync_State
  imports Catalog_Tree Sections
begin

text \<open>
  The references of a published state and the state document of
  \<^verbatim>\<open>crates/external-storage-format/src/snapshot.rs\<close>: the library, the sections, the fingerprints that
  identify them, and the document that binds them to a repository.
\<close>

definition STATE_SCHEMA :: string where "STATE_SCHEMA = ''risunest.external-state/v1''"

section \<open>References to the library and to sections\<close>

record library_ref =
  lr_records :: stored_object
  lr_assets :: stored_object
  lr_fingerprint :: digest

definition library_value :: "library_ref \<Rightarrow> json" where
  "library_value l = JObject
     [(''recordCatalog'', stored_value (lr_records l)), (''assetCatalog'', stored_value (lr_assets l)),
      (''contentFingerprint'', bytes_value (lr_fingerprint l))]"

definition library_from :: "json option \<Rightarrow> library_ref option" where
  "library_from m =
     (case Option.bind m (doc_fields [''recordCatalog'', ''assetCatalog'', ''contentFingerprint'']) of
        Some [r, a, h] \<Rightarrow>
          (case (stored_from r, stored_from a, as_array 32 h) of
             (Some r, Some a, Some h) \<Rightarrow> Some \<lparr>lr_records = r, lr_assets = a, lr_fingerprint = h\<rparr>
           | _ \<Rightarrow> None)
      | _ \<Rightarrow> None)"

text \<open>A catalog object of the repository.\<close>

definition catalog_object :: "ext \<Rightarrow> string \<Rightarrow> string \<Rightarrow> stored_object \<Rightarrow> unit formatted" where
  "catalog_object X error repository s =
     bindE (stored_validate X s) (\<lambda>_.
     if ph_repository (so_header s) \<noteq> repository \<or> ph_role (so_header s) \<noteq> Role_Catalog then failed error else Inr ())"

definition library_validate :: "ext \<Rightarrow> string \<Rightarrow> library_ref \<Rightarrow> unit formatted" where
  "library_validate X repository l =
     bindE (catalog_object X ''invalid-library-catalog'' repository (lr_records l)) (\<lambda>_.
     catalog_object X ''invalid-library-catalog'' repository (lr_assets l))"

record section_ref =
  sr_kind :: section_kind
  sr_codec :: string
  sr_generation :: sequence
  sr_floor :: sequence
  sr_clock :: sequence
  sr_root :: stored_object
  sr_fingerprint :: digest

definition section_ref_value :: "section_ref \<Rightarrow> json" where
  "section_ref_value s = JObject
     [(''kind'', JString (section_id (sr_kind s))), (''codec'', JString (sr_codec s)),
      (''generation'', JString (seq_str (sr_generation s))), (''gcFloor'', JString (seq_str (sr_floor s))),
      (''maxWriteClock'', JString (seq_str (sr_clock s))), (''entriesRoot'', stored_value (sr_root s)),
      (''contentFingerprint'', bytes_value (sr_fingerprint s))]"

definition section_ref_from :: "json \<Rightarrow> section_ref option" where
  "section_ref_from v =
     (case doc_fields [''kind'', ''codec'', ''generation'', ''gcFloor'', ''maxWriteClock'', ''entriesRoot'', ''contentFingerprint''] v of
        Some [k, c, g, f, w, r, h] \<Rightarrow>
          (case (enum_from section_kinds k, as_string c, sequence_from_json g, sequence_from_json f, sequence_from_json w,
                 stored_from r, as_array 32 h) of
             (Some k, Some c, Some g, Some f, Some w, Some r, Some h) \<Rightarrow>
               Some \<lparr>sr_kind = k, sr_codec = c, sr_generation = g, sr_floor = f, sr_clock = w, sr_root = r,
                     sr_fingerprint = h\<rparr>
           | _ \<Rightarrow> None)
      | _ \<Rightarrow> None)"

definition section_ref_validate :: "ext \<Rightarrow> string \<Rightarrow> string \<Rightarrow> section_ref \<Rightarrow> unit formatted" where
  "section_ref_validate X repository i s =
     bindE (section_parse i) (\<lambda>kind.
     if kind \<noteq> sr_kind s then failed ''section-kind-mismatch''
     else if sr_codec s \<noteq> SECTION_CODEC then failed ''unsupported-section-codec''
     else if sr_floor s > sr_generation s then failed ''invalid-section-floor''
     else catalog_object X ''invalid-section-catalog'' repository (sr_root s))"

text \<open>The sections of a state, a \<^verbatim>\<open>BTreeMap\<close> from their names.\<close>

type_synonym section_refs = "(string \<times> section_ref) list"

definition sections_value :: "section_refs \<Rightarrow> json" where
  "sections_value ss = JObject (map (\<lambda>(i, s). (i, section_ref_value s)) ss)"

definition sections_from :: "json option \<Rightarrow> section_refs option" where
  "sections_from m =
     (case m of
        Some (JObject ps) \<Rightarrow>
          map_option bt_collect (those (map (\<lambda>(i, v). map_option (Pair i) (section_ref_from v)) ps))
      | _ \<Rightarrow> None)"

section \<open>Fingerprints\<close>

definition STATE_FINGERPRINT_DOMAIN :: string where
  "STATE_FINGERPRINT_DOMAIN = ''risunest.external-state-fingerprint/v1''"

definition BUNDLE_FINGERPRINT_DOMAIN :: string where
  "BUNDLE_FINGERPRINT_DOMAIN = ''risunest.external-backup-bundle-fingerprint/v1''"

definition fingerprinted_section :: "section_ref \<Rightarrow> json" where
  "fingerprinted_section s = JObject
     [(''content'', JString (hex_encode (sr_fingerprint s))), (''generation'', JString (seq_str (sr_generation s))),
      (''gcFloor'', JString (seq_str (sr_floor s))), (''maxWriteClock'', JString (seq_str (sr_clock s)))]"

definition fingerprinted_state :: "string \<Rightarrow> digest \<Rightarrow> section_refs \<Rightarrow> (string \<times> json) list" where
  "fingerprinted_state domain library_fingerprint ss =
     [(''domain'', JString domain), (''library'', JString (hex_encode library_fingerprint)),
      (''sections'', JObject (map (\<lambda>(i, s). (i, fingerprinted_section s)) ss))]"

definition json_fingerprint :: "ext \<Rightarrow> (bytes \<Rightarrow> digest) \<Rightarrow> json \<Rightarrow> digest" where
  "json_fingerprint X H v = H (json_text X v)"

definition state_fingerprint :: "ext \<Rightarrow> (bytes \<Rightarrow> digest) \<Rightarrow> digest \<Rightarrow> section_refs \<Rightarrow> digest" where
  "state_fingerprint X H library_fingerprint ss =
     json_fingerprint X H (JObject (fingerprinted_state STATE_FINGERPRINT_DOMAIN library_fingerprint ss))"

text \<open>The bundle's fields are the flattened state's and one more.\<close>

definition bundle_fingerprint :: "ext \<Rightarrow> (bytes \<Rightarrow> digest) \<Rightarrow> digest \<Rightarrow> section_refs \<Rightarrow> stored_object option \<Rightarrow> digest" where
  "bundle_fingerprint X H library_fingerprint ss units =
     json_fingerprint X H (JObject (fingerprinted_state BUNDLE_FINGERPRINT_DOMAIN library_fingerprint ss
       @ [(''originalUnits'', case units of None \<Rightarrow> JNull | Some s \<Rightarrow> stored_value s)]))"

section \<open>The state document\<close>

record sync_state =
  ss_schema :: string
  ss_state_id :: string
  ss_repository :: string
  ss_library_id :: string
  ss_epoch :: string
  ss_generation :: sequence
  ss_parent :: "string option"
  ss_author :: string
  ss_created :: u64
  ss_library :: library_ref
  ss_sections :: section_refs
  ss_library_fingerprint :: digest
  ss_state_fingerprint :: digest

definition state_value :: "sync_state \<Rightarrow> json" where
  "state_value s = JObject
     [(''schema'', JString (ss_schema s)), (''stateId'', JString (ss_state_id s)),
      (''repositoryId'', JString (ss_repository s)), (''libraryId'', JString (ss_library_id s)),
      (''epoch'', JString (ss_epoch s)), (''generation'', JString (seq_str (ss_generation s))),
      (''parentStateId'', opt_value (ss_parent s)), (''authorWriterId'', JString (ss_author s)),
      (''createdAtMs'', control_value (ss_created s)), (''library'', library_value (ss_library s)),
      (''sections'', sections_value (ss_sections s)), (''libraryFingerprint'', bytes_value (ss_library_fingerprint s)),
      (''stateFingerprint'', bytes_value (ss_state_fingerprint s))]"

definition state_from :: "json \<Rightarrow> sync_state option" where
  "state_from v =
     (case doc_fields [''schema'', ''stateId'', ''repositoryId'', ''libraryId'', ''epoch'', ''generation'', ''parentStateId'',
             ''authorWriterId'', ''createdAtMs'', ''library'', ''sections'', ''libraryFingerprint'', ''stateFingerprint''] v of
        Some [s, i, r, l, e, g, p, a, t, lib, secs, lf, sf] \<Rightarrow>
          (case (as_string s, as_string i, as_string r, as_string l, as_string e, sequence_from_json g, as_opt_string p) of
             (Some s, Some i, Some r, Some l, Some e, Some g, Some p) \<Rightarrow>
               (case (as_string a, control_from t, library_from lib, sections_from secs, as_array 32 lf, as_array 32 sf) of
                  (Some a, Some t, Some lib, Some secs, Some lf, Some sf) \<Rightarrow>
                    Some \<lparr>ss_schema = s, ss_state_id = i, ss_repository = r, ss_library_id = l, ss_epoch = e,
                          ss_generation = g, ss_parent = p, ss_author = a, ss_created = t, ss_library = lib,
                          ss_sections = secs, ss_library_fingerprint = lf, ss_state_fingerprint = sf\<rparr>
                | _ \<Rightarrow> None)
           | _ \<Rightarrow> None)
      | _ \<Rightarrow> None)"

definition bad_id :: "nat \<Rightarrow> string \<Rightarrow> bool" where
  "bad_id limit s \<longleftrightarrow> s = [] \<or> length s > limit"

definition state_section :: "ext \<Rightarrow> string \<Rightarrow> string \<times> section_ref \<Rightarrow> unit formatted" where
  "state_section X repository = (\<lambda>(i, s).
     bindE (section_ref_validate X repository i s) (\<lambda>_.
     if \<not> is_synchronizable (sr_kind s) then failed ''section-not-synchronizable'' else Inr ()))"

definition state_validate :: "ext \<Rightarrow> (bytes \<Rightarrow> digest) \<Rightarrow> sync_state \<Rightarrow> unit formatted" where
  "state_validate X H s =
     (if ss_schema s \<noteq> STATE_SCHEMA \<or> bad_id 1024 (ss_state_id s) \<or> bad_id 128 (ss_repository s)
         \<or> bad_id 1024 (ss_library_id s) \<or> bad_id 1024 (ss_epoch s) \<or> bad_id 1024 (ss_author s)
         \<or> (case ss_parent s of None \<Rightarrow> False | Some i \<Rightarrow> bad_id 1024 i)
      then failed ''invalid-state''
      else
        bindE (library_validate X (ss_repository s) (ss_library s)) (\<lambda>_.
        if ss_library_fingerprint s \<noteq> lr_fingerprint (ss_library s) then failed ''invalid-state-library''
        else
          bindE (foldE (\<lambda>_. state_section X (ss_repository s)) () (ss_sections s)) (\<lambda>_.
          if ss_state_fingerprint s \<noteq> state_fingerprint X H (ss_library_fingerprint s) (ss_sections s)
          then failed ''invalid-state-fingerprint'' else Inr ())))"

definition state_new ::
  "ext \<Rightarrow> (bytes \<Rightarrow> digest) \<Rightarrow> string \<Rightarrow> string \<Rightarrow> string \<Rightarrow> string \<Rightarrow> sequence \<Rightarrow> string option \<Rightarrow> string \<Rightarrow> u64
    \<Rightarrow> library_ref \<Rightarrow> section_refs \<Rightarrow> sync_state formatted" where
  "state_new X H state_id repository library_id epoch generation parent author created lib ss =
     (let s = \<lparr>ss_schema = STATE_SCHEMA, ss_state_id = state_id, ss_repository = repository, ss_library_id = library_id,
               ss_epoch = epoch, ss_generation = generation, ss_parent = parent, ss_author = author,
               ss_created = created, ss_library = lib, ss_sections = ss,
               ss_library_fingerprint = lr_fingerprint lib,
               ss_state_fingerprint = state_fingerprint X H (lr_fingerprint lib) ss\<rparr> in
      bindE (state_validate X H s) (\<lambda>_. Inr s))"

definition state_encode :: "ext \<Rightarrow> (bytes \<Rightarrow> digest) \<Rightarrow> nat \<Rightarrow> sync_state \<Rightarrow> bytes formatted" where
  "state_encode X H max_bytes s =
     bindE (state_validate X H s) (\<lambda>_.
     let bs = json_text X (state_value s) in
     if length bs > min max_bytes SNAPSHOT_METADATA_BYTES then failed ''state-limit-exceeded'' else Inr bs)"

definition state_decode :: "ext \<Rightarrow> (bytes \<Rightarrow> digest) \<Rightarrow> nat \<Rightarrow> bytes \<Rightarrow> sync_state formatted" where
  "state_decode X H max_bytes bs =
     (if length bs > min max_bytes SNAPSHOT_METADATA_BYTES then failed ''state-limit-exceeded''
      else
        bindE (ok_or (Option.bind (from_slice X bs) state_from) (FormatError ''invalid-state'')) (\<lambda>s.
        bindE (state_validate X H s) (\<lambda>_.
        bindE (state_encode X H max_bytes s) (\<lambda>again.
        if again \<noteq> bs then failed ''non-canonical-state'' else Inr s))))"

section \<open>Lemmas\<close>

lemma hex_encode_inj: "hex_encode a = hex_encode b \<Longrightarrow> a = b"
proof -
  assume "hex_encode a = hex_encode b"
  moreover have "hex_decode (hex_encode a) = Some a" for a
    using hex_encode_lower [of a] lower_id [OF hex_encode_lower [of a]]
    by (auto simp: hex_decode_iff list_all_iff is_lower_hex_def is_ascii_hexdigit_def)
  ultimately show "a = b" by (metis option.inject)
qed

definition library_wf :: "library_ref \<Rightarrow> bool" where
  "library_wf l \<longleftrightarrow> stored_wf (lr_records l) \<and> stored_wf (lr_assets l) \<and> length (lr_fingerprint l) = 32"

definition section_ref_wf :: "section_ref \<Rightarrow> bool" where
  "section_ref_wf s \<longleftrightarrow> sequence_wf (sr_generation s) \<and> sequence_wf (sr_floor s) \<and> sequence_wf (sr_clock s)
     \<and> stored_wf (sr_root s) \<and> length (sr_fingerprint s) = 32"

definition sections_wf :: "section_refs \<Rightarrow> bool" where
  "sections_wf ss \<longleftrightarrow> bt_inv ss \<and> list_all (section_ref_wf \<circ> snd) ss"

definition state_wf :: "sync_state \<Rightarrow> bool" where
  "state_wf s \<longleftrightarrow> sequence_wf (ss_generation s) \<and> library_wf (ss_library s) \<and> sections_wf (ss_sections s)
     \<and> length (ss_library_fingerprint s) = 32 \<and> length (ss_state_fingerprint s) = 32"

lemma library_from_value [simp]: "library_wf l \<Longrightarrow> library_from (Some (library_value l)) = Some l"
  by (cases l) (simp add: library_wf_def stored_wf_def library_from_def library_value_def doc_fields_def struct_fields_def)

lemma section_ref_from_value [simp]: "section_ref_wf s \<Longrightarrow> section_ref_from (section_ref_value s) = Some s"
  by (cases s) (simp add: section_ref_wf_def stored_wf_def section_ref_from_def section_ref_value_def doc_fields_def
      struct_fields_def)

lemma sections_from_value [simp]: "sections_wf ss \<Longrightarrow> sections_from (Some (sections_value ss)) = Some ss"
proof -
  assume wf: "sections_wf ss"
  then have "those (map ((\<lambda>(i, v). map_option (Pair i) (section_ref_from v)) \<circ> (\<lambda>(i, s). (i, section_ref_value s))) ss) = Some ss"
    by (intro those_map_Some) (auto simp: sections_wf_def list_all_iff)
  moreover have "bt_collect ss = ss" using wf bt_inv_distinct by (intro bt_collect_permuted) (auto simp: sections_wf_def)
  ultimately show ?thesis by (simp add: sections_from_def sections_value_def)
qed

lemma state_from_value: "state_wf s \<Longrightarrow> state_from (state_value s) = Some s"
  by (cases s) (simp add: state_wf_def state_from_def state_value_def doc_fields_def struct_fields_def)

lemma state_encode_Inr:
  "state_encode X H m s = Inr bs \<longleftrightarrow>
     state_validate X H s = Inr () \<and> bs = json_text X (state_value s) \<and> length bs \<le> min m SNAPSHOT_METADATA_BYTES"
  by (auto simp: state_encode_def Let_def bindE_Inr)

lemma state_decode_Inr:
  "state_decode X H m bs = Inr s \<longleftrightarrow> length bs \<le> min m SNAPSHOT_METADATA_BYTES
     \<and> Option.bind (from_slice X bs) state_from = Some s \<and> state_validate X H s = Inr () \<and> state_encode X H m s = Inr bs"
  by (auto simp: state_decode_def bindE_Inr)

interpretation state: canonical_document
  "\<lambda>bs. Option.bind (from_slice X bs) state_from" "state_validate X H" "\<lambda>s. json_text X (state_value s)"
  "\<lambda>m bs. length bs \<le> min m SNAPSHOT_METADATA_BYTES" "state_encode X H" "state_decode X H" for X H
  by unfold_locales (auto simp: state_encode_Inr state_decode_Inr)

text \<open>What a fingerprint identifies of a section, and that it does.\<close>

definition section_mark :: "section_ref \<Rightarrow> digest \<times> sequence \<times> sequence \<times> sequence" where
  "section_mark s = (sr_fingerprint s, sr_generation s, sr_floor s, sr_clock s)"

definition marks :: "section_refs \<Rightarrow> (string \<times> digest \<times> sequence \<times> sequence \<times> sequence) list" where
  "marks ss = map (\<lambda>(i, s). (i, section_mark s)) ss"

lemma fingerprinted_section_eq: "fingerprinted_section s = fingerprinted_section t \<longleftrightarrow> section_mark s = section_mark t"
  by (auto simp: fingerprinted_section_def section_mark_def dest: hex_encode_inj intro: sequence.expand)

lemma fingerprinted_sections_eq:
  "map (\<lambda>(i, s). (i, fingerprinted_section s)) ss = map (\<lambda>(i, s). (i, fingerprinted_section s)) ts \<longleftrightarrow> marks ss = marks ts"
proof (induction ss arbitrary: ts)
  case Nil
  show ?case by (cases ts) (auto simp: marks_def)
next
  case (Cons p ss)
  then show ?case by (cases ts; cases p) (auto simp: marks_def fingerprinted_section_eq)
qed

lemma fingerprinted_state_eq:
  "fingerprinted_state d lib ss = fingerprinted_state e lib' ts \<longleftrightarrow> d = e \<and> lib = lib' \<and> marks ss = marks ts"
  unfolding fingerprinted_state_def using fingerprinted_sections_eq [of ss ts] by (auto dest: hex_encode_inj)

lemma reads_back_inj: "reads_back X v \<Longrightarrow> reads_back X w \<Longrightarrow> json_text X v = json_text X w \<longleftrightarrow> v = w"
  unfolding reads_back_def by (metis option.inject)

definition state_content :: "digest \<Rightarrow> section_refs \<Rightarrow> json" where
  "state_content lib ss = JObject (fingerprinted_state STATE_FINGERPRINT_DOMAIN lib ss)"

definition bundle_content :: "digest \<Rightarrow> section_refs \<Rightarrow> stored_object option \<Rightarrow> json" where
  "bundle_content lib ss units = JObject (fingerprinted_state BUNDLE_FINGERPRINT_DOMAIN lib ss
     @ [(''originalUnits'', case units of None \<Rightarrow> JNull | Some u \<Rightarrow> stored_value u)])"

text \<open>What a valid state holds.\<close>

definition catalog_object_ok :: "ext \<Rightarrow> string \<Rightarrow> stored_object \<Rightarrow> bool" where
  "catalog_object_ok X repository s \<longleftrightarrow>
     stored_validate X s = Inr () \<and> ph_repository (so_header s) = repository \<and> ph_role (so_header s) = Role_Catalog"

lemma catalog_object_Inr: "catalog_object X error repository s = Inr u \<longleftrightarrow> catalog_object_ok X repository s"
  by (auto simp: catalog_object_def catalog_object_ok_def bindE_Inr)

definition section_ref_ok :: "ext \<Rightarrow> string \<Rightarrow> string \<times> section_ref \<Rightarrow> bool" where
  "section_ref_ok X repository = (\<lambda>(i, s). i = section_id (sr_kind s) \<and> sr_codec s = SECTION_CODEC
     \<and> sr_floor s \<le> sr_generation s \<and> catalog_object_ok X repository (sr_root s))"

lemma section_parse_Inr: "section_parse i = Inr k \<longleftrightarrow> i = section_id k"
  by (cases k) (auto simp: section_parse_def)

lemma section_ref_validate_Inr: "section_ref_validate X repository i s = Inr u \<longleftrightarrow> section_ref_ok X repository (i, s)"
  by (auto simp: section_ref_validate_def section_ref_ok_def bindE_Inr section_parse_Inr catalog_object_Inr)

lemma state_section_Inr:
  "state_section X repository p = Inr u \<longleftrightarrow> section_ref_ok X repository p \<and> sr_kind (snd p) \<noteq> Local_Settings"
  by (cases p) (auto simp: state_section_def bindE_Inr section_ref_validate_Inr is_synchronizable_def)

lemma state_sections_Inr:
  "foldE (\<lambda>_. state_section X repository) () ss = Inr u \<longleftrightarrow>
     list_all (\<lambda>p. section_ref_ok X repository p \<and> sr_kind (snd p) \<noteq> Local_Settings) ss"
  by (induction ss) (auto simp: bindE_Inr state_section_Inr)

definition state_ok :: "ext \<Rightarrow> (bytes \<Rightarrow> digest) \<Rightarrow> sync_state \<Rightarrow> bool" where
  "state_ok X H s \<longleftrightarrow> ss_schema s = STATE_SCHEMA \<and> \<not> bad_id 1024 (ss_state_id s) \<and> \<not> bad_id 128 (ss_repository s)
     \<and> \<not> bad_id 1024 (ss_library_id s) \<and> \<not> bad_id 1024 (ss_epoch s) \<and> \<not> bad_id 1024 (ss_author s)
     \<and> (case ss_parent s of None \<Rightarrow> True | Some i \<Rightarrow> \<not> bad_id 1024 i)
     \<and> catalog_object_ok X (ss_repository s) (lr_records (ss_library s))
     \<and> catalog_object_ok X (ss_repository s) (lr_assets (ss_library s))
     \<and> ss_library_fingerprint s = lr_fingerprint (ss_library s)
     \<and> list_all (\<lambda>p. section_ref_ok X (ss_repository s) p \<and> sr_kind (snd p) \<noteq> Local_Settings) (ss_sections s)
     \<and> ss_state_fingerprint s = state_fingerprint X H (ss_library_fingerprint s) (ss_sections s)"

lemma state_validate_Inr: "state_validate X H s = Inr () \<longleftrightarrow> state_ok X H s"
proof -
  have "state_validate X H s = Inr () \<longleftrightarrow>
      \<not> (ss_schema s \<noteq> STATE_SCHEMA \<or> bad_id 1024 (ss_state_id s) \<or> bad_id 128 (ss_repository s)
         \<or> bad_id 1024 (ss_library_id s) \<or> bad_id 1024 (ss_epoch s) \<or> bad_id 1024 (ss_author s)
         \<or> (case ss_parent s of None \<Rightarrow> False | Some i \<Rightarrow> bad_id 1024 i))
      \<and> library_validate X (ss_repository s) (ss_library s) = Inr ()
      \<and> ss_library_fingerprint s = lr_fingerprint (ss_library s)
      \<and> foldE (\<lambda>_. state_section X (ss_repository s)) () (ss_sections s) = Inr ()
      \<and> ss_state_fingerprint s = state_fingerprint X H (ss_library_fingerprint s) (ss_sections s)"
    unfolding state_validate_def by (simp add: bindE_Inr split del: option.split)
  then show ?thesis
    by (simp add: state_ok_def state_sections_Inr library_validate_def bindE_Inr catalog_object_Inr)
      (auto split: option.splits)
qed

section \<open>Properties\<close>

text \<open>C37. Bytes decode to a state exactly when it is valid and they are its encoding: its catalogs belong
  to its repository, each section stands under its own name with a floor that is not past its
  generation, no section that is fixed to a device is among them, and the fingerprint is that of
  the library and the sections.\<close>

theorem state_bytes:
  assumes "state_wf s" and "reads_back X (state_value s)"
  shows "state_decode X H m bs = Inr s \<longleftrightarrow>
     state_ok X H s \<and> bs = json_text X (state_value s) \<and> length bs \<le> min m SNAPSHOT_METADATA_BYTES"
proof -
  have "Option.bind (from_slice X (json_text X (state_value s))) state_from = Some s"
    using assms by (simp add: reads_back_def state_from_value del: json_text.simps)
  from state.decode_iff_encode [OF this] show ?thesis
    by (simp only: state_encode_Inr state_validate_Inr) blast
qed

text \<open>C39. The text a fingerprint is the digest of tells states apart that differ in the library, or in
  the sections present, their contents, generations, floors or clocks, and nothing else; a backup
  bundle's text is never that of a state.\<close>

theorem fingerprints_tell_apart:
  assumes "reads_back X (state_content lib ss)" and "reads_back X (state_content lib' ts)"
    and "reads_back X (bundle_content lib' ts units)"
  shows "state_fingerprint X H lib ss = H (json_text X (state_content lib ss))
    \<and> bundle_fingerprint X H lib' ts units = H (json_text X (bundle_content lib' ts units))
    \<and> (json_text X (state_content lib ss) = json_text X (state_content lib' ts) \<longleftrightarrow> lib = lib' \<and> marks ss = marks ts)
    \<and> json_text X (state_content lib ss) \<noteq> json_text X (bundle_content lib' ts units)"
proof -
  have "json_text X (state_content lib ss) = json_text X (state_content lib' ts) \<longleftrightarrow> lib = lib' \<and> marks ss = marks ts"
    unfolding reads_back_inj [OF assms(1,2)] by (simp add: state_content_def fingerprinted_state_eq)
  moreover have "json_text X (state_content lib ss) \<noteq> json_text X (bundle_content lib' ts units)"
    unfolding reads_back_inj [OF assms(1,3)] by (simp add: state_content_def bundle_content_def fingerprinted_state_def)
  ultimately show ?thesis
    by (simp only: state_fingerprint_def bundle_fingerprint_def json_fingerprint_def state_content_def bundle_content_def) simp
qed

lemma fingerprints_tell_apart_witness:
  "let X = table_ext [state_content [] [], bundle_content [] [] None] in
     json_text X (state_content [] []) \<noteq> json_text X (bundle_content [] [] None)"
proof -
  let ?vs = "[state_content [] [], bundle_content [] [] None]"
  have "json_text (sample_ext JNull) (state_content [] []) \<noteq> json_text (sample_ext JNull) (bundle_content [] [] None)"
    by (simp add: state_content_def bundle_content_def fingerprinted_state_def join_def separator_def)
      (simp add: sample_ext_def quote_def as_bytes_def STATE_FINGERPRINT_DOMAIN_def BUNDLE_FINGERPRINT_DOMAIN_def)
  then have "reads_back (table_ext ?vs) (state_content [] [])" "reads_back (table_ext ?vs) (bundle_content [] [] None)"
    using table_reads_back [of ?vs "[]" "state_content [] []"]
      table_reads_back [of ?vs "[state_content [] []]" "bundle_content [] [] None" "[]"] by auto
  from fingerprints_tell_apart [OF this(1,1,2)] show ?thesis unfolding Let_def by blast
qed

text \<open>A state of a small repository.\<close>

definition sample_catalog_object :: stored_object where
  "sample_catalog_object = \<lparr>so_header = \<lparr>ph_schema = HEADER_SCHEMA, ph_repository = ''r'', ph_object = ''o'',
       ph_role = Role_Catalog, ph_length = 3\<rparr>,
     so_locator = \<lparr>wl_connection = ''c'', wl_collection = None, wl_object = ''o''\<rparr>,
     so_ciphertext_length = 202, so_ciphertext_sha256 = replicate 32 0, so_plaintext_length = 3,
     so_plaintext_sha256 = replicate 32 0\<rparr>"

lemma sample_catalog_object_ok: "stored_validate (sample_ext v) sample_catalog_object = Inr ()"
proof -
  let ?h = "so_header sample_catalog_object"
  have "length (json_text (sample_ext v) (header_value ?h)) = 113"
    by (simp add: header_value_def sample_catalog_object_def control_value_def HEADER_SCHEMA_def sample_ext_def quote_def
        as_bytes_def join_def separator_def decimal_string_def show_nat.simps)
  moreover have "header_validate ?h = Inr ()" by (simp add: header_validate_def sample_catalog_object_def)
  ultimately have e: "header_encode (sample_ext v) ?h = Inr (json_text (sample_ext v) (header_value ?h))"
    "length (json_text (sample_ext v) (header_value ?h)) = 113"
    unfolding header_encode_Inr by (simp_all add: MAX_PUBLIC_HEADER_BYTES_def)
  have "ciphertext_length 3 = Inr 81"
    by (simp add: ciphertext_length_def u64_div_ceil_def FRAME_BYTES_def TAG_BYTES_def FIXED_OVERHEAD_def checked_mul_def
        checked_add_def)
  moreover have "checked_add (121 :: u64) 81 = Some 202" by (simp add: checked_add_def)
  ultimately have "envelope_length (sample_ext v) ?h = Inr 202"
    using e by (simp add: envelope_length_def checked_add_def) (simp add: sample_catalog_object_def checked_add_def)
  then show ?thesis
    by (simp add: stored_validate_def) (simp add: sample_catalog_object_def header_validate_def locator_validate_def)
qed

definition sample_state :: sync_state where
  "sample_state = \<lparr>ss_schema = STATE_SCHEMA, ss_state_id = ''s'', ss_repository = ''r'', ss_library_id = ''l'',
     ss_epoch = ''e'', ss_generation = Sequence ''1'', ss_parent = None, ss_author = ''w'', ss_created = 1,
     ss_library = \<lparr>lr_records = sample_catalog_object, lr_assets = sample_catalog_object, lr_fingerprint = replicate 32 0\<rparr>,
     ss_sections = [], ss_library_fingerprint = replicate 32 0, ss_state_fingerprint = replicate 32 0\<rparr>"

lemma sample_lengths:
  "length (json_text (sample_ext v) (bytes_value (replicate 32 0))) \<le> 34"
  "length (json_text (sample_ext v) (stored_value sample_catalog_object)) \<le> 1000"
proof -
  show b: "length (json_text (sample_ext v) (bytes_value (replicate 32 0))) \<le> 34"
    using length_join [of "map (json_text (sample_ext v) \<circ> (\<lambda>b. JNumber (PosInt (ucast b)))) (replicate 32 (0 :: u8))"]
    by (simp add: bytes_value_def sample_ext_def quote_def o_def sum_list_replicate)
  have d: "decimal_string 202 = map digit_char [2, 0, 2]" "decimal_string 3 = [digit_char 3]"
    by (simp_all add: decimal_string_def show_nat.simps)
  have "length (json_text (sample_ext v) (header_value (so_header sample_catalog_object))) \<le> 200"
    by (simp add: header_value_def sample_catalog_object_def control_value_def d join_def separator_def)
      (simp add: sample_ext_def quote_def as_bytes_def HEADER_SCHEMA_def)
  moreover have "length (json_text (sample_ext v) (locator_value (so_locator sample_catalog_object))) \<le> 200"
    by (simp add: locator_value_def sample_catalog_object_def opt_value_def join_def separator_def)
      (simp add: sample_ext_def quote_def as_bytes_def)
  moreover have "so_ciphertext_length sample_catalog_object = 202" "so_plaintext_length sample_catalog_object = 3"
    "so_ciphertext_sha256 sample_catalog_object = replicate 32 0" "so_plaintext_sha256 sample_catalog_object = replicate 32 0"
    by (simp_all only: sample_catalog_object_def stored_object.simps)
  moreover have "length (json_text (sample_ext v) (control_value 202)) = 5" "length (json_text (sample_ext v) (control_value 3)) = 3"
    by (simp_all add: control_value_def d sample_ext_def quote_def)
  moreover have "length (to_vec (sample_ext v) (JString s)) = length s + 2" for s by (simp add: sample_ext_def quote_def)
  ultimately show "length (json_text (sample_ext v) (stored_value sample_catalog_object)) \<le> 1000"
    using b by (simp add: stored_value_def join_def separator_def)
qed

lemma sample_state_text: "length (json_text (sample_ext v) (state_value sample_state)) \<le> 10000"
proof -
  have q: "length (to_vec (sample_ext v) (JString s)) = length s + 2" "length (to_vec (sample_ext v) JNull) = 4" for s
    by (simp_all add: sample_ext_def quote_def as_bytes_def)
  have c: "length (json_text (sample_ext v) (control_value 1)) = 3"
    by (simp add: control_value_def q decimal_string_def show_nat.simps)
  have l: "length (json_text (sample_ext v) (library_value (ss_library sample_state))) \<le> 3000"
    using sample_lengths [of v] by (simp add: library_value_def sample_state_def join_def separator_def q)
  have "state_value sample_state = JObject
     [(''schema'', JString STATE_SCHEMA), (''stateId'', JString ''s''), (''repositoryId'', JString ''r''),
      (''libraryId'', JString ''l''), (''epoch'', JString ''e''), (''generation'', JString ''1''),
      (''parentStateId'', JNull), (''authorWriterId'', JString ''w''), (''createdAtMs'', control_value 1),
      (''library'', library_value (ss_library sample_state)), (''sections'', JObject []),
      (''libraryFingerprint'', bytes_value (replicate 32 0)), (''stateFingerprint'', bytes_value (replicate 32 0))]"
    by (simp only: state_value_def) (simp add: sample_state_def opt_value_def sections_value_def)
  then show ?thesis
    using l c sample_lengths(1) [of v] by (simp add: join_def separator_def q STATE_SCHEMA_def)
qed

lemma state_bytes_witness:
  "let X = sample_ext (state_value sample_state) in
     state_decode X sample_digest32 10000 (json_text X (state_value sample_state)) = Inr sample_state"
proof -
  let ?X = "sample_ext (state_value sample_state)"
  let ?bs = "json_text ?X (state_value sample_state)"
  have "state_ok ?X sample_digest32 sample_state"
    using sample_catalog_object_ok [of "state_value sample_state"]
    by (simp add: state_ok_def sample_state_def bad_id_def catalog_object_ok_def state_fingerprint_def json_fingerprint_def
        sample_digest32_def) (simp add: sample_catalog_object_def)
  moreover have "state_wf sample_state"
    by (simp add: state_wf_def sample_state_def sequence_wf_def library_wf_def stored_wf_def sections_wf_def
        sample_catalog_object_def plain_decimal_def is_ascii_digit_def)
  moreover have "reads_back ?X (state_value sample_state)" by (simp add: reads_back_def sample_ext_def)
  moreover have "length ?bs \<le> min 10000 SNAPSHOT_METADATA_BYTES"
    using sample_state_text [of "state_value sample_state"] by (simp add: SNAPSHOT_METADATA_BYTES_def)
  ultimately show ?thesis unfolding Let_def by (simp only: state_bytes)
qed

end
