(* ===== verification/Control_Documents.thy ===== *)
theory Control_Documents
  imports Sync_State
begin

text \<open>
  The encrypted control payloads of \<^verbatim>\<open>crates/external-storage-format/src/control.rs\<close>: heads, backup
  points and bundles, inventory pages and leases, each with its validation and its canonical JSON.
\<close>

definition HEAD_SCHEMA :: string where "HEAD_SCHEMA = ''risunest.external-head/v1''"
definition POINT_SCHEMA :: string where "POINT_SCHEMA = ''risunest.external-backup-point/v1''"
definition BUNDLE_SCHEMA :: string where "BUNDLE_SCHEMA = ''risunest.external-backup-bundle/v1''"
definition INVENTORY_SCHEMA :: string where "INVENTORY_SCHEMA = ''risunest.external-inventory-page/v1''"
definition LEASE_SCHEMA :: string where "LEASE_SCHEMA = ''risunest.external-lease/v1''"
definition MAX_CONTROL_BYTES :: nat where "MAX_CONTROL_BYTES = 64 * 1024"
definition MAX_INVENTORY_OBJECTS :: nat where "MAX_INVENTORY_OBJECTS = 128"
definition LEASE_TTL_MS :: u64 where "LEASE_TTL_MS = 60 * 60000"

definition control_fits :: "nat \<Rightarrow> bytes \<Rightarrow> bool" where
  "control_fits max_bytes bs \<longleftrightarrow> bs \<noteq> [] \<and> length bs \<le> min max_bytes MAX_CONTROL_BYTES"

definition control_encode :: "ext \<Rightarrow> json \<Rightarrow> nat \<Rightarrow> bytes formatted" where
  "control_encode X v max_bytes =
     (let bs = json_text X v in if \<not> control_fits max_bytes bs then failed ''control-limit-exceeded'' else Inr bs)"

definition control_decode :: "ext \<Rightarrow> (json \<Rightarrow> 'd option) \<Rightarrow> nat \<Rightarrow> bytes \<Rightarrow> string \<Rightarrow> 'd formatted" where
  "control_decode X from max_bytes bs error =
     (if \<not> control_fits max_bytes bs then failed ''control-limit-exceeded''
      else ok_or (Option.bind (from_slice X bs) from) (FormatError error))"

section \<open>Heads\<close>

record head_document =
  hd_schema :: string
  hd_repository :: string
  hd_library :: string
  hd_commit :: string
  hd_parent :: "string option"
  hd_fingerprint :: digest
  hd_state :: stored_object

definition head_value :: "head_document \<Rightarrow> json" where
  "head_value h = JObject
     [(''schema'', JString (hd_schema h)), (''repositoryId'', JString (hd_repository h)),
      (''libraryId'', JString (hd_library h)), (''commitId'', JString (hd_commit h)),
      (''parentCommitId'', opt_value (hd_parent h)), (''stateFingerprint'', bytes_value (hd_fingerprint h)),
      (''state'', stored_value (hd_state h))]"

definition head_from :: "json \<Rightarrow> head_document option" where
  "head_from v =
     (case doc_fields [''schema'', ''repositoryId'', ''libraryId'', ''commitId'', ''parentCommitId'', ''stateFingerprint'', ''state''] v of
        Some [s, r, l, c, p, f, st] \<Rightarrow>
          (case (as_string s, as_string r, as_string l, as_string c, as_opt_string p, as_array 32 f, stored_from st) of
             (Some s, Some r, Some l, Some c, Some p, Some f, Some st) \<Rightarrow>
               Some \<lparr>hd_schema = s, hd_repository = r, hd_library = l, hd_commit = c, hd_parent = p, hd_fingerprint = f,
                     hd_state = st\<rparr>
           | _ \<Rightarrow> None)
      | _ \<Rightarrow> None)"

definition head_validate :: "ext \<Rightarrow> head_document \<Rightarrow> unit formatted" where
  "head_validate X h =
     (if hd_schema h \<noteq> HEAD_SCHEMA \<or> bad_id 128 (hd_repository h) \<or> bad_id 1024 (hd_library h) \<or> bad_id 1024 (hd_commit h)
         \<or> (case hd_parent h of None \<Rightarrow> False | Some p \<Rightarrow> bad_id 1024 p)
      then failed ''invalid-head''
      else
        bindE (stored_validate X (hd_state h)) (\<lambda>_.
        if ph_role (so_header (hd_state h)) \<noteq> Role_Sync_State \<or> ph_repository (so_header (hd_state h)) \<noteq> hd_repository h
        then failed ''invalid-head-state'' else Inr ()))"

definition head_new ::
  "ext \<Rightarrow> string \<Rightarrow> string \<Rightarrow> string \<Rightarrow> string option \<Rightarrow> digest \<Rightarrow> stored_object \<Rightarrow> head_document formatted" where
  "head_new X repository lib commit_id parent fp st =
     (let h = \<lparr>hd_schema = HEAD_SCHEMA, hd_repository = repository, hd_library = lib, hd_commit = commit_id,
               hd_parent = parent, hd_fingerprint = fp, hd_state = st\<rparr> in
      bindE (head_validate X h) (\<lambda>_. Inr h))"

definition head_encode :: "ext \<Rightarrow> nat \<Rightarrow> head_document \<Rightarrow> bytes formatted" where
  "head_encode X max_bytes h = control_encode X (head_value h) max_bytes"

definition head_decode :: "ext \<Rightarrow> nat \<Rightarrow> bytes \<Rightarrow> head_document formatted" where
  "head_decode X max_bytes bs =
     bindE (control_decode X head_from max_bytes bs ''invalid-head'') (\<lambda>h.
     bindE (head_validate X h) (\<lambda>_.
     bindE (head_encode X max_bytes h) (\<lambda>again.
     if again \<noteq> bs then failed ''non-canonical-head'' else Inr h)))"

section \<open>Backup points\<close>

datatype point_kind = Point_Backup | Point_History | Point_Manual

fun point_kind_name :: "point_kind \<Rightarrow> string" where
  "point_kind_name Point_Backup = ''backup''"
| "point_kind_name Point_History = ''history''"
| "point_kind_name Point_Manual = ''manual''"

definition point_kinds :: "(string \<times> point_kind) list" where
  "point_kinds = [(''backup'', Point_Backup), (''history'', Point_History), (''manual'', Point_Manual)]"

record point_document =
  bp_schema :: string
  bp_repository :: string
  bp_id :: string
  bp_kind :: point_kind
  bp_created :: u64
  bp_bundle :: stored_object

definition point_value :: "point_document \<Rightarrow> json" where
  "point_value p = JObject
     [(''schema'', JString (bp_schema p)), (''repositoryId'', JString (bp_repository p)), (''pointId'', JString (bp_id p)),
      (''kind'', JString (point_kind_name (bp_kind p))), (''createdAtMs'', control_value (bp_created p)),
      (''bundle'', stored_value (bp_bundle p))]"

definition point_from :: "json \<Rightarrow> point_document option" where
  "point_from v =
     (case doc_fields [''schema'', ''repositoryId'', ''pointId'', ''kind'', ''createdAtMs'', ''bundle''] v of
        Some [s, r, i, k, t, b] \<Rightarrow>
          (case (as_string s, as_string r, as_string i, enum_from point_kinds k, control_from t, stored_from b) of
             (Some s, Some r, Some i, Some k, Some t, Some b) \<Rightarrow>
               Some \<lparr>bp_schema = s, bp_repository = r, bp_id = i, bp_kind = k, bp_created = t, bp_bundle = b\<rparr>
           | _ \<Rightarrow> None)
      | _ \<Rightarrow> None)"

definition point_validate :: "ext \<Rightarrow> point_document \<Rightarrow> unit formatted" where
  "point_validate X p =
     (if bp_schema p \<noteq> POINT_SCHEMA \<or> bad_id 128 (bp_repository p) \<or> bad_id 1024 (bp_id p)
      then failed ''invalid-backup-point''
      else
        bindE (stored_validate X (bp_bundle p)) (\<lambda>_.
        if ph_role (so_header (bp_bundle p)) \<noteq> Role_Backup_Bundle
           \<or> ph_repository (so_header (bp_bundle p)) \<noteq> bp_repository p
        then failed ''invalid-backup-point-bundle'' else Inr ()))"

definition point_single ::
  "ext \<Rightarrow> string \<Rightarrow> string \<Rightarrow> point_kind \<Rightarrow> u64 \<Rightarrow> stored_object \<Rightarrow> point_document formatted" where
  "point_single X repository i kind created bundle =
     (let p = \<lparr>bp_schema = POINT_SCHEMA, bp_repository = repository, bp_id = i, bp_kind = kind, bp_created = created,
               bp_bundle = bundle\<rparr> in
      bindE (point_validate X p) (\<lambda>_. Inr p))"

definition point_bundles :: "point_document \<Rightarrow> stored_object list" where
  "point_bundles p = [bp_bundle p]"

definition point_encode :: "ext \<Rightarrow> nat \<Rightarrow> point_document \<Rightarrow> bytes formatted" where
  "point_encode X max_bytes p = control_encode X (point_value p) max_bytes"

definition point_decode :: "ext \<Rightarrow> nat \<Rightarrow> bytes \<Rightarrow> point_document formatted" where
  "point_decode X max_bytes bs =
     bindE (control_decode X point_from max_bytes bs ''invalid-backup-point'') (\<lambda>p.
     bindE (point_validate X p) (\<lambda>_.
     bindE (point_encode X max_bytes p) (\<lambda>again.
     if again \<noteq> bs then failed ''non-canonical-backup-point'' else Inr p)))"

section \<open>Backup bundles\<close>

datatype bundle_source = Source_Device string | Source_Sync_State string

fun source_value :: "bundle_source \<Rightarrow> json" where
  "source_value (Source_Device w) = JObject [(''kind'', JString ''device''), (''writer_id'', JString w)]"
| "source_value (Source_Sync_State c) = JObject [(''kind'', JString ''syncState''), (''commit_id'', JString c)]"

text \<open>An internally tagged enum whose variants admit unknown fields.\<close>

definition source_tag :: "json \<Rightarrow> (string \<times> json) option" where
  "source_tag v =
     (case v of
        JObject ps \<Rightarrow>
          (case filter (\<lambda>p. fst p = ''kind'') ps of
             [(_, JString t)] \<Rightarrow> Some (t, JObject (filter (\<lambda>p. fst p \<noteq> ''kind'') ps))
           | _ \<Rightarrow> None)
      | JArray (JString t # vs) \<Rightarrow> Some (t, JArray vs)
      | _ \<Rightarrow> None)"

definition source_from :: "json option \<Rightarrow> bundle_source option" where
  "source_from m =
     (case Option.bind m source_tag of
        Some (t, v) \<Rightarrow>
          if t = ''device'' then
            (case loose_fields [''writer_id''] v of Some [w] \<Rightarrow> map_option Source_Device (as_string w) | _ \<Rightarrow> None)
          else if t = ''syncState'' then
            (case loose_fields [''commit_id''] v of Some [c] \<Rightarrow> map_option Source_Sync_State (as_string c) | _ \<Rightarrow> None)
          else None
      | None \<Rightarrow> None)"

definition source_validate :: "bundle_source \<Rightarrow> unit formatted" where
  "source_validate s =
     (if bad_id 1024 (case s of Source_Device w \<Rightarrow> w | Source_Sync_State c \<Rightarrow> c) then failed ''invalid-bundle-source''
      else Inr ())"

record bundle_document =
  bd_schema :: string
  bd_repository :: string
  bd_id :: string
  bd_source :: bundle_source
  bd_captured :: u64
  bd_local_library :: "sequence option"
  bd_local_device :: "sequence option"
  bd_remote :: "sequence option"
  bd_included :: "string list"
  bd_library :: library_ref
  bd_sections :: section_refs
  bd_fingerprint :: digest
  bd_units :: "stored_object option"

definition opt_sequence_value :: "sequence option \<Rightarrow> json" where
  "opt_sequence_value m = opt_value (map_option seq_str m)"

definition opt_sequence_from :: "json option \<Rightarrow> sequence option option" where
  "opt_sequence_from m =
     (case m of None \<Rightarrow> Some None | Some JNull \<Rightarrow> Some None | _ \<Rightarrow> map_option Some (sequence_from_json m))"

definition bundle_value :: "bundle_document \<Rightarrow> json" where
  "bundle_value b = JObject
     [(''schema'', JString (bd_schema b)), (''repositoryId'', JString (bd_repository b)), (''bundleId'', JString (bd_id b)),
      (''source'', source_value (bd_source b)), (''capturedAtMs'', control_value (bd_captured b)),
      (''localLibraryRevision'', opt_sequence_value (bd_local_library b)),
      (''localDeviceRevision'', opt_sequence_value (bd_local_device b)),
      (''remoteGeneration'', opt_sequence_value (bd_remote b)), (''includedSections'', strings_value (bd_included b)),
      (''library'', library_value (bd_library b)), (''sections'', sections_value (bd_sections b)),
      (''bundleFingerprint'', bytes_value (bd_fingerprint b)),
      (''originalUnits'', case bd_units b of None \<Rightarrow> JNull | Some s \<Rightarrow> stored_value s)]"

text \<open>A field read with \<^verbatim>\<open>deserialize_with\<close> must be present.\<close>

definition original_units_from :: "json option \<Rightarrow> stored_object option option" where
  "original_units_from m =
     (case m of None \<Rightarrow> None | Some JNull \<Rightarrow> Some None | _ \<Rightarrow> map_option Some (stored_from m))"

definition bundle_from :: "json \<Rightarrow> bundle_document option" where
  "bundle_from v =
     (case doc_fields [''schema'', ''repositoryId'', ''bundleId'', ''source'', ''capturedAtMs'', ''localLibraryRevision'',
             ''localDeviceRevision'', ''remoteGeneration'', ''includedSections'', ''library'', ''sections'',
             ''bundleFingerprint'', ''originalUnits''] v of
        Some [s, r, i, src, t, ll, ld, rg, inc, lib, secs, f, u] \<Rightarrow>
          (case (as_string s, as_string r, as_string i, source_from src, control_from t, opt_sequence_from ll,
                 opt_sequence_from ld, opt_sequence_from rg) of
             (Some s, Some r, Some i, Some src, Some t, Some ll, Some ld, Some rg) \<Rightarrow>
               (case (as_strings inc, library_from lib, sections_from secs, as_array 32 f, original_units_from u) of
                  (Some inc, Some lib, Some secs, Some f, Some u) \<Rightarrow>
                    Some \<lparr>bd_schema = s, bd_repository = r, bd_id = i, bd_source = src, bd_captured = t,
                          bd_local_library = ll, bd_local_device = ld, bd_remote = rg, bd_included = inc,
                          bd_library = lib, bd_sections = secs, bd_fingerprint = f, bd_units = u\<rparr>
                | _ \<Rightarrow> None)
           | _ \<Rightarrow> None)
      | _ \<Rightarrow> None)"

definition units_validate :: "ext \<Rightarrow> string \<Rightarrow> bundle_source \<Rightarrow> stored_object option \<Rightarrow> unit formatted" where
  "units_validate X repository src units =
     (case (src, units) of
        (Source_Device _, Some root) \<Rightarrow> catalog_object X ''invalid-original-unit-catalog'' repository root
      | (Source_Sync_State _, None) \<Rightarrow> Inr ()
      | _ \<Rightarrow> failed ''invalid-original-unit-catalog'')"

definition included_step :: "string option \<Rightarrow> string \<Rightarrow> string option formatted" where
  "included_step previous i =
     (if (case previous of None \<Rightarrow> False | Some p \<Rightarrow> p \<ge> i) then failed ''invalid-included-sections''
      else bindE (section_parse i) (\<lambda>_. Inr (Some i)))"

definition bundle_validate :: "ext \<Rightarrow> (bytes \<Rightarrow> digest) \<Rightarrow> bundle_document \<Rightarrow> unit formatted" where
  "bundle_validate X H b =
     (if bd_schema b \<noteq> BUNDLE_SCHEMA \<or> bad_id 128 (bd_repository b) \<or> bad_id 1024 (bd_id b)
      then failed ''invalid-backup-bundle''
      else
        bindE (source_validate (bd_source b)) (\<lambda>_.
        bindE (units_validate X (bd_repository b) (bd_source b) (bd_units b)) (\<lambda>_.
        bindE (library_validate X (bd_repository b) (bd_library b)) (\<lambda>_.
        bindE (foldE included_step None (bd_included b)) (\<lambda>_.
        if length (bd_included b) \<noteq> length (bd_sections b)
           \<or> \<not> list_all (\<lambda>i. map_of (bd_sections b) i \<noteq> None) (bd_included b)
        then failed ''backup-bundle-coverage-mismatch''
        else
          bindE (foldE (\<lambda>_ (i, s). section_ref_validate X (bd_repository b) i s) () (bd_sections b)) (\<lambda>_.
          if bd_fingerprint b \<noteq> bundle_fingerprint X H (lr_fingerprint (bd_library b)) (bd_sections b) (bd_units b)
          then failed ''invalid-bundle-fingerprint'' else Inr ()))))))"

definition bundle_new ::
  "ext \<Rightarrow> (bytes \<Rightarrow> digest) \<Rightarrow> string \<Rightarrow> string \<Rightarrow> bundle_source \<Rightarrow> u64 \<Rightarrow> sequence option \<Rightarrow> sequence option
    \<Rightarrow> sequence option \<Rightarrow> library_ref \<Rightarrow> section_refs \<Rightarrow> stored_object option \<Rightarrow> bundle_document formatted" where
  "bundle_new X H repository i src captured local_library local_device remote lib ss units =
     (let b = \<lparr>bd_schema = BUNDLE_SCHEMA, bd_repository = repository, bd_id = i, bd_source = src, bd_captured = captured,
               bd_local_library = local_library, bd_local_device = local_device, bd_remote = remote,
               bd_included = map fst ss, bd_library = lib, bd_sections = ss,
               bd_fingerprint = bundle_fingerprint X H (lr_fingerprint lib) ss units, bd_units = units\<rparr> in
      bindE (bundle_validate X H b) (\<lambda>_. Inr b))"

definition bundle_encode :: "ext \<Rightarrow> nat \<Rightarrow> bundle_document \<Rightarrow> bytes formatted" where
  "bundle_encode X max_bytes b = control_encode X (bundle_value b) max_bytes"

definition bundle_decode :: "ext \<Rightarrow> (bytes \<Rightarrow> digest) \<Rightarrow> nat \<Rightarrow> bytes \<Rightarrow> bundle_document formatted" where
  "bundle_decode X H max_bytes bs =
     bindE (control_decode X bundle_from max_bytes bs ''invalid-backup-bundle'') (\<lambda>b.
     bindE (bundle_validate X H b) (\<lambda>_.
     bindE (bundle_encode X max_bytes b) (\<lambda>again.
     if again \<noteq> bs then failed ''non-canonical-backup-bundle'' else Inr b)))"

section \<open>Inventory pages\<close>

record inventory_entry =
  iv_object :: string
  iv_role :: object_role
  iv_ciphertext_length :: u64
  iv_ciphertext_sha256 :: digest
  iv_plaintext_length :: u64
  iv_plaintext_sha256 :: digest

definition inventory_value :: "inventory_entry \<Rightarrow> json" where
  "inventory_value e = JObject
     [(''objectId'', JString (iv_object e)), (''role'', JString (role_name (iv_role e))),
      (''ciphertextLength'', control_value (iv_ciphertext_length e)),
      (''ciphertextSha256'', bytes_value (iv_ciphertext_sha256 e)),
      (''plaintextLength'', control_value (iv_plaintext_length e)),
      (''plaintextSha256'', bytes_value (iv_plaintext_sha256 e))]"

definition inventory_from :: "json \<Rightarrow> inventory_entry option" where
  "inventory_from v =
     (case doc_fields [''objectId'', ''role'', ''ciphertextLength'', ''ciphertextSha256'', ''plaintextLength'', ''plaintextSha256''] v of
        Some [i, r, n, h, k, p] \<Rightarrow>
          (case (as_string i, enum_from role_names r, control_from n, as_array 32 h, control_from k, as_array 32 p) of
             (Some i, Some r, Some n, Some h, Some k, Some p) \<Rightarrow>
               Some \<lparr>iv_object = i, iv_role = r, iv_ciphertext_length = n, iv_ciphertext_sha256 = h,
                     iv_plaintext_length = k, iv_plaintext_sha256 = p\<rparr>
           | _ \<Rightarrow> None)
      | _ \<Rightarrow> None)"

definition inventory_validate :: "inventory_entry \<Rightarrow> unit formatted" where
  "inventory_validate e =
     (if bad_id 8192 (iv_object e) \<or> CHR 0x00 \<in> set (iv_object e) \<or> iv_ciphertext_length e = 0
         \<or> iv_role e \<notin> {Role_Pack, Role_Catalog, Role_Sync_State, Role_Backup_Bundle, Role_Backup_Point}
      then failed ''invalid-inventory-entry'' else Inr ())"

definition inventory_new ::
  "string \<Rightarrow> object_role \<Rightarrow> u64 \<Rightarrow> digest \<Rightarrow> u64 \<Rightarrow> digest \<Rightarrow> inventory_entry formatted" where
  "inventory_new i role n h k p =
     (let e = \<lparr>iv_object = i, iv_role = role, iv_ciphertext_length = n, iv_ciphertext_sha256 = h,
               iv_plaintext_length = k, iv_plaintext_sha256 = p\<rparr> in
      bindE (inventory_validate e) (\<lambda>_. Inr e))"

record inventory_page =
  ip_schema :: string
  ip_repository :: string
  ip_operation :: string
  ip_page :: string
  ip_objects :: "inventory_entry list"

definition inventory_page_value :: "inventory_page \<Rightarrow> json" where
  "inventory_page_value p = JObject
     [(''schema'', JString (ip_schema p)), (''repositoryId'', JString (ip_repository p)),
      (''operationId'', JString (ip_operation p)), (''pageId'', JString (ip_page p)),
      (''objects'', JArray (map inventory_value (ip_objects p)))]"

definition inventory_page_from :: "json \<Rightarrow> inventory_page option" where
  "inventory_page_from v =
     (case doc_fields [''schema'', ''repositoryId'', ''operationId'', ''pageId'', ''objects''] v of
        Some [s, r, i, p, es] \<Rightarrow>
          (case (as_string s, as_string r, as_string i, as_string p, as_list inventory_from es) of
             (Some s, Some r, Some i, Some p, Some es) \<Rightarrow>
               Some \<lparr>ip_schema = s, ip_repository = r, ip_operation = i, ip_page = p, ip_objects = es\<rparr>
           | _ \<Rightarrow> None)
      | _ \<Rightarrow> None)"

definition inventory_step :: "string option \<Rightarrow> inventory_entry \<Rightarrow> string option formatted" where
  "inventory_step previous e =
     bindE (inventory_validate e) (\<lambda>_.
     if (case previous of None \<Rightarrow> False | Some i \<Rightarrow> i \<ge> iv_object e) then failed ''invalid-inventory-order''
     else Inr (Some (iv_object e)))"

definition inventory_page_validate :: "inventory_page \<Rightarrow> unit formatted" where
  "inventory_page_validate p =
     (if ip_schema p \<noteq> INVENTORY_SCHEMA \<or> bad_id 128 (ip_repository p)
         \<or> bad_id 1024 (ip_operation p) \<or> CHR 0x00 \<in> set (ip_operation p)
         \<or> bad_id 1024 (ip_page p) \<or> CHR 0x00 \<in> set (ip_page p)
         \<or> ip_objects p = [] \<or> length (ip_objects p) > MAX_INVENTORY_OBJECTS
      then failed ''invalid-inventory-page''
      else bindE (foldE inventory_step None (ip_objects p)) (\<lambda>_. Inr ()))"

definition inventory_page_new ::
  "string \<Rightarrow> string \<Rightarrow> string \<Rightarrow> inventory_entry list \<Rightarrow> inventory_page formatted" where
  "inventory_page_new repository operation page objs =
     (let p = \<lparr>ip_schema = INVENTORY_SCHEMA, ip_repository = repository, ip_operation = operation, ip_page = page,
               ip_objects = objs\<rparr> in
      bindE (inventory_page_validate p) (\<lambda>_. Inr p))"

definition inventory_page_encode :: "ext \<Rightarrow> nat \<Rightarrow> inventory_page \<Rightarrow> bytes formatted" where
  "inventory_page_encode X max_bytes p =
     bindE (inventory_page_validate p) (\<lambda>_. control_encode X (inventory_page_value p) max_bytes)"

definition inventory_page_decode :: "ext \<Rightarrow> nat \<Rightarrow> bytes \<Rightarrow> inventory_page formatted" where
  "inventory_page_decode X max_bytes bs =
     bindE (control_decode X inventory_page_from max_bytes bs ''invalid-inventory-page'') (\<lambda>p.
     bindE (inventory_page_validate p) (\<lambda>_.
     bindE (inventory_page_encode X max_bytes p) (\<lambda>again.
     if again \<noteq> bs then failed ''non-canonical-inventory-page'' else Inr p)))"

section \<open>Leases\<close>

datatype lease_kind = Lease_Work | Lease_Cleanup | Lease_Deleting

fun lease_kind_name :: "lease_kind \<Rightarrow> string" where
  "lease_kind_name Lease_Work = ''work''"
| "lease_kind_name Lease_Cleanup = ''cleanup''"
| "lease_kind_name Lease_Deleting = ''deleting''"

definition lease_kinds :: "(string \<times> lease_kind) list" where
  "lease_kinds = [(''work'', Lease_Work), (''cleanup'', Lease_Cleanup), (''deleting'', Lease_Deleting)]"

record lease =
  le_schema :: string
  le_writer :: string
  le_job :: string
  le_kind :: lease_kind
  le_seq :: u64
  le_created :: u64
  le_expires :: u64

definition lease_value :: "lease \<Rightarrow> json" where
  "lease_value l = JObject
     [(''schema'', JString (le_schema l)), (''writerId'', JString (le_writer l)), (''jobId'', JString (le_job l)),
      (''kind'', JString (lease_kind_name (le_kind l))), (''seq'', control_value (le_seq l)),
      (''createdAtMs'', control_value (le_created l)), (''expiresAtMs'', control_value (le_expires l))]"

definition lease_from :: "json \<Rightarrow> lease option" where
  "lease_from v =
     (case doc_fields [''schema'', ''writerId'', ''jobId'', ''kind'', ''seq'', ''createdAtMs'', ''expiresAtMs''] v of
        Some [s, w, j, k, n, c, e] \<Rightarrow>
          (case (as_string s, as_string w, as_string j, enum_from lease_kinds k, control_from n, control_from c, control_from e) of
             (Some s, Some w, Some j, Some k, Some n, Some c, Some e) \<Rightarrow>
               Some \<lparr>le_schema = s, le_writer = w, le_job = j, le_kind = k, le_seq = n, le_created = c, le_expires = e\<rparr>
           | _ \<Rightarrow> None)
      | _ \<Rightarrow> None)"

definition lease_validate :: "lease \<Rightarrow> unit formatted" where
  "lease_validate l =
     (if le_schema l \<noteq> LEASE_SCHEMA \<or> bad_id 1024 (le_writer l) \<or> bad_id 1024 (le_job l)
         \<or> checked_sub (le_expires l) (le_created l) \<noteq> Some LEASE_TTL_MS
      then failed ''invalid-lease'' else Inr ())"

definition lease_new :: "string \<Rightarrow> string \<Rightarrow> lease_kind \<Rightarrow> u64 \<Rightarrow> u64 \<Rightarrow> lease formatted" where
  "lease_new writer job kind seq created =
     bindE (ok_or (checked_add created LEASE_TTL_MS) (FormatError ''invalid-lease-expiry'')) (\<lambda>expires.
     let l = \<lparr>le_schema = LEASE_SCHEMA, le_writer = writer, le_job = job, le_kind = kind, le_seq = seq,
             le_created = created, le_expires = expires\<rparr> in
     bindE (lease_validate l) (\<lambda>_. Inr l))"

definition lease_encode :: "ext \<Rightarrow> nat \<Rightarrow> lease \<Rightarrow> bytes formatted" where
  "lease_encode X max_bytes l = bindE (lease_validate l) (\<lambda>_. control_encode X (lease_value l) max_bytes)"

definition lease_decode :: "ext \<Rightarrow> nat \<Rightarrow> bytes \<Rightarrow> lease formatted" where
  "lease_decode X max_bytes bs =
     bindE (control_decode X lease_from max_bytes bs ''invalid-lease'') (\<lambda>l.
     bindE (lease_validate l) (\<lambda>_.
     bindE (lease_encode X max_bytes l) (\<lambda>again.
     if again \<noteq> bs then failed ''non-canonical-lease'' else Inr l)))"

section \<open>Every document is canonical\<close>

lemma control_encode_Inr: "control_encode X v m = Inr bs \<longleftrightarrow> bs = json_text X v \<and> control_fits m bs"
  by (auto simp: control_encode_def Let_def)

lemma control_decode_Inr:
  "control_decode X from m bs e = Inr d \<longleftrightarrow> control_fits m bs \<and> Option.bind (from_slice X bs) from = Some d"
  by (auto simp: control_decode_def)

lemmas document_simps = control_encode_Inr control_decode_Inr bindE_Inr

interpretation heads: canonical_document
  "\<lambda>bs. Option.bind (from_slice X bs) head_from" "head_validate X" "\<lambda>h. json_text X (head_value h)"
  control_fits "head_encode X" "head_decode X" for X
  by unfold_locales (auto simp: head_encode_def head_decode_def document_simps)

interpretation points: canonical_document
  "\<lambda>bs. Option.bind (from_slice X bs) point_from" "point_validate X" "\<lambda>p. json_text X (point_value p)"
  control_fits "point_encode X" "point_decode X" for X
  by unfold_locales (auto simp: point_encode_def point_decode_def document_simps)

interpretation bundles: canonical_document
  "\<lambda>bs. Option.bind (from_slice X bs) bundle_from" "bundle_validate X H" "\<lambda>b. json_text X (bundle_value b)"
  control_fits "bundle_encode X" "bundle_decode X H" for X H
  by unfold_locales (auto simp: bundle_encode_def bundle_decode_def document_simps)

interpretation inventories: canonical_document
  "\<lambda>bs. Option.bind (from_slice X bs) inventory_page_from" inventory_page_validate
  "\<lambda>p. json_text X (inventory_page_value p)" control_fits "inventory_page_encode X" "inventory_page_decode X" for X
  by unfold_locales (auto simp: inventory_page_encode_def inventory_page_decode_def document_simps)

interpretation leases: canonical_document
  "\<lambda>bs. Option.bind (from_slice X bs) lease_from" lease_validate "\<lambda>l. json_text X (lease_value l)"
  control_fits "lease_encode X" "lease_decode X" for X
  by unfold_locales (auto simp: lease_encode_def lease_decode_def document_simps)

section \<open>Lemmas\<close>

lemma point_kind_from_name [simp]: "map_of point_kinds (point_kind_name k) = Some k"
  by (cases k) (simp_all add: point_kinds_def)

lemma lease_kind_from_name [simp]: "map_of lease_kinds (lease_kind_name k) = Some k"
  by (cases k) (simp_all add: lease_kinds_def)

lemma lease_from_value: "lease_from (lease_value l) = Some l"
  by (cases l) (simp add: lease_from_def lease_value_def doc_fields_def struct_fields_def)

lemma lease_validate_Inr:
  "lease_validate l = Inr () \<longleftrightarrow> le_schema l = LEASE_SCHEMA \<and> \<not> bad_id 1024 (le_writer l) \<and> \<not> bad_id 1024 (le_job l)
     \<and> unat (le_expires l) = unat (le_created l) + 3600000"
proof -
  have ttl: "unat LEASE_TTL_MS = 3600000" by (simp add: LEASE_TTL_MS_def)
  have "checked_sub (le_expires l) (le_created l) = Some LEASE_TTL_MS
      \<longleftrightarrow> unat (le_expires l) = unat (le_created l) + 3600000"
  proof (cases "le_created l \<le> le_expires l")
    case True
    have "le_expires l - le_created l = LEASE_TTL_MS \<longleftrightarrow> unat (le_expires l) - unat (le_created l) = 3600000"
      unfolding word_unat_eq_iff unat_sub [OF True] ttl ..
    moreover have "unat (le_created l) \<le> unat (le_expires l)" using True by (simp add: word_le_nat_alt)
    ultimately show ?thesis using True by auto
  qed (auto simp: word_le_nat_alt)
  then show ?thesis by (auto simp: lease_validate_def)
qed

lemma lease_new_Inr:
  "lease_new writer job kind seq created = Inr l \<longleftrightarrow> lease_validate l = Inr () \<and> le_schema l = LEASE_SCHEMA
     \<and> le_writer l = writer \<and> le_job l = job \<and> le_kind l = kind \<and> le_seq l = seq \<and> le_created l = created"
  (is "_ \<longleftrightarrow> ?right")
proof
  assume "lease_new writer job kind seq created = Inr l"
  then show ?right by (auto simp: lease_new_def Let_def bindE_Inr)
next
  assume r: ?right
  have "unat (le_expires l) = unat created + unat LEASE_TTL_MS"
    using r by (simp add: lease_validate_Inr LEASE_TTL_MS_def)
  then have "checked_add created LEASE_TTL_MS = Some (le_expires l)" by (simp only: checked_add_Some)
  with r show "lease_new writer job kind seq created = Inr l"
    by (cases l) (simp add: lease_new_def)
qed

lemma source_from_value [simp]: "source_from (Some (source_value s)) = Some s"
  by (cases s) (simp_all add: source_from_def source_tag_def loose_fields_def)

lemma opt_sequence_from_value [simp]:
  "(case m of None \<Rightarrow> True | Some n \<Rightarrow> sequence_wf n) \<Longrightarrow> opt_sequence_from (Some (opt_sequence_value m)) = Some m"
  by (cases m) (simp_all add: opt_sequence_from_def opt_sequence_value_def opt_value_def)

definition bundle_wf :: "bundle_document \<Rightarrow> bool" where
  "bundle_wf b \<longleftrightarrow> (case bd_local_library b of None \<Rightarrow> True | Some n \<Rightarrow> sequence_wf n)
     \<and> (case bd_local_device b of None \<Rightarrow> True | Some n \<Rightarrow> sequence_wf n)
     \<and> (case bd_remote b of None \<Rightarrow> True | Some n \<Rightarrow> sequence_wf n)
     \<and> library_wf (bd_library b) \<and> sections_wf (bd_sections b) \<and> length (bd_fingerprint b) = 32
     \<and> (case bd_units b of None \<Rightarrow> True | Some u \<Rightarrow> stored_wf u)"

lemma bundle_from_value: "bundle_wf b \<Longrightarrow> bundle_from (bundle_value b) = Some b"
proof -
  assume wf: "bundle_wf b"
  then have "original_units_from (Some (case bd_units b of None \<Rightarrow> JNull | Some s \<Rightarrow> stored_value s)) = Some (bd_units b)"
    by (cases "bd_units b") (simp_all add: original_units_from_def bundle_wf_def stored_wf_def stored_value_def [abs_def]
        stored_from_value [unfolded stored_value_def])
  with wf show ?thesis
    by (cases b) (simp add: bundle_wf_def bundle_from_def bundle_value_def doc_fields_def struct_fields_def)
qed

lemma included_Inr:
  "(\<exists>q. foldE included_step None is = Inr q) \<longleftrightarrow> sorted_wrt (<) is \<and> list_all (\<lambda>i. \<exists>k. i = section_id k) is"
proof -
  have "included_step previous i = Inr q \<longleftrightarrow> (\<exists>k. i = section_id k) \<and> q = Some i
      \<and> (case previous of None \<Rightarrow> True | Some p \<Rightarrow> p < i)" for previous i q
    by (cases previous) (auto simp: included_step_def bindE_Inr section_parse_Inr not_le)
  from chained_loop [of included_step "\<lambda>i. \<exists>k. i = section_id k" "\<lambda>i. i" "(<)" None "is"] this
  have "(\<exists>q. foldE included_step None is = Inr q) \<longleftrightarrow> list_all (\<lambda>i. \<exists>k. i = section_id k) is \<and> successively (<) is" by simp
  also have "successively (<) is \<longleftrightarrow> sorted_wrt (<) is" by (rule successively_iff_sorted_wrt_strong) auto
  finally show ?thesis by blast
qed

lemma coverage:
  assumes "bt_inv ss" and "sorted_wrt (<) is"
  shows "length is = length ss \<and> list_all (\<lambda>i. map_of ss i \<noteq> None) is \<longleftrightarrow> is = map fst ss"
proof
  assume l: "length is = length ss \<and> list_all (\<lambda>i. map_of ss i \<noteq> None) is"
  have d: "distinct is" "distinct (map fst ss)" "sorted is" "sorted (map fst ss)"
    using assms by (auto simp: bt_inv_def strict_sorted_iff)
  from l have "set is \<subseteq> set (map fst ss)" by (auto simp: list_all_iff map_of_eq_None_iff)
  moreover have "card (set is) = card (set (map fst ss))"
    using l distinct_card [OF d(1)] distinct_card [OF d(2)] by simp
  ultimately have "set is = set (map fst ss)" by (intro card_subset_eq) auto
  with d show "is = map fst ss" by (intro sorted_distinct_set_unique) auto
next
  assume "is = map fst ss"
  then show "length is = length ss \<and> list_all (\<lambda>i. map_of ss i \<noteq> None) is"
    by (auto simp: list_all_iff map_of_eq_None_iff)
qed

text \<open>What a valid bundle is.\<close>

definition bundle_ok :: "ext \<Rightarrow> (bytes \<Rightarrow> digest) \<Rightarrow> bundle_document \<Rightarrow> bool" where
  "bundle_ok X H b \<longleftrightarrow> bd_schema b = BUNDLE_SCHEMA \<and> \<not> bad_id 128 (bd_repository b) \<and> \<not> bad_id 1024 (bd_id b)
     \<and> (case bd_source b of
          Source_Device w \<Rightarrow> \<not> bad_id 1024 w \<and> (case bd_units b of None \<Rightarrow> False | Some u \<Rightarrow> catalog_object_ok X (bd_repository b) u)
        | Source_Sync_State c \<Rightarrow> \<not> bad_id 1024 c \<and> bd_units b = None)
     \<and> catalog_object_ok X (bd_repository b) (lr_records (bd_library b))
     \<and> catalog_object_ok X (bd_repository b) (lr_assets (bd_library b))
     \<and> bd_included b = map fst (bd_sections b)
     \<and> list_all (section_ref_ok X (bd_repository b)) (bd_sections b)
     \<and> bd_fingerprint b = bundle_fingerprint X H (lr_fingerprint (bd_library b)) (bd_sections b) (bd_units b)"

lemma section_refs_Inr:
  "foldE (\<lambda>_ (i, s). section_ref_validate X repository i s) () ss = Inr u \<longleftrightarrow> list_all (section_ref_ok X repository) ss"
  by (induction ss) (auto simp: bindE_Inr section_ref_validate_Inr)

lemma bundle_validate_Inr:
  assumes "bt_inv (bd_sections b)"
  shows "bundle_validate X H b = Inr () \<longleftrightarrow> bundle_ok X H b"
proof -
  have "bundle_validate X H b = Inr () \<longleftrightarrow>
      \<not> (bd_schema b \<noteq> BUNDLE_SCHEMA \<or> bad_id 128 (bd_repository b) \<or> bad_id 1024 (bd_id b))
      \<and> source_validate (bd_source b) = Inr () \<and> units_validate X (bd_repository b) (bd_source b) (bd_units b) = Inr ()
      \<and> library_validate X (bd_repository b) (bd_library b) = Inr ()
      \<and> (\<exists>q. foldE included_step None (bd_included b) = Inr q)
      \<and> (length (bd_included b) = length (bd_sections b) \<and> list_all (\<lambda>i. map_of (bd_sections b) i \<noteq> None) (bd_included b))
      \<and> foldE (\<lambda>_ (i, s). section_ref_validate X (bd_repository b) i s) () (bd_sections b) = Inr ()
      \<and> bd_fingerprint b = bundle_fingerprint X H (lr_fingerprint (bd_library b)) (bd_sections b) (bd_units b)"
    unfolding bundle_validate_def by (simp add: bindE_Inr) blast
  also have "\<dots> \<longleftrightarrow> bundle_ok X H b"
  proof -
    have "sorted_wrt (<) (map fst (bd_sections b))" using assms by (simp add: bt_inv_def)
    moreover have "list_all (\<lambda>i. \<exists>k. i = section_id k) (map fst (bd_sections b))"
      if "list_all (section_ref_ok X (bd_repository b)) (bd_sections b)"
      using that unfolding list_all_iff section_ref_ok_def by force
    ultimately have inc: "(\<exists>q. foldE included_step None (bd_included b) = Inr q)
        \<and> (length (bd_included b) = length (bd_sections b) \<and> list_all (\<lambda>i. map_of (bd_sections b) i \<noteq> None) (bd_included b))
        \<longleftrightarrow> bd_included b = map fst (bd_sections b)" if "list_all (section_ref_ok X (bd_repository b)) (bd_sections b)"
      using that coverage [OF assms] unfolding included_Inr by metis
    have src: "source_validate (bd_source b) = Inr () \<and> units_validate X (bd_repository b) (bd_source b) (bd_units b) = Inr ()
        \<longleftrightarrow> (case bd_source b of
          Source_Device w \<Rightarrow> \<not> bad_id 1024 w \<and> (case bd_units b of None \<Rightarrow> False | Some u \<Rightarrow> catalog_object_ok X (bd_repository b) u)
        | Source_Sync_State c \<Rightarrow> \<not> bad_id 1024 c \<and> bd_units b = None)"
      by (cases "bd_source b"; cases "bd_units b") (auto simp: source_validate_def units_validate_def catalog_object_Inr)
    have lib: "library_validate X (bd_repository b) (bd_library b) = Inr () \<longleftrightarrow>
        catalog_object_ok X (bd_repository b) (lr_records (bd_library b))
        \<and> catalog_object_ok X (bd_repository b) (lr_assets (bd_library b))"
      by (simp add: library_validate_def bindE_Inr catalog_object_Inr)
    show ?thesis unfolding bundle_ok_def lib section_refs_Inr using inc src by blast
  qed
  finally show ?thesis .
qed


section \<open>Theorems\<close>

text \<open>C38. Bytes decode to a backup bundle exactly when it is valid and they are its encoding: the coverage
  it declares is the list of its sections' names in order, a device bundle carries the catalog of the
  device's own records and a bundle of a synchronized state carries none, every catalog belongs to its
  repository, and the fingerprint is that of the library, the sections and that catalog.\<close>

theorem bundle_bytes:
  assumes "bundle_wf b" and "reads_back X (bundle_value b)"
  shows "bundle_decode X H m bs = Inr b \<longleftrightarrow> bundle_ok X H b \<and> bs = json_text X (bundle_value b) \<and> control_fits m bs"
proof -
  have "Option.bind (from_slice X (json_text X (bundle_value b))) bundle_from = Some b"
    using assms by (simp add: reads_back_def bundle_from_value del: json_text.simps)
  from bundles.decode_iff_encode [OF this] show ?thesis
    using bundle_validate_Inr [of b] assms(1)
    by (simp only: bundle_encode_def control_encode_Inr bundle_wf_def sections_wf_def)
qed

text \<open>The bytes of a lease and the lease determine each other, and a lease, however it is made or read,
  lasts one hour from its creation, its end not wrapping past the largest time.\<close>

theorem lease_bytes:
  assumes "reads_back X (lease_value l)"
  shows "(lease_decode X m bs = Inr l \<longleftrightarrow>
      lease_new (le_writer l) (le_job l) (le_kind l) (le_seq l) (le_created l) = Inr l
      \<and> bs = json_text X (lease_value l) \<and> control_fits m bs)
    \<and> (if lease_decode X m bs = Inr l then unat (le_expires l) = unat (le_created l) + 3600000 else True)"
proof -
  have "Option.bind (from_slice X (json_text X (lease_value l))) lease_from = Some l"
    using assms by (simp add: reads_back_def lease_from_value del: json_text.simps)
  from leases.decode_iff_encode [OF this] have "lease_decode X m bs = Inr l \<longleftrightarrow>
      lease_validate l = Inr () \<and> bs = json_text X (lease_value l) \<and> control_fits m bs"
    by (simp only: lease_encode_def bindE_Inr control_encode_Inr) blast
  then show ?thesis by (simp only: lease_new_Inr lease_validate_Inr) auto
qed

lemma inventory_steps_Inr:
  "(\<exists>q. foldE inventory_step None es = Inr q)
    \<longleftrightarrow> list_all (\<lambda>e. inventory_validate e = Inr ()) es \<and> sorted_wrt (<) (map iv_object es)"
proof -
  have "inventory_step previous e = Inr q \<longleftrightarrow> inventory_validate e = Inr () \<and> q = Some (iv_object e)
      \<and> (case previous of None \<Rightarrow> True | Some p \<Rightarrow> p < iv_object e)" for previous e q
    by (cases previous) (auto simp: inventory_step_def bindE_Inr not_le)
  from chained_loop [of inventory_step "\<lambda>e. inventory_validate e = Inr ()" iv_object "\<lambda>p e. p < iv_object e" None es] this
  have "(\<exists>q. foldE inventory_step None es = Inr q) \<longleftrightarrow>
      list_all (\<lambda>e. inventory_validate e = Inr ()) es \<and> successively (\<lambda>d e. iv_object d < iv_object e) es" by simp
  also have "successively (\<lambda>d e. iv_object d < iv_object e) es \<longleftrightarrow> successively (<) (map iv_object es)"
    by (simp only: successively_map)
  also have "\<dots> \<longleftrightarrow> sorted_wrt (<) (map iv_object es)"
    by (rule successively_iff_sorted_wrt_strong) auto
  finally show ?thesis .
qed

text \<open>An inventory page is accepted exactly when it names its schema, repository, operation and page,
  and lists between one and 128 well-formed objects in strictly increasing order, so that none is
  listed twice.\<close>

theorem inventory_page_accepts:
  "inventory_page_validate p = Inr () \<longleftrightarrow>
     ip_schema p = INVENTORY_SCHEMA \<and> \<not> bad_id 128 (ip_repository p)
     \<and> \<not> bad_id 1024 (ip_operation p) \<and> CHR 0x00 \<notin> set (ip_operation p)
     \<and> \<not> bad_id 1024 (ip_page p) \<and> CHR 0x00 \<notin> set (ip_page p)
     \<and> ip_objects p \<noteq> [] \<and> length (ip_objects p) \<le> 128
     \<and> list_all (\<lambda>e. inventory_validate e = Inr ()) (ip_objects p) \<and> sorted_wrt (<) (map iv_object (ip_objects p))"
proof -
  have "inventory_page_validate p = Inr () \<longleftrightarrow>
     \<not> (ip_schema p \<noteq> INVENTORY_SCHEMA \<or> bad_id 128 (ip_repository p)
         \<or> bad_id 1024 (ip_operation p) \<or> CHR 0x00 \<in> set (ip_operation p)
         \<or> bad_id 1024 (ip_page p) \<or> CHR 0x00 \<in> set (ip_page p)
         \<or> ip_objects p = [] \<or> length (ip_objects p) > MAX_INVENTORY_OBJECTS)
     \<and> (\<exists>q. foldE inventory_step None (ip_objects p) = Inr q)"
    unfolding inventory_page_validate_def by (simp add: bindE_Inr) blast
  then show ?thesis unfolding inventory_steps_Inr MAX_INVENTORY_OBJECTS_def not_less de_Morgan_disj not_not by blast
qed

section \<open>Concrete inputs\<close>

definition sample_lease :: lease where
  "sample_lease = \<lparr>le_schema = LEASE_SCHEMA, le_writer = ''w'', le_job = ''j'', le_kind = Lease_Work, le_seq = 1,
     le_created = 5, le_expires = 3600005\<rparr>"

lemma lease_bytes_witness:
  "let X = sample_ext (lease_value sample_lease); bs = json_text X (lease_value sample_lease) in
     lease_decode X 1000 bs = Inr sample_lease"
proof -
  let ?X = "sample_ext (lease_value sample_lease)"
  have d: "decimal_string 1 = [digit_char 1]" "decimal_string 5 = [digit_char 5]"
    "decimal_string 3600005 = map digit_char [3, 6, 0, 0, 0, 0, 5]"
    by (simp_all add: decimal_string_def show_nat.simps)
  have "control_fits 1000 (json_text ?X (lease_value sample_lease))"
    by (simp add: lease_value_def sample_lease_def control_value_def d join_def separator_def control_fits_def)
      (simp add: sample_ext_def quote_def as_bytes_def LEASE_SCHEMA_def MAX_CONTROL_BYTES_def)
  moreover have "lease_new (le_writer sample_lease) (le_job sample_lease) (le_kind sample_lease) (le_seq sample_lease)
      (le_created sample_lease) = Inr sample_lease"
    by (simp add: lease_new_Inr lease_validate_Inr) (simp add: sample_lease_def bad_id_def)
  moreover have "reads_back ?X (lease_value sample_lease)" by (simp add: reads_back_def sample_ext_def)
  ultimately show ?thesis using lease_bytes [of ?X sample_lease] unfolding Let_def by simp
qed

definition sample_bundle :: bundle_document where
  "sample_bundle = \<lparr>bd_schema = BUNDLE_SCHEMA, bd_repository = ''r'', bd_id = ''b'', bd_source = Source_Sync_State ''c'',
     bd_captured = 1, bd_local_library = None, bd_local_device = None, bd_remote = None, bd_included = [],
     bd_library = ss_library sample_state, bd_sections = [], bd_fingerprint = replicate 32 0, bd_units = None\<rparr>"

lemma sample_bundle_text:
  "json_text (sample_ext v) (bundle_value sample_bundle) \<noteq> [] \<and>
   length (json_text (sample_ext v) (bundle_value sample_bundle)) \<le> 10000"
proof -
  have q: "length (to_vec (sample_ext v) (JString s)) = length s + 2" "length (to_vec (sample_ext v) JNull) = 4" for s
    by (simp_all add: sample_ext_def quote_def as_bytes_def)
  have c: "length (json_text (sample_ext v) (control_value 1)) = 3"
    by (simp add: control_value_def q decimal_string_def show_nat.simps)
  have l: "length (json_text (sample_ext v) (library_value (bd_library sample_bundle))) \<le> 3000"
    using sample_lengths [of v]
    by (simp add: library_value_def sample_bundle_def sample_state_def join_def separator_def q)
  have v: "bundle_value sample_bundle = JObject
     [(''schema'', JString BUNDLE_SCHEMA), (''repositoryId'', JString ''r''), (''bundleId'', JString ''b''),
      (''source'', JObject [(''kind'', JString ''syncState''), (''commit_id'', JString ''c'')]),
      (''capturedAtMs'', control_value 1),
      (''localLibraryRevision'', JNull), (''localDeviceRevision'', JNull), (''remoteGeneration'', JNull),
      (''includedSections'', JArray []),
      (''library'', library_value (bd_library sample_bundle)), (''sections'', JObject []),
      (''bundleFingerprint'', bytes_value (replicate 32 0)), (''originalUnits'', JNull)]"
    by (simp only: bundle_value_def) (simp add: sample_bundle_def opt_value_def opt_sequence_value_def sections_value_def strings_value_def)
  show ?thesis
    using l c sample_lengths(1) [of v] unfolding v by (simp add: join_def separator_def q BUNDLE_SCHEMA_def)
qed

lemma bundle_bytes_witness:
  "let X = sample_ext (bundle_value sample_bundle) in
     bundle_decode X sample_digest32 10000 (json_text X (bundle_value sample_bundle)) = Inr sample_bundle"
proof -
  let ?X = "sample_ext (bundle_value sample_bundle)"
  let ?bs = "json_text ?X (bundle_value sample_bundle)"
  have "bundle_ok ?X sample_digest32 sample_bundle"
    using sample_catalog_object_ok [of "bundle_value sample_bundle"]
    by (simp add: bundle_ok_def sample_bundle_def sample_state_def bad_id_def catalog_object_ok_def bundle_fingerprint_def
        json_fingerprint_def sample_digest32_def) (simp add: sample_catalog_object_def)
  moreover have "bundle_wf sample_bundle"
    by (simp add: bundle_wf_def sample_bundle_def sample_state_def library_wf_def stored_wf_def sections_wf_def
        sample_catalog_object_def)
  moreover have "reads_back ?X (bundle_value sample_bundle)" by (simp add: reads_back_def sample_ext_def)
  moreover have "control_fits 10000 ?bs"
    using sample_bundle_text [of "bundle_value sample_bundle"] by (simp only: control_fits_def MAX_CONTROL_BYTES_def) auto
  ultimately show ?thesis unfolding Let_def by (simp only: bundle_bytes)
qed

end
