(* ===== verification/Record_Keys.thy ===== *)
theory Record_Keys
  imports Records_Base
begin

text \<open>
  The keys of logical records, \<^verbatim>\<open>crates/external-storage-format/src/logical_records.rs\<close>: where a record
  stands in a library, and the text it is filed under.
\<close>

definition MAX_LOGICAL_RECORD_KEY_BYTES :: nat where "MAX_LOGICAL_RECORD_KEY_BYTES = 64 * 1024"

datatype locator =
    At_Root
  | At_Preset string
  | At_Plugin string string
  | At_Character string
  | At_Conversation string string
  | At_Asset string
  | At_Inlay string
  | At_Cold string

definition validate_component :: "string \<Rightarrow> string \<Rightarrow> bool \<Rightarrow> unit recorded" where
  "validate_component v description allow_empty =
     (if (\<not> allow_empty \<and> v = []) \<or> length v > MAX_LOGICAL_RECORD_KEY_BYTES
      then invalid (''invalid logical record '' @ description) else Inr ())"

definition validate_cold_logical_key :: "string \<Rightarrow> unit recorded" where
  "validate_cold_logical_key v =
     bindE (validate_component v ''logicalKey'' False) (\<lambda>_.
     if CHR 0x00 \<in> set v then invalid ''logical cold record key cannot contain NUL'' else Inr ())"

fun locator_parts :: "locator \<Rightarrow> (string \<times> string list) recorded" where
  "locator_parts At_Root = Inr (''root'', [])"
| "locator_parts (At_Preset p) =
     bindE (validate_component p ''presetId'' False) (\<lambda>_. Inr (''preset'', [p]))"
| "locator_parts (At_Plugin owner key) =
     bindE (validate_component owner ''owner'' False) (\<lambda>_.
     bindE (validate_component key ''storageKey'' True) (\<lambda>_. Inr (''plugin'', [owner, key])))"
| "locator_parts (At_Character c) =
     bindE (validate_component c ''characterId'' False) (\<lambda>_. Inr (''character'', [c]))"
| "locator_parts (At_Conversation c v) =
     bindE (validate_component c ''characterId'' False) (\<lambda>_.
     bindE (validate_component v ''conversationId'' False) (\<lambda>_. Inr (''conversation'', [c, v])))"
| "locator_parts (At_Asset k) =
     bindE (validate_component k ''logicalKey'' True) (\<lambda>_. Inr (''asset'', [k]))"
| "locator_parts (At_Inlay k) =
     bindE (validate_component k ''logicalKey'' True) (\<lambda>_. Inr (''inlay'', [k]))"
| "locator_parts (At_Cold k) =
     bindE (validate_cold_logical_key k) (\<lambda>_. Inr (''cold'', [k]))"

definition encode_logical_record_key :: "ext \<Rightarrow> locator \<Rightarrow> string recorded" where
  "encode_logical_record_key X loc =
     bindE (locator_parts loc) (\<lambda>(kind, components).
     let encoded =
       (if components = [] then ''r1:'' @ kind
        else ''r1:'' @ kind @ '':'' @ b64_encode X (json_text X (strings_value components))) in
     if length encoded > MAX_LOGICAL_RECORD_KEY_BYTES then invalid ''logical record key exceeds the encoded key limit''
     else Inr encoded)"

text \<open>\<^verbatim>\<open>str::split\<close> at a character.\<close>

fun split_on :: "char \<Rightarrow> string \<Rightarrow> string list" where
  "split_on c [] = [[]]"
| "split_on c (x # xs) =
     (if x = c then [] # split_on c xs
      else (case split_on c xs of [] \<Rightarrow> [[x]] | f # fs \<Rightarrow> (x # f) # fs))"

definition locator_of :: "string \<Rightarrow> string list \<Rightarrow> locator option" where
  "locator_of kind components =
     (case components of
        [a] \<Rightarrow>
          if kind = ''preset'' then Some (At_Preset a)
          else if kind = ''character'' then Some (At_Character a)
          else if kind = ''asset'' then Some (At_Asset a)
          else if kind = ''inlay'' then Some (At_Inlay a)
          else if kind = ''cold'' then Some (At_Cold a)
          else None
      | [a, b] \<Rightarrow>
          if kind = ''plugin'' then Some (At_Plugin a b)
          else if kind = ''conversation'' then Some (At_Conversation a b)
          else None
      | _ \<Rightarrow> None)"

definition decode_logical_record_key :: "ext \<Rightarrow> string \<Rightarrow> locator recorded" where
  "decode_logical_record_key X encoded =
     (if length encoded > MAX_LOGICAL_RECORD_KEY_BYTES then invalid ''logical record key exceeds the encoded key limit''
      else if encoded = ''r1:root'' then Inr At_Root
      else
        (case split_on CHR '':'' encoded of
           version # rest \<Rightarrow>
             if version \<noteq> ''r1'' then invalid ''logical record key prefix is invalid''
             else
               (case rest of
                  [] \<Rightarrow> invalid ''logical record key kind is missing''
                | [kind] \<Rightarrow> invalid ''logical record key components are missing''
                | kind # payload # others \<Rightarrow>
                    if others \<noteq> [] \<or> payload = [] then invalid ''logical record key format is invalid''
                    else
                      (case b64_decode X payload of
                         None \<Rightarrow> invalid ''logical record key components are not canonical base64url''
                       | Some bs \<Rightarrow>
                           (case as_strings (from_slice X bs) of
                              None \<Rightarrow> invalid ''logical record key components are invalid''
                            | Some components \<Rightarrow>
                                (case locator_of kind components of
                                   None \<Rightarrow> invalid ''logical record key kind or component arity is invalid''
                                 | Some loc \<Rightarrow>
                                     bindE (encode_logical_record_key X loc) (\<lambda>canonical.
                                     if canonical \<noteq> encoded then invalid ''logical record key is not canonical''
                                     else Inr loc)))))
         | [] \<Rightarrow> invalid ''logical record key prefix is invalid''))"

section \<open>Lemmas\<close>

lemma split_on_none: "c \<notin> set s \<Longrightarrow> split_on c s = [s]"
  by (induction s) auto

lemma split_on_first: "c \<notin> set s \<Longrightarrow> split_on c (s @ c # t) = s # split_on c t"
  by (induction s) auto

lemma locator_of_parts:
  "locator_parts loc = Inr (kind, components) \<Longrightarrow> components \<noteq> [] \<Longrightarrow> locator_of kind components = Some loc"
  by (cases loc) (auto simp: bindE_Inr locator_of_def)

lemma locator_kind: "locator_parts loc = Inr (kind, components) \<Longrightarrow> CHR '':'' \<notin> set kind"
  by (cases loc) (auto simp: bindE_Inr)

lemma locator_root: "locator_parts loc = Inr (kind, []) \<Longrightarrow> loc = At_Root \<and> kind = ''root''"
  by (cases loc) (auto simp: bindE_Inr)

lemma root_key: "encode_logical_record_key X At_Root = Inr ''r1:root''"
  by (simp add: encode_logical_record_key_def MAX_LOGICAL_RECORD_KEY_BYTES_def)

lemma root_only:
  assumes "encode_logical_record_key X loc = Inr ''r1:root''"
  shows "loc = At_Root"
proof -
  from assms obtain kind components where p: "locator_parts loc = Inr (kind, components)"
    by (auto simp: encode_logical_record_key_def bindE_Inr)
  show ?thesis
  proof (cases "components = []")
    case True
    then show ?thesis using locator_root p by blast
  next
    case False
    with assms p have "''root'' = kind @ '':'' @ b64_encode X (json_text X (strings_value components))"
      by (auto simp: encode_logical_record_key_def Let_def split: if_splits)
    then have "CHR '':'' \<in> set ''root''" by (metis append_Cons append_Nil in_set_conv_decomp)
    then show ?thesis by simp
  qed
qed

lemma decoded_key_encodes:
  "decode_logical_record_key X encoded = Inr loc \<Longrightarrow> encode_logical_record_key X loc = Inr encoded"
  by (auto simp: decode_logical_record_key_def bindE_Inr root_key split: if_splits list.splits option.splits)

text \<open>The components of a locator, whether or not they are valid.\<close>

fun locator_components :: "locator \<Rightarrow> string list" where
  "locator_components At_Root = []"
| "locator_components (At_Preset p) = [p]"
| "locator_components (At_Plugin owner key) = [owner, key]"
| "locator_components (At_Character c) = [c]"
| "locator_components (At_Conversation c v) = [c, v]"
| "locator_components (At_Asset k) = [k]"
| "locator_components (At_Inlay k) = [k]"
| "locator_components (At_Cold k) = [k]"

lemma locator_parts_components: "locator_parts loc = Inr (kind, components) \<Longrightarrow> components = locator_components loc"
  by (cases loc) (auto simp: bindE_Inr)

section \<open>Properties\<close>

text \<open>C36. Keys and locators determine each other: a text decodes to a locator exactly when it is the
  encoding of that locator, so that no two records share a key and no record has two. Of base64url
  it is used that what it encodes decodes, and that its text is not empty and has no colon.\<close>

theorem record_key_bytes:
  fixes loc X
  defines "payload \<equiv> json_text X (strings_value (locator_components loc))"
  assumes "from_slice X payload = Some (strings_value (locator_components loc))"
    and "b64_decode X (b64_encode X payload) = Some payload"
    and "b64_encode X payload \<noteq> []" and "CHR '':'' \<notin> set (b64_encode X payload)"
  shows "decode_logical_record_key X encoded = Inr loc \<longleftrightarrow> encode_logical_record_key X loc = Inr encoded"
proof
  assume e: "encode_logical_record_key X loc = Inr encoded"
  then obtain kind components where p: "locator_parts loc = Inr (kind, components)"
    by (auto simp: encode_logical_record_key_def bindE_Inr)
  have cs: "components = locator_components loc" using p by (rule locator_parts_components)
  have len: "\<not> length encoded > MAX_LOGICAL_RECORD_KEY_BYTES"
    using e p by (auto simp: encode_logical_record_key_def Let_def split: if_splits)
  show "decode_logical_record_key X encoded = Inr loc"
  proof (cases "encoded = ''r1:root''")
    case True
    then show ?thesis using e root_only len by (auto simp: decode_logical_record_key_def)
  next
    case False
    have some: "components \<noteq> []"
      using False e p locator_root [of loc kind] root_key [of X] by auto
    then have "encoded = ''r1'' @ CHR '':'' # (kind @ CHR '':'' # b64_encode X payload)"
      using e p by (auto simp: encode_logical_record_key_def Let_def payload_def cs split: if_splits)
    then have "split_on CHR '':'' encoded = [''r1'', kind, b64_encode X payload]"
      using locator_kind [OF p] assms(5) by (simp only: split_on_first split_on_none) (simp add: split_on_first split_on_none)
    then show ?thesis
      using False len assms(2-4) e locator_of_parts [OF p some] cs
      by (simp add: decode_logical_record_key_def)
  qed
qed (rule decoded_key_encodes)

lemma record_key_bytes_witness:
  "let X = sample_ext (strings_value [''c'', ''v'']) in
     case encode_logical_record_key X (At_Conversation ''c'' ''v'') of
       Inr key \<Rightarrow> decode_logical_record_key X key = Inr (At_Conversation ''c'' ''v'')
     | Inl _ \<Rightarrow> False"
proof -
  let ?X = "sample_ext (strings_value [''c'', ''v''])" and ?loc = "At_Conversation ''c'' ''v''"
  have t: "json_text ?X (strings_value [''c'', ''v'']) = map byte [CHR ''['', CHR 0x22, CHR ''c'', CHR 0x22, CHR '','',
      CHR 0x22, CHR ''v'', CHR 0x22, CHR '']'']"
    by (simp add: strings_value_def join_def separator_def sample_ext_def quote_def as_bytes_def)
  then have b: "b64_encode ?X (json_text ?X (strings_value [''c'', ''v''])) =
      [CHR ''['', CHR 0x22, CHR ''c'', CHR 0x22, CHR '','', CHR 0x22, CHR ''v'', CHR 0x22, CHR '']'']"
    by (simp add: t) (simp add: sample_ext_def char_of_def bit_Suc_0_iff)
  obtain key where key: "encode_logical_record_key ?X ?loc = Inr key"
    using b by (simp add: encode_logical_record_key_def validate_component_def MAX_LOGICAL_RECORD_KEY_BYTES_def Let_def)
  have "b64_decode ?X (b64_encode ?X (json_text ?X (strings_value [''c'', ''v'']))) =
      Some (json_text ?X (strings_value [''c'', ''v'']))"
    unfolding b unfolding t by (simp add: sample_ext_def as_bytes_def)
  moreover have "from_slice ?X (json_text ?X (strings_value [''c'', ''v''])) = Some (strings_value [''c'', ''v''])"
    by (simp add: sample_ext_def)
  ultimately have "decode_logical_record_key ?X key = Inr ?loc"
    using record_key_bytes [of ?X ?loc key] b key by simp
  with key show ?thesis by (simp add: Let_def)
qed

end
