(* ===== verification/Owner_Heads.thy ===== *)
theory Owner_Heads
  imports Record_Keys Sections Canonical_Document
begin

text \<open>
  Owner heads and the metadata of asset aliases, \<^verbatim>\<open>crates/external-storage-format/src/logical_records.rs\<close>:
  the manifest of assets a character, a module or a persona owns, and the sorted lists of heads that
  records carry.
\<close>

type_synonym i64 = "64 word"

text \<open>An \<^verbatim>\<open>i64\<close> as a number of \<^verbatim>\<open>serde_json\<close>, and a field of that type.\<close>

definition i64_value :: "i64 \<Rightarrow> json" where
  "i64_value n = JNumber (if sint n < 0 then NegInt n else PosInt n)"

definition as_i64 :: "json option \<Rightarrow> i64 option" where
  "as_i64 m =
     (case m of
        Some (JNumber (PosInt n)) \<Rightarrow> if unat n < 2 ^ 63 then Some n else None
      | Some (JNumber (NegInt n)) \<Rightarrow> Some n
      | _ \<Rightarrow> None)"

definition opt_i64_value :: "i64 option \<Rightarrow> json" where
  "opt_i64_value m = (case m of None \<Rightarrow> JNull | Some n \<Rightarrow> i64_value n)"

definition as_opt_i64 :: "json option \<Rightarrow> i64 option option" where
  "as_opt_i64 m = (case m of None \<Rightarrow> Some None | Some JNull \<Rightarrow> Some None | _ \<Rightarrow> map_option Some (as_i64 m))"

section \<open>The equality of JSON values\<close>

text \<open>Objects are compared as maps, whatever the order of their keys; numbers of different kinds differ.\<close>

definition number_eq :: "json_number \<Rightarrow> json_number \<Rightarrow> bool" where
  "number_eq a b \<longleftrightarrow> a = b \<or> (case (a, b) of (Float f, Float g) \<Rightarrow> is_zero f \<and> is_zero g | _ \<Rightarrow> False)"

function value_eq :: "json \<Rightarrow> json \<Rightarrow> bool" where
  "value_eq (JArray vs) v =
     (case v of JArray ws \<Rightarrow> length vs = length ws \<and> list_all (\<lambda>p. value_eq (fst p) (snd p)) (zip vs ws) | _ \<Rightarrow> False)"
| "value_eq (JObject ps) v =
     (case v of
        JObject qs \<Rightarrow>
          length ps = length qs
          \<and> list_all (\<lambda>p. case map_of qs (fst p) of None \<Rightarrow> False | Some w \<Rightarrow> value_eq (snd p) w) ps
      | _ \<Rightarrow> False)"
| "value_eq JNull v = (v = JNull)"
| "value_eq (JBool b) v = (v = JBool b)"
| "value_eq (JNumber n) v = (case v of JNumber k \<Rightarrow> number_eq n k | _ \<Rightarrow> False)"
| "value_eq (JString s) v = (v = JString s)"
  by pat_completeness auto
termination
  by (relation "measure (size \<circ> fst)") (auto intro: json_size_object size_list_estimation' simp: less_Suc_eq_le dest!: set_zip_leftD)

section \<open>Metadata of asset aliases\<close>

record alias_metadata =
  am_mime :: string
  am_name :: string
  am_ext :: string
  am_inlay_type :: "string option"
  am_width :: "i64 option"
  am_height :: "i64 option"
  am_metadata :: json

definition is_object :: "json \<Rightarrow> bool" where
  "is_object v \<longleftrightarrow> (case v of JObject _ \<Rightarrow> True | _ \<Rightarrow> False)"

definition alias_value :: "alias_metadata \<Rightarrow> json" where
  "alias_value m = JObject
     [(''mime'', JString (am_mime m)), (''name'', JString (am_name m)), (''ext'', JString (am_ext m)),
      (''inlayType'', opt_value (am_inlay_type m)), (''width'', opt_i64_value (am_width m)),
      (''height'', opt_i64_value (am_height m)), (''metadata'', am_metadata m)]"

definition alias_from :: "json \<Rightarrow> alias_metadata option" where
  "alias_from v =
     (case doc_fields [''mime'', ''name'', ''ext'', ''inlayType'', ''width'', ''height'', ''metadata''] v of
        Some [m, n, e, t, w, h, Some x] \<Rightarrow>
          (case (as_string m, as_string n, as_string e, as_opt_string t, as_opt_i64 w, as_opt_i64 h) of
             (Some m, Some n, Some e, Some t, Some w, Some h) \<Rightarrow>
               Some \<lparr>am_mime = m, am_name = n, am_ext = e, am_inlay_type = t, am_width = w, am_height = h, am_metadata = x\<rparr>
           | _ \<Rightarrow> None)
      | _ \<Rightarrow> None)"

definition alias_validate :: "alias_metadata \<Rightarrow> unit recorded" where
  "alias_validate m =
     (if \<not> is_object (am_metadata m) then invalid ''logical asset alias extension metadata must be an object''
      else if (case am_width m of None \<Rightarrow> False | Some w \<Rightarrow> sint w < 0)
         \<or> (case am_height m of None \<Rightarrow> False | Some h \<Rightarrow> sint h < 0)
      then invalid ''logical asset alias dimensions must be nonnegative''
      else if (case am_inlay_type m of
                 None \<Rightarrow> False | Some t \<Rightarrow> t \<notin> {''image'', ''video'', ''audio'', ''signature''})
      then invalid ''logical asset alias inlayType is invalid''
      else Inr ())"

definition encode_asset_alias_metadata :: "alias_metadata \<Rightarrow> json recorded" where
  "encode_asset_alias_metadata m = bindE (alias_validate m) (\<lambda>_. Inr (alias_value m))"

definition decode_asset_alias_metadata :: "json \<Rightarrow> alias_metadata recorded" where
  "decode_asset_alias_metadata v =
     bindE (ok_or (alias_from v) (RecordError ''logical asset alias metadata is invalid'')) (\<lambda>m.
     bindE (alias_validate m) (\<lambda>_.
     bindE (encode_asset_alias_metadata m) (\<lambda>again.
     if \<not> value_eq again v then invalid ''logical asset alias metadata is not canonical'' else Inr m)))"

section \<open>Owner heads\<close>

datatype owner = Owner_Character string | Owner_Root_Module string | Owner_Persona_Module string string

record owner_head =
  oh_owner :: owner
  oh_present :: bool
  oh_manifest :: "string option"
  oh_entries :: u64
  oh_index :: "u64 option"

definition head_validate_identity :: "owner_head \<Rightarrow> unit recorded" where
  "head_validate_identity h =
     bindE (case oh_owner h of
              Owner_Character c \<Rightarrow> validate_component c ''owner characterId'' False
            | Owner_Root_Module m \<Rightarrow> validate_component m ''owner moduleId'' False
            | Owner_Persona_Module p m \<Rightarrow>
                bindE (validate_component p ''owner personaId'' False) (\<lambda>_.
                validate_component m ''owner moduleId'' False)) (\<lambda>_.
     bindE (validate_safe_integer (oh_entries h) ''owner entry count'') (\<lambda>_.
     if oh_present h then validate_record_hash (case oh_manifest h of None \<Rightarrow> [] | Some m \<Rightarrow> m) ''owner manifest hash''
     else if oh_manifest h \<noteq> None \<or> oh_entries h \<noteq> 0 then invalid ''absent owner head cannot reference a manifest''
     else Inr ()))"

definition head_validate_full :: "owner_head \<Rightarrow> unit recorded" where
  "head_validate_full h =
     bindE (head_validate_identity h) (\<lambda>_.
     if oh_present h
     then bindE (ok_or (oh_index h) (RecordError ''present owner head requires propertyIndex''))
            (\<lambda>i. validate_safe_integer i ''owner property index'')
     else if oh_index h \<noteq> None then invalid ''absent owner head cannot contain propertyIndex''
     else Inr ())"

definition head_absent :: "owner \<Rightarrow> owner_head" where
  "head_absent owner = \<lparr>oh_owner = owner, oh_present = False, oh_manifest = None, oh_entries = 0, oh_index = None\<rparr>"

definition head_present :: "owner \<Rightarrow> string \<Rightarrow> u64 \<Rightarrow> u64 \<Rightarrow> owner_head recorded" where
  "head_present owner manifest entries property =
     (let h = \<lparr>oh_owner = owner, oh_present = True, oh_manifest = Some manifest, oh_entries = entries,
               oh_index = Some property\<rparr> in
      bindE (head_validate_full h) (\<lambda>_. Inr h))"

definition head_unpositioned :: "owner \<Rightarrow> string \<Rightarrow> u64 \<Rightarrow> owner_head recorded" where
  "head_unpositioned owner manifest entries =
     (let h = \<lparr>oh_owner = owner, oh_present = True, oh_manifest = Some manifest, oh_entries = entries,
               oh_index = None\<rparr> in
      bindE (head_validate_identity h) (\<lambda>_. Inr h))"

fun owner_storage_key :: "ext \<Rightarrow> owner \<Rightarrow> string" where
  "owner_storage_key X (Owner_Character c) = ''character-additional-assets:'' @ c"
| "owner_storage_key X (Owner_Root_Module m) = ''root-module-assets:'' @ m"
| "owner_storage_key X (Owner_Persona_Module p m) =
     ''persona-embedded-module-assets:'' @ text_of (json_text X (strings_value [p, m]))"

definition storage_key :: "ext \<Rightarrow> owner_head \<Rightarrow> string" where
  "storage_key X h = owner_storage_key X (oh_owner h)"

definition owner_head_step :: "ext \<Rightarrow> string option \<Rightarrow> owner_head \<Rightarrow> string option recorded" where
  "owner_head_step X previous h =
     bindE (head_validate_full h) (\<lambda>_.
     let key = storage_key X h in
     if (case previous of None \<Rightarrow> False | Some p \<Rightarrow> p \<ge> key)
     then invalid ''logical owner heads must be sorted and unique'' else Inr (Some key))"

definition validate_owner_heads :: "ext \<Rightarrow> owner_head list \<Rightarrow> unit recorded" where
  "validate_owner_heads X hs = bindE (foldE (owner_head_step X) None hs) (\<lambda>_. Inr ())"

subsection \<open>Their JSON\<close>

text \<open>Read inside another structure, the tag of an internally tagged enum may also be the number of
  its variant.\<close>

definition content_tag :: "string list \<Rightarrow> json \<Rightarrow> string option" where
  "content_tag names t =
     (case t of
        JString s \<Rightarrow> if s \<in> set names then Some s else None
      | JNumber (PosInt n) \<Rightarrow> if unat n < length names then Some (names ! unat n) else None
      | _ \<Rightarrow> None)"

definition content_variant :: "string list \<Rightarrow> json \<Rightarrow> (string \<times> json) option" where
  "content_variant names v =
     (case v of
        JObject ps \<Rightarrow>
          (case filter (\<lambda>p. fst p = ''kind'') ps of
             [(_, t)] \<Rightarrow> map_option (\<lambda>k. (k, JObject (filter (\<lambda>p. fst p \<noteq> ''kind'') ps))) (content_tag names t)
           | _ \<Rightarrow> None)
      | JArray (t # vs) \<Rightarrow> map_option (\<lambda>k. (k, JArray vs)) (content_tag names t)
      | _ \<Rightarrow> None)"

fun owner_value :: "owner \<Rightarrow> json" where
  "owner_value (Owner_Character c) =
     JObject [(''kind'', JString ''character-additional-assets''), (''characterId'', JString c)]"
| "owner_value (Owner_Root_Module m) =
     JObject [(''kind'', JString ''root-module-assets''), (''moduleId'', JString m)]"
| "owner_value (Owner_Persona_Module p m) =
     JObject [(''kind'', JString ''persona-embedded-module-assets''), (''personaId'', JString p), (''moduleId'', JString m)]"

definition owner_kinds :: "string list" where
  "owner_kinds = [''character-additional-assets'', ''root-module-assets'', ''persona-embedded-module-assets'']"

definition owner_from :: "json option \<Rightarrow> owner option" where
  "owner_from m =
     (case Option.bind m (content_variant owner_kinds) of
        Some (t, v) \<Rightarrow>
          if t = ''character-additional-assets'' then
            (case loose_fields [''characterId''] v of Some [c] \<Rightarrow> map_option Owner_Character (as_string c) | _ \<Rightarrow> None)
          else if t = ''root-module-assets'' then
            (case loose_fields [''moduleId''] v of Some [i] \<Rightarrow> map_option Owner_Root_Module (as_string i) | _ \<Rightarrow> None)
          else
            (case loose_fields [''personaId'', ''moduleId''] v of
               Some [p, i] \<Rightarrow>
                 (case (as_string p, as_string i) of (Some p, Some i) \<Rightarrow> Some (Owner_Persona_Module p i) | _ \<Rightarrow> None)
             | _ \<Rightarrow> None)
      | None \<Rightarrow> None)"

definition owner_head_value :: "owner_head \<Rightarrow> json" where
  "owner_head_value h = JObject
     ([(''owner'', owner_value (oh_owner h)), (''present'', JBool (oh_present h)),
       (''manifestHash'', opt_value (oh_manifest h)), (''entryCount'', control_value (oh_entries h))]
      @ (case oh_index h of None \<Rightarrow> [] | Some i \<Rightarrow> [(''propertyIndex'', control_value i)]))"

definition as_bool :: "json option \<Rightarrow> bool option" where
  "as_bool m = (case m of Some (JBool b) \<Rightarrow> Some b | _ \<Rightarrow> None)"

text \<open>\<^verbatim>\<open>control_integer::optional\<close>; the field has a default.\<close>

definition control_opt :: "json option \<Rightarrow> u64 option option" where
  "control_opt m = (case m of None \<Rightarrow> Some None | Some JNull \<Rightarrow> Some None | _ \<Rightarrow> map_option Some (control_from m))"

definition owner_head_fields :: "json \<Rightarrow> json option list option" where
  "owner_head_fields v =
     (case v of
        JArray vs \<Rightarrow>
          if length vs = 4 then Some (map Some vs @ [None])
          else if length vs = 5 then Some (map Some vs)
          else None
      | _ \<Rightarrow> loose_fields [''owner'', ''present'', ''manifestHash'', ''entryCount'', ''propertyIndex''] v)"

definition owner_head_from :: "json \<Rightarrow> owner_head option" where
  "owner_head_from v =
     (case owner_head_fields v of
        Some [w, p, m, n, i] \<Rightarrow>
          (case (owner_from w, as_bool p, as_opt_string m, control_from n, control_opt i) of
             (Some w, Some p, Some m, Some n, Some i) \<Rightarrow>
               Some \<lparr>oh_owner = w, oh_present = p, oh_manifest = m, oh_entries = n, oh_index = i\<rparr>
           | _ \<Rightarrow> None)
      | _ \<Rightarrow> None)"

section \<open>Lemmas\<close>

lemma i64_fields [simp]:
  "as_i64 (Some (i64_value n)) = Some n" "as_opt_i64 (Some (opt_i64_value m)) = Some m"
proof -
  have "unat n < 2 ^ 63" if "\<not> sint n < 0" for n :: i64
  proof (rule ccontr)
    assume "\<not> unat n < 2 ^ 63"
    then have "9223372036854775808 \<le> unat n" by simp
    then have "9223372036854775808 \<le> int (unat n)" by linarith
    then have "2 ^ 63 \<le> uint n" by simp
    moreover have "uint n < 2 ^ 64" using uint_lt2p [of n] by simp
    moreover have "sint n = (uint n + 2 ^ 63) mod 2 ^ 64 - 2 ^ 63"
      by (simp add: sint_uint signed_take_bit_eq_take_bit_shift take_bit_eq_mod)
    moreover have "(uint n + 2 ^ 63) mod 2 ^ 64 = uint n - 2 ^ 63"
    proof -
      have "uint n + 2 ^ 63 = (uint n - 2 ^ 63) + 2 ^ 64" by simp
      then have "(uint n + 2 ^ 63) mod 2 ^ 64 = (uint n - 2 ^ 63) mod 2 ^ 64" by (simp only: mod_add_self2)
      then show ?thesis using calculation(1,2) mod_pos_pos_trivial [of "uint n - 2 ^ 63" "2 ^ 64"] by simp
    qed
    ultimately show False using that by simp
  qed
  then show f: "as_i64 (Some (i64_value n)) = Some n" for n by (simp add: as_i64_def i64_value_def)
  show "as_opt_i64 (Some (opt_i64_value m)) = Some m"
    using f by (cases m) (simp_all add: as_opt_i64_def opt_i64_value_def i64_value_def)
qed

lemma owner_from_value [simp]: "owner_from (Some (owner_value w)) = Some w"
  by (cases w) (simp_all add: owner_from_def content_variant_def content_tag_def owner_kinds_def loose_fields_def)

lemma control_opt_fields [simp]: "control_opt (Some (control_value n)) = Some (Some n)" "control_opt None = Some None"
  by (simp_all add: control_opt_def control_value_def control_field [unfolded control_value_def])

lemma owner_head_from_value [simp]: "owner_head_from (owner_head_value h) = Some h"
  by (cases h; cases "oh_index h")
    (simp_all add: owner_head_from_def owner_head_fields_def owner_head_value_def loose_fields_def as_bool_def)

lemma validate_component_Inr [simp]:
  "validate_component v d e = Inr u \<longleftrightarrow> (e \<or> v \<noteq> []) \<and> length v \<le> MAX_LOGICAL_RECORD_KEY_BYTES"
  by (auto simp: validate_component_def)

text \<open>What a valid head is; only heads of archived characters may lack their position.\<close>

definition owner_ok :: "owner \<Rightarrow> bool" where
  "owner_ok w \<longleftrightarrow>
     (case w of Owner_Persona_Module p m \<Rightarrow> p \<noteq> [] \<and> length p \<le> MAX_LOGICAL_RECORD_KEY_BYTES | _ \<Rightarrow> True)
     \<and> (case w of Owner_Character i \<Rightarrow> i | Owner_Root_Module i \<Rightarrow> i | Owner_Persona_Module _ i \<Rightarrow> i) \<noteq> []
     \<and> length (case w of Owner_Character i \<Rightarrow> i | Owner_Root_Module i \<Rightarrow> i | Owner_Persona_Module _ i \<Rightarrow> i)
         \<le> MAX_LOGICAL_RECORD_KEY_BYTES"

definition identity_ok :: "owner_head \<Rightarrow> bool" where
  "identity_ok h \<longleftrightarrow> owner_ok (oh_owner h) \<and> unat (oh_entries h) < 2 ^ 53
     \<and> (if oh_present h then (case oh_manifest h of None \<Rightarrow> False | Some m \<Rightarrow> hash_ok m)
        else oh_manifest h = None \<and> oh_entries h = 0)"

definition positioned_ok :: "owner_head \<Rightarrow> bool" where
  "positioned_ok h \<longleftrightarrow> identity_ok h
     \<and> (case oh_index h of None \<Rightarrow> \<not> oh_present h | Some i \<Rightarrow> oh_present h \<and> unat i < 2 ^ 53)"

lemma safe_integer_unat: "n \<le> JAVASCRIPT_MAX_SAFE_INTEGER \<longleftrightarrow> unat n < 2 ^ 53"
  by (auto simp: word_le_nat_alt unat_safe)

lemma not_hash_empty [simp]: "\<not> hash_ok []"
  by (simp add: hash_ok_def)

lemma head_validate_identity_Inr: "head_validate_identity h = Inr () \<longleftrightarrow> identity_ok h"
  by (cases "oh_owner h"; cases "oh_manifest h")
    (auto simp: head_validate_identity_def identity_ok_def owner_ok_def bindE_Inr safe_integer_unat)

lemma head_validate_full_Inr: "head_validate_full h = Inr () \<longleftrightarrow> positioned_ok h"
  by (cases "oh_index h")
    (auto simp: head_validate_full_def positioned_ok_def head_validate_identity_Inr bindE_Inr safe_integer_unat)

lemma validate_owner_heads_Inr:
  "validate_owner_heads X hs = Inr () \<longleftrightarrow> list_all positioned_ok hs \<and> sorted_wrt (<) (map (storage_key X) hs)"
proof -
  have "owner_head_step X previous h = Inr q \<longleftrightarrow> positioned_ok h \<and> q = Some (storage_key X h)
      \<and> (case previous of None \<Rightarrow> True | Some p \<Rightarrow> p < storage_key X h)" for previous h q
    by (cases previous) (auto simp: owner_head_step_def bindE_Inr head_validate_full_Inr Let_def not_le)
  from chained_loop [of "owner_head_step X" positioned_ok "storage_key X" "\<lambda>p h. p < storage_key X h" None hs] this
  have "(\<exists>q. foldE (owner_head_step X) None hs = Inr q) \<longleftrightarrow>
      list_all positioned_ok hs \<and> successively (\<lambda>g h. storage_key X g < storage_key X h) hs" by simp
  also have "successively (\<lambda>g h. storage_key X g < storage_key X h) hs \<longleftrightarrow> successively (<) (map (storage_key X) hs)"
    by (simp only: successively_map)
  also have "\<dots> \<longleftrightarrow> sorted_wrt (<) (map (storage_key X) hs)"
    by (rule successively_iff_sorted_wrt_strong) auto
  finally show ?thesis by (simp add: validate_owner_heads_def bindE_Inr)
qed

text \<open>Values as \<^verbatim>\<open>serde_json\<close> holds them have no key twice in an object.\<close>

lemma index_insert_keys:
  "map fst (index_insert k v m) = (if k \<in> fst ` set m then map fst m else map fst m @ [k])"
  by (auto simp: index_insert_def map_of_eq_None_iff o_def case_prod_beta)

lemma index_collect_snoc: "index_collect (ps @ [p]) = index_insert (fst p) (snd p) (index_collect ps)"
  by (simp add: index_collect_def case_prod_beta)

lemma index_collect_distinct: "distinct (map fst (index_collect ps))"
proof (induction ps rule: rev_induct)
  case (snoc p ps)
  then show ?case by (simp add: index_collect_snoc index_insert_keys image_iff)
qed (simp add: index_collect_def)

lemma index_collect_id: "distinct (map fst ps) \<Longrightarrow> index_collect ps = ps"
proof (induction ps rule: rev_induct)
  case (snoc p ps)
  then show ?case by (auto simp: index_collect_snoc index_insert_def map_of_eq_None_iff)
qed (simp add: index_collect_def)

lemma value_tree_object:
  "value_tree (JObject ps) = JObject ps \<longleftrightarrow> distinct (map fst ps) \<and> list_all (\<lambda>p. value_tree (snd p) = snd p) ps"
proof
  let ?qs = "map (\<lambda>p. (fst p, value_tree (snd p))) ps"
  assume "value_tree (JObject ps) = JObject ps"
  then have c: "index_collect ?qs = ps" by simp
  then have d: "distinct (map fst ps)" using index_collect_distinct [of ?qs] by simp
  then have "?qs = ps" using index_collect_id [of ?qs] c by (simp add: o_def)
  then have "map (\<lambda>p. (fst p, value_tree (snd p))) ps = map id ps" by simp
  then have "\<forall>p\<in>set ps. (fst p, value_tree (snd p)) = p" unfolding map_eq_conv id_def .
  then show "distinct (map fst ps) \<and> list_all (\<lambda>p. value_tree (snd p) = snd p) ps"
    using d by (auto simp: list_all_iff prod_eq_iff)
next
  assume "distinct (map fst ps) \<and> list_all (\<lambda>p. value_tree (snd p) = snd p) ps"
  then have "map (\<lambda>p. (fst p, value_tree (snd p))) ps = ps" "distinct (map fst ps)"
    by (auto simp: list_all_iff intro!: map_idI)
  then show "value_tree (JObject ps) = JObject ps" by (simp add: index_collect_id)
qed

lemma value_eq_refl: "value_tree v = v \<Longrightarrow> value_eq v v"
proof (induction v)
  case (JArray vs)
  have "value_tree w = w" if "w \<in> set vs" for w using JArray.prems that by (auto simp: map_eq_conv [of _ _ id, simplified])
  then show ?case using JArray.IH by (auto simp: list_all_iff set_zip)
next
  case (JObject ps)
  then have d: "distinct (map fst ps)" "list_all (\<lambda>p. value_tree (snd p) = snd p) ps"
    unfolding value_tree_object by simp_all
  have "value_eq (snd p) (snd p)" if "p \<in> set ps" for p
    using JObject.IH [of p "snd p"] d(2) that by (auto simp: list_all_iff snds.simps)
  moreover have "map_of ps (fst p) = Some (snd p)" if "p \<in> set ps" for p using d(1) that by simp
  ultimately show ?case by (simp add: list_all_iff)
qed (simp_all add: number_eq_def)

lemma alias_from_value [simp]: "alias_from (alias_value m) = Some m"
  by (cases m) (simp add: alias_from_def alias_value_def doc_fields_def struct_fields_def)

section \<open>Properties\<close>

text \<open>Metadata that is valid, with no key twice anywhere, reads back from the value it is written as.\<close>

theorem alias_metadata_roundtrip:
  assumes "alias_validate m = Inr ()" and "value_tree (am_metadata m) = am_metadata m"
  shows "bindE (encode_asset_alias_metadata m) decode_asset_alias_metadata = Inr m"
proof -
  have "value_tree (alias_value m) = alias_value m"
    using assms(2) unfolding alias_value_def value_tree_object
    by (simp add: opt_value_def opt_i64_value_def i64_value_def split: option.split)
  then have "value_eq (alias_value m) (alias_value m)" by (rule value_eq_refl)
  then show ?thesis using assms(1)
    by (simp add: encode_asset_alias_metadata_def decode_asset_alias_metadata_def del: value_eq.simps)
qed

end
