(* ===== verification/Logical_Records.thy ===== *)
theory Logical_Records
  imports Owner_Heads
begin

text \<open>
  The records of a library as canonical JSON, \<^verbatim>\<open>crates/external-storage-format/src/logical_records.rs\<close>:
  the envelope with its validation and dependencies, its encoding, and the pages of messages. A
  \<^verbatim>\<open>serde_json::Value\<close> is a tree with no key twice in an object.
\<close>

definition LOGICAL_RECORD_SCHEMA :: string where "LOGICAL_RECORD_SCHEMA = ''risunest.logical-record/v1''"
definition LOGICAL_MESSAGE_PAGE_SCHEMA :: string where
  "LOGICAL_MESSAGE_PAGE_SCHEMA = ''risunest.logical-message-page/v1''"

section \<open>Envelopes\<close>

record archived =
  ar_index :: u64
  ar_recent :: i64
  ar_trashed :: bool
  ar_name :: string
  ar_image :: "string option"
  ar_type :: string
  ar_notes :: "string option"
  ar_trash_time :: "i64 option"
  ar_object :: string
  ar_shared_object :: string
  ar_object_size :: u64
  ar_archived_at :: u64
  ar_conversations :: u64
  ar_messages :: u64
  ar_assets :: "string list"
  ar_shared_assets :: "string list"
  ar_remap :: "json list"
  ar_heads :: "owner_head list"

record stored_payload =
  sp_object :: "string option"
  sp_size :: u64
  sp_metadata :: json

datatype envelope =
    Rec_Root json "owner_head list"
  | Rec_Preset u64 json
  | Rec_Plugin string u64 json
  | Rec_Character u64 json "owner_head list"
  | Rec_Archived archived
  | Rec_Conversation u64 i64 json "string list"
  | Rec_Asset stored_payload
  | Rec_Inlay stored_payload
  | Rec_Cold stored_payload

definition archived_hash_step :: "string option \<Rightarrow> string \<Rightarrow> string option recorded" where
  "archived_hash_step previous h =
     bindE (validate_record_hash h ''archived asset hash'') (\<lambda>_.
     if (case previous of None \<Rightarrow> False | Some p \<Rightarrow> p \<ge> h)
     then invalid ''archived asset hashes must be sorted and unique'' else Inr (Some h))"

definition archived_key_step :: "string \<Rightarrow> string \<Rightarrow> string recorded" where
  "archived_key_step previous key =
     (if previous \<ge> key then invalid ''logical owner heads must be sorted and unique'' else Inr key)"

definition archived_validate :: "ext \<Rightarrow> archived \<Rightarrow> unit recorded" where
  "archived_validate X a =
     bindE (validate_object_descriptor (ar_object a) (ar_object_size a)) (\<lambda>_.
     bindE (validate_record_hash (ar_shared_object a) ''shared archive object hash'') (\<lambda>_.
     bindE (validate_safe_integer (ar_archived_at a) ''archive timestamp'') (\<lambda>_.
     bindE (validate_safe_integer (ar_conversations a) ''archived conversation count'') (\<lambda>_.
     bindE (validate_safe_integer (ar_messages a) ''archived message count'') (\<lambda>_.
     bindE (foldE archived_hash_step None (ar_assets a)) (\<lambda>_.
     bindE (foldE archived_hash_step None (ar_shared_assets a)) (\<lambda>_.
     bindE (foldE (\<lambda>_ h. head_validate_identity h) () (ar_heads a)) (\<lambda>_.
     (case map (storage_key X) (ar_heads a) of
        [] \<Rightarrow> Inr ()
      | key # keys \<Rightarrow> bindE (foldE archived_key_step key keys) (\<lambda>_. Inr ()))))))))))"

definition payload_validate :: "stored_payload \<Rightarrow> unit recorded" where
  "payload_validate p =
     bindE (validate_safe_integer (sp_size p) ''object size'') (\<lambda>_.
     bindE (case sp_object p of None \<Rightarrow> Inr () | Some h \<Rightarrow> validate_object_descriptor h (sp_size p)) (\<lambda>_.
     if \<not> is_object (sp_metadata p) then invalid ''logical payload metadata must be an object'' else Inr ()))"

fun record_validate :: "ext \<Rightarrow> envelope \<Rightarrow> unit recorded" where
  "record_validate X (Rec_Root _ hs) = validate_owner_heads X hs"
| "record_validate X (Rec_Preset i _) = validate_safe_integer i ''configured index''"
| "record_validate X (Rec_Character i _ hs) =
     bindE (validate_safe_integer i ''configured index'') (\<lambda>_. validate_owner_heads X hs)"
| "record_validate X (Rec_Archived a) =
     bindE (validate_safe_integer (ar_index a) ''configured index'') (\<lambda>_. archived_validate X a)"
| "record_validate X (Rec_Conversation i _ _ pages) =
     bindE (validate_safe_integer i ''configured index'') (\<lambda>_.
     foldE (\<lambda>_ h. validate_record_hash h ''message page hash'') () pages)"
| "record_validate X (Rec_Plugin _ n _) = validate_safe_integer n ''plugin ordinal''"
| "record_validate X (Rec_Asset p) = payload_validate p"
| "record_validate X (Rec_Inlay p) = payload_validate p"
| "record_validate X (Rec_Cold p) = payload_validate p"

definition head_hashes :: "owner_head list \<Rightarrow> string list" where
  "head_hashes hs = List.map_filter oh_manifest hs"

definition dependency_hashes :: "envelope \<Rightarrow> string list" where
  "dependency_hashes r = remdups_adj (sort
     (case r of
        Rec_Root _ hs \<Rightarrow> head_hashes hs
      | Rec_Character _ _ hs \<Rightarrow> head_hashes hs
      | Rec_Archived a \<Rightarrow>
          ar_object a # ar_shared_object a # ar_assets a @ ar_shared_assets a @ head_hashes (ar_heads a)
      | Rec_Conversation _ _ _ pages \<Rightarrow> pages
      | Rec_Asset p \<Rightarrow> (case sp_object p of None \<Rightarrow> [] | Some h \<Rightarrow> [h])
      | Rec_Inlay p \<Rightarrow> (case sp_object p of None \<Rightarrow> [] | Some h \<Rightarrow> [h])
      | Rec_Cold p \<Rightarrow> (case sp_object p of None \<Rightarrow> [] | Some h \<Rightarrow> [h])
      | _ \<Rightarrow> []))"

section \<open>The document\<close>

definition u64_value :: "u64 \<Rightarrow> json" where "u64_value n = JNumber (PosInt n)"

definition as_u64 :: "json option \<Rightarrow> u64 option" where
  "as_u64 m = (case m of Some (JNumber (PosInt n)) \<Rightarrow> Some n | _ \<Rightarrow> None)"

definition heads_value :: "owner_head list \<Rightarrow> json" where
  "heads_value hs = JArray (map owner_head_value hs)"

definition payload_fields :: "stored_payload \<Rightarrow> (string \<times> json) list" where
  "payload_fields p =
     [(''objectHash'', opt_value (sp_object p)), (''size'', u64_value (sp_size p)), (''metadata'', sp_metadata p)]"

fun record_fields :: "envelope \<Rightarrow> string \<times> (string \<times> json) list" where
  "record_fields (Rec_Root v hs) = (''root'', [(''value'', v), (''ownerHeads'', heads_value hs)])"
| "record_fields (Rec_Preset i v) = (''preset'', [(''configuredIndex'', u64_value i), (''value'', v)])"
| "record_fields (Rec_Plugin owner n v) =
     (''plugin'', [(''owner'', JString owner), (''ordinal'', u64_value n), (''value'', v)])"
| "record_fields (Rec_Character i v hs) =
     (''character'', [(''configuredIndex'', u64_value i), (''detail'', v), (''ownerHeads'', heads_value hs)])"
| "record_fields (Rec_Archived a) =
     (''archived-character'',
      [(''configuredIndex'', u64_value (ar_index a)), (''recentAt'', i64_value (ar_recent a)),
       (''trashed'', JBool (ar_trashed a)), (''name'', JString (ar_name a)), (''image'', opt_value (ar_image a)),
       (''type'', JString (ar_type a)), (''creatorNotes'', opt_value (ar_notes a)),
       (''trashTime'', opt_i64_value (ar_trash_time a)), (''archiveObjectHash'', JString (ar_object a)),
       (''sharedArchiveObjectHash'', JString (ar_shared_object a)), (''archiveObjectSize'', u64_value (ar_object_size a)),
       (''archivedAt'', u64_value (ar_archived_at a)), (''conversationCount'', u64_value (ar_conversations a)),
       (''messageCount'', u64_value (ar_messages a)), (''assetHashes'', strings_value (ar_assets a)),
       (''sharedAssetHashes'', strings_value (ar_shared_assets a)), (''identityRemap'', JArray (ar_remap a)),
       (''ownerHeads'', heads_value (ar_heads a))])"
| "record_fields (Rec_Conversation i t v pages) =
     (''conversation'',
      [(''configuredIndex'', u64_value i), (''recentAt'', i64_value t), (''detail'', v),
       (''messagePageHashes'', strings_value pages)])"
| "record_fields (Rec_Asset p) = (''asset'', payload_fields p)"
| "record_fields (Rec_Inlay p) = (''inlay'', payload_fields p)"
| "record_fields (Rec_Cold p) = (''cold'', payload_fields p)"

definition record_value :: "envelope \<Rightarrow> json" where
  "record_value r =
     (case record_fields r of (kind, fs) \<Rightarrow>
        JObject ((''schema'', JString LOGICAL_RECORD_SCHEMA) # (''kind'', JString kind) # fs))"

definition record_kinds :: "string list" where
  "record_kinds = [''root'', ''preset'', ''plugin'', ''character'', ''archived-character'', ''conversation'', ''asset'',
     ''inlay'', ''cold'']"

definition heads_from :: "json option \<Rightarrow> owner_head list option" where
  "heads_from m = as_list owner_head_from m"

definition values_from :: "json option \<Rightarrow> json list option" where
  "values_from m = as_list (\<lambda>v. Some (value_tree v)) m"

definition payload_from :: "json \<Rightarrow> stored_payload option" where
  "payload_from v =
     (case loose_fields [''objectHash'', ''size'', ''metadata''] v of
        Some [h, n, Some m] \<Rightarrow>
          (case (as_opt_string h, as_u64 n) of
             (Some h, Some n) \<Rightarrow> Some \<lparr>sp_object = h, sp_size = n, sp_metadata = value_tree m\<rparr>
           | _ \<Rightarrow> None)
      | _ \<Rightarrow> None)"

definition archived_from :: "json \<Rightarrow> archived option" where
  "archived_from v =
     (case loose_fields [''configuredIndex'', ''recentAt'', ''trashed'', ''name'', ''image'', ''type'', ''creatorNotes'',
             ''trashTime'', ''archiveObjectHash'', ''sharedArchiveObjectHash'', ''archiveObjectSize'', ''archivedAt'',
             ''conversationCount'', ''messageCount'', ''assetHashes'', ''sharedAssetHashes'', ''identityRemap'',
             ''ownerHeads''] v of
        Some [i, r, t, n, g, y, c, d, h, sh, z, at, cc, mc, a, sa, re, hs] \<Rightarrow>
          (case (as_u64 i, as_i64 r, as_bool t, as_string n, as_opt_string g, as_string y, as_opt_string c, as_opt_i64 d,
                 as_string h) of
             (Some i, Some r, Some t, Some n, Some g, Some y, Some c, Some d, Some h) \<Rightarrow>
               (case (as_string sh, as_u64 z, as_u64 at, as_u64 cc, as_u64 mc, as_strings a, as_strings sa, values_from re,
                      heads_from hs) of
                  (Some sh, Some z, Some at, Some cc, Some mc, Some a, Some sa, Some re, Some hs) \<Rightarrow>
                    Some \<lparr>ar_index = i, ar_recent = r, ar_trashed = t, ar_name = n, ar_image = g, ar_type = y, ar_notes = c,
                          ar_trash_time = d, ar_object = h, ar_shared_object = sh, ar_object_size = z, ar_archived_at = at,
                          ar_conversations = cc, ar_messages = mc, ar_assets = a, ar_shared_assets = sa, ar_remap = re,
                          ar_heads = hs\<rparr>
                | _ \<Rightarrow> None)
           | _ \<Rightarrow> None)
      | _ \<Rightarrow> None)"

definition envelope_from :: "string \<Rightarrow> json \<Rightarrow> envelope option" where
  "envelope_from kind v =
     (if kind = ''root'' then
        (case loose_fields [''value'', ''ownerHeads''] v of
           Some [Some x, hs] \<Rightarrow> map_option (Rec_Root (value_tree x)) (heads_from hs)
         | _ \<Rightarrow> None)
      else if kind = ''preset'' then
        (case loose_fields [''configuredIndex'', ''value''] v of
           Some [i, Some x] \<Rightarrow> map_option (\<lambda>i. Rec_Preset i (value_tree x)) (as_u64 i)
         | _ \<Rightarrow> None)
      else if kind = ''plugin'' then
        (case loose_fields [''owner'', ''ordinal'', ''value''] v of
           Some [w, n, Some x] \<Rightarrow>
             (case (as_string w, as_u64 n) of (Some w, Some n) \<Rightarrow> Some (Rec_Plugin w n (value_tree x)) | _ \<Rightarrow> None)
         | _ \<Rightarrow> None)
      else if kind = ''character'' then
        (case loose_fields [''configuredIndex'', ''detail'', ''ownerHeads''] v of
           Some [i, Some x, hs] \<Rightarrow>
             (case (as_u64 i, heads_from hs) of (Some i, Some hs) \<Rightarrow> Some (Rec_Character i (value_tree x) hs) | _ \<Rightarrow> None)
         | _ \<Rightarrow> None)
      else if kind = ''archived-character'' then map_option Rec_Archived (archived_from v)
      else if kind = ''conversation'' then
        (case loose_fields [''configuredIndex'', ''recentAt'', ''detail'', ''messagePageHashes''] v of
           Some [i, t, Some x, ps] \<Rightarrow>
             (case (as_u64 i, as_i64 t, as_strings ps) of
                (Some i, Some t, Some ps) \<Rightarrow> Some (Rec_Conversation i t (value_tree x) ps)
              | _ \<Rightarrow> None)
         | _ \<Rightarrow> None)
      else if kind = ''asset'' then map_option Rec_Asset (payload_from v)
      else if kind = ''inlay'' then map_option Rec_Inlay (payload_from v)
      else if kind = ''cold'' then map_option Rec_Cold (payload_from v)
      else None)"

text \<open>The schema, and the record from what the other fields of the object hold.\<close>

definition record_document_from :: "json \<Rightarrow> (string \<times> envelope) option" where
  "record_document_from v =
     (case v of
        JObject ps \<Rightarrow>
          (case filter (\<lambda>p. fst p = ''schema'') ps of
             [(_, JString s)] \<Rightarrow>
               (case content_variant record_kinds (JObject (filter (\<lambda>p. fst p \<noteq> ''schema'') ps)) of
                  Some (kind, fs) \<Rightarrow> map_option (\<lambda>r. (s, r)) (envelope_from kind fs)
                | None \<Rightarrow> None)
           | _ \<Rightarrow> None)
      | _ \<Rightarrow> None)"

definition encode_logical_record :: "ext \<Rightarrow> (bytes \<Rightarrow> string) \<Rightarrow> envelope \<Rightarrow> encoded recorded" where
  "encode_logical_record X H r =
     bindE (record_validate X r) (\<lambda>_. encoded_object H (json_text X (record_value r)))"

definition decode_logical_record :: "ext \<Rightarrow> (bytes \<Rightarrow> string) \<Rightarrow> bytes \<Rightarrow> envelope recorded" where
  "decode_logical_record X H bs =
     bindE (ok_or (Option.bind (from_slice X bs) record_document_from)
              (RecordError ''logical record bytes are not valid UTF-8 JSON'')) (\<lambda>(schema, r).
     if schema \<noteq> LOGICAL_RECORD_SCHEMA then invalid ''logical record schema is unsupported''
     else
       bindE (record_validate X r) (\<lambda>_.
       bindE (encode_logical_record X H r) (\<lambda>again.
       if eo_bytes again \<noteq> bs then invalid ''logical record bytes are not canonical'' else Inr r)))"

section \<open>Pages of messages\<close>

definition message_page_prefix :: bytes where
  "message_page_prefix = as_bytes ([CHR ''{'', CHR 0x22] @ ''schema'' @ [CHR 0x22, CHR '':'', CHR 0x22]
     @ LOGICAL_MESSAGE_PAGE_SCHEMA @ [CHR 0x22, CHR '','', CHR 0x22] @ ''messages'' @ [CHR 0x22, CHR '':'', CHR ''[''])"

definition encode_message_page :: "ext \<Rightarrow> (bytes \<Rightarrow> string) \<Rightarrow> json list \<Rightarrow> encoded recorded" where
  "encode_message_page X H messages =
     (if length messages > LOGICAL_MESSAGE_PAGE_SIZE then invalid ''logical message page exceeds 128 messages''
      else
        bindE (mapE (\<lambda>m. record_of_wire (payload_encode X m)) messages) (\<lambda>texts.
        encoded_object H (message_page_prefix @ join texts @ as_bytes '']}'')))"

definition message_page_from :: "json \<Rightarrow> (string \<times> json list) option" where
  "message_page_from v =
     (case loose_fields [''schema'', ''messages''] v of
        Some [s, ms] \<Rightarrow>
          (case (as_string s, values_from ms) of (Some s, Some ms) \<Rightarrow> Some (s, ms) | _ \<Rightarrow> None)
      | _ \<Rightarrow> None)"

definition decode_message_page :: "ext \<Rightarrow> (bytes \<Rightarrow> string) \<Rightarrow> bytes \<Rightarrow> json list recorded" where
  "decode_message_page X H bs =
     bindE (ok_or (Option.bind (from_slice X bs) message_page_from)
              (RecordError ''logical message page bytes are not valid UTF-8 JSON'')) (\<lambda>(schema, messages).
     if schema \<noteq> LOGICAL_MESSAGE_PAGE_SCHEMA then invalid ''logical message page schema is unsupported''
     else if length messages > LOGICAL_MESSAGE_PAGE_SIZE then invalid ''logical message page exceeds 128 messages''
     else
       bindE (encode_message_page X H messages) (\<lambda>again.
       if eo_bytes again \<noteq> bs then invalid ''logical message page bytes are not canonical'' else Inr messages))"

section \<open>What a valid record is\<close>

definition descriptor_ok :: "string \<Rightarrow> u64 \<Rightarrow> bool" where
  "descriptor_ok h n \<longleftrightarrow> hash_ok h \<and> unat n < 2 ^ 53 \<and> (n = 0 \<longleftrightarrow> h = EMPTY_SHA256)"

definition sorted_hashes :: "string list \<Rightarrow> bool" where
  "sorted_hashes hs \<longleftrightarrow> list_all hash_ok hs \<and> sorted_wrt (<) hs"

definition archived_ok :: "ext \<Rightarrow> archived \<Rightarrow> bool" where
  "archived_ok X a \<longleftrightarrow> descriptor_ok (ar_object a) (ar_object_size a) \<and> hash_ok (ar_shared_object a)
     \<and> unat (ar_archived_at a) < 2 ^ 53 \<and> unat (ar_conversations a) < 2 ^ 53 \<and> unat (ar_messages a) < 2 ^ 53
     \<and> sorted_hashes (ar_assets a) \<and> sorted_hashes (ar_shared_assets a)
     \<and> list_all identity_ok (ar_heads a) \<and> sorted_wrt (<) (map (storage_key X) (ar_heads a))"

definition payload_ok :: "stored_payload \<Rightarrow> bool" where
  "payload_ok p \<longleftrightarrow> unat (sp_size p) < 2 ^ 53 \<and> is_object (sp_metadata p)
     \<and> (case sp_object p of None \<Rightarrow> True | Some h \<Rightarrow> descriptor_ok h (sp_size p))"

definition heads_ok :: "ext \<Rightarrow> owner_head list \<Rightarrow> bool" where
  "heads_ok X hs \<longleftrightarrow> list_all positioned_ok hs \<and> sorted_wrt (<) (map (storage_key X) hs)"

definition record_ok :: "ext \<Rightarrow> envelope \<Rightarrow> bool" where
  "record_ok X r \<longleftrightarrow>
     (case r of
        Rec_Root _ hs \<Rightarrow> heads_ok X hs
      | Rec_Preset i _ \<Rightarrow> unat i < 2 ^ 53
      | Rec_Plugin _ n _ \<Rightarrow> unat n < 2 ^ 53
      | Rec_Character i _ hs \<Rightarrow> unat i < 2 ^ 53 \<and> heads_ok X hs
      | Rec_Archived a \<Rightarrow> unat (ar_index a) < 2 ^ 53 \<and> archived_ok X a
      | Rec_Conversation i _ _ pages \<Rightarrow> unat i < 2 ^ 53 \<and> list_all hash_ok pages
      | Rec_Asset p \<Rightarrow> payload_ok p
      | Rec_Inlay p \<Rightarrow> payload_ok p
      | Rec_Cold p \<Rightarrow> payload_ok p)"

lemma descriptor_Inr [simp]: "validate_object_descriptor h n = Inr u \<longleftrightarrow> descriptor_ok h n"
  by (auto simp: validate_object_descriptor_def descriptor_ok_def bindE_Inr safe_integer_unat)

lemma archived_hashes_Inr: "(\<exists>q. foldE archived_hash_step None hs = Inr q) \<longleftrightarrow> sorted_hashes hs"
proof -
  have "archived_hash_step previous h = Inr q \<longleftrightarrow> hash_ok h \<and> q = Some h
      \<and> (case previous of None \<Rightarrow> True | Some p \<Rightarrow> p < h)" for previous h q
    by (cases previous) (auto simp: archived_hash_step_def bindE_Inr not_le)
  from chained_loop [of archived_hash_step hash_ok "\<lambda>h. h" "(<)" None hs] this
  have "(\<exists>q. foldE archived_hash_step None hs = Inr q) \<longleftrightarrow> list_all hash_ok hs \<and> successively (<) hs" by simp
  also have "successively (<) hs \<longleftrightarrow> sorted_wrt (<) hs" by (rule successively_iff_sorted_wrt_strong) auto
  finally show ?thesis unfolding sorted_hashes_def .
qed

lemma archived_keys_Inr: "(\<exists>q. foldE archived_key_step key keys = Inr q) \<longleftrightarrow> sorted_wrt (<) (key # keys)"
proof -
  have "(\<exists>q. foldE archived_key_step key keys = Inr q) \<longleftrightarrow> successively (<) (key # keys)"
    by (induction keys arbitrary: key) (auto simp: archived_key_step_def bindE_Inr not_le)
  also have "\<dots> \<longleftrightarrow> sorted_wrt (<) (key # keys)" by (rule successively_iff_sorted_wrt_strong) auto
  finally show ?thesis .
qed

lemma archived_validate_Inr: "archived_validate X a = Inr u \<longleftrightarrow> archived_ok X a"
proof -
  have "(case map (storage_key X) (ar_heads a) of
      [] \<Rightarrow> Inr () | key # keys \<Rightarrow> bindE (foldE archived_key_step key keys) (\<lambda>_. Inr ())) = Inr u
      \<longleftrightarrow> sorted_wrt (<) (map (storage_key X) (ar_heads a))"
    using archived_keys_Inr by (auto simp: bindE_Inr simp del: sorted_wrt.simps(2) split: list.split)
  then show ?thesis
    unfolding archived_validate_def
    by (simp only: bindE_Inr descriptor_Inr validate_record_hash_Inr validate_safe_integer_Inr safe_integer_unat
        archived_ok_def foldE_all head_validate_identity_Inr flip: archived_hashes_Inr) blast
qed

lemma payload_validate_Inr: "payload_validate p = Inr u \<longleftrightarrow> payload_ok p"
  by (cases "sp_object p") (auto simp: payload_validate_def payload_ok_def bindE_Inr safe_integer_unat)

lemma record_validate_Inr: "record_validate X r = Inr u \<longleftrightarrow> record_ok X r"
  using validate_owner_heads_Inr [of X]
  by (cases r) (auto simp: record_ok_def heads_ok_def bindE_Inr safe_integer_unat archived_validate_Inr
      payload_validate_Inr foldE_all)

section \<open>Round trips\<close>

definition record_wf :: "envelope \<Rightarrow> bool" where
  "record_wf r \<longleftrightarrow> list_all (\<lambda>v. value_tree v = v)
     (case r of
        Rec_Root v _ \<Rightarrow> [v]
      | Rec_Preset _ v \<Rightarrow> [v]
      | Rec_Plugin _ _ v \<Rightarrow> [v]
      | Rec_Character _ v _ \<Rightarrow> [v]
      | Rec_Archived a \<Rightarrow> ar_remap a
      | Rec_Conversation _ _ v _ \<Rightarrow> [v]
      | Rec_Asset p \<Rightarrow> [sp_metadata p]
      | Rec_Inlay p \<Rightarrow> [sp_metadata p]
      | Rec_Cold p \<Rightarrow> [sp_metadata p])"

lemma record_field_simps [simp]:
  "as_u64 (Some (u64_value n)) = Some n"
  "heads_from (Some (heads_value hs)) = Some hs"
  "list_all (\<lambda>v. value_tree v = v) vs \<Longrightarrow> values_from (Some (JArray vs)) = Some vs"
proof -
  show "as_u64 (Some (u64_value n)) = Some n" by (simp add: as_u64_def u64_value_def)
  show "heads_from (Some (heads_value hs)) = Some hs" by (simp add: heads_from_def as_list_def heads_value_def)
  show "values_from (Some (JArray vs)) = Some vs" if "list_all (\<lambda>v. value_tree v = v) vs"
    using that by (induction vs) (auto simp: values_from_def as_list_def)
qed

lemma payload_from_fields [simp]:
  "value_tree (sp_metadata p) = sp_metadata p \<Longrightarrow> payload_from (JObject (payload_fields p)) = Some p"
  by (cases p) (simp add: payload_from_def payload_fields_def loose_fields_def)

lemma archived_from_fields:
  "list_all (\<lambda>v. value_tree v = v) (ar_remap a) \<Longrightarrow> archived_from (JObject (snd (record_fields (Rec_Archived a)))) = Some a"
  by (cases a) (simp add: archived_from_def loose_fields_def as_bool_def)

lemma envelope_from_fields:
  assumes "record_wf r"
  shows "envelope_from (fst (record_fields r)) (JObject (snd (record_fields r))) = Some r"
proof (cases r)
  case (Rec_Archived a)
  with assms archived_from_fields [of a] show ?thesis by (simp add: envelope_from_def record_wf_def)
qed (use assms in \<open>simp_all add: envelope_from_def record_wf_def loose_fields_def\<close>)

lemma record_field_names: "list_all (\<lambda>p. fst p \<noteq> ''schema'' \<and> fst p \<noteq> ''kind'') (snd (record_fields r))"
  by (cases r) (simp_all add: payload_fields_def)

lemma record_kind_known: "fst (record_fields r) \<in> set record_kinds"
  by (cases r) (simp_all add: record_kinds_def)

lemma record_document_from_value:
  assumes "record_wf r"
  shows "record_document_from (record_value r) = Some (LOGICAL_RECORD_SCHEMA, r)"
proof -
  obtain kind fs where f: "record_fields r = (kind, fs)" by (cases "record_fields r")
  have n: "list_all (\<lambda>p. fst p \<noteq> ''schema'' \<and> fst p \<noteq> ''kind'') fs" using record_field_names [of r] f by simp
  then have "filter (\<lambda>p. fst p = ''schema'') fs = []" "filter (\<lambda>p. fst p \<noteq> ''schema'') fs = fs"
    "filter (\<lambda>p. fst p = ''kind'') fs = []" "filter (\<lambda>p. fst p \<noteq> ''kind'') fs = fs"
    by (auto simp: list_all_iff filter_empty_conv filter_id_conv)
  then show ?thesis
    using record_kind_known [of r] envelope_from_fields [OF assms] f
    by (simp add: record_document_from_def record_value_def content_variant_def content_tag_def)
qed

lemma encode_logical_record_Inr:
  "bindE (encode_logical_record X H r) (\<lambda>obj. Inr (eo_bytes obj)) = Inr bs
     \<longleftrightarrow> record_validate X r = Inr () \<and> bs = json_text X (record_value r) \<and> length bs < 2 ^ 53"
  by (auto simp: encode_logical_record_def bindE_Inr encoded_object_Inr)

interpretation records: canonical_document
  "\<lambda>bs. case Option.bind (from_slice X bs) record_document_from of
     Some (schema, r) \<Rightarrow> if schema = LOGICAL_RECORD_SCHEMA then Some r else None | None \<Rightarrow> None"
  "record_validate X" "\<lambda>r. json_text X (record_value r)" "\<lambda>_ bs. length bs < 2 ^ 53"
  "\<lambda>_ r. bindE (encode_logical_record X H r) (\<lambda>obj. Inr (eo_bytes obj))" "\<lambda>_. decode_logical_record X H" for X H
proof
  show "bindE (encode_logical_record X H r) (\<lambda>obj. Inr (eo_bytes obj)) = Inr bs
      \<Longrightarrow> bs = json_text X (record_value r) \<and> length bs < 2 ^ 53" for r bs
    unfolding encode_logical_record_Inr by blast
  show "decode_logical_record X H bs = Inr r \<longleftrightarrow> length bs < 2 ^ 53
      \<and> (case Option.bind (from_slice X bs) record_document_from of
           Some (schema, r) \<Rightarrow> if schema = LOGICAL_RECORD_SCHEMA then Some r else None | None \<Rightarrow> None) = Some r
      \<and> record_validate X r = Inr ()
      \<and> bindE (encode_logical_record X H r) (\<lambda>obj. Inr (eo_bytes obj)) = Inr bs" for bs r
    unfolding encode_logical_record_Inr
    by (auto simp: decode_logical_record_def bindE_Inr encode_logical_record_def encoded_object_Inr split: option.splits
        if_splits)
qed

lemma head_hashes_set: "set (head_hashes hs) = {h. Some h \<in> oh_manifest ` set hs}"
proof (induction hs)
  case (Cons h hs)
  then show ?case by (cases "oh_manifest h") (auto simp: head_hashes_def List.map_filter_simps)
qed (simp add: head_hashes_def List.map_filter_simps)

lemma distinct_remdups_sorted: "sorted (xs :: 'a::linorder list) \<Longrightarrow> distinct (remdups_adj xs)"
  by (induction xs rule: remdups_adj.induct) auto

lemma manifest_ok: "Some m = oh_manifest h \<Longrightarrow> identity_ok h \<Longrightarrow> hash_ok m"
  by (cases "oh_manifest h") (auto simp: identity_ok_def split: if_splits)

section \<open>Properties\<close>

text \<open>C35. Bytes decode to a record exactly when it is valid and they are its encoding. Valid means: numbers
  JavaScript can hold, digests where digests belong, an empty object named by the digest of no
  bytes, owner heads and archived assets in strictly ascending order, and manifests exactly on the
  heads that are present.\<close>

theorem record_bytes:
  assumes "record_wf r" and "reads_back X (record_value r)"
  shows "decode_logical_record X H bs = Inr r \<longleftrightarrow>
     record_ok X r \<and> bs = json_text X (record_value r) \<and> length bs < 2 ^ 53"
proof -
  have "(case Option.bind (from_slice X (json_text X (record_value r))) record_document_from of
      Some (schema, r) \<Rightarrow> if schema = LOGICAL_RECORD_SCHEMA then Some r else None | None \<Rightarrow> None) = Some r"
    using assms by (simp add: reads_back_def record_document_from_value del: json_text.simps)
  from records.decode_iff_encode [OF this] show ?thesis
    unfolding encode_logical_record_Inr record_validate_Inr by blast
qed

text \<open>The dependencies of a record are the objects it names and no others, in ascending order without
  repetition; those of a valid record are all digests.\<close>

theorem dependencies_exact:
  "set (dependency_hashes r) =
     (case r of
        Rec_Root _ hs \<Rightarrow> {h. Some h \<in> oh_manifest ` set hs}
      | Rec_Character _ _ hs \<Rightarrow> {h. Some h \<in> oh_manifest ` set hs}
      | Rec_Archived a \<Rightarrow>
          {ar_object a, ar_shared_object a} \<union> set (ar_assets a) \<union> set (ar_shared_assets a)
          \<union> {h. Some h \<in> oh_manifest ` set (ar_heads a)}
      | Rec_Conversation _ _ _ pages \<Rightarrow> set pages
      | Rec_Asset p \<Rightarrow> set_option (sp_object p)
      | Rec_Inlay p \<Rightarrow> set_option (sp_object p)
      | Rec_Cold p \<Rightarrow> set_option (sp_object p)
      | _ \<Rightarrow> {})
   \<and> sorted_wrt (<) (dependency_hashes r)
   \<and> (if record_validate X r = Inr () then list_all hash_ok (dependency_hashes r) else True)"
  (is "set _ = ?named \<and> _")
proof -
  have named: "set (dependency_hashes r) = ?named"
    by (cases r) (auto simp: dependency_hashes_def head_hashes_set set_insort_key split: option.splits)
  have "sorted_wrt (<) (dependency_hashes r)"
    by (simp add: dependency_hashes_def strict_sorted_iff distinct_remdups_sorted)
  moreover have "list_all hash_ok (dependency_hashes r)" if "record_validate X r = Inr ()"
    using that unfolding record_validate_Inr list_all_iff named
    by (cases r) (auto simp: record_ok_def heads_ok_def archived_ok_def payload_ok_def sorted_hashes_def descriptor_ok_def
        list_all_iff positioned_ok_def intro: manifest_ok split: option.splits)
  ultimately show ?thesis using named by simp
qed

text \<open>A page of messages decodes from exactly the bytes it encodes to, when those bytes parse as the
  page.\<close>

theorem message_page_bytes:
  assumes "list_all (\<lambda>m. value_tree m = m) ms"
    and "from_slice X bs = Some (JObject [(''schema'', JString LOGICAL_MESSAGE_PAGE_SCHEMA), (''messages'', JArray ms)])"
  shows "decode_message_page X H bs = Inr ms \<longleftrightarrow> (\<exists>obj. encode_message_page X H ms = Inr obj \<and> eo_bytes obj = bs)"
proof -
  have "Option.bind (from_slice X bs) message_page_from = Some (LOGICAL_MESSAGE_PAGE_SCHEMA, ms)"
    using assms by (simp add: message_page_from_def loose_fields_def)
  moreover have "length ms \<le> LOGICAL_MESSAGE_PAGE_SIZE" if "encode_message_page X H ms = Inr obj" for obj
    using that by (auto simp: encode_message_page_def split: if_splits)
  ultimately show ?thesis by (auto simp: decode_message_page_def bindE_Inr not_less)
qed

section \<open>Concrete inputs\<close>

definition sample_record :: envelope where
  "sample_record = Rec_Character 1 (JObject [(''name'', JString ''n'')])
     [\<lparr>oh_owner = Owner_Character ''c'', oh_present = True, oh_manifest = Some (replicate 64 CHR ''0''), oh_entries = 3,
       oh_index = Some 2\<rparr>]"

lemma record_bytes_witness:
  "let X = sample_ext (record_value sample_record) in
     decode_logical_record X (\<lambda>_. []) (json_text X (record_value sample_record)) = Inr sample_record"
proof -
  let ?X = "sample_ext (record_value sample_record)"
  have d: "decimal_string 2 = [digit_char 2]" "decimal_string 3 = [digit_char 3]"
    by (simp_all add: decimal_string_def show_nat.simps)
  have "length (json_text ?X (record_value sample_record)) < 2 ^ 53"
    by (simp add: record_value_def sample_record_def heads_value_def owner_head_value_def control_value_def d u64_value_def
        opt_value_def join_def separator_def)
      (simp add: sample_ext_def quote_def as_bytes_def LOGICAL_RECORD_SCHEMA_def)
  moreover have "record_wf sample_record"
    by (simp add: record_wf_def sample_record_def value_tree_object del: value_tree.simps(2))
  moreover have "record_ok ?X sample_record"
    by (simp add: record_ok_def sample_record_def heads_ok_def positioned_ok_def identity_ok_def owner_ok_def hash_ok_def
        is_lower_hex_def is_ascii_digit_def MAX_LOGICAL_RECORD_KEY_BYTES_def list_all_iff)
  moreover have "reads_back ?X (record_value sample_record)" by (simp add: reads_back_def sample_ext_def)
  ultimately show ?thesis unfolding Let_def by (simp only: record_bytes)
qed

definition sample_page_value :: json where
  "sample_page_value =
     JObject [(''schema'', JString LOGICAL_MESSAGE_PAGE_SCHEMA), (''messages'', JArray [JNull, JString ''hi''])]"

lemma message_page_bytes_witness:
  "case encode_message_page (sample_ext sample_page_value) (\<lambda>_. []) [JNull, JString ''hi''] of
     Inr obj \<Rightarrow> decode_message_page (sample_ext sample_page_value) (\<lambda>_. []) (eo_bytes obj) = Inr [JNull, JString ''hi'']
   | Inl _ \<Rightarrow> False"
proof -
  let ?X = "sample_ext sample_page_value"
  let ?texts = "[to_vec ?X JNull, to_vec ?X (JString ''hi'')]"
  have "mapE (\<lambda>m. record_of_wire (payload_encode ?X m)) [JNull, JString ''hi''] = Inr ?texts"
    by (simp add: payload_encode_def vec_write_def record_of_wire_def)
  then have "encode_message_page ?X (\<lambda>_. []) [JNull, JString ''hi''] =
      encoded_object (\<lambda>_. []) (message_page_prefix @ join ?texts @ as_bytes '']}'')"
    by (simp add: encode_message_page_def LOGICAL_MESSAGE_PAGE_SIZE_def)
  moreover have "length (message_page_prefix @ join ?texts @ as_bytes '']}'') < 2 ^ 53"
    by (simp add: join_def separator_def)
      (simp add: sample_ext_def quote_def message_page_prefix_def as_bytes_def LOGICAL_MESSAGE_PAGE_SCHEMA_def)
  ultimately have "\<exists>obj. encode_message_page ?X (\<lambda>_. []) [JNull, JString ''hi''] = Inr obj"
    by (simp only: encoded_object_Inr) blast
  then obtain obj where obj: "encode_message_page ?X (\<lambda>_. []) [JNull, JString ''hi''] = Inr obj" by blast
  have "from_slice ?X (eo_bytes obj) = Some sample_page_value" by (simp add: sample_ext_def)
  then have "decode_message_page ?X (\<lambda>_. []) (eo_bytes obj) = Inr [JNull, JString ''hi'']"
    using obj message_page_bytes [of "[JNull, JString ''hi'']" ?X "eo_bytes obj" "\<lambda>_. []"]
    by (simp add: sample_page_value_def)
  with obj show ?thesis by simp
qed

end
