(* ===== verification/Server_Objects.thy ===== *)
theory Server_Objects
  imports Server_State Small_Objects Delta
begin

text \<open>
  \<^verbatim>\<open>server/sync/src/store/objects.rs\<close>: the bodies of objects. A row says how long a body is and where
  it lives, inside the database for a small one and in a file for a large one; the files under
  \<^verbatim>\<open>objects/\<close> are a map from digests to contents. What can go wrong with a file is an argument: the
  failure that any access to it meets, that staging or publishing it meets, that making a directory durable
  meets, or that the transaction with the rows meets. The workers that publish files in parallel write different files, so that their order
  does not show; a worker stops at its first failure while the others go on.
\<close>

definition SMALL_OBJECT_BYTES :: nat where "SMALL_OBJECT_BYTES = 64 * 1024"
definition FILE_IO_WORKERS :: nat where "FILE_IO_WORKERS = 4"

record body_store =
  bs_placed :: "(string \<times> int \<times> string) list"
  bs_small :: objects
  bs_files :: "(string \<times> bytes) list"
  bs_leases :: "((string \<times> string) \<times> int) list"

record disk =
  on_access :: "string \<Rightarrow> failure option"
  on_stage :: "string \<Rightarrow> failure option"
  on_publish :: "string \<Rightarrow> failure option"
  on_staging_path :: "failure option"
  on_sync :: "failure option"
  on_sync_parents :: "failure option"
  on_commit :: "failure option"

definition faulty :: "failure option \<Rightarrow> unit sresult" where
  "faulty m = (case m of None \<Rightarrow> Inr () | Some f \<Rightarrow> Inl f)"

definition body_error :: "'a stored \<Rightarrow> 'a sresult" where
  "body_error m =
     (case m of
        Inr x \<Rightarrow> Inr x
      | Inl TooLarge \<Rightarrow> fail ''object-too-large'' 413
      | Inl Database \<Rightarrow> fail ''metadata-storage'' 503
      | Inl _ \<Rightarrow> fail ''corrupt-object'' 503)"

section \<open>Reading\<close>

text \<open>The size of a body, and whether it is inside the database.\<close>

definition placement :: "body_store \<Rightarrow> string \<Rightarrow> (nat \<times> bool) option sresult" where
  "placement B digest =
     bindE (lift_wire (validate_hash digest)) (\<lambda>_.
     case map_of (bs_placed B) digest of
       None \<Rightarrow> Inr None
     | Some (n, storage) \<Rightarrow>
         if n < 0 then fail ''corrupt-metadata'' 503
         else if storage = ''inline'' then Inr (Some (nat n, True))
         else if storage = ''file'' then Inr (Some (nat n, False))
         else fail ''corrupt-metadata'' 503)"

text \<open>\<^verbatim>\<open>object_path\<close> and what is found there.\<close>

definition object_file :: "disk \<Rightarrow> body_store \<Rightarrow> string \<Rightarrow> bytes option sresult" where
  "object_file D B digest =
     bindE (lift_wire (validate_hash digest)) (\<lambda>_.
     bindE (faulty (on_access D digest)) (\<lambda>_. Inr (map_of (bs_files B) digest)))"

definition file_present :: "disk \<Rightarrow> body_store \<Rightarrow> string \<Rightarrow> bytes sresult" where
  "file_present D B digest =
     bindE (object_file D B digest) (\<lambda>m. ok_or m (Failure (error_new ''storage-io'' 503)))"

definition inline_body :: "(bytes \<Rightarrow> string) \<Rightarrow> body_store \<Rightarrow> string \<Rightarrow> nat \<Rightarrow> bytes sresult" where
  "inline_body H B digest n =
     bindE (body_error (object_read H (bs_small B) digest SMALL_OBJECT_BYTES)) (\<lambda>m.
     bindE (ok_or m (Failure (error_new ''corrupt-object'' 503))) (\<lambda>bs.
     if length bs \<noteq> n then fail ''corrupt-object'' 503 else Inr bs))"

definition inline_present :: "body_store \<Rightarrow> string \<Rightarrow> nat \<Rightarrow> bool sresult" where
  "inline_present B digest n =
     bindE (body_error (Small_Objects.object_size (bs_small B) digest)) (\<lambda>m. Inr (m = Some n))"

definition placed :: "body_store \<Rightarrow> string \<Rightarrow> (nat \<times> bool) sresult" where
  "placed B digest = bindE (placement B digest) (\<lambda>m. ok_or m (Failure (error_new ''object-not-found'' 404)))"

definition open_object :: "(bytes \<Rightarrow> string) \<Rightarrow> disk \<Rightarrow> body_store \<Rightarrow> string \<Rightarrow> (bytes \<times> nat) sresult" where
  "open_object H D B digest =
     bindE (placed B digest) (\<lambda>(n, is_inline).
     if is_inline then bindE (inline_body H B digest n) (\<lambda>bs. Inr (bs, n))
     else
       bindE (file_present D B digest) (\<lambda>bs.
       if length bs \<noteq> n then fail ''corrupt-object'' 503 else Inr (bs, n)))"

definition check_object_body :: "disk \<Rightarrow> body_store \<Rightarrow> string \<Rightarrow> nat \<Rightarrow> unit sresult" where
  "check_object_body D B digest n =
     bindE (placed B digest) (\<lambda>(recorded, is_inline).
     if recorded \<noteq> n then fail ''corrupt-object'' 503
     else
       bindE (if is_inline then inline_present B digest n
              else bindE (file_present D B digest) (\<lambda>bs. Inr (length bs = n))) (\<lambda>present.
       if present then Inr () else fail ''corrupt-object'' 503))"

definition recorded_size :: "body_store \<Rightarrow> string \<Rightarrow> nat option sresult" where
  "recorded_size B digest =
     bindE (lift_wire (validate_hash digest)) (\<lambda>_.
     case map_of (bs_placed B) digest of
       None \<Rightarrow> Inr None
     | Some (n, _) \<Rightarrow> if n < 0 then fail ''corrupt-metadata'' 503 else Inr (Some (nat n)))"

definition object_presence :: "disk \<Rightarrow> body_store \<Rightarrow> string \<Rightarrow> bool sresult" where
  "object_presence D B digest =
     bindE (placement B digest) (\<lambda>m.
     case m of
       None \<Rightarrow> Inr False
     | Some (n, is_inline) \<Rightarrow>
         if is_inline then inline_present B digest n
         else
           bindE (object_file D B digest) (\<lambda>m.
           Inr (case m of None \<Rightarrow> False | Some bs \<Rightarrow> length bs = n)))"

definition get_object :: "(bytes \<Rightarrow> string) \<Rightarrow> disk \<Rightarrow> body_store \<Rightarrow> string \<Rightarrow> bytes sresult" where
  "get_object H D B digest =
     bindE (placed B digest) (\<lambda>(n, is_inline).
     if n > MAX_TARGET_BYTES then fail ''corrupt-object'' 503
     else if is_inline then inline_body H B digest n
     else
       bindE (file_present D B digest) (\<lambda>content.
       let bs = take (n + 1) content in
       if length bs \<noteq> n \<or> H bs \<noteq> digest then fail ''corrupt-object'' 503 else Inr bs))"

section \<open>Writing\<close>

text \<open>Whether a body that is recorded as a file has to be published again.\<close>

definition filed_body_differs :: "disk \<Rightarrow> body_store \<Rightarrow> string \<Rightarrow> bytes \<Rightarrow> bool sresult" where
  "filed_body_differs D B digest bs =
     bindE (object_file D B digest) (\<lambda>m.
     Inr (case m of None \<Rightarrow> True | Some content \<Rightarrow> take (length bs + 1) content \<noteq> bs))"

definition lease_object :: "int sresult \<Rightarrow> device \<Rightarrow> body_store \<Rightarrow> string \<Rightarrow> body_store sresult" where
  "lease_object clock d B digest =
     bindE clock (\<lambda>now. Inr (B\<lparr>bs_leases := bt_insert (dev_id d, digest) (now + 86400) (bs_leases B)\<rparr>))"

text \<open>\<^verbatim>\<open>INSERT INTO objects ... ON CONFLICT(hash) DO NOTHING\<close>\<close>

definition record_object :: "string \<Rightarrow> body_store \<Rightarrow> string \<times> bytes \<Rightarrow> body_store" where
  "record_object storage B = (\<lambda>(digest, bs).
     if has (bs_placed B) digest then B
     else B\<lparr>bs_placed := bt_insert digest (int (length bs), storage) (bs_placed B)\<rparr>)"

definition fresh_step :: "body_store \<Rightarrow> (string \<times> bytes) list \<Rightarrow> string \<times> bytes \<Rightarrow> (string \<times> bytes) list sresult" where
  "fresh_step B fresh = (\<lambda>(digest, bs).
     bindE (placement B digest) (\<lambda>m.
     case m of
       None \<Rightarrow> Inr (fresh @ [(digest, bs)])
     | Some (n, is_inline) \<Rightarrow>
         if n \<noteq> length bs then fail ''corrupt-object'' 503
         else if is_inline then Inr (fresh @ [(digest, bs)])
         else Inr fresh))"

definition put_inline ::
  "(bytes \<Rightarrow> string) \<Rightarrow> int sresult \<Rightarrow> device \<Rightarrow> (string \<times> bytes) list \<Rightarrow> body_store \<Rightarrow> body_store sresult" where
  "put_inline H clock d objs B =
     bindE (foldE (fresh_step B) [] objs) (\<lambda>fresh.
     bindE (body_error (insert_batch H (bs_small B) fresh)) (\<lambda>small.
     foldE (\<lambda>B (digest, _). lease_object clock d B digest)
       (foldl (record_object ''inline'') (B\<lparr>bs_small := small\<rparr>) fresh) objs))"

definition file_step ::
  "int sresult \<Rightarrow> device \<Rightarrow> body_store \<Rightarrow> string \<times> bytes \<Rightarrow> body_store sresult" where
  "file_step clock d B obj = lease_object clock d (record_object ''file'' B obj) (fst obj)"

definition small_file_step ::
  "body_store \<Rightarrow> string list \<Rightarrow> string \<times> bytes \<Rightarrow> string list sresult" where
  "small_file_step B found = (\<lambda>(digest, bs).
     if length bs \<le> SMALL_OBJECT_BYTES then
       bindE (placement B digest) (\<lambda>m.
       Inr (case m of Some (_, False) \<Rightarrow> digest # found | _ \<Rightarrow> found))
     else Inr found)"

text \<open>Which bodies go into the database and which into files.\<close>

definition route_step ::
  "disk \<Rightarrow> body_store \<Rightarrow> string list \<Rightarrow> (string \<times> bytes) list \<times> (string \<times> bytes) list \<Rightarrow> string \<times> bytes
     \<Rightarrow> ((string \<times> bytes) list \<times> (string \<times> bytes) list) sresult" where
  "route_step D B small_files = (\<lambda>(inlined, filed) (digest, bs).
     bindE (lift_wire (validate_hash digest)) (\<lambda>_.
     if length bs > MAX_TARGET_BYTES then fail ''hash-mismatch'' 400
     else
       bindE (if length bs \<le> SMALL_OBJECT_BYTES then
                (if digest \<in> set small_files
                 then bindE (filed_body_differs D B digest bs) (\<lambda>differs. Inr (\<not> differs))
                 else Inr True)
              else Inr False) (\<lambda>into_database.
       if into_database then Inr (inlined @ [(digest, bs)], filed)
       else if digest \<in> fst ` set filed then Inr (inlined, filed)
       else Inr (inlined, filed @ [(digest, bs)]))))"

text \<open>\<^verbatim>\<open>slice::chunks\<close>\<close>

function groups_of :: "nat \<Rightarrow> 'a list \<Rightarrow> 'a list list" where
  "groups_of n xs = (if n = 0 \<or> xs = [] then [] else take n xs # groups_of n (drop n xs))"
  by pat_completeness auto
termination by (relation "measure (length \<circ> snd)") auto

declare groups_of.simps [simp del]

definition file_groups :: "'a list \<Rightarrow> 'a list list" where
  "file_groups xs =
     (if length xs \<le> 1 then [xs]
      else groups_of (if length xs mod FILE_IO_WORKERS > 0 then length xs div FILE_IO_WORKERS + 1
                      else length xs div FILE_IO_WORKERS) xs)"

text \<open>A worker publishes its files in order until one fails.\<close>

fun publish_group ::
  "disk \<Rightarrow> (string \<times> bytes) list \<Rightarrow> (string \<times> bytes) list \<Rightarrow> unit sresult \<times> (string \<times> bytes) list" where
  "publish_group D [] files = (Inr (), files)"
| "publish_group D ((digest, bs) # rest) files =
     (case on_publish D digest of
        Some f \<Rightarrow> (Inl f, files)
      | None \<Rightarrow> publish_group D rest (bt_insert digest bs files))"

fun publish_groups ::
  "disk \<Rightarrow> (string \<times> bytes) list list \<Rightarrow> (string \<times> bytes) list \<Rightarrow> unit sresult \<times> (string \<times> bytes) list" where
  "publish_groups D [] files = (Inr (), files)"
| "publish_groups D (g # gs) files =
     (case publish_group D g files of
        (r, files) \<Rightarrow>
          (case publish_groups D gs files of
             (r', files) \<Rightarrow> ((case r of Inl f \<Rightarrow> Inl f | Inr _ \<Rightarrow> r'), files)))"

definition publish_files ::
  "disk \<Rightarrow> (string \<times> bytes) list \<Rightarrow> (string \<times> bytes) list \<Rightarrow> unit sresult \<times> (string \<times> bytes) list" where
  "publish_files D filed files =
     (if filed = [] then (Inr (), files)
      else
        (case on_sync D of
           Some f \<Rightarrow> (Inl f, files)
         | None \<Rightarrow>
             (case publish_groups D (file_groups filed) files of
                (Inl f, files) \<Rightarrow> (Inl f, files)
              | (Inr _, files) \<Rightarrow> (faulty (on_sync_parents D), files))))"

definition put_hashed_objects ::
  "ext \<Rightarrow> disk \<Rightarrow> int sresult \<Rightarrow> store \<Rightarrow> device \<Rightarrow> (string \<times> bytes) list \<Rightarrow> body_store
     \<Rightarrow> unit sresult \<times> body_store" where
  "put_hashed_objects X D clock s d objs B =
     (case bindE (require_device X s d) (\<lambda>_.
           bindE (faulty (on_staging_path D)) (\<lambda>_.
           bindE (foldE (small_file_step B) [] objs) (\<lambda>small_files.
           bindE (foldE (route_step D B small_files) ([], []) objs) (\<lambda>(inlined, filed).
           bindE (mapE (\<lambda>(digest, _). faulty (on_stage D digest)) filed) (\<lambda>_.
           Inr (inlined, filed)))))) of
        Inl f \<Rightarrow> (Inl f, B)
      | Inr (inlined, filed) \<Rightarrow>
          (case publish_files D filed (bs_files B) of
             (Inl f, files) \<Rightarrow> (Inl f, B\<lparr>bs_files := files\<rparr>)
           | (Inr _, files) \<Rightarrow>
               (case bindE (require_device X s d) (\<lambda>_.
                     bindE (foldE (file_step clock d) (B\<lparr>bs_files := files\<rparr>) filed) (\<lambda>B.
                     bindE (put_inline (sha256 X) clock d inlined B) (\<lambda>B.
                     bindE (faulty (on_commit D)) (\<lambda>_. Inr B)))) of
                  Inl f \<Rightarrow> (Inl f, B\<lparr>bs_files := files\<rparr>)
                | Inr B' \<Rightarrow> (Inr (), B'))))"

definition identity_check :: "(bytes \<Rightarrow> string) \<Rightarrow> string \<times> bytes \<Rightarrow> unit sresult" where
  "identity_check H = (\<lambda>(digest, bs).
     bindE (lift_wire (validate_hash digest)) (\<lambda>_.
     if length bs > MAX_TARGET_BYTES \<or> H bs \<noteq> digest then fail ''hash-mismatch'' 400 else Inr ()))"

definition put_objects ::
  "ext \<Rightarrow> disk \<Rightarrow> int sresult \<Rightarrow> store \<Rightarrow> device \<Rightarrow> (string \<times> bytes) list \<Rightarrow> body_store
     \<Rightarrow> unit sresult \<times> body_store" where
  "put_objects X D clock s d objs B =
     (case bindE (require_device X s d) (\<lambda>_. foldE (\<lambda>_. identity_check (sha256 X)) () objs) of
        Inl f \<Rightarrow> (Inl f, B)
      | Inr _ \<Rightarrow> put_hashed_objects X D clock s d objs B)"

definition put_object ::
  "ext \<Rightarrow> disk \<Rightarrow> int sresult \<Rightarrow> store \<Rightarrow> device \<Rightarrow> string \<Rightarrow> bytes \<Rightarrow> body_store \<Rightarrow> unit sresult \<times> body_store" where
  "put_object X D clock s d digest bs B =
     (case bindE (lift_wire (validate_hash digest)) (\<lambda>_.
           if length bs > MAX_TARGET_BYTES then fail ''object-too-large'' 413 else Inr ()) of
        Inl f \<Rightarrow> (Inl f, B)
      | Inr _ \<Rightarrow> put_objects X D clock s d [(digest, bs)] B)"

section \<open>Lemmas\<close>

lemma faulty_simps [simp]: "faulty None = Inr ()" "faulty m = Inr u \<longleftrightarrow> m = None"
  by (auto simp: faulty_def split: option.split)

lemma body_error_ok [simp]: "body_error (Inr x) = Inr x"
  by (simp add: body_error_def)

lemma body_error_Inr [simp]: "body_error m = Inr x \<longleftrightarrow> m = Inr x"
  by (auto simp: body_error_def split: sum.splits store_error.splits)

lemma validate_hash_lift [simp]: "lift_wire (validate_hash h) = Inr u \<longleftrightarrow> hash_ok h"
  by (simp add: hash_ok_def)

lemma groups_of_concat: "n > 0 \<Longrightarrow> concat (groups_of n xs) = xs"
proof (induction n xs rule: groups_of.induct)
  case (1 n xs)
  then show ?case by (subst groups_of.simps) auto
qed

lemma file_groups_concat [simp]: "concat (file_groups xs) = xs"
proof (cases "length xs \<le> 1")
  case False
  then have "length xs mod FILE_IO_WORKERS > 0 \<or> length xs div FILE_IO_WORKERS > 0"
    by (auto simp: FILE_IO_WORKERS_def)
  with False show ?thesis by (auto simp: file_groups_def intro: groups_of_concat)
qed (simp add: file_groups_def)

text \<open>When all files are published, each has its body, and no other file changed.\<close>

lemma publish_group_ok:
  "publish_group D objs files = (Inr (), files') \<Longrightarrow> files' = fold (\<lambda>(h, bs). bt_insert h bs) objs files"
  by (induction D objs files rule: publish_group.induct) (auto split: option.splits)

lemma publish_groups_ok:
  "publish_groups D gs files = (Inr (), files') \<Longrightarrow> files' = fold (\<lambda>(h, bs). bt_insert h bs) (concat gs) files"
proof (induction gs arbitrary: files)
  case (Cons g gs)
  obtain r files1 where g: "publish_group D g files = (r, files1)" by fastforce
  obtain r' files2 where gs: "publish_groups D gs files1 = (r', files2)" by fastforce
  from Cons.prems g gs have "r = Inr ()" "r' = Inr ()" "files2 = files'" by (auto split: sum.splits)
  with publish_group_ok [of D g files files1] Cons.IH [of files1] g gs show ?case by simp
qed simp

lemma publish_files_ok:
  assumes "publish_files D filed files = (Inr (), files')"
  shows "files' = fold (\<lambda>(h, bs). bt_insert h bs) filed files"
  using assms publish_groups_ok [of D "file_groups filed" files]
  by (auto simp: publish_files_def split: if_splits option.splits sum.splits prod.splits)

lemma published:
  assumes "bt_inv files"
  shows "map_of (fold (\<lambda>(h, bs). bt_insert h bs) objs files) h
    = (case map_of (rev objs) h of None \<Rightarrow> map_of files h | Some bs \<Rightarrow> Some bs)"
  using bt.fold_insert_lookup [OF assms] .

lemma record_object_frame:
  "bs_files (record_object st B obj) = bs_files B" "bs_small (record_object st B obj) = bs_small B"
  by (cases obj; simp add: record_object_def)+

lemma record_objects_frame:
  "bs_files (foldl (record_object st) B objs) = bs_files B" "bs_small (foldl (record_object st) B objs) = bs_small B"
  by (induction objs arbitrary: B) (simp_all add: record_object_frame)

lemma record_object_lookup:
  assumes "bt_inv (bs_placed B)"
  shows "bt_inv (bs_placed (record_object st B (h, bs)))
    \<and> map_of (bs_placed (record_object st B (h, bs))) k =
       (if k = h \<and> map_of (bs_placed B) h = None then Some (int (length bs), st) else map_of (bs_placed B) k)"
  using assms by (auto simp: record_object_def has_def bt_inv_insert map_of_bt_insert)

lemma record_objects_lookup:
  assumes "bt_inv (bs_placed B)"
  shows "bt_inv (bs_placed (foldl (record_object st) B objs))
    \<and> map_of (bs_placed (foldl (record_object st) B objs)) k =
       (case map_of (bs_placed B) k of
          Some r \<Rightarrow> Some r
        | None \<Rightarrow> map_option (\<lambda>bs. (int (length bs), st)) (map_of objs k))"
  using assms
proof (induction objs arbitrary: B)
  case (Cons obj objs)
  obtain h bs where obj: "obj = (h, bs)" by fastforce
  note R = record_object_lookup [OF Cons.prems, of st h bs]
  from Cons.IH [OF conjunct1 [OF R]] R show ?case by (auto simp: obj split: option.split)
qed (simp split: option.split)

lemma leases_frame:
  "foldE (\<lambda>B (h, _). lease_object clock d B h) B objs = Inr B' \<Longrightarrow>
     bs_files B' = bs_files B \<and> bs_small B' = bs_small B \<and> bs_placed B' = bs_placed B"
  by (induction objs arbitrary: B) (auto simp: bindE_Inr lease_object_def)

lemma file_steps_lookup:
  assumes "foldE (file_step clock d) B objs = Inr B'"
  shows "bs_files B' = bs_files B \<and> bs_small B' = bs_small B
    \<and> bs_placed B' = bs_placed (foldl (record_object ''file'') B objs)"
proof -
  have same: "bs_placed (foldl (record_object st) B objs) = bs_placed (foldl (record_object st) C objs)"
    if "bs_placed B = bs_placed C" for st and B C :: body_store and objs
    using that
  proof (induction objs arbitrary: B C)
    case (Cons obj objs)
    have "bs_placed (record_object st B obj) = bs_placed (record_object st C obj)"
      using Cons.prems by (cases obj) (simp add: record_object_def)
    from Cons.IH [OF this] show ?case by simp
  qed simp
  show ?thesis using assms
  proof (induction objs arbitrary: B)
    case (Cons obj objs)
    then obtain B1 where l: "file_step clock d B obj = Inr B1" and r: "foldE (file_step clock d) B1 objs = Inr B'"
      by (auto simp: bindE_Inr)
    from l have "bs_files B1 = bs_files B" "bs_small B1 = bs_small B"
      "bs_placed B1 = bs_placed (record_object ''file'' B obj)"
      by (auto simp: file_step_def lease_object_def bindE_Inr record_object_frame)
    with Cons.IH [OF r] same [of B1 "record_object ''file'' B obj" "''file''"] show ?case
      by (simp add: record_objects_frame record_object_frame)
  qed simp
qed

lemma placement_Inr:
  "placement B h = Inr m \<longleftrightarrow> hash_ok h \<and>
     (case map_of (bs_placed B) h of
        None \<Rightarrow> m = None
      | Some (n, st) \<Rightarrow> n \<ge> 0 \<and> (st = ''inline'' \<and> m = Some (nat n, True) \<or> st = ''file'' \<and> m = Some (nat n, False)))"
  by (auto simp: placement_def bindE_Inr hash_ok_def split: option.split prod.split)

definition body_readable :: "(bytes \<Rightarrow> string) \<Rightarrow> disk \<Rightarrow> body_store \<Rightarrow> string \<Rightarrow> bytes \<Rightarrow> bool" where
  "body_readable H D B h bs \<longleftrightarrow> get_object H D B h = Inr bs \<and> object_presence D B h = Inr True
     \<and> open_object H D B h = Inr (bs, length bs) \<and> check_object_body D B h (length bs) = Inr ()"

lemma readable_file:
  assumes "hash_ok h" "H bs = h" "length bs \<le> MAX_TARGET_BYTES" "on_access D h = None"
    and "map_of (bs_placed B) h = Some (int (length bs), ''file'')" "map_of (bs_files B) h = Some bs"
  shows "body_readable H D B h bs"
proof -
  have p: "placement B h = Inr (Some (length bs, False))" using assms by (simp add: placement_Inr)
  have f: "object_file D B h = Inr (Some bs)" using assms by (simp add: object_file_def bindE_Inr hash_ok_def)
  show ?thesis using assms p f
    by (simp add: body_readable_def get_object_def placed_def file_present_def object_presence_def open_object_def
        check_object_body_def)
qed

lemma readable_inline:
  assumes "hash_ok h" "H bs = h" "length bs \<le> SMALL_OBJECT_BYTES"
    and "map_of (bs_placed B) h = Some (int (length bs), ''inline'')" "map_of (bs_small B) h = Some bs"
  shows "body_readable H D B h bs"
proof -
  have p: "placement B h = Inr (Some (length bs, True))" using assms by (simp add: placement_Inr)
  have "object_read H (bs_small B) h SMALL_OBJECT_BYTES = Inr (Some bs)"
    using assms by (simp add: object_read_def object_size_def bindE_def check_identity_def hash_ok_def)
  then have r: "body_error (object_read H (bs_small B) h SMALL_OBJECT_BYTES) = Inr (Some bs)" by simp
  have "Small_Objects.object_size (bs_small B) h = Inr (Some (length bs))"
    using assms by (simp add: object_size_def bindE_def check_identity_def hash_ok_def)
  then have z: "body_error (Small_Objects.object_size (bs_small B) h) = Inr (Some (length bs))" by simp
  have "length bs \<le> MAX_TARGET_BYTES" using assms(3) by (simp add: SMALL_OBJECT_BYTES_def MAX_TARGET_BYTES_def)
  then show ?thesis using assms p r z
    by (simp add: body_readable_def get_object_def placed_def inline_body_def object_presence_def open_object_def
        check_object_body_def inline_present_def)
qed

definition into_database :: "disk \<Rightarrow> body_store \<Rightarrow> string list \<Rightarrow> string \<times> bytes \<Rightarrow> bool" where
  "into_database D B small_files = (\<lambda>(h, bs). length bs \<le> SMALL_OBJECT_BYTES
     \<and> (h \<in> set small_files \<longrightarrow> filed_body_differs D B h bs = Inr False))"

lemma route_step_Inr:
  "route_step D B sf (inlined, filed) (h, bs) = Inr r \<longleftrightarrow>
     hash_ok h \<and> length bs \<le> MAX_TARGET_BYTES
     \<and> (length bs \<le> SMALL_OBJECT_BYTES \<and> h \<in> set sf \<longrightarrow> is_ok (filed_body_differs D B h bs))
     \<and> r = (if into_database D B sf (h, bs) then (inlined @ [(h, bs)], filed)
            else if h \<in> fst ` set filed then (inlined, filed) else (inlined, filed @ [(h, bs)]))"
  by (cases "filed_body_differs D B h bs")
    (auto simp: route_step_def into_database_def bindE_Inr hash_ok_def is_ok_def)

lemma routed:
  assumes "foldE (route_step D B sf) (inlined, filed) objs = Inr (inlined', filed')" and "distinct (map fst filed)"
  shows "(\<forall>(h, bs) \<in> set objs. hash_ok h \<and> length bs \<le> MAX_TARGET_BYTES)
    \<and> inlined' = inlined @ filter (into_database D B sf) objs
    \<and> fst ` set filed' = fst ` set filed \<union> fst ` set (filter (\<lambda>obj. \<not> into_database D B sf obj) objs)
    \<and> set filed' \<subseteq> set filed \<union> set (filter (\<lambda>obj. \<not> into_database D B sf obj) objs) \<and> distinct (map fst filed')"
  using assms
proof (induction objs arbitrary: inlined filed)
  case (Cons obj objs)
  obtain h bs where obj: "obj = (h, bs)" by fastforce
  from Cons.prems(1) obtain i1 f1 where s: "route_step D B sf (inlined, filed) (h, bs) = Inr (i1, f1)"
    and r: "foldE (route_step D B sf) (i1, f1) objs = Inr (inlined', filed')"
    by (auto simp: bindE_Inr obj)
  have d: "distinct (map fst f1)" using s Cons.prems(2) by (auto simp: route_step_Inr split: if_splits)
  from s have ok: "hash_ok h" "length bs \<le> MAX_TARGET_BYTES" by (simp_all add: route_step_Inr)
  note IH = Cons.IH [OF r d]
  consider "into_database D B sf (h, bs)" "i1 = inlined @ [(h, bs)]" "f1 = filed"
    | "\<not> into_database D B sf (h, bs)" "i1 = inlined" "f1 = filed" "h \<in> fst ` set filed"
    | "\<not> into_database D B sf (h, bs)" "i1 = inlined" "f1 = filed @ [(h, bs)]"
    using s by (auto simp: route_step_Inr split: if_splits)
  then show ?case
  proof cases
    case 1
    with IH ok show ?thesis by (simp add: obj)
  next
    case 2
    with IH ok show ?thesis by (auto simp: obj insert_absorb)
  next
    case 3
    with IH ok show ?thesis by (simp add: obj)
  qed
qed simp

lemma small_file_step_Inr:
  "small_file_step B found (h, bs) = Inr f1 \<Longrightarrow> set f1 = set found \<union>
      (if length bs \<le> SMALL_OBJECT_BYTES \<and> (\<exists>n. placement B h = Inr (Some (n, False))) then {h} else {})"
proof (cases "placement B h")
  case (Inr m)
  assume "small_file_step B found (h, bs) = Inr f1"
  with Inr show ?thesis by (cases m; cases "snd (the m)") (auto simp: small_file_step_def prod_eq_iff split: if_splits prod.splits)
qed (auto simp: small_file_step_def split: if_splits)

lemma small_files_found:
  assumes "foldE (small_file_step B) found objs = Inr sf"
  shows "set sf = set found \<union>
    {h. \<exists>bs n. (h, bs) \<in> set objs \<and> length bs \<le> SMALL_OBJECT_BYTES \<and> placement B h = Inr (Some (n, False))}"
  using assms
proof (induction objs arbitrary: found)
  case (Cons obj objs)
  obtain h bs where obj: "obj = (h, bs)" by fastforce
  from Cons.prems obtain f1 where s: "small_file_step B found (h, bs) = Inr f1"
    and r: "foldE (small_file_step B) f1 objs = Inr sf" by (auto simp: bindE_Inr obj)
  show ?case unfolding Cons.IH [OF r] small_file_step_Inr [OF s] by (auto simp: obj)
qed simp

lemma fresh_step_Inr:
  assumes "fresh_step B fresh (h, bs) = Inr f1"
  obtains m where "placement B h = Inr m" "case m of None \<Rightarrow> True | Some (n, _) \<Rightarrow> n = length bs"
    "f1 = (if \<exists>n. placement B h = Inr (Some (n, False)) then fresh else fresh @ [(h, bs)])"
proof (cases "placement B h")
  case (Inr m)
  show ?thesis
  proof (rule that)
    show "placement B h = Inr m" by (rule Inr)
    show "case m of None \<Rightarrow> True | Some (n, _) \<Rightarrow> n = length bs"
      "f1 = (if \<exists>n. placement B h = Inr (Some (n, False)) then fresh else fresh @ [(h, bs)])"
      using assms Inr by (cases m; cases "snd (the m)"; auto simp: fresh_step_def prod_eq_iff split: if_splits prod.splits)+
  qed
qed (use assms in \<open>simp add: fresh_step_def\<close>)

lemma fresh_found:
  assumes "foldE (fresh_step B) fresh objs = Inr fresh'"
  shows "fresh' = fresh @ filter (\<lambda>(h, bs). \<forall>n. placement B h \<noteq> Inr (Some (n, False))) objs
    \<and> (\<forall>(h, bs) \<in> set objs. \<exists>m. placement B h = Inr m \<and> (case m of None \<Rightarrow> True | Some (n, _) \<Rightarrow> n = length bs))"
  using assms
proof (induction objs arbitrary: fresh)
  case (Cons obj objs)
  obtain h bs where obj: "obj = (h, bs)" by fastforce
  from Cons.prems obtain f1 where s: "fresh_step B fresh (h, bs) = Inr f1"
    and r: "foldE (fresh_step B) f1 objs = Inr fresh'" by (auto simp: bindE_Inr obj)
  from s obtain m where m: "placement B h = Inr m" "case m of None \<Rightarrow> True | Some (n, _) \<Rightarrow> n = length bs"
    "f1 = (if \<exists>n. placement B h = Inr (Some (n, False)) then fresh else fresh @ [(h, bs)])"
    by (rule fresh_step_Inr)
  note IH = Cons.IH [OF r]
  show ?case
  proof
    show "fresh' = fresh @ filter (\<lambda>(h, bs). \<forall>n. placement B h \<noteq> Inr (Some (n, False))) (obj # objs)"
      using conjunct1 [OF IH] m(3) by (simp add: obj)
    show "\<forall>(h, bs) \<in> set (obj # objs). \<exists>m. placement B h = Inr m \<and> (case m of None \<Rightarrow> True | Some (n, _) \<Rightarrow> n = length bs)"
      using conjunct2 [OF IH] m(1,2) by (simp add: obj)
  qed
qed simp

text \<open>What an accepted group went through.\<close>

lemma put_hashed_steps:
  assumes "put_hashed_objects X D clock s d objs B = (Inr (), B')"
  obtains sf inlined filed B2 fresh small where
    "foldE (small_file_step B) [] objs = Inr sf"
    "foldE (route_step D B sf) ([], []) objs = Inr (inlined, filed)"
    "bs_files B' = fold (\<lambda>(h, bs). bt_insert h bs) filed (bs_files B)"
    "bs_placed B2 = bs_placed (foldl (record_object ''file'') B filed)"
    "foldE (fresh_step B2) [] inlined = Inr fresh"
    "insert_batch (sha256 X) (bs_small B) fresh = Inr small"
    "bs_small B' = small"
    "bs_placed B' = bs_placed (foldl (record_object ''inline'') (B2\<lparr>bs_small := small\<rparr>) fresh)"
proof -
  from assms obtain inlined filed files sf where
    sf: "foldE (small_file_step B) [] objs = Inr sf"
    and r: "foldE (route_step D B sf) ([], []) objs = Inr (inlined, filed)"
    and p: "publish_files D filed (bs_files B) = (Inr (), files)"
    and t: "bindE (require_device X s d) (\<lambda>_.
              bindE (foldE (file_step clock d) (B\<lparr>bs_files := files\<rparr>) filed) (\<lambda>B.
              put_inline (sha256 X) clock d inlined B)) = Inr B'"
    by (auto simp: put_hashed_objects_def bindE_Inr split: sum.splits prod.splits)
  from t obtain B2 where b2: "foldE (file_step clock d) (B\<lparr>bs_files := files\<rparr>) filed = Inr B2"
    and i: "put_inline (sha256 X) clock d inlined B2 = Inr B'" by (auto simp: bindE_Inr)
  from i obtain fresh small where f: "foldE (fresh_step B2) [] inlined = Inr fresh"
    and sm: "insert_batch (sha256 X) (bs_small B2) fresh = Inr small"
    and l: "foldE (\<lambda>B (h, _). lease_object clock d B h)
       (foldl (record_object ''inline'') (B2\<lparr>bs_small := small\<rparr>) fresh) inlined = Inr B'"
    by (auto simp: put_inline_def bindE_Inr)
  have placed: "bs_placed (foldl (record_object st) (B\<lparr>bs_files := files\<rparr>) filed) = bs_placed (foldl (record_object st) B filed)"
    for st
  proof (induction filed rule: rev_induct)
    case (snoc obj filed)
    then show ?case by (cases obj) (simp add: record_object_def)
  qed simp
  show thesis
    by (rule that [OF sf r _ _ f _ _ _])
      (use file_steps_lookup [OF b2] leases_frame [OF l] publish_files_ok [OF p] sm placed in
        \<open>simp_all add: record_objects_frame\<close>)
qed

section \<open>Properties\<close>

text \<open>C31. An upload that is acknowledged can be served: when a group of bodies is accepted, every one of
  them is read back whole and under its digest, by every way a body is looked up, whether it was new, known or
  the file that should have held it was damaged. Assumed is that the rows already there give
  bodies their lengths and keep long bodies in files, that the bodies of the group do not share a
  digest, and that the files can be opened afterwards.\<close>

theorem uploads_readable:
  assumes put: "put_objects X D clock s d objs B = (Inr (), B')"
    and inj: "inj_on (sha256 X) (snd ` set objs)"
    and rows: "\<And>h bs. (h, bs) \<in> set objs \<Longrightarrow>
      map_of (bs_placed B) h \<in> {None, Some (int (length bs), ''file'')}
        \<union> (if length bs \<le> SMALL_OBJECT_BYTES then {Some (int (length bs), ''inline'')} else {})"
    and tables: "bt_inv (bs_placed B)" "bt_inv (bs_files B)" "rows_ok (sha256 X) (bs_small B)"
    and disk: "\<And>h. on_access D h = None"
    and obj: "(h, bs) \<in> set objs"
  shows "body_readable (sha256 X) D B' h bs"
proof -
  have digests: "hash_ok k \<and> length b \<le> MAX_TARGET_BYTES \<and> sha256 X b = k" if "(k, b) \<in> set objs" for k b
  proof -
    have "foldE (\<lambda>_. identity_check (sha256 X)) () objs = Inr ()"
      using put by (auto simp: put_objects_def bindE_Inr split: sum.splits)
    then have "list_all (\<lambda>obj. identity_check (sha256 X) obj = Inr ()) objs" by (simp only: foldE_all)
    with that show ?thesis by (auto simp: list_all_iff identity_check_def bindE_Inr hash_ok_def split: if_splits)
  qed
  have same: "b = bs" if "(h, b) \<in> set objs" for b
    using inj obj that digests by (metis image_eqI inj_onD snd_conv)
  have hashed: "put_hashed_objects X D clock s d objs B = (Inr (), B')"
    using put by (auto simp: put_objects_def split: sum.splits)
  from put_hashed_steps [OF hashed] obtain sf inlined filed B2 fresh small where
    sf: "foldE (small_file_step B) [] objs = Inr sf"
    and route: "foldE (route_step D B sf) ([], []) objs = Inr (inlined, filed)"
    and files: "bs_files B' = fold (\<lambda>(h, bs). bt_insert h bs) filed (bs_files B)"
    and p2: "bs_placed B2 = bs_placed (foldl (record_object ''file'') B filed)"
    and fresh: "foldE (fresh_step B2) [] inlined = Inr fresh"
    and ins: "insert_batch (sha256 X) (bs_small B) fresh = Inr small"
    and small: "bs_small B' = small"
    and p3: "bs_placed B' = bs_placed (foldl (record_object ''inline'') (B2\<lparr>bs_small := small\<rparr>) fresh)" .
  have d0: "distinct (map fst ([] :: (string \<times> bytes) list))" by simp
  note R = routed [OF route d0]
  have inl: "inlined = filter (into_database D B sf) objs" and dist: "distinct (map fst filed)" using R by simp_all
  have filed_iff: "map_of filed h = (if into_database D B sf (h, bs) then None else Some bs)"
  proof -
    have "map_of filed h = Some b \<longleftrightarrow> (h, b) \<in> set filed" for b using dist by simp
    moreover have "(h, b) \<in> set filed \<longleftrightarrow> b = bs \<and> \<not> into_database D B sf (h, bs)" for b
    proof -
      let ?out = "filter (\<lambda>obj. \<not> into_database D B sf obj) objs"
      have out: "(h, b) \<in> set ?out \<longleftrightarrow> b = bs \<and> \<not> into_database D B sf (h, bs)" for b
        using same [of b] obj by (cases "b = bs") auto
      have sub: "set filed \<subseteq> set ?out" and keys: "fst ` set filed = fst ` set ?out" using R by simp_all
      show ?thesis
      proof
        assume "(h, b) \<in> set filed"
        then show "b = bs \<and> \<not> into_database D B sf (h, bs)" using sub out by blast
      next
        assume b: "b = bs \<and> \<not> into_database D B sf (h, bs)"
        then have "(h, bs) \<in> set ?out" using out [of bs] by blast
        then have "fst (h, bs) \<in> fst ` set filed" unfolding keys by (rule imageI)
        then obtain b' where "(h, b') \<in> set filed" by auto
        moreover from this have "b' = bs" using sub out by blast
        ultimately show "(h, b) \<in> set filed" using b by simp
      qed
    qed
    ultimately show ?thesis by (cases "map_of filed h") auto
  qed
  have rev: "map_of (rev filed) = map_of filed"
    using dist by (subst map_of_inject_set) (simp_all add: rev_map [symmetric])
  have on_disk: "map_of (bs_files B') h = (if into_database D B sf (h, bs) then map_of (bs_files B) h else Some bs)"
    using filed_iff published [OF tables(2), of filed h] by (simp add: files rev)
  note P2 = record_objects_lookup [OF tables(1), of "''file''" filed, folded p2]
  have "bt_inv (bs_placed (B2\<lparr>bs_small := small\<rparr>))" using P2 by simp
  note P3 = record_objects_lookup [OF this, of "''inline''" fresh, folded p3, simplified]
  have ok: "hash_ok h" "length bs \<le> MAX_TARGET_BYTES" "sha256 X bs = h" using digests [OF obj] by simp_all
  have sf_iff: "h \<in> set sf \<longleftrightarrow> length bs \<le> SMALL_OBJECT_BYTES \<and> (\<exists>n. placement B h = Inr (Some (n, False)))"
  proof -
    have "h \<in> set sf \<longleftrightarrow> (\<exists>b n. (h, b) \<in> set objs \<and> length b \<le> SMALL_OBJECT_BYTES \<and> placement B h = Inr (Some (n, False)))"
      unfolding small_files_found [OF sf] by simp
    then show ?thesis using same obj by metis
  qed
  have fr: "fresh = filter (\<lambda>(h, bs). \<forall>n. placement B2 h \<noteq> Inr (Some (n, False))) inlined"
    using fresh_found [OF fresh] by simp
  have fresh_body: "map_of fresh h = Some bs" if "(h, bs) \<in> set fresh"
  proof -
    from that obtain b where b: "map_of fresh h = Some b" using weak_map_of_SomeI by fast
    then have "(h, b) \<in> set objs" using map_of_SomeD [OF b] by (simp add: fr inl)
    from same [OF this] b show ?thesis by simp
  qed
  have in_small: "map_of (bs_small B') h = Some bs" if "(h, bs) \<in> set fresh"
    using insert_batch_Inr [OF tables(3) ins] that small by auto
  show ?thesis
  proof (cases "into_database D B sf (h, bs)")
    case False
    have "map_of (bs_placed B) h \<noteq> Some (int (length bs), ''inline'')" if "length bs \<le> SMALL_OBJECT_BYTES"
      using False that sf_iff by (auto simp: into_database_def placement_Inr)
    then have "map_of (bs_placed B) h \<in> {None, Some (int (length bs), ''file'')}" using rows [OF obj] by (auto split: if_splits)
    then have "map_of (bs_placed B') h = Some (int (length bs), ''file'')" using P2 P3 filed_iff False by auto
    with readable_file [of h "sha256 X" bs D B'] ok disk on_disk False show ?thesis by simp
  next
    case True
    then have short: "length bs \<le> SMALL_OBJECT_BYTES" and mem: "(h, bs) \<in> set inlined"
      using obj by (simp_all add: into_database_def inl)
    consider "map_of (bs_placed B) h = Some (int (length bs), ''file'')"
      | "map_of (bs_placed B) h = None" | "map_of (bs_placed B) h = Some (int (length bs), ''inline'')"
      using rows [OF obj] by (auto split: if_splits)
    then show ?thesis
    proof cases
      case 1
      then have "placement B h = Inr (Some (length bs, False))" using ok by (simp add: placement_Inr)
      with True sf_iff short have "filed_body_differs D B h bs = Inr False" by (auto simp: into_database_def)
      then obtain content where c: "map_of (bs_files B) h = Some content" "take (length bs + 1) content = bs"
        by (auto simp: filed_body_differs_def object_file_def bindE_Inr split: option.splits)
      have "length content \<le> length bs"
      proof (rule ccontr)
        assume "\<not> length content \<le> length bs"
        then have "length (take (length bs + 1) content) = length bs + 1" by simp
        with c(2) show False by simp
      qed
      with c have "map_of (bs_files B) h = Some bs" by simp
      moreover have "map_of (bs_placed B') h = Some (int (length bs), ''file'')" using P2 P3 1 by simp
      ultimately show ?thesis using readable_file [of h "sha256 X" bs D B'] ok disk on_disk True by simp
    next
      case 2
      then have none: "map_of (bs_placed B2) h = None" using P2 filed_iff True by simp
      then have "(h, bs) \<in> set fresh" using mem by (simp add: fr placement_Inr)
      with fresh_body in_small none P3 ok short readable_inline [of h "sha256 X" bs B' D] show ?thesis by simp
    next
      case 3
      then have "map_of (bs_placed B2) h = Some (int (length bs), ''inline'')" using P2 by simp
      moreover from this have "(h, bs) \<in> set fresh" using mem by (simp add: fr placement_Inr)
      ultimately show ?thesis
        using in_small P3 ok short readable_inline [of h "sha256 X" bs B' D] by simp
    qed
  qed
qed

text \<open>An upload that is refused leaves no trace in the tables: what it may have changed are files, each to
  a body of the upload under its digest.\<close>

lemma publish_group_files:
  "publish_group D objs files = (r, files') \<Longrightarrow> bt_inv files \<Longrightarrow> bt_inv files'
    \<and> (\<forall>k. map_of files' k = map_of files k \<or> (\<exists>b. (k, b) \<in> set objs \<and> map_of files' k = Some b))"
proof (induction D objs files rule: publish_group.induct)
  case (2 D h bs rest files)
  show ?case
  proof (cases "on_publish D h")
    case None
    with "2.prems" have p: "publish_group D rest (bt_insert h bs files) = (r, files')"
      and i: "bt_inv (bt_insert h bs files)" by (simp_all add: bt_inv_insert)
    from "2.IH" [OF None p i] show ?thesis using "2.prems"(2) by (auto simp: map_of_bt_insert split: if_splits)
  qed (use 2 in auto)
qed auto

lemma publish_groups_files:
  "publish_groups D gs files = (r, files') \<Longrightarrow> bt_inv files \<Longrightarrow> bt_inv files'
    \<and> (\<forall>k. map_of files' k = map_of files k \<or> (\<exists>b. (k, b) \<in> set (concat gs) \<and> map_of files' k = Some b))"
proof (induction gs arbitrary: r files)
  case (Cons g gs)
  obtain r1 files1 where g: "publish_group D g files = (r1, files1)" by fastforce
  obtain r2 files2 where gs: "publish_groups D gs files1 = (r2, files2)" by fastforce
  have e: "files2 = files'" using Cons.prems g gs by simp
  note I = publish_group_files [OF g Cons.prems(2)]
  from Cons.IH [OF gs [unfolded e]] I show ?case by (simp only: concat.simps set_append Un_iff) metis
qed simp

lemma publish_files_files:
  assumes "publish_files D filed files = (r, files')" and "bt_inv files"
  shows "map_of files' k = map_of files k \<or> (\<exists>b. (k, b) \<in> set filed \<and> map_of files' k = Some b)"
proof (cases "filed = [] \<or> on_sync D \<noteq> None")
  case False
  obtain r1 files1 where g: "publish_groups D (file_groups filed) files = (r1, files1)" by fastforce
  with False assms(1) have "files1 = files'" by (auto simp: publish_files_def split: sum.splits)
  with publish_groups_files [OF g assms(2)] show ?thesis by (simp only: file_groups_concat)
next
  case True
  then have "files' = files" using assms(1) by (cases "filed = []") (auto simp: publish_files_def)
  then show ?thesis by simp
qed

lemma refused_upload_files:
  assumes "put_objects X D clock s d objs B = (Inl f, B')" and "bt_inv (bs_files B)"
  shows "B' = B\<lparr>bs_files := bs_files B'\<rparr> \<and> (map_of (bs_files B') k = map_of (bs_files B) k
      \<or> (\<exists>b. (k, b) \<in> set objs \<and> map_of (bs_files B') k = Some b))"
proof (cases "B' = B")
  case False
  with assms(1) have "put_hashed_objects X D clock s d objs B = (Inl f, B')"
    by (auto simp: put_objects_def split: sum.splits)
  with False obtain sf inlined filed r files where
    route: "foldE (route_step D B sf) ([], []) objs = Inr (inlined, filed)"
    and p: "publish_files D filed (bs_files B) = (r, files)" and b: "B' = B\<lparr>bs_files := files\<rparr>"
    by (auto simp: put_hashed_objects_def bindE_Inr split: sum.splits prod.splits)
  have "set filed \<subseteq> set objs" using routed [OF route] by auto
  with publish_files_files [OF p assms(2), of k] b show ?thesis by auto
qed simp

text \<open>A refused upload: no row, small body or lease changes, and a file that did holds a body of the
  upload under its digest.\<close>

theorem refused_upload:
  assumes "bt_inv (bs_files B)"
  shows "case put_objects X D clock s d objs B of
     (Inr _, _) \<Rightarrow> True
   | (Inl _, B') \<Rightarrow> B' = B\<lparr>bs_files := bs_files B'\<rparr>
       \<and> (\<forall>k. map_of (bs_files B') k = map_of (bs_files B) k
            \<or> (\<exists>b. (k, b) \<in> set objs \<and> map_of (bs_files B') k = Some b))"
  using refused_upload_files [OF _ assms] by (auto split: prod.split sum.split)

section \<open>A concrete upload\<close>

definition sample_library :: store where
  "sample_library = \<lparr>lib_head = \<lparr>head_library_id = ''l'', head_epoch = ''e'', head_seq = sequence_from 0,
       head_id = ''h'', min_retained_seq = sequence_from 0\<rparr>,
     devices = [(''d'', \<lparr>dr_verifier = [], dr_revoked = False, dr_ack = 0, dr_name = [], dr_request = None,
       dr_last_ack = None\<rparr>)],
     writers = [], claims = [], writer_versions = [], units = [], retired = [], unit_parents = [], journal = [],
     operations = [], state_pins = [], format_level = 1, announced = 0\<rparr>"

definition sample_disk :: disk where
  "sample_disk = \<lparr>on_access = (\<lambda>_. None), on_stage = (\<lambda>_. None), on_publish = (\<lambda>_. None), on_staging_path = None,
     on_sync = None, on_sync_parents = None, on_commit = None\<rparr>"

definition no_bodies :: body_store where
  "no_bodies = \<lparr>bs_placed = [], bs_small = [], bs_files = [], bs_leases = []\<rparr>"

definition sample_device :: device where
  "sample_device = \<lparr>dev_id = ''d'', dev_format = None\<rparr>"

lemma sample_admitted_device: "require_device X sample_library sample_device = Inr ()"
  by (simp add: require_device_def active_def stored_format_def read_unit_def admit_format_def sample_library_def
      sample_device_def)

lemma uploads_readable_witness:
  "case put_objects (sample_ext JNull) sample_disk (Inr 0) sample_library sample_device [(replicate 64 CHR ''0'', [1, 2])]
      no_bodies of
     (Inr _, B') \<Rightarrow> body_readable (sha256 (sample_ext JNull)) sample_disk B' (replicate 64 CHR ''0'') [1, 2]
   | (Inl _, _) \<Rightarrow> False"
proof -
  let ?X = "sample_ext JNull" and ?h = "replicate 64 CHR ''0''"
  let ?put = "put_objects ?X sample_disk (Inr 0) sample_library sample_device [(?h, [1, 2])] no_bodies"
  have h: "hash_ok ?h" by (simp add: hash_ok_def list_all_iff is_lower_hex_def is_ascii_digit_def)
  have H: "sha256 ?X bs = ?h" for bs by (simp only: sample_ext_def ext.simps)
  have v: "lift_wire (validate_hash ?h) = Inr ()" using h by (simp only: validate_hash_lift)
  have i: "foldE (\<lambda>_. identity_check (sha256 ?X)) () [(?h, [1, 2])] = Inr ()"
    by (simp add: identity_check_def v H MAX_TARGET_BYTES_def del: replicate.simps)
  have p: "placement no_bodies ?h = Inr None" using h by (simp only: placement_Inr) (simp add: no_bodies_def)
  have r: "foldE (route_step sample_disk no_bodies []) ([], []) [(?h, [1, 2])] = Inr ([(?h, [1, 2])], [])"
    by (simp add: route_step_def v MAX_TARGET_BYTES_def SMALL_OBJECT_BYTES_def del: replicate.simps)
  have b: "insert_batch (sha256 ?X) [] [(?h, [1, 2])] = Inr [(?h, [1, 2])]"
    using h by (simp add: insert_batch_def insert_object_def bindE_def check_identity_def hash_ok_def H del: replicate.simps)
  obtain B' where B': "?put = (Inr (), B')"
    using i p r b
    by (simp add: put_objects_def put_hashed_objects_def put_inline_def sample_admitted_device small_file_step_def
        fresh_step_def publish_files_def lease_object_def sample_disk_def no_bodies_def SMALL_OBJECT_BYTES_def
        del: replicate.simps)
  then have "body_readable (sha256 ?X) sample_disk B' ?h [1, 2]"
    by (rule uploads_readable) (simp_all add: no_bodies_def sample_disk_def rows_ok_def)
  with B' show ?thesis by simp
qed

end
