(* ===== verification/Server_Index.thy ===== *)
theory Server_Index
  imports Server_Push Server_Objects
begin

text \<open>
  \<^verbatim>\<open>server/sync/src/store/descriptors.rs\<close> and \<^verbatim>\<open>descriptors_index.rs\<close>: before a push, the descriptors it
  names are read, the pages of their references walked, and what was found is put into the index,
  in groups of rows that are collected first and written at bounded boundaries. Bodies are those of \<open>Server_Objects\<close>;
  the index is a set of tables beside them, whose foreign keys the database enforces. A row of a descriptor holds
  the descriptor whose text the source stores and parses again.
\<close>

definition MAX_PENDING_ROWS :: nat where "MAX_PENDING_ROWS = 256"
definition MAX_PENDING_BYTES :: nat where "MAX_PENDING_BYTES = 8 * 1024 * 1024"

record node =
  nd_kind :: string
  nd_count :: int
  nd_depth :: int
  nd_first :: string
  nd_last :: string

datatype edge_table = Children_Table | Objects_Table | Relations_Table

datatype index_row =
    Row_Node string node
  | Row_Edge edge_table string string
  | Row_Descriptor string string record_descriptor

record index =
  ix_nodes :: "(string \<times> node) list"
  ix_edges :: "edge_table \<Rightarrow> (string \<times> string) list"
  ix_descriptors :: "(string \<times> string \<times> record_descriptor) list"

record pending =
  pe_rows :: "index_row list"
  pe_bytes :: nat
  pe_nodes :: "(string \<times> node) list"
  pe_descriptors :: "(string \<times> record_descriptor) list"

definition no_pending :: pending where
  "no_pending = \<lparr>pe_rows = [], pe_bytes = 0, pe_nodes = [], pe_descriptors = []\<rparr>"

section \<open>Rows that wait\<close>

definition remember_descriptor :: "string \<Rightarrow> record_descriptor \<Rightarrow> pending \<Rightarrow> pending" where
  "remember_descriptor h d pe = pe\<lparr>pe_descriptors := bt_insert h d (pe_descriptors pe)\<rparr>"

definition add_node :: "string \<Rightarrow> node \<Rightarrow> pending \<Rightarrow> pending" where
  "add_node h n pe = pe\<lparr>pe_nodes := bt_insert h n (pe_nodes pe),
     pe_bytes := pe_bytes pe + (length h + length (nd_first n) + length (nd_last n)),
     pe_rows := pe_rows pe @ [Row_Node h n]\<rparr>"

definition add_edge :: "edge_table \<Rightarrow> string \<Rightarrow> string \<Rightarrow> pending \<Rightarrow> pending" where
  "add_edge t root v pe = pe\<lparr>pe_bytes := pe_bytes pe + (length root + length v),
     pe_rows := pe_rows pe @ [Row_Edge t root v]\<rparr>"

text \<open>\<open>n\<close> is the length of the descriptor's text.\<close>

definition add_descriptor :: "string \<Rightarrow> string \<Rightarrow> record_descriptor \<Rightarrow> nat \<Rightarrow> pending \<Rightarrow> pending" where
  "add_descriptor h obj d n pe = pe\<lparr>pe_descriptors := bt_insert h d (pe_descriptors pe),
     pe_bytes := pe_bytes pe + (length h + length obj + n),
     pe_rows := pe_rows pe @ [Row_Descriptor h obj d]\<rparr>"

definition is_full :: "pending \<Rightarrow> bool" where
  "is_full pe \<longleftrightarrow> length (pe_rows pe) \<ge> MAX_PENDING_ROWS \<or> pe_bytes pe \<ge> MAX_PENDING_BYTES"

text \<open>One statement of \<^verbatim>\<open>flush\<close>: a row that is there already stays, and a row that refers to none is
  refused by the database.\<close>

definition write_row :: "body_store \<Rightarrow> index \<Rightarrow> index_row \<Rightarrow> index sresult" where
  "write_row B ix row =
     (case row of
        Row_Node h n \<Rightarrow>
          if has (ix_nodes ix) h then Inr ix
          else if \<not> has (bs_placed B) h then fail ''metadata-storage'' 503
          else Inr (ix\<lparr>ix_nodes := bt_insert h n (ix_nodes ix)\<rparr>)
      | Row_Edge t root v \<Rightarrow>
          if (root, v) \<in> set (ix_edges ix t) then Inr ix
          else if \<not> has (ix_nodes ix) root
             \<or> (case t of
                  Children_Table \<Rightarrow> \<not> has (ix_nodes ix) v
                | Objects_Table \<Rightarrow> \<not> has (bs_placed B) v
                | Relations_Table \<Rightarrow> False)
          then fail ''metadata-storage'' 503
          else Inr (ix\<lparr>ix_edges := (ix_edges ix)(t := (root, v) # ix_edges ix t)\<rparr>)
      | Row_Descriptor h obj d \<Rightarrow>
          if has (ix_descriptors ix) h then Inr ix
          else if \<not> has (bs_placed B) h \<or> \<not> has (bs_placed B) obj then fail ''metadata-storage'' 503
          else Inr (ix\<lparr>ix_descriptors := bt_insert h (obj, d) (ix_descriptors ix)\<rparr>))"

definition flush :: "body_store \<Rightarrow> pending \<Rightarrow> index \<Rightarrow> index sresult" where
  "flush B pe ix = foldE (write_row B) ix (pe_rows pe)"

section \<open>Reference trees\<close>

text \<open>The nodes below a node, as the recursive query finds them.\<close>

function child_closure :: "(string \<times> string) list \<Rightarrow> string list \<Rightarrow> string list \<Rightarrow> string list" where
  "child_closure edges [] seen = seen"
| "child_closure edges (h # queue) seen =
     (if h \<in> set seen then child_closure edges queue seen
      else child_closure edges (map snd (filter (\<lambda>e. fst e = h) edges) @ queue) (h # seen))"
  by pat_completeness auto
termination
proof (relation "inv_image (less_than <*lex*> less_than)
    (\<lambda>(edges, queue, seen). (card (snd ` set edges \<union> set queue - set seen), length queue))")
  fix edges :: "(string \<times> string) list" and h :: string and queue seen :: "string list"
  assume "h \<notin> set seen"
  let ?queue = "map snd (filter (\<lambda>e. fst e = h) edges) @ queue"
  have "snd ` set edges \<union> set ?queue - set (h # seen) \<subset> snd ` set edges \<union> set (h # queue) - set seen"
    using \<open>h \<notin> set seen\<close> by auto
  then have "card (snd ` set edges \<union> set ?queue - set (h # seen)) < card (snd ` set edges \<union> set (h # queue) - set seen)"
    by (intro psubset_card_mono) auto
  then show "((edges, ?queue, h # seen), edges, h # queue, seen) \<in> inv_image (less_than <*lex*> less_than)
      (\<lambda>(edges, queue, seen). (card (snd ` set edges \<union> set queue - set seen), length queue))" by simp
qed (auto simp: insert_Diff_if)

declare child_closure.simps [simp del]

definition require_present :: "disk \<Rightarrow> body_store \<Rightarrow> string list \<Rightarrow> unit sresult" where
  "require_present D B hs =
     foldE (\<lambda>_ h. bindE (object_presence D B h) (\<lambda>present.
       if present then Inr () else fail ''missing-dependency'' 409)) () hs"

text \<open>The query joins two selections by \<^verbatim>\<open>UNION\<close>, which gives each hash once, in order.\<close>

definition cached_hashes :: "index \<Rightarrow> string \<Rightarrow> string list" where
  "cached_hashes ix root =
     (let nodes = child_closure (ix_edges ix Children_Table) [root] [] in
      remdups_adj (sort (nodes @ map snd (filter (\<lambda>e. fst e \<in> set nodes) (ix_edges ix Objects_Table)))))"

definition validate_cached_reference :: "disk \<Rightarrow> body_store \<Rightarrow> index \<Rightarrow> string \<Rightarrow> unit sresult" where
  "validate_cached_reference D B ix root = require_present D B (cached_hashes ix root)"

definition reference_kind :: "bool \<Rightarrow> string" where
  "reference_kind rel = (if rel then ''relations'' else ''objects'')"

text \<open>The row of a child, pending or written.\<close>

definition child_node :: "index \<Rightarrow> pending \<Rightarrow> string \<Rightarrow> string \<Rightarrow> node sresult" where
  "child_node ix pe kind child =
     (let written = (case map_of (ix_nodes ix) child of
                       Some n \<Rightarrow> if nd_kind n = kind then Inr n else fail ''metadata-storage'' 503
                     | None \<Rightarrow> fail ''metadata-storage'' 503) in
      case map_of (pe_nodes pe) child of
        Some n \<Rightarrow> if nd_kind n = kind then Inr n else written
      | None \<Rightarrow> written)"

definition child_step ::
  "index \<Rightarrow> pending \<Rightarrow> string \<Rightarrow> int \<times> int \<times> string option \<times> string option \<Rightarrow> string
     \<Rightarrow> (int \<times> int \<times> string option \<times> string option) sresult" where
  "child_step ix pe kind = (\<lambda>(cnt, deepest, first_one, last_one) child.
     bindE (child_node ix pe kind child) (\<lambda>n.
     if (case last_one of None \<Rightarrow> False | Some p \<Rightarrow> p \<ge> nd_first n) then fail ''unordered-references'' 400
     else Inr (cnt + nd_count n, max deepest (nd_depth n),
               Some (case first_one of None \<Rightarrow> nd_first n | Some f \<Rightarrow> f), Some (nd_last n))))"

definition page_node :: "index \<Rightarrow> pending \<Rightarrow> string \<Rightarrow> reference_page \<Rightarrow> node sresult" where
  "page_node ix pe kind page =
     (case page of
        Branches kids \<Rightarrow>
          bindE (foldE (child_step ix pe kind) (0, 0, None, None) kids) (\<lambda>(cnt, deepest, first_one, last_one).
          case (first_one, last_one) of
            (Some f, Some l) \<Rightarrow>
              Inr \<lparr>nd_kind = kind, nd_count = cnt, nd_depth = deepest + 1, nd_first = f, nd_last = l\<rparr>
          | _ \<Rightarrow> Inl ServerPanic)
      | _ \<Rightarrow>
          (case page_values page of
             [] \<Rightarrow> Inl ServerPanic
           | v # vs \<Rightarrow>
               Inr \<lparr>nd_kind = kind, nd_count = int (length (v # vs)), nd_depth = 1, nd_first = v,
                    nd_last = last (v # vs)\<rparr>))"

definition page_table :: "reference_page \<Rightarrow> edge_table" where
  "page_table page =
     (case page of Objects _ \<Rightarrow> Objects_Table | Relations _ \<Rightarrow> Relations_Table | Branches _ \<Rightarrow> Children_Table)"

definition edge_step ::
  "disk \<Rightarrow> body_store \<Rightarrow> reference_page \<Rightarrow> string \<Rightarrow> pending \<Rightarrow> string \<Rightarrow> pending sresult" where
  "edge_step D B page digest pe v =
     bindE (case page of
              Objects _ \<Rightarrow>
                bindE (object_presence D B v) (\<lambda>present.
                if present then Inr () else fail ''missing-dependency'' 409)
            | _ \<Rightarrow> Inr ()) (\<lambda>_.
     Inr (add_edge (page_table page) digest v pe))"

definition read_page :: "ext \<Rightarrow> disk \<Rightarrow> body_store \<Rightarrow> string \<Rightarrow> reference_page sresult" where
  "read_page X D B digest =
     bindE (get_object (sha256 X) D B digest) (\<lambda>bs.
     bindE (lift_wire (canonical_decode X page_from bs MAX_METADATA_BYTES)) (\<lambda>page.
     bindE (lift_wire (page_validate X page)) (\<lambda>_. Inr page)))"

definition index_page ::
  "disk \<Rightarrow> body_store \<Rightarrow> index \<Rightarrow> string \<Rightarrow> string \<Rightarrow> reference_page \<Rightarrow> pending \<Rightarrow> pending sresult" where
  "index_page D B ix kind digest page pe =
     bindE (page_node ix pe kind page) (\<lambda>n.
     if nd_count n > int MAX_DESCRIPTOR_REFERENCES \<or> nd_depth n > int MAX_TREE_DEPTH
     then fail ''reference-tree-too-large'' 413
     else foldE (edge_step D B page digest) (add_node digest n pe) (page_values page))"

definition node_kind :: "index \<Rightarrow> pending \<Rightarrow> string \<Rightarrow> string option" where
  "node_kind ix pe digest =
     (case map_of (pe_nodes pe) digest of
        Some n \<Rightarrow> Some (nd_kind n)
      | None \<Rightarrow> map_option nd_kind (map_of (ix_nodes ix) digest))"

function tree_loop ::
  "ext \<Rightarrow> disk \<Rightarrow> body_store \<Rightarrow> index \<Rightarrow> bool \<Rightarrow> (string \<times> nat \<times> bool) list \<Rightarrow> string list \<Rightarrow> pending
     \<Rightarrow> pending sresult" where
  "tree_loop X D B ix rel [] seen pe = Inr pe"
| "tree_loop X D B ix rel ((digest, depth, expanded) # queue) seen pe =
     (case node_kind ix pe digest of
        Some existing \<Rightarrow>
          if existing \<noteq> reference_kind rel then fail ''reference-kind-mismatch'' 409
          else
            bindE (if map_of (pe_nodes pe) digest = None then validate_cached_reference D B ix digest else Inr ()) (\<lambda>_.
            tree_loop X D B ix rel queue seen pe)
      | None \<Rightarrow>
          if depth \<ge> MAX_TREE_DEPTH
             \<or> (\<not> expanded \<and> (digest \<in> set seen \<or> length seen + 1 > MAX_DESCRIPTOR_REFERENCES))
          then fail ''invalid-reference-tree'' 400
          else
            (let seen' = (if expanded then seen else digest # seen) in
             bindE (read_page X D B digest) (\<lambda>page.
             if is_branches page \<and> \<not> expanded
             then tree_loop X D B ix rel
                    (map (\<lambda>c. (c, depth + 1, False)) (page_values page) @ (digest, depth, True) # queue) seen' pe
             else if \<not> is_branches page \<and> is_relations page \<noteq> rel then fail ''reference-kind-mismatch'' 409
             else
               bindE (index_page D B ix (reference_kind rel) digest page pe) (\<lambda>pe.
               tree_loop X D B ix rel queue seen' pe))))"
  by pat_completeness auto
termination
  by (relation "inv_image (less_than <*lex*> less_than)
      (\<lambda>(X, D, B, ix, rel, queue, seen, pe). (Suc MAX_DESCRIPTOR_REFERENCES - length seen, length queue))") auto

declare tree_loop.simps [simp del]

definition prepare_reference_tree ::
  "ext \<Rightarrow> disk \<Rightarrow> body_store \<Rightarrow> index \<Rightarrow> string \<Rightarrow> bool \<Rightarrow> pending \<Rightarrow> pending sresult" where
  "prepare_reference_tree X D B ix root rel pe = tree_loop X D B ix rel [(root, 0, False)] [] pe"

section \<open>Descriptors\<close>

definition roots_of :: "record_descriptor \<Rightarrow> string list" where
  "roots_of d = opt_list (dependency_root d) @ opt_list (relation_root d)"

definition prepare_cached ::
  "ext \<Rightarrow> disk \<Rightarrow> body_store \<Rightarrow> index \<Rightarrow> string \<Rightarrow> record_descriptor \<Rightarrow> pending
     \<Rightarrow> (record_descriptor \<times> pending) sresult" where
  "prepare_cached X D B ix digest d pe =
     bindE (lift_wire (descriptor_validate X d)) (\<lambda>_.
     bindE (lift_wire (descriptor_hash X d)) (\<lambda>h.
     if h \<noteq> digest then fail ''corrupt-metadata'' 503
     else
       bindE (require_present D B (digest # object_hash d # dependencies d)) (\<lambda>_.
       bindE (foldE (\<lambda>_. validate_cached_reference D B ix) () (roots_of d)) (\<lambda>_.
       Inr (d, remember_descriptor digest d pe)))))"

definition missing_dependency :: "'a sresult \<Rightarrow> 'a sresult" where
  "missing_dependency m =
     (case m of
        Inl (Failure e) \<Rightarrow> if err_code e = ''object-not-found'' then fail ''missing-dependency'' 409 else m
      | _ \<Rightarrow> m)"

definition prepare_fresh ::
  "ext \<Rightarrow> disk \<Rightarrow> body_store \<Rightarrow> index \<Rightarrow> string \<Rightarrow> pending \<Rightarrow> (record_descriptor \<times> pending) sresult" where
  "prepare_fresh X D B ix digest pe =
     bindE (missing_dependency (get_object (sha256 X) D B digest)) (\<lambda>bs.
     bindE (lift_wire (canonical_decode X descriptor_from bs MAX_METADATA_BYTES)) (\<lambda>d.
     bindE (lift_wire (descriptor_validate X d)) (\<lambda>_.
     bindE (require_present D B (object_hash d # dependencies d)) (\<lambda>_.
     bindE (case dependency_root d of
              None \<Rightarrow> Inr pe | Some root \<Rightarrow> prepare_reference_tree X D B ix root False pe) (\<lambda>pe.
     bindE (case relation_root d of
              None \<Rightarrow> Inr pe | Some root \<Rightarrow> prepare_reference_tree X D B ix root True pe) (\<lambda>pe.
     bindE (lift_wire (canonical_encode X (descriptor_value d))) (\<lambda>body.
     Inr (d, add_descriptor digest (object_hash d) d (length body) pe))))))))"

definition prepare_descriptor ::
  "ext \<Rightarrow> disk \<Rightarrow> body_store \<Rightarrow> index \<Rightarrow> string \<Rightarrow> pending \<Rightarrow> (record_descriptor \<times> pending) sresult" where
  "prepare_descriptor X D B ix digest pe =
     (case map_of (pe_descriptors pe) digest of
        Some d \<Rightarrow> Inr (d, pe)
      | None \<Rightarrow>
          (case map_of (ix_descriptors ix) digest of
             Some (_, d) \<Rightarrow> prepare_cached X D B ix digest d pe
           | None \<Rightarrow> prepare_fresh X D B ix digest pe))"

text \<open>The groups that were written before a failure stay.\<close>

fun prepare_changes ::
  "ext \<Rightarrow> disk \<Rightarrow> body_store \<Rightarrow> unit_change list \<Rightarrow> pending \<Rightarrow> index \<Rightarrow> unit sresult \<times> index" where
  "prepare_changes X D B [] pe ix =
     (case flush B pe ix of Inl f \<Rightarrow> (Inl f, ix) | Inr ix' \<Rightarrow> (Inr (), ix'))"
| "prepare_changes X D B (c # cs) pe ix =
     (case uc_value c of
        Object digest d \<Rightarrow>
          (case for_key_of (uc_key c) (prepare_descriptor X D B ix digest pe) of
             Inl f \<Rightarrow> (Inl f, ix)
           | Inr (found, pe) \<Rightarrow>
               if found \<noteq> d then (fail ''descriptor-object-mismatch'' 409, ix)
               else if is_full pe then
                 (case flush B pe ix of
                    Inl f \<Rightarrow> (Inl f, ix)
                  | Inr ix' \<Rightarrow> prepare_changes X D B cs no_pending ix')
               else prepare_changes X D B cs pe ix)
      | _ \<Rightarrow> prepare_changes X D B cs pe ix)"

definition prepare_descriptors ::
  "ext \<Rightarrow> disk \<Rightarrow> body_store \<Rightarrow> unit_change list \<Rightarrow> index \<Rightarrow> unit sresult \<times> index" where
  "prepare_descriptors X D B changes ix = prepare_changes X D B changes no_pending ix"

section \<open>Graphs\<close>

text \<open>Everything that is reached from \<open>x\<close> by \<open>C\<close>, and what \<open>O\<close> relates it to, has the property.\<close>

definition sound_from :: "('a \<Rightarrow> bool) \<Rightarrow> ('a \<times> 'a) set \<Rightarrow> ('a \<times> 'a) set \<Rightarrow> 'a \<Rightarrow> bool" where
  "sound_from P C E x \<longleftrightarrow> (\<forall>k. (x, k) \<in> C\<^sup>* \<longrightarrow> P k \<and> (\<forall>v. (k, v) \<in> E \<longrightarrow> P v))"

lemma sound_extend:
  assumes x: "sound_from P C E x"
    and new: "\<And>r v. (r, v) \<in> C' \<Longrightarrow> (r, v) \<notin> C \<Longrightarrow> sound_from P C' E' r"
      "\<And>r v. (r, v) \<in> E' \<Longrightarrow> (r, v) \<notin> E \<Longrightarrow> sound_from P C' E' r"
  shows "sound_from P C' E' x"
proof -
  have step: "(x, k) \<in> C\<^sup>* \<or> (\<exists>r. sound_from P C' E' r \<and> (r, k) \<in> C'\<^sup>*)" if "(x, k) \<in> C'\<^sup>*" for k
    using that
  proof (induction rule: rtrancl_induct)
    case (step y z)
    from step.IH show ?case
    proof
      assume y: "(x, y) \<in> C\<^sup>*"
      show ?thesis
      proof (cases "(y, z) \<in> C")
        case False
        from new(1) [OF step.hyps(2) False] step.hyps(2) show ?thesis by blast
      qed (use y in \<open>meson rtrancl.rtrancl_into_rtrancl\<close>)
    qed (use step.hyps(2) in \<open>meson rtrancl.rtrancl_into_rtrancl\<close>)
  qed simp
  have "P k \<and> (\<forall>v. (k, v) \<in> E' \<longrightarrow> P v)" if k: "(x, k) \<in> C'\<^sup>*" for k
  proof (cases "\<exists>r. sound_from P C' E' r \<and> (r, k) \<in> C'\<^sup>*")
    case False
    with step [OF k] x have "P k" "\<And>v. (k, v) \<in> E \<Longrightarrow> P v" by (auto simp: sound_from_def)
    moreover have "(k, v) \<in> E" if "(k, v) \<in> E'" for v
      using new(2) [OF that] False by blast
    ultimately show ?thesis by blast
  qed (auto simp: sound_from_def)
  then show ?thesis by (simp add: sound_from_def)
qed

lemma sound_insert:
  assumes "P h" and fresh: "\<And>v. (h, v) \<notin> C" "\<And>v. (h, v) \<notin> E"
    and kids: "\<And>c. c \<in> cs \<Longrightarrow> sound_from P C E c" and vs: "\<And>v. v \<in> vs \<Longrightarrow> P v"
  shows "sound_from P (C \<union> {h} \<times> cs) (E \<union> {h} \<times> vs) h"
proof -
  let ?C = "C \<union> {h} \<times> cs"
  have "k = h \<or> (\<exists>c\<in>cs. (c, k) \<in> C\<^sup>*)" if "(h, k) \<in> ?C\<^sup>*" for k
    using that
  proof (induction rule: rtrancl_induct)
    case (step y z)
    then show ?case using fresh(1) by (blast intro: rtrancl.rtrancl_into_rtrancl)
  qed simp
  moreover have "P k \<and> (\<forall>v. (k, v) \<in> E \<union> {h} \<times> vs \<longrightarrow> P v)" if "k = h \<or> (\<exists>c\<in>cs. (c, k) \<in> C\<^sup>*)" for k
    using that assms unfolding sound_from_def by blast
  ultimately show ?thesis unfolding sound_from_def by blast
qed

lemma child_closure_closed:
  assumes "\<forall>a b. (a, b) \<in> set edges \<longrightarrow> a \<in> set seen \<longrightarrow> b \<in> set seen \<union> set queue"
  shows "set seen \<union> set queue \<subseteq> set (child_closure edges queue seen)
    \<and> (\<forall>(a, b)\<in>set edges. a \<in> set (child_closure edges queue seen) \<longrightarrow> b \<in> set (child_closure edges queue seen))"
  using assms
proof (induction edges queue seen rule: child_closure.induct)
  case (1 edges seen)
  then show ?case by (auto simp: child_closure.simps)
next
  case (2 edges h queue seen)
  show ?case
  proof (cases "h \<in> set seen")
    case True
    have "\<forall>a b. (a, b) \<in> set edges \<longrightarrow> a \<in> set seen \<longrightarrow> b \<in> set seen \<union> set queue" using 2(3) True by auto
    from 2(1) [OF True this] True show ?thesis by (auto simp: child_closure.simps)
  next
    case False
    let ?queue = "map snd (filter (\<lambda>e. fst e = h) edges) @ queue"
    have "b \<in> set (h # seen) \<union> set ?queue" if "(a, b) \<in> set edges" "a \<in> set (h # seen)" for a b
    proof (cases "a = h")
      case True
      with that have "b \<in> snd ` set (filter (\<lambda>e. fst e = h) edges)" by force
      then show ?thesis by simp
    qed (use that 2(3) in auto)
    then have "\<forall>a b. (a, b) \<in> set edges \<longrightarrow> a \<in> set (h # seen) \<longrightarrow> b \<in> set (h # seen) \<union> set ?queue" by blast
    from 2(2) [OF False this] False show ?thesis by (auto simp: child_closure.simps)
  qed
qed

lemma child_closure_reaches:
  assumes "(root, k) \<in> (set edges)\<^sup>*"
  shows "k \<in> set (child_closure edges [root] [])"
proof -
  have c: "root \<in> set (child_closure edges [root] [])"
    "\<And>a b. (a, b) \<in> set edges \<Longrightarrow> a \<in> set (child_closure edges [root] []) \<Longrightarrow> b \<in> set (child_closure edges [root] [])"
    using child_closure_closed [of edges "[]" "[root]"] by auto
  from assms show ?thesis by (induction rule: rtrancl_induct) (use c in blast)+
qed

section \<open>What the index says\<close>

abbreviation present :: "disk \<Rightarrow> body_store \<Rightarrow> string \<Rightarrow> bool" where
  "present D B h \<equiv> object_presence D B h = Inr True"

definition index_nodes :: "index \<Rightarrow> pending \<Rightarrow> string set" where
  "index_nodes ix pe = fst ` set (ix_nodes ix) \<union> {h. \<exists>n. Row_Node h n \<in> set (pe_rows pe)}"

definition index_edges :: "edge_table \<Rightarrow> index \<Rightarrow> pending \<Rightarrow> (string \<times> string) set" where
  "index_edges t ix pe = set (ix_edges ix t) \<union> {(r, v). Row_Edge t r v \<in> set (pe_rows pe)}"

definition sound_in :: "disk \<Rightarrow> body_store \<Rightarrow> index \<Rightarrow> pending \<Rightarrow> string \<Rightarrow> bool" where
  "sound_in D B ix pe =
     sound_from (present D B) (index_edges Children_Table ix pe) (index_edges Objects_Table ix pe)"

definition satisfied :: "disk \<Rightarrow> body_store \<Rightarrow> index \<Rightarrow> pending \<Rightarrow> record_descriptor \<Rightarrow> bool" where
  "satisfied D B ix pe d \<longleftrightarrow>
     present D B (object_hash d) \<and> list_all (present D B) (dependencies d)
     \<and> list_all (\<lambda>r. r \<in> index_nodes ix pe \<and> sound_in D B ix pe r) (roots_of d)"

definition index_ok :: "index \<Rightarrow> bool" where
  "index_ok ix \<longleftrightarrow>
     (\<forall>t. fst ` set (ix_edges ix t) \<subseteq> fst ` set (ix_nodes ix))
     \<and> (\<forall>(h, obj, d)\<in>set (ix_descriptors ix). set (roots_of d) \<subseteq> fst ` set (ix_nodes ix))"

definition pending_ok :: "disk \<Rightarrow> body_store \<Rightarrow> index \<Rightarrow> pending \<Rightarrow> bool" where
  "pending_ok D B ix pe \<longleftrightarrow>
     bt_inv (pe_nodes pe) \<and> bt_inv (pe_descriptors pe)
     \<and> (\<forall>h. has (pe_nodes pe) h \<longleftrightarrow> (\<exists>n. Row_Node h n \<in> set (pe_rows pe)))
     \<and> (\<forall>t r v. Row_Edge t r v \<in> set (pe_rows pe) \<longrightarrow> has (pe_nodes pe) r)
     \<and> (\<forall>h. has (pe_nodes pe) h \<longrightarrow> sound_in D B ix pe h)
     \<and> (\<forall>h d. map_of (pe_descriptors pe) h = Some d \<longrightarrow> present D B h \<and> satisfied D B ix pe d)
     \<and> (\<forall>h obj d. Row_Descriptor h obj d \<in> set (pe_rows pe) \<longrightarrow> set (roots_of d) \<subseteq> index_nodes ix pe)"

text \<open>\<open>pe'\<close> knows what \<open>pe\<close> knows, and what was sound stays so.\<close>

definition grown :: "disk \<Rightarrow> body_store \<Rightarrow> index \<Rightarrow> pending \<Rightarrow> index \<Rightarrow> pending \<Rightarrow> bool" where
  "grown D B ix pe ix' pe' \<longleftrightarrow>
     index_nodes ix pe \<subseteq> index_nodes ix' pe' \<and> (\<forall>x. sound_in D B ix pe x \<longrightarrow> sound_in D B ix' pe' x)"

lemma grown_refl [simp]: "grown D B ix pe ix pe"
  by (simp add: grown_def)

lemma grown_trans: "grown D B ix pe ix' pe' \<Longrightarrow> grown D B ix' pe' ix'' pe'' \<Longrightarrow> grown D B ix pe ix'' pe''"
  by (auto simp: grown_def)

lemma grown_satisfied: "grown D B ix pe ix' pe' \<Longrightarrow> satisfied D B ix pe d \<Longrightarrow> satisfied D B ix' pe' d"
  by (auto simp: grown_def satisfied_def list_all_iff)

lemma require_present_Inr: "require_present D B hs = Inr u \<longleftrightarrow> list_all (present D B) hs"
  unfolding require_present_def foldE_all by (auto simp: bindE_Inr list_all_iff split: if_splits)

lemma cached_reference_sound:
  assumes "validate_cached_reference D B ix root = Inr u"
  shows "sound_in D B ix no_pending root"
proof -
  let ?nodes = "child_closure (ix_edges ix Children_Table) [root] []"
  have "list_all (present D B) (cached_hashes ix root)"
    using assms by (simp only: validate_cached_reference_def require_present_Inr)
  then have all: "present D B k" if "k \<in> set ?nodes \<or> (\<exists>h\<in>set ?nodes. (h, k) \<in> set (ix_edges ix Objects_Table))" for k
  proof -
    have "k \<in> set (cached_hashes ix root)"
      using that by (force simp: cached_hashes_def Let_def)
    with \<open>list_all (present D B) (cached_hashes ix root)\<close> show ?thesis by (simp only: list_all_iff)
  qed
  have "present D B k \<and> (\<forall>v. (k, v) \<in> set (ix_edges ix Objects_Table) \<longrightarrow> present D B v)"
    if "(root, k) \<in> (set (ix_edges ix Children_Table))\<^sup>*" for k
    using child_closure_reaches [OF that] all by blast
  then show ?thesis by (simp add: sound_in_def sound_from_def index_edges_def no_pending_def)
qed

text \<open>What is sound among the written rows is sound with the pending ones.\<close>

lemma pending_sound:
  assumes "pending_ok D B ix pe" and "sound_in D B ix no_pending x"
  shows "sound_in D B ix pe x"
proof -
  have new: "sound_in D B ix pe r" if "(r, v) \<in> index_edges t ix pe" "(r, v) \<notin> index_edges t ix no_pending" for t r v
  proof -
    from that have "Row_Edge t r v \<in> set (pe_rows pe)" by (simp add: index_edges_def no_pending_def)
    with assms(1) have "has (pe_nodes pe) r" unfolding pending_ok_def by blast
    with assms(1) show ?thesis unfolding pending_ok_def by blast
  qed
  show ?thesis
    unfolding sound_in_def
    by (rule sound_extend [OF assms(2) [unfolded sound_in_def]]) (use new in \<open>simp_all add: sound_in_def\<close>)
qed

lemma get_object_present:
  assumes "get_object H D B h = Inr bs"
  shows "present D B h"
proof -
  obtain n is_inline where p: "placement B h = Inr (Some (n, is_inline))"
    using assms by (auto simp: get_object_def placed_def bindE_Inr ok_or_def split: option.splits)
  have d: "placed B h = Inr (n, is_inline)" using p by (simp add: placed_def)
  show ?thesis
  proof (cases is_inline)
    case True
    with assms d have "inline_body H B h n = Inr bs" by (simp add: get_object_def split: if_splits)
    then have r: "object_read H (bs_small B) h SMALL_OBJECT_BYTES = Inr (Some bs)" "length bs = n"
      by (auto simp: inline_body_def bindE_Inr ok_or_def split: option.splits if_splits)
    then have "Small_Objects.object_size (bs_small B) h = Inr (Some n)"
      by (auto simp: object_read_def object_size_def bindE_Inr split: option.splits if_splits)
    with p True show ?thesis by (simp add: object_presence_def inline_present_def)
  next
    case False
    with assms d obtain content where f: "file_present D B h = Inr content" "length (take (n + 1) content) = n"
      by (auto simp: get_object_def Let_def bindE_Inr split: if_splits)
    from f(1) have o: "object_file D B h = Inr (Some content)"
      by (auto simp: file_present_def bindE_Inr ok_or_def split: option.splits)
    have "length content = n" using f(2) by (simp add: min_def split: if_splits)
    with p False o show ?thesis by (simp add: object_presence_def)
  qed
qed

lemma read_page_present: "read_page X D B h = Inr page \<Longrightarrow> present D B h"
  using get_object_present by (auto simp: read_page_def bindE_Inr)

section \<open>Walking the pages of a reference\<close>

lemma edge_steps:
  assumes "foldE (edge_step D B page digest) pe vs = Inr pe'"
  shows "pe_rows pe' = pe_rows pe @ map (Row_Edge (page_table page) digest) vs \<and> pe_nodes pe' = pe_nodes pe
    \<and> pe_descriptors pe' = pe_descriptors pe \<and> (page_table page = Objects_Table \<longrightarrow> list_all (present D B) vs)"
  using assms
proof (induction vs arbitrary: pe)
  case (Cons v vs)
  then obtain pe1 where s: "edge_step D B page digest pe v = Inr pe1" and r: "foldE (edge_step D B page digest) pe1 vs = Inr pe'"
    by (auto simp: bindE_Inr)
  have "pe1 = add_edge (page_table page) digest v pe \<and> (page_table page = Objects_Table \<longrightarrow> present D B v)"
    using s by (cases page) (auto simp: edge_step_def page_table_def bindE_Inr split: if_splits)
  with Cons.IH [OF r] show ?case by (simp add: add_edge_def)
qed simp

text \<open>A page whose children are sound joins the pending rows.\<close>

lemma page_joins:
  assumes ok: "index_ok ix" "pending_ok D B ix pe"
    and fresh: "\<not> has (ix_nodes ix) h" "\<not> has (pe_nodes pe) h"
    and here: "present D B h"
    and kids: "is_branches page \<Longrightarrow> list_all (sound_in D B ix pe) (page_values page)"
    and join: "index_page D B ix kind h page pe = Inr pe'"
  shows "pending_ok D B ix pe' \<and> grown D B ix pe ix pe' \<and> h \<in> index_nodes ix pe' \<and> sound_in D B ix pe' h"
proof -
  obtain n where "foldE (edge_step D B page h) (add_node h n pe) (page_values page) = Inr pe'"
    using join by (auto simp: index_page_def bindE_Inr split: if_splits)
  from edge_steps [OF this] have
    rows: "pe_rows pe' = pe_rows pe @ Row_Node h n # map (Row_Edge (page_table page) h) (page_values page)"
    and nodes: "pe_nodes pe' = bt_insert h n (pe_nodes pe)" and descriptors: "pe_descriptors pe' = pe_descriptors pe"
    and vs: "page_table page = Objects_Table \<longrightarrow> list_all (present D B) (page_values page)"
    by (simp_all add: add_node_def)
  have N: "index_nodes ix pe' = insert h (index_nodes ix pe)"
    by (auto simp: index_nodes_def rows)
  have E: "index_edges t ix pe' = index_edges t ix pe \<union> {h} \<times> (if page_table page = t then set (page_values page) else {})" for t
    by (auto simp: index_edges_def rows)
  have roots: "(h, v) \<notin> index_edges t ix pe" for t v
  proof
    assume "(h, v) \<in> index_edges t ix pe"
    then consider "(h, v) \<in> set (ix_edges ix t)" | "Row_Edge t h v \<in> set (pe_rows pe)" by (auto simp: index_edges_def)
    then show False
    proof cases
      case 1
      with ok(1) have "h \<in> fst ` set (ix_nodes ix)" unfolding index_ok_def by force
      with fresh(1) show ?thesis by (simp add: has_keys)
    next
      case 2
      with ok(2) fresh(2) show ?thesis unfolding pending_ok_def by blast
    qed
  qed
  have h: "sound_in D B ix pe' h"
    unfolding sound_in_def E
  proof (rule sound_insert)
    show "sound_from (present D B) (index_edges Children_Table ix pe) (index_edges Objects_Table ix pe) c"
      if "c \<in> (if page_table page = Children_Table then set (page_values page) else {})" for c
      using that kids by (cases page) (auto simp: page_table_def is_branches_def list_all_iff sound_in_def)
    show "present D B v" if "v \<in> (if page_table page = Objects_Table then set (page_values page) else {})" for v
      using that vs by (simp add: list_all_iff split: if_splits)
  qed (use here roots in simp_all)
  have keep: "sound_in D B ix pe' x" if "sound_in D B ix pe x" for x
    unfolding sound_in_def
    by (rule sound_extend [OF that [unfolded sound_in_def]]) (use h in \<open>auto simp: E sound_in_def split: if_splits\<close>)
  have g: "grown D B ix pe ix pe'" using keep by (auto simp: grown_def N)
  note P = ok(2) [unfolded pending_ok_def]
  have has: "has (pe_nodes pe') k \<longleftrightarrow> k = h \<or> has (pe_nodes pe) k" for k
    using P by (simp add: nodes has_def map_of_bt_insert)
  have "pending_ok D B ix pe'"
    unfolding pending_ok_def
  proof (intro conjI allI impI)
    show "bt_inv (pe_nodes pe')" using P by (simp add: nodes bt_inv_insert)
    show "bt_inv (pe_descriptors pe')" using P by (simp add: descriptors)
    show "has (pe_nodes pe') k \<longleftrightarrow> (\<exists>n. Row_Node k n \<in> set (pe_rows pe'))" for k
      using P by (auto simp: has rows)
    show "has (pe_nodes pe') r" if "Row_Edge t r v \<in> set (pe_rows pe')" for t r v
    proof -
      have "r = h \<or> Row_Edge t r v \<in> set (pe_rows pe)" using that by (auto simp: rows)
      with P show ?thesis unfolding has by blast
    qed
    show "sound_in D B ix pe' k" if "has (pe_nodes pe') k" for k
    proof -
      have "k = h \<or> has (pe_nodes pe) k" using that by (simp only: has)
      with h keep P show ?thesis by blast
    qed
    show "present D B k" "satisfied D B ix pe' d" if "map_of (pe_descriptors pe') k = Some d" for k d
      using that P grown_satisfied [OF g] by (auto simp: descriptors)
    show "set (roots_of d) \<subseteq> index_nodes ix pe'" if "Row_Descriptor k obj d \<in> set (pe_rows pe')" for k obj d
    proof -
      have "Row_Descriptor k obj d \<in> set (pe_rows pe)" using that by (auto simp: rows)
      with P show ?thesis unfolding N by blast
    qed
  qed
  with g h show ?thesis by (simp add: N)
qed

text \<open>The children of a page that waits for them are sound or still above it.\<close>

definition stack_ok ::
  "ext \<Rightarrow> disk \<Rightarrow> body_store \<Rightarrow> index \<Rightarrow> pending \<Rightarrow> (string \<times> nat \<times> bool) list \<Rightarrow> bool" where
  "stack_ok X D B ix pe queue \<longleftrightarrow>
     (\<forall>ys h n zs page. queue = ys @ (h, n, True) # zs \<longrightarrow> read_page X D B h = Inr page \<longrightarrow> is_branches page \<longrightarrow>
        (\<forall>c\<in>set (page_values page). c \<in> fst ` set ys \<or> sound_in D B ix pe c))"

lemma stack_ok_pop:
  assumes "stack_ok X D B ix pe ((h, n, e) # queue)" and "grown D B ix pe ix pe'" and "sound_in D B ix pe' h"
  shows "stack_ok X D B ix pe' queue"
  unfolding stack_ok_def
proof (intro allI impI ballI)
  fix ys k m zs page c
  assume q: "queue = ys @ (k, m, True) # zs" and p: "read_page X D B k = Inr page" "is_branches page" "c \<in> set (page_values page)"
  then have "(h, n, e) # queue = ((h, n, e) # ys) @ (k, m, True) # zs" by simp
  with assms(1) p have "c \<in> fst ` set ((h, n, e) # ys) \<or> sound_in D B ix pe c" unfolding stack_ok_def by blast
  with assms(2,3) show "c \<in> fst ` set ys \<or> sound_in D B ix pe' c" by (auto simp: grown_def)
qed

lemma stack_ok_expand:
  assumes ok: "stack_ok X D B ix pe ((h, n, e) # queue)" and page: "read_page X D B h = Inr page"
  shows "stack_ok X D B ix pe (map (\<lambda>c. (c, n + 1, False)) (page_values page) @ (h, n, True) # queue)"
    (is "stack_ok X D B ix pe (?kids @ _)")
  unfolding stack_ok_def
proof (intro allI impI ballI)
  fix ys k m zs page' c
  assume q: "?kids @ (h, n, True) # queue = ys @ (k, m, True) # zs"
    and p: "read_page X D B k = Inr page'" "is_branches page'" "c \<in> set (page_values page')"
  have no: "(k, m, True) \<notin> set ?kids" by auto
  from q obtain us where "?kids = ys @ us \<and> us @ (h, n, True) # queue = (k, m, True) # zs
      \<or> ?kids @ us = ys \<and> (h, n, True) # queue = us @ (k, m, True) # zs"
    by (auto simp: append_eq_append_conv2)
  with no have ys: "ys = ?kids @ us" "(h, n, True) # queue = us @ (k, m, True) # zs"
    by (cases us; auto)+
  show "c \<in> fst ` set ys \<or> sound_in D B ix pe c"
  proof (cases us)
    case Nil
    with ys(2) have "k = h" by simp
    with p page have "c \<in> set (page_values page)" by simp
    then show ?thesis by (force simp: ys(1))
  next
    case (Cons u us')
    with ys(2) have "(h, n, e) # queue = ((h, n, e) # us') @ (k, m, True) # zs" by simp
    with ok p have "c \<in> fst ` set ((h, n, e) # us') \<or> sound_in D B ix pe c" unfolding stack_ok_def by blast
    with Cons ys show ?thesis by auto
  qed
qed

lemma tree_loop_sound:
  assumes "tree_loop X D B ix rel queue seen pe = Inr pe'"
    and "index_ok ix" and "pending_ok D B ix pe" and "stack_ok X D B ix pe queue"
  shows "pending_ok D B ix pe' \<and> grown D B ix pe ix pe'
    \<and> (\<forall>h\<in>fst ` set queue. h \<in> index_nodes ix pe' \<and> sound_in D B ix pe' h)"
  using assms
proof (induction X D B ix rel queue seen pe rule: tree_loop.induct)
  case (1 X D B ix rel seen pe)
  then show ?case by (simp add: tree_loop.simps)
next
  case (2 X D B ix rel h depth expanded queue seen pe)
  note ok = "2.prems"(2-4)
  have rest: ?case if loop: "tree_loop X D B ix rel queue seen' pe1 = Inr pe'" and pe1: "pending_ok D B ix pe1" "grown D B ix pe ix pe1"
      and h: "h \<in> index_nodes ix pe1" "sound_in D B ix pe1 h"
      and IH: "stack_ok X D B ix pe1 queue \<Longrightarrow> pending_ok D B ix pe' \<and> grown D B ix pe1 ix pe'
        \<and> (\<forall>h\<in>fst ` set queue. h \<in> index_nodes ix pe' \<and> sound_in D B ix pe' h)" for seen' pe1
  proof -
    have "stack_ok X D B ix pe1 queue" by (rule stack_ok_pop [OF ok(3) pe1(2) h(2)])
    note I = IH [OF this]
    with h have "h \<in> index_nodes ix pe' \<and> sound_in D B ix pe' h" by (auto simp: grown_def)
    with I grown_trans [OF pe1(2)] show ?thesis by simp
  qed
  show ?case
  proof (cases "node_kind ix pe h")
    case (Some existing)
    with "2.prems"(1) have k: "existing = reference_kind rel"
      and v: "(if map_of (pe_nodes pe) h = None then validate_cached_reference D B ix h else Inr ()) = Inr ()"
      and loop: "tree_loop X D B ix rel queue seen pe = Inr pe'"
      by (auto simp: tree_loop.simps(2) bindE_Inr split: if_splits)
    have h: "h \<in> index_nodes ix pe \<and> sound_in D B ix pe h"
    proof (cases "map_of (pe_nodes pe) h = None")
      case True
      with v have "sound_in D B ix no_pending h" by (auto intro: cached_reference_sound)
      moreover have "h \<in> fst ` set (ix_nodes ix)"
        using Some True by (auto simp: node_kind_def has_keys [symmetric] has_def)
      ultimately show ?thesis using pending_sound [OF ok(2)] by (simp add: index_nodes_def)
    next
      case False
      then have "has (pe_nodes pe) h" by (simp add: has_def)
      with ok(2) show ?thesis unfolding pending_ok_def index_nodes_def by blast
    qed
    show ?thesis
    proof (rule rest [OF loop ok(2) grown_refl])
      assume "stack_ok X D B ix pe queue"
      from "2.IH"(3) [OF Some _ v loop ok(1,2) this] k
      show "pending_ok D B ix pe' \<and> grown D B ix pe ix pe'
        \<and> (\<forall>h\<in>fst ` set queue. h \<in> index_nodes ix pe' \<and> sound_in D B ix pe' h)" by simp
    qed (use h in simp_all)
  next
    case None
    let ?seen = "if expanded then seen else h # seen"
    from None "2.prems"(1) obtain page where
      g: "\<not> (depth \<ge> MAX_TREE_DEPTH \<or> (\<not> expanded \<and> (h \<in> set seen \<or> length seen + 1 > MAX_DESCRIPTOR_REFERENCES)))"
      and page: "read_page X D B h = Inr page"
      and run: "(if is_branches page \<and> \<not> expanded
             then tree_loop X D B ix rel
                    (map (\<lambda>c. (c, depth + 1, False)) (page_values page) @ (h, depth, True) # queue) ?seen pe
             else if \<not> is_branches page \<and> is_relations page \<noteq> rel then fail ''reference-kind-mismatch'' 409
             else
               bindE (index_page D B ix (reference_kind rel) h page pe) (\<lambda>pe.
               tree_loop X D B ix rel queue ?seen pe)) = Inr pe'"
      by (auto simp: tree_loop.simps(2) bindE_Inr Let_def split: if_splits)
    show ?thesis
    proof (cases "is_branches page \<and> \<not> expanded")
      case True
      with run have loop: "tree_loop X D B ix rel
          (map (\<lambda>c. (c, depth + 1, False)) (page_values page) @ (h, depth, True) # queue) ?seen pe = Inr pe'" by simp
      from "2.IH"(1) [OF None g refl page True loop ok(1,2) stack_ok_expand [OF ok(3) page]]
      show ?thesis by auto
    next
      case False
      with run obtain pe1 where kind: "\<not> (\<not> is_branches page \<and> is_relations page \<noteq> rel)"
        and join: "index_page D B ix (reference_kind rel) h page pe = Inr pe1"
        and loop: "tree_loop X D B ix rel queue ?seen pe1 = Inr pe'"
        by (auto simp: bindE_Inr split: if_splits)
      have "list_all (sound_in D B ix pe) (page_values page)" if b: "is_branches page"
      proof -
        have "(h, depth, expanded) # queue = [] @ (h, depth, True) # queue" using b False by simp
        with ok(3) page b show ?thesis unfolding stack_ok_def list_all_iff by fastforce
      qed
      moreover have "\<not> has (ix_nodes ix) h" "\<not> has (pe_nodes pe) h"
        using None by (auto simp: node_kind_def has_def split: option.splits)
      ultimately have J: "pending_ok D B ix pe1 \<and> grown D B ix pe ix pe1 \<and> h \<in> index_nodes ix pe1 \<and> sound_in D B ix pe1 h"
        using page_joins [OF ok(1,2) _ _ read_page_present [OF page] _ join] by blast
      show ?thesis
      proof (rule rest [OF loop])
        assume "stack_ok X D B ix pe1 queue"
        from "2.IH"(2) [OF None g refl page False kind join loop ok(1) _ this] J
        show "pending_ok D B ix pe' \<and> grown D B ix pe1 ix pe'
          \<and> (\<forall>h\<in>fst ` set queue. h \<in> index_nodes ix pe' \<and> sound_in D B ix pe' h)" by simp
      qed (use J in simp_all)
    qed
  qed
qed

lemma reference_tree_sound:
  assumes "prepare_reference_tree X D B ix root rel pe = Inr pe'" and "index_ok ix" "pending_ok D B ix pe"
  shows "pending_ok D B ix pe' \<and> grown D B ix pe ix pe' \<and> root \<in> index_nodes ix pe' \<and> sound_in D B ix pe' root"
proof -
  have "stack_ok X D B ix pe [(root, 0, False)]" by (auto simp: stack_ok_def Cons_eq_append_conv)
  from tree_loop_sound [OF assms(1) [unfolded prepare_reference_tree_def] assms(2,3) this] show ?thesis by simp
qed

section \<open>Preparing changes\<close>

lemma pending_describes:
  assumes ok: "pending_ok D B ix pe" and d: "present D B h" "satisfied D B ix pe d"
    and nodes: "pe_nodes pe' = pe_nodes pe" and descriptors: "pe_descriptors pe' = bt_insert h d (pe_descriptors pe)"
    and rows: "pe_rows pe' = pe_rows pe @ rs" "set rs \<subseteq> {Row_Descriptor h obj d}"
  shows "pending_ok D B ix pe' \<and> grown D B ix pe ix pe' \<and> satisfied D B ix pe' d"
proof -
  have N: "index_nodes ix pe' = index_nodes ix pe" using rows by (auto simp: index_nodes_def)
  have S: "sound_in D B ix pe' = sound_in D B ix pe"
  proof -
    have "index_edges t ix pe' = index_edges t ix pe" for t using rows by (auto simp: index_edges_def)
    then show ?thesis by (simp add: sound_in_def)
  qed
  have T: "satisfied D B ix pe' = satisfied D B ix pe" by (rule ext) (simp add: satisfied_def N S)
  note P = ok [unfolded pending_ok_def]
  have node_rows: "Row_Node k n \<in> set (pe_rows pe') \<longleftrightarrow> Row_Node k n \<in> set (pe_rows pe)" for k n using rows by auto
  have edge_rows: "Row_Edge t r v \<in> set (pe_rows pe') \<longleftrightarrow> Row_Edge t r v \<in> set (pe_rows pe)" for t r v using rows by auto
  have "pending_ok D B ix pe'"
    unfolding pending_ok_def nodes node_rows edge_rows N S T
  proof (intro conjI allI impI)
    show "bt_inv (pe_descriptors pe')" using P by (simp add: descriptors bt_inv_insert)
    show "present D B k" "satisfied D B ix pe d'" if "map_of (pe_descriptors pe') k = Some d'" for k d'
      using that d P by (auto simp: descriptors map_of_bt_insert split: if_splits)
    show "set (roots_of d') \<subseteq> index_nodes ix pe" if "Row_Descriptor k o' d' \<in> set (pe_rows pe')" for k o' d'
    proof (cases "Row_Descriptor k o' d' \<in> set (pe_rows pe)")
      case False
      with that rows have "d' = d" by auto
      with d(2) show ?thesis by (auto simp: satisfied_def list_all_iff)
    qed (use P in blast)
  qed (use P in blast)+
  then show ?thesis using d(2) by (simp add: grown_def N S T)
qed

lemma prepare_fresh_steps:
  assumes "prepare_fresh X D B ix h pe = Inr (d, pe')"
  obtains bs pe1 pe2 where "missing_dependency (get_object (sha256 X) D B h) = Inr bs"
    "present D B (object_hash d)" "list_all (present D B) (dependencies d)"
    "(case dependency_root d of None \<Rightarrow> Inr pe | Some root \<Rightarrow> prepare_reference_tree X D B ix root False pe) = Inr pe1"
    "(case relation_root d of None \<Rightarrow> Inr pe1 | Some root \<Rightarrow> prepare_reference_tree X D B ix root True pe1) = Inr pe2"
    "\<exists>n. add_descriptor h (object_hash d) d n pe2 = pe'"
proof -
  from assms show ?thesis
    unfolding prepare_fresh_def bindE_Inr require_present_Inr
    by (elim exE conjE) (rule that, assumption, simp_all, blast)
qed

lemma descriptor_prepared:
  assumes p: "prepare_descriptor X D B ix h pe = Inr (d, pe')" and ok: "index_ok ix" "pending_ok D B ix pe"
  shows "pending_ok D B ix pe' \<and> grown D B ix pe ix pe' \<and> present D B h \<and> satisfied D B ix pe' d"
proof (cases "map_of (pe_descriptors pe) h")
  case (Some d')
  with p have "d' = d" "pe' = pe" by (simp_all add: prepare_descriptor_def)
  moreover from this Some ok(2) have "present D B h \<and> satisfied D B ix pe d" unfolding pending_ok_def by blast
  ultimately show ?thesis using ok(2) by simp
next
  case None
  show ?thesis
  proof (cases "map_of (ix_descriptors ix) h")
    case (Some entry)
    obtain obj d' where e: "entry = (obj, d')" by (cases entry)
    with Some None p have c: "prepare_cached X D B ix h d' pe = Inr (d, pe')" by (simp add: prepare_descriptor_def)
    then have d: "d' = d" and pe': "pe' = remember_descriptor h d pe"
      and here: "list_all (present D B) (h # object_hash d # dependencies d)"
      and roots: "list_all (\<lambda>r. validate_cached_reference D B ix r = Inr ()) (roots_of d)"
      by (auto simp: prepare_cached_def bindE_Inr require_present_Inr foldE_all split: if_splits)
    have "(h, obj, d) \<in> set (ix_descriptors ix)" using Some e d by (auto dest: map_of_SomeD)
    with ok(1) have "set (roots_of d) \<subseteq> index_nodes ix pe" by (auto simp: index_ok_def index_nodes_def)
    moreover have "sound_in D B ix pe r" if "r \<in> set (roots_of d)" for r
      using that roots pending_sound [OF ok(2) cached_reference_sound] by (auto simp: list_all_iff)
    ultimately have "satisfied D B ix pe d" using here by (auto simp: satisfied_def list_all_iff)
    from pending_describes [OF ok(2) _ this, of h pe' "[]"] here show ?thesis by (simp add: pe' remember_descriptor_def)
  next
    case none: None
    with None p have "prepare_fresh X D B ix h pe = Inr (d, pe')" by (simp add: prepare_descriptor_def)
    then obtain bs pe1 pe2 where bs: "missing_dependency (get_object (sha256 X) D B h) = Inr bs"
      and here: "present D B (object_hash d)" "list_all (present D B) (dependencies d)"
      and r1: "(case dependency_root d of None \<Rightarrow> Inr pe | Some root \<Rightarrow> prepare_reference_tree X D B ix root False pe) = Inr pe1"
      and r2: "(case relation_root d of None \<Rightarrow> Inr pe1 | Some root \<Rightarrow> prepare_reference_tree X D B ix root True pe1) = Inr pe2"
      and "\<exists>n. add_descriptor h (object_hash d) d n pe2 = pe'"
      by (rule prepare_fresh_steps)
    then obtain n where pe': "pe' = add_descriptor h (object_hash d) d n pe2" by blast
    have "get_object (sha256 X) D B h = Inr bs"
      using bs by (auto simp: missing_dependency_def split: sum.splits failure.splits if_splits)
    then have h: "present D B h" by (rule get_object_present)
    have 1: "pending_ok D B ix pe1 \<and> grown D B ix pe ix pe1
        \<and> (\<forall>r\<in>set_option (dependency_root d). r \<in> index_nodes ix pe1 \<and> sound_in D B ix pe1 r)"
      using r1 ok reference_tree_sound [OF _ ok] by (cases "dependency_root d") auto
    have 2: "pending_ok D B ix pe2 \<and> grown D B ix pe1 ix pe2
        \<and> (\<forall>r\<in>set_option (relation_root d). r \<in> index_nodes ix pe2 \<and> sound_in D B ix pe2 r)"
      using r2 1 reference_tree_sound [OF _ ok(1)] by (cases "relation_root d") auto
    have "satisfied D B ix pe2 d"
      using here 1 2 by (auto simp: satisfied_def list_all_iff roots_of_def opt_list_def grown_def split: option.splits)
    from pending_describes [OF _ h this, of pe' "[Row_Descriptor h (object_hash d) d]"] 1 2
    show ?thesis by (auto simp: pe' add_descriptor_def h intro: grown_trans)
  qed
qed

lemma bt_insert_subset: "set (bt_insert k v xs) \<subseteq> insert (k, v) (set xs)"
  by (induction k v xs rule: bt_insert.induct) auto

lemma row_written:
  assumes "write_row B ix row = Inr ix'"
  shows "(h \<in> fst ` set (ix_nodes ix') \<longleftrightarrow> h \<in> fst ` set (ix_nodes ix) \<or> (\<exists>n. row = Row_Node h n))
    \<and> ((r, v) \<in> set (ix_edges ix' t) \<longleftrightarrow> (r, v) \<in> set (ix_edges ix t) \<or> row = Row_Edge t r v)
    \<and> ((h, obj, d) \<in> set (ix_descriptors ix') \<longrightarrow>
         (h, obj, d) \<in> set (ix_descriptors ix) \<or> row = Row_Descriptor h obj d)"
proof (cases row)
  case (Row_Node k n)
  then consider "ix' = ix" "k \<in> fst ` set (ix_nodes ix)" | "ix' = ix\<lparr>ix_nodes := bt_insert k n (ix_nodes ix)\<rparr>"
    using assms by (auto simp: write_row_def has_keys split: if_splits)
  then show ?thesis
  proof cases
    case 1
    then show ?thesis using Row_Node by auto
  next
    case 2
    then have "fst ` set (ix_nodes ix') = insert k (fst ` set (ix_nodes ix))" by (simp add: keys_bt_insert)
    with 2 Row_Node show ?thesis by auto
  qed
next
  case (Row_Descriptor k obj d)
  with assms show ?thesis using bt_insert_subset [of k "(obj, d)" "ix_descriptors ix"]
    by (auto simp: write_row_def split: if_splits)
next
  case (Row_Edge t' r' v')
  with assms show ?thesis by (auto simp: write_row_def split: if_splits)
qed

lemma rows_written:
  assumes "foldE (write_row B) ix rows = Inr ix'"
  shows "(h \<in> fst ` set (ix_nodes ix') \<longleftrightarrow> h \<in> fst ` set (ix_nodes ix) \<or> (\<exists>n. Row_Node h n \<in> set rows))
    \<and> ((r, v) \<in> set (ix_edges ix' t) \<longleftrightarrow> (r, v) \<in> set (ix_edges ix t) \<or> Row_Edge t r v \<in> set rows)
    \<and> ((h, obj, d) \<in> set (ix_descriptors ix') \<longrightarrow>
         (h, obj, d) \<in> set (ix_descriptors ix) \<or> Row_Descriptor h obj d \<in> set rows)"
  using assms
proof (induction rows arbitrary: ix)
  case (Cons row rows)
  then obtain ix1 where s: "write_row B ix row = Inr ix1" and r: "foldE (write_row B) ix1 rows = Inr ix'"
    by (auto simp: bindE_Inr)
  from Cons.IH [OF r] row_written [OF s, of h r v t obj d] show ?case by (simp only: set_simps insert_iff) metis
qed simp

lemma flushed:
  assumes f: "flush B pe ix = Inr ix'" and ok: "index_ok ix" "pending_ok D B ix pe"
  shows "index_ok ix' \<and> grown D B ix pe ix' no_pending"
proof -
  note W = rows_written [OF f [unfolded flush_def]]
  have N: "fst ` set (ix_nodes ix') = index_nodes ix pe"
    by (rule set_eqI) (use W in \<open>simp only: index_nodes_def Un_iff mem_Collect_eq\<close>)
  have E: "set (ix_edges ix' t) = index_edges t ix pe" for t
    by (rule set_eqI) (use W in \<open>auto simp only: index_edges_def Un_iff mem_Collect_eq split: prod.split\<close>)
  have "index_nodes ix' no_pending = index_nodes ix pe"
    unfolding index_nodes_def [of ix'] N by (simp add: no_pending_def)
  moreover have "index_edges t ix' no_pending = index_edges t ix pe" for t
    unfolding index_edges_def [of t ix'] E by (simp add: no_pending_def)
  ultimately have g: "grown D B ix pe ix' no_pending" by (simp add: grown_def sound_in_def)
  have "fst ` set (ix_edges ix' t) \<subseteq> fst ` set (ix_nodes ix')" for t
  proof
    fix r
    assume "r \<in> fst ` set (ix_edges ix' t)"
    then obtain v where "(r, v) \<in> index_edges t ix pe" unfolding E by force
    then consider "(r, v) \<in> set (ix_edges ix t)" | "Row_Edge t r v \<in> set (pe_rows pe)" by (auto simp: index_edges_def)
    then show "r \<in> fst ` set (ix_nodes ix')"
    proof cases
      case 1
      then have "r \<in> fst ` set (ix_edges ix t)" by force
      with ok(1) show ?thesis unfolding N index_nodes_def index_ok_def by blast
    next
      case 2
      with ok(2) show ?thesis unfolding N index_nodes_def pending_ok_def by blast
    qed
  qed
  moreover have "set (roots_of d) \<subseteq> fst ` set (ix_nodes ix')" if "(h, obj, d) \<in> set (ix_descriptors ix')" for h obj d
  proof -
    from that W have "(h, obj, d) \<in> set (ix_descriptors ix) \<or> Row_Descriptor h obj d \<in> set (pe_rows pe)" by blast
    then show ?thesis
    proof
      assume "(h, obj, d) \<in> set (ix_descriptors ix)"
      with ok(1) show ?thesis unfolding N index_nodes_def index_ok_def by blast
    qed (use ok(2) in \<open>unfold N pending_ok_def, blast\<close>)
  qed
  ultimately show ?thesis using g unfolding index_ok_def by blast
qed

lemma no_pending_ok: "pending_ok D B ix no_pending"
  by (simp add: pending_ok_def no_pending_def has_def)

definition change_ready :: "disk \<Rightarrow> body_store \<Rightarrow> index \<Rightarrow> unit_change \<Rightarrow> bool" where
  "change_ready D B ix c =
     (case uc_value c of
        Object h d \<Rightarrow> present D B h \<and> satisfied D B ix no_pending d
      | _ \<Rightarrow> True)"

lemma changes_prepared:
  assumes "prepare_changes X D B cs pe ix = (r, ix')" and "index_ok ix" and "pending_ok D B ix pe"
  shows "index_ok ix' \<and> (r = Inr () \<longrightarrow> grown D B ix pe ix' no_pending \<and> list_all (change_ready D B ix') cs)"
  using assms
proof (induction X D B cs pe ix rule: prepare_changes.induct)
  case (1 X D B pe ix)
  then show ?case using flushed [OF _ "1.prems"(2,3)] by (auto split: sum.splits)
next
  case (2 X D B c cs pe ix)
  show ?case
  proof (cases "uc_value c")
    case (Object h d)
    show ?thesis
    proof (cases "prepare_descriptor X D B ix h pe")
      case (Inl f)
      then show ?thesis using "2.prems" Object by (auto simp: for_key_of_def split: failure.splits)
    next
      case (Inr x)
      obtain found pe1 where x: "x = (found, pe1)" by (cases x)
      have k: "for_key_of (uc_key c) (prepare_descriptor X D B ix h pe) = Inr (found, pe1)"
        using Inr x by (simp add: for_key_of_def)
      show ?thesis
      proof (cases "found = d")
        case True
        note J = descriptor_prepared [OF Inr [unfolded x] "2.prems"(2,3), unfolded True]
        show ?thesis
        proof (cases "is_full pe1")
          case full: True
          show ?thesis
          proof (cases "flush B pe1 ix")
            case (Inl f)
            then show ?thesis using "2.prems" Object k True full by auto
          next
            case (Inr ix1)
            note F = flushed [OF Inr "2.prems"(2)] J
            have loop: "prepare_changes X D B cs no_pending ix1 = (r, ix')"
              using "2.prems"(1) Object k True full Inr by simp
            show ?thesis
              using F "2.IH"(2) [OF Object k refl _ full Inr loop _ no_pending_ok] True Object
              by (auto simp: change_ready_def intro: grown_trans grown_satisfied)
          qed
        next
          case False
          have loop: "prepare_changes X D B cs pe1 ix = (r, ix')" using "2.prems"(1) Object k True False by simp
          show ?thesis
            using J "2.IH"(3) [OF Object k refl _ False loop "2.prems"(2)] True Object
            by (auto simp: change_ready_def intro: grown_trans grown_satisfied)
        qed
      qed (use "2.prems" Object k in auto)
    qed
  qed (use 2 in \<open>auto simp: change_ready_def\<close>)
qed

section \<open>Properties\<close>

text \<open>After the descriptors of a request were prepared, everything they stand for is there: the descriptor,
  its object and its dependencies have bodies, its roots are in the index, and so is, with a body, every page that
  the index reaches from a root and every object of these pages; and what was so of older roots still is. Whatever the outcome, the index stays
  one whose edges and descriptors refer to nodes it has.\<close>

theorem prepared_present:
  assumes "index_ok ix"
  shows "case prepare_descriptors X D B changes ix of
      (r, ix') \<Rightarrow> index_ok ix' \<and>
        (case r of
           Inl _ \<Rightarrow> True
         | Inr _ \<Rightarrow> grown D B ix no_pending ix' no_pending \<and> list_all (change_ready D B ix') changes)"
proof -
  obtain r ix' where p: "prepare_changes X D B changes no_pending ix = (r, ix')" by fastforce
  from changes_prepared [OF p assms no_pending_ok] show ?thesis
    by (cases r) (simp_all add: prepare_descriptors_def p)
qed

end
