(* ===== verification/Spec2Isabelle.thy ===== *)
theory Spec2Isabelle
  imports Delta_Create Batch Descriptor Payload_Value Unit Library_Format Lww_Wire Order Head
    Server_Retention Server_Theorems Stream_Search Payload Small_Objects Body
    Message_Pages Repository Control_Documents Logical_Records Server_Index
begin

text \<open>
  A verification library for the synchronisation and storage core of RisuNest: the formats that a
  device, a sync server and a shared external store exchange, and the store of the server. It
  follows the Rust sources; a theory names the file it translates, and a definition has the name
  of the function it translates, with the type in front where several types have one
  (\<^verbatim>\<open>CatalogDocument::validate\<close> is \<^verbatim>\<open>catalog_validate\<close>).

  \<^bold>\<open>The parts and how they interact.\<close> A library is a map from unit keys to versioned values. Devices
  edit their copies and publish changes; the server keeps the winner of every key by a hybrid
  clock stamp, a journal of the changes for the other devices to follow, retirements, pins of
  whole states and the custody of large objects. Large values travel as objects: cut into payload
  chunks, named by digests, collected in reference pages, sent as batches or as deltas against
  what the other side holds. Without a server, devices publish to an external store: records are
  cut into chunks, packed, sealed into envelopes and referred to by a tree of catalogs, from
  which state documents, heads, backup bundles and points are built.

  \<^bold>\<open>Shared theories.\<close>
  \<^item> \<^verbatim>\<open>Prelude\<close>: results as sums (\<^verbatim>\<open>Inl\<close> is \<^verbatim>\<open>Err\<close>), checked arithmetic on the word types, digests,
    identifiers and decimal numbers (\<^verbatim>\<open>sync-wire/src/lib.rs\<close>, \<^verbatim>\<open>head.rs\<close>). Rust strings are lists of
    characters that stand for their bytes, so that lengths and orders are those of bytes.
  \<^item> \<^verbatim>\<open>Serde\<close>, \<^verbatim>\<open>Serde_Doc\<close>: what the derived serialization makes of the attributes the structures carry:
    renamed, missing, unknown and repeated fields, tagged enums, flattened enums, and integers written
    as decimal strings (\<^verbatim>\<open>control_integer.rs\<close>).
  \<^item> \<^verbatim>\<open>Ordered_Map\<close>: \<^verbatim>\<open>BTreeMap\<close> and the tables of SQLite as sorted association lists; the locales
    \<^verbatim>\<open>table\<close> and \<^verbatim>\<open>canonical_table\<close> state what lookups return after changes.
  \<^item> \<^verbatim>\<open>Io\<close>, \<^verbatim>\<open>Format_Io\<close>: the readers and writers. In the first a file is its bytes and a position, and
    an environment decides how much a read delivers, which steps fail and where the caller cancels;
    in the second a reader is the list of what it will deliver, errors and interruptions included,
    and the locale \<^verbatim>\<open>writer\<close> states what the two kinds of writer promise.
  \<^item> \<^verbatim>\<open>Codec\<close>: the locales \<^verbatim>\<open>codec\<close> and \<^verbatim>\<open>sized_codec\<close>, a printer and a parser that are inverse in both
    directions, with the byte fields as instances; the recipes and the batches add theirs.

  \<^bold>\<open>The wire crate\<close>, \<^verbatim>\<open>crates/sync-wire/src\<close>.
  \<^item> \<^verbatim>\<open>Head\<close> (\<^verbatim>\<open>head.rs\<close>, \<^verbatim>\<open>changes.rs\<close>) and \<^verbatim>\<open>Stamp\<close> (\<^verbatim>\<open>stamp.rs\<close>): sequences and stamps are linear
    orders, instances of \<^verbatim>\<open>linorder\<close>; an issued stamp is strictly after what was seen.
  \<^item> \<^verbatim>\<open>Json\<close> (\<^verbatim>\<open>canonical.rs\<close>), \<^verbatim>\<open>Payload_Value\<close> (\<^verbatim>\<open>payload_value.rs\<close>): the two canonical JSON encodings, the
    order of keys by UTF-16 units, and the agreement of the streaming comparison with the encoder.
  \<^item> \<^verbatim>\<open>Unit\<close> (\<^verbatim>\<open>unit.rs\<close>), \<^verbatim>\<open>Lww_Wire\<close> (\<^verbatim>\<open>lww.rs\<close>), \<^verbatim>\<open>Library_Format\<close> (\<^verbatim>\<open>library_format.rs\<close>), \<^verbatim>\<open>Order\<close> (\<^verbatim>\<open>order.rs\<close>):
    unit keys and values and which of two versions wins, the requests, the level of a library and
    the order in which records are shown. The decision is the same on every replica.
  \<^item> \<^verbatim>\<open>Delta\<close>, \<^verbatim>\<open>Delta_Create\<close> (\<^verbatim>\<open>delta.rs\<close>), \<^verbatim>\<open>Stream_Delta\<close>, \<^verbatim>\<open>Stream_Search\<close> (\<^verbatim>\<open>stream_delta.rs\<close>): recipes that
    rebuild an object from others. Validation accepts exactly the well-formed recipes, application
    refines what the instructions denote, the rolling search finds what hashing every window
    finds, and a recipe found over files rebuilds its target.
  \<^item> \<^verbatim>\<open>Batch\<close> (\<^verbatim>\<open>transfer.rs\<close>), \<^verbatim>\<open>Descriptor\<close> (\<^verbatim>\<open>descriptor.rs\<close>), \<^verbatim>\<open>Payload\<close> (\<^verbatim>\<open>payload.rs\<close>), \<^verbatim>\<open>Body\<close> (\<^verbatim>\<open>body.rs\<close>):
    batches of frames, pages of references with the tree that is built from them and the walk over
    any store, payload chunks with their index, and compressed bodies. Encodings are read back and
    accepted only in their one form; the walk is bounded, ordered and ends.

  \<^bold>\<open>The server\<close>, \<^verbatim>\<open>server/sync/src/store\<close>. \<^verbatim>\<open>Server_State\<close> holds errors and the tables, one record whose
  fields are the tables of \<^verbatim>\<open>schema.rs\<close>, with a row per element in the order of its key; the tables of custody are a record beside it.
  \<^verbatim>\<open>Server_Push\<close> and \<^verbatim>\<open>Server_Read\<close> translate \<^verbatim>\<open>lww.rs\<close> (publication; pages, pins, acknowledgements),
  \<^verbatim>\<open>Server_Registration\<close> \<^verbatim>\<open>registration_claims.rs\<close>, \<^verbatim>\<open>Server_Maintenance\<close> \<^verbatim>\<open>maintenance.rs\<close> and
  \<^verbatim>\<open>Server_Retention\<close> \<^verbatim>\<open>retention.rs\<close>. An operation takes the store and returns its answer and the store
  after it; a transaction that fails leaves the store it began with. \<^verbatim>\<open>Server_Invariant\<close>,
  \<^verbatim>\<open>Server_Apply\<close>, \<^verbatim>\<open>Server_Publish\<close> and \<^verbatim>\<open>Server_Store\<close> prove the invariant of the content and of the
  whole store and the preorder in which stores follow each other; \<^verbatim>\<open>Server_Run\<close> puts requests,
  maintenance and restores into sequences of events from a new library, with the locale
  \<^verbatim>\<open>forward_steps\<close> for what every event keeps; \<^verbatim>\<open>Server_Theorems\<close> states what follows in every store
  that can be reached. \<^verbatim>\<open>Server_Objects\<close> is \<^verbatim>\<open>objects.rs\<close>, the bodies of objects in rows and files, with
  uploads that can be read back; \<^verbatim>\<open>Server_Index\<close> is \<^verbatim>\<open>descriptors.rs\<close> and \<^verbatim>\<open>descriptors_index.rs\<close>, after which
  everything a request refers to is present. Their tables are records beside the store. \<^verbatim>\<open>Small_Objects\<close> is \<^verbatim>\<open>crates/small-object-store\<close>: batches of immutable objects.

  \<^bold>\<open>The external store\<close>, \<^verbatim>\<open>crates/external-storage-format/src\<close>.
  \<^item> \<^verbatim>\<open>Records_Base\<close>, \<^verbatim>\<open>Record_Keys\<close>, \<^verbatim>\<open>Owner_Heads\<close>, \<^verbatim>\<open>Logical_Records\<close> (\<^verbatim>\<open>logical_records.rs\<close>): where a record stands and
    the key it is filed under, the manifests it owns, and its canonical JSON; \<^verbatim>\<open>Message_Pages\<close>
    (\<^verbatim>\<open>message_pages.rs\<close>): the pages of a chat, cut by content, and the repaging of an edited range,
    which is proved equal to paging from scratch.
  \<^item> \<^verbatim>\<open>Pack\<close> (\<^verbatim>\<open>pack.rs\<close>, \<^verbatim>\<open>content_identity.rs\<close>): chunks and pack entries.
  \<^item> \<^verbatim>\<open>Secretstream\<close>, \<^verbatim>\<open>Recovery\<close> (\<^verbatim>\<open>crypto.rs\<close>): the sealed stream, recovery codes and protected settings.
  \<^item> \<^verbatim>\<open>Repository\<close> (\<^verbatim>\<open>format.rs\<close>, \<^verbatim>\<open>catalog.rs\<close>): the descriptor, fingerprints and sorted pages.
  \<^item> \<^verbatim>\<open>Envelope\<close>, \<^verbatim>\<open>Catalog_Tree\<close>, \<^verbatim>\<open>Sync_State\<close> (\<^verbatim>\<open>snapshot.rs\<close>), \<^verbatim>\<open>Sections\<close> (\<^verbatim>\<open>section.rs\<close>),
    \<^verbatim>\<open>Control_Documents\<close> (\<^verbatim>\<open>control.rs\<close>): envelopes, catalogs, states, sections and control payloads. The
    locale of \<^verbatim>\<open>Canonical_Document\<close> states their common discipline, and every document is an instance:
    bytes decode to a document exactly when it is valid and they are its encoding.

  \<^bold>\<open>Parameters.\<close> Code outside the repository is an argument. \<^verbatim>\<open>ext\<close> holds the parser and the printers of
  \<^verbatim>\<open>serde_json\<close>, SHA-256 and base64; a round trip assumes of the parser only that the text in question
  reads back (\<^verbatim>\<open>reads_back\<close>, \<^verbatim>\<open>parses\<close>), which the witnesses show for concrete texts. \<^verbatim>\<open>cipher\<close> is the
  secretstream of \<^verbatim>\<open>dryoc\<close> with the law that a message pulls back under the key and position it was pushed at;
  \<^verbatim>\<open>frames\<close> and \<^verbatim>\<open>zstd\<close> are the compressor, which may fail and need not shrink its input; key
  derivation, the keyed hash and random bytes are functions and arguments. Two theorems assume that the digests of the
  objects at hand differ, \<^verbatim>\<open>build_then_visit\<close> of the pages of one tree and \<^verbatim>\<open>uploads_readable\<close> of the bodies of one upload; elsewhere,
  where two inputs are told apart, the texts that are hashed are.
  Time, fresh identifiers and the outcome of \<^verbatim>\<open>prepare_descriptors\<close> are arguments of a push, the
  failures of the file system and of its transaction are arguments of an upload.

  \<^bold>\<open>Loops.\<close> Every loop of the sources is a total function; most end because what is left to read
  shrinks. Readers end because a list of deliveries is finite. The walk over reference pages, where
  a store may hold cycles, ends because it counts its pages against
  \<^verbatim>\<open>MAX_DESCRIPTOR_REFERENCES\<close>; \<^verbatim>\<open>walk_turns\<close> runs the same loop on a budget of turns and
  shows that a million and one are enough. There is no other fuel.

  \<^bold>\<open>Not modelled.\<close> The server's partial uploads and streamed transfers move spool files between
  threads and rows of SQLite, and the sweep of unreferenced objects is a query over all tables; HTTP, tunnels, configuration and the process around the store are service
  glue. \<^verbatim>\<open>crates/sync-connect\<close>, the desktop and mobile application
  (\<^verbatim>\<open>src-tauri\<close>, the TypeScript front end) and its persistence are outside the development, as
  are \<^verbatim>\<open>cbs-experimental\<close>, logging, the updater, the WebAssembly bindings, the vendored
  plugins, the server manager and the endpoint registry. Concurrency does not appear: the
  sources serialise the transactions of a store, and the model's steps are those transactions.
\<close>

end
